(* ===== verification/Prelude.thy ===== *)
theory Prelude
  imports Main "HOL-Library.Word" "HOL-Library.Signed_Division"
begin

text \<open>
  Shared vocabulary of the development: the result of a Rust call (a value, an
  error value, or a panic), 64-bit offset arithmetic of a release build, the
  slice and copy operations of the standard library, byte/integer conversions,
  the crate-wide error type of \<open>src/src/error.rs\<close>, and the generic lemmas the
  component theories rest on.  The collection \<open>outcome_simps\<close> inverts a
  sequenced computation that returned a value, \<open>blit_simps\<close> holds the facts on
  slices and copies.
\<close>

named_theorems outcome_simps
named_theorems blit_simps

section \<open>Results, errors and panics\<close>

text \<open>A Rust call either returns \<open>Ok\<close>, returns \<open>Err\<close>, or panics (a slice index out of
  range, an \<open>unwrap\<close> of nothing, a failed assertion, a division by zero).\<close>

datatype ('a, 'e) outcome = Ok 'a | Err 'e | Panic

fun and_then :: "('a, 'e) outcome \<Rightarrow> ('a \<Rightarrow> ('b, 'e) outcome) \<Rightarrow> ('b, 'e) outcome" where
  "and_then (Ok a) f = f a"
| "and_then (Err e) f = Err e"
| "and_then Panic f = Panic"

fun map_ok :: "('a \<Rightarrow> 'b) \<Rightarrow> ('a, 'e) outcome \<Rightarrow> ('b, 'e) outcome" where
  "map_ok f (Ok a) = Ok (f a)"
| "map_ok f (Err e) = Err e"
| "map_ok f Panic = Panic"

fun map_err_to :: "('e \<Rightarrow> 'd) \<Rightarrow> ('a, 'e) outcome \<Rightarrow> ('a, 'd) outcome" where
  "map_err_to f (Ok a) = Ok a"
| "map_err_to f (Err e) = Err (f e)"
| "map_err_to f Panic = Panic"

fun is_ok :: "('a, 'e) outcome \<Rightarrow> bool" where
  "is_ok (Ok a) = True"
| "is_ok (Err e) = False"
| "is_ok Panic = False"

fun ok_or :: "'e \<Rightarrow> 'a option \<Rightarrow> ('a, 'e) outcome" where
  "ok_or e (Some a) = Ok a"
| "ok_or e None = Err e"

fun unwrap :: "'a option \<Rightarrow> ('a, 'e) outcome" where
  "unwrap (Some a) = Ok a"
| "unwrap None = Panic"

definition guard :: "bool \<Rightarrow> 'e \<Rightarrow> (unit, 'e) outcome" where
  "guard ok e = (if ok then Ok () else Err e)"

definition assert_that :: "bool \<Rightarrow> (unit, 'e) outcome" where
  "assert_that b = (if b then Ok () else Panic)"

text \<open>\<open>iter().map(f).collect::<Result<Vec<_>, _>>()\<close>, and a \<open>for\<close> loop whose body
  may leave the function.\<close>

fun try_map :: "('a \<Rightarrow> ('b, 'e) outcome) \<Rightarrow> 'a list \<Rightarrow> ('b list, 'e) outcome" where
  "try_map f [] = Ok []"
| "try_map f (x # xs) = and_then (f x) (\<lambda>y. and_then (try_map f xs) (\<lambda>ys. Ok (y # ys)))"

fun try_fold :: "('s \<Rightarrow> 'a \<Rightarrow> ('s, 'e) outcome) \<Rightarrow> 's \<Rightarrow> 'a list \<Rightarrow> ('s, 'e) outcome" where
  "try_fold f s [] = Ok s"
| "try_fold f s (x # xs) = and_then (f s x) (\<lambda>s'. try_fold f s' xs)"

lemma and_then_Ok [outcome_simps]:
  "and_then m f = Ok b \<longleftrightarrow> (\<exists>a. m = Ok a \<and> f a = Ok b)"
  by (cases m) auto

lemma and_then_Err:
  "and_then m f = Err e \<longleftrightarrow> m = Err e \<or> (\<exists>a. m = Ok a \<and> f a = Err e)"
  by (cases m) auto

lemma and_then_Panic:
  "and_then m f = Panic \<longleftrightarrow> m = Panic \<or> (\<exists>a. m = Ok a \<and> f a = Panic)"
  by (cases m) auto

lemma map_ok_Ok [outcome_simps]: "map_ok f m = Ok b \<longleftrightarrow> (\<exists>a. m = Ok a \<and> b = f a)"
  by (cases m) auto

lemma map_err_to_Ok [outcome_simps]: "map_err_to f m = Ok b \<longleftrightarrow> m = Ok b"
  by (cases m) auto

lemma map_err_to_Panic [simp]: "map_err_to f m = Panic \<longleftrightarrow> m = Panic"
  by (cases m) auto

lemma map_ok_Panic [simp]: "map_ok f m = Panic \<longleftrightarrow> m = Panic"
  by (cases m) auto

lemma guard_Ok [outcome_simps]: "guard p e = Ok u \<longleftrightarrow> p"
  by (simp add: guard_def)

lemma guard_True [simp]: "guard True e = Ok ()" and guard_False [simp]: "guard False e = Err e"
  by (simp_all add: guard_def)

lemma assert_that_True [simp]: "assert_that True = Ok ()"
  and assert_that_False [simp]: "assert_that False = Panic"
  by (simp_all add: assert_that_def)

lemma assert_that_Ok [outcome_simps]: "assert_that p = Ok u \<longleftrightarrow> p"
  by (simp add: assert_that_def)

lemma ok_or_Ok [outcome_simps]: "ok_or e x = Ok a \<longleftrightarrow> x = Some a"
  by (cases x) auto

lemma ok_or_total [simp]: "ok_or e x \<noteq> Panic"
  by (cases x) auto

lemma unwrap_Ok [outcome_simps]: "unwrap x = Ok a \<longleftrightarrow> x = Some a"
  by (cases x) auto

lemma is_ok_iff: "is_ok m \<longleftrightarrow> (\<exists>a. m = Ok a)"
  by (cases m) auto

lemma and_then_assoc:
  "and_then (and_then m f) g = and_then m (\<lambda>x. and_then (f x) g)"
  by (cases m) auto

lemma try_map_all_Ok:
  assumes "\<And>x. x \<in> set xs \<Longrightarrow> f x = Ok (g x)"
  shows "try_map f xs = Ok (map g xs)"
  using assms by (induction xs) auto

lemma try_map_Ok_length: "try_map f xs = Ok ys \<Longrightarrow> length ys = length xs"
  by (induction xs arbitrary: ys) (auto simp: outcome_simps)

lemma try_map_Ok_nth:
  "try_map f xs = Ok ys \<Longrightarrow> i < length xs \<Longrightarrow> f (xs ! i) = Ok (ys ! i)"
  by (induction xs arbitrary: ys i) (auto simp: outcome_simps nth_Cons split: nat.split)

lemma try_fold_append:
  "try_fold f s (xs @ ys) = and_then (try_fold f s xs) (\<lambda>s'. try_fold f s' ys)"
  by (induction xs arbitrary: s) (auto simp: and_then_assoc)

lemma try_fold_cong: "(\<And>p s. p \<in> set ps \<Longrightarrow> f s p = g s p) \<Longrightarrow> try_fold f s ps = try_fold g s ps"
proof (induction ps arbitrary: s)
  case (Cons p ps)
  have "f s p = g s p" using Cons.prems by simp
  moreover have "try_fold f s' ps = try_fold g s' ps" for s' using Cons by simp
  ultimately show ?case by (cases "g s p") simp_all
qed simp

text \<open>The loop rule: an invariant that every step keeps holds at the end of the loop.\<close>

lemma try_fold_invariant:
  assumes "try_fold f s xs = Ok s'" and "P s"
    and "\<And>s x s'. x \<in> set xs \<Longrightarrow> P s \<Longrightarrow> f s x = Ok s' \<Longrightarrow> P s'"
  shows "P s'"
  using assms by (induction xs arbitrary: s) (auto simp: outcome_simps)

lemma try_fold_total:
  assumes "P s"
    and "\<And>s x. x \<in> set xs \<Longrightarrow> P s \<Longrightarrow> \<exists>s'. f s x = Ok s' \<and> P s'"
  shows "\<exists>s'. try_fold f s xs = Ok s' \<and> P s'"
  using assms
proof (induction xs arbitrary: s)
  case (Cons x xs)
  obtain s1 where "f s x = Ok s1" "P s1" using Cons.prems by auto
  then show ?case using Cons.IH [of s1] Cons.prems by auto
qed simp

section \<open>Stateful calls\<close>

text \<open>A call on a mutable object: its outcome together with the object it leaves, also when
  it fails.\<close>

type_synonym ('s, 'a, 'e) call = "'s \<Rightarrow> ('a, 'e) outcome \<times> 's"

definition done_with :: "'a \<Rightarrow> ('s, 'a, 'e) call" where
  "done_with a = (\<lambda>s. (Ok a, s))"

definition lift_outcome :: "('a, 'e) outcome \<Rightarrow> ('s, 'a, 'e) call" where
  "lift_outcome r = (\<lambda>s. (r, s))"

definition seq :: "('s, 'a, 'e) call \<Rightarrow> ('a \<Rightarrow> ('s, 'b, 'e) call) \<Rightarrow> ('s, 'b, 'e) call" where
  "seq m f = (\<lambda>s. case m s of
      (Ok a, s') \<Rightarrow> f a s'
    | (Err e, s') \<Rightarrow> (Err e, s')
    | (Panic, s') \<Rightarrow> (Panic, s'))"

fun each_call :: "('a \<Rightarrow> ('s, 'b, 'e) call) \<Rightarrow> 'a list \<Rightarrow> ('s, 'b list, 'e) call" where
  "each_call f [] = done_with []"
| "each_call f (x # xs) = seq (f x) (\<lambda>y. seq (each_call f xs) (\<lambda>ys. done_with (y # ys)))"

lemma done_with_apply [simp]: "done_with a s = (Ok a, s)"
  by (simp add: done_with_def)

lemma lift_outcome_apply [simp]: "lift_outcome r s = (r, s)"
  by (simp add: lift_outcome_def)

lemma seq_Ok [simp]: "m s = (Ok a, s') \<Longrightarrow> seq m f s = f a s'"
  and seq_Err [simp]: "m s = (Err e, s') \<Longrightarrow> seq m f s = (Err e, s')"
  and seq_Panic [simp]: "m s = (Panic, s') \<Longrightarrow> seq m f s = (Panic, s')"
  by (simp_all add: seq_def)

lemma seq_done_with [simp]: "seq (done_with a) f = f a"
  by (simp add: seq_def fun_eq_iff)

section \<open>Offsets of 64 bits\<close>

text \<open>\<open>u64\<close> and \<open>usize\<close> values are natural numbers below \<open>U64\<close>.  The release profile of
  the crate leaves overflow checks off, so sums and products wrap.\<close>

definition U64 :: nat where "U64 = 2 ^ 64"

definition add64 :: "nat \<Rightarrow> nat \<Rightarrow> nat" where "add64 a b = (a + b) mod U64"

definition sub64 :: "nat \<Rightarrow> nat \<Rightarrow> nat" where "sub64 a b = (a + (U64 - b mod U64)) mod U64"

definition mul64 :: "nat \<Rightarrow> nat \<Rightarrow> nat" where "mul64 a b = (a * b) mod U64"

fun checked_add64 :: "nat \<Rightarrow> nat \<Rightarrow> nat option" where
  "checked_add64 a b = (if a + b < U64 then Some (a + b) else None)"

fun checked_mul64 :: "nat \<Rightarrow> nat \<Rightarrow> nat option" where
  "checked_mul64 a b = (if a * b < U64 then Some (a * b) else None)"

definition div_ceil :: "nat \<Rightarrow> nat \<Rightarrow> nat" where
  "div_ceil a b = (if a mod b = 0 then a div b else a div b + 1)"

definition mul32 :: "nat \<Rightarrow> nat \<Rightarrow> nat" where
  "mul32 a b = (a * b) mod 2 ^ 32"

definition add32 :: "nat \<Rightarrow> nat \<Rightarrow> nat" where
  "add32 a b = (a + b) mod 2 ^ 32"

definition sub32 :: "nat \<Rightarrow> nat \<Rightarrow> nat" where
  "sub32 a b = (a + (2 ^ 32 - b mod 2 ^ 32)) mod 2 ^ 32"

text \<open>Unsigned division panics on a zero divisor.\<close>

definition div_or_panic :: "nat \<Rightarrow> nat \<Rightarrow> (nat, 'e) outcome" where
  "div_or_panic a b = (if b = 0 then Panic else Ok (a div b))"

definition div_ceil_or_panic :: "nat \<Rightarrow> nat \<Rightarrow> (nat, 'e) outcome" where
  "div_ceil_or_panic a b = (if b = 0 then Panic else Ok (div_ceil a b))"

lemma U64_pos [simp]: "0 < U64" by (simp add: U64_def)

lemma add64_id [simp]: "a + b < U64 \<Longrightarrow> add64 a b = a + b"
  by (simp add: add64_def)

lemma mul64_id [simp]: "a * b < U64 \<Longrightarrow> mul64 a b = a * b"
  by (simp add: mul64_def)

lemma sub64_id [simp]:
  assumes "b \<le> a" "a < U64"
  shows "sub64 a b = a - b"
proof -
  have "a + (U64 - b) = (a - b) + U64" using assms by simp
  then have "(a + (U64 - b)) mod U64 = (a - b) mod U64"
    by (simp only: mod_add_self2)
  then show ?thesis using assms by (simp add: sub64_def)
qed

lemma sub32_id: "b \<le> a \<Longrightarrow> a < 2 ^ 32 \<Longrightarrow> sub32 a b = a - b"
proof -
  assume "b \<le> a" "a < 2 ^ 32"
  then have "a + (2 ^ 32 - b) = (a - b) + 2 ^ 32" by simp
  then have "(a + (2 ^ 32 - b)) mod 2 ^ 32 = (a - b) mod 2 ^ 32" by (simp only: mod_add_self2)
  then show ?thesis using \<open>b \<le> a\<close> \<open>a < 2 ^ 32\<close> by (simp add: sub32_def)
qed

lemma less_div_ceil:
  assumes "0 < b"
  shows "k < div_ceil a b \<longleftrightarrow> k * b < a"
proof -
  have split: "a div b * b + a mod b = a" by (rule div_mult_mod_eq)
  have lt: "k < a div b \<longleftrightarrow> (k + 1) * b \<le> a"
    using assms by (simp add: less_eq_div_iff_mult_less_eq Suc_le_eq [symmetric])
  consider "k < a div b" | "k = a div b" | "a div b < k" by linarith
  then show ?thesis
  proof cases
    case 1
    then have "k * b < a" using lt assms by simp
    then show ?thesis using 1 by (simp add: div_ceil_def)
  next
    case 2
    have "k * b < a \<longleftrightarrow> a mod b \<noteq> 0" using split unfolding 2 by linarith
    then show ?thesis using 2 by (simp add: div_ceil_def)
  next
    case 3
    then have "a \<le> k * b" using div_less_iff_less_mult [OF assms, of a k] by simp
    then show ?thesis using 3 by (simp add: div_ceil_def)
  qed
qed

lemma div_ceil_mult:
  assumes "0 < b"
  shows "a \<le> div_ceil a b * b"
proof -
  have "a div b * b + a mod b = a" by (rule div_mult_mod_eq)
  moreover have "a mod b < b" using assms by simp
  ultimately have "a \<le> (a div b + 1) * b" unfolding add_mult_distrib by linarith
  then show ?thesis using \<open>a div b * b + a mod b = a\<close> by (auto simp: div_ceil_def)
qed

lemma div_ceil_le:
  assumes "0 < b" "a \<le> k * b"
  shows "div_ceil a b \<le> k"
proof (cases "a mod b = 0")
  case True
  then show ?thesis using assms by (auto simp: div_ceil_def)
next
  case False
  have "a div b * b + a mod b = a" by (rule div_mult_mod_eq)
  with False assms(2) have "a div b * b < k * b" by linarith
  then show ?thesis using False by (simp add: div_ceil_def)
qed

section \<open>Bytes, slices and copies\<close>

type_synonym byte = "8 word"

text \<open>\<open>xs[a..b]\<close>, \<open>xs[i]\<close>, and \<open>dst[o..o + src.len()].copy_from_slice(src)\<close>.\<close>

definition slice :: "nat \<Rightarrow> nat \<Rightarrow> 'a list \<Rightarrow> ('a list, 'e) outcome" where
  "slice a b xs = (if a \<le> b \<and> b \<le> length xs then Ok (take (b - a) (drop a xs)) else Panic)"

definition get_at :: "nat \<Rightarrow> 'a list \<Rightarrow> 'a option" where
  "get_at i xs = (if i < length xs then Some (xs ! i) else None)"

definition index_at :: "nat \<Rightarrow> 'a list \<Rightarrow> ('a, 'e) outcome" where
  "index_at i xs = (if i < length xs then Ok (xs ! i) else Panic)"

definition set_at :: "nat \<Rightarrow> 'a \<Rightarrow> 'a list \<Rightarrow> ('a list, 'e) outcome" where
  "set_at i x xs = (if i < length xs then Ok (xs[i := x]) else Panic)"

definition overwrite :: "nat \<Rightarrow> 'a list \<Rightarrow> 'a list \<Rightarrow> 'a list" where
  "overwrite k src dst = take k dst @ src @ drop (k + length src) dst"

definition blit :: "nat \<Rightarrow> 'a list \<Rightarrow> 'a list \<Rightarrow> ('a list, 'e) outcome" where
  "blit k src dst = (if k + length src \<le> length dst then Ok (overwrite k src dst) else Panic)"

lemma slice_Ok [blit_simps]:
  "slice a b xs = Ok ys \<longleftrightarrow> a \<le> b \<and> b \<le> length xs \<and> ys = take (b - a) (drop a xs)"
  by (auto simp: slice_def)

lemma slice_in [simp]: "a \<le> b \<Longrightarrow> b \<le> length xs \<Longrightarrow> slice a b xs = Ok (take (b - a) (drop a xs))"
  by (simp add: slice_def)

lemma slice_never_Err [simp]: "slice a b xs \<noteq> Err e"
  by (simp add: slice_def)

lemma index_at_Ok [blit_simps]: "index_at i xs = Ok y \<longleftrightarrow> i < length xs \<and> y = xs ! i"
  by (auto simp: index_at_def)

lemma set_at_Ok [blit_simps]: "set_at i x xs = Ok ys \<longleftrightarrow> i < length xs \<and> ys = xs[i := x]"
  by (auto simp: set_at_def)

lemma blit_Ok [blit_simps]:
  "blit k src dst = Ok ys \<longleftrightarrow> k + length src \<le> length dst \<and> ys = overwrite k src dst"
  by (auto simp: blit_def)

lemma blit_in [simp]: "k + length src \<le> length dst \<Longrightarrow> blit k src dst = Ok (overwrite k src dst)"
  by (simp add: blit_def)

lemma length_overwrite [simp]:
  "k + length src \<le> length dst \<Longrightarrow> length (overwrite k src dst) = length dst"
  by (simp add: overwrite_def)

lemma nth_overwrite [blit_simps]:
  assumes "k + length src \<le> length dst" "i < length dst"
  shows "overwrite k src dst ! i =
    (if k \<le> i \<and> i < k + length src then src ! (i - k) else dst ! i)"
  using assms by (auto simp: overwrite_def nth_append min_def)

lemma overwrite_all [simp]: "length src = length dst \<Longrightarrow> overwrite 0 src dst = src"
  by (simp add: overwrite_def)

lemma take_drop_overwrite [simp]:
  "k + length src \<le> length dst \<Longrightarrow> take (length src) (drop k (overwrite k src dst)) = src"
  by (simp add: overwrite_def)

lemma take_drop_eqI:
  assumes "b \<le> length xs" "a \<le> b" "length ys = b - a" "\<And>i. i < b - a \<Longrightarrow> xs ! (a + i) = ys ! i"
  shows "take (b - a) (drop a xs) = ys"
  using assms by (intro nth_equalityI) auto

section \<open>Integers and bytes\<close>

text \<open>Big-endian and little-endian values of a byte list, and the \<open>n\<close> low bytes of a
  number (\<open>to_be_bytes\<close> and \<open>to_le_bytes\<close> at every width).\<close>

definition be_val :: "byte list \<Rightarrow> nat" where
  "be_val bs = foldl (\<lambda>v b. v * 256 + unat b) 0 bs"

definition le_val :: "byte list \<Rightarrow> nat" where
  "le_val bs = be_val (rev bs)"

fun be_bytes :: "nat \<Rightarrow> nat \<Rightarrow> byte list" where
  "be_bytes 0 v = []"
| "be_bytes (Suc n) v = be_bytes n (v div 256) @ [word_of_nat (v mod 256)]"

definition le_bytes :: "nat \<Rightarrow> nat \<Rightarrow> byte list" where
  "le_bytes n v = rev (be_bytes n v)"

lemma be_val_Nil [simp]: "be_val [] = 0"
  by (simp add: be_val_def)

lemma be_val_snoc [simp]: "be_val (bs @ [b]) = be_val bs * 256 + unat b"
  by (simp add: be_val_def)

lemma unat_byte_lt [simp]: "unat (b :: byte) < 256"
  using unsigned_less [where w = b and ?'a = nat] by simp

lemma unat_word_of_mod256 [simp]: "unat (word_of_nat (v mod 256) :: byte) = v mod 256"
  by (simp add: unat_of_nat)

lemma length_be_bytes [simp]: "length (be_bytes n v) = n"
  by (induction n arbitrary: v) auto

lemma length_le_bytes [simp]: "length (le_bytes n v) = n"
  by (simp add: le_bytes_def)

lemma be_val_lt: "be_val bs < 256 ^ length bs"
proof (induction bs rule: rev_induct)
  case (snoc b bs)
  then have "be_val bs + 1 \<le> 256 ^ length bs" by simp
  then have "(be_val bs + 1) * 256 \<le> 256 ^ length bs * 256" by (rule mult_right_mono) simp
  moreover have "w < 256 \<Longrightarrow> (x + 1) * 256 \<le> z \<Longrightarrow> x * 256 + w < z" for x w z :: nat by simp
  ultimately have "be_val bs * 256 + unat b < 256 ^ length bs * 256" using unat_byte_lt by blast
  then show ?case by (simp add: mult.commute)
qed simp

lemma be_val_be_bytes: "be_val (be_bytes n v) = v mod 256 ^ n"
proof (induction n arbitrary: v)
  case (Suc n)
  have "v mod 256 ^ Suc n = v div 256 mod 256 ^ n * 256 + v mod 256"
    by (metis (no_types, lifting) add.commute mod_mult2_eq mult.commute power_Suc)
  then show ?case by (simp add: Suc)
qed simp

lemma be_val_be_bytes_id [simp]: "v < 256 ^ n \<Longrightarrow> be_val (be_bytes n v) = v"
  by (simp add: be_val_be_bytes)

lemma be_bytes_be_val [simp]: "be_bytes (length bs) (be_val bs) = bs"
proof (induction bs rule: rev_induct)
  case (snoc b bs)
  have "(be_val bs * 256 + unat b) div 256 = be_val bs"
    "(be_val bs * 256 + unat b) mod 256 = unat b" by simp_all
  then show ?case using snoc by simp
qed simp

lemma le_val_le_bytes_id [simp]: "v < 256 ^ n \<Longrightarrow> le_val (le_bytes n v) = v"
  by (simp add: le_val_def le_bytes_def)

lemma le_val_lt: "le_val bs < 256 ^ length bs"
  using be_val_lt [of "rev bs"] by (simp add: le_val_def)

lemma le_bytes_le_val [simp]: "le_bytes (length bs) (le_val bs) = bs"
  using be_bytes_be_val [of "rev bs"] by (simp add: le_bytes_def le_val_def)

section \<open>Decimal text\<close>

text \<open>\<open>format!("{}")\<close> and zero-padded \<open>format!("{:0w}")\<close> of an unsigned number, and
  \<open>str::parse\<close> for an unsigned type with an exclusive bound: an optional plus sign, at
  least one digit, no overflow.\<close>

definition digit_char :: "nat \<Rightarrow> char" where
  "digit_char d = char_of (48 + d)"

definition char_digit :: "char \<Rightarrow> nat option" where
  "char_digit c = (if 48 \<le> (of_char c :: nat) \<and> of_char c \<le> (57 :: nat) then Some (of_char c - 48) else None)"

fun show_nat :: "nat \<Rightarrow> string" where
  "show_nat n = (if n < 10 then [digit_char n] else show_nat (n div 10) @ [digit_char (n mod 10)])"

declare show_nat.simps [simp del]

definition zero_pad :: "nat \<Rightarrow> nat \<Rightarrow> string" where
  "zero_pad w n = (let s = show_nat n in replicate (w - length s) (digit_char 0) @ s)"

fun digits_val :: "nat \<Rightarrow> string \<Rightarrow> nat option" where
  "digits_val acc [] = Some acc"
| "digits_val acc (c # cs) =
    (case char_digit c of Some d \<Rightarrow> digits_val (acc * 10 + d) cs | None \<Rightarrow> None)"

definition parse_unsigned :: "nat \<Rightarrow> string \<Rightarrow> nat option" where
  "parse_unsigned bound s =
    (let ds = (case s of c # cs \<Rightarrow> if c = CHR ''+'' then cs else s | [] \<Rightarrow> [])
     in if ds = [] then None
        else case digits_val 0 ds of
          Some n \<Rightarrow> if n < bound then Some n else None
        | None \<Rightarrow> None)"

text \<open>\<open>str::parse::<i64>\<close>: an optional sign, at least one digit, in range.\<close>

definition parse_i64 :: "string \<Rightarrow> 64 word option" where
  "parse_i64 s =
    (case s of
      [] \<Rightarrow> None
    | c # cs \<Rightarrow>
        (if c = CHR ''-'' then
           (if cs = [] then None
            else case digits_val 0 cs of
              Some n \<Rightarrow> if n \<le> 2 ^ 63 then Some (- of_nat n) else None
            | None \<Rightarrow> None)
         else
           (let ds = (if c = CHR ''+'' then cs else s)
            in if ds = [] then None
               else case digits_val 0 ds of
                 Some n \<Rightarrow> if n < 2 ^ 63 then Some (of_nat n) else None
               | None \<Rightarrow> None)))"

lemma of_char_digit: "d < 10 \<Longrightarrow> of_char (digit_char d) = (48 + d :: nat)"
  by (simp add: digit_char_def)

lemma char_digit_digit [simp]: "d < 10 \<Longrightarrow> char_digit (digit_char d) = Some d"
  by (simp add: char_digit_def of_char_digit)

lemma digits_val_append:
  "digits_val a (xs @ ys) = (case digits_val a xs of Some b \<Rightarrow> digits_val b ys | None \<Rightarrow> None)"
  by (induction xs arbitrary: a) (auto split: option.splits)

lemma digits_val_show_nat: "digits_val 0 (show_nat n) = Some n"
proof (induction n rule: show_nat.induct)
  case (1 n)
  show ?case
  proof (cases "n < 10")
    case True
    then show ?thesis by (simp add: show_nat.simps [of n])
  next
    case False
    then show ?thesis using 1 by (simp add: show_nat.simps [of n] digits_val_append)
  qed
qed

lemma digits_val_zeros: "digits_val 0 (replicate k (digit_char 0) @ s) = digits_val 0 s"
  by (induction k) auto

lemma digits_val_zero_pad: "digits_val 0 (zero_pad w n) = Some n"
  by (simp add: zero_pad_def Let_def digits_val_zeros digits_val_show_nat)

lemma show_nat_nonempty [simp]: "show_nat n \<noteq> []"
  by (simp add: show_nat.simps [of n])

lemma show_nat_digits: "c \<in> set (show_nat n) \<Longrightarrow> \<exists>d<10. c = digit_char d"
proof (induction n rule: show_nat.induct)
  case (1 n)
  show ?case
  proof (cases "n < 10 \<or> c = digit_char (n mod 10)")
    case True
    then have "c = digit_char (n mod 10)" using 1(2) by (auto simp: show_nat.simps [of n] split: if_splits)
    moreover have "n mod 10 < 10" by simp
    ultimately show ?thesis by blast
  next
    case False
    then show ?thesis using 1 by (auto simp: show_nat.simps [of n])
  qed
qed

lemma zero_pad_digits: "c \<in> set (zero_pad w n) \<Longrightarrow> \<exists>d<10. c = digit_char d"
  using show_nat_digits by (fastforce simp: zero_pad_def Let_def)

lemma digit_char_values:
  "digit_char 0 = CHR ''0''" "digit_char 1 = CHR ''1''" "digit_char 2 = CHR ''2''"
  "digit_char 3 = CHR ''3''" "digit_char 4 = CHR ''4''" "digit_char 5 = CHR ''5''"
  "digit_char 6 = CHR ''6''" "digit_char 7 = CHR ''7''" "digit_char 8 = CHR ''8''"
  "digit_char 9 = CHR ''9''" "digit_char (Suc 0) = CHR ''1''"
  by (simp_all add: digit_char_def char_of_def bit_0)

lemma digit_char_not_plus:
  assumes "d < 10"
  shows "digit_char d \<noteq> CHR ''+''"
proof
  assume "digit_char d = CHR ''+''"
  then have "of_char (digit_char d) = (43 :: nat)" by simp
  then show False using of_char_digit [OF assms] by simp
qed

lemma length_show_nat_le:
  "n < 10 ^ w \<Longrightarrow> 0 < w \<Longrightarrow> length (show_nat n) \<le> w"
proof (induction n arbitrary: w rule: show_nat.induct)
  case (1 n)
  show ?case
  proof (cases "n < 10")
    case True
    then show ?thesis using 1(3) by (simp add: show_nat.simps [of n])
  next
    case False
    obtain v where w: "w = Suc v" using 1(3) by (cases w) auto
    have v: "w = Suc v" "0 < v" using 1(2) False w by (cases v; simp)+
    then have "n div 10 < 10 ^ v" using 1(2) by (simp add: div_less_iff_less_mult)
    then have "length (show_nat (n div 10)) \<le> v" using 1(1) False v by blast
    then show ?thesis using False v by (simp add: show_nat.simps [of n])
  qed
qed

lemma length_zero_pad: "n < 10 ^ w \<Longrightarrow> 0 < w \<Longrightarrow> length (zero_pad w n) = w"
  using length_show_nat_le [of n w] by (simp add: zero_pad_def Let_def)

lemma parse_unsigned_digits:
  assumes "s \<noteq> []" "digits_val 0 s = Some n" "n < bound" "\<forall>c\<in>set s. \<exists>d<10. c = digit_char d"
  shows "parse_unsigned bound s = Some n"
proof -
  have "hd s \<noteq> CHR ''+''" using assms(1,4) digit_char_not_plus by (cases s) auto
  then show ?thesis using assms by (cases s) (auto simp: parse_unsigned_def)
qed

lemma parse_zero_pad [simp]:
  assumes "n < bound"
  shows "parse_unsigned bound (zero_pad w n) = Some n"
  by (rule parse_unsigned_digits)
    (use assms zero_pad_digits digits_val_zero_pad in \<open>auto simp: zero_pad_def Let_def\<close>)

section \<open>The crate-wide error type\<close>

text \<open>\<open>CodecError\<close>: the constructors and structured fields of the source; the
  free-text messages are omitted.\<close>

datatype codec_error =
    IoError
  | InvalidFormat
  | Unsupported
  | Decode
  | Encode
  | AssetNotFound string
  | InvalidBlockCoordinates nat nat nat
  | InvalidResolutionLevel nat
  | ParseError
  | DuplicateKey string
  | InvalidResolutionLevelRange nat nat nat
  | J2KDecode nat
  | J2KEncode nat nat nat nat bool
  | BlockNotFound nat nat
  | MissingBlocks nat nat string
  | InvalidMaskTable
  | PythonError
  | RemoteError

end
