(* ===== verification/Range_Cache.thy ===== *)
theory Range_Cache
  imports Prelude "HOL-Library.Multiset"
begin

text \<open>
  The resident-range cache of \<open>src/src/remote/cache.rs\<close>: fetched byte ranges kept
  sorted, disjoint and merged.  The abstract state of a cache is the partial map
  \<open>resident\<close> from absolute file offsets to bytes; \<open>cache_inv\<close> is the layout
  invariant (sorted by start, a gap of at least one byte between two ranges, no
  empty range, no range past the 64-bit offsets).  The lemmas show that every
  operation keeps the invariant and implements its effect on that map, and the
  locale \<open>range_store\<close> is the interface the fetcher relies on.
\<close>

section \<open>State and operations\<close>

record cached_range =
  start :: nat
  data :: "byte list"

definition cached :: "nat \<Rightarrow> byte list \<Rightarrow> cached_range" where
  "cached s d = \<lparr>start = s, data = d\<rparr>"

definition range_end :: "cached_range \<Rightarrow> nat" where
  "range_end r = add64 (start r) (length (data r))"

definition covers :: "cached_range \<Rightarrow> nat \<Rightarrow> nat \<Rightarrow> bool" where
  "covers r s e \<longleftrightarrow> start r \<le> s \<and> e \<le> range_end r"

record range_cache =
  ranges :: "cached_range list"

definition cache_new :: range_cache where
  "cache_new = \<lparr>ranges = []\<rparr>"

definition cache_get :: "range_cache \<Rightarrow> nat \<Rightarrow> nat \<Rightarrow> (byte list option, codec_error) outcome" where
  "cache_get c offset len =
    (let e = add64 offset len in
     if len = 0 then Ok (Some [])
     else case find (\<lambda>r. covers r offset e) (ranges c) of
       Some r \<Rightarrow>
         (let loc = sub64 offset (start r)
          in map_ok Some (slice loc (add64 loc len) (data r)))
     | None \<Rightarrow> Ok None)"

definition cache_contains :: "range_cache \<Rightarrow> nat \<Rightarrow> nat \<Rightarrow> bool" where
  "cache_contains c offset len =
    (if len = 0 then True
     else let e = add64 offset len in list_ex (\<lambda>r. covers r offset e) (ranges c))"

definition ranges_touch :: "cached_range \<Rightarrow> cached_range \<Rightarrow> bool" where
  "ranges_touch a b \<longleftrightarrow> start a \<le> range_end b \<and> start b \<le> range_end a"

definition merge_ranges :: "cached_range \<Rightarrow> cached_range \<Rightarrow> (cached_range, codec_error) outcome" where
  "merge_ranges a b =
    (let s = min (start a) (start b);
         e = max (range_end a) (range_end b);
         d = replicate (sub64 e s) (0 :: byte)
     in and_then (blit (sub64 (start b) s) (data b) d) (\<lambda>d1.
        and_then (blit (sub64 (start a) s) (data a) d1) (\<lambda>d2.
        Ok (cached s d2))))"

fun absorb ::
  "cached_range list \<times> cached_range \<Rightarrow> cached_range \<Rightarrow> (cached_range list \<times> cached_range, codec_error) outcome" where
  "absorb (merged, new) existing =
    (if ranges_touch existing new
     then map_ok (\<lambda>n. (merged, n)) (merge_ranges existing new)
     else Ok (merged @ [existing], new))"

definition cache_insert :: "range_cache \<Rightarrow> nat \<Rightarrow> byte list \<Rightarrow> (range_cache, codec_error) outcome" where
  "cache_insert c s d =
    (if d = [] then Ok c
     else and_then (try_fold absorb ([], cached s d) (ranges c)) (\<lambda>(merged, new).
       Ok (c\<lparr>ranges := sort_key start (merged @ [new])\<rparr>)))"

definition resident_bytes :: "range_cache \<Rightarrow> nat" where
  "resident_bytes c = sum_list (map (\<lambda>r. length (data r)) (ranges c))"

section \<open>Abstract state and invariant\<close>

definition byte_at :: "cached_range \<Rightarrow> nat \<Rightarrow> byte option" where
  "byte_at r p =
    (if start r \<le> p \<and> p < start r + length (data r) then Some (data r ! (p - start r)) else None)"

definition orelse :: "'a option \<Rightarrow> 'a option \<Rightarrow> 'a option" where
  "orelse x y = (case x of Some a \<Rightarrow> Some a | None \<Rightarrow> y)"

fun resident_in :: "cached_range list \<Rightarrow> nat \<Rightarrow> byte option" where
  "resident_in [] p = None"
| "resident_in (r # rs) p = orelse (byte_at r p) (resident_in rs p)"

definition resident :: "range_cache \<Rightarrow> nat \<Rightarrow> byte option" where
  "resident c = resident_in (ranges c)"

definition wf_range :: "cached_range \<Rightarrow> bool" where
  "wf_range r \<longleftrightarrow> data r \<noteq> [] \<and> start r + length (data r) < U64"

definition gap :: "cached_range \<Rightarrow> cached_range \<Rightarrow> bool" where
  "gap a b \<longleftrightarrow> start a + length (data a) < start b"

definition cache_inv :: "range_cache \<Rightarrow> bool" where
  "cache_inv c \<longleftrightarrow> list_all wf_range (ranges c) \<and> sorted_wrt gap (ranges c)"

text \<open>Order-free form of the layout, which the merge loop works with.\<close>

definition apart :: "cached_range \<Rightarrow> cached_range \<Rightarrow> bool" where
  "apart a b \<longleftrightarrow> gap a b \<or> gap b a"

definition spaced :: "cached_range list \<Rightarrow> bool" where
  "spaced rs \<longleftrightarrow> list_all wf_range rs \<and> sorted_wrt apart rs"

section \<open>Lemmas on ranges\<close>

lemma orelse_simps [simp]:
  "orelse None y = y" "orelse (Some a) y = Some a" "orelse x None = x"
  by (auto simp: orelse_def split: option.splits)

lemma orelse_assoc [simp]: "orelse (orelse x y) z = orelse x (orelse y z)"
  by (auto simp: orelse_def split: option.splits)

lemma orelse_Some: "orelse x y = Some b \<longleftrightarrow> x = Some b \<or> x = None \<and> y = Some b"
  by (auto simp: orelse_def split: option.splits)

lemma orelse_None [simp]: "orelse x y = None \<longleftrightarrow> x = None \<and> y = None"
  by (auto simp: orelse_def split: option.splits)

lemma cached_simps [simp]: "start (cached s d) = s" "data (cached s d) = d"
  by (simp_all add: cached_def)

lemma range_end_wf [simp]: "wf_range r \<Longrightarrow> range_end r = start r + length (data r)"
  by (simp add: wf_range_def range_end_def)

lemma wf_range_cached [simp]: "wf_range (cached s d) \<longleftrightarrow> d \<noteq> [] \<and> s + length d < U64"
  by (simp add: wf_range_def)

lemma wf_rangeD: "wf_range r \<Longrightarrow> 0 < length (data r)" "wf_range r \<Longrightarrow> start r + length (data r) < U64"
  by (auto simp: wf_range_def)

lemma byte_at_cached:
  "byte_at (cached s d) p = (if s \<le> p \<and> p < s + length d then Some (d ! (p - s)) else None)"
  by (simp add: byte_at_def)

lemma byte_at_Some_bounds: "byte_at r p = Some b \<Longrightarrow> start r \<le> p \<and> p < start r + length (data r)"
  by (auto simp: byte_at_def split: if_splits)

lemma byte_at_None_iff: "byte_at r p = None \<longleftrightarrow> \<not> (start r \<le> p \<and> p < start r + length (data r))"
  by (simp add: byte_at_def)

lemma apart_sym: "apart a b \<longleftrightarrow> apart b a"
  by (auto simp: apart_def)

lemma apart_byte_at: "apart a b \<Longrightarrow> byte_at a p = Some x \<Longrightarrow> byte_at b p = None"
  by (auto simp: apart_def gap_def byte_at_def split: if_splits)

lemma touch_iff_not_apart:
  "wf_range a \<Longrightarrow> wf_range b \<Longrightarrow> ranges_touch a b \<longleftrightarrow> \<not> apart a b"
  by (auto simp: ranges_touch_def apart_def gap_def)

lemma resident_in_append: "resident_in (xs @ ys) p = orelse (resident_in xs p) (resident_in ys p)"
  by (induction xs) (auto simp: orelse_def split: option.splits)

lemma resident_in_SomeD: "resident_in rs p = Some b \<Longrightarrow> \<exists>r\<in>set rs. byte_at r p = Some b"
  by (induction rs) (auto simp: orelse_Some)

lemma resident_in_None_iff: "resident_in rs p = None \<longleftrightarrow> (\<forall>r\<in>set rs. byte_at r p = None)"
  by (induction rs) auto

lemma apart_resident_None:
  "\<forall>r\<in>set rs. apart r e \<Longrightarrow> byte_at e p = Some b \<Longrightarrow> resident_in rs p = None"
  unfolding resident_in_None_iff using apart_byte_at apart_sym by blast

lemma resident_in_Some_iff:
  assumes "sorted_wrt apart rs"
  shows "resident_in rs p = Some b \<longleftrightarrow> (\<exists>r\<in>set rs. byte_at r p = Some b)"
  using assms
proof (induction rs)
  case (Cons r rs)
  show ?case
  proof (cases "byte_at r p")
    case (Some x)
    then have "byte_at r' p = None" if "r' \<in> set rs" for r'
      using Cons.prems that apart_byte_at by auto
    then show ?thesis using Some by auto
  qed (use Cons in auto)
qed simp

lemma merge_ranges_touching:
  assumes wf: "wf_range a" "wf_range b" and touch: "ranges_touch a b"
  obtains m where "merge_ranges a b = Ok m" "wf_range m"
    "start m = min (start a) (start b)"
    "start m + length (data m) = max (start a + length (data a)) (start b + length (data b))"
    "\<And>p. byte_at m p = orelse (byte_at a p) (byte_at b p)"
proof -
  define s where "s = min (start a) (start b)"
  define e where "e = max (start a + length (data a)) (start b + length (data b))"
  define d1 where "d1 = overwrite (start b - s) (data b) (replicate (e - s) 0)"
  define d2 where "d2 = overwrite (start a - s) (data a) d1"
  note bounds = wf_rangeD [OF wf(1)] wf_rangeD [OF wf(2)]
  have lt: "e < U64" "s < e" "s \<le> start a" "s \<le> start b"
    using bounds unfolding s_def e_def by linarith+
  have fits: "start b - s + length (data b) \<le> e - s" "start a - s + length (data a) \<le> e - s"
    using lt by (auto simp: e_def)
  have len: "length d1 = e - s" "length d2 = e - s"
    using fits by (auto simp: d1_def d2_def)
  have sub: "sub64 e s = e - s" "sub64 (start b) s = start b - s" "sub64 (start a) s = start a - s"
    using lt bounds by auto
  have ok: "merge_ranges a b = Ok (cached s d2)"
    unfolding merge_ranges_def range_end_wf [OF wf(1)] range_end_wf [OF wf(2)]
    using fits len by (simp add: Let_def s_def [symmetric] e_def [symmetric] sub d1_def d2_def)
  have cover: "p < start a + length (data a) \<and> start a \<le> p \<or> p < start b + length (data b) \<and> start b \<le> p"
    if "s \<le> p" "p < e" for p
    using that touch wf by (auto simp: ranges_touch_def s_def e_def)
  have nth1: "d1 ! i = data b ! (i - (start b - s))"
    if "start b - s \<le> i" "i < start b - s + length (data b)" for i
    using that fits by (simp add: d1_def nth_overwrite)
  have nth2: "d2 ! i = (if start a - s \<le> i \<and> i < start a - s + length (data a)
      then data a ! (i - (start a - s)) else d1 ! i)" if "i < e - s" for i
    using that fits len by (simp add: d2_def nth_overwrite)
  have "byte_at (cached s d2) p = orelse (byte_at a p) (byte_at b p)" for p
  proof (cases "s \<le> p \<and> p < e")
    case True
    then have i: "p - s < e - s" using lt by auto
    show ?thesis
    proof (cases "start a \<le> p \<and> p < start a + length (data a)")
      case True
      moreover from True lt have "p - s - (start a - s) = p - start a" by simp
      ultimately show ?thesis using i nth2 [OF i] lt len by (auto simp: byte_at_def)
    next
      case False
      then have b: "start b \<le> p" "p < start b + length (data b)" using cover True by auto
      have "d2 ! (p - s) = d1 ! (p - s)" using nth2 [OF i] False lt True by auto
      also have "\<dots> = data b ! (p - start b)"
        using nth1 [of "p - s"] b lt by (auto simp: diff_diff_eq [symmetric])
      finally show ?thesis using False b i lt True len by (auto simp: byte_at_def)
    qed
  next
    case False
    then show ?thesis using len lt bounds by (auto simp: byte_at_def s_def e_def)
  qed
  moreover have "wf_range (cached s d2)" "s + length d2 = e" using lt len by auto
  ultimately show ?thesis
    using that [OF ok] by (simp add: s_def e_def)
qed

section \<open>Insertion\<close>

lemma apart_merge:
  assumes "apart x a" "apart x b" "ranges_touch a b" "wf_range x" "wf_range a" "wf_range b"
    and "start m = min (start a) (start b)"
    and "start m + length (data m) = max (start a + length (data a)) (start b + length (data b))"
  shows "apart x m"
  using assms wf_rangeD [of x] by (auto simp: apart_def gap_def ranges_touch_def min_def max_def split: if_splits)

lemma spaced_append:
  "spaced (xs @ ys) \<longleftrightarrow> spaced xs \<and> spaced ys \<and> (\<forall>x\<in>set xs. \<forall>y\<in>set ys. apart x y)"
  by (auto simp: spaced_def sorted_wrt_append)

lemma spaced_Cons [simp]:
  "spaced (x # xs) \<longleftrightarrow> wf_range x \<and> spaced xs \<and> (\<forall>y\<in>set xs. apart x y)"
  by (auto simp: spaced_def)

lemma spaced_Nil [simp]: "spaced []"
  by (simp add: spaced_def)

text \<open>The merge loop: the absorbed range and the untouched ones stay spaced, and
  together hold the bytes of the ranges seen so far, an existing byte winning over
  a new one.\<close>

lemma absorb_loop:
  assumes "spaced (merged @ rest)" "wf_range new" "\<forall>x\<in>set merged. apart x new"
  shows "\<exists>merged' new'. try_fold absorb (merged, new) rest = Ok (merged', new') \<and>
    spaced (merged' @ [new']) \<and>
    (\<forall>p. orelse (resident_in merged' p) (byte_at new' p) =
      orelse (orelse (resident_in merged p) (resident_in rest p)) (byte_at new p))"
  using assms
proof (induction rest arbitrary: merged new)
  case Nil
  then show ?case by (auto simp: spaced_append)
next
  case (Cons e rest)
  have wf_e: "wf_range e" and e_rest: "\<forall>x\<in>set rest. apart e x"
    and m_e: "\<forall>x\<in>set merged. apart x e" and wf_m: "\<forall>x\<in>set merged. wf_range x"
    using Cons.prems(1) by (simp_all add: spaced_append spaced_Cons) (simp add: spaced_def list_all_iff)
  show ?case
  proof (cases "ranges_touch e new")
    case True
    obtain m where m: "merge_ranges e new = Ok m" "wf_range m"
      "start m = min (start e) (start new)"
      "start m + length (data m) = max (start e + length (data e)) (start new + length (data new))"
      "\<And>p. byte_at m p = orelse (byte_at e p) (byte_at new p)"
      using merge_ranges_touching [OF wf_e Cons.prems(2) True] by blast
    have am: "\<forall>x\<in>set merged. apart x m"
      using apart_merge [OF _ _ True _ wf_e Cons.prems(2) m(3,4)] m_e wf_m Cons.prems(3) by blast
    have "spaced (merged @ rest)" using Cons.prems(1) by (simp add: spaced_append)
    from Cons.IH [OF this m(2) am] obtain merged' new' where IH: "try_fold absorb (merged, m) rest = Ok (merged', new')"
      "spaced (merged' @ [new'])"
      "\<forall>p. orelse (resident_in merged' p) (byte_at new' p) =
        orelse (orelse (resident_in merged p) (resident_in rest p)) (byte_at m p)"
      by blast
    have "orelse (resident_in rest p) (byte_at e p) = orelse (byte_at e p) (resident_in rest p)" for p
      using apart_resident_None [of rest e p] e_rest apart_sym
      by (cases "byte_at e p") auto
    then have "\<forall>p. orelse (resident_in merged' p) (byte_at new' p) =
        orelse (orelse (resident_in merged p) (resident_in (e # rest) p)) (byte_at new p)"
      unfolding IH(3) [rule_format] m(5) resident_in.simps by (metis orelse_assoc)
    then show ?thesis using IH(1,2) True m(1) by auto
  next
    case False
    then have "apart e new" using touch_iff_not_apart [OF wf_e Cons.prems(2)] by blast
    then have "\<exists>merged' new'. try_fold absorb (merged @ [e], new) rest = Ok (merged', new') \<and>
      spaced (merged' @ [new']) \<and> (\<forall>p. orelse (resident_in merged' p) (byte_at new' p) =
        orelse (orelse (resident_in (merged @ [e]) p) (resident_in rest p)) (byte_at new p))"
      using Cons.IH [of "merged @ [e]" new] Cons.prems by auto
    then show ?thesis using False
      by (simp add: resident_in_append)
  qed
qed

text \<open>Sorting by start turns the spaced ranges into the stored layout.\<close>

lemma spaced_permute:
  assumes "spaced xs" "mset ys = mset xs"
  shows "spaced ys"
proof -
  have dist: "sorted_wrt apart zs \<longleftrightarrow> distinct zs \<and> (\<forall>a\<in>set zs. \<forall>b\<in>set zs. a \<noteq> b \<longrightarrow> apart a b)"
    if "list_all wf_range zs" for zs
    using that
  proof (induction zs)
    case (Cons z zs)
    have "\<not> apart z z" by (auto simp: apart_def gap_def)
    then show ?case using Cons apart_sym by (auto simp: list_all_iff)
  qed simp
  have "list_all wf_range ys" "distinct ys = distinct xs" "set ys = set xs"
    using assms by (auto simp: spaced_def list_all_iff dest: mset_eq_setD mset_eq_imp_distinct_iff)
  then show ?thesis using assms(1) dist by (auto simp: spaced_def)
qed

lemma spaced_sorted_gap:
  "spaced rs \<Longrightarrow> sorted (map start rs) \<Longrightarrow> sorted_wrt gap rs"
proof (induction rs)
  case (Cons r rs)
  have "gap r x" if "x \<in> set rs" for x
    using Cons.prems that by (fastforce simp: apart_def gap_def)
  then show ?case using Cons by simp
qed simp

lemma sorted_gap_spaced: "list_all wf_range rs \<Longrightarrow> sorted_wrt gap rs \<Longrightarrow> spaced rs"
  by (auto simp: spaced_def apart_def elim: sorted_wrt_mono_rel [rotated])

lemma cache_inv_spaced: "cache_inv c \<Longrightarrow> spaced (ranges c)"
  by (simp add: cache_inv_def sorted_gap_spaced)

lemma spaced_resident_permute:
  assumes "spaced xs" "mset ys = mset xs"
  shows "resident_in ys = resident_in xs"
proof
  fix p
  have "spaced ys" by (rule spaced_permute [OF assms])
  then have "resident_in ys p = Some b \<longleftrightarrow> resident_in xs p = Some b" for b
    using assms mset_eq_setD [OF assms(2)] by (auto simp: resident_in_Some_iff spaced_def)
  then show "resident_in ys p = resident_in xs p" by (metis option.exhaust)
qed

lemma cache_insert_step:
  assumes "cache_inv c" "s + length d < U64"
  shows "\<exists>c'. cache_insert c s d = Ok c' \<and> cache_inv c' \<and>
    resident c' = (\<lambda>p. orelse (resident c p) (byte_at (cached s d) p))"
proof (cases "d = []")
  case True
  then have "byte_at (cached s d) p = None" for p by (simp add: byte_at_None_iff)
  then show ?thesis using assms True by (simp add: cache_insert_def)
next
  case False
  obtain merged new where loop: "try_fold absorb ([], cached s d) (ranges c) = Ok (merged, new)"
    and sp: "spaced (merged @ [new])"
    and res: "\<forall>p. orelse (resident_in merged p) (byte_at new p) =
      orelse (resident_in (ranges c) p) (byte_at (cached s d) p)"
    using absorb_loop [of "[]" "ranges c" "cached s d"] cache_inv_spaced [OF assms(1)] False assms(2)
    by auto
  let ?rs = "sort_key start (merged @ [new])"
  have "spaced ?rs" by (rule spaced_permute [OF sp]) simp
  moreover have "sorted (map start ?rs)" by simp
  ultimately have "sorted_wrt gap ?rs" "list_all wf_range ?rs"
    by (auto simp only: spaced_def intro: spaced_sorted_gap)
  moreover have "resident_in ?rs = resident_in (merged @ [new])"
    by (rule spaced_resident_permute [OF sp]) simp
  ultimately have "cache_inv (c\<lparr>ranges := ?rs\<rparr>)"
    "resident (c\<lparr>ranges := ?rs\<rparr>) = (\<lambda>p. orelse (resident c p) (byte_at (cached s d) p))"
    using res by (simp_all add: cache_inv_def resident_def resident_in_append fun_eq_iff)
  moreover have "cache_insert c s d = Ok (c\<lparr>ranges := ?rs\<rparr>)"
    using False loop by (simp add: cache_insert_def)
  ultimately show ?thesis by blast
qed

section \<open>Lookup\<close>

lemma resident_empty [simp]: "resident cache_new = (\<lambda>p. None)"
  by (simp add: resident_def cache_new_def fun_eq_iff)

lemma cache_inv_new [simp]: "cache_inv cache_new"
  by (simp add: cache_inv_def cache_new_def)

lemma resident_in_member:
  assumes "cache_inv c" "r \<in> set (ranges c)" "start r \<le> p" "p < start r + length (data r)"
  shows "resident c p = Some (data r ! (p - start r))"
proof -
  have "sorted_wrt apart (ranges c)" using cache_inv_spaced [OF assms(1)] by (simp add: spaced_def)
  then show ?thesis
    using assms by (auto simp: resident_def resident_in_Some_iff byte_at_def)
qed

text \<open>All bytes of an interval are resident exactly when one stored range covers it: two
  neighbouring ranges leave a gap.\<close>

lemma resident_interval_covered:
  assumes inv: "cache_inv c" and "0 < n" and res: "\<forall>p\<in>{s..<s + n}. resident c p \<noteq> None"
  shows "\<exists>r\<in>set (ranges c). start r \<le> s \<and> s + n \<le> start r + length (data r)"
proof -
  have sp: "spaced (ranges c)" by (rule cache_inv_spaced [OF inv])
  have in_range: "\<exists>r\<in>set (ranges c). start r \<le> p \<and> p < start r + length (data r)"
    if "p \<in> {s..<s + n}" for p
  proof -
    have "\<exists>b. resident_in (ranges c) p = Some b"
      using res that by (fastforce simp: resident_def)
    then obtain b r where "r \<in> set (ranges c)" "byte_at r p = Some b" using resident_in_SomeD by blast
    then show ?thesis using byte_at_Some_bounds by blast
  qed
  from in_range [of s] assms(2)
  obtain r where r: "r \<in> set (ranges c)" "start r \<le> s" "s < start r + length (data r)" by auto
  have "s + n \<le> start r + length (data r)"
  proof (rule ccontr)
    assume short: "\<not> ?thesis"
    let ?q = "start r + length (data r)"
    have "?q \<in> {s..<s + n}" using short r by auto
    from in_range [OF this]
    obtain r2 where r2: "r2 \<in> set (ranges c)" "start r2 \<le> ?q" "?q < start r2 + length (data r2)" by blast
    then have "r2 \<noteq> r" by auto
    have "\<forall>i<length (ranges c). \<forall>j<length (ranges c). i \<noteq> j \<longrightarrow> apart (ranges c ! i) (ranges c ! j)"
      using sp apart_sym by (metis nat_neq_iff sorted_wrt_nth_less spaced_def)
    then have "apart r r2" using r(1) r2(1) \<open>r2 \<noteq> r\<close> by (auto simp: in_set_conv_nth)
    then show False using r2 r by (auto simp: apart_def gap_def)
  qed
  then show ?thesis using r by auto
qed

lemma covers_wf:
  "wf_range r \<Longrightarrow> covers r s e \<longleftrightarrow> start r \<le> s \<and> e \<le> start r + length (data r)"
  by (simp add: covers_def)

lemma cache_inv_wf: "cache_inv c \<Longrightarrow> r \<in> set (ranges c) \<Longrightarrow> wf_range r"
  by (auto simp: cache_inv_def list_all_iff)

lemma covered_iff_resident:
  assumes "cache_inv c" "s + n < U64" "0 < n"
  shows "(\<exists>r\<in>set (ranges c). covers r s (s + n)) \<longleftrightarrow> (\<forall>p\<in>{s..<s + n}. resident c p \<noteq> None)"
proof
  assume "\<exists>r\<in>set (ranges c). covers r s (s + n)"
  then obtain r where r: "r \<in> set (ranges c)" "start r \<le> s" "s + n \<le> start r + length (data r)"
    using covers_wf cache_inv_wf [OF assms(1)] by blast
  then show "\<forall>p\<in>{s..<s + n}. resident c p \<noteq> None"
    using resident_in_member [OF assms(1) r(1)] by auto
next
  assume "\<forall>p\<in>{s..<s + n}. resident c p \<noteq> None"
  then show "\<exists>r\<in>set (ranges c). covers r s (s + n)"
    using resident_interval_covered [OF assms(1,3)] covers_wf cache_inv_wf [OF assms(1)] by blast
qed

lemma cache_contains_iff:
  assumes "cache_inv c" "s + n < U64"
  shows "cache_contains c s n \<longleftrightarrow> (\<forall>p\<in>{s..<s + n}. resident c p \<noteq> None)"
  using covered_iff_resident [OF assms] assms(2)
  by (cases "n = 0") (auto simp: cache_contains_def list_ex_iff)

lemma cache_get_spec:
  assumes inv: "cache_inv c" and "s + n < U64"
  shows "cache_get c s n =
    Ok (if \<forall>p\<in>{s..<s + n}. resident c p \<noteq> None
        then Some (map (\<lambda>p. the (resident c p)) [s..<s + n]) else None)"
proof (cases "n = 0")
  case True
  then show ?thesis by (simp add: cache_get_def)
next
  case False
  show ?thesis
  proof (cases "find (\<lambda>r. covers r s (s + n)) (ranges c)")
    case None
    then have "\<not> (\<exists>r\<in>set (ranges c). covers r s (s + n))" by (auto simp: find_None_iff)
    then show ?thesis
      using None False covered_iff_resident [OF assms] assms(2) by (simp add: cache_get_def)
  next
    case (Some r)
    then have r: "r \<in> set (ranges c)" "covers r s (s + n)" by (auto simp: find_Some_iff)
    have wf: "wf_range r" using cache_inv_wf [OF inv r(1)] .
    have b: "start r \<le> s" "s + n \<le> start r + length (data r)" using r(2) covers_wf [OF wf] by auto
    have sub: "sub64 s (start r) = s - start r" "add64 (s - start r) n = s - start r + n"
      using b assms(2) by simp_all
    have "take n (drop (s - start r) (data r)) = map (\<lambda>p. the (resident c p)) [s..<s + n]"
      using b resident_in_member [OF inv r(1)]
      by (intro nth_equalityI) (auto simp: le_diff_conv2)
    moreover have "\<forall>p\<in>{s..<s + n}. resident c p \<noteq> None"
      using b resident_in_member [OF inv r(1)] by auto
    ultimately show ?thesis
      using Some False assms(2) b by (simp add: cache_get_def sub)
  qed
qed

lemma resident_bytes_card:
  assumes "cache_inv c"
  shows "finite (dom (resident c)) \<and> resident_bytes c = card (dom (resident c))"
proof -
  have "finite (dom (resident_in rs)) \<and>
    sum_list (map (\<lambda>r. length (data r)) rs) = card (dom (resident_in rs))"
    if "sorted_wrt apart rs" for rs
    using that
  proof (induction rs)
    case (Cons r rs)
    let ?A = "{start r..<start r + length (data r)}"
    have "dom (resident_in (r # rs)) = ?A \<union> dom (resident_in rs)"
      by (auto simp: dom_def orelse_def byte_at_def split: option.splits if_splits)
    moreover have "resident_in rs p = None" if "p \<in> ?A" for p
      unfolding resident_in_None_iff using Cons.prems that
      by (auto simp: apart_def gap_def byte_at_None_iff)
    then have "?A \<inter> dom (resident_in rs) = {}" by auto
    ultimately show ?case using Cons by (simp add: card_Un_disjoint del: resident_in.simps)
  qed (simp add: dom_def)
  then show ?thesis
    using cache_inv_spaced [OF assms] by (simp add: resident_def resident_bytes_def spaced_def)
qed

section \<open>The interface the fetcher relies on\<close>

text \<open>A store of file ranges: its content is a partial map from offsets to bytes, an
  insertion never replaces a byte that is present, and a lookup answers exactly when
  every byte of the interval is present.\<close>

locale range_store =
  fixes fresh :: "'c"
    and put :: "'c \<Rightarrow> nat \<Rightarrow> byte list \<Rightarrow> ('c, codec_error) outcome"
    and fetch :: "'c \<Rightarrow> nat \<Rightarrow> nat \<Rightarrow> (byte list option, codec_error) outcome"
    and holds :: "'c \<Rightarrow> nat \<Rightarrow> nat \<Rightarrow> bool"
    and content :: "'c \<Rightarrow> nat \<Rightarrow> byte option"
    and inv :: "'c \<Rightarrow> bool"
  assumes fresh_law: "inv fresh" "content fresh p = None"
    and put_law: "inv c \<Longrightarrow> s + length d < U64 \<Longrightarrow>
      \<exists>c'. put c s d = Ok c' \<and> inv c' \<and> content c' = (\<lambda>p. orelse (content c p) (byte_at (cached s d) p))"
    and fetch_law: "inv c \<Longrightarrow> s + n < U64 \<Longrightarrow> fetch c s n =
      Ok (if \<forall>p\<in>{s..<s + n}. content c p \<noteq> None
          then Some (map (\<lambda>p. the (content c p)) [s..<s + n]) else None)"
    and holds_law: "inv c \<Longrightarrow> s + n < U64 \<Longrightarrow>
      holds c s n \<longleftrightarrow> (\<forall>p\<in>{s..<s + n}. content c p \<noteq> None)"
begin

text \<open>A store is coherent with a source when it holds only bytes of the source.\<close>

definition coherent :: "byte list \<Rightarrow> 'c \<Rightarrow> bool" where
  "coherent src c \<longleftrightarrow> inv c \<and> (\<forall>p b. content c p = Some b \<longrightarrow> p < length src \<and> b = src ! p)"

definition has_all :: "'c \<Rightarrow> nat \<Rightarrow> nat \<Rightarrow> bool" where
  "has_all c s n \<longleftrightarrow> (\<forall>p\<in>{s..<s + n}. content c p \<noteq> None)"

lemma coherent_fresh: "coherent src fresh"
  by (simp add: coherent_def fresh_law)

lemma fetch_coherent:
  assumes "coherent src c" "s + n \<le> length src" "length src < U64"
  shows "fetch c s n = Ok (if has_all c s n then Some (take n (drop s src)) else None)"
proof -
  have inv: "inv c" and lt: "s + n < U64" using assms by (auto simp: coherent_def)
  have "map (\<lambda>p. the (content c p)) [s..<s + n] = take n (drop s src)" if "has_all c s n"
    using that assms(1,2) by (intro nth_equalityI) (fastforce simp: coherent_def has_all_def)+
  then show ?thesis using fetch_law [OF inv lt] by (simp add: has_all_def)
qed

lemma put_coherent:
  assumes "coherent src c" "s + n \<le> length src" "length src < U64"
  shows "\<exists>c'. put c s (take n (drop s src)) = Ok c' \<and> coherent src c' \<and>
    (\<forall>p. content c' p \<noteq> None \<longleftrightarrow> content c p \<noteq> None \<or> p \<in> {s..<s + n})"
proof -
  let ?d = "take n (drop s src)"
  have inv: "inv c" and lt: "s + length ?d < U64" and len: "length ?d = n"
    using assms by (auto simp: coherent_def)
  obtain c' where c': "put c s ?d = Ok c'" "inv c'"
    "content c' = (\<lambda>p. orelse (content c p) (byte_at (cached s ?d) p))"
    using put_law [OF inv lt] by blast
  moreover have "content c' p = None \<longleftrightarrow> content c p = None \<and> p \<notin> {s..<s + n}" for p
    unfolding c'(3) orelse_None using len by (auto simp: byte_at_cached)
  moreover have "p < length src \<and> b = src ! p" if "content c' p = Some b" for p b
    using that assms len unfolding c'(3)
    by (auto simp: coherent_def orelse_Some byte_at_cached split: if_splits)
  ultimately show ?thesis by (auto simp: coherent_def simp del: not_None_eq)
qed

text \<open>Filling the store with a batch of fetched spans.\<close>

lemma fill_coherent:
  assumes "coherent src c" "length src < U64"
    and "\<forall>(s, n)\<in>set spans. s + n \<le> length src"
  shows "\<exists>c'. try_fold (\<lambda>c (s, d). put c s d) c
      (map (\<lambda>(s, n). (s, take n (drop s src))) spans) = Ok c' \<and> coherent src c' \<and>
    (\<forall>p. content c' p \<noteq> None \<longleftrightarrow>
      content c p \<noteq> None \<or> (\<exists>(s, n)\<in>set spans. p \<in> {s..<s + n}))"
  using assms(1,3)
proof (induction spans arbitrary: c)
  case (Cons sp spans)
  obtain s n where sp: "sp = (s, n)" by force
  obtain c1 where c1: "put c s (take n (drop s src)) = Ok c1" "coherent src c1"
    "\<forall>p. content c1 p \<noteq> None \<longleftrightarrow> content c p \<noteq> None \<or> p \<in> {s..<s + n}"
    using put_coherent [OF Cons.prems(1) _ assms(2), of s n] Cons.prems(2) sp by auto
  have "\<forall>(s, n)\<in>set spans. s + n \<le> length src" using Cons.prems(2) by simp
  from Cons.IH [OF c1(2) this] c1(1,3) show ?case by (auto simp: sp)
qed auto

lemma has_all_mono:
  assumes "has_all c s n" "\<forall>p. content c p \<noteq> None \<longrightarrow> content c' p \<noteq> None"
  shows "has_all c' s n"
  using assms by (auto simp: has_all_def)

end

interpretation cache: range_store cache_new cache_insert cache_get cache_contains resident cache_inv
proof
  show "cache_inv cache_new" by simp
  show "resident cache_new p = None" for p by simp
qed (rule cache_insert_step cache_get_spec cache_contains_iff; assumption)+

section \<open>Properties\<close>

text \<open>C4: inserting a fetched range never panics, keeps the layout invariant, and adds
  exactly the new bytes to the resident map; a byte that was already resident wins.\<close>

theorem cache_insert_correct:
  assumes "cache_inv c" "s + length d < U64"
  shows "\<exists>c'. cache_insert c s d = Ok c' \<and> cache_inv c' \<and>
    (\<forall>p. resident c' p =
      (case resident c p of
        Some b \<Rightarrow> Some b
      | None \<Rightarrow> if s \<le> p \<and> p < s + length d then Some (d ! (p - s)) else None))"
  using cache_insert_step [OF assms] by (simp only: orelse_def byte_at_cached fun_eq_iff)

lemma cache_insert_correct_witness:
  "\<exists>c'. cache_insert \<lparr>ranges = [cached 0 [1, 2], cached 6 [3]]\<rparr> 1 [9, 9, 9] = Ok c' \<and> cache_inv c' \<and>
    resident c' 1 = Some 2 \<and> resident c' 3 = Some 9"
proof -
  let ?c = "\<lparr>ranges = [cached 0 [1, 2], cached 6 [3]]\<rparr>"
  have "cache_inv ?c" by (simp add: cache_inv_def gap_def U64_def)
  moreover have "1 + length [9, 9, 9 :: byte] < U64" by (simp add: U64_def)
  ultimately obtain c' where "cache_insert ?c 1 [9, 9, 9] = Ok c'" "cache_inv c'"
    and res: "\<forall>p. resident c' p = (case resident ?c p of
        Some b \<Rightarrow> Some b
      | None \<Rightarrow> if 1 \<le> p \<and> p < 1 + length [9, 9, 9 :: byte] then Some ([9, 9, 9] ! (p - 1)) else None)"
    using cache_insert_correct by blast
  moreover have "resident c' 1 = Some 2" "resident c' 3 = Some 9"
    using res by (simp_all add: resident_def byte_at_def)
  ultimately show ?thesis by blast
qed

text \<open>C5: a lookup answers exactly when all bytes of the interval are resident, with those
  bytes; \<open>contains\<close> is its test; no lookup panics.\<close>

theorem cache_get_correct:
  assumes "cache_inv c" "s + n < U64"
  shows "cache_get c s n =
      Ok (if \<forall>p\<in>{s..<s + n}. resident c p \<noteq> None
          then Some (map (\<lambda>p. the (resident c p)) [s..<s + n]) else None)
    \<and> (cache_contains c s n \<longleftrightarrow> (\<forall>p\<in>{s..<s + n}. resident c p \<noteq> None))"
  using cache_get_spec [OF assms] cache_contains_iff [OF assms] by simp

lemma cache_get_correct_witness:
  "cache_get \<lparr>ranges = [cached 2 [7, 8, 9]]\<rparr> 3 2 = Ok (Some [8, 9])
    \<and> cache_contains \<lparr>ranges = [cached 2 [7, 8, 9]]\<rparr> 3 2"
proof -
  let ?c = "\<lparr>ranges = [cached 2 [7, 8, 9]]\<rparr>"
  have "cache_inv ?c" "3 + 2 < U64" by (simp_all add: cache_inv_def U64_def)
  moreover have "[3..<3 + 2] = [3, 4 :: nat]" by (simp add: upt_rec)
  moreover have "\<forall>p\<in>{3..<3 + 2}. resident ?c p \<noteq> None"
    by (auto simp: resident_def byte_at_def)
  ultimately show ?thesis
    using cache_get_correct [of ?c 3 2] by (simp add: resident_def byte_at_def)
qed

text \<open>The resident byte count is the number of distinct file offsets held: no byte is
  stored twice.\<close>

theorem resident_bytes_counts:
  assumes "cache_inv c"
  shows "finite (dom (resident c)) \<and> resident_bytes c = card (dom (resident c))"
  using resident_bytes_card [OF assms] .

lemma resident_bytes_counts_witness:
  "card (dom (resident \<lparr>ranges = [cached 2 [7, 8, 9], cached 9 [1]]\<rparr>)) = 4"
  using resident_bytes_counts [of "\<lparr>ranges = [cached 2 [7, 8, 9], cached 9 [1]]\<rparr>"]
  by (simp add: cache_inv_def U64_def gap_def resident_bytes_def)

end
