(* ===== verification/Prefetch.thy ===== *)
theory Prefetch
  imports Prelude "HOL-Library.Multiset"
begin

text \<open>
  The prefetch planning of \<open>src/src/remote/policy.rs\<close> and the span coalescing of
  \<open>src/src/remote/fetcher.rs\<close>.  A half-open range is a pair of offsets; \<open>span_bytes\<close>
  is the set of offsets a list of ranges names.  The locale \<open>prefetch_policy\<close> is the
  contract of the trait; the default policy is shown to meet it, and coalescing to
  keep the set of offsets while making the spans sorted and disjoint.
\<close>

type_synonym span = "nat \<times> nat"

section \<open>The default policy\<close>

record header_policy =
  header_len :: nat

definition DEFAULT_HEADER_LEN :: nat where
  "DEFAULT_HEADER_LEN = 64 * 1024"

definition header_policy_new :: "nat \<Rightarrow> header_policy" where
  "header_policy_new n = \<lparr>header_len = n\<rparr>"

definition header_policy_default :: header_policy where
  "header_policy_default = header_policy_new DEFAULT_HEADER_LEN"

definition header_plan :: "header_policy \<Rightarrow> span \<Rightarrow> nat \<Rightarrow> span list" where
  "header_plan pol requested src_len =
    (let header_end = min (header_len pol) src_len;
         s = min (fst requested) src_len;
         e = min (snd requested) src_len
     in (if 0 < header_end \<and> fst requested < header_end then [(0, header_end)] else []) @
        (if s < e then [(s, e)] else []))"

section \<open>Coalescing\<close>

definition coalesce_step :: "span list \<Rightarrow> span \<Rightarrow> span list" where
  "coalesce_step merged r =
    (if merged \<noteq> [] \<and> fst r \<le> snd (last merged)
     then butlast merged @ [(fst (last merged), max (snd (last merged)) (snd r))]
     else merged @ [r])"

definition coalesce :: "span list \<Rightarrow> span list" where
  "coalesce rs = foldl coalesce_step [] (sort_key fst (filter (\<lambda>r. snd r > fst r) rs))"

section \<open>Sets of offsets\<close>

definition span_bytes :: "span list \<Rightarrow> nat set" where
  "span_bytes rs = (\<Union>r\<in>set rs. {fst r..<snd r})"

definition spans_inv :: "span list \<Rightarrow> bool" where
  "spans_inv rs \<longleftrightarrow> (\<forall>r\<in>set rs. fst r < snd r) \<and> sorted_wrt (\<lambda>a b. snd a < fst b) rs"

lemma span_bytes_simps [simp]:
  "span_bytes [] = {}"
  "span_bytes (r # rs) = {fst r..<snd r} \<union> span_bytes rs"
  "span_bytes (xs @ ys) = span_bytes xs \<union> span_bytes ys"
  by (auto simp: span_bytes_def)

lemma span_bytes_filter: "span_bytes (filter (\<lambda>r. fst r < snd r) rs) = span_bytes rs"
  by (auto simp: span_bytes_def)

lemma span_bytes_sort: "span_bytes (sort_key fst rs) = span_bytes rs"
  by (simp add: span_bytes_def)

lemma spans_inv_butlast_last:
  assumes "merged \<noteq> []"
  shows "span_bytes merged = span_bytes (butlast merged) \<union> {fst (last merged)..<snd (last merged)}"
  by (subst append_butlast_last_id [OF assms, symmetric], subst span_bytes_simps) simp

lemma coalesce_step_bytes:
  assumes "spans_inv merged" "\<forall>m\<in>set merged. fst m \<le> fst r" "fst r < snd r"
  shows "span_bytes (coalesce_step merged r) = span_bytes merged \<union> {fst r..<snd r}"
proof (cases "merged \<noteq> [] \<and> fst r \<le> snd (last merged)")
  case True
  then have "fst (last merged) \<le> fst r" "fst (last merged) < snd (last merged)"
    using assms by (auto simp: spans_inv_def)
  then have "{fst (last merged)..<max (snd (last merged)) (snd r)} =
      {fst (last merged)..<snd (last merged)} \<union> {fst r..<snd r}"
    using True assms(3) by auto
  then show ?thesis using True by (simp add: coalesce_step_def spans_inv_butlast_last Un_assoc)
next
  case False
  then show ?thesis by (auto simp: coalesce_step_def)
qed

lemma coalesce_step_inv:
  assumes inv: "spans_inv merged" and le: "\<forall>m\<in>set merged. fst m \<le> fst r" and r: "fst r < snd r"
  shows "spans_inv (coalesce_step merged r)"
proof (cases merged rule: rev_cases)
  case Nil
  then show ?thesis using r by (simp add: coalesce_step_def spans_inv_def)
next
  case (snoc ms m)
  show ?thesis
  proof (cases "fst r \<le> snd m")
    case True
    then show ?thesis using inv r snoc
      by (auto simp: coalesce_step_def spans_inv_def sorted_wrt_append)
  next
    case False
    have "snd x < fst r" if "x \<in> set ms" for x
    proof -
      have "snd x < fst m" using inv snoc that by (auto simp: spans_inv_def sorted_wrt_append)
      also have "fst m \<le> fst r" using le snoc by simp
      finally show ?thesis .
    qed
    then show ?thesis using inv r snoc False
      by (auto simp: coalesce_step_def spans_inv_def sorted_wrt_append)
  qed
qed

lemma coalesce_step_starts:
  "\<forall>m\<in>set merged. fst m \<le> fst r \<Longrightarrow> \<forall>m\<in>set (coalesce_step merged r). fst m \<le> fst r"
  by (auto simp: coalesce_step_def dest: in_set_butlastD)

lemma coalesce_loop:
  assumes "spans_inv merged" "sorted (map fst rs)" "\<forall>r\<in>set rs. fst r < snd r"
    and "\<forall>m\<in>set merged. \<forall>r\<in>set rs. fst m \<le> fst r"
  shows "spans_inv (foldl coalesce_step merged rs) \<and>
    span_bytes (foldl coalesce_step merged rs) = span_bytes merged \<union> span_bytes rs"
  using assms
proof (induction rs arbitrary: merged)
  case (Cons r rs)
  have le: "\<forall>m\<in>set merged. fst m \<le> fst r" and r: "fst r < snd r" using Cons.prems by auto
  have "\<forall>m\<in>set (coalesce_step merged r). \<forall>x\<in>set rs. fst m \<le> fst x"
    using coalesce_step_starts [OF le] Cons.prems(2) by fastforce
  from Cons.IH [OF coalesce_step_inv [OF Cons.prems(1) le r] _ _ this] Cons.prems
  show ?case by (auto simp: coalesce_step_bytes [OF Cons.prems(1) le r])
qed simp

lemma coalesce_spec: "spans_inv (coalesce rs)" "span_bytes (coalesce rs) = span_bytes rs"
proof -
  let ?s = "sort_key fst (filter (\<lambda>r. snd r > fst r) rs)"
  have "spans_inv []" by (simp add: spans_inv_def)
  moreover have "sorted (map fst ?s)" by (rule sorted_sort_key)
  moreover have "\<forall>r\<in>set ?s. fst r < snd r" by simp
  ultimately have "spans_inv (foldl coalesce_step [] ?s) \<and>
      span_bytes (foldl coalesce_step [] ?s) = span_bytes [] \<union> span_bytes ?s"
    by (rule coalesce_loop) simp
  then show "spans_inv (coalesce rs)" "span_bytes (coalesce rs) = span_bytes rs"
    by (simp_all add: coalesce_def span_bytes_sort span_bytes_filter)
qed

lemma coalesce_nonempty: "r \<in> set (coalesce rs) \<Longrightarrow> fst r < snd r"
  using coalesce_spec(1) by (auto simp: spans_inv_def)

lemma span_bytes_mem: "r \<in> set rs \<Longrightarrow> p \<in> {fst r..<snd r} \<Longrightarrow> p \<in> span_bytes rs"
  by (auto simp: span_bytes_def)

lemma coalesce_bound:
  assumes "\<forall>r\<in>set rs. snd r \<le> src_len" "r \<in> set (coalesce rs)"
  shows "snd r \<le> src_len"
proof -
  have lt: "fst r < snd r" using assms(2) by (rule coalesce_nonempty)
  then have "snd r - 1 \<in> {fst r..<snd r}" by auto
  then have "snd r - 1 \<in> span_bytes rs"
    using span_bytes_mem [OF assms(2)] coalesce_spec(2) by blast
  then obtain q where "q \<in> set rs" "snd r - 1 < snd q" by (auto simp: span_bytes_def)
  then have "snd q \<le> src_len" "snd r \<le> snd q" using assms(1) by auto
  then show ?thesis by linarith
qed

section \<open>The policy contract\<close>

text \<open>What a policy promises the fetcher: it plans inside the source, and covers the part of
  the request that lies inside it.\<close>

locale prefetch_policy =
  fixes plan :: "span \<Rightarrow> nat \<Rightarrow> span list"
  assumes plan_within: "r \<in> set (plan req src_len) \<Longrightarrow> snd r \<le> src_len"
    and plan_covers: "{fst req..<min (snd req) src_len} \<subseteq> span_bytes (plan req src_len)"
begin

lemma coalesced_within: "r \<in> set (coalesce (plan req src_len)) \<Longrightarrow> snd r \<le> src_len"
  using coalesce_bound plan_within by blast

lemma coalesced_covers:
  "{fst req..<min (snd req) src_len} \<subseteq> span_bytes (coalesce (plan req src_len))"
  by (simp add: coalesce_spec plan_covers)

text \<open>Planning a batch of requests (\<open>planned.extend\<close> in \<open>read_ranges\<close>).\<close>

lemma batch_within:
  "r \<in> set (coalesce (concat (map (\<lambda>q. plan q src_len) reqs))) \<Longrightarrow> snd r \<le> src_len"
  by (rule coalesce_bound) (auto dest: plan_within)

lemma batch_covers:
  "q \<in> set reqs \<Longrightarrow> {fst q..<min (snd q) src_len} \<subseteq>
    span_bytes (coalesce (concat (map (\<lambda>q. plan q src_len) reqs)))"
  unfolding coalesce_spec using plan_covers [of q src_len] by (fastforce simp: span_bytes_def)

end

interpretation header: prefetch_policy "header_plan pol" for pol
  by unfold_locales (auto simp: header_plan_def Let_def span_bytes_def split: if_splits)

section \<open>Properties\<close>

text \<open>The default policy plans only inside the source, always covers the requested
  range, and adds the header region exactly for a request that starts within it.\<close>

theorem header_plan_correct:
  "(\<forall>r\<in>set (header_plan pol (s, e) src_len). fst r < snd r \<and> snd r \<le> src_len) \<and>
   span_bytes (header_plan pol (s, e) src_len) =
     {s..<min e src_len} \<union> (if s < min (header_len pol) src_len then {0..<min (header_len pol) src_len} else {})"
  by (auto simp: header_plan_def Let_def split: if_splits)

lemma header_plan_correct_witness:
  "snd (10 :: nat, 300) \<le> (1000 :: nat) \<and> (10, 300) \<in> set (header_plan (header_policy_new 100) (10, 300) 1000)"
proof -
  have "(10, 300) \<in> set (header_plan (header_policy_new 100) (10, 300) 1000)"
    by (simp add: header_plan_def header_policy_new_def)
  moreover note header_plan_correct [of "header_policy_new 100" 10 300 1000]
  ultimately show ?thesis by blast
qed

text \<open>C6: coalescing keeps exactly the planned offsets and returns sorted non-empty spans with
  a gap between any two, so no byte is fetched twice in one batch.\<close>

theorem coalesce_correct:
  "span_bytes (coalesce rs) = span_bytes rs \<and>
   (\<forall>i j. i < j \<longrightarrow> j < length (coalesce rs) \<longrightarrow> snd (coalesce rs ! i) < fst (coalesce rs ! j)) \<and>
   (\<forall>r\<in>set (coalesce rs). fst r < snd r)"
  using coalesce_spec [of rs] by (auto simp: spans_inv_def sorted_wrt_iff_nth_less)

lemma coalesce_correct_witness:
  "coalesce [(5, 9), (0, 3), (3, 4), (7, 7), (8, 12)] = [(0, 4), (5, 12)] \<and>
    span_bytes [(5, 9), (0, 3), (3, 4), (7, 7), (8, 12)] = span_bytes [(0, 4), (5, 12)]"
  using coalesce_correct [of "[(5, 9), (0, 3), (3, 4), (7, 7), (8, 12)]"]
  by (simp add: coalesce_def coalesce_step_def)

end
