(* ===== verification/Stream_Fetcher.thy ===== *)
theory Stream_Fetcher
  imports Range_Cache Prefetch
begin

text \<open>
  The fetch entry point of \<open>src/src/remote/fetcher.rs\<close>: a byte source behind the
  \<open>RangeReader\<close> trait, the range cache and a prefetch policy.  The source and the
  policy are values of the fetcher (trait objects in the code): the reader's answer may
  depend on the requests made before, and every request is recorded in \<open>requests\<close>.  The
  mutex is the flag \<open>poisoned\<close>: a panic inside a critical section sets it, and every later
  lock fails.  The lemmas are stated with \<open>holds_after\<close>, a small program logic over the
  outcome and the state a call leaves.
\<close>

section \<open>State\<close>

record range_reader =
  read_many :: "span list list \<Rightarrow> span list \<Rightarrow> (byte list list, codec_error) outcome"
  reader_size :: nat

text \<open>The default \<open>read_many\<close> of the trait, over \<open>read_at\<close>.\<close>

definition read_many_default ::
  "(nat \<Rightarrow> nat \<Rightarrow> (byte list, codec_error) outcome) \<Rightarrow> span list \<Rightarrow> (byte list list, codec_error) outcome" where
  "read_many_default read_at rs = try_map (\<lambda>(off, len). read_at off len) rs"

record fetcher =
  reader :: range_reader
  store :: range_cache
  policy :: "span \<Rightarrow> nat \<Rightarrow> span list"
  total_size :: nat
  poisoned :: bool
  requests :: "span list list"

type_synonym 'a fetch_call = "(fetcher, 'a, codec_error) call"

definition with_policy :: "range_reader \<Rightarrow> (span \<Rightarrow> nat \<Rightarrow> span list) \<Rightarrow> fetcher" where
  "with_policy rd pol =
    \<lparr>reader = rd, store = cache_new, policy = pol, total_size = reader_size rd,
     poisoned = False, requests = []\<rparr>"

definition fetcher_new :: "range_reader \<Rightarrow> fetcher" where
  "fetcher_new rd = with_policy rd (header_plan header_policy_default)"

section \<open>Operations\<close>

definition fetcher_resident_bytes :: "fetcher \<Rightarrow> nat" where
  "fetcher_resident_bytes f = (if poisoned f then 0 else resident_bytes (store f))"

definition check_bounds :: "fetcher \<Rightarrow> nat \<Rightarrow> nat \<Rightarrow> (nat, codec_error) outcome" where
  "check_bounds f offset len =
    and_then (ok_or Decode (checked_add64 offset len)) (\<lambda>e.
      if e > total_size f then Err Decode else Ok e)"

text \<open>A critical section: lock, run the body on the cache, unlock.\<close>

definition with_lock ::
  "(range_cache \<Rightarrow> ('a \<times> range_cache, codec_error) outcome) \<Rightarrow> 'a fetch_call" where
  "with_lock body = (\<lambda>f.
    if poisoned f then (Err RemoteError, f)
    else case body (store f) of
      Ok (a, c) \<Rightarrow> (Ok a, f\<lparr>store := c\<rparr>)
    | Err e \<Rightarrow> (Err e, f)
    | Panic \<Rightarrow> (Panic, f\<lparr>poisoned := True\<rparr>))"

definition uncached_spans :: "range_cache \<Rightarrow> span list \<Rightarrow> (nat \<times> nat) list" where
  "uncached_spans c planned =
    map (\<lambda>sp. (fst sp, sub64 (snd sp) (fst sp)))
      (filter (\<lambda>sp. \<not> cache_contains c (fst sp) (sub64 (snd sp) (fst sp))) (coalesce planned))"

definition plan_uncached ::
  "range_cache \<Rightarrow> (span \<Rightarrow> nat \<Rightarrow> span list) \<Rightarrow> span \<Rightarrow> nat \<Rightarrow> (nat \<times> nat) list" where
  "plan_uncached c pol requested src_len = uncached_spans c (pol requested src_len)"

text \<open>A fetch runs with the lock released; the reader sees the requests made so far.\<close>

definition do_fetch :: "(nat \<times> nat) list \<Rightarrow> byte list list fetch_call" where
  "do_fetch rs = (\<lambda>f. (read_many (reader f) (requests f) rs, f\<lparr>requests := requests f @ [rs]\<rparr>))"

definition fill_cache :: "(nat \<times> nat) list \<Rightarrow> byte list list \<Rightarrow> unit fetch_call" where
  "fill_cache to_fetch fetched =
    with_lock (\<lambda>c. map_ok (\<lambda>c'. ((), c'))
      (try_fold (\<lambda>c (s, d). cache_insert c s d) c (zip (map fst to_fetch) fetched)))"

definition fetch_missing :: "(nat \<times> nat) list \<Rightarrow> unit fetch_call" where
  "fetch_missing to_fetch =
    (if to_fetch \<noteq> [] then seq (do_fetch to_fetch) (\<lambda>fetched. fill_cache to_fetch fetched)
     else done_with ())"

definition lookup :: "nat \<Rightarrow> nat \<Rightarrow> byte list option fetch_call" where
  "lookup offset len = with_lock (\<lambda>c. map_ok (\<lambda>hit. (hit, c)) (cache_get c offset len))"

definition remember :: "nat \<Rightarrow> byte list \<Rightarrow> unit fetch_call" where
  "remember offset d = with_lock (\<lambda>c. map_ok (\<lambda>c'. ((), c')) (cache_insert c offset d))"

definition serve_or_heal :: "nat \<Rightarrow> nat \<Rightarrow> byte list fetch_call" where
  "serve_or_heal offset len =
    seq (lookup offset len) (\<lambda>hit. case hit of
      Some bytes \<Rightarrow> done_with bytes
    | None \<Rightarrow> seq (do_fetch [(offset, len)]) (\<lambda>ds.
        if ds = [] then lift_outcome (Err RemoteError)
        else seq (remember offset (last ds)) (\<lambda>_. done_with (last ds))))"

definition consult :: "nat \<Rightarrow> nat \<Rightarrow> nat \<Rightarrow> (byte list + (nat \<times> nat) list) fetch_call" where
  "consult offset len e = (\<lambda>f. with_lock (\<lambda>c.
    map_ok (\<lambda>hit. case hit of
        Some bytes \<Rightarrow> (Inl bytes, c)
      | None \<Rightarrow> (Inr (plan_uncached c (policy f) (offset, e) (total_size f)), c))
    (cache_get c offset len)) f)"

definition read_range :: "nat \<Rightarrow> nat \<Rightarrow> byte list fetch_call" where
  "read_range offset len = (\<lambda>f.
    seq (lift_outcome (check_bounds f offset len)) (\<lambda>e.
    seq (consult offset len e) (\<lambda>r. case r of
      Inl bytes \<Rightarrow> done_with bytes
    | Inr to_fetch \<Rightarrow>
        seq (fetch_missing to_fetch) (\<lambda>_. serve_or_heal offset len))) f)"

definition consult_batch :: "(nat \<times> nat) list \<Rightarrow> (nat \<times> nat) list fetch_call" where
  "consult_batch rs = (\<lambda>f. with_lock (\<lambda>c.
    Ok (uncached_spans c (concat (map (\<lambda>(offset, len).
          if len = 0 \<or> cache_contains c offset len then []
          else policy f (offset, add64 offset len) (total_size f)) rs)), c)) f)"

definition read_ranges :: "(nat \<times> nat) list \<Rightarrow> byte list list fetch_call" where
  "read_ranges rs = (\<lambda>f.
    if rs = [] then (Ok [], f)
    else seq (lift_outcome (try_map (\<lambda>(offset, len). check_bounds f offset len) rs)) (\<lambda>_.
      seq (consult_batch rs) (\<lambda>to_fetch.
      seq (fetch_missing to_fetch) (\<lambda>_.
      each_call (\<lambda>(offset, len). serve_or_heal offset len) rs))) f)"

section \<open>Contracts of the byte source and the policy\<close>

text \<open>The documented contract of \<open>RangeReader\<close>: exactly the bytes of the source on success,
  an error rather than a short read, no panic.  A reliable reader never fails inside the source.\<close>

definition exact_reader :: "byte list \<Rightarrow> range_reader \<Rightarrow> bool" where
  "exact_reader src rd \<longleftrightarrow> reader_size rd = length src \<and> length src < U64 \<and>
    (\<forall>h rs. read_many rd h rs \<noteq> Panic) \<and>
    (\<forall>h rs ds. read_many rd h rs = Ok ds \<longrightarrow>
      (\<forall>(s, n)\<in>set rs. s + n \<le> length src) \<and> ds = map (\<lambda>(s, n). take n (drop s src)) rs)"

definition reliable_reader :: "byte list \<Rightarrow> range_reader \<Rightarrow> bool" where
  "reliable_reader src rd \<longleftrightarrow>
    (\<forall>h rs. (\<forall>(s, n)\<in>set rs. s + n \<le> length src) \<longrightarrow> is_ok (read_many rd h rs))"

text \<open>The planned offsets are values of type \<open>u64\<close>.\<close>

definition u64_policy :: "(span \<Rightarrow> nat \<Rightarrow> span list) \<Rightarrow> bool" where
  "u64_policy pol \<longleftrightarrow> (\<forall>req n. n < U64 \<longrightarrow> (\<forall>r\<in>set (pol req n). snd r < U64))"

definition fetcher_inv :: "byte list \<Rightarrow> fetcher \<Rightarrow> bool" where
  "fetcher_inv src f \<longleftrightarrow> cache.coherent src (store f) \<and> \<not> poisoned f \<and>
    total_size f = length src \<and> exact_reader src (reader f) \<and> u64_policy (policy f)"

text \<open>What a call may change: the cache grows, requests are appended, the rest is kept.\<close>

definition grows :: "fetcher \<Rightarrow> fetcher \<Rightarrow> bool" where
  "grows f f' \<longleftrightarrow> reader f' = reader f \<and> policy f' = policy f \<and> total_size f' = total_size f \<and>
    (\<forall>p. resident (store f) p \<noteq> None \<longrightarrow> resident (store f') p \<noteq> None) \<and>
    (\<exists>rs. requests f' = requests f @ rs)"

text \<open>The program logic: no panic, the invariant and growth hold after the call, an error is
  returned only if \<open>may_fail\<close>, and a value satisfies \<open>P\<close>.\<close>

definition holds_after ::
  "bool \<Rightarrow> byte list \<Rightarrow> fetcher \<Rightarrow> ('a \<Rightarrow> fetcher \<Rightarrow> bool) \<Rightarrow> ('a, codec_error) outcome \<times> fetcher \<Rightarrow> bool" where
  "holds_after may_fail src f P r \<longleftrightarrow> (case r of
      (Ok a, f') \<Rightarrow> fetcher_inv src f' \<and> grows f f' \<and> P a f'
    | (Err e, f') \<Rightarrow> may_fail \<and> fetcher_inv src f' \<and> grows f f'
    | (Panic, f') \<Rightarrow> False)"

lemma holds_after_simps [simp]:
  "holds_after E src f P (Ok a, f') \<longleftrightarrow> fetcher_inv src f' \<and> grows f f' \<and> P a f'"
  "holds_after E src f P (Err e, f') \<longleftrightarrow> E \<and> fetcher_inv src f' \<and> grows f f'"
  "holds_after E src f P (Panic, f') \<longleftrightarrow> False"
  by (simp_all add: holds_after_def)

lemma grows_refl [simp]: "grows f f"
  by (simp add: grows_def)

lemma grows_trans: "grows f g \<Longrightarrow> grows g h \<Longrightarrow> grows f h"
  by (auto simp: grows_def)

lemma holds_after_mono:
  assumes "holds_after E src f P r" "grows g f" "\<And>a f'. grows f f' \<Longrightarrow> fetcher_inv src f' \<Longrightarrow> P a f' \<Longrightarrow> Q a f'"
  shows "holds_after E src g Q r"
  using assms by (auto simp: holds_after_def split: prod.splits outcome.splits intro: grows_trans)

lemma holds_after_seq:
  assumes "holds_after E src f P (m f)"
    and "\<And>a f'. fetcher_inv src f' \<Longrightarrow> grows f f' \<Longrightarrow> P a f' \<Longrightarrow> holds_after E src f' Q (k a f')"
  shows "holds_after E src f Q (seq m k f)"
proof (cases "m f")
  case (Pair r f')
  show ?thesis
  proof (cases r)
    case (Ok a)
    then have "holds_after E src f' Q (k a f')" "grows f f'" using assms Pair by auto
    then show ?thesis using Pair Ok by (auto elim!: holds_after_mono)
  qed (use assms(1) Pair in \<open>auto simp: seq_def\<close>)
qed

section \<open>Critical sections\<close>

lemma fetcher_inv_facts:
  assumes "fetcher_inv src f"
  shows "cache.coherent src (store f)" "\<not> poisoned f" "total_size f = length src"
    "length src < U64" "exact_reader src (reader f)"
  using assms by (auto simp: fetcher_inv_def exact_reader_def)

lemma lookup_after:
  assumes "fetcher_inv src f" "s + n \<le> length src"
  shows "lookup s n f =
    (Ok (if cache.has_all (store f) s n then Some (take n (drop s src)) else None), f)"
  using assms fetcher_inv_facts [OF assms(1)] cache.fetch_coherent [of src "store f" s n]
  by (simp add: lookup_def with_lock_def)

lemma store_update_inv:
  assumes "fetcher_inv src f" "cache.coherent src c"
    and "\<forall>p. resident (store f) p \<noteq> None \<longrightarrow> resident c p \<noteq> None"
  shows "fetcher_inv src (f\<lparr>store := c\<rparr>)" "grows f (f\<lparr>store := c\<rparr>)"
  using assms by (auto simp: fetcher_inv_def grows_def)

lemma remember_after:
  assumes "fetcher_inv src f" "s + n \<le> length src"
  shows "holds_after E src f (\<lambda>_ f'. cache.has_all (store f') s n) (remember s (take n (drop s src)) f)"
proof -
  obtain c where c: "cache_insert (store f) s (take n (drop s src)) = Ok c" "cache.coherent src c"
    "\<forall>p. resident c p \<noteq> None \<longleftrightarrow> resident (store f) p \<noteq> None \<or> p \<in> {s..<s + n}"
    using cache.put_coherent fetcher_inv_facts [OF assms(1)] assms(2) by blast
  have "cache.has_all c s n" using c(3) by (simp add: cache.has_all_def)
  then show ?thesis
    using c store_update_inv [OF assms(1) c(2)] fetcher_inv_facts [OF assms(1)]
    by (simp add: remember_def with_lock_def)
qed

lemma fill_cache_after:
  assumes inv: "fetcher_inv src f" and "\<forall>(s, n)\<in>set spans. s + n \<le> length src"
  shows "holds_after E src f
    (\<lambda>_ f'. requests f' = requests f \<and> (\<forall>(s, n)\<in>set spans. cache.has_all (store f') s n))
    (fill_cache spans (map (\<lambda>(s, n). take n (drop s src)) spans) f)"
proof -
  let ?batch = "map (\<lambda>(s, n). (s, take n (drop s src))) spans"
  have zip: "zip (map fst spans) (map (\<lambda>(s, n). take n (drop s src)) spans) = ?batch"
    by (induction spans) auto
  obtain c where c: "try_fold (\<lambda>c (s, d). cache_insert c s d) (store f) ?batch = Ok c"
    "cache.coherent src c"
    "\<forall>p. resident c p \<noteq> None \<longleftrightarrow>
      resident (store f) p \<noteq> None \<or> (\<exists>(s, n)\<in>set spans. p \<in> {s..<s + n})"
    using cache.fill_coherent [OF fetcher_inv_facts(1) [OF inv] fetcher_inv_facts(4) [OF inv] assms(2)] by blast
  have "\<forall>(s, n)\<in>set spans. cache.has_all c s n"
    using c(3) by (fastforce simp: cache.has_all_def)
  then show ?thesis
    using c(1,3) store_update_inv [OF inv c(2)] fetcher_inv_facts [OF inv]
    by (simp add: fill_cache_def with_lock_def zip)
qed

section \<open>Fetching and serving\<close>

lemma do_fetch_after:
  assumes inv: "fetcher_inv src f"
    and "E \<or> reliable_reader src (reader f) \<and> (\<forall>(s, n)\<in>set rs. s + n \<le> length src)"
  shows "holds_after E src f
    (\<lambda>ds f'. store f' = store f \<and> requests f' = requests f @ [rs] \<and>
      (\<forall>(s, n)\<in>set rs. s + n \<le> length src) \<and> ds = map (\<lambda>(s, n). take n (drop s src)) rs)
    (do_fetch rs f)"
proof -
  have keep: "fetcher_inv src (f\<lparr>requests := requests f @ [rs]\<rparr>)" "grows f (f\<lparr>requests := requests f @ [rs]\<rparr>)"
    using inv by (auto simp: fetcher_inv_def grows_def)
  have ex: "exact_reader src (reader f)" by (rule fetcher_inv_facts [OF inv])
  show ?thesis
  proof (cases "read_many (reader f) (requests f) rs")
    case (Ok ds)
    then have "(\<forall>(s, n)\<in>set rs. s + n \<le> length src) \<and> ds = map (\<lambda>(s, n). take n (drop s src)) rs"
      using ex unfolding exact_reader_def by blast
    then show ?thesis using Ok keep by (simp add: do_fetch_def)
  next
    case (Err e)
    then have "\<not> is_ok (read_many (reader f) (requests f) rs)" by simp
    then have E using assms(2) unfolding reliable_reader_def by blast
    then show ?thesis using Err keep by (simp add: do_fetch_def)
  next
    case Panic
    then show ?thesis using ex by (simp add: exact_reader_def)
  qed
qed

lemma fetch_missing_after:
  assumes inv: "fetcher_inv src f"
    and "E \<or> reliable_reader src (reader f) \<and> (\<forall>(s, n)\<in>set spans. s + n \<le> length src)"
  shows "holds_after E src f
    (\<lambda>_ f'. requests f' = requests f @ (if spans = [] then [] else [spans]) \<and>
      (\<forall>(s, n)\<in>set spans. cache.has_all (store f') s n))
    (fetch_missing spans f)"
proof (cases "spans = []")
  case True
  then show ?thesis using inv by (simp add: fetch_missing_def)
next
  case False
  have "holds_after E src f
    (\<lambda>_ f'. requests f' = requests f @ [spans] \<and> (\<forall>(s, n)\<in>set spans. cache.has_all (store f') s n))
    (seq (do_fetch spans) (\<lambda>fetched. fill_cache spans fetched) f)"
    by (rule holds_after_seq, rule do_fetch_after [OF assms])
      (auto intro!: holds_after_mono [OF fill_cache_after])
  then show ?thesis using False by (simp add: fetch_missing_def)
qed

lemma serve_hit:
  assumes "fetcher_inv src f" "s + n \<le> length src" "cache.has_all (store f) s n"
  shows "serve_or_heal s n f = (Ok (take n (drop s src)), f)"
  using lookup_after [OF assms(1,2)] assms(3) by (simp add: serve_or_heal_def)

lemma serve_or_heal_after:
  assumes inv: "fetcher_inv src f" and range: "s + n \<le> length src"
    and "E \<or> reliable_reader src (reader f)"
  shows "holds_after E src f
    (\<lambda>bs f'. bs = take n (drop s src) \<and> cache.has_all (store f') s n \<and>
      (cache.has_all (store f) s n \<longrightarrow> f' = f))
    (serve_or_heal s n f)"
proof (cases "cache.has_all (store f) s n")
  case True
  then show ?thesis using serve_hit [OF inv range True] inv by simp
next
  case False
  have "holds_after E src f (\<lambda>bs f'. bs = take n (drop s src) \<and> cache.has_all (store f') s n)
    (seq (do_fetch [(s, n)]) (\<lambda>ds.
        if ds = [] then lift_outcome (Err RemoteError)
        else seq (remember s (last ds)) (\<lambda>_. done_with (last ds))) f)"
  proof (rule holds_after_seq, rule do_fetch_after [OF inv])
    show "E \<or> reliable_reader src (reader f) \<and> (\<forall>(s, n)\<in>set [(s, n)]. s + n \<le> length src)"
      using assms by simp
  next
    fix ds f1
    assume f1: "fetcher_inv src f1" and "grows f f1"
      and ds: "store f1 = store f \<and> requests f1 = requests f @ [[(s, n)]] \<and>
        (\<forall>(s, n)\<in>set [(s, n)]. s + n \<le> length src) \<and>
        ds = map (\<lambda>(s, n). take n (drop s src)) [(s, n)]"
    have "holds_after E src f1 (\<lambda>bs f'. bs = take n (drop s src) \<and> cache.has_all (store f') s n)
      (seq (remember s (take n (drop s src))) (\<lambda>_. done_with (take n (drop s src))) f1)"
      by (rule holds_after_seq, rule remember_after [OF f1 range]) simp
    then show "holds_after E src f1 (\<lambda>bs f'. bs = take n (drop s src) \<and> cache.has_all (store f') s n)
      ((if ds = [] then lift_outcome (Err RemoteError)
        else seq (remember s (last ds)) (\<lambda>_. done_with (last ds))) f1)"
      using ds by simp
  qed
  then show ?thesis using lookup_after [OF inv range] False
    by (simp add: serve_or_heal_def)
qed

lemma has_all_grows: "cache.has_all (store f) s n \<Longrightarrow> grows f f' \<Longrightarrow> cache.has_all (store f') s n"
  by (auto simp: grows_def intro: cache.has_all_mono)

lemma each_serve_after:
  assumes "fetcher_inv src f" "\<forall>(s, n)\<in>set rs. s + n \<le> length src"
    and "E \<or> reliable_reader src (reader f)"
  shows "holds_after E src f
    (\<lambda>bss f'. bss = map (\<lambda>(s, n). take n (drop s src)) rs \<and> (\<forall>(s, n)\<in>set rs. cache.has_all (store f') s n) \<and>
      ((\<forall>(s, n)\<in>set rs. cache.has_all (store f) s n) \<longrightarrow> f' = f))
    (each_call (\<lambda>(s, n). serve_or_heal s n) rs f)"
  using assms
proof (induction rs arbitrary: f)
  case (Cons r rs)
  obtain s n where r: "r = (s, n)" by force
  have "holds_after E src f
    (\<lambda>bs f'. bs = take n (drop s src) \<and> cache.has_all (store f') s n \<and>
      (cache.has_all (store f) s n \<longrightarrow> f' = f)) (serve_or_heal s n f)"
    using serve_or_heal_after Cons.prems r by auto
  then have "holds_after E src f
    (\<lambda>bss f'. bss = map (\<lambda>(s, n). take n (drop s src)) (r # rs) \<and>
      (\<forall>(s, n)\<in>set (r # rs). cache.has_all (store f') s n) \<and>
      ((\<forall>(s, n)\<in>set (r # rs). cache.has_all (store f) s n) \<longrightarrow> f' = f))
    (seq (serve_or_heal s n) (\<lambda>y. seq (each_call (\<lambda>(s, n). serve_or_heal s n) rs)
      (\<lambda>ys. done_with (y # ys))) f)"
  proof (rule holds_after_seq)
    fix bs f1
    assume f1: "fetcher_inv src f1" "grows f f1"
      and bs: "bs = take n (drop s src) \<and> cache.has_all (store f1) s n \<and>
        (cache.has_all (store f) s n \<longrightarrow> f1 = f)"
    have "reader f1 = reader f" using f1 by (simp add: grows_def)
    then have "holds_after E src f1
      (\<lambda>bss f'. bss = map (\<lambda>(s, n). take n (drop s src)) rs \<and>
        (\<forall>(s, n)\<in>set rs. cache.has_all (store f') s n) \<and>
        ((\<forall>(s, n)\<in>set rs. cache.has_all (store f1) s n) \<longrightarrow> f' = f1))
      (each_call (\<lambda>(s, n). serve_or_heal s n) rs f1)"
      using Cons.IH [OF f1(1)] Cons.prems by simp
    then show "holds_after E src f1
      (\<lambda>bss f'. bss = map (\<lambda>(s, n). take n (drop s src)) (r # rs) \<and>
        (\<forall>(s, n)\<in>set (r # rs). cache.has_all (store f') s n) \<and>
        ((\<forall>(s, n)\<in>set (r # rs). cache.has_all (store f) s n) \<longrightarrow> f' = f))
      (seq (each_call (\<lambda>(s, n). serve_or_heal s n) rs) (\<lambda>ys. done_with (bs # ys)) f1)"
      by (rule holds_after_seq) (use bs r in \<open>auto dest: has_all_grows\<close>)
  qed
  then show ?case by (simp add: r)
qed simp

section \<open>Planning\<close>

lemma uncached_spans_mem:
  assumes "\<forall>r\<in>set planned. snd r < U64" "(s, n) \<in> set (uncached_spans c planned)"
  shows "(s, s + n) \<in> set (coalesce planned)"
proof -
  obtain sp where sp: "sp \<in> set (coalesce planned)" "s = fst sp" "n = sub64 (snd sp) (fst sp)"
    using assms(2) by (auto simp: uncached_spans_def)
  have "\<forall>r\<in>set planned. snd r \<le> U64 - 1" using assms(1) by auto
  then have "snd sp \<le> U64 - 1" using coalesce_bound sp(1) by blast
  then have "snd sp < U64" using U64_pos by linarith
  moreover have "fst sp < snd sp" using coalesce_nonempty [OF sp(1)] .
  ultimately have "n = snd sp - fst sp" using sp(3) by simp
  then show ?thesis using sp \<open>fst sp < snd sp\<close> by simp
qed

lemma uncached_spans_within:
  assumes "\<forall>r\<in>set planned. snd r \<le> length src" "length src < U64"
  shows "\<forall>(s, n)\<in>set (uncached_spans c planned). s + n \<le> length src"
proof clarify
  fix s n assume "(s, n) \<in> set (uncached_spans c planned)"
  moreover have "\<forall>r\<in>set planned. snd r < U64" using assms by auto
  ultimately have "(s, s + n) \<in> set (coalesce planned)" by (rule uncached_spans_mem [rotated])
  then show "s + n \<le> length src" using coalesce_bound [OF assms(1)] by auto
qed

text \<open>Once the uncached spans are resident, so is everything that was planned.\<close>

lemma planned_resident:
  assumes inv: "cache_inv (store f)" and lt: "\<forall>r\<in>set planned. snd r < U64" and g: "grows f f'"
    and fetched: "\<forall>(s, n)\<in>set (uncached_spans (store f) planned). cache.has_all (store f') s n"
    and p: "p \<in> span_bytes planned"
  shows "resident (store f') p \<noteq> None"
proof -
  have "p \<in> span_bytes (coalesce planned)" using p by (simp add: coalesce_spec)
  then obtain sp where sp: "sp \<in> set (coalesce planned)" "fst sp \<le> p" "p < snd sp"
    by (auto simp: span_bytes_def)
  have "\<forall>r\<in>set planned. snd r \<le> U64 - 1" using lt by auto
  then have "snd sp \<le> U64 - 1" using coalesce_bound sp(1) by blast
  then have lt: "snd sp < U64" using U64_pos by linarith
  have n: "sub64 (snd sp) (fst sp) = snd sp - fst sp" "fst sp + (snd sp - fst sp) = snd sp"
    using sp lt by simp_all
  show ?thesis
  proof (cases "cache_contains (store f) (fst sp) (snd sp - fst sp)")
    case True
    then have "resident (store f) p \<noteq> None"
      using cache_contains_iff [OF inv, of "fst sp" "snd sp - fst sp"] sp lt n by auto
    then show ?thesis using g by (simp add: grows_def)
  next
    case False
    then have "(fst sp, snd sp - fst sp) \<in> set (uncached_spans (store f) planned)"
      using sp n unfolding uncached_spans_def by force
    then have "cache.has_all (store f') (fst sp) (snd sp - fst sp)" using fetched by blast
    then show ?thesis using sp by (simp add: cache.has_all_def)
  qed
qed

lemma check_bounds_eq:
  assumes "fetcher_inv src f"
  shows "check_bounds f s n = (if s + n \<le> length src then Ok (s + n) else Err Decode)"
  using fetcher_inv_facts [OF assms] by (auto simp: check_bounds_def)

lemma consult_after:
  assumes "fetcher_inv src f" "s + n \<le> length src"
  shows "consult s n (s + n) f =
    (Ok (if cache.has_all (store f) s n then Inl (take n (drop s src))
         else Inr (plan_uncached (store f) (policy f) (s, s + n) (length src))), f)"
  using assms fetcher_inv_facts [OF assms(1)] cache.fetch_coherent [of src "store f" s n]
  by (simp add: consult_def with_lock_def)

lemma coherent_inv: "cache.coherent src c \<Longrightarrow> cache_inv c"
  by (simp add: cache.coherent_def)

lemma read_range_after:
  assumes inv: "fetcher_inv src f" and range: "s + n \<le> length src"
    and rel: "E \<or> reliable_reader src (reader f) \<and> prefetch_policy (policy f)"
  shows "holds_after E src f
    (\<lambda>bs f'. bs = take n (drop s src) \<and> cache.has_all (store f') s n \<and>
      (prefetch_policy (policy f) \<longrightarrow> (\<exists>rs. requests f' = requests f @ rs \<and> length rs \<le> 1)))
    (read_range s n f)"
proof (cases "cache.has_all (store f) s n")
  case True
  then show ?thesis using check_bounds_eq [OF inv] consult_after [OF inv range] range inv
    by (simp add: read_range_def)
next
  case False
  let ?planned = "policy f (s, s + n) (length src)"
  let ?spans = "plan_uncached (store f) (policy f) (s, s + n) (length src)"
  have lt: "\<forall>r\<in>set ?planned. snd r < U64"
    using inv fetcher_inv_facts(4) [OF inv] by (auto simp: fetcher_inv_def u64_policy_def)
  have "read_range s n f = seq (fetch_missing ?spans) (\<lambda>_. serve_or_heal s n) f"
    using False check_bounds_eq [OF inv] consult_after [OF inv range] range
    by (simp add: read_range_def)
  moreover have "holds_after E src f
    (\<lambda>bs f'. bs = take n (drop s src) \<and> cache.has_all (store f') s n \<and>
      (prefetch_policy (policy f) \<longrightarrow> (\<exists>rs. requests f' = requests f @ rs \<and> length rs \<le> 1)))
    (seq (fetch_missing ?spans) (\<lambda>_. serve_or_heal s n) f)"
  proof (rule holds_after_seq, rule fetch_missing_after [OF inv])
    have "\<forall>(s, n)\<in>set ?spans. s + n \<le> length src" if "prefetch_policy (policy f)"
      unfolding plan_uncached_def
      using uncached_spans_within prefetch_policy.plan_within [OF that] fetcher_inv_facts(4) [OF inv]
      by blast
    then show "E \<or> reliable_reader src (reader f) \<and> (\<forall>(s, n)\<in>set ?spans. s + n \<le> length src)"
      using rel by blast
  next
    fix u f1
    assume f1: "fetcher_inv src f1" "grows f f1" and req: "requests f1 = requests f @ (if ?spans = [] then [] else [?spans]) \<and>
      (\<forall>(s, n)\<in>set ?spans. cache.has_all (store f1) s n)"
    have rd: "reader f1 = reader f" using f1 by (simp add: grows_def)
    have hit: "cache.has_all (store f1) s n" if pol: "prefetch_policy (policy f)"
    proof -
      have "p \<in> span_bytes ?planned" if "p \<in> {s..<s + n}" for p
        using prefetch_policy.plan_covers [OF pol, of "(s, s + n)" "length src"] that range by auto
      then show ?thesis
        using planned_resident [OF coherent_inv [OF fetcher_inv_facts(1) [OF inv]] lt f1(2)] req
        unfolding cache.has_all_def plan_uncached_def by blast
    qed
    have "E \<or> reliable_reader src (reader f1)" using rel rd by auto
    from serve_or_heal_after [OF f1(1) range this]
    show "holds_after E src f1 (\<lambda>bs f'. bs = take n (drop s src) \<and> cache.has_all (store f') s n \<and>
      (prefetch_policy (policy f) \<longrightarrow> (\<exists>rs. requests f' = requests f @ rs \<and> length rs \<le> 1)))
      (serve_or_heal s n f1)"
      by (rule holds_after_mono) (use hit req in auto)
  qed
  ultimately show ?thesis by simp
qed

lemma read_range_out_of_bounds:
  assumes "fetcher_inv src f" "\<not> s + n \<le> length src"
  shows "read_range s n f = (Err Decode, f)"
  using check_bounds_eq [OF assms(1)] assms(2) by (simp add: read_range_def)

lemma read_range_resident:
  assumes "fetcher_inv src f" "s + n \<le> length src" "cache.has_all (store f) s n"
  shows "read_range s n f = (Ok (take n (drop s src)), f)"
  using check_bounds_eq [OF assms(1)] consult_after [OF assms(1,2)] assms
  by (simp add: read_range_def)

section \<open>Batched reads\<close>

definition batch_plan :: "fetcher \<Rightarrow> (nat \<times> nat) list \<Rightarrow> span list" where
  "batch_plan f rs = concat (map (\<lambda>(offset, len).
     if len = 0 \<or> cache_contains (store f) offset len then []
     else policy f (offset, add64 offset len) (total_size f)) rs)"

lemma consult_batch_eq:
  "\<not> poisoned f \<Longrightarrow> consult_batch rs f = (Ok (uncached_spans (store f) (batch_plan f rs)), f)"
  by (simp add: consult_batch_def with_lock_def batch_plan_def)

lemma batch_plan_covers:
  assumes inv: "fetcher_inv src f" and pol: "prefetch_policy (policy f)"
    and "\<forall>(s, n)\<in>set rs. s + n \<le> length src" "(s, n) \<in> set rs" "p \<in> {s..<s + n}"
  shows "resident (store f) p \<noteq> None \<or> p \<in> span_bytes (batch_plan f rs)"
proof (cases "cache_contains (store f) s n")
  case True
  then show ?thesis
    using cache_contains_iff [OF coherent_inv [OF fetcher_inv_facts(1) [OF inv]], of s n]
      assms fetcher_inv_facts(4) [OF inv] by auto
next
  case False
  have "n \<noteq> 0" using assms(5) by auto
  moreover have len: "s + n \<le> length src" using assms(3,4) by auto
  moreover have "add64 s n = s + n" using len fetcher_inv_facts(4) [OF inv] by simp
  ultimately have "(case (s, n) of (offset, len) \<Rightarrow>
     if len = 0 \<or> cache_contains (store f) offset len then []
     else policy f (offset, add64 offset len) (total_size f)) = policy f (s, s + n) (length src)"
    using False fetcher_inv_facts(3) [OF inv] by simp
  then have "set (policy f (s, s + n) (length src)) \<subseteq> set (batch_plan f rs)"
    using assms(4) unfolding batch_plan_def set_concat set_map
    by (metis (no_types, lifting) UN_upper image_eqI)
  moreover have "p \<in> span_bytes (policy f (s, s + n) (length src))"
    using prefetch_policy.plan_covers [OF pol, of "(s, s + n)" "length src"] assms(5) len by auto
  ultimately show ?thesis by (auto simp: span_bytes_def)
qed

lemma batch_plan_mem:
  "r \<in> set (batch_plan f rs) \<Longrightarrow> \<exists>q. r \<in> set (policy f q (total_size f))"
  by (auto simp: batch_plan_def split: if_splits)

lemma batch_plan_bounds:
  assumes "fetcher_inv src f"
  shows "\<forall>r\<in>set (batch_plan f rs). snd r < U64"
    and "prefetch_policy (policy f) \<Longrightarrow> \<forall>r\<in>set (batch_plan f rs). snd r \<le> length src"
proof -
  show "\<forall>r\<in>set (batch_plan f rs). snd r < U64"
    using assms batch_plan_mem fetcher_inv_facts(3,4) [OF assms]
    unfolding fetcher_inv_def u64_policy_def by metis
  assume "prefetch_policy (policy f)"
  from prefetch_policy.plan_within [OF this] show "\<forall>r\<in>set (batch_plan f rs). snd r \<le> length src"
    using batch_plan_mem fetcher_inv_facts(3) [OF assms] by metis
qed

lemma read_ranges_after:
  assumes inv: "fetcher_inv src f" and range: "\<forall>(s, n)\<in>set rs. s + n \<le> length src"
    and rel: "E \<or> reliable_reader src (reader f) \<and> prefetch_policy (policy f)"
  shows "holds_after E src f
    (\<lambda>bss f'. bss = map (\<lambda>(s, n). take n (drop s src)) rs \<and>
      (\<forall>(s, n)\<in>set rs. cache.has_all (store f') s n) \<and>
      (prefetch_policy (policy f) \<longrightarrow> (\<exists>qs. requests f' = requests f @ qs \<and> length qs \<le> 1)))
    (read_ranges rs f)"
proof (cases "rs = []")
  case True
  then show ?thesis using inv by (simp add: read_ranges_def)
next
  case False
  let ?spans = "uncached_spans (store f) (batch_plan f rs)"
  let ?Q = "\<lambda>bss f'. bss = map (\<lambda>(s, n). take n (drop s src)) rs \<and>
      (\<forall>(s, n)\<in>set rs. cache.has_all (store f') s n) \<and>
      (prefetch_policy (policy f) \<longrightarrow> (\<exists>qs. requests f' = requests f @ qs \<and> length qs \<le> 1))"
  have "try_map (\<lambda>(s, n). check_bounds f s n) rs = Ok (map (\<lambda>(s, n). s + n) rs)"
    by (rule try_map_all_Ok) (use range in \<open>auto simp: check_bounds_eq [OF inv]\<close>)
  then have "read_ranges rs f = seq (fetch_missing ?spans)
      (\<lambda>_. each_call (\<lambda>(s, n). serve_or_heal s n) rs) f"
    using False consult_batch_eq [OF fetcher_inv_facts(2) [OF inv]] by (simp add: read_ranges_def)
  moreover have "holds_after E src f ?Q
      (seq (fetch_missing ?spans) (\<lambda>_. each_call (\<lambda>(s, n). serve_or_heal s n) rs) f)"
  proof (rule holds_after_seq, rule fetch_missing_after [OF inv])
    show "E \<or> reliable_reader src (reader f) \<and> (\<forall>(s, n)\<in>set ?spans. s + n \<le> length src)"
      using rel uncached_spans_within batch_plan_bounds(2) [OF inv] fetcher_inv_facts(4) [OF inv]
      by blast
  next
    fix u f1
    assume f1: "fetcher_inv src f1" "grows f f1" and req: "requests f1 = requests f @ (if ?spans = [] then [] else [?spans]) \<and>
      (\<forall>(s, n)\<in>set ?spans. cache.has_all (store f1) s n)"
    have rd: "reader f1 = reader f" using f1 by (simp add: grows_def)
    have hit: "\<forall>(s, n)\<in>set rs. cache.has_all (store f1) s n" if pol: "prefetch_policy (policy f)"
      unfolding cache.has_all_def
      using batch_plan_covers [OF inv pol range] f1(2) req
        planned_resident [OF coherent_inv [OF fetcher_inv_facts(1) [OF inv]] batch_plan_bounds(1) [OF inv] f1(2)]
      unfolding grows_def by blast
    have "E \<or> reliable_reader src (reader f1)" using rel rd by auto
    from each_serve_after [OF f1(1) range this]
    show "holds_after E src f1 ?Q (each_call (\<lambda>(s, n). serve_or_heal s n) rs f1)"
      by (rule holds_after_mono) (use hit req in auto)
  qed
  ultimately show ?thesis by simp
qed

lemma read_ranges_out_of_bounds:
  assumes inv: "fetcher_inv src f" and "\<exists>(s, n)\<in>set rs. \<not> s + n \<le> length src"
  shows "read_ranges rs f = (Err Decode, f)"
proof -
  have "\<exists>(s, n)\<in>set qs. \<not> s + n \<le> length src \<Longrightarrow> try_map (\<lambda>(s, n). check_bounds f s n) qs = Err Decode" for qs
  proof (induction qs)
    case (Cons q qs)
    then show ?case
      by (cases "\<exists>(s, n)\<in>set qs. \<not> s + n \<le> length src"; cases q)
        (use Cons in \<open>auto simp: check_bounds_eq [OF inv] simp del: bex_simps\<close>)
  qed simp
  moreover have "rs \<noteq> []" using assms(2) by auto
  ultimately show ?thesis using assms(2) by (simp add: read_ranges_def)
qed

lemma read_ranges_resident:
  assumes inv: "fetcher_inv src f" and range: "\<forall>(s, n)\<in>set rs. s + n \<le> length src"
    and res: "\<forall>(s, n)\<in>set rs. cache.has_all (store f) s n"
  shows "read_ranges rs f = (Ok (map (\<lambda>(s, n). take n (drop s src)) rs), f)"
proof -
  have "cache_contains (store f) s n" if "(s, n) \<in> set rs" for s n
    using that res range cache_contains_iff [OF coherent_inv [OF fetcher_inv_facts(1) [OF inv]], of s n]
      fetcher_inv_facts(4) [OF inv] by (fastforce simp: cache.has_all_def)
  then have "batch_plan f rs = []" by (auto simp: batch_plan_def)
  moreover have "try_map (\<lambda>(s, n). check_bounds f s n) rs = Ok (map (\<lambda>(s, n). s + n) rs)"
    by (rule try_map_all_Ok) (use range in \<open>auto simp: check_bounds_eq [OF inv]\<close>)
  moreover have "each_call (\<lambda>(s, n). serve_or_heal s n) qs f = (Ok (map (\<lambda>(s, n). take n (drop s src)) qs), f)"
    if "set qs \<subseteq> set rs" for qs
    using that
  proof (induction qs)
    case (Cons q qs)
    obtain s n where q: "q = (s, n)" by force
    then have "s + n \<le> length src" "cache.has_all (store f) s n" using range res Cons.prems by auto
    then have "serve_or_heal s n f = (Ok (take n (drop s src)), f)" by (rule serve_hit [OF inv])
    then show ?case using Cons q by simp
  qed simp
  ultimately show ?thesis
    using consult_batch_eq [OF fetcher_inv_facts(2) [OF inv]]
    by (auto simp: read_ranges_def fetch_missing_def uncached_spans_def coalesce_def)
qed

section \<open>An in-memory source\<close>

text \<open>The in-memory reader: the trait's default \<open>read_many\<close> over a \<open>read_at\<close> that serves
  from a byte list.  It meets the contract and never fails inside the source.\<close>

definition memory_read_at :: "byte list \<Rightarrow> nat \<Rightarrow> nat \<Rightarrow> (byte list, codec_error) outcome" where
  "memory_read_at src s n = (if s + n \<le> length src then Ok (take n (drop s src)) else Err RemoteError)"

definition memory_reader :: "byte list \<Rightarrow> range_reader" where
  "memory_reader src = \<lparr>read_many = (\<lambda>_. read_many_default (memory_read_at src)), reader_size = length src\<rparr>"

lemma read_many_default_exact:
  "read_many_default (memory_read_at src) rs = Ok ds \<Longrightarrow>
    (\<forall>(s, n)\<in>set rs. s + n \<le> length src) \<and> ds = map (\<lambda>(s, n). take n (drop s src)) rs"
  by (induction rs arbitrary: ds)
    (auto simp: read_many_default_def memory_read_at_def outcome_simps split: if_splits)

lemma read_many_default_total: "read_many_default (memory_read_at src) rs \<noteq> Panic"
  by (induction rs) (auto simp: read_many_default_def memory_read_at_def and_then_Panic split: if_splits)

lemma memory_reader_exact: "length src < U64 \<Longrightarrow> exact_reader src (memory_reader src)"
  using read_many_default_exact read_many_default_total
  by (auto simp: exact_reader_def memory_reader_def)

lemma memory_reader_reliable: "reliable_reader src (memory_reader src)"
proof -
  have "is_ok (read_many_default (memory_read_at src) rs)" if "\<forall>(s, n)\<in>set rs. s + n \<le> length src" for rs
  proof -
    have "try_map (\<lambda>(s, n). memory_read_at src s n) rs = Ok (map (\<lambda>(s, n). take n (drop s src)) rs)"
      by (rule try_map_all_Ok) (use that in \<open>auto simp: memory_read_at_def\<close>)
    then show ?thesis by (simp add: read_many_default_def)
  qed
  then show ?thesis by (simp add: reliable_reader_def memory_reader_def)
qed

lemma within_u64_policy: "prefetch_policy pol \<Longrightarrow> u64_policy pol"
  unfolding u64_policy_def using prefetch_policy.plan_within le_less_trans by blast

lemma with_policy_inv:
  "exact_reader src rd \<Longrightarrow> u64_policy pol \<Longrightarrow> fetcher_inv src (with_policy rd pol)"
  by (simp add: fetcher_inv_def with_policy_def cache.coherent_fresh exact_reader_def)

lemma memory_fetcher_inv:
  "length src < U64 \<Longrightarrow> fetcher_inv src (with_policy (memory_reader src) (header_plan pol))"
  by (simp add: with_policy_inv memory_reader_exact within_u64_policy header.prefetch_policy_axioms)

lemma with_policy_simps [simp]:
  "reader (with_policy rd pol) = rd" "policy (with_policy rd pol) = pol"
  "requests (with_policy rd pol) = []"
  by (simp_all add: with_policy_def)

section \<open>Properties\<close>

text \<open>C1: over a source that honours the reader contract and a policy that covers the request,
  \<open>read_range\<close> returns exactly the source bytes with at most one batched fetch, keeps the
  fetcher coherent, and every later read inside the range is served without a fetch.\<close>

theorem read_range_exact:
  assumes "fetcher_inv src f" "reliable_reader src (reader f)" "prefetch_policy (policy f)"
    and "offset + len \<le> length src"
  shows "\<exists>f'. read_range offset len f = (Ok (take len (drop offset src)), f') \<and> fetcher_inv src f' \<and>
    (\<exists>qs. requests f' = requests f @ qs \<and> length qs \<le> 1) \<and>
    (\<forall>o' n'. offset \<le> o' \<longrightarrow> o' + n' \<le> offset + len \<longrightarrow>
      read_range o' n' f' = (Ok (take n' (drop o' src)), f'))"
proof -
  obtain r f' where res: "read_range offset len f = (r, f')" by force
  have "holds_after False src f
    (\<lambda>bs f'. bs = take len (drop offset src) \<and> cache.has_all (store f') offset len \<and>
      (prefetch_policy (policy f) \<longrightarrow> (\<exists>rs. requests f' = requests f @ rs \<and> length rs \<le> 1))) (r, f')"
    using read_range_after [of src f offset len False] assms res by simp
  then have *: "r = Ok (take len (drop offset src))" "fetcher_inv src f'"
    "cache.has_all (store f') offset len" "\<exists>rs. requests f' = requests f @ rs \<and> length rs \<le> 1"
    using assms(3) by (cases r; simp)+
  have "read_range o' n' f' = (Ok (take n' (drop o' src)), f')"
    if "offset \<le> o'" "o' + n' \<le> offset + len" for o' n'
    by (rule read_range_resident [OF *(2)]) (use that *(3) assms(4) in \<open>auto simp: cache.has_all_def\<close>)
  then show ?thesis using res * by blast
qed

lemma read_range_exact_witness:
  "\<exists>f'. read_range 1 3 (with_policy (memory_reader [10, 20, 30, 40, 50]) (header_plan (header_policy_new 2)))
      = (Ok [20, 30, 40], f') \<and> length (requests f') \<le> 1 \<and> read_range 2 2 f' = (Ok [30, 40], f')"
proof -
  let ?src = "[10, 20, 30, 40, 50] :: byte list"
  let ?f = "with_policy (memory_reader ?src) (header_plan (header_policy_new 2))"
  have "fetcher_inv ?src ?f" by (rule memory_fetcher_inv) (simp add: U64_def)
  moreover have "reliable_reader ?src (reader ?f)" by (simp add: memory_reader_reliable)
  moreover have "prefetch_policy (policy ?f)" by (simp add: header.prefetch_policy_axioms)
  ultimately obtain f' where f': "read_range 1 3 ?f = (Ok (take 3 (drop 1 ?src)), f')"
    "\<exists>qs. requests f' = requests ?f @ qs \<and> length qs \<le> 1"
    "\<forall>o' n'. 1 \<le> o' \<longrightarrow> o' + n' \<le> 1 + 3 \<longrightarrow> read_range o' n' f' = (Ok (take n' (drop o' ?src)), f')"
    using read_range_exact [of ?src ?f 1 3] by auto
  have "read_range 2 2 f' = (Ok [30, 40], f')" using f'(3) [rule_format, of 2 2] by simp
  moreover have "length (requests f') \<le> 1" using f'(2) by auto
  ultimately show ?thesis using f'(1) by auto
qed

text \<open>C2: whatever the reader's failures and whatever the policy plans, \<open>read_range\<close> never
  panics and never returns a wrong byte: it returns the source bytes or an error, a request
  outside the source is the decode error, and the cache stays coherent and only grows.\<close>

theorem read_range_safe:
  assumes "fetcher_inv src f"
  shows "case read_range offset len f of
      (Ok bs, f') \<Rightarrow> offset + len \<le> length src \<and> bs = take len (drop offset src) \<and>
        fetcher_inv src f' \<and> grows f f'
    | (Err e, f') \<Rightarrow> fetcher_inv src f' \<and> grows f f' \<and>
        (\<not> offset + len \<le> length src \<longrightarrow> e = Decode \<and> f' = f)
    | (Panic, f') \<Rightarrow> False"
proof (cases "offset + len \<le> length src")
  case True
  then show ?thesis using read_range_after [OF assms True, of True]
    by (auto simp: holds_after_def split: prod.splits outcome.splits)
next
  case False
  then show ?thesis using read_range_out_of_bounds [OF assms False] assms by simp
qed

lemma read_range_safe_witness:
  "case read_range 3 9 (with_policy (memory_reader [10, 20, 30, 40, 50]) (\<lambda>_ _. [(0, 99)])) of
      (Ok bs, f') \<Rightarrow> False | (Err e, f') \<Rightarrow> e = Decode | (Panic, f') \<Rightarrow> False"
proof -
  let ?src = "[10, 20, 30, 40, 50] :: byte list"
  let ?f = "with_policy (memory_reader ?src) (\<lambda>_ _. [(0, 99)])"
  have "fetcher_inv ?src ?f"
    by (rule with_policy_inv) (simp_all add: memory_reader_exact u64_policy_def U64_def)
  from read_range_safe [OF this, of 3 9] show ?thesis
    by (auto split: prod.splits outcome.splits)
qed

text \<open>C3: a batched read returns, in input order, exactly the bytes of every requested range
  with at most one batched fetch; one range outside the source fails the batch before any
  fetch.\<close>

theorem read_ranges_exact:
  assumes "fetcher_inv src f" "reliable_reader src (reader f)" "prefetch_policy (policy f)"
  shows "((\<forall>(s, n)\<in>set rs. s + n \<le> length src) \<longrightarrow>
      (\<exists>f'. read_ranges rs f = (Ok (map (\<lambda>(s, n). take n (drop s src)) rs), f') \<and> fetcher_inv src f' \<and>
        (\<exists>qs. requests f' = requests f @ qs \<and> length qs \<le> 1) \<and>
        read_ranges rs f' = (Ok (map (\<lambda>(s, n). take n (drop s src)) rs), f'))) \<and>
    ((\<exists>(s, n)\<in>set rs. \<not> s + n \<le> length src) \<longrightarrow> read_ranges rs f = (Err Decode, f))"
proof (rule conjI)
  show "(\<exists>(s, n)\<in>set rs. \<not> s + n \<le> length src) \<longrightarrow> read_ranges rs f = (Err Decode, f)"
    using read_ranges_out_of_bounds [OF assms(1)] by blast
  show "(\<forall>(s, n)\<in>set rs. s + n \<le> length src) \<longrightarrow>
      (\<exists>f'. read_ranges rs f = (Ok (map (\<lambda>(s, n). take n (drop s src)) rs), f') \<and> fetcher_inv src f' \<and>
        (\<exists>qs. requests f' = requests f @ qs \<and> length qs \<le> 1) \<and>
        read_ranges rs f' = (Ok (map (\<lambda>(s, n). take n (drop s src)) rs), f'))"
  proof
    assume range: "\<forall>(s, n)\<in>set rs. s + n \<le> length src"
    obtain r f' where res: "read_ranges rs f = (r, f')" by force
    have "holds_after False src f
      (\<lambda>bss f'. bss = map (\<lambda>(s, n). take n (drop s src)) rs \<and>
        (\<forall>(s, n)\<in>set rs. cache.has_all (store f') s n) \<and>
        (prefetch_policy (policy f) \<longrightarrow> (\<exists>qs. requests f' = requests f @ qs \<and> length qs \<le> 1))) (r, f')"
      using read_ranges_after [OF assms(1) range, of False] assms res by simp
    then have *: "r = Ok (map (\<lambda>(s, n). take n (drop s src)) rs)" "fetcher_inv src f'"
      "\<forall>(s, n)\<in>set rs. cache.has_all (store f') s n" "\<exists>qs. requests f' = requests f @ qs \<and> length qs \<le> 1"
      using assms(3) by (cases r; simp)+
    show "\<exists>f'. read_ranges rs f = (Ok (map (\<lambda>(s, n). take n (drop s src)) rs), f') \<and> fetcher_inv src f' \<and>
        (\<exists>qs. requests f' = requests f @ qs \<and> length qs \<le> 1) \<and>
        read_ranges rs f' = (Ok (map (\<lambda>(s, n). take n (drop s src)) rs), f')"
      using res * read_ranges_resident [OF *(2) range *(3)] by blast
  qed
qed

lemma read_ranges_exact_witness:
  "\<exists>f'. read_ranges [(3, 2), (0, 1)] (with_policy (memory_reader [10, 20, 30, 40, 50]) (header_plan (header_policy_new 2)))
      = (Ok [[40, 50], [10]], f')"
proof -
  let ?src = "[10, 20, 30, 40, 50] :: byte list"
  let ?f = "with_policy (memory_reader ?src) (header_plan (header_policy_new 2))"
  have "fetcher_inv ?src ?f" by (rule memory_fetcher_inv) (simp add: U64_def)
  moreover have "reliable_reader ?src (reader ?f)" by (simp add: memory_reader_reliable)
  moreover have "prefetch_policy (policy ?f)" by (simp add: header.prefetch_policy_axioms)
  ultimately show ?thesis using read_ranges_exact [of ?src ?f "[(3, 2), (0, 1)]"] by auto
qed

end
