(* ===== verification/Owned_Buffer.thy ===== *)
theory Owned_Buffer
  imports Stream_Fetcher
begin

text \<open>
  The byte buffer of \<open>src/src/owned_buffer.rs\<close>: a window on a memory map, on a heap
  vector or on a remote source.  A remote backing is shared (an \<open>Arc\<close> in the code), so
  buffers hold its address in a heap of fetchers and the calls that may fetch pass that
  heap.  \<open>view\<close> is the abstract value of a buffer, the bytes it denotes; the lemmas show
  that slicing and reading act on the view in the same way for the three backings.
\<close>

section \<open>State\<close>

datatype backing_store = Mapped "byte list" | Heap "byte list" | Remote nat

record owned_buffer =
  backing :: backing_store
  range_start :: nat
  range_end' :: nat

record remote_heap =
  fetchers :: "fetcher list"

type_synonym 'a buffer_call = "(remote_heap, 'a, codec_error) call"

definition window :: "backing_store \<Rightarrow> nat \<Rightarrow> nat \<Rightarrow> owned_buffer" where
  "window st a b = \<lparr>backing = st, range_start = a, range_end' = b\<rparr>"

definition from_mmap :: "byte list \<Rightarrow> owned_buffer" where
  "from_mmap d = window (Mapped d) 0 (length d)"

definition from_vec :: "byte list \<Rightarrow> owned_buffer" where
  "from_vec d = window (Heap d) 0 (length d)"

definition from_remote :: "fetcher \<Rightarrow> owned_buffer buffer_call" where
  "from_remote f = (\<lambda>h.
    (Ok (window (Remote (length (fetchers h))) 0 (total_size f)), h\<lparr>fetchers := fetchers h @ [f]\<rparr>))"

section \<open>Operations\<close>

definition is_remote :: "owned_buffer \<Rightarrow> bool" where
  "is_remote b = (case backing b of Remote i \<Rightarrow> True | _ \<Rightarrow> False)"

fun backing_bytes :: "backing_store \<Rightarrow> (byte list, codec_error) outcome" where
  "backing_bytes (Mapped d) = Ok d"
| "backing_bytes (Heap d) = Ok d"
| "backing_bytes (Remote i) = Panic"

definition as_bytes :: "owned_buffer \<Rightarrow> (byte list, codec_error) outcome" where
  "as_bytes b =
    (if is_remote b then Panic
     else and_then (backing_bytes (backing b)) (\<lambda>d. slice (range_start b) (range_end' b) d))"

definition buffer_len :: "owned_buffer \<Rightarrow> nat" where
  "buffer_len b = (if range_start b < range_end' b then range_end' b - range_start b else 0)"

definition buffer_is_empty :: "owned_buffer \<Rightarrow> bool" where
  "buffer_is_empty b \<longleftrightarrow> \<not> range_start b < range_end' b"

definition slice_unchecked :: "owned_buffer \<Rightarrow> nat \<Rightarrow> nat \<Rightarrow> owned_buffer" where
  "slice_unchecked b s e =
    (if \<not> s < e then window (backing b) 0 0
     else window (backing b) (add64 (range_start b) s) (add64 (range_start b) e))"

text \<open>A call on the fetcher at an address of the heap.\<close>

definition on_fetcher :: "nat \<Rightarrow> 'a fetch_call \<Rightarrow> 'a buffer_call" where
  "on_fetcher i m = (\<lambda>h.
    if i < length (fetchers h)
    then (case m (fetchers h ! i) of (r, f') \<Rightarrow> (r, h\<lparr>fetchers := (fetchers h)[i := f']\<rparr>))
    else (Panic, h))"

definition fetch_remote_slice :: "owned_buffer \<Rightarrow> nat \<Rightarrow> nat \<Rightarrow> nat \<Rightarrow> owned_buffer buffer_call" where
  "fetch_remote_slice b i s e = (\<lambda>h.
    if \<not> s < e then (Ok (from_vec []), h)
    else (case on_fetcher i (read_range (add64 (range_start b) s) (e - s)) h of
      (r, h') \<Rightarrow> (map_ok from_vec (map_err_to (\<lambda>_. RemoteError) r), h')))"

definition try_slice :: "owned_buffer \<Rightarrow> nat \<Rightarrow> nat \<Rightarrow> owned_buffer buffer_call" where
  "try_slice b s e =
    (if s > e then lift_outcome (Err Decode)
     else if e > buffer_len b then lift_outcome (Err Decode)
     else case backing b of
       Remote i \<Rightarrow> fetch_remote_slice b i s e
     | _ \<Rightarrow> done_with (slice_unchecked b s e))"

text \<open>The panicking form, for callers that know the range is valid.\<close>

definition slice_buffer :: "owned_buffer \<Rightarrow> nat \<Rightarrow> nat \<Rightarrow> owned_buffer buffer_call" where
  "slice_buffer b s e =
    seq (lift_outcome (assert_that (s \<le> e))) (\<lambda>_.
    seq (lift_outcome (assert_that (e \<le> buffer_len b))) (\<lambda>_.
    case backing b of
      Remote i \<Rightarrow> (\<lambda>h. case fetch_remote_slice b i s e h of
          (Ok b', h') \<Rightarrow> (Ok b', h')
        | (r, h') \<Rightarrow> (Panic, h'))
    | _ \<Rightarrow> done_with (slice_unchecked b s e)))"

definition materialize :: "owned_buffer \<Rightarrow> owned_buffer buffer_call" where
  "materialize b = (if is_remote b then try_slice b 0 (buffer_len b) else done_with b)"

definition subview :: "owned_buffer \<Rightarrow> nat \<Rightarrow> nat \<Rightarrow> (owned_buffer, codec_error) outcome" where
  "subview b s e =
    and_then (assert_that (s \<le> e)) (\<lambda>_.
    and_then (assert_that (e \<le> buffer_len b)) (\<lambda>_. Ok (slice_unchecked b s e)))"

definition buffer_resident_bytes :: "owned_buffer \<Rightarrow> (byte list option, codec_error) outcome" where
  "buffer_resident_bytes b =
    (if is_remote b then Ok None
     else and_then (backing_bytes (backing b)) (\<lambda>d.
       map_ok Some (slice (range_start b) (range_end' b) d)))"

definition buffer_read_range :: "owned_buffer \<Rightarrow> nat \<Rightarrow> nat \<Rightarrow> byte list buffer_call" where
  "buffer_read_range b offset len =
    seq (try_slice b offset (add64 offset len)) (\<lambda>b'. lift_outcome (as_bytes b'))"

definition abs_range :: "owned_buffer \<Rightarrow> nat \<times> nat \<Rightarrow> (nat \<times> nat, codec_error) outcome" where
  "abs_range b = (\<lambda>(offset, len).
    and_then (ok_or Decode (checked_add64 offset len)) (\<lambda>e.
      if e > buffer_len b then Err Decode else Ok (add64 (range_start b) offset, len)))"

definition buffer_read_ranges :: "owned_buffer \<Rightarrow> (nat \<times> nat) list \<Rightarrow> byte list list buffer_call" where
  "buffer_read_ranges b rs =
    (case backing b of
      Remote i \<Rightarrow>
        seq (lift_outcome (try_map (abs_range b) rs)) (\<lambda>abs_ranges h.
        case on_fetcher i (read_ranges abs_ranges) h of
          (r, h') \<Rightarrow> (map_err_to (\<lambda>_. RemoteError) r, h'))
    | _ \<Rightarrow> each_call (\<lambda>(offset, len). buffer_read_range b offset len) rs)"

text \<open>\<open>PartialEq\<close>: two remote buffers are compared by the address of their backing.\<close>

definition buffer_eq :: "owned_buffer \<Rightarrow> owned_buffer \<Rightarrow> (bool, codec_error) outcome" where
  "buffer_eq x y =
    (case (backing x, backing y) of
      (Remote i, Remote j) \<Rightarrow>
        Ok (i = j \<and> range_start x = range_start y \<and> range_end' x = range_end' y)
    | (Remote i, _) \<Rightarrow> Ok False
    | (_, Remote j) \<Rightarrow> Ok False
    | (_, _) \<Rightarrow> and_then (as_bytes x) (\<lambda>a. and_then (as_bytes y) (\<lambda>b. Ok (a = b))))"

section \<open>Abstract value and invariant\<close>

text \<open>\<open>srcs\<close> gives the bytes behind each remote address.\<close>

definition backing_source :: "byte list list \<Rightarrow> backing_store \<Rightarrow> byte list" where
  "backing_source srcs st = (case st of Mapped d \<Rightarrow> d | Heap d \<Rightarrow> d | Remote i \<Rightarrow> srcs ! i)"

definition view :: "byte list list \<Rightarrow> owned_buffer \<Rightarrow> byte list" where
  "view srcs b = take (buffer_len b) (drop (range_start b) (backing_source srcs (backing b)))"

definition buffer_wf :: "byte list list \<Rightarrow> owned_buffer \<Rightarrow> bool" where
  "buffer_wf srcs b \<longleftrightarrow> range_start b \<le> range_end' b \<and>
    range_end' b \<le> length (backing_source srcs (backing b)) \<and>
    length (backing_source srcs (backing b)) < U64 \<and>
    (\<forall>i. backing b = Remote i \<longrightarrow> i < length srcs)"

definition fetcher_ready :: "byte list \<Rightarrow> fetcher \<Rightarrow> bool" where
  "fetcher_ready src f \<longleftrightarrow>
    fetcher_inv src f \<and> reliable_reader src (reader f) \<and> prefetch_policy (policy f)"

definition heap_wf :: "byte list list \<Rightarrow> remote_heap \<Rightarrow> bool" where
  "heap_wf srcs h \<longleftrightarrow> list_all2 fetcher_ready srcs (fetchers h)"

section \<open>Lemmas on views\<close>

lemma window_simps [simp]:
  "backing (window st a b) = st" "range_start (window st a b) = a" "range_end' (window st a b) = b"
  by (simp_all add: window_def)

lemma view_from_vec [simp]: "view srcs (from_vec d) = d"
  by (auto simp: view_def from_vec_def buffer_len_def backing_source_def)

lemma buffer_wf_from_vec: "length d < U64 \<Longrightarrow> buffer_wf srcs (from_vec d)"
  by (simp add: buffer_wf_def from_vec_def backing_source_def)

lemma is_remote_from_vec [simp]: "\<not> is_remote (from_vec d)"
  by (simp add: is_remote_def from_vec_def)

lemma length_view: "buffer_wf srcs b \<Longrightarrow> length (view srcs b) = buffer_len b"
  by (auto simp: view_def buffer_wf_def buffer_len_def)

lemma buffer_len_lt: "buffer_wf srcs b \<Longrightarrow> buffer_len b < U64"
  by (auto simp: buffer_wf_def buffer_len_def)

lemma view_window:
  assumes "buffer_wf srcs b" "s + n \<le> buffer_len b"
  shows "take n (drop (range_start b + s) (backing_source srcs (backing b))) = take n (drop s (view srcs b))"
proof -
  have "n \<le> buffer_len b - s" using assms(2) by simp
  then show ?thesis by (simp add: view_def drop_take add.commute min_absorb1)
qed

lemma slice_unchecked_view:
  assumes wf: "buffer_wf srcs b" and "s \<le> e" "e \<le> buffer_len b"
  shows "view srcs (slice_unchecked b s e) = take (e - s) (drop s (view srcs b))"
    and "buffer_wf srcs (slice_unchecked b s e)"
    and "is_remote (slice_unchecked b s e) = is_remote b"
proof -
  have lt: "range_start b + e < U64" "range_start b + s < U64" if "s < e"
    using assms that by (auto simp: buffer_wf_def buffer_len_def split: if_splits)
  show "view srcs (slice_unchecked b s e) = take (e - s) (drop s (view srcs b))"
  proof (cases "s < e")
    case True
    then have "view srcs (slice_unchecked b s e) =
        take (e - s) (drop (range_start b + s) (backing_source srcs (backing b)))"
      using lt by (simp add: view_def slice_unchecked_def buffer_len_def)
    then show ?thesis using view_window [OF wf, of s "e - s"] assms by simp
  qed (simp add: view_def slice_unchecked_def buffer_len_def)
  show "buffer_wf srcs (slice_unchecked b s e)"
    using assms lt by (auto simp: buffer_wf_def slice_unchecked_def buffer_len_def split: if_splits)
  show "is_remote (slice_unchecked b s e) = is_remote b"
    by (simp add: is_remote_def slice_unchecked_def)
qed

lemma as_bytes_view:
  assumes "buffer_wf srcs b" "\<not> is_remote b"
  shows "as_bytes b = Ok (view srcs b)"
  using assms by (cases "backing b")
    (auto simp: as_bytes_def is_remote_def view_def backing_source_def buffer_wf_def buffer_len_def)

section \<open>Remote reads\<close>

lemma fetcher_ready_grows:
  "fetcher_ready src f \<Longrightarrow> fetcher_inv src f' \<Longrightarrow> grows f f' \<Longrightarrow> fetcher_ready src f'"
  by (simp add: fetcher_ready_def grows_def)

lemma holds_after_False_Ok:
  "holds_after False src f P r \<Longrightarrow> \<exists>a f'. r = (Ok a, f') \<and> fetcher_inv src f' \<and> grows f f' \<and> P a f'"
  by (auto simp: holds_after_def split: prod.splits outcome.splits)

lemma read_range_ready:
  assumes "fetcher_ready src f" "s + n \<le> length src"
  shows "\<exists>f'. read_range s n f = (Ok (take n (drop s src)), f') \<and> fetcher_ready src f'"
  using holds_after_False_Ok [OF read_range_after [of src f s n False]] assms
    fetcher_ready_grows [OF assms(1)]
  by (auto simp: fetcher_ready_def)

lemma read_ranges_ready:
  assumes "fetcher_ready src f" "\<forall>(s, n)\<in>set rs. s + n \<le> length src"
  shows "\<exists>f'. read_ranges rs f = (Ok (map (\<lambda>(s, n). take n (drop s src)) rs), f') \<and> fetcher_ready src f'"
  using holds_after_False_Ok [OF read_ranges_after [of src f rs False]] assms
    fetcher_ready_grows [OF assms(1)]
  by (auto simp: fetcher_ready_def)

text \<open>A call that succeeds on the fetcher succeeds through the heap and keeps it well-formed.\<close>

lemma on_fetcher_ready:
  assumes "heap_wf srcs h" "i < length srcs"
    and "\<And>f. fetcher_ready (srcs ! i) f \<Longrightarrow> \<exists>f'. m f = (Ok a, f') \<and> fetcher_ready (srcs ! i) f'"
  shows "\<exists>h'. on_fetcher i m h = (Ok a, h') \<and> heap_wf srcs h'"
proof -
  have i: "i < length (fetchers h)" and "fetcher_ready (srcs ! i) (fetchers h ! i)"
    using assms(1,2) by (auto simp: heap_wf_def list_all2_lengthD list_all2_nthD)
  then obtain f' where "m (fetchers h ! i) = (Ok a, f')" "fetcher_ready (srcs ! i) f'"
    using assms(3) by blast
  moreover have "heap_wf srcs (h\<lparr>fetchers := (fetchers h)[i := f']\<rparr>)"
    using assms(1) calculation(2) i
    by (auto simp: heap_wf_def list_all2_conv_all_nth nth_list_update)
  ultimately show ?thesis using i by (simp add: on_fetcher_def)
qed

lemma fetch_remote_slice_view:
  assumes wf: "buffer_wf srcs b" and heap: "heap_wf srcs h" and i: "backing b = Remote i"
    and "s \<le> e" "e \<le> buffer_len b"
  shows "\<exists>h'. fetch_remote_slice b i s e h = (Ok (from_vec (take (e - s) (drop s (view srcs b)))), h')
    \<and> heap_wf srcs h'"
proof (cases "s < e")
  case False
  then show ?thesis using assms by (simp add: fetch_remote_slice_def)
next
  case True
  have i_lt: "i < length srcs" and src: "backing_source srcs (backing b) = srcs ! i"
    using wf i by (auto simp: buffer_wf_def backing_source_def)
  have bound: "range_start b + s + (e - s) \<le> length (srcs ! i)" "range_start b + s < U64"
    using wf assms(4,5) True src by (auto simp: buffer_wf_def buffer_len_def split: if_splits)
  have "\<exists>h'. on_fetcher i (read_range (range_start b + s) (e - s)) h =
      (Ok (take (e - s) (drop (range_start b + s) (srcs ! i))), h') \<and> heap_wf srcs h'"
    by (rule on_fetcher_ready [OF heap i_lt]) (rule read_range_ready, use bound in auto)
  moreover have "take (e - s) (drop (range_start b + s) (srcs ! i)) = take (e - s) (drop s (view srcs b))"
    using view_window [OF wf, of s "e - s"] assms(4,5) src by simp
  ultimately show ?thesis using True bound(2) by (auto simp: fetch_remote_slice_def)
qed

lemma try_slice_step:
  assumes wf: "buffer_wf srcs b" and heap: "heap_wf srcs h" and "s \<le> e" "e \<le> buffer_len b"
  shows "\<exists>b' h'. try_slice b s e h = (Ok b', h') \<and> heap_wf srcs h' \<and> buffer_wf srcs b' \<and>
    view srcs b' = take (e - s) (drop s (view srcs b)) \<and> \<not> is_remote b'"
proof (cases "backing b")
  case (Remote i)
  have "length (take (e - s) (drop s (view srcs b))) < U64"
    using buffer_len_lt [OF wf] length_view [OF wf] by auto
  then show ?thesis using fetch_remote_slice_view [OF wf heap Remote assms(3,4)] Remote assms(3,4)
    by (auto simp: try_slice_def buffer_wf_from_vec)
qed (use slice_unchecked_view [OF wf assms(3,4)] assms in \<open>auto simp: try_slice_def is_remote_def\<close>)

lemma try_slice_out_of_bounds:
  "\<not> (s \<le> e \<and> e \<le> buffer_len b) \<Longrightarrow> try_slice b s e h = (Err Decode, h)"
  by (auto simp: try_slice_def)

lemma buffer_read_range_step:
  assumes wf: "buffer_wf srcs b" and heap: "heap_wf srcs h" and "s + n \<le> buffer_len b"
  shows "\<exists>h'. buffer_read_range b s n h = (Ok (take n (drop s (view srcs b))), h') \<and> heap_wf srcs h'"
proof -
  have "s + n < U64" using assms(3) buffer_len_lt [OF wf] by simp
  obtain b' h' where "try_slice b s (s + n) h = (Ok b', h')" "heap_wf srcs h'" "buffer_wf srcs b'"
    "view srcs b' = take (s + n - s) (drop s (view srcs b))" "\<not> is_remote b'"
    using try_slice_step [OF wf heap le_add1 assms(3)] by blast
  then show ?thesis using as_bytes_view \<open>s + n < U64\<close> by (simp add: buffer_read_range_def)
qed

lemma each_read_range_step:
  assumes wf: "buffer_wf srcs b" and "heap_wf srcs h" "\<forall>(s, n)\<in>set rs. s + n \<le> buffer_len b"
  shows "\<exists>h'. each_call (\<lambda>(s, n). buffer_read_range b s n) rs h =
    (Ok (map (\<lambda>(s, n). take n (drop s (view srcs b))) rs), h') \<and> heap_wf srcs h'"
  using assms(2,3)
proof (induction rs arbitrary: h)
  case (Cons r rs)
  obtain s n where r: "r = (s, n)" by force
  obtain h1 where h1: "buffer_read_range b s n h = (Ok (take n (drop s (view srcs b))), h1)"
    "heap_wf srcs h1"
    using buffer_read_range_step [OF wf Cons.prems(1), of s n] Cons.prems(2) r by auto
  moreover obtain h2 where "each_call (\<lambda>(s, n). buffer_read_range b s n) rs h1 =
      (Ok (map (\<lambda>(s, n). take n (drop s (view srcs b))) rs), h2)" "heap_wf srcs h2"
    using Cons.IH [OF h1(2)] Cons.prems(2) by auto
  ultimately show ?case by (simp add: r)
qed simp

lemma abs_range_eq:
  assumes wf: "buffer_wf srcs b"
  shows "abs_range b (s, n) =
    (if s + n \<le> buffer_len b then Ok (range_start b + s, n) else Err Decode)"
proof -
  have "range_start b + s < U64" if "s + n \<le> buffer_len b"
    using wf that by (auto simp: buffer_wf_def buffer_len_def split: if_splits)
  then show ?thesis using buffer_len_lt [OF wf] by (auto simp: abs_range_def)
qed

lemma buffer_read_ranges_step:
  assumes wf: "buffer_wf srcs b" and heap: "heap_wf srcs h"
    and range: "\<forall>(s, n)\<in>set rs. s + n \<le> buffer_len b"
  shows "\<exists>h'. buffer_read_ranges b rs h =
    (Ok (map (\<lambda>(s, n). take n (drop s (view srcs b))) rs), h') \<and> heap_wf srcs h'"
proof (cases "backing b")
  case (Remote i)
  have i: "i < length srcs" and src: "backing_source srcs (backing b) = srcs ! i"
    using wf Remote by (auto simp: buffer_wf_def backing_source_def)
  let ?abs = "map (\<lambda>(s, n). (range_start b + s, n)) rs"
  have abs: "try_map (abs_range b) rs = Ok ?abs"
    by (rule try_map_all_Ok) (use range in \<open>auto simp: abs_range_eq [OF wf]\<close>)
  have bound: "\<forall>(s, n)\<in>set ?abs. s + n \<le> length (srcs ! i)"
    using range wf src by (fastforce simp: buffer_wf_def buffer_len_def split: if_splits)
  have "\<exists>h'. on_fetcher i (read_ranges ?abs) h =
      (Ok (map (\<lambda>(s, n). take n (drop s (srcs ! i))) ?abs), h') \<and> heap_wf srcs h'"
    by (rule on_fetcher_ready [OF heap i]) (rule read_ranges_ready [OF _ bound])
  moreover have "map (\<lambda>(s, n). take n (drop s (srcs ! i))) ?abs =
      map (\<lambda>(s, n). take n (drop s (view srcs b))) rs"
    using range view_window [OF wf] src by (auto simp: add.commute)
  ultimately show ?thesis using Remote abs by (auto simp: buffer_read_ranges_def)
qed (use each_read_range_step [OF wf heap range] in \<open>auto simp: buffer_read_ranges_def\<close>)

lemma buffer_read_range_out_of_bounds:
  assumes "buffer_wf srcs b" "\<not> s + n \<le> buffer_len b" "s < U64" "n < U64"
  shows "buffer_read_range b s n h = (Err Decode, h)"
proof -
  have "\<not> (s \<le> add64 s n \<and> add64 s n \<le> buffer_len b)"
  proof (cases "s + n < U64")
    case False
    then have "(s + n) mod U64 = s + n - U64" using assms(3,4) by (simp add: mod_if)
    then show ?thesis using assms(3,4) False by (simp add: add64_def)
  qed (use assms(2) in simp)
  then show ?thesis by (simp add: buffer_read_range_def try_slice_out_of_bounds)
qed

lemma buffer_read_ranges_out_of_bounds:
  assumes wf: "buffer_wf srcs b" and heap: "heap_wf srcs h"
    and u64: "\<forall>(s, n)\<in>set rs. s < U64 \<and> n < U64"
    and out: "\<exists>(s, n)\<in>set rs. \<not> s + n \<le> buffer_len b"
  shows "buffer_read_ranges b rs h = (Err Decode, h)"
proof (cases "is_remote b")
  case True
  have "\<exists>(s, n)\<in>set qs. \<not> s + n \<le> buffer_len b \<Longrightarrow> try_map (abs_range b) qs = Err Decode" for qs
  proof (induction qs)
    case (Cons q qs)
    then show ?case
      by (cases "\<exists>(s, n)\<in>set qs. \<not> s + n \<le> buffer_len b"; cases q)
        (use Cons in \<open>auto simp: abs_range_eq [OF wf] simp del: bex_simps\<close>)
  qed simp
  then show ?thesis using True out
    by (auto simp: buffer_read_ranges_def is_remote_def split: backing_store.splits)
next
  case False
  have ok: "buffer_read_range b s n h = (Ok (take n (drop s (view srcs b))), h)"
    if "s + n \<le> buffer_len b" for s n
    using that False buffer_len_lt [OF wf] as_bytes_view slice_unchecked_view [OF wf, of s "s + n"]
    by (auto simp: buffer_read_range_def try_slice_def is_remote_def split: backing_store.splits)
  have "each_call (\<lambda>(s, n). buffer_read_range b s n) qs h = (Err Decode, h)"
    if "\<exists>(s, n)\<in>set qs. \<not> s + n \<le> buffer_len b" "set qs \<subseteq> set rs" for qs
    using that
  proof (induction qs)
    case (Cons q qs)
    obtain s n where q: "q = (s, n)" by force
    show ?case
    proof (cases "s + n \<le> buffer_len b")
      case True
      then have "each_call (\<lambda>(s, n). buffer_read_range b s n) qs h = (Err Decode, h)"
        using Cons q by auto
      then show ?thesis using ok [OF True] q by simp
    next
      case False
      then have "buffer_read_range b s n h = (Err Decode, h)"
        using buffer_read_range_out_of_bounds [OF wf] u64 Cons.prems(2) q by auto
      then show ?thesis using q by simp
    qed
  qed simp
  from this [OF out] show ?thesis using False
    by (auto simp: buffer_read_ranges_def is_remote_def split: backing_store.splits)
qed

section \<open>Properties\<close>

text \<open>C7: slicing is transparent to the backing: on a memory map, a heap vector or a remote
  source alike, \<open>try_slice\<close> yields a buffer that denotes exactly the requested sub-range and
  that can be viewed; any other range is the decode error and touches nothing.\<close>

theorem try_slice_transparent:
  assumes "buffer_wf srcs b" "heap_wf srcs h"
  shows "(s \<le> e \<and> e \<le> buffer_len b \<longrightarrow>
      (\<exists>b' h'. try_slice b s e h = (Ok b', h') \<and> heap_wf srcs h' \<and> buffer_wf srcs b' \<and>
        view srcs b' = take (e - s) (drop s (view srcs b)) \<and> as_bytes b' = Ok (view srcs b'))) \<and>
    (\<not> (s \<le> e \<and> e \<le> buffer_len b) \<longrightarrow> try_slice b s e h = (Err Decode, h))"
  using try_slice_step [OF assms] as_bytes_view try_slice_out_of_bounds by blast

lemma memory_heap_wf:
  assumes "length src < U64"
  shows "heap_wf [src] \<lparr>fetchers = [with_policy (memory_reader src) (header_plan pol)]\<rparr>"
  using memory_fetcher_inv [OF assms]
  by (simp add: heap_wf_def fetcher_ready_def memory_reader_reliable header.prefetch_policy_axioms)

lemma try_slice_transparent_witness:
  "\<exists>b' h'. try_slice (window (Remote 0) 1 4) 1 3
      \<lparr>fetchers = [with_policy (memory_reader [10, 20, 30, 40, 50]) (header_plan (header_policy_new 2))]\<rparr>
    = (Ok b', h') \<and> as_bytes b' = Ok [30, 40]"
proof -
  let ?src = "[10, 20, 30, 40, 50] :: byte list"
  let ?h = "\<lparr>fetchers = [with_policy (memory_reader ?src) (header_plan (header_policy_new 2))]\<rparr>"
  let ?b = "window (Remote 0) 1 4"
  have "buffer_wf [?src] ?b" by (simp add: buffer_wf_def backing_source_def U64_def)
  moreover have "heap_wf [?src] ?h" by (rule memory_heap_wf) (simp add: U64_def)
  moreover have "view [?src] ?b = [20, 30, 40]" "buffer_len ?b = 3"
    by (simp_all add: view_def buffer_len_def backing_source_def)
  ultimately show ?thesis using try_slice_transparent [of "[?src]" ?b ?h 1 3] by auto
qed

text \<open>A batched read of a buffer returns, for every backing, exactly the sub-ranges of the
  bytes it denotes, in input order; if any range is outside the buffer the batch is the
  decode error, also where the end of the range overflows, and nothing is fetched.\<close>

theorem buffer_read_ranges_transparent:
  assumes "buffer_wf srcs b" "heap_wf srcs h" "\<forall>(s, n)\<in>set rs. s < U64 \<and> n < U64"
  shows "if \<forall>(s, n)\<in>set rs. s + n \<le> buffer_len b
    then \<exists>h'. buffer_read_ranges b rs h =
        (Ok (map (\<lambda>(s, n). take n (drop s (view srcs b))) rs), h') \<and> heap_wf srcs h'
    else buffer_read_ranges b rs h = (Err Decode, h)"
proof (cases "\<forall>(s, n)\<in>set rs. s + n \<le> buffer_len b")
  case True
  then show ?thesis using buffer_read_ranges_step [OF assms(1,2)] by simp
next
  case False
  then have "\<exists>(s, n)\<in>set rs. \<not> s + n \<le> buffer_len b" by auto
  then show ?thesis using False buffer_read_ranges_out_of_bounds [OF assms] by (simp only: if_False)
qed

lemma buffer_read_ranges_transparent_witness:
  "\<exists>h'. buffer_read_ranges (window (Remote 0) 1 4) [(2, 1), (0, 2)]
      \<lparr>fetchers = [with_policy (memory_reader [10, 20, 30, 40, 50]) (header_plan (header_policy_new 2))]\<rparr>
    = (Ok [[40], [20, 30]], h')"
proof -
  let ?src = "[10, 20, 30, 40, 50] :: byte list"
  let ?h = "\<lparr>fetchers = [with_policy (memory_reader ?src) (header_plan (header_policy_new 2))]\<rparr>"
  let ?b = "window (Remote 0) 1 4"
  have "buffer_wf [?src] ?b" by (simp add: buffer_wf_def backing_source_def U64_def)
  moreover have "heap_wf [?src] ?h" by (rule memory_heap_wf) (simp add: U64_def)
  moreover have "view [?src] ?b = [20, 30, 40]" "buffer_len ?b = 3"
    by (simp_all add: view_def buffer_len_def backing_source_def)
  ultimately show ?thesis
    using buffer_read_ranges_transparent [of "[?src]" ?b ?h "[(2, 1), (0, 2)]"] by (auto simp: U64_def)
qed

end
