(* ===== verification/Int_Codec.thy ===== *)
theory Int_Codec
  imports Prelude
begin

text \<open>
  Integer fields of any width from one to eight bytes: the encoder of
  \<open>src/src/parser/writer/integer.rs\<close> and the decoder of
  \<open>src/src/parser/accessor/read.rs\<close>.  \<open>u64\<close> and \<open>i64\<close> values are 64-bit words, read by
  \<open>unat\<close> and \<open>sint\<close>, with the shifts and masks of the code.  The lemmas show the two
  directions are inverse, at every width and byte order.
\<close>

unbundle bit_operations_syntax

section \<open>Definitions\<close>

datatype endian = Big | Little

datatype access_error =
    UnknownField string
  | UnexpectedEof string nat nat
  | ConditionalNotPresent string string
  | EncodingError string string
  | ExpressionFailed string
  | NonContiguous string

datatype write_error =
    OutOfOrder string string
  | ValueTooLarge string nat nat
  | MissingRequired string
  | ValidationError string string
  | ConversionFailed string

definition u64_be_bytes :: "64 word \<Rightarrow> byte list" where
  "u64_be_bytes w = be_bytes 8 (unat w)"

definition u64_le_bytes :: "64 word \<Rightarrow> byte list" where
  "u64_le_bytes w = le_bytes 8 (unat w)"

definition serialize_low_bytes :: "64 word \<Rightarrow> nat \<Rightarrow> endian \<Rightarrow> (byte list, 'e) outcome" where
  "serialize_low_bytes bits n e =
    (case e of
      Big \<Rightarrow> slice (sub64 8 n) 8 (u64_be_bytes bits)
    | Little \<Rightarrow> slice 0 n (u64_le_bytes bits))"

definition unsigned_max :: "nat \<Rightarrow> 64 word option" where
  "unsigned_max width =
    (if 1 \<le> width \<and> width \<le> 7 then Some (push_bit (8 * width) 1 - 1)
     else if width = 8 then Some (- 1) else None)"

definition signed_range :: "nat \<Rightarrow> (64 word \<times> 64 word) option" where
  "signed_range width =
    (if 1 \<le> width \<and> width \<le> 7 then
       (let bits = 8 * width;
            hi = push_bit (bits - 1) 1 - 1;
            lo = - push_bit (bits - 1) 1
        in Some (lo, hi))
     else if width = 8 then Some (push_bit 63 1, push_bit 63 1 - 1) else None)"

definition encode_unsigned :: "64 word \<Rightarrow> nat \<Rightarrow> endian \<Rightarrow> string \<Rightarrow> (byte list, write_error) outcome" where
  "encode_unsigned n width e path =
    (case unsigned_max width of
      None \<Rightarrow> Err (ValidationError path (''Unsupported integer size: '' @ show_nat width))
    | Some hi \<Rightarrow>
        if n > hi then Err (ValueTooLarge path width 8)
        else serialize_low_bytes n width e)"

definition encode_signed :: "64 word \<Rightarrow> nat \<Rightarrow> endian \<Rightarrow> string \<Rightarrow> (byte list, write_error) outcome" where
  "encode_signed n width e path =
    (case signed_range width of
      None \<Rightarrow> Err (ValidationError path (''Unsupported integer size: '' @ show_nat width))
    | Some (lo, hi) \<Rightarrow>
        if n <s lo \<or> hi <s n then Err (ValueTooLarge path width 8)
        else serialize_low_bytes n width e)"

text \<open>\<open>value = (value << 8) | b\<close>\<close>

definition fold_byte :: "64 word \<Rightarrow> byte \<Rightarrow> 64 word" where
  "fold_byte v b = push_bit 8 v OR ucast b"

definition read_uint_bytes :: "byte list \<Rightarrow> nat \<Rightarrow> endian \<Rightarrow> (64 word, access_error) outcome" where
  "read_uint_bytes bs n e =
    (if n = 0 \<or> n > 8 then Err (UnknownField (''unsupported integer size: '' @ show_nat n))
     else if length bs < n then Err (UnexpectedEof ''integer'' n (length bs))
     else and_then (slice 0 n bs) (\<lambda>xs.
       Ok (foldl fold_byte 0 (case e of Big \<Rightarrow> xs | Little \<Rightarrow> rev xs))))"

definition read_unsigned :: "byte list \<Rightarrow> nat \<Rightarrow> endian \<Rightarrow> (64 word, access_error) outcome" where
  "read_unsigned bs width e = read_uint_bytes bs width e"

definition read_signed :: "byte list \<Rightarrow> nat \<Rightarrow> endian \<Rightarrow> (64 word, access_error) outcome" where
  "read_signed bs width e =
    and_then (read_uint_bytes bs width e) (\<lambda>raw.
      let bits = width * 8
      in if bits = 64 then Ok raw
         else
           (let sign_bit = push_bit (bits - 1) 1;
                extended = (if raw AND sign_bit \<noteq> 0 then raw OR push_bit bits (NOT 0) else raw)
            in Ok extended))"

section \<open>Decoding reads the big-endian value\<close>

lemma unat_fold_byte:
  assumes "unat v < 2 ^ 56"
  shows "unat (fold_byte v b) = unat v * 256 + unat b"
proof -
  have "push_bit 8 v OR ucast b = push_bit 8 v + (ucast b :: 64 word)"
    by (rule disjunctive_add [symmetric]) (auto simp: bit_simps dest: bit_imp_le_length)
  moreover have "unat (push_bit 8 v) = unat v * 256"
    using assms by (simp add: push_bit_eq_mult unat_word_ariths(2))
  moreover have "unat (ucast b :: 64 word) = unat b"
    unfolding unsigned_ucast_eq by (rule take_bit_nat_eq_self, rule less_trans [OF unat_byte_lt]) simp
  ultimately have "unat (fold_byte v b) = (unat v * 256 + unat b) mod 2 ^ 64"
    by (simp add: fold_byte_def unat_word_ariths(1))
  moreover have "x < 2 ^ 56 \<Longrightarrow> y < 256 \<Longrightarrow> x * 256 + y < 2 ^ 64" for x y :: nat by simp
  then have "unat v * 256 + unat b < 2 ^ 64" using assms unat_byte_lt by blast
  ultimately show ?thesis by simp
qed

lemma unat_fold_bytes:
  "length bs \<le> 8 \<Longrightarrow> unat (foldl fold_byte 0 bs) = be_val bs"
proof (induction bs rule: rev_induct)
  case (snoc b bs)
  have "be_val bs < 256 ^ length bs" by (rule be_val_lt)
  also have "(256 :: nat) ^ length bs \<le> 256 ^ 7" using snoc.prems by (intro power_increasing) auto
  finally have "unat (foldl fold_byte 0 bs) < 2 ^ 56" using snoc by simp
  then show ?case using snoc by (simp add: unat_fold_byte)
qed simp

definition bytes_val :: "endian \<Rightarrow> byte list \<Rightarrow> nat" where
  "bytes_val e bs = (case e of Big \<Rightarrow> be_val bs | Little \<Rightarrow> le_val bs)"

lemma read_uint_bytes_ok:
  assumes "1 \<le> n" "n \<le> 8" "n \<le> length bs"
  shows "read_uint_bytes bs n e = Ok (of_nat (bytes_val e (take n bs)))"
proof -
  have "unat (foldl fold_byte 0 (take n bs)) = be_val (take n bs)"
    "unat (foldl fold_byte 0 (rev (take n bs))) = le_val (take n bs)"
    using assms by (simp_all add: unat_fold_bytes le_val_def)
  then have "foldl fold_byte 0 (take n bs) = of_nat (be_val (take n bs))"
    "foldl fold_byte 0 (rev (take n bs)) = of_nat (le_val (take n bs))"
    by (metis of_nat_unat ucast_id)+
  then show ?thesis using assms
    by (cases e) (auto simp: read_uint_bytes_def bytes_val_def)
qed

section \<open>Encoding writes the low bytes\<close>

lemma be_bytes_drop: "k \<le> n \<Longrightarrow> drop (n - k) (be_bytes n v) = be_bytes k v"
proof (induction n arbitrary: k v)
  case (Suc n)
  show ?case
  proof (cases k)
    case (Suc j)
    then show ?thesis using Suc.IH [of j "v div 256"] Suc.prems by simp
  qed simp
qed simp

lemma be_bytes_mod: "be_bytes n (v mod 256 ^ n) = be_bytes n v"
  by (metis be_bytes_be_val be_val_be_bytes length_be_bytes)

definition low_bytes :: "endian \<Rightarrow> nat \<Rightarrow> nat \<Rightarrow> byte list" where
  "low_bytes e n v = (case e of Big \<Rightarrow> be_bytes n v | Little \<Rightarrow> le_bytes n v)"

lemma serialize_low_bytes_ok:
  "n \<le> 8 \<Longrightarrow> serialize_low_bytes w n e = Ok (low_bytes e n (unat w))"
  by (auto simp: serialize_low_bytes_def u64_be_bytes_def u64_le_bytes_def low_bytes_def
      le_bytes_def be_bytes_drop take_rev U64_def split: endian.splits)

lemma length_low_bytes [simp]: "length (low_bytes e n v) = n"
  by (simp add: low_bytes_def split: endian.splits)

lemma bytes_val_low_bytes: "bytes_val e (low_bytes e n v) = v mod 256 ^ n"
  by (simp add: bytes_val_def low_bytes_def le_val_def le_bytes_def be_val_be_bytes split: endian.splits)

lemma low_bytes_bytes_val: "length bs = n \<Longrightarrow> low_bytes e n (bytes_val e bs) = bs"
  by (auto simp: bytes_val_def low_bytes_def split: endian.splits)

lemma bytes_val_lt: "bytes_val e bs < 256 ^ length bs"
  by (auto simp: bytes_val_def be_val_lt le_val_lt split: endian.splits)

section \<open>Sign extension\<close>

lemma unsigned_max_unat:
  assumes "1 \<le> n" "n \<le> 8"
  shows "\<exists>hi. unsigned_max n = Some hi \<and> unat hi = 256 ^ n - 1"
proof -
  have "n \<in> {1, 2, 3, 4, 5, 6, 7, 8}" using assms by auto
  then show ?thesis by (auto simp: unsigned_max_def unsigned_minus_1_eq_mask mask_eq_exp_minus_1)
qed

lemma signed_range_sint:
  assumes "1 \<le> n" "n \<le> 8"
  shows "\<exists>lo hi. signed_range n = Some (lo, hi) \<and> sint lo = - (2 ^ (8 * n - 1)) \<and> sint hi = 2 ^ (8 * n - 1) - 1"
proof -
  have "n \<in> {1, 2, 3, 4, 5, 6, 7, 8}" using assms by auto
  then show ?thesis by (auto simp: signed_range_def Let_def)
qed

lemma and_bit_eq_0: "(w :: 64 word) AND push_bit k 1 = 0 \<longleftrightarrow> \<not> (k < 64 \<and> bit w k)"
proof
  assume *: "w AND push_bit k 1 = 0"
  show "\<not> (k < 64 \<and> bit w k)"
  proof
    assume "k < 64 \<and> bit w k"
    then have "bit (w AND push_bit k 1) k" by (simp add: bit_simps)
    then show False unfolding * by simp
  qed
next
  assume "\<not> (k < 64 \<and> bit w k)"
  then show "w AND push_bit k 1 = 0" by (intro bit_eqI) (auto simp: bit_simps)
qed

definition sign_extend :: "nat \<Rightarrow> 64 word \<Rightarrow> 64 word" where
  "sign_extend bits raw =
    (if raw AND push_bit (bits - 1) 1 \<noteq> 0 then raw OR push_bit bits (NOT 0) else raw)"

lemma sign_extend_take_bit:
  assumes "0 < b" "b < 64"
  shows "sign_extend b (take_bit b w) = signed_take_bit (b - 1) w"
proof (rule bit_word_eqI)
  fix i assume "i < LENGTH(64)"
  have sb: "take_bit b w AND push_bit (b - 1) 1 = 0 \<longleftrightarrow> \<not> bit w (b - 1)"
    unfolding and_bit_eq_0 using assms by (auto simp: bit_take_bit_iff)
  show "bit (sign_extend b (take_bit b w)) i \<longleftrightarrow> bit (signed_take_bit (b - 1) w) i"
    using assms sb \<open>i < LENGTH(64)\<close>
    by (cases "i < b - 1"; cases "i = b - 1") (auto simp: sign_extend_def bit_simps min_def)
qed

lemma signed_take_bit_in_range:
  fixes w :: "64 word"
  assumes "b < 64" "- (2 ^ b) \<le> sint w" "sint w < 2 ^ b"
  shows "signed_take_bit b w = w"
proof (rule bit_word_eqI)
  fix i assume i: "i < LENGTH(64)"
  have eq: "signed_take_bit b (sint w) = sint w"
    by (rule signed_take_bit_int_eq_self) (use assms in auto)
  have bits: "bit (sint w) j \<longleftrightarrow> bit w j" if "j < 64" for j
    using that by (simp add: bit_sint_iff)
  have "bit (signed_take_bit b w) i \<longleftrightarrow> bit w (min i b)" using i by (simp add: bit_signed_take_bit_iff min.commute)
  also have "\<dots> \<longleftrightarrow> bit (sint w) (min i b)" using assms(1) bits by simp
  also have "\<dots> \<longleftrightarrow> bit (sint w) i" using bit_signed_take_bit_iff [of b "sint w" i] eq by (simp add: min.commute)
  also have "\<dots> \<longleftrightarrow> bit w i" using i bits by simp
  finally show "bit (signed_take_bit b w) i \<longleftrightarrow> bit w i" .
qed

lemma of_nat_mod_take_bit:
  "(of_nat (unat w mod 256 ^ n) :: 64 word) = take_bit (8 * n) w"
proof -
  have "(256 :: nat) ^ n = 2 ^ (8 * n)" by (simp add: power_mult)
  then have "unat w mod 256 ^ n = unat (take_bit (8 * n) w)"
    unfolding unsigned_take_bit_eq by (simp add: take_bit_eq_mod)
  then show ?thesis by (metis of_nat_unat ucast_id)
qed

lemma read_low_bytes:
  assumes "1 \<le> n" "n \<le> 8"
  shows "read_uint_bytes (low_bytes e n (unat w) @ rest) n e = Ok (take_bit (8 * n) w)"
  using read_uint_bytes_ok [OF assms, of "low_bytes e n (unat w) @ rest" e]
  by (simp add: bytes_val_low_bytes of_nat_mod_take_bit)

lemma read_signed_eq:
  "read_signed bs n e = map_ok (\<lambda>raw. if n * 8 = 64 then raw else sign_extend (n * 8) raw) (read_uint_bytes bs n e)"
  by (cases "read_uint_bytes bs n e") (auto simp: read_signed_def sign_extend_def Let_def)

section \<open>Encodings\<close>

lemma encode_unsigned_eq:
  assumes "1 \<le> width" "width \<le> 8"
  shows "encode_unsigned v width e path =
    (if unat v < 256 ^ width then Ok (low_bytes e width (unat v)) else Err (ValueTooLarge path width 8))"
proof -
  obtain hi where hi: "unsigned_max width = Some hi" "unat hi = 256 ^ width - 1"
    using unsigned_max_unat assms by blast
  have "x - 1 < y \<longleftrightarrow> \<not> y < x" if "0 < x" for x y :: nat using that by linarith
  from this [of "256 ^ width"] have "v > hi \<longleftrightarrow> \<not> unat v < 256 ^ width"
    using hi(2) by (simp add: word_less_nat_alt)
  then show ?thesis using hi(1) assms by (auto simp: encode_unsigned_def serialize_low_bytes_ok)
qed

lemma encode_unsigned_width:
  "encode_unsigned v width e path = Ok bs \<Longrightarrow> 1 \<le> width \<and> width \<le> 8"
  by (auto simp: encode_unsigned_def unsigned_max_def split: if_splits option.splits)

lemma read_unsigned_low:
  assumes "1 \<le> width" "width \<le> 8" "unat v < 256 ^ width"
  shows "read_unsigned (low_bytes e width (unat v) @ rest) width e = Ok v"
proof -
  have "(256 :: nat) ^ width = 2 ^ (8 * width)" by (simp add: power_mult)
  then have "take_bit (8 * width) v = v" using assms(3) by (metis mod_less of_nat_mod_take_bit of_nat_unat ucast_id)
  then show ?thesis using assms by (simp add: read_unsigned_def read_low_bytes)
qed

abbreviation signed_fits :: "nat \<Rightarrow> 64 word \<Rightarrow> bool" where
  "signed_fits width v \<equiv> - (2 ^ (8 * width - 1)) \<le> sint v \<and> sint v < 2 ^ (8 * width - 1)"

lemma encode_signed_eq:
  assumes "1 \<le> width" "width \<le> 8"
  shows "encode_signed v width e path =
    (if signed_fits width v then Ok (low_bytes e width (unat v)) else Err (ValueTooLarge path width 8))"
proof -
  obtain lo hi where r: "signed_range width = Some (lo, hi)" "sint lo = - (2 ^ (8 * width - 1))"
    "sint hi = 2 ^ (8 * width - 1) - 1"
    using signed_range_sint [OF assms] by blast
  then show ?thesis using assms by (auto simp: encode_signed_def word_sless_alt serialize_low_bytes_ok)
qed

lemma encode_signed_width:
  "encode_signed v width e path = Ok bs \<Longrightarrow> 1 \<le> width \<and> width \<le> 8"
  by (auto simp: encode_signed_def signed_range_def Let_def split: if_splits option.splits)

lemma read_signed_low:
  assumes "1 \<le> width" "width \<le> 8" "signed_fits width v"
  shows "read_signed (low_bytes e width (unat v) @ rest) width e = Ok v"
proof -
  have "(if width * 8 = 64 then take_bit (8 * width) v else sign_extend (width * 8) (take_bit (8 * width) v)) = v"
  proof (cases "width = 8")
    case False
    then have "sign_extend (8 * width) (take_bit (8 * width) v) = v"
      using sign_extend_take_bit [of "8 * width" v] signed_take_bit_in_range [of "8 * width - 1" v] assms by simp
    then show ?thesis using False by (simp add: mult.commute)
  next
    case True
    then show ?thesis by (simp add: take_bit_word_eq_self)
  qed
  then show ?thesis using read_low_bytes [OF assms(1,2), of e v rest] by (simp add: read_signed_eq)
qed

section \<open>Properties\<close>

text \<open>C8: an unsigned integer is written exactly when it fits the width, and reading the
  written bytes (with anything after them) gives it back, at every width and byte order.\<close>

theorem unsigned_roundtrip:
  "(1 \<le> width \<and> width \<le> 8 \<and> unat v < 256 ^ width \<longrightarrow>
      (\<exists>bs. encode_unsigned v width e path = Ok bs \<and> length bs = width \<and>
        read_unsigned (bs @ rest) width e = Ok v)) \<and>
   (1 \<le> width \<and> width \<le> 8 \<and> \<not> unat v < 256 ^ width \<longrightarrow>
      encode_unsigned v width e path = Err (ValueTooLarge path width 8)) \<and>
   (\<not> (1 \<le> width \<and> width \<le> 8) \<longrightarrow>
      (\<exists>msg. encode_unsigned v width e path = Err (ValidationError path msg)) \<and>
      (\<exists>msg. read_unsigned (bs @ rest) width e = Err (UnknownField msg)))"
proof (cases "1 \<le> width \<and> width \<le> 8")
  case True
  then show ?thesis using encode_unsigned_eq [of width v e path] read_unsigned_low [of width v e rest] by auto
next
  case False
  then show ?thesis
    by (auto simp: encode_unsigned_def unsigned_max_def read_unsigned_def read_uint_bytes_def)
qed

lemma unsigned_roundtrip_witness:
  "\<exists>bs. encode_unsigned 0xABCDEF 3 Little ''f'' = Ok bs \<and> read_unsigned (bs @ [7]) 3 Little = Ok 0xABCDEF"
  using unsigned_roundtrip [of 3 "0xABCDEF" Little "''f''" "[7]"] by auto

text \<open>C9: a signed integer is written exactly when it lies in the two's complement range of
  the width, and reading the written bytes sign-extends to the same value.\<close>

theorem signed_roundtrip:
  assumes "1 \<le> width" "width \<le> 8"
  shows "if - (2 ^ (8 * width - 1)) \<le> sint v \<and> sint v < 2 ^ (8 * width - 1)
    then \<exists>bs. encode_signed v width e path = Ok bs \<and> length bs = width \<and>
        read_signed (bs @ rest) width e = Ok v
    else encode_signed v width e path = Err (ValueTooLarge path width 8)"
  using encode_signed_eq [OF assms, of v e path] read_signed_low [OF assms, of v e rest] by simp

lemma signed_roundtrip_witness:
  "\<exists>bs. encode_signed (- 2) 3 Big ''f'' = Ok bs \<and> read_signed (bs @ [7]) 3 Big = Ok (- 2)"
  using signed_roundtrip [of 3 "- 2" Big "''f''" "[7]"] by auto

end
