(* ===== verification/Expr_Syntax.thy ===== *)
theory Expr_Syntax
  imports Prelude
begin

text \<open>
  Syntax and lexer of the field expressions: \<open>src/src/parser/expression/mod.rs\<close> and
  \<open>lexer.rs\<close>.  An \<open>i64\<close> is a 64-bit word read by \<open>sint\<close>; \<open>f64\<close> is the type parameter
  \<open>'f\<close>, whose operations are the fields of \<open>std_ops\<close>; a string is a list of characters
  U+0000 to U+00FF.  The lexer state is the list of characters that remain.  The text
  of syntax and type error messages is omitted; errors keep their structured fields.
\<close>

section \<open>Abstract syntax\<close>

datatype expr_error =
    SyntaxError
  | UnknownFieldRef string
  | TypeError string
  | UnknownKey string string
  | IndexOutOfRange string int nat
  | DivisionByZero

datatype 'f literal = LInteger "64 word" | LFloat 'f | LString string | LBoolean bool

datatype binary_operator =
    OpAdd | OpSub | OpMul | OpDiv | OpMod
  | OpEq | OpNe | OpLt | OpGt | OpLe | OpGe
  | OpAnd | OpOr
  | OpBitwiseAnd | OpBitwiseOr | OpBitwiseXor | OpShiftLeft | OpShiftRight

datatype unary_operator = OpNot | OpNeg | OpBitwiseNot

datatype special_variable = SpecialIndex

datatype 'f expression =
    Literal "'f literal"
  | FieldRef string
  | BinaryOp "'f expression" binary_operator "'f expression"
  | UnaryOp unary_operator "'f expression"
  | MethodCall "'f expression" string
  | Index "'f expression" "'f expression"
  | SpecialVar special_variable

datatype 'f token =
    TInteger "64 word" | TFloat 'f | TString string | TBoolean bool
  | TIdent string
  | TPlus | TMinus | TStar | TSlash | TPercent
  | TEqEq | TNotEq | TLt | TGt | TLtEq | TGtEq
  | TAnd | TOr | TNot
  | TAmpersand | TPipe | TCaret | TTilde | TShiftLeft | TShiftRight
  | TDot | TLParen | TRParen | TLBracket | TRBracket
  | TEof

text \<open>The \<open>f64\<close> operations and the lossy UTF-8 conversion the engine calls.\<close>

record 'f std_ops =
  f_parse :: "string \<Rightarrow> 'f option"
  f_show :: "'f \<Rightarrow> string"
  f_of_i64 :: "64 word \<Rightarrow> 'f"
  f_to_i64 :: "'f \<Rightarrow> 64 word"
  f_add :: "'f \<Rightarrow> 'f \<Rightarrow> 'f"
  f_sub :: "'f \<Rightarrow> 'f \<Rightarrow> 'f"
  f_mul :: "'f \<Rightarrow> 'f \<Rightarrow> 'f"
  f_div :: "'f \<Rightarrow> 'f \<Rightarrow> 'f"
  f_neg :: "'f \<Rightarrow> 'f"
  f_abs :: "'f \<Rightarrow> 'f"
  f_is_zero :: "'f \<Rightarrow> bool"
  f_lt :: "'f \<Rightarrow> 'f \<Rightarrow> bool"
  f_le :: "'f \<Rightarrow> 'f \<Rightarrow> bool"
  f_epsilon :: 'f
  utf8_lossy :: "byte list \<Rightarrow> string"

section \<open>Character classes\<close>

definition code :: "char \<Rightarrow> nat" where
  "code c = of_char c"

definition is_whitespace :: "char \<Rightarrow> bool" where
  "is_whitespace c \<longleftrightarrow> 9 \<le> code c \<and> code c \<le> 13 \<or> code c = 32 \<or> code c = 0x85 \<or> code c = 0xA0"

definition is_ascii_digit :: "char \<Rightarrow> bool" where
  "is_ascii_digit c \<longleftrightarrow> 48 \<le> code c \<and> code c \<le> 57"

definition hex_digit :: "char \<Rightarrow> nat option" where
  "hex_digit c =
    (if 48 \<le> code c \<and> code c \<le> 57 then Some (code c - 48)
     else if 65 \<le> code c \<and> code c \<le> 70 then Some (code c - 55)
     else if 97 \<le> code c \<and> code c \<le> 102 then Some (code c - 87)
     else None)"

definition is_ascii_hexdigit :: "char \<Rightarrow> bool" where
  "is_ascii_hexdigit c \<longleftrightarrow> hex_digit c \<noteq> None"

definition is_alphabetic :: "char \<Rightarrow> bool" where
  "is_alphabetic c \<longleftrightarrow> 65 \<le> code c \<and> code c \<le> 90 \<or> 97 \<le> code c \<and> code c \<le> 122 \<or>
    code c = 0xAA \<or> code c = 0xB5 \<or> code c = 0xBA \<or>
    0xC0 \<le> code c \<and> code c \<noteq> 0xD7 \<and> code c \<noteq> 0xF7"

definition is_alphanumeric :: "char \<Rightarrow> bool" where
  "is_alphanumeric c \<longleftrightarrow> is_alphabetic c \<or> is_ascii_digit c \<or>
    code c \<in> {0xB2, 0xB3, 0xB9, 0xBC, 0xBD, 0xBE}"

definition is_ident_char :: "char \<Rightarrow> bool" where
  "is_ident_char c \<longleftrightarrow> is_alphanumeric c \<or> c = CHR ''_''"

section \<open>Lexer\<close>

definition skip_whitespace :: "string \<Rightarrow> string" where
  "skip_whitespace s = dropWhile is_whitespace s"

fun hex_val :: "nat \<Rightarrow> string \<Rightarrow> nat option" where
  "hex_val acc [] = Some acc"
| "hex_val acc (c # cs) = (case hex_digit c of Some d \<Rightarrow> hex_val (acc * 16 + d) cs | None \<Rightarrow> None)"

text \<open>\<open>i64::from_str_radix(_, 16)\<close> and \<open>parse::<i64>\<close> on a run of digits.\<close>

definition i64_of_digits :: "nat option \<Rightarrow> 64 word option" where
  "i64_of_digits v = (case v of Some n \<Rightarrow> if n < 2 ^ 63 then Some (of_nat n) else None | None \<Rightarrow> None)"

text \<open>The digits of a number after its first: a dot belongs to it when a digit follows and
  there was no dot before.\<close>

fun number_tail :: "bool \<Rightarrow> string \<Rightarrow> string \<times> bool \<times> string" where
  "number_tail has_dot [] = ([], has_dot, [])"
| "number_tail has_dot (c # cs) =
    (if is_ascii_digit c then
       (case number_tail has_dot cs of (ds, dot', rest) \<Rightarrow> (c # ds, dot', rest))
     else if c = CHR ''.'' \<and> \<not> has_dot then
       (case cs of
         d # _ \<Rightarrow> if is_ascii_digit d
           then (case number_tail True cs of (ds, dot', rest) \<Rightarrow> (c # ds, dot', rest))
           else ([], has_dot, c # cs)
       | [] \<Rightarrow> ([], has_dot, c # cs))
     else ([], has_dot, c # cs))"

definition read_hex :: "string \<Rightarrow> ('f token \<times> string, expr_error) outcome" where
  "read_hex s =
    (let hex_str = takeWhile is_ascii_hexdigit s; rest = dropWhile is_ascii_hexdigit s
     in if hex_str = [] then Err SyntaxError
        else map_ok (\<lambda>v. (TInteger v, rest)) (ok_or SyntaxError (i64_of_digits (hex_val 0 hex_str))))"

definition read_decimal :: "'f std_ops \<Rightarrow> char \<Rightarrow> string \<Rightarrow> ('f token \<times> string, expr_error) outcome" where
  "read_decimal ops first s =
    (case number_tail False s of (ds, has_dot, rest) \<Rightarrow>
      if has_dot
      then map_ok (\<lambda>v. (TFloat v, rest)) (ok_or SyntaxError (f_parse ops (first # ds)))
      else map_ok (\<lambda>v. (TInteger v, rest)) (ok_or SyntaxError (i64_of_digits (digits_val 0 (first # ds)))))"

definition read_number :: "'f std_ops \<Rightarrow> char \<Rightarrow> string \<Rightarrow> ('f token \<times> string, expr_error) outcome" where
  "read_number ops first s =
    (case s of
      p # cs \<Rightarrow>
        if first = CHR ''0'' \<and> (p = CHR ''x'' \<or> p = CHR ''X'') then read_hex cs
        else read_decimal ops first s
    | [] \<Rightarrow> read_decimal ops first s)"

definition unescape :: "char \<Rightarrow> char" where
  "unescape c =
    (if c = CHR ''n'' then CHR 0x0A else if c = CHR ''t'' then CHR 0x09
     else if c = CHR ''r'' then CHR 0x0D else c)"

fun read_string :: "char \<Rightarrow> string \<Rightarrow> string \<Rightarrow> ('f token \<times> string, expr_error) outcome" where
  "read_string quote acc [] = Err SyntaxError"
| "read_string quote acc (c # cs) =
    (if c = quote then Ok (TString acc, cs)
     else if c = CHR 0x5C then
       (case cs of
         d # ds \<Rightarrow> read_string quote (acc @ [unescape d]) ds
       | [] \<Rightarrow> Err SyntaxError)
     else read_string quote (acc @ [c]) cs)"

definition keyword_or_ident :: "string \<Rightarrow> 'f token" where
  "keyword_or_ident ident =
    (if ident = ''true'' then TBoolean True
     else if ident = ''false'' then TBoolean False
     else if ident = ''and'' then TAnd
     else if ident = ''or'' then TOr
     else if ident = ''not'' then TNot
     else TIdent ident)"

definition read_identifier :: "char \<Rightarrow> string \<Rightarrow> 'f token \<times> string" where
  "read_identifier first s =
    (keyword_or_ident (first # takeWhile is_ident_char s), dropWhile is_ident_char s)"

text \<open>Operators of one or two characters: the token when the next character matches, else the
  fallback (a one-character token or an error).\<close>

fun two_char :: "(char \<times> 'f token) list \<Rightarrow> ('f token, expr_error) outcome \<Rightarrow> string \<Rightarrow>
    ('f token \<times> string, expr_error) outcome" where
  "two_char [] otherwise s = map_ok (\<lambda>t. (t, s)) otherwise"
| "two_char ((c, t) # alts) otherwise s =
    (case s of
      d # ds \<Rightarrow> if d = c then Ok (t, ds) else two_char alts otherwise s
    | [] \<Rightarrow> two_char alts otherwise s)"

definition single_char :: "char \<Rightarrow> 'f token option" where
  "single_char c = map_of
    [(CHR ''+'', TPlus), (CHR ''-'', TMinus), (CHR ''*'', TStar), (CHR ''/'', TSlash),
     (CHR ''%'', TPercent), (CHR ''.'', TDot), (CHR ''('', TLParen), (CHR '')'', TRParen),
     (CHR ''['', TLBracket), (CHR '']'', TRBracket), (CHR ''&'', TAmpersand), (CHR ''|'', TPipe),
     (CHR ''^'', TCaret), (CHR ''~'', TTilde)] c"

definition next_token :: "'f std_ops \<Rightarrow> string \<Rightarrow> ('f token \<times> string, expr_error) outcome" where
  "next_token ops input =
    (case skip_whitespace input of
      [] \<Rightarrow> Ok (TEof, [])
    | c # s \<Rightarrow>
        (case single_char c of
          Some t \<Rightarrow> Ok (t, s)
        | None \<Rightarrow>
            if c = CHR ''='' then two_char [(CHR ''='', TEqEq)] (Err SyntaxError) s
            else if c = CHR ''!'' then two_char [(CHR ''='', TNotEq)] (Ok TNot) s
            else if c = CHR ''<'' then two_char [(CHR ''<'', TShiftLeft), (CHR ''='', TLtEq)] (Ok TLt) s
            else if c = CHR ''>'' then two_char [(CHR ''>'', TShiftRight), (CHR ''='', TGtEq)] (Ok TGt) s
            else if c = CHR 0x22 \<or> c = CHR 0x27 then read_string c [] s
            else if is_ascii_digit c then read_number ops c s
            else if is_alphabetic c \<or> c = CHR ''_'' then Ok (read_identifier c s)
            else Err SyntaxError))"

section \<open>The lexer consumes its input\<close>

lemma length_dropWhile_Suc: "length (dropWhile P s) < Suc (length s)"
  by (simp add: length_dropWhile_le less_Suc_eq_le)

lemma number_tail_length: "length (snd (snd (number_tail dot s))) \<le> length s"
proof (induction dot s rule: number_tail.induct)
  case (2 dot c cs)
  show ?case
    by (subst number_tail.simps)
      (use 2 in \<open>auto simp del: number_tail.simps split: prod.split list.split\<close>)
qed simp

text \<open>\<open>lexed s r\<close>: the lexing step \<open>r\<close> does not panic and leaves no more than \<open>s\<close>.\<close>

definition lexed :: "string \<Rightarrow> ('f token \<times> string, expr_error) outcome \<Rightarrow> bool" where
  "lexed s r \<longleftrightarrow> r \<noteq> Panic \<and> (\<forall>t rest. r = Ok (t, rest) \<longrightarrow> length rest \<le> length s)"

named_theorems lexed_intros

lemma lexed_if [lexed_intros]: "lexed s x \<Longrightarrow> lexed s y \<Longrightarrow> lexed s (if b then x else y)"
  by simp

lemma lexed_Err [lexed_intros]: "lexed s (Err e)"
  by (simp add: lexed_def)

lemma lexed_Ok [lexed_intros]: "length rest \<le> length s \<Longrightarrow> lexed s (Ok (t, rest))"
  by (simp add: lexed_def)

lemma lexed_map_ok [lexed_intros]:
  "length rest \<le> length s \<Longrightarrow> lexed s (map_ok (\<lambda>v. (f v, rest)) (ok_or e x))"
  by (cases x) (auto simp: lexed_def)

lemma lexed_mono: "lexed s r \<Longrightarrow> length s \<le> length s' \<Longrightarrow> lexed s' r"
  by (auto simp: lexed_def intro: le_trans)

lemma lexed_string [lexed_intros]:
  "lexed s (read_string q acc s :: ('f token \<times> string, expr_error) outcome)"
proof (induction q acc s rule: read_string.induct)
  case (2 q acc c cs)
  let ?rs = "\<lambda>a s. read_string q a s :: ('f token \<times> string, expr_error) outcome"
  have plain: "lexed (c # cs) (?rs (acc @ [c]) cs)" if "c \<noteq> q" "c \<noteq> CHR 0x5C"
    by (rule lexed_mono [OF 2(2)]) (use that in auto)
  have esc: "lexed (c # cs) (case cs of d # ds \<Rightarrow> ?rs (acc @ [unescape d]) ds | [] \<Rightarrow> Err SyntaxError)"
    if "c \<noteq> q" "c = CHR 0x5C"
  proof (cases cs)
    case (Cons d ds)
    have "lexed ds (?rs (acc @ [unescape d]) ds)" using 2(1) that Cons by blast
    then show ?thesis using Cons by (auto elim: lexed_mono)
  qed (simp add: lexed_Err)
  show ?case
    by (subst read_string.simps(2)) (use plain esc in \<open>auto simp: lexed_Ok\<close>)
qed (simp add: lexed_def)

lemma lexed_two [lexed_intros]: "lexed s (map_ok (\<lambda>t. (t, s)) oth) \<Longrightarrow> lexed s (two_char alts oth s)"
proof (induction alts)
  case (Cons a alts)
  then show ?case by (cases a; cases s) (auto intro: lexed_if lexed_Ok)
qed simp

lemma lexed_hex [lexed_intros]: "lexed s (read_hex s)"
  unfolding read_hex_def Let_def by (intro lexed_intros length_dropWhile_le)

lemma lexed_decimal [lexed_intros]: "lexed s (read_decimal ops c s)"
  using number_tail_length [of False s]
  by (auto simp: read_decimal_def intro!: lexed_intros split: prod.splits)

lemma lexed_number [lexed_intros]:
  fixes ops :: "'f std_ops"
  shows "lexed s (read_number ops c s)"
proof (cases s)
  case (Cons p cs)
  have "lexed (p # cs) (read_hex cs :: ('f token \<times> string, expr_error) outcome)" using lexed_hex [of cs] by (auto simp: lexed_def intro: le_SucI)
  then show ?thesis using lexed_decimal [of s ops c] Cons by (simp add: read_number_def)
qed (simp add: read_number_def lexed_decimal)

lemma lexed_ident [lexed_intros]: "lexed s (Ok (read_identifier c s))"
  by (simp add: lexed_def read_identifier_def length_dropWhile_le)

lemma lexed_single [lexed_intros]:
  "lexed s r \<Longrightarrow> lexed s (case single_char c of Some t \<Rightarrow> Ok (t, s) | None \<Rightarrow> r)"
  by (simp add: lexed_def split: option.splits)

lemma lexed_ok_char [lexed_intros]: "lexed s (map_ok (\<lambda>t. (t, s)) (Ok u))" "lexed s (map_ok (\<lambda>t. (t, s)) (Err e))"
  by (simp_all add: lexed_def)

lemma next_token_lexed:
  assumes "skip_whitespace s = c # cs"
  shows "lexed cs (next_token ops s)"
  unfolding next_token_def assms list.case by (intro lexed_intros)

lemma next_token_eof: "skip_whitespace s = [] \<Longrightarrow> next_token ops s = Ok (TEof, [])"
  by (simp add: next_token_def)

lemma skip_whitespace_length: "length (skip_whitespace s) \<le> length s"
  by (simp add: skip_whitespace_def length_dropWhile_le)

lemma next_token_shrinks:
  assumes "next_token ops s = Ok (t, rest)"
  shows "rest = [] \<and> t = TEof \<or> length rest < length s"
proof (cases "skip_whitespace s")
  case (Cons c cs)
  then have "length rest \<le> length cs"
    using next_token_lexed [OF Cons, of ops] assms by (simp add: lexed_def)
  moreover have "length (c # cs) \<le> length s" unfolding Cons [symmetric] by (rule skip_whitespace_length)
  ultimately show ?thesis by simp
qed (use assms in \<open>simp add: next_token_eof\<close>)

lemma next_token_total: "next_token ops s \<noteq> Panic"
  using next_token_lexed [of s] next_token_eof [of s ops]
  by (cases "skip_whitespace s") (auto simp: lexed_def)

end
