(* ===== verification/Expr_Parser.thy ===== *)
theory Expr_Parser
  imports Expr_Syntax
begin

text \<open>
  The recursive-descent parser of \<open>src/src/parser/expression/parser.rs\<close> and the entry
  point \<open>ExpressionEvaluator::parse\<close>.  The parser state is the current token and the
  characters after it.  Each precedence level is a function over the next tighter level;
  the recursion through parentheses and subscripts, the operator loops and the unary
  chain carry fuel, and running out of it is \<open>Panic\<close>.  \<open>parse_total\<close> shows that the fuel
  given by \<open>parse\<close> is always enough: every loop consumes a token.
\<close>

section \<open>Definitions\<close>

type_synonym 'f pstate = "'f token \<times> string"

type_synonym 'f parsed = "('f expression \<times> 'f pstate, expr_error) outcome"

definition METHODS :: "string list" where
  "METHODS = [''to_i'', ''to_s'', ''length'', ''strip'']"

definition parser_new :: "'f std_ops \<Rightarrow> string \<Rightarrow> ('f pstate, expr_error) outcome" where
  "parser_new ops input = next_token ops input"

definition advance :: "'f std_ops \<Rightarrow> 'f pstate \<Rightarrow> ('f pstate, expr_error) outcome" where
  "advance ops st = next_token ops (snd st)"

definition expect :: "'f std_ops \<Rightarrow> 'f token \<Rightarrow> 'f pstate \<Rightarrow> ('f pstate, expr_error) outcome" where
  "expect ops expected st = (if fst st = expected then advance ops st else Err SyntaxError)"

text \<open>The operators of each level.\<close>

fun or_op :: "'f token \<Rightarrow> binary_operator option" where
  "or_op TOr = Some OpOr" | "or_op _ = None"

fun and_op :: "'f token \<Rightarrow> binary_operator option" where
  "and_op TAnd = Some OpAnd" | "and_op _ = None"

fun comparison_op :: "'f token \<Rightarrow> binary_operator option" where
  "comparison_op TEqEq = Some OpEq"
| "comparison_op TNotEq = Some OpNe"
| "comparison_op TLt = Some OpLt"
| "comparison_op TGt = Some OpGt"
| "comparison_op TLtEq = Some OpLe"
| "comparison_op TGtEq = Some OpGe"
| "comparison_op _ = None"

fun bitor_op :: "'f token \<Rightarrow> binary_operator option" where
  "bitor_op TPipe = Some OpBitwiseOr" | "bitor_op _ = None"

fun bitxor_op :: "'f token \<Rightarrow> binary_operator option" where
  "bitxor_op TCaret = Some OpBitwiseXor" | "bitxor_op _ = None"

fun bitand_op :: "'f token \<Rightarrow> binary_operator option" where
  "bitand_op TAmpersand = Some OpBitwiseAnd" | "bitand_op _ = None"

fun additive_op :: "'f token \<Rightarrow> binary_operator option" where
  "additive_op TPlus = Some OpAdd" | "additive_op TMinus = Some OpSub" | "additive_op _ = None"

fun multiplicative_op :: "'f token \<Rightarrow> binary_operator option" where
  "multiplicative_op TStar = Some OpMul"
| "multiplicative_op TSlash = Some OpDiv"
| "multiplicative_op TPercent = Some OpMod"
| "multiplicative_op TShiftLeft = Some OpShiftLeft"
| "multiplicative_op TShiftRight = Some OpShiftRight"
| "multiplicative_op _ = None"

fun unary_op :: "'f token \<Rightarrow> unary_operator option" where
  "unary_op TNot = Some OpNot"
| "unary_op TMinus = Some OpNeg"
| "unary_op TTilde = Some OpBitwiseNot"
| "unary_op _ = None"

text \<open>The operator loop: while the current token is an operator of the level, advance, parse
  the right operand and fold to the left.\<close>

fun binary_loop :: "nat \<Rightarrow> 'f std_ops \<Rightarrow> ('f token \<Rightarrow> binary_operator option) \<Rightarrow>
    ('f pstate \<Rightarrow> 'f parsed) \<Rightarrow> 'f expression \<Rightarrow> 'f pstate \<Rightarrow> 'f parsed" where
  "binary_loop 0 ops level sub left st = Panic"
| "binary_loop (Suc n) ops level sub left st =
    (case level (fst st) of
      None \<Rightarrow> Ok (left, st)
    | Some op \<Rightarrow>
        and_then (advance ops st) (\<lambda>st1.
        and_then (sub st1) (\<lambda>(right, st2).
        binary_loop n ops level sub (BinaryOp left op right) st2)))"

definition parse_level :: "nat \<Rightarrow> 'f std_ops \<Rightarrow> ('f token \<Rightarrow> binary_operator option) \<Rightarrow>
    ('f pstate \<Rightarrow> 'f parsed) \<Rightarrow> 'f pstate \<Rightarrow> 'f parsed" where
  "parse_level n ops level sub st =
    and_then (sub st) (\<lambda>(left, st1). binary_loop n ops level sub left st1)"

text \<open>Primary expressions; \<open>expr\<close> parses a whole expression.\<close>

definition parse_primary :: "'f std_ops \<Rightarrow> ('f pstate \<Rightarrow> 'f parsed) \<Rightarrow> 'f pstate \<Rightarrow> 'f parsed" where
  "parse_primary ops expr st =
    (case fst st of
      TInteger n \<Rightarrow> map_ok (\<lambda>st1. (Literal (LInteger n), st1)) (advance ops st)
    | TFloat f \<Rightarrow> map_ok (\<lambda>st1. (Literal (LFloat f), st1)) (advance ops st)
    | TString s \<Rightarrow> map_ok (\<lambda>st1. (Literal (LString s), st1)) (advance ops st)
    | TBoolean b \<Rightarrow> map_ok (\<lambda>st1. (Literal (LBoolean b), st1)) (advance ops st)
    | TIdent name \<Rightarrow>
        map_ok (\<lambda>st1. (if name = ''_index'' then SpecialVar SpecialIndex else FieldRef name, st1))
          (advance ops st)
    | TLParen \<Rightarrow>
        and_then (advance ops st) (\<lambda>st1.
        and_then (expr st1) (\<lambda>(e, st2).
        map_ok (\<lambda>st3. (e, st3)) (expect ops TRParen st2)))
    | _ \<Rightarrow> Err SyntaxError)"

definition parse_member_or_method :: "'f std_ops \<Rightarrow> 'f expression \<Rightarrow> 'f pstate \<Rightarrow> 'f parsed" where
  "parse_member_or_method ops e st =
    (case fst st of
      TIdent name \<Rightarrow>
        map_ok (\<lambda>st1.
          (if name \<in> set METHODS then MethodCall e name
           else case e of
             FieldRef path \<Rightarrow> FieldRef (path @ ''.'' @ name)
           | base \<Rightarrow> Index base (Literal (LString name)), st1)) (advance ops st)
    | _ \<Rightarrow> Err SyntaxError)"

fun postfix_loop :: "nat \<Rightarrow> 'f std_ops \<Rightarrow> ('f pstate \<Rightarrow> 'f parsed) \<Rightarrow> 'f expression \<Rightarrow> 'f pstate \<Rightarrow> 'f parsed" where
  "postfix_loop 0 ops expr e st = Panic"
| "postfix_loop (Suc n) ops expr e st =
    (case fst st of
      TDot \<Rightarrow>
        and_then (advance ops st) (\<lambda>st1.
        and_then (parse_member_or_method ops e st1) (\<lambda>(e', st2).
        postfix_loop n ops expr e' st2))
    | TLBracket \<Rightarrow>
        and_then (advance ops st) (\<lambda>st1.
        and_then (expr st1) (\<lambda>(i, st2).
        and_then (expect ops TRBracket st2) (\<lambda>st3.
        postfix_loop n ops expr (Index e i) st3)))
    | _ \<Rightarrow> Ok (e, st))"

definition parse_postfix :: "nat \<Rightarrow> 'f std_ops \<Rightarrow> ('f pstate \<Rightarrow> 'f parsed) \<Rightarrow> 'f pstate \<Rightarrow> 'f parsed" where
  "parse_postfix n ops expr st =
    and_then (parse_primary ops expr st) (\<lambda>(e, st1). postfix_loop n ops expr e st1)"

fun parse_unary :: "nat \<Rightarrow> nat \<Rightarrow> 'f std_ops \<Rightarrow> ('f pstate \<Rightarrow> 'f parsed) \<Rightarrow> 'f pstate \<Rightarrow> 'f parsed" where
  "parse_unary 0 n ops expr st = Panic"
| "parse_unary (Suc k) n ops expr st =
    (case unary_op (fst st) of
      Some op \<Rightarrow>
        and_then (advance ops st) (\<lambda>st1.
        and_then (parse_unary k n ops expr st1) (\<lambda>(operand, st2). Ok (UnaryOp op operand, st2)))
    | None \<Rightarrow> parse_postfix n ops expr st)"

definition parse_multiplicative :: "nat \<Rightarrow> 'f std_ops \<Rightarrow> ('f pstate \<Rightarrow> 'f parsed) \<Rightarrow> 'f pstate \<Rightarrow> 'f parsed" where
  "parse_multiplicative n ops expr = parse_level n ops multiplicative_op (parse_unary n n ops expr)"

definition parse_additive :: "nat \<Rightarrow> 'f std_ops \<Rightarrow> ('f pstate \<Rightarrow> 'f parsed) \<Rightarrow> 'f pstate \<Rightarrow> 'f parsed" where
  "parse_additive n ops expr = parse_level n ops additive_op (parse_multiplicative n ops expr)"

definition parse_bitwise_and :: "nat \<Rightarrow> 'f std_ops \<Rightarrow> ('f pstate \<Rightarrow> 'f parsed) \<Rightarrow> 'f pstate \<Rightarrow> 'f parsed" where
  "parse_bitwise_and n ops expr = parse_level n ops bitand_op (parse_additive n ops expr)"

definition parse_bitwise_xor :: "nat \<Rightarrow> 'f std_ops \<Rightarrow> ('f pstate \<Rightarrow> 'f parsed) \<Rightarrow> 'f pstate \<Rightarrow> 'f parsed" where
  "parse_bitwise_xor n ops expr = parse_level n ops bitxor_op (parse_bitwise_and n ops expr)"

definition parse_bitwise_or :: "nat \<Rightarrow> 'f std_ops \<Rightarrow> ('f pstate \<Rightarrow> 'f parsed) \<Rightarrow> 'f pstate \<Rightarrow> 'f parsed" where
  "parse_bitwise_or n ops expr = parse_level n ops bitor_op (parse_bitwise_xor n ops expr)"

definition parse_comparison :: "nat \<Rightarrow> 'f std_ops \<Rightarrow> ('f pstate \<Rightarrow> 'f parsed) \<Rightarrow> 'f pstate \<Rightarrow> 'f parsed" where
  "parse_comparison n ops expr = parse_level n ops comparison_op (parse_bitwise_or n ops expr)"

definition parse_and :: "nat \<Rightarrow> 'f std_ops \<Rightarrow> ('f pstate \<Rightarrow> 'f parsed) \<Rightarrow> 'f pstate \<Rightarrow> 'f parsed" where
  "parse_and n ops expr = parse_level n ops and_op (parse_comparison n ops expr)"

definition parse_or :: "nat \<Rightarrow> 'f std_ops \<Rightarrow> ('f pstate \<Rightarrow> 'f parsed) \<Rightarrow> 'f pstate \<Rightarrow> 'f parsed" where
  "parse_or n ops expr = parse_level n ops or_op (parse_and n ops expr)"

fun parse_expression :: "nat \<Rightarrow> 'f std_ops \<Rightarrow> 'f pstate \<Rightarrow> 'f parsed" where
  "parse_expression 0 ops st = Panic"
| "parse_expression (Suc n) ops st = parse_or (Suc n) ops (parse_expression n ops) st"

text \<open>\<open>ExpressionEvaluator::parse\<close>; the fuel is the number of characters plus two.\<close>

definition parse_fuel :: "nat \<Rightarrow> 'f std_ops \<Rightarrow> string \<Rightarrow> ('f expression, expr_error) outcome" where
  "parse_fuel n ops s =
    (if list_all is_whitespace s then Err SyntaxError
     else and_then (parser_new ops s) (\<lambda>st.
       and_then (parse_expression n ops st) (\<lambda>(e, st1).
       if fst st1 \<noteq> TEof then Err SyntaxError else Ok e)))"

definition parse :: "'f std_ops \<Rightarrow> string \<Rightarrow> ('f expression, expr_error) outcome" where
  "parse ops s = parse_fuel (length s + 2) ops s"

section \<open>Every loop consumes a token\<close>

definition left_over :: "'f pstate \<Rightarrow> nat" where
  "left_over st = length (snd st) + (if fst st = TEof then 0 else 1)"

text \<open>A parser is bounded by \<open>k\<close> when it returns (a value or a syntax error) on every state with
  less than \<open>k\<close> left, and never leaves more than it was given.\<close>

definition bounded :: "nat \<Rightarrow> ('f pstate \<Rightarrow> 'f parsed) \<Rightarrow> bool" where
  "bounded k p \<longleftrightarrow> (\<forall>st. left_over st < k \<longrightarrow>
    p st \<noteq> Panic \<and> (\<forall>e st'. p st = Ok (e, st') \<longrightarrow> left_over st' \<le> left_over st))"

lemma boundedD:
  assumes "bounded k p" "left_over st < k"
  shows "p st \<noteq> Panic" "p st = Ok (e, st') \<Longrightarrow> left_over st' \<le> left_over st"
  using assms unfolding bounded_def by blast+

lemma advance_total [simp]: "advance ops st \<noteq> Panic"
  by (simp add: advance_def next_token_total)

lemma advance_less:
  assumes "advance ops st = Ok st'" "fst st \<noteq> TEof"
  shows "left_over st' < left_over st"
  using assms next_token_shrinks [of ops "snd st" "fst st'" "snd st'"]
  by (auto simp: advance_def left_over_def)

lemma expect_total [simp]: "expect ops t st \<noteq> Panic"
  by (simp add: expect_def)

lemma expect_less: "expect ops t st = Ok st' \<Longrightarrow> t \<noteq> TEof \<Longrightarrow> left_over st' < left_over st"
  by (auto simp: expect_def split: if_splits dest: advance_less)

lemma binary_loop_bounded:
  assumes "bounded k sub" "level TEof = None" "left_over st < n" "left_over st < k"
  shows "binary_loop n ops level sub e st \<noteq> Panic \<and>
    (\<forall>e' st'. binary_loop n ops level sub e st = Ok (e', st') \<longrightarrow> left_over st' \<le> left_over st)"
  using assms(3,4)
proof (induction n arbitrary: e st)
  case (Suc n)
  show ?case
  proof (cases "level (fst st)")
    case (Some op)
    then have ne: "fst st \<noteq> TEof" using assms(2) by auto
    show ?thesis
    proof (cases "advance ops st")
      case (Ok st1)
      then have lt: "left_over st1 < left_over st" using advance_less ne by blast
      then have k: "left_over st1 < k" using Suc.prems by simp
      note b = boundedD [OF assms(1) k]
      show ?thesis
      proof (cases "sub st1")
        case o2: (Ok r)
        obtain right st2 where r: "r = (right, st2)" by (cases r)
        have "left_over st2 \<le> left_over st1" using b(2) o2 r by blast
        then have "left_over st2 < n" "left_over st2 < k" using lt Suc.prems by auto
        note IH = Suc.IH [OF this]
        have "binary_loop (Suc n) ops level sub e st = binary_loop n ops level sub (BinaryOp e op right) st2"
          using Some Ok o2 r by simp
        then show ?thesis using IH [of "BinaryOp e op right"] \<open>left_over st2 \<le> left_over st1\<close> lt by fastforce
      qed (use Some Ok b(1) in auto)
    qed (use Some in auto)
  qed simp
qed simp

lemma parse_level_bounded:
  assumes "bounded k sub" "level TEof = None" "k \<le> n"
  shows "bounded k (parse_level n ops level sub)"
  unfolding bounded_def
proof (intro allI impI)
  fix st :: "'a pstate"
  assume lt: "left_over st < k"
  note b = boundedD [OF assms(1) lt]
  show "parse_level n ops level sub st \<noteq> Panic \<and>
    (\<forall>e st'. parse_level n ops level sub st = Ok (e, st') \<longrightarrow> left_over st' \<le> left_over st)"
  proof (cases "sub st")
    case (Ok r)
    obtain e1 st1 where r: "r = (e1, st1)" by (cases r)
    then have "left_over st1 \<le> left_over st" using b(2) Ok by blast
    then show ?thesis
      using binary_loop_bounded [where sub = sub and level = level and st = st1 and e = e1 and n = n and ops = ops,
          OF assms(1,2)] Ok r lt assms(3)
      by (fastforce simp: parse_level_def)
  qed (use b(1) in \<open>auto simp: parse_level_def\<close>)
qed

lemma bounded_mono: "bounded k p \<Longrightarrow> j \<le> k \<Longrightarrow> bounded j p"
  by (simp add: bounded_def)

text \<open>After a consumed token a parser bounded by \<open>k\<close> can be applied to a state with at most \<open>k\<close>
  left before the token.\<close>

lemma parse_primary_less:
  assumes "bounded k expr" "left_over st < Suc k"
  shows "parse_primary ops expr st \<noteq> Panic \<and>
    (\<forall>e st'. parse_primary ops expr st = Ok (e, st') \<longrightarrow> left_over st' < left_over st)"
proof (cases "fst st = TLParen")
  case True
  show ?thesis
  proof (cases "advance ops st")
    case (Ok st1)
    then have lt: "left_over st1 < left_over st" using advance_less True by fastforce
    then have k: "left_over st1 < k" using assms(2) by simp
    note b = boundedD [OF assms(1) k]
    show ?thesis
    proof (cases "expr st1")
      case o2: (Ok r)
      obtain e st2 where r: "r = (e, st2)" by (cases r)
      have "left_over st2 \<le> left_over st1" using b(2) o2 r by blast
      then show ?thesis using True Ok o2 r lt
        by (auto simp: parse_primary_def outcome_simps dest!: expect_less)
    qed (use True Ok b(1) in \<open>auto simp: parse_primary_def\<close>)
  qed (use True in \<open>auto simp: parse_primary_def\<close>)
next
  case False
  then show ?thesis
    by (auto simp: parse_primary_def outcome_simps advance_less split: token.splits)
qed

lemma parse_member_less:
  "parse_member_or_method ops e st \<noteq> Panic \<and>
    (\<forall>e' st'. parse_member_or_method ops e st = Ok (e', st') \<longrightarrow> left_over st' < left_over st)"
  by (auto simp: parse_member_or_method_def outcome_simps advance_less split: token.splits)

lemma postfix_loop_bounded:
  assumes "bounded k expr" "left_over st < n" "left_over st < Suc k"
  shows "postfix_loop n ops expr e st \<noteq> Panic \<and>
    (\<forall>e' st'. postfix_loop n ops expr e st = Ok (e', st') \<longrightarrow> left_over st' \<le> left_over st)"
  using assms(2,3)
proof (induction n arbitrary: e st)
  case (Suc n)
  show ?case
  proof (cases "fst st = TDot \<or> fst st = TLBracket")
    case False
    then show ?thesis by (auto split: token.splits)
  next
    case True
    show ?thesis
    proof (cases "advance ops st")
      case (Ok st1)
      then have lt: "left_over st1 < left_over st" using advance_less True by fastforce
      then have k: "left_over st1 < k" using Suc.prems by simp
      have rest: "postfix_loop n ops expr e2 st2 \<noteq> Panic \<and>
          (\<forall>e' st'. postfix_loop n ops expr e2 st2 = Ok (e', st') \<longrightarrow> left_over st' \<le> left_over st)"
        if "left_over st2 < left_over st" for e2 st2
        using Suc.IH [of st2 e2] that Suc.prems by fastforce
      from True show ?thesis
      proof
        assume dot: "fst st = TDot"
        show ?thesis
        proof (cases "parse_member_or_method ops e st1")
          case o2: (Ok r)
          obtain e2 st2 where r: "r = (e2, st2)" by (cases r)
          then have "left_over st2 < left_over st" using parse_member_less [of ops e st1] o2 lt by fastforce
          then show ?thesis using rest [of st2 e2] dot Ok o2 r by simp
        qed (use dot Ok parse_member_less [of ops e st1] in auto)
      next
        assume br: "fst st = TLBracket"
        note b = boundedD [OF assms(1) k]
        show ?thesis
        proof (cases "expr st1")
          case o2: (Ok r)
          obtain i st2 where r: "r = (i, st2)" by (cases r)
          then have le2: "left_over st2 \<le> left_over st1" using b(2) o2 by blast
          show ?thesis
          proof (cases "expect ops TRBracket st2")
            case o3: (Ok st3)
            then have "left_over st3 < left_over st" using expect_less [OF o3] le2 lt by simp
            then show ?thesis using rest [of st3 "Index e i"] br Ok o2 r o3 by simp
          qed (use br Ok o2 r in auto)
        qed (use br Ok b(1) in auto)
      qed
    qed (use True in auto)
  qed
qed simp

lemma parse_postfix_bounded:
  assumes "bounded k expr" "k < n"
  shows "bounded (Suc k) (parse_postfix n ops expr)"
  unfolding bounded_def
proof (intro allI impI)
  fix st :: "'a pstate"
  assume lt: "left_over st < Suc k"
  note prim = parse_primary_less [OF assms(1) lt, of ops]
  show "parse_postfix n ops expr st \<noteq> Panic \<and>
    (\<forall>e st'. parse_postfix n ops expr st = Ok (e, st') \<longrightarrow> left_over st' \<le> left_over st)"
  proof (cases "parse_primary ops expr st")
    case (Ok r)
    obtain e1 st1 where r: "r = (e1, st1)" by (cases r)
    then have "left_over st1 < left_over st" using prim Ok by blast
    then show ?thesis
      using postfix_loop_bounded [OF assms(1), of st1 n ops e1] Ok r lt assms(2)
      by (fastforce simp: parse_postfix_def)
  qed (use prim in \<open>auto simp: parse_postfix_def\<close>)
qed

lemma parse_unary_bounded:
  assumes "bounded k expr" "k < n" "left_over st < m" "left_over st < Suc k"
  shows "parse_unary m n ops expr st \<noteq> Panic \<and>
    (\<forall>e st'. parse_unary m n ops expr st = Ok (e, st') \<longrightarrow> left_over st' \<le> left_over st)"
  using assms(3,4)
proof (induction m arbitrary: st)
  case (Suc m)
  show ?case
  proof (cases "unary_op (fst st)")
    case None
    then show ?thesis
      using boundedD [OF parse_postfix_bounded [OF assms(1,2)] Suc.prems(2), of ops] by simp
  next
    case (Some op)
    then have ne: "fst st \<noteq> TEof" by auto
    show ?thesis
    proof (cases "advance ops st")
      case (Ok st1)
      then have lt: "left_over st1 < left_over st" using advance_less ne by blast
      note IH = Suc.IH [of st1]
      show ?thesis
      proof (cases "parse_unary m n ops expr st1")
        case o2: (Ok r)
        then show ?thesis using IH Suc.prems lt Some Ok by (cases r) fastforce
      qed (use IH Suc.prems lt Some Ok in auto)
    qed (use Some in auto)
  qed
qed simp

lemma parse_or_bounded:
  assumes "bounded k expr" "k < n"
  shows "bounded (Suc k) (parse_or n ops expr)"
proof -
  have "bounded (Suc k) (parse_unary n n ops expr)"
    unfolding bounded_def using parse_unary_bounded [OF assms] assms(2)
    by (meson less_Suc_eq_le order.strict_trans1)
  then show ?thesis
    unfolding parse_or_def parse_and_def parse_comparison_def parse_bitwise_or_def
      parse_bitwise_xor_def parse_bitwise_and_def parse_additive_def parse_multiplicative_def
    using assms(2) by (intro parse_level_bounded) auto
qed

lemma parse_expression_bounded: "bounded n (parse_expression n ops)"
proof (induction n)
  case (Suc n)
  have "bounded (Suc n) (parse_or (Suc n) ops (parse_expression n ops))"
    by (rule parse_or_bounded [OF Suc.IH]) simp
  then show ?case by (simp add: bounded_def)
qed (simp add: bounded_def)

lemma parse_total_lemma: "parse ops s \<noteq> Panic"
proof (cases "next_token ops s")
  case (Ok st)
  have "left_over st < length s + 2"
    using next_token_shrinks [of ops s "fst st" "snd st"] Ok by (auto simp: left_over_def)
  then have "parse_expression (length s + 2) ops st \<noteq> Panic"
    using boundedD(1) [OF parse_expression_bounded] by blast
  then show ?thesis using Ok
    by (auto simp: parse_def parse_fuel_def parser_new_def and_then_Panic split: if_splits)
qed (use next_token_total in \<open>auto simp: parse_def parse_fuel_def parser_new_def\<close>)

end
