(* ===== verification/Expr_Roundtrip.thy ===== *)
theory Expr_Roundtrip
  imports Expr_Parser
begin

text \<open>
  The parser inverts rendering: \<open>prints k e ts\<close> is the grammar of the expressions with its levels of
  precedence, and relates an expression to the token lists that denote it; \<open>spells\<close> relates tokens to
  the texts that spell them.  The round trip shows that parsing such a text gives the expression back.
\<close>

section \<open>Renderings\<close>

fun op_token :: "binary_operator \<Rightarrow> 'f token" where
  "op_token OpAdd = TPlus" | "op_token OpSub = TMinus" | "op_token OpMul = TStar"
| "op_token OpDiv = TSlash" | "op_token OpMod = TPercent"
| "op_token OpEq = TEqEq" | "op_token OpNe = TNotEq" | "op_token OpLt = TLt"
| "op_token OpGt = TGt" | "op_token OpLe = TLtEq" | "op_token OpGe = TGtEq"
| "op_token OpAnd = TAnd" | "op_token OpOr = TOr"
| "op_token OpBitwiseAnd = TAmpersand" | "op_token OpBitwiseOr = TPipe"
| "op_token OpBitwiseXor = TCaret" | "op_token OpShiftLeft = TShiftLeft"
| "op_token OpShiftRight = TShiftRight"

fun unary_token :: "unary_operator \<Rightarrow> 'f token" where
  "unary_token OpNot = TNot" | "unary_token OpNeg = TMinus" | "unary_token OpBitwiseNot = TTilde"

fun literal_token :: "'f literal \<Rightarrow> 'f token" where
  "literal_token (LInteger n) = TInteger n"
| "literal_token (LFloat f) = TFloat f"
| "literal_token (LString s) = TString s"
| "literal_token (LBoolean b) = TBoolean b"

definition is_field_ref :: "'f expression \<Rightarrow> bool" where
  "is_field_ref e \<longleftrightarrow> (\<exists>p. e = FieldRef p)"

text \<open>How tightly an operator binds, from 2 (tightest) to 9; operators of one level associate to the left.\<close>

fun strength :: "binary_operator \<Rightarrow> nat" where
  "strength OpMul = 2" | "strength OpDiv = 2" | "strength OpMod = 2"
| "strength OpShiftLeft = 2" | "strength OpShiftRight = 2"
| "strength OpAdd = 3" | "strength OpSub = 3"
| "strength OpBitwiseAnd = 4" | "strength OpBitwiseXor = 5" | "strength OpBitwiseOr = 6"
| "strength OpEq = 7" | "strength OpNe = 7" | "strength OpLt = 7" | "strength OpGt = 7"
| "strength OpLe = 7" | "strength OpGe = 7"
| "strength OpAnd = 8" | "strength OpOr = 9"

text \<open>Level 0 are operands with their members, methods and subscripts, level 1 unary operators, level 9
  whole expressions; parentheses are needed only where the levels ask for them.\<close>

inductive prints :: "nat \<Rightarrow> 'f expression \<Rightarrow> 'f token list \<Rightarrow> bool" where
  prints_literal: "prints 0 (Literal l) [literal_token l]"
| prints_index: "prints 0 (SpecialVar SpecialIndex) [TIdent ''_index'']"
| prints_field: "name \<noteq> ''_index'' \<Longrightarrow> prints 0 (FieldRef name) [TIdent name]"
| prints_member: "prints 0 (FieldRef p) ts \<Longrightarrow> name \<notin> set METHODS \<Longrightarrow>
    prints 0 (FieldRef (p @ ''.'' @ name)) (ts @ [TDot, TIdent name])"
| prints_element: "prints 0 e ts \<Longrightarrow> \<not> is_field_ref e \<Longrightarrow> name \<notin> set METHODS \<Longrightarrow>
    prints 0 (Index e (Literal (LString name))) (ts @ [TDot, TIdent name])"
| prints_method: "prints 0 e ts \<Longrightarrow> name \<in> set METHODS \<Longrightarrow>
    prints 0 (MethodCall e name) (ts @ [TDot, TIdent name])"
| prints_subscript: "prints 0 e ts \<Longrightarrow> prints 9 i us \<Longrightarrow>
    prints 0 (Index e i) (ts @ [TLBracket] @ us @ [TRBracket])"
| prints_parens: "prints 9 e ts \<Longrightarrow> prints 0 e ([TLParen] @ ts @ [TRParen])"
| prints_unary: "prints 1 e ts \<Longrightarrow> prints 1 (UnaryOp op e) (unary_token op # ts)"
| prints_binary: "prints (strength op) l ts \<Longrightarrow> prints (strength op - 1) r us \<Longrightarrow>
    prints (strength op) (BinaryOp l op r) (ts @ [op_token op] @ us)"
| prints_weaker: "prints k e ts \<Longrightarrow> k < 9 \<Longrightarrow> prints (Suc k) e ts"

text \<open>A parser state denotes a token list when advancing through it reads these tokens.\<close>

fun stream :: "'f std_ops \<Rightarrow> 'f pstate \<Rightarrow> 'f token list \<Rightarrow> bool" where
  "stream ops st [] \<longleftrightarrow> fst st = TEof"
| "stream ops st (t # ts) \<longleftrightarrow> fst st = t \<and> t \<noteq> TEof \<and> (\<exists>st'. advance ops st = Ok st' \<and> stream ops st' ts)"

definition levels :: "('f token \<Rightarrow> binary_operator option) list" where
  "levels = [multiplicative_op, additive_op, bitand_op, bitxor_op, bitor_op, comparison_op, and_op, or_op]"

section \<open>Operator levels\<close>

text \<open>The parser of a level.\<close>

fun level_parser :: "nat \<Rightarrow> nat \<Rightarrow> 'f std_ops \<Rightarrow> nat \<Rightarrow> 'f pstate \<Rightarrow> 'f parsed" where
  "level_parser 0 n ops m = parse_postfix n ops (parse_expression m ops)"
| "level_parser (Suc 0) n ops m = parse_unary n n ops (parse_expression m ops)"
| "level_parser (Suc (Suc i)) n ops m = parse_level n ops (levels ! i) (level_parser (Suc i) n ops m)"

lemma level_parser_top: "level_parser 9 n ops m = parse_or n ops (parse_expression m ops)"
  by (simp add: eval_nat_numeral levels_def parse_or_def parse_and_def parse_comparison_def parse_bitwise_or_def
      parse_bitwise_xor_def parse_bitwise_and_def parse_additive_def parse_multiplicative_def)

text \<open>The token of an operator belongs to its level and to no tighter one.\<close>

lemma strength_level:
  obtains i where "strength op = Suc (Suc i)" "i < 8" "(levels ! i) (op_token op :: 'f token) = Some op"
    "\<forall>j<i. (levels ! j) (op_token op :: 'f token) = None"
proof -
  let ?t = "op_token op :: 'f token"
  let ?ok = "\<lambda>i. strength op = Suc (Suc i) \<and> (levels ! i) ?t = Some op \<and> (\<forall>l\<in>set (take i levels). l ?t = None)"
  have "?ok 0 \<or> ?ok 1 \<or> ?ok 2 \<or> ?ok 3 \<or> ?ok 4 \<or> ?ok 5 \<or> ?ok 6 \<or> ?ok 7"
    by (cases op) (simp_all add: levels_def)
  then have "\<exists>i<8. ?ok i" by (elim disjE) (rule exI, rule conjI [rotated], assumption, simp)+
  then obtain i where i: "i < 8" "?ok i" by blast
  have "levels ! j \<in> set (take i levels)" if "j < i" for j
    using that i(1) by (auto simp: in_set_conv_nth levels_def intro!: exI [of _ j])
  then show ?thesis using that [of i] i by blast
qed

lemma closing_no_op:
  assumes "i < 8"
  shows "(levels ! i) TRParen = None" "(levels ! i) TRBracket = None" "(levels ! i) TEof = None"
proof -
  have "i = 0 \<or> i = 1 \<or> i = 2 \<or> i = 3 \<or> i = 4 \<or> i = 5 \<or> i = 6 \<or> i = 7" using assms by auto
  then show "(levels ! i) TRParen = None" "(levels ! i) TRBracket = None" "(levels ! i) TEof = None"
    by (elim disjE; simp add: levels_def)+
qed

section \<open>Parsing a rendering\<close>

lemma advance_left: "stream ops st (t # ts) \<Longrightarrow> advance ops st = Ok st' \<Longrightarrow> left_over st' < left_over st"
  by (auto intro: advance_less)

lemma streamD:
  assumes "stream ops st (t # ts)"
  obtains st' where "fst st = t" "advance ops st = Ok st'" "stream ops st' ts" "left_over st' < left_over st"
  using assms by (auto intro: advance_less)

lemma op_token_ne_Eof [simp]: "op_token op \<noteq> TEof" "unary_token u \<noteq> TEof"
  by (cases op; simp) (cases u; simp)

lemma op_token_not_postfix [simp]:
  "op_token op \<noteq> TDot" "op_token op \<noteq> TLBracket"
  by (cases op; simp)+

lemma unary_op_token [simp]: "unary_op (unary_token u) = Some u"
  by (cases u) auto

text \<open>A rendering read by \<open>parse_postfix\<close> reaches the postfix loop with the expression built and
  the rest of the tokens still to come.\<close>

definition reads :: "'f std_ops \<Rightarrow> 'f expression \<Rightarrow> 'f token list \<Rightarrow> bool" where
  "reads ops e ts \<longleftrightarrow> (\<forall>st us n m. stream ops st (ts @ us) \<longrightarrow> left_over st < n \<longrightarrow> left_over st \<le> m \<longrightarrow>
    (\<exists>k st'. parse_postfix n ops (parse_expression m ops) st = postfix_loop k ops (parse_expression m ops) e st' \<and>
      left_over st' < k \<and> left_over st' < left_over st \<and> stream ops st' us))"

definition no_postfix :: "'f token list \<Rightarrow> bool" where
  "no_postfix us \<longleftrightarrow> us = [] \<or> hd us \<noteq> TDot \<and> hd us \<noteq> TLBracket"

text \<open>Tokens at which the parser of level \<open>k\<close> stops.\<close>

definition stops :: "nat \<Rightarrow> 'f token list \<Rightarrow> bool" where
  "stops k us \<longleftrightarrow> no_postfix us \<and> (us \<noteq> [] \<longrightarrow> (\<forall>i. Suc i < k \<longrightarrow> (levels ! i) (hd us) = None))"

lemma stream_hd: "stream ops st us \<Longrightarrow> fst st = (if us = [] then TEof else hd us)"
  by (cases us) auto

lemma stops_none:
  assumes "stops k us" "stream ops st us" "Suc i < k" "i < 8"
  shows "(levels ! i) (fst st) = None"
  using stream_hd [OF assms(2)] assms closing_no_op(3) by (auto simp: stops_def)

lemma stops_mono: "stops k us \<Longrightarrow> j \<le> k \<Longrightarrow> stops j us"
  by (auto simp: stops_def)

lemma stops_closing: "k \<le> 9 \<Longrightarrow> stops k (TRParen # us)" "k \<le> 9 \<Longrightarrow> stops k (TRBracket # us)" "stops k []"
  by (auto simp: stops_def no_postfix_def intro!: closing_no_op)

text \<open>What it means that a parser takes exactly the tokens of an expression: at once, through a
  chain of unary operators, or into the loop of a level with the expression built.\<close>

definition takes :: "'f std_ops \<Rightarrow> ('f pstate \<Rightarrow> 'f parsed) \<Rightarrow> 'f expression \<Rightarrow> 'f pstate \<Rightarrow> 'f token list \<Rightarrow> bool" where
  "takes ops p e st us \<longleftrightarrow> (\<exists>st'. p st = Ok (e, st') \<and> left_over st' < left_over st \<and> stream ops st' us)"

definition returns :: "'f std_ops \<Rightarrow> nat \<Rightarrow> 'f expression \<Rightarrow> 'f token list \<Rightarrow> bool" where
  "returns ops k e ts \<longleftrightarrow> (\<forall>st us n m. stream ops st (ts @ us) \<longrightarrow> left_over st < n \<longrightarrow> left_over st \<le> m \<longrightarrow>
    stops k us \<longrightarrow> takes ops (level_parser k n ops m) e st us)"

definition chained :: "'f std_ops \<Rightarrow> 'f expression \<Rightarrow> 'f token list \<Rightarrow> bool" where
  "chained ops e ts \<longleftrightarrow> (\<forall>st us n m f. stream ops st (ts @ us) \<longrightarrow> left_over st < n \<longrightarrow> left_over st \<le> m \<longrightarrow>
    left_over st < f \<longrightarrow> stops (Suc 0) us \<longrightarrow> takes ops (parse_unary f n ops (parse_expression m ops)) e st us)"

definition folds :: "'f std_ops \<Rightarrow> nat \<Rightarrow> 'f expression \<Rightarrow> 'f token list \<Rightarrow> bool" where
  "folds ops i e ts \<longleftrightarrow> (\<forall>st us n m. stream ops st (ts @ us) \<longrightarrow> left_over st < n \<longrightarrow> left_over st \<le> m \<longrightarrow>
    stops (Suc i) us \<longrightarrow>
    (\<exists>j st'. level_parser (Suc (Suc i)) n ops m st =
        binary_loop j ops (levels ! i) (level_parser (Suc i) n ops m) e st' \<and>
      left_over st' < j \<and> left_over st' < left_over st \<and> stream ops st' us))"

lemma returnsD:
  "returns ops k e ts \<Longrightarrow> stream ops st (ts @ us) \<Longrightarrow> left_over st < n \<Longrightarrow> left_over st \<le> m \<Longrightarrow> stops k us \<Longrightarrow>
    takes ops (level_parser k n ops m) e st us"
  unfolding returns_def by blast

lemma chainedD:
  "chained ops e ts \<Longrightarrow> stream ops st (ts @ us) \<Longrightarrow> left_over st < n \<Longrightarrow> left_over st \<le> m \<Longrightarrow> left_over st < f \<Longrightarrow>
    stops (Suc 0) us \<Longrightarrow> takes ops (parse_unary f n ops (parse_expression m ops)) e st us"
  unfolding chained_def by blast

lemma takesE:
  assumes "takes ops p e st us"
  obtains st' where "p st = Ok (e, st')" "left_over st' < left_over st" "stream ops st' us"
  using assms unfolding takes_def by blast

lemma takesI: "p st = Ok (e, st') \<Longrightarrow> left_over st' < left_over st \<Longrightarrow> stream ops st' us \<Longrightarrow> takes ops p e st us"
  unfolding takes_def by blast

definition starts_plain :: "'f token list \<Rightarrow> bool" where
  "starts_plain ts \<longleftrightarrow> (\<exists>t vs. ts = t # vs \<and> unary_op t = None)"

fun good :: "'f std_ops \<Rightarrow> nat \<Rightarrow> 'f expression \<Rightarrow> 'f token list \<Rightarrow> bool" where
  "good ops 0 e ts \<longleftrightarrow> reads ops e ts \<and> starts_plain ts"
| "good ops (Suc 0) e ts \<longleftrightarrow> chained ops e ts"
| "good ops (Suc (Suc i)) e ts \<longleftrightarrow> folds ops i e ts"

lemma reads_takes:
  assumes "reads ops e ts" "stream ops st (ts @ us)" "left_over st < n" "left_over st \<le> m" "no_postfix us"
  shows "takes ops (parse_postfix n ops (parse_expression m ops)) e st us"
proof -
  obtain k st' where st': "parse_postfix n ops (parse_expression m ops) st =
      postfix_loop k ops (parse_expression m ops) e st'"
    "left_over st' < k" "left_over st' < left_over st" "stream ops st' us"
    using assms unfolding reads_def by blast
  have "fst st' \<noteq> TDot" "fst st' \<noteq> TLBracket"
    using stream_hd [OF st'(4)] assms(5) by (auto simp: no_postfix_def)
  then have "postfix_loop k ops (parse_expression m ops) e st' = Ok (e, st')"
    using st'(2) by (cases k) (auto split: token.splits)
  then show ?thesis using st' by (auto simp: takes_def)
qed

lemma reads_chains:
  assumes "reads ops e ts" "starts_plain ts"
  shows "chained ops e ts"
  unfolding chained_def
proof (intro allI impI)
  fix st us n m f
  assume st: "stream ops st (ts @ us)" "left_over st < n" "left_over st \<le> m" "left_over st < (f :: nat)" "stops (Suc 0) us"
  have "unary_op (fst st) = None" using assms(2) st(1) by (auto simp: starts_plain_def)
  moreover obtain g where "f = Suc g" using st(4) by (cases f) auto
  ultimately have "parse_unary f n ops (parse_expression m ops) st = parse_postfix n ops (parse_expression m ops) st"
    by simp
  then show "takes ops (parse_unary f n ops (parse_expression m ops)) e st us"
    using reads_takes [OF assms(1) st(1-3)] st(5) by (simp add: takes_def stops_def)
qed

lemma chains_unary:
  assumes "chained ops e ts"
  shows "chained ops (UnaryOp op e) (unary_token op # ts)"
  unfolding chained_def
proof (intro allI impI)
  fix st us n m f
  assume *: "stream ops st ((unary_token op # ts) @ us)" "left_over st < n" "left_over st \<le> m"
    "left_over st < (f :: nat)" "stops (Suc 0) us"
  obtain st1 where st1: "fst st = unary_token op" "advance ops st = Ok st1" "stream ops st1 (ts @ us)"
    "left_over st1 < left_over st" using *(1) unfolding append_Cons by (rule streamD)
  obtain g where g: "f = Suc g" using *(4) by (cases f) auto
  have "takes ops (parse_unary g n ops (parse_expression m ops)) e st1 us"
    by (rule chainedD [OF assms st1(3)]) (use st1(4) * g in simp_all)
  then obtain st2 where "parse_unary g n ops (parse_expression m ops) st1 = Ok (e, st2)"
    "left_over st2 < left_over st1" "stream ops st2 us" by (rule takesE)
  then show "takes ops (parse_unary f n ops (parse_expression m ops)) (UnaryOp op e) st us"
    using st1 g by (intro takesI [of _ _ _ st2]) simp_all
qed

lemma good_returns:
  assumes "good ops k e ts" "k \<le> 9"
  shows "returns ops k e ts"
  unfolding returns_def
proof (intro allI impI)
  fix st us n m
  assume *: "stream ops st (ts @ us)" "left_over st < n" "left_over st \<le> m" "stops k us"
  show "takes ops (level_parser k n ops m) e st us"
  proof (cases "(ops, k, e, ts)" rule: good.cases)
    case 1
    then show ?thesis using reads_takes [OF _ *(1-3), of e] assms(1) *(4) by (auto simp: stops_def)
  next
    case 2
    then show ?thesis using chainedD [OF _ *(1,2,3,2)] assms(1) *(4) by simp
  next
    case (3 _ i)
    have "folds ops i e ts" "stops (Suc i) us" using 3 assms(1) stops_mono [OF *(4)] by auto
    then obtain j st' where st': "level_parser k n ops m st =
        binary_loop j ops (levels ! i) (level_parser (Suc i) n ops m) e st'"
      "left_over st' < j" "left_over st' < left_over st" "stream ops st' us"
      using *(1-3) 3 unfolding folds_def by blast
    have "(levels ! i) (fst st') = None" by (rule stops_none [OF *(4) st'(4)]) (use 3 assms(2) in auto)
    then show ?thesis using st' by (cases j) (auto simp: takes_def)
  qed
qed

lemma good_weaker:
  assumes "good ops k e ts" "k < 9"
  shows "good ops (Suc k) e ts"
proof (cases k)
  case 0
  then show ?thesis using assms(1) by (auto intro: reads_chains)
next
  case (Suc i)
  have r: "returns ops (Suc i) e ts" using good_returns [OF assms(1)] assms(2) Suc by simp
  have "folds ops i e ts"
    unfolding folds_def
  proof (intro allI impI)
    fix st us n m
    assume *: "stream ops st (ts @ us)" "left_over st < n" "left_over st \<le> m" "stops (Suc i) us"
    obtain st' where "level_parser (Suc i) n ops m st = Ok (e, st')" "left_over st' < left_over st" "stream ops st' us"
      using r * unfolding returns_def takes_def by blast
    then show "\<exists>j st'. level_parser (Suc (Suc i)) n ops m st =
        binary_loop j ops (levels ! i) (level_parser (Suc i) n ops m) e st' \<and>
        left_over st' < j \<and> left_over st' < left_over st \<and> stream ops st' us"
      using *(2) by (intro exI [of _ n] exI [of _ st']) (simp add: parse_level_def)
  qed
  then show ?thesis using Suc by simp
qed

lemma folds_binary:
  fixes ops :: "'f std_ops"
  assumes i: "(levels ! i) (op_token op :: 'f token) = Some op" "\<forall>j<i. (levels ! j) (op_token op :: 'f token) = None"
    and l: "folds ops i l ts" and r: "returns ops (Suc i) r us"
  shows "folds ops i (BinaryOp l op r) (ts @ [op_token op] @ us)"
  unfolding folds_def
proof (intro allI impI)
  fix st vs n m
  assume *: "stream ops st ((ts @ [op_token op] @ us) @ vs)" "left_over st < n" "left_over st \<le> m" "stops (Suc i) vs"
  let ?sub = "level_parser (Suc i) n ops m"
  have "stops (Suc i) (op_token op # us @ vs)" using i(2) by (simp add: stops_def no_postfix_def)
  moreover have "stream ops st (ts @ op_token op # us @ vs)" using *(1) by simp
  ultimately obtain j st1 where st1: "level_parser (Suc (Suc i)) n ops m st = binary_loop j ops (levels ! i) ?sub l st1"
    "left_over st1 < j" "left_over st1 < left_over st" "stream ops st1 (op_token op # us @ vs)"
    using l *(2,3) unfolding folds_def by blast
  obtain st2 where st2: "fst st1 = op_token op" "advance ops st1 = Ok st2" "stream ops st2 (us @ vs)"
    "left_over st2 < left_over st1" using st1(4) by (rule streamD)
  have "takes ops ?sub r st2 vs"
    by (rule returnsD [OF r st2(3)]) (use st2(4) st1(3) *(2-4) in simp_all)
  then obtain st3 where st3: "?sub st2 = Ok (r, st3)" "left_over st3 < left_over st2" "stream ops st3 vs"
    by (rule takesE)
  obtain g where "j = Suc g" using st1(2) by (cases j) auto
  then show "\<exists>j st'. level_parser (Suc (Suc i)) n ops m st =
      binary_loop j ops (levels ! i) ?sub (BinaryOp l op r) st' \<and>
      left_over st' < j \<and> left_over st' < left_over st \<and> stream ops st' vs"
    using st1(1-3) st2 st3 i(1) by (intro exI [of _ g] exI [of _ st3]) auto
qed

lemma returns_expression:
  assumes "returns ops 9 e ts" "stream ops st (ts @ us)" "left_over st < m" "stops 9 us"
  shows "takes ops (parse_expression m ops) e st us"
proof -
  obtain m' where m: "m = Suc m'" using assms(3) by (cases m) auto
  have "takes ops (level_parser 9 m ops m') e st us"
    by (rule returnsD [OF assms(1,2)]) (use assms(3,4) m in simp_all)
  then show ?thesis unfolding level_parser_top by (simp add: m takes_def)
qed

lemma reads_token:
  assumes "t \<noteq> TEof" and "\<And>expr st st'. fst st = t \<Longrightarrow> advance ops st = Ok st' \<Longrightarrow>
    parse_primary ops expr st = Ok (e, st')"
  shows "reads ops e [t]"
  unfolding reads_def
proof (intro allI impI)
  fix st us n m
  assume st: "stream ops st ([t] @ us)" "left_over st < n" "left_over st \<le> m"
  from st(1) have "stream ops st (t # us)" by simp
  then obtain st' where "fst st = t" "advance ops st = Ok st'" "stream ops st' us" "left_over st' < left_over st"
    by (rule streamD)
  moreover from this have "parse_postfix n ops (parse_expression m ops) st =
      postfix_loop n ops (parse_expression m ops) e st'"
    using assms(2) by (simp add: parse_postfix_def)
  ultimately show "\<exists>k st'. parse_postfix n ops (parse_expression m ops) st =
      postfix_loop k ops (parse_expression m ops) e st' \<and>
      left_over st' < k \<and> left_over st' < left_over st \<and> stream ops st' us"
    using st(2) by (intro exI [of _ n] exI [of _ st']) auto
qed

lemma reads_dot:
  assumes "reads ops e ts"
    and "\<And>st st'. fst st = TIdent name \<Longrightarrow> advance ops st = Ok st' \<Longrightarrow>
      parse_member_or_method ops e st = Ok (e', st')"
  shows "reads ops e' (ts @ [TDot, TIdent name])"
  unfolding reads_def
proof (intro allI impI)
  fix st us n m
  assume "stream ops st ((ts @ [TDot, TIdent name]) @ us)" "left_over st < n" "left_over st \<le> m"
  then obtain k st1 where k: "parse_postfix n ops (parse_expression m ops) st =
      postfix_loop k ops (parse_expression m ops) e st1"
    "left_over st1 < k" "left_over st1 < left_over st" "stream ops st1 (TDot # TIdent name # us)"
    using assms(1) unfolding reads_def by fastforce
  obtain st2 where st2: "fst st1 = TDot" "advance ops st1 = Ok st2" "stream ops st2 (TIdent name # us)"
    "left_over st2 < left_over st1" using k(4) by (rule streamD)
  obtain st3 where st3: "fst st2 = TIdent name" "advance ops st2 = Ok st3" "stream ops st3 us"
    "left_over st3 < left_over st2" using st2(3) by (rule streamD)
  obtain j where j: "k = Suc j" using k(2) by (cases k) auto
  have "postfix_loop k ops (parse_expression m ops) e st1 = postfix_loop j ops (parse_expression m ops) e' st3"
    using st2(1,2) assms(2) [OF st3(1,2)] j by simp
  then show "\<exists>k st'. parse_postfix n ops (parse_expression m ops) st =
      postfix_loop k ops (parse_expression m ops) e' st' \<and>
      left_over st' < k \<and> left_over st' < left_over st \<and> stream ops st' us"
    using k st2(4) st3(3,4) j by (intro exI [of _ j] exI [of _ st3]) auto
qed

lemma reads_subscript:
  assumes "reads ops e ts" "returns ops 9 i us"
  shows "reads ops (Index e i) (ts @ [TLBracket] @ us @ [TRBracket])"
  unfolding reads_def
proof (intro allI impI)
  fix st vs n m
  assume *: "stream ops st ((ts @ [TLBracket] @ us @ [TRBracket]) @ vs)" "left_over st < n" "left_over st \<le> m"
  then obtain k st1 where k: "parse_postfix n ops (parse_expression m ops) st =
      postfix_loop k ops (parse_expression m ops) e st1"
    "left_over st1 < k" "left_over st1 < left_over st" "stream ops st1 (TLBracket # us @ TRBracket # vs)"
    using assms(1) unfolding reads_def by fastforce
  obtain st2 where st2: "fst st1 = TLBracket" "advance ops st1 = Ok st2" "stream ops st2 (us @ TRBracket # vs)"
    "left_over st2 < left_over st1" using k(4) by (rule streamD)
  obtain st3 where st3: "parse_expression m ops st2 = Ok (i, st3)" "left_over st3 < left_over st2"
    "stream ops st3 (TRBracket # vs)"
    by (rule takesE [OF returns_expression [OF assms(2) st2(3), of m]])
      (use k(3) st2(4) *(3) stops_closing(2) [of 9] in auto)
  obtain st4 where st4: "fst st3 = TRBracket" "advance ops st3 = Ok st4" "stream ops st4 vs"
    "left_over st4 < left_over st3" using st3(3) by (rule streamD)
  obtain j where j: "k = Suc j" using k(2) by (cases k) auto
  have "postfix_loop k ops (parse_expression m ops) e st1 =
      postfix_loop j ops (parse_expression m ops) (Index e i) st4"
    using st2(1,2) st3(1) st4(1,2) j by (simp add: expect_def)
  then show "\<exists>k st'. parse_postfix n ops (parse_expression m ops) st =
      postfix_loop k ops (parse_expression m ops) (Index e i) st' \<and>
      left_over st' < k \<and> left_over st' < left_over st \<and> stream ops st' vs"
    using k st2(4) st3(2) st4(3,4) j by (intro exI [of _ j] exI [of _ st4]) auto
qed

lemma reads_paren:
  assumes "returns ops 9 e ts"
  shows "reads ops e ([TLParen] @ ts @ [TRParen])"
  unfolding reads_def
proof (intro allI impI)
  fix st vs n m
  assume *: "stream ops st (([TLParen] @ ts @ [TRParen]) @ vs)" "left_over st < n" "left_over st \<le> m"
  then have "stream ops st (TLParen # ts @ TRParen # vs)" by simp
  then obtain st1 where st1: "fst st = TLParen" "advance ops st = Ok st1" "stream ops st1 (ts @ TRParen # vs)"
    "left_over st1 < left_over st" by (rule streamD)
  obtain st2 where st2: "parse_expression m ops st1 = Ok (e, st2)" "left_over st2 < left_over st1"
    "stream ops st2 (TRParen # vs)"
    by (rule takesE [OF returns_expression [OF assms st1(3), of m]]) (use st1(4) *(3) stops_closing(1) [of 9] in auto)
  obtain st3 where st3: "fst st2 = TRParen" "advance ops st2 = Ok st3" "stream ops st3 vs"
    "left_over st3 < left_over st2" using st2(3) by (rule streamD)
  have "parse_postfix n ops (parse_expression m ops) st = postfix_loop n ops (parse_expression m ops) e st3"
    using st1(1,2) st2(1) st3(1,2) by (simp add: parse_postfix_def parse_primary_def expect_def)
  then show "\<exists>k st'. parse_postfix n ops (parse_expression m ops) st =
      postfix_loop k ops (parse_expression m ops) e st' \<and>
      left_over st' < k \<and> left_over st' < left_over st \<and> stream ops st' vs"
    using st1(4) st2(2) st3(3,4) *(2) by (intro exI [of _ n] exI [of _ st3]) auto
qed

lemma prints_good:
  fixes ops :: "'f std_ops"
  shows "prints k e ts \<Longrightarrow> k \<le> 9 \<and> good ops k e ts"
proof (induction rule: prints.induct)
  case (prints_literal l)
  have "reads ops (Literal l) [literal_token l]"
    by (rule reads_token) (cases l; auto simp: parse_primary_def)+
  then show ?case by (cases l) (simp_all add: starts_plain_def)
next
  case prints_index
  have "reads ops (SpecialVar SpecialIndex) [TIdent ''_index'']"
    by (rule reads_token) (auto simp: parse_primary_def)
  then show ?case by (simp add: starts_plain_def)
next
  case (prints_field name)
  then have "reads ops (FieldRef name) [TIdent name]" by (intro reads_token) (auto simp: parse_primary_def)
  then show ?case by (simp add: starts_plain_def)
next
  case (prints_member p ts name)
  then have "reads ops (FieldRef (p @ ''.'' @ name)) (ts @ [TDot, TIdent name])"
    by (intro reads_dot [of _ "FieldRef p"]) (auto simp: parse_member_or_method_def)
  then show ?case using prints_member.IH by (auto simp: starts_plain_def)
next
  case (prints_element e ts name)
  then have "reads ops (Index e (Literal (LString name))) (ts @ [TDot, TIdent name])"
    by (intro reads_dot [of _ e]) (auto simp: parse_member_or_method_def is_field_ref_def split: expression.splits)
  then show ?case using prints_element.IH by (auto simp: starts_plain_def)
next
  case (prints_method e ts name)
  then have "reads ops (MethodCall e name) (ts @ [TDot, TIdent name])"
    by (intro reads_dot [of _ e]) (auto simp: parse_member_or_method_def)
  then show ?case using prints_method.IH by (auto simp: starts_plain_def)
next
  case (prints_subscript e ts i us)
  then show ?case using reads_subscript [of ops e ts i us] good_returns [of ops 9 i us] by (auto simp: starts_plain_def)
next
  case (prints_parens e ts)
  then show ?case using reads_paren [of ops e ts] good_returns [of ops 9 e ts] by (auto simp: starts_plain_def)
next
  case (prints_unary e ts op)
  then show ?case using chains_unary [of ops e ts op] by simp
next
  case (prints_binary op l ts r us)
  obtain i where i: "strength op = Suc (Suc i)" "i < 8" "(levels ! i) (op_token op :: 'f token) = Some op"
    "\<forall>j<i. (levels ! j) (op_token op :: 'f token) = None" by (rule strength_level)
  have "folds ops i l ts" "returns ops (Suc i) r us"
    using prints_binary.IH good_returns [of ops "Suc i" r us] i(1,2) by auto
  then show ?case using folds_binary [OF i(3,4)] i(1,2) by simp
next
  case (prints_weaker k e ts)
  then show ?case using good_weaker [of ops k e ts] by simp
qed

section \<open>Spelling tokens\<close>

fun fixed_spelling :: "'f token \<Rightarrow> string option" where
  "fixed_spelling (TBoolean b) = Some (if b then ''true'' else ''false'')"
| "fixed_spelling TPlus = Some ''+''" | "fixed_spelling TMinus = Some ''-''"
| "fixed_spelling TStar = Some ''*''" | "fixed_spelling TSlash = Some ''/''"
| "fixed_spelling TPercent = Some ''%''" | "fixed_spelling TEqEq = Some ''==''"
| "fixed_spelling TNotEq = Some ''!=''" | "fixed_spelling TLt = Some ''<''"
| "fixed_spelling TGt = Some ''>''" | "fixed_spelling TLtEq = Some ''<=''"
| "fixed_spelling TGtEq = Some ''>=''" | "fixed_spelling TAnd = Some ''and''"
| "fixed_spelling TOr = Some ''or''" | "fixed_spelling TNot = Some ''not''"
| "fixed_spelling TAmpersand = Some ''&''" | "fixed_spelling TPipe = Some ''|''"
| "fixed_spelling TCaret = Some ''^''" | "fixed_spelling TTilde = Some ''~''"
| "fixed_spelling TShiftLeft = Some ''<<''" | "fixed_spelling TShiftRight = Some ''>>''"
| "fixed_spelling TDot = Some ''.''" | "fixed_spelling TLParen = Some ''(''"
| "fixed_spelling TRParen = Some '')''" | "fixed_spelling TLBracket = Some ''[''"
| "fixed_spelling TRBracket = Some '']''"
| "fixed_spelling _ = None"

definition escape_char :: "char \<Rightarrow> char \<Rightarrow> string" where
  "escape_char q c = (if c = q \<or> c = CHR 0x5C then [CHR 0x5C, c] else [c])"

definition valid_ident :: "string \<Rightarrow> bool" where
  "valid_ident name \<longleftrightarrow> name \<noteq> [] \<and> (is_alphabetic (hd name) \<or> hd name = CHR ''_'') \<and>
    list_all is_ident_char (tl name) \<and> name \<notin> {''true'', ''false'', ''and'', ''or'', ''not''}"

text \<open>A literal number is decimal; a text stands between quotes of either kind, with the quotes of that
  kind and the backslashes in it escaped.\<close>

inductive lexeme :: "'f std_ops \<Rightarrow> 'f token \<Rightarrow> string \<Rightarrow> bool" for ops where
  lexeme_fixed: "fixed_spelling t = Some s \<Longrightarrow> lexeme ops t s"
| lexeme_ident: "valid_ident name \<Longrightarrow> lexeme ops (TIdent name) name"
| lexeme_integer: "unat n < 2 ^ 63 \<Longrightarrow> lexeme ops (TInteger n) (show_nat (unat n))"
| lexeme_float: "a \<noteq> [] \<Longrightarrow> b \<noteq> [] \<Longrightarrow> list_all is_ascii_digit (a @ b) \<Longrightarrow> f_parse ops (a @ ''.'' @ b) = Some f \<Longrightarrow>
    lexeme ops (TFloat f) (a @ ''.'' @ b)"
| lexeme_string: "q = CHR 0x22 \<or> q = CHR 0x27 \<Longrightarrow> lexeme ops (TString s) (q # concat (map (escape_char q) s) @ [q])"

text \<open>Where a token has to be kept apart from the character behind it.\<close>

fun separated :: "'f token \<Rightarrow> char \<Rightarrow> bool" where
  "separated (TInteger n) c \<longleftrightarrow> \<not> is_ident_char c \<and> c \<noteq> CHR ''.''"
| "separated (TFloat f) c \<longleftrightarrow> \<not> is_ident_char c"
| "separated (TIdent name) c \<longleftrightarrow> \<not> is_ident_char c"
| "separated (TBoolean b) c \<longleftrightarrow> \<not> is_ident_char c"
| "separated TAnd c \<longleftrightarrow> \<not> is_ident_char c"
| "separated TOr c \<longleftrightarrow> \<not> is_ident_char c"
| "separated TNot c \<longleftrightarrow> \<not> is_ident_char c"
| "separated TLt c \<longleftrightarrow> c \<noteq> CHR ''<'' \<and> c \<noteq> CHR ''=''"
| "separated TGt c \<longleftrightarrow> c \<noteq> CHR ''>'' \<and> c \<noteq> CHR ''=''"
| "separated _ c \<longleftrightarrow> True"

definition apart :: "'f token \<Rightarrow> string \<Rightarrow> bool" where
  "apart t s \<longleftrightarrow> (case s of [] \<Rightarrow> True | c # _ \<Rightarrow> separated t c)"

text \<open>Texts of a token list: any white space around the tokens, and none needed where they are apart.\<close>

inductive spells :: "'f std_ops \<Rightarrow> 'f token list \<Rightarrow> string \<Rightarrow> bool" for ops where
  spells_end: "list_all is_whitespace ws \<Longrightarrow> spells ops [] ws"
| spells_token: "list_all is_whitespace ws \<Longrightarrow> lexeme ops t s \<Longrightarrow> apart t rest \<Longrightarrow> spells ops ts rest \<Longrightarrow>
    spells ops (t # ts) (ws @ s @ rest)"

section \<open>The lexer finds the tokens\<close>

lemma digit_facts:
  assumes "d < 10"
  shows "is_ascii_digit (digit_char d)" "\<not> is_whitespace (digit_char d)" "single_char (digit_char d) = None"
    "digit_char d \<notin> {CHR ''='', CHR ''!'', CHR ''<'', CHR ''>'', CHR 0x22, CHR 0x27}"
proof -
  have "d \<in> {0, 1, 2, 3, 4, 5, 6, 7, 8, 9}" using assms by auto
  then show "is_ascii_digit (digit_char d)" "\<not> is_whitespace (digit_char d)" "single_char (digit_char d) = None"
    "digit_char d \<notin> {CHR ''='', CHR ''!'', CHR ''<'', CHR ''>'', CHR 0x22, CHR 0x27}"
    by (auto simp: digit_char_values is_ascii_digit_def is_whitespace_def code_def single_char_def)
qed

lemma number_tail_digits:
  assumes "\<forall>c\<in>set ds. is_ascii_digit c" "rest = [] \<or> \<not> is_ascii_digit (hd rest) \<and> (dot \<or> hd rest \<noteq> CHR ''.'')"
  shows "number_tail dot (ds @ rest) = (ds, dot, rest)"
  using assms by (induction ds) (cases rest; auto)+

lemma number_tail_point:
  assumes "\<forall>c\<in>set ds. is_ascii_digit c" "\<forall>c\<in>set es. is_ascii_digit c" "es \<noteq> []" "rest = [] \<or> \<not> is_ascii_digit (hd rest)"
  shows "number_tail False (ds @ CHR ''.'' # es @ rest) = (ds @ CHR ''.'' # es, True, rest)"
  using assms(1)
proof (induction ds)
  case Nil
  have dot: "\<not> is_ascii_digit (CHR ''.'')" by (simp add: is_ascii_digit_def code_def)
  obtain e es' where "es = e # es'" using assms(3) by (cases es) auto
  then show ?case using number_tail_digits [OF assms(2), of rest True] assms(2,4) dot by simp
qed simp

lemma digit_not_ident: "is_ascii_digit c \<Longrightarrow> is_ident_char c"
  by (simp add: is_ident_char_def is_alphanumeric_def)

text \<open>A number, from its first digit on.\<close>

lemma next_token_number:
  assumes "is_ascii_digit c"
  shows "next_token ops (c # s) = read_number ops c s"
proof -
  have "c = digit_char (code c - 48)" "code c - 48 < 10"
    using assms by (auto simp: is_ascii_digit_def code_def digit_char_def)
  then obtain d where d: "c = digit_char d" "d < 10" by blast
  note f = digit_facts [OF d(2), folded d(1)]
  show ?thesis using f(4) by (simp add: next_token_def skip_whitespace_def f(1-3))
qed

lemma read_number_decimal:
  assumes "s = [] \<or> is_ascii_digit (hd s) \<or> hd s = CHR ''.'' \<or> \<not> is_ident_char (hd s)"
  shows "read_number ops c s = read_decimal ops c s"
proof (cases s)
  case (Cons p cs)
  have x: "is_ident_char (CHR ''x'')" "is_ident_char (CHR ''X'')" "\<not> is_ascii_digit (CHR ''x'')" "\<not> is_ascii_digit (CHR ''X'')"
    by (simp_all add: is_ident_char_def is_alphanumeric_def is_alphabetic_def is_ascii_digit_def code_def)
  then have "p \<noteq> CHR ''x'' \<and> p \<noteq> CHR ''X''" using assms Cons by auto
  then show ?thesis using Cons by (simp add: read_number_def)
qed (simp add: read_number_def)

lemma lex_integer:
  assumes "unat n < 2 ^ 63" "apart (TInteger n :: 'f token) rest"
  shows "next_token (ops :: 'f std_ops) (show_nat (unat n) @ rest) = Ok (TInteger n, rest)"
proof -
  obtain c cs where c: "show_nat (unat n) = c # cs" using show_nat_nonempty by (cases "show_nat (unat n)") auto
  have "\<forall>x\<in>set (c # cs). \<exists>d<10. x = digit_char d" using show_nat_digits [of _ "unat n"] c by auto
  then have ds: "\<forall>x\<in>set cs. is_ascii_digit x" and d: "is_ascii_digit c" using digit_facts(1) by auto
  have r: "rest = [] \<or> \<not> is_ascii_digit (hd rest) \<and> hd rest \<noteq> CHR ''.'' \<and> \<not> is_ident_char (hd rest)"
    using assms(2) digit_not_ident by (cases rest) (auto simp: apart_def)
  have "digits_val 0 (c # cs) = Some (unat n)" using digits_val_show_nat [of "unat n"] c by metis
  then have "i64_of_digits (digits_val 0 (c # cs)) = Some n"
    using assms by (simp add: i64_of_digits_def del: digits_val.simps)
  moreover have "number_tail False (cs @ rest) = (cs, False, rest)" by (rule number_tail_digits [OF ds]) (use r in auto)
  ultimately have "read_decimal ops c (cs @ rest) = Ok (TInteger n, rest)" by (simp add: read_decimal_def)
  moreover have "read_number ops c (cs @ rest) = read_decimal ops c (cs @ rest)"
    by (rule read_number_decimal) (use r ds in \<open>cases cs; auto\<close>)
  ultimately show ?thesis using next_token_number [OF d, of ops] by (simp add: c)
qed

lemma lex_float:
  assumes "a \<noteq> []" "b \<noteq> []" "list_all is_ascii_digit (a @ b)" "f_parse ops (a @ ''.'' @ b) = Some f"
    and "apart (TFloat f) rest"
  shows "next_token ops ((a @ ''.'' @ b) @ rest) = Ok (TFloat f, rest)"
proof -
  obtain c cs where c: "a = c # cs" using assms(1) by (cases a) auto
  have ds: "\<forall>x\<in>set cs. is_ascii_digit x" "\<forall>x\<in>set b. is_ascii_digit x" "is_ascii_digit c"
    using assms(3) by (auto simp: c list_all_iff)
  have r: "rest = [] \<or> \<not> is_ascii_digit (hd rest)"
    using assms(5) digit_not_ident by (cases rest) (auto simp: apart_def)
  have "read_decimal ops c (cs @ CHR ''.'' # b @ rest) = Ok (TFloat f, rest)"
    using number_tail_point [OF ds(1,2) assms(2) r] assms(4) by (simp add: read_decimal_def c)
  moreover have "read_number ops c (cs @ CHR ''.'' # b @ rest) = read_decimal ops c (cs @ CHR ''.'' # b @ rest)"
    by (rule read_number_decimal) (use ds in \<open>cases cs; auto\<close>)
  ultimately show ?thesis using next_token_number [OF ds(3), of ops] by (simp add: c)
qed

lemma ident_start_facts:
  assumes "is_alphabetic c \<or> c = CHR ''_''"
  shows "\<not> is_whitespace c" "single_char c = None" "\<not> is_ascii_digit c"
    "c \<notin> {CHR ''='', CHR ''!'', CHR ''<'', CHR ''>'', CHR 0x22, CHR 0x27}"
proof -
  show "\<not> is_whitespace c" "\<not> is_ascii_digit c"
    "c \<notin> {CHR ''='', CHR ''!'', CHR ''<'', CHR ''>'', CHR 0x22, CHR 0x27}"
    using assms by (auto simp: is_whitespace_def is_alphabetic_def is_ascii_digit_def code_def)
  show "single_char c = None"
  proof (rule ccontr)
    assume "single_char c \<noteq> None"
    then have "c \<in> set (''+-*/%.()[]&|^~'')" by (auto simp: single_char_def split: if_splits)
    then show False using assms by (auto simp: is_alphabetic_def code_def)
  qed
qed

lemma lex_word:
  assumes "w \<noteq> []" "is_alphabetic (hd w) \<or> hd w = CHR ''_''" "list_all is_ident_char (tl w)"
    and "rest = [] \<or> \<not> is_ident_char (hd rest)"
  shows "next_token ops (w @ rest) = Ok (keyword_or_ident w, rest)"
proof -
  obtain c cs where w: "w = c # cs" using assms(1) by (cases w) auto
  have "takeWhile is_ident_char (cs @ rest) = cs" "dropWhile is_ident_char (cs @ rest) = rest"
    using assms(3,4) w by (cases rest; auto simp: list_all_iff takeWhile_append dropWhile_append)+
  then have ident: "read_identifier c (cs @ rest) = (keyword_or_ident w, rest)"
    by (simp add: read_identifier_def w)
  have c: "is_alphabetic c \<or> c = CHR ''_''" using assms(2) w by simp
  note f = ident_start_facts [OF c]
  have "skip_whitespace (w @ rest) = c # cs @ rest"
    using f(1) by (simp add: skip_whitespace_def w)
  then show ?thesis using c f(4) ident by (simp add: next_token_def f(2,3))
qed

lemma keyword_chars:
  "w \<in> {''true'', ''false'', ''and'', ''or'', ''not''} \<Longrightarrow>
    w \<noteq> [] \<and> (is_alphabetic (hd w) \<or> hd w = CHR ''_'') \<and> list_all is_ident_char (tl w)"
  by (auto simp: is_alphabetic_def is_ident_char_def is_alphanumeric_def code_def)

lemma apart_word:
  "apart t rest \<Longrightarrow> (\<And>c. separated t c \<longleftrightarrow> \<not> is_ident_char c) \<Longrightarrow> rest = [] \<or> \<not> is_ident_char (hd rest)"
  by (cases rest) (auto simp: apart_def)

lemma read_string_escaped:
  "q = CHR 0x22 \<or> q = CHR 0x27 \<Longrightarrow> read_string q acc (concat (map (escape_char q) s) @ q # rest) = Ok (TString (acc @ s), rest)"
  by (induction s arbitrary: acc) (auto simp: escape_char_def unescape_def)

lemma lex_fixed:
  assumes "fixed_spelling t = Some s" "apart t rest"
  shows "next_token ops (s @ rest) = Ok (t, rest)"
proof -
  have word: "next_token ops (s @ rest) = Ok (t, rest)"
    if "s \<in> {''true'', ''false'', ''and'', ''or'', ''not''}" "keyword_or_ident s = t"
      "\<And>c. separated t c \<longleftrightarrow> \<not> is_ident_char c"
    using lex_word [of s rest ops] keyword_chars [OF that(1)] apart_word [OF assms(2) that(3)] that(2) by auto
  show ?thesis
  proof (cases t)
    case (TBoolean b)
    then have sb: "s = (if b then ''true'' else ''false'')" using assms(1) by simp
    show ?thesis
      by (rule word) (simp_all add: sb TBoolean keyword_or_ident_def)
  next
    case TAnd
    then show ?thesis using assms(1) by (intro word) (auto simp: keyword_or_ident_def)
  next
    case TOr
    then show ?thesis using assms(1) by (intro word) (auto simp: keyword_or_ident_def)
  next
    case TNot
    then show ?thesis using assms(1) by (intro word) (auto simp: keyword_or_ident_def)
  qed (insert assms, (cases rest; simp; hypsubst; simp add: next_token_def skip_whitespace_def is_whitespace_def
      code_def single_char_def apart_def)+)
qed

lemma lex_lexeme:
  assumes "lexeme ops t s" "apart t rest"
  shows "next_token ops (s @ rest) = Ok (t, rest)"
  using assms
proof (induction rule: lexeme.induct)
  case (lexeme_fixed t s)
  then show ?case by (intro lex_fixed)
next
  case (lexeme_ident name)
  then show ?case using lex_word [of name rest ops] apart_word [of "TIdent name" rest]
    by (auto simp: valid_ident_def keyword_or_ident_def)
next
  case (lexeme_integer n)
  then show ?case by (intro lex_integer)
next
  case (lexeme_float a b f)
  then show ?case by (intro lex_float)
next
  case (lexeme_string q s)
  have "next_token ops (q # r) = read_string q [] r" for r
    using lexeme_string(1)
    by (elim disjE) (simp_all add: next_token_def skip_whitespace_def is_whitespace_def code_def single_char_def)
  then show ?case using read_string_escaped [OF lexeme_string(1), of "[]" s rest] by simp
qed

lemma lexeme_not_eof: "lexeme ops t s \<Longrightarrow> t \<noteq> TEof"
  by (auto elim: lexeme.cases)

lemma next_token_blank: "list_all is_whitespace ws \<Longrightarrow> next_token ops (ws @ s) = next_token ops s"
  by (induction ws) (simp_all add: next_token_def skip_whitespace_def)

lemma stream_spells: "spells ops ts s \<Longrightarrow> \<exists>st. next_token ops s = Ok st \<and> stream ops st ts"
proof (induction rule: spells.induct)
  case (spells_end ws)
  then show ?case using next_token_blank [of ws ops "[]"] by (simp add: next_token_eof skip_whitespace_def)
next
  case (spells_token ws t s rest ts)
  then obtain st where st: "next_token ops rest = Ok st" "stream ops st ts" by auto
  have "next_token ops (ws @ s @ rest) = Ok (t, rest)"
    using lex_lexeme [OF spells_token(2,3)] next_token_blank [OF spells_token(1), of ops] by simp
  then show ?case using st lexeme_not_eof [OF spells_token(2)]
    by (intro exI [of _ "(t, rest)"]) (auto simp: advance_def)
qed

lemma spells_not_blank: "spells ops (t # ts) s \<Longrightarrow> \<not> list_all is_whitespace s"
proof
  assume s: "spells ops (t # ts) s" and ws: "list_all is_whitespace s"
  obtain st where st: "next_token ops s = Ok st" "stream ops st (t # ts)" using stream_spells [OF s] by blast
  have "next_token ops s = Ok (TEof, [])" using next_token_blank [OF ws, of ops "[]"] by (simp add: next_token_def skip_whitespace_def)
  then show False using st by auto
qed

lemma prints_tokens: "prints k e ts \<Longrightarrow> ts \<noteq> []"
  by (induction rule: prints.induct) auto

lemma parse_spelled:
  assumes "prints 9 e ts" "spells ops ts s"
  shows "parse ops s = Ok e"
proof -
  obtain st where st: "next_token ops s = Ok st" "stream ops st ts"
    using stream_spells [OF assms(2)] by blast
  have lt: "left_over st < length s + 2"
    using next_token_shrinks [of ops s "fst st" "snd st"] st(1) by (auto simp: left_over_def)
  have "returns ops 9 e ts" using prints_good [OF assms(1)] good_returns by blast
  then have "takes ops (parse_expression (length s + 2) ops) e st []"
    using returns_expression [of ops e ts st "[]"] st(2) lt stops_closing(3) by auto
  then obtain st' where "parse_expression (length s + 2) ops st = Ok (e, st')" "stream ops st' []"
    by (rule takesE)
  moreover have "\<not> list_all is_whitespace s"
    using prints_tokens [OF assms(1)] assms(2) spells_not_blank by (cases ts) auto
  ultimately show ?thesis using st(1) by (simp add: parse_def parse_fuel_def parser_new_def)
qed

section \<open>Properties\<close>

text \<open>C10: the expression parser returns a syntax tree or a syntax error on every input string: it
  never loops and its recursion is bounded by the length of the input.\<close>

theorem parse_terminates: "parse ops s \<noteq> Panic \<and> (\<forall>n\<ge>length s + 2. parse_fuel n ops s \<noteq> Panic)"
proof -
  have "parse_fuel n ops s \<noteq> Panic" if "length s + 2 \<le> n" for n
  proof (cases "next_token ops s")
    case (Ok st)
    have "left_over st < n"
      using next_token_shrinks [of ops s "fst st" "snd st"] Ok that by (auto simp: left_over_def)
    then have "parse_expression n ops st \<noteq> Panic"
      using boundedD(1) [OF parse_expression_bounded] by blast
    then show ?thesis using Ok
      by (auto simp: parse_fuel_def parser_new_def and_then_Panic split: if_splits)
  qed (use next_token_total in \<open>auto simp: parse_fuel_def parser_new_def\<close>)
  then show ?thesis by (simp add: parse_def)
qed

lemma parse_terminates_witness:
  "parse_fuel 9 (undefined :: nat std_ops) ''((('' \<noteq> Panic"
proof -
  have "length ''((('' + 2 \<le> (9 :: nat)" by simp
  then show ?thesis using parse_terminates [of "undefined :: nat std_ops" "''(((''"] by blast
qed

text \<open>C11: parsing inverts rendering.  Take an expression and any token list that denotes it in the
  grammar: \<open>*\<close>, \<open>/\<close>, \<open>%\<close> and shifts bind tighter than \<open>+\<close> and \<open>-\<close>, then come \<open>&\<close>, \<open>^\<close>, \<open>|\<close>,
  comparisons, \<open>and\<close> and \<open>or\<close>, all associating to the left and with unary operators before them;
  parentheses stand wherever these levels need them and anywhere else.  Spell the tokens with any
  white space between them, or none where two tokens do not run together.  Then parsing the text gives
  exactly that expression.\<close>

theorem parse_print_roundtrip:
  assumes "prints 9 e ts" "spells ops ts s"
  shows "parse ops s = Ok e"
  using assms by (rule parse_spelled)

lemma parse_print_roundtrip_witness:
  "parse (undefined :: nat std_ops) ''A.B+2*-3 '' =
    Ok (BinaryOp (FieldRef ''A.B'') OpAdd
      (BinaryOp (Literal (LInteger 2)) OpMul (UnaryOp OpNeg (Literal (LInteger 3)))))"
proof -
  let ?ops = "undefined :: nat std_ops"
  have up: "prints j e ts" if "prints k e ts" "k \<le> j" "j \<le> 9" for j k e and ts :: "nat token list"
    using that(2,1,3) by (induction j rule: dec_induct) (auto intro: prints_weaker)
  have field: "prints 0 (FieldRef ''A.B'') [TIdent ''A'', TDot, TIdent ''B'' :: nat token]"
    using prints_member [OF prints_field [of "''A''"], of "''B''"] by (simp add: METHODS_def)
  have neg: "prints 1 (UnaryOp OpNeg (Literal (LInteger 3))) [TMinus, TInteger 3 :: nat token]"
    using prints_unary [OF up [OF prints_literal, of 1 "LInteger 3"], of OpNeg] by simp
  have mul: "prints 2 (BinaryOp (Literal (LInteger 2)) OpMul (UnaryOp OpNeg (Literal (LInteger 3))))
      [TInteger 2, TStar, TMinus, TInteger 3 :: nat token]"
    using prints_binary [of OpMul "Literal (LInteger 2)" "[TInteger 2]"] up [OF prints_literal, of 2 "LInteger 2"] neg
    by simp
  have e: "prints 9 (BinaryOp (FieldRef ''A.B'') OpAdd
        (BinaryOp (Literal (LInteger 2)) OpMul (UnaryOp OpNeg (Literal (LInteger 3)))))
      [TIdent ''A'', TDot, TIdent ''B'', TPlus, TInteger 2, TStar, TMinus, TInteger 3 :: nat token]"
    using up [OF prints_binary [of OpAdd "FieldRef ''A.B''" "[TIdent ''A'', TDot, TIdent ''B'']"], of _ _ 9]
      up [OF field, of 3] mul by simp
  have step: "spells ?ops (t # ts) (s @ rest)" if "lexeme ?ops t s" "apart t rest" "spells ?ops ts rest" for t ts s rest
    using spells_token [of "[]" ?ops t s rest ts] that by simp
  have num: "lexeme ?ops (TInteger 2) ''2''" "lexeme ?ops (TInteger 3) ''3''"
    using lexeme_integer [of 2 ?ops] lexeme_integer [of 3 ?ops] by (simp_all add: show_nat.simps digit_char_values)
  have id: "lexeme ?ops (TIdent ''A'') ''A''" "lexeme ?ops (TIdent ''B'') ''B''"
    by (intro lexeme_ident; simp add: valid_ident_def is_alphabetic_def code_def)+
  have "spells ?ops [TIdent ''A'', TDot, TIdent ''B'', TPlus, TInteger 2, TStar, TMinus, TInteger 3]
      (''A'' @ ''.'' @ ''B'' @ ''+'' @ ''2'' @ ''*'' @ ''-'' @ ''3'' @ '' '')"
    by (intro step num id lexeme_fixed spells_end)
      (simp_all add: apart_def is_ident_char_def is_alphanumeric_def is_alphabetic_def is_ascii_digit_def
        is_whitespace_def code_def)
  then show ?thesis using parse_print_roundtrip [OF e, of ?ops] by simp
qed

end
