(* ===== verification/Expr_Eval.thy ===== *)
theory Expr_Eval
  imports Expr_Parser "HOL-Library.Signed_Division"
begin

text \<open>
  The expression evaluator: \<open>eval.rs\<close>, \<open>ops.rs\<close> and \<open>context.rs\<close> under
  \<open>src/src/parser/expression/\<close>.  The context is a tree of named nodes; a hash map is a
  partial function.  Integer arithmetic is on 64-bit words and wraps as in a release
  build; division and remainder by zero, and of the least integer by minus one, panic, as
  they do in every build, so the evaluator has to check before it divides.
\<close>

unbundle bit_operations_syntax

section \<open>Values and context\<close>

datatype 'f eval_result =
    VInteger "64 word"
  | VFloat 'f
  | VString string
  | VBoolean bool
  | VBytes "byte list"

datatype 'f node =
    Scalar "'f eval_result"
  | MapNode "string \<Rightarrow> 'f eval_result option"
  | ArrayNode "'f node list"
  | StructNode "string \<Rightarrow> 'f node option"

fun as_scalar :: "'f node \<Rightarrow> 'f eval_result option" where
  "as_scalar (Scalar v) = Some v"
| "as_scalar _ = None"

record 'f eval_context =
  ctx_root :: "string \<Rightarrow> 'f node option"
  ctx_index :: "nat option"

definition context_new :: "'f eval_context" where
  "context_new = \<lparr>ctx_root = Map.empty, ctx_index = None\<rparr>"

definition insert_scalar :: "string \<Rightarrow> 'f eval_result \<Rightarrow> 'f eval_context \<Rightarrow> 'f eval_context" where
  "insert_scalar name v c = c\<lparr>ctx_root := (ctx_root c)(name \<mapsto> Scalar v)\<rparr>"

definition insert_node :: "string \<Rightarrow> 'f node \<Rightarrow> 'f eval_context \<Rightarrow> 'f eval_context" where
  "insert_node name nd c = c\<lparr>ctx_root := (ctx_root c)(name \<mapsto> nd)\<rparr>"

definition with_index :: "nat \<Rightarrow> 'f eval_context \<Rightarrow> 'f eval_context" where
  "with_index i c = c\<lparr>ctx_index := Some i\<rparr>"

definition context_get_scalar :: "'f eval_context \<Rightarrow> string \<Rightarrow> 'f eval_result option" where
  "context_get_scalar c name = Option.bind (ctx_root c name) as_scalar"

definition context_contains :: "'f eval_context \<Rightarrow> string \<Rightarrow> bool" where
  "context_contains c name \<longleftrightarrow> ctx_root c name \<noteq> None"

text \<open>The snapshot that nested structures inherit leaves the const maps out.\<close>

definition context_snapshot :: "'f eval_context \<Rightarrow> string \<Rightarrow> 'f node option" where
  "context_snapshot c name =
    (case ctx_root c name of Some (MapNode m) \<Rightarrow> None | other \<Rightarrow> other)"

section \<open>Text of values\<close>

definition show_i64 :: "64 word \<Rightarrow> string" where
  "show_i64 n = (if sint n < 0 then CHR ''-'' # show_nat (nat (- sint n)) else show_nat (nat (sint n)))"

definition show_bool :: "bool \<Rightarrow> string" where
  "show_bool b = (if b then ''true'' else ''false'')"

definition trim :: "string \<Rightarrow> string" where
  "trim s = rev (dropWhile is_whitespace (rev (dropWhile is_whitespace s)))"

definition utf8_len :: "string \<Rightarrow> nat" where
  "utf8_len s = sum_list (map (\<lambda>c. if code c < 128 then 1 else 2) s)"

fun expect_string :: "'f std_ops \<Rightarrow> 'f eval_result \<Rightarrow> (string, expr_error) outcome" where
  "expect_string ops (VString s) = Ok s"
| "expect_string ops (VInteger n) = Ok (show_i64 n)"
| "expect_string ops (VFloat f) = Ok (f_show ops f)"
| "expect_string ops (VBoolean b) = Ok (show_bool b)"
| "expect_string ops (VBytes bs) = Err (TypeError ''[] key'')"

fun expect_integer :: "'f std_ops \<Rightarrow> 'f eval_result \<Rightarrow> (64 word, expr_error) outcome" where
  "expect_integer ops (VInteger n) = Ok n"
| "expect_integer ops (VFloat f) = Ok (f_to_i64 ops f)"
| "expect_integer ops (VString s) = ok_or (TypeError ''[] index'') (parse_i64 (trim s))"
| "expect_integer ops other = Err (TypeError ''[] index'')"

section \<open>Operators\<close>

type_synonym 'f evaluated = "('f eval_result, expr_error) outcome"

fun eval_add :: "'f std_ops \<Rightarrow> 'f eval_result \<Rightarrow> 'f eval_result \<Rightarrow> 'f evaluated" where
  "eval_add ops (VInteger a) (VInteger b) = Ok (VInteger (a + b))"
| "eval_add ops (VFloat a) (VFloat b) = Ok (VFloat (f_add ops a b))"
| "eval_add ops (VInteger a) (VFloat b) = Ok (VFloat (f_add ops (f_of_i64 ops a) b))"
| "eval_add ops (VFloat a) (VInteger b) = Ok (VFloat (f_add ops a (f_of_i64 ops b)))"
| "eval_add ops (VString a) (VString b) = Ok (VString (a @ b))"
| "eval_add ops l r = Err (TypeError ''+'')"

fun eval_sub :: "'f std_ops \<Rightarrow> 'f eval_result \<Rightarrow> 'f eval_result \<Rightarrow> 'f evaluated" where
  "eval_sub ops (VInteger a) (VInteger b) = Ok (VInteger (a - b))"
| "eval_sub ops (VFloat a) (VFloat b) = Ok (VFloat (f_sub ops a b))"
| "eval_sub ops (VInteger a) (VFloat b) = Ok (VFloat (f_sub ops (f_of_i64 ops a) b))"
| "eval_sub ops (VFloat a) (VInteger b) = Ok (VFloat (f_sub ops a (f_of_i64 ops b)))"
| "eval_sub ops l r = Err (TypeError ''-'')"

fun eval_mul :: "'f std_ops \<Rightarrow> 'f eval_result \<Rightarrow> 'f eval_result \<Rightarrow> 'f evaluated" where
  "eval_mul ops (VInteger a) (VInteger b) = Ok (VInteger (a * b))"
| "eval_mul ops (VFloat a) (VFloat b) = Ok (VFloat (f_mul ops a b))"
| "eval_mul ops (VInteger a) (VFloat b) = Ok (VFloat (f_mul ops (f_of_i64 ops a) b))"
| "eval_mul ops (VFloat a) (VInteger b) = Ok (VFloat (f_mul ops a (f_of_i64 ops b)))"
| "eval_mul ops l r = Err (TypeError ''*'')"

definition i64_min :: "64 word" where
  "i64_min = push_bit 63 1"

definition i64_div :: "64 word \<Rightarrow> 64 word \<Rightarrow> (64 word, expr_error) outcome" where
  "i64_div a b =
    (if b = 0 \<or> a = i64_min \<and> b = - 1 then Panic else Ok (word_of_int (sint a sdiv sint b)))"

definition i64_rem :: "64 word \<Rightarrow> 64 word \<Rightarrow> (64 word, expr_error) outcome" where
  "i64_rem a b =
    (if b = 0 \<or> a = i64_min \<and> b = - 1 then Panic else Ok (word_of_int (sint a smod sint b)))"

fun eval_div :: "'f std_ops \<Rightarrow> 'f eval_result \<Rightarrow> 'f eval_result \<Rightarrow> 'f evaluated" where
  "eval_div ops (VInteger a) (VInteger b) =
    (if b = 0 then Err DivisionByZero else map_ok VInteger (i64_div a b))"
| "eval_div ops (VFloat a) (VFloat b) =
    (if f_is_zero ops b then Err DivisionByZero else Ok (VFloat (f_div ops a b)))"
| "eval_div ops (VInteger a) (VFloat b) =
    (if f_is_zero ops b then Err DivisionByZero else Ok (VFloat (f_div ops (f_of_i64 ops a) b)))"
| "eval_div ops (VFloat a) (VInteger b) =
    (if b = 0 then Err DivisionByZero else Ok (VFloat (f_div ops a (f_of_i64 ops b))))"
| "eval_div ops l r = Err (TypeError ''/'')"

fun eval_mod :: "'f std_ops \<Rightarrow> 'f eval_result \<Rightarrow> 'f eval_result \<Rightarrow> 'f evaluated" where
  "eval_mod ops (VInteger a) (VInteger b) =
    (if b = 0 then Err DivisionByZero else map_ok VInteger (i64_rem a b))"
| "eval_mod ops l r = Err (TypeError ''%'')"

definition float_close :: "'f std_ops \<Rightarrow> 'f \<Rightarrow> 'f \<Rightarrow> bool" where
  "float_close ops a b = f_lt ops (f_abs ops (f_sub ops a b)) (f_epsilon ops)"

fun values_equal :: "'f std_ops \<Rightarrow> 'f eval_result \<Rightarrow> 'f eval_result \<Rightarrow> bool" where
  "values_equal ops (VInteger a) (VInteger b) = (a = b)"
| "values_equal ops (VFloat a) (VFloat b) = float_close ops a b"
| "values_equal ops (VInteger a) (VFloat b) = float_close ops (f_of_i64 ops a) b"
| "values_equal ops (VFloat a) (VInteger b) = float_close ops a (f_of_i64 ops b)"
| "values_equal ops (VString a) (VString b) = (a = b)"
| "values_equal ops (VBoolean a) (VBoolean b) = (a = b)"
| "values_equal ops (VBytes a) (VBytes b) = (a = b)"
| "values_equal ops _ _ = False"

fun eval_compare :: "'f std_ops \<Rightarrow> (64 word \<Rightarrow> 64 word \<Rightarrow> bool) \<Rightarrow> ('f \<Rightarrow> 'f \<Rightarrow> bool) \<Rightarrow>
    'f eval_result \<Rightarrow> 'f eval_result \<Rightarrow> 'f evaluated" where
  "eval_compare ops int_cmp float_cmp (VInteger a) (VInteger b) = Ok (VBoolean (int_cmp a b))"
| "eval_compare ops int_cmp float_cmp (VFloat a) (VFloat b) = Ok (VBoolean (float_cmp a b))"
| "eval_compare ops int_cmp float_cmp (VInteger a) (VFloat b) = Ok (VBoolean (float_cmp (f_of_i64 ops a) b))"
| "eval_compare ops int_cmp float_cmp (VFloat a) (VInteger b) = Ok (VBoolean (float_cmp a (f_of_i64 ops b)))"
| "eval_compare ops int_cmp float_cmp l r = Err (TypeError ''comparison'')"

fun eval_logical_and :: "'f eval_result \<Rightarrow> 'f eval_result \<Rightarrow> 'f evaluated" where
  "eval_logical_and (VBoolean a) (VBoolean b) = Ok (VBoolean (a \<and> b))"
| "eval_logical_and l r = Err (TypeError ''and'')"

fun eval_logical_or :: "'f eval_result \<Rightarrow> 'f eval_result \<Rightarrow> 'f evaluated" where
  "eval_logical_or (VBoolean a) (VBoolean b) = Ok (VBoolean (a \<or> b))"
| "eval_logical_or l r = Err (TypeError ''or'')"

fun eval_bitwise_and :: "'f eval_result \<Rightarrow> 'f eval_result \<Rightarrow> 'f evaluated" where
  "eval_bitwise_and (VInteger a) (VInteger b) = Ok (VInteger (a AND b))"
| "eval_bitwise_and l r = Err (TypeError ''&'')"

fun eval_bitwise_or :: "'f eval_result \<Rightarrow> 'f eval_result \<Rightarrow> 'f evaluated" where
  "eval_bitwise_or (VInteger a) (VInteger b) = Ok (VInteger (a OR b))"
| "eval_bitwise_or l r = Err (TypeError ''|'')"

fun eval_bitwise_xor :: "'f eval_result \<Rightarrow> 'f eval_result \<Rightarrow> 'f evaluated" where
  "eval_bitwise_xor (VInteger a) (VInteger b) = Ok (VInteger (a XOR b))"
| "eval_bitwise_xor l r = Err (TypeError ''^'')"

fun eval_shift_left :: "'f eval_result \<Rightarrow> 'f eval_result \<Rightarrow> 'f evaluated" where
  "eval_shift_left (VInteger a) (VInteger b) =
    (if \<not> (0 \<le> sint b \<and> sint b < 64) then Err (TypeError ''<<'')
     else Ok (VInteger (push_bit (nat (sint b)) a)))"
| "eval_shift_left l r = Err (TypeError ''<<'')"

fun eval_shift_right :: "'f eval_result \<Rightarrow> 'f eval_result \<Rightarrow> 'f evaluated" where
  "eval_shift_right (VInteger a) (VInteger b) =
    (if \<not> (0 \<le> sint b \<and> sint b < 64) then Err (TypeError ''>>'')
     else Ok (VInteger (signed_drop_bit (nat (sint b)) a)))"
| "eval_shift_right l r = Err (TypeError ''>>'')"

fun eval_binary_op :: "'f std_ops \<Rightarrow> binary_operator \<Rightarrow> 'f eval_result \<Rightarrow> 'f eval_result \<Rightarrow> 'f evaluated" where
  "eval_binary_op ops OpAdd l r = eval_add ops l r"
| "eval_binary_op ops OpSub l r = eval_sub ops l r"
| "eval_binary_op ops OpMul l r = eval_mul ops l r"
| "eval_binary_op ops OpDiv l r = eval_div ops l r"
| "eval_binary_op ops OpMod l r = eval_mod ops l r"
| "eval_binary_op ops OpEq l r = Ok (VBoolean (values_equal ops l r))"
| "eval_binary_op ops OpNe l r = Ok (VBoolean (\<not> values_equal ops l r))"
| "eval_binary_op ops OpLt l r = eval_compare ops (\<lambda>a b. a <s b) (f_lt ops) l r"
| "eval_binary_op ops OpGt l r = eval_compare ops (\<lambda>a b. b <s a) (\<lambda>a b. f_lt ops b a) l r"
| "eval_binary_op ops OpLe l r = eval_compare ops (\<lambda>a b. a \<le>s b) (f_le ops) l r"
| "eval_binary_op ops OpGe l r = eval_compare ops (\<lambda>a b. b \<le>s a) (\<lambda>a b. f_le ops b a) l r"
| "eval_binary_op ops OpAnd l r = eval_logical_and l r"
| "eval_binary_op ops OpOr l r = eval_logical_or l r"
| "eval_binary_op ops OpBitwiseAnd l r = eval_bitwise_and l r"
| "eval_binary_op ops OpBitwiseOr l r = eval_bitwise_or l r"
| "eval_binary_op ops OpBitwiseXor l r = eval_bitwise_xor l r"
| "eval_binary_op ops OpShiftLeft l r = eval_shift_left l r"
| "eval_binary_op ops OpShiftRight l r = eval_shift_right l r"

fun eval_unary_op :: "'f std_ops \<Rightarrow> unary_operator \<Rightarrow> 'f eval_result \<Rightarrow> 'f evaluated" where
  "eval_unary_op ops OpNot (VBoolean b) = Ok (VBoolean (\<not> b))"
| "eval_unary_op ops OpNot v = Err (TypeError ''not'')"
| "eval_unary_op ops OpNeg (VInteger n) = Ok (VInteger (- n))"
| "eval_unary_op ops OpNeg (VFloat f) = Ok (VFloat (f_neg ops f))"
| "eval_unary_op ops OpNeg v = Err (TypeError ''-'')"
| "eval_unary_op ops OpBitwiseNot (VInteger n) = Ok (VInteger (NOT n))"
| "eval_unary_op ops OpBitwiseNot v = Err (TypeError ''~'')"

definition eval_method_call :: "'f std_ops \<Rightarrow> 'f eval_result \<Rightarrow> string \<Rightarrow> 'f evaluated" where
  "eval_method_call ops v m =
    (if m = ''to_i'' then
       (case v of
         VInteger n \<Rightarrow> Ok (VInteger n)
       | VFloat f \<Rightarrow> Ok (VInteger (f_to_i64 ops f))
       | VString s \<Rightarrow> map_ok VInteger (ok_or (TypeError ''to_i'') (parse_i64 (trim s)))
       | VBoolean b \<Rightarrow> Ok (VInteger (if b then 1 else 0))
       | _ \<Rightarrow> Err (TypeError ''to_i''))
     else if m = ''to_s'' then
       (case v of
         VInteger n \<Rightarrow> Ok (VString (show_i64 n))
       | VFloat f \<Rightarrow> Ok (VString (f_show ops f))
       | VString s \<Rightarrow> Ok (VString s)
       | VBoolean b \<Rightarrow> Ok (VString (show_bool b))
       | VBytes bs \<Rightarrow> Ok (VString (utf8_lossy ops bs)))
     else if m = ''length'' then
       (case v of
         VString s \<Rightarrow> Ok (VInteger (of_nat (utf8_len s)))
       | VBytes bs \<Rightarrow> Ok (VInteger (of_nat (length bs)))
       | _ \<Rightarrow> Err (TypeError ''length''))
     else if m = ''strip'' then
       (case v of
         VString s \<Rightarrow> Ok (VString (trim s))
       | _ \<Rightarrow> Err (TypeError ''strip''))
     else Err SyntaxError)"

section \<open>Evaluation\<close>

fun base_name :: "'f expression \<Rightarrow> string" where
  "base_name (FieldRef name) = name"
| "base_name _ = ''<expr>''"

definition array_element :: "'f node list \<Rightarrow> 64 word \<Rightarrow> 'f expression \<Rightarrow> ('f node, expr_error) outcome" where
  "array_element elems raw base =
    (if 0 \<le> sint raw \<and> nat (sint raw) < length elems then index_at (nat (sint raw)) elems
     else Err (IndexOutOfRange (base_name base) (sint raw) (length elems)))"

fun literal_value :: "'f literal \<Rightarrow> 'f eval_result" where
  "literal_value (LInteger n) = VInteger n"
| "literal_value (LFloat f) = VFloat f"
| "literal_value (LString s) = VString s"
| "literal_value (LBoolean b) = VBoolean b"

definition short_circuit :: "binary_operator \<Rightarrow> 'f eval_result \<Rightarrow> 'f eval_result option" where
  "short_circuit op l =
    (if op = OpAnd \<and> l = VBoolean False then Some (VBoolean False)
     else if op = OpOr \<and> l = VBoolean True then Some (VBoolean True)
     else None)"

fun evaluate :: "'f std_ops \<Rightarrow> 'f expression \<Rightarrow> 'f eval_context \<Rightarrow> 'f evaluated"
and navigate :: "'f std_ops \<Rightarrow> 'f expression \<Rightarrow> 'f eval_context \<Rightarrow> ('f node, expr_error) outcome" where
  "evaluate ops (Literal l) c = Ok (literal_value l)"
| "evaluate ops (FieldRef path) c = ok_or (UnknownFieldRef path) (context_get_scalar c path)"
| "evaluate ops (SpecialVar SpecialIndex) c =
    ok_or (UnknownFieldRef ''_index'') (map_option (\<lambda>i. VInteger (of_nat i)) (ctx_index c))"
| "evaluate ops (BinaryOp left op right) c =
    and_then (evaluate ops left c) (\<lambda>l.
      case short_circuit op l of
        Some v \<Rightarrow> Ok v
      | None \<Rightarrow> and_then (evaluate ops right c) (\<lambda>r. eval_binary_op ops op l r))"
| "evaluate ops (UnaryOp op operand) c =
    and_then (evaluate ops operand c) (\<lambda>v. eval_unary_op ops op v)"
| "evaluate ops (MethodCall target m) c =
    and_then (evaluate ops target c) (\<lambda>v. eval_method_call ops v m)"
| "evaluate ops (Index base index) c =
    and_then (navigate ops base c) (\<lambda>nd.
      case nd of
        MapNode table \<Rightarrow>
          and_then (evaluate ops index c) (\<lambda>v.
          and_then (expect_string ops v) (\<lambda>key.
          ok_or (UnknownKey (base_name base) key) (table key)))
      | ArrayNode elems \<Rightarrow>
          and_then (evaluate ops index c) (\<lambda>v.
          and_then (expect_integer ops v) (\<lambda>raw.
          and_then (array_element elems raw base) (\<lambda>elem.
          ok_or (TypeError ''[]'') (as_scalar elem))))
      | StructNode members \<Rightarrow>
          and_then (evaluate ops index c) (\<lambda>v.
          and_then (expect_string ops v) (\<lambda>key.
          ok_or (UnknownFieldRef key) (Option.bind (members key) as_scalar)))
      | Scalar v \<Rightarrow> Err (TypeError ''[]''))"
| "navigate ops (FieldRef name) c = ok_or (UnknownFieldRef name) (ctx_root c name)"
| "navigate ops (Index inner_base index) c =
    and_then (navigate ops inner_base c) (\<lambda>container.
      case container of
        ArrayNode elems \<Rightarrow>
          and_then (evaluate ops index c) (\<lambda>v.
          and_then (expect_integer ops v) (\<lambda>raw. array_element elems raw inner_base))
      | StructNode members \<Rightarrow>
          and_then (evaluate ops index c) (\<lambda>v.
          and_then (expect_string ops v) (\<lambda>key. ok_or (UnknownFieldRef key) (members key)))
      | _ \<Rightarrow> Err (TypeError ''[]''))"
| "navigate ops other c = Err (TypeError ''[]'')"

definition bind_type_params ::
  "'f std_ops \<Rightarrow> string list \<Rightarrow> 'f expression list \<Rightarrow> 'f eval_context \<Rightarrow>
    ((string \<times> 'f eval_result) list, expr_error) outcome" where
  "bind_type_params ops params args c =
    try_map (\<lambda>(param, arg). map_ok (\<lambda>v. (param, v)) (evaluate ops arg c)) (zip params args)"

section \<open>Panics\<close>

fun subterms :: "'f expression \<Rightarrow> 'f expression set" where
  "subterms (BinaryOp l op r) = insert (BinaryOp l op r) (subterms l \<union> subterms r)"
| "subterms (UnaryOp op e) = insert (UnaryOp op e) (subterms e)"
| "subterms (MethodCall e m) = insert (MethodCall e m) (subterms e)"
| "subterms (Index b i) = insert (Index b i) (subterms b \<union> subterms i)"
| "subterms e = {e}"

definition overflow_division :: "'f std_ops \<Rightarrow> 'f eval_context \<Rightarrow> 'f expression \<Rightarrow> bool" where
  "overflow_division ops c e \<longleftrightarrow> (\<exists>l op r. e = BinaryOp l op r \<and> (op = OpDiv \<or> op = OpMod) \<and>
    evaluate ops l c = Ok (VInteger i64_min) \<and> evaluate ops r c = Ok (VInteger (- 1)))"

lemma eval_add_total: "eval_add ops l r \<noteq> Panic"
  by (induction ops l r rule: eval_add.induct) simp_all

lemma eval_sub_total: "eval_sub ops l r \<noteq> Panic"
  by (induction ops l r rule: eval_sub.induct) simp_all

lemma eval_mul_total: "eval_mul ops l r \<noteq> Panic"
  by (induction ops l r rule: eval_mul.induct) simp_all

lemma eval_compare_total: "eval_compare ops ic fc l r \<noteq> Panic"
  by (induction ops ic fc l r rule: eval_compare.induct) simp_all

lemma eval_logical_total: "eval_logical_and l r \<noteq> Panic" "eval_logical_or l r \<noteq> Panic"
  by (cases l; cases r; simp)+

lemma eval_bitwise_total:
  "eval_bitwise_and l r \<noteq> Panic" "eval_bitwise_or l r \<noteq> Panic" "eval_bitwise_xor l r \<noteq> Panic"
  "eval_shift_left l r \<noteq> Panic" "eval_shift_right l r \<noteq> Panic"
  by (cases l; cases r; simp)+

lemmas operators_total = eval_add_total eval_sub_total eval_mul_total eval_compare_total
  eval_logical_total eval_bitwise_total

lemma eval_div_Panic: "eval_div ops l r = Panic \<Longrightarrow> l = VInteger i64_min \<and> r = VInteger (- 1)"
  by (induction ops l r rule: eval_div.induct) (simp_all add: i64_div_def split: if_splits)

lemma eval_mod_Panic: "eval_mod ops l r = Panic \<Longrightarrow> l = VInteger i64_min \<and> r = VInteger (- 1)"
  by (induction ops l r rule: eval_mod.induct) (simp_all add: i64_rem_def split: if_splits)

lemma eval_binary_op_Panic:
  "eval_binary_op ops op l r = Panic \<Longrightarrow>
    (op = OpDiv \<or> op = OpMod) \<and> l = VInteger i64_min \<and> r = VInteger (- 1)"
  by (cases op) (simp_all add: operators_total eval_div_Panic eval_mod_Panic)

lemma eval_unary_op_total: "eval_unary_op ops op v \<noteq> Panic"
  by (induction ops op v rule: eval_unary_op.induct) simp_all

lemma eval_method_call_total: "eval_method_call ops v m \<noteq> Panic"
  by (cases v) (simp_all add: eval_method_call_def)

lemma expect_total_conv [simp]: "expect_string ops v \<noteq> Panic" "expect_integer ops v \<noteq> Panic"
  by (cases v; simp)+

lemma array_element_total [simp]: "array_element elems raw base \<noteq> Panic"
  by (simp add: array_element_def index_at_def)

lemma evaluate_Panic:
  "(evaluate ops e c = Panic \<longrightarrow> (\<exists>d\<in>subterms e. overflow_division ops c d)) \<and>
   (navigate ops e c = Panic \<longrightarrow> (\<exists>d\<in>subterms e. overflow_division ops c d))"
proof (induction e)
  case (BinaryOp l op r)
  show ?case
  proof (intro conjI impI)
    assume p: "evaluate ops (BinaryOp l op r) c = Panic"
    show "\<exists>d\<in>subterms (BinaryOp l op r). overflow_division ops c d"
    proof (cases "evaluate ops l c = Panic \<or> evaluate ops r c = Panic")
      case True
      then show ?thesis using BinaryOp by auto
    next
      case False
      then obtain lv rv where "evaluate ops l c = Ok lv" "evaluate ops r c = Ok rv"
        "eval_binary_op ops op lv rv = Panic"
        using p by (auto simp: and_then_Panic split: option.splits)
      then have "overflow_division ops c (BinaryOp l op r)"
        using eval_binary_op_Panic unfolding overflow_division_def by blast
      then show ?thesis by simp
    qed
  qed simp
next
  case (Index b i)
  have sub: "(evaluate ops b c = Panic \<or> navigate ops b c = Panic \<or> evaluate ops i c = Panic) \<longrightarrow>
      (\<exists>d\<in>subterms (Index b i). overflow_division ops c d)"
    using Index by auto
  have "(evaluate ops (Index b i) c = Panic \<longrightarrow> navigate ops b c = Panic \<or> evaluate ops i c = Panic) \<and>
    (navigate ops (Index b i) c = Panic \<longrightarrow> navigate ops b c = Panic \<or> evaluate ops i c = Panic)"
  proof (cases "navigate ops b c")
    case (Ok nd)
    then show ?thesis by (cases nd) (auto simp: and_then_Panic)
  qed auto
  then show ?case using sub by blast
next
  case (SpecialVar v)
  then show ?case by (cases v) auto
qed (auto simp: and_then_Panic eval_unary_op_total eval_method_call_total)

section \<open>Names an expression reads\<close>

fun field_names :: "'f expression \<Rightarrow> string set" where
  "field_names (FieldRef p) = {p}"
| "field_names (BinaryOp l op r) = field_names l \<union> field_names r"
| "field_names (UnaryOp op e) = field_names e"
| "field_names (MethodCall e m) = field_names e"
| "field_names (Index b i) = field_names b \<union> field_names i"
| "field_names _ = {}"

fun uses_index :: "'f expression \<Rightarrow> bool" where
  "uses_index (SpecialVar v) = True"
| "uses_index (BinaryOp l op r) = (uses_index l \<or> uses_index r)"
| "uses_index (UnaryOp op e) = uses_index e"
| "uses_index (MethodCall e m) = uses_index e"
| "uses_index (Index b i) = (uses_index b \<or> uses_index i)"
| "uses_index _ = False"

lemma evaluate_frame:
  assumes "\<forall>p\<in>field_names e. ctx_root c p = ctx_root d p" "uses_index e \<longrightarrow> ctx_index c = ctx_index d"
  shows "evaluate ops e c = evaluate ops e d \<and> navigate ops e c = navigate ops e d"
  using assms
proof (induction e)
  case (SpecialVar v)
  then show ?case by (cases v) auto
next
  case (Index b i)
  then have "evaluate ops i c = evaluate ops i d" "navigate ops b c = navigate ops b d" by auto
  then show ?case by simp
next
  case (BinaryOp l op r)
  then have "evaluate ops l c = evaluate ops l d" "evaluate ops r c = evaluate ops r d" by auto
  then show ?case by (simp cong: option.case_cong)
qed (auto simp: context_get_scalar_def)

section \<open>Integers\<close>

definition i64_range :: "int \<Rightarrow> bool" where
  "i64_range x \<longleftrightarrow> - (2 ^ 63) \<le> x \<and> x < 2 ^ 63"

lemma sint_i64_range: "i64_range (sint (w :: 64 word))"
  using sint_ge [of w] sint_lt [of w] by (simp add: i64_range_def)

lemma sint_word_of_int_id: "i64_range x \<Longrightarrow> sint (word_of_int x :: 64 word) = x"
  by (simp add: i64_range_def sint_sbintrunc' signed_take_bit_int_eq_self)

lemma sint_eq_iff_range: "i64_range x \<Longrightarrow> sint w = x \<longleftrightarrow> (w :: 64 word) = word_of_int x"
  by (metis sint_word_of_int_id of_int_sint scast_id)

lemma sint_i64_min: "sint i64_min = - (2 ^ 63)"
  by (simp add: i64_min_def)

lemma sdiv_range:
  fixes a b :: "64 word"
  assumes "b \<noteq> 0" "\<not> (a = i64_min \<and> b = - 1)"
  shows "i64_range (sint a sdiv sint b)"
proof -
  have ra: "i64_range (sint a)" by (rule sint_i64_range)
  have b0: "sint b \<noteq> 0" using assms(1) by (metis signed_eq_0_iff)
  have abs: "\<bar>sint a sdiv sint b\<bar> = \<bar>sint a\<bar> div \<bar>sint b\<bar>"
    using b0 by (cases "sint a = 0")
      (simp_all add: signed_divide_int_def abs_mult abs_sgn_eq pos_imp_zdiv_nonneg_iff)
  show ?thesis
  proof (cases "\<bar>sint b\<bar> = 1")
    case True
    then consider "sint b = 1" | "sint b = - 1" by linarith
    then show ?thesis
    proof cases
      case 1
      then show ?thesis using ra by (auto simp: signed_divide_int_def sgn_if i64_range_def)
    next
      case 2
      then have "b = - 1" using sint_eq_iff_range [of "- 1" b] by (simp add: i64_range_def)
      then have "sint a \<noteq> - (2 ^ 63)" using assms(2) sint_i64_min by (metis signed_word_eqI)
      then show ?thesis using ra 2 by (auto simp: signed_divide_int_def sgn_if i64_range_def)
    qed
  next
    case False
    then have "2 \<le> \<bar>sint b\<bar>" using b0 by linarith
    then have "\<bar>sint a\<bar> div \<bar>sint b\<bar> \<le> \<bar>sint a\<bar> div 2" by (intro zdiv_mono2) auto
    also have "\<dots> < 2 ^ 63" using ra by (auto simp: i64_range_def)
    finally have "\<bar>sint a sdiv sint b\<bar> < 2 ^ 63" using abs by simp
    then show ?thesis unfolding i64_range_def by linarith
  qed
qed

lemma smod_range:
  fixes a b :: "64 word"
  assumes "b \<noteq> 0"
  shows "i64_range (sint a smod sint b)"
proof -
  have "sint b \<noteq> 0" using assms by (metis signed_eq_0_iff)
  then have "sint a smod sint b \<in> {- \<bar>sint b\<bar> + 1..\<bar>sint b\<bar> - 1}" by (rule smod_int_range)
  then show ?thesis using sint_i64_range [of b] unfolding i64_range_def by auto
qed

text \<open>Two's complement: the value in the range of \<open>i64\<close> that differs by a multiple of \<open>2 ^ 64\<close>.\<close>

definition wrap_i64 :: "int \<Rightarrow> int" where
  "wrap_i64 x = (x + 2 ^ 63) mod 2 ^ 64 - 2 ^ 63"

lemma wrap_i64_id: "i64_range x \<Longrightarrow> wrap_i64 x = x"
  by (simp add: wrap_i64_def i64_range_def)

lemma signed_take_bit_wrap: "signed_take_bit 63 x = wrap_i64 x"
  by (simp add: wrap_i64_def signed_take_bit_eq_take_bit_shift take_bit_eq_mod)

lemma sint_of_int: "sint (word_of_int x :: 64 word) = wrap_i64 x"
  by (simp add: sint_sbintrunc' signed_take_bit_wrap)

lemma sint_arith:
  "sint (a + b :: 64 word) = wrap_i64 (sint a + sint b)" "sint (a - b :: 64 word) = wrap_i64 (sint a - sint b)"
  "sint (a * b :: 64 word) = wrap_i64 (sint a * sint b)" "sint (- a :: 64 word) = wrap_i64 (- sint a)"
  using sint_of_int [of "sint a + sint b"] sint_of_int [of "sint a - sint b"] sint_of_int [of "sint a * sint b"]
    sint_of_int [of "- sint a"] by simp_all

lemma arithmetic_exact:
  "\<exists>r. eval_binary_op ops OpAdd (VInteger a) (VInteger b) = Ok (VInteger r) \<and> sint r = wrap_i64 (sint a + sint b)"
  "\<exists>r. eval_binary_op ops OpSub (VInteger a) (VInteger b) = Ok (VInteger r) \<and> sint r = wrap_i64 (sint a - sint b)"
  "\<exists>r. eval_binary_op ops OpMul (VInteger a) (VInteger b) = Ok (VInteger r) \<and> sint r = wrap_i64 (sint a * sint b)"
  "\<exists>r. eval_unary_op ops OpNeg (VInteger a) = Ok (VInteger r) \<and> sint r = wrap_i64 (- sint a)"
  by (simp_all add: sint_arith)

lemma division_exact:
  "b \<noteq> 0 \<Longrightarrow> \<not> (a = i64_min \<and> b = - 1) \<Longrightarrow>
    \<exists>q r. eval_binary_op ops OpDiv (VInteger a) (VInteger b) = Ok (VInteger q) \<and> sint q = sint a sdiv sint b \<and>
      eval_binary_op ops OpMod (VInteger a) (VInteger b) = Ok (VInteger r) \<and> sint r = sint a smod sint b"
  "eval_binary_op ops OpDiv (VInteger a) (VInteger 0) = Err DivisionByZero"
  "eval_binary_op ops OpMod (VInteger a) (VInteger 0) = Err DivisionByZero"
  by (auto simp: i64_div_def i64_rem_def sint_word_of_int_id sdiv_range smod_range)

lemma sint_of_amount: "n < 64 \<Longrightarrow> sint (of_nat n :: 64 word) = int n"
  using sint_of_int [of "int n"] by (simp add: wrap_i64_id i64_range_def)

lemma sint_push_bit: "sint (push_bit n a :: 64 word) = wrap_i64 (sint a * 2 ^ n)"
  by (simp add: signed_push_bit_eq signed_take_bit_wrap) (simp add: push_bit_eq_mult)

lemma shifts_exact:
  "n < 64 \<Longrightarrow> \<exists>r. eval_binary_op ops OpShiftLeft (VInteger a) (VInteger (of_nat n)) = Ok (VInteger r) \<and>
      sint r = wrap_i64 (sint a * 2 ^ n)"
  "n < 64 \<Longrightarrow> \<exists>r. eval_binary_op ops OpShiftRight (VInteger a) (VInteger (of_nat n)) = Ok (VInteger r) \<and>
      sint r = sint a div 2 ^ n"
  "\<not> (0 \<le> sint b \<and> sint b < 64) \<Longrightarrow> eval_binary_op ops OpShiftLeft (VInteger a) (VInteger b) = Err (TypeError ''<<'')"
  "\<not> (0 \<le> sint b \<and> sint b < 64) \<Longrightarrow> eval_binary_op ops OpShiftRight (VInteger a) (VInteger b) = Err (TypeError ''>>'')"
  by (auto simp: sint_of_amount sint_push_bit sint_signed_drop_bit_eq drop_bit_eq_div)

lemma bitwise_exact:
  "\<exists>r. eval_binary_op ops OpBitwiseAnd (VInteger a) (VInteger b) = Ok (VInteger r) \<and> (\<forall>k<64. bit r k = (bit a k \<and> bit b k))"
  "\<exists>r. eval_binary_op ops OpBitwiseOr (VInteger a) (VInteger b) = Ok (VInteger r) \<and> (\<forall>k<64. bit r k = (bit a k \<or> bit b k))"
  "\<exists>r. eval_binary_op ops OpBitwiseXor (VInteger a) (VInteger b) = Ok (VInteger r) \<and> (\<forall>k<64. bit r k = (bit a k \<noteq> bit b k))"
  "\<exists>r. eval_unary_op ops OpBitwiseNot (VInteger a) = Ok (VInteger r) \<and> (\<forall>k<64. bit r k = (\<not> bit a k))"
  by (auto simp: bit_simps)

lemma comparisons_exact:
  "eval_binary_op ops OpEq (VInteger a) (VInteger b) = Ok (VBoolean (sint a = sint b))"
  "eval_binary_op ops OpNe (VInteger a) (VInteger b) = Ok (VBoolean (sint a \<noteq> sint b))"
  "eval_binary_op ops OpLt (VInteger a) (VInteger b) = Ok (VBoolean (sint a < sint b))"
  "eval_binary_op ops OpGt (VInteger a) (VInteger b) = Ok (VBoolean (sint a > sint b))"
  "eval_binary_op ops OpLe (VInteger a) (VInteger b) = Ok (VBoolean (sint a \<le> sint b))"
  "eval_binary_op ops OpGe (VInteger a) (VInteger b) = Ok (VBoolean (sint a \<ge> sint b))"
  by (auto simp: word_sless_alt word_sle_eq intro: signed_word_eqI)

section \<open>Decimal text of an integer\<close>

lemma trim_show_i64: "trim (show_i64 n) = show_i64 n"
proof -
  have dig: "\<not> is_whitespace c" if "c \<in> set (show_nat k)" for c k
  proof -
    from show_nat_digits [OF that] obtain d where "d < 10" "c = digit_char d" by blast
    then show ?thesis by (auto simp: is_whitespace_def code_def of_char_digit)
  qed
  have "\<not> is_whitespace (CHR ''-'')" by (simp add: is_whitespace_def code_def)
  then have "\<forall>c\<in>set (show_i64 n). \<not> is_whitespace c" using dig by (auto simp: show_i64_def)
  moreover have "show_i64 n \<noteq> []" by (simp add: show_i64_def)
  moreover have "trim s = s" if "\<forall>c\<in>set s. \<not> is_whitespace c" for s
  proof -
    have "dropWhile is_whitespace s = s" using that by (cases s) auto
    moreover have "dropWhile is_whitespace (rev s) = rev s" using that by (cases "rev s") (auto simp: in_set_conv_decomp)
    ultimately show ?thesis by (simp add: trim_def)
  qed
  ultimately show ?thesis by blast
qed

lemma parse_show_i64: "parse_i64 (show_i64 n) = Some n"
proof (cases "sint n < 0")
  case True
  have "nat (- sint n) \<le> 2 ^ 63" using sint_i64_range [of n] by (auto simp: i64_range_def)
  moreover have "- of_nat (nat (- sint n)) = (of_int (sint n) :: 64 word)"
    using True by (simp add: of_nat_nat)
  ultimately show ?thesis using True
    by (simp add: show_i64_def parse_i64_def digits_val_show_nat)
next
  case False
  have lt: "nat (sint n) < 2 ^ 63" using sint_i64_range [of n] False by (auto simp: i64_range_def)
  have val: "(of_nat (nat (sint n)) :: 64 word) = n" using False by (simp add: of_nat_nat)
  obtain c cs where c: "show_nat (nat (sint n)) = c # cs" by (cases "show_nat (nat (sint n))") auto
  then obtain d where "d < 10" "c = digit_char d" using show_nat_digits [of c "nat (sint n)"] by auto
  then have ne: "c \<noteq> CHR ''+''" "c \<noteq> CHR ''-''"
    using digit_char_not_plus of_char_digit [of d] by (auto simp: digit_char_not_plus)
  have "digits_val 0 (c # cs) = Some (nat (sint n))" using digits_val_show_nat c by metis
  then show ?thesis using False c ne lt val
    by (simp add: show_i64_def parse_i64_def del: digits_val.simps)
qed

section \<open>Properties\<close>

text \<open>C12: evaluation never panics, whatever the expression and the context, except through a
  division or remainder of the least 64-bit integer by minus one somewhere in it.\<close>

theorem evaluate_panic_free:
  assumes "\<not> (\<exists>d\<in>subterms e. overflow_division ops c d)"
  shows "evaluate ops e c \<noteq> Panic"
  using evaluate_Panic [of ops e c] assms by blast

lemma evaluate_panic_free_witness:
  "evaluate (undefined :: nat std_ops) (BinaryOp (Literal (LInteger 7)) OpMod (Literal (LInteger 0))) context_new \<noteq> Panic"
  by (rule evaluate_panic_free) (simp add: overflow_division_def i64_min_def)

text \<open>The value of an expression depends only on the fields it names and, if it uses it,
  the repetition index: inherited or unrelated context entries do not matter.\<close>

theorem evaluate_depends_on_names:
  assumes "\<forall>p\<in>field_names e. ctx_root c p = ctx_root d p" "uses_index e \<longrightarrow> ctx_index c = ctx_index d"
  shows "evaluate ops e c = evaluate ops e d"
  using evaluate_frame [OF assms] by simp

lemma evaluate_depends_on_names_witness:
  "evaluate (undefined :: nat std_ops) (FieldRef ''LEN'') (insert_scalar ''X'' (VInteger 1) (insert_scalar ''LEN'' (VInteger 5) context_new))
    = evaluate undefined (FieldRef ''LEN'') (insert_scalar ''LEN'' (VInteger 5) context_new)"
  by (rule evaluate_depends_on_names) (simp_all add: insert_scalar_def context_new_def)

text \<open>C13: operators on integers compute, in two's complement: sums, differences, products and
  negation wrap to 64 bits and are exact when the result fits; division and remainder truncate
  toward zero, with an error for a zero divisor; a shift to the left multiplies by a power of two
  and wraps, a shift to the right divides by it and rounds down, and shift amounts outside 0 to 63
  are errors; bitwise operators work on each of the 64 bits; comparisons compare the values.\<close>

theorem integer_operators_exact:
  "(\<exists>r. eval_binary_op ops OpAdd (VInteger a) (VInteger b) = Ok (VInteger r) \<and> sint r = wrap_i64 (sint a + sint b)) \<and>
   (\<exists>r. eval_binary_op ops OpSub (VInteger a) (VInteger b) = Ok (VInteger r) \<and> sint r = wrap_i64 (sint a - sint b)) \<and>
   (\<exists>r. eval_binary_op ops OpMul (VInteger a) (VInteger b) = Ok (VInteger r) \<and> sint r = wrap_i64 (sint a * sint b)) \<and>
   (\<exists>r. eval_unary_op ops OpNeg (VInteger a) = Ok (VInteger r) \<and> sint r = wrap_i64 (- sint a)) \<and>
   (\<forall>x. i64_range x \<longrightarrow> wrap_i64 x = x) \<and>
   (b \<noteq> 0 \<and> \<not> (a = i64_min \<and> b = - 1) \<longrightarrow>
      (\<exists>q r. eval_binary_op ops OpDiv (VInteger a) (VInteger b) = Ok (VInteger q) \<and> sint q = sint a sdiv sint b \<and>
        eval_binary_op ops OpMod (VInteger a) (VInteger b) = Ok (VInteger r) \<and> sint r = sint a smod sint b)) \<and>
   eval_binary_op ops OpDiv (VInteger a) (VInteger 0) = Err DivisionByZero \<and>
   eval_binary_op ops OpMod (VInteger a) (VInteger 0) = Err DivisionByZero \<and>
   (\<forall>n<64. \<exists>r. eval_binary_op ops OpShiftLeft (VInteger a) (VInteger (of_nat n)) = Ok (VInteger r) \<and>
      sint r = wrap_i64 (sint a * 2 ^ n)) \<and>
   (\<forall>n<64. \<exists>r. eval_binary_op ops OpShiftRight (VInteger a) (VInteger (of_nat n)) = Ok (VInteger r) \<and>
      sint r = sint a div 2 ^ n) \<and>
   (\<not> (0 \<le> sint b \<and> sint b < 64) \<longrightarrow>
      eval_binary_op ops OpShiftLeft (VInteger a) (VInteger b) = Err (TypeError ''<<'') \<and>
      eval_binary_op ops OpShiftRight (VInteger a) (VInteger b) = Err (TypeError ''>>'')) \<and>
   (\<exists>r. eval_binary_op ops OpBitwiseAnd (VInteger a) (VInteger b) = Ok (VInteger r) \<and>
      (\<forall>k<64. bit r k = (bit a k \<and> bit b k))) \<and>
   (\<exists>r. eval_binary_op ops OpBitwiseOr (VInteger a) (VInteger b) = Ok (VInteger r) \<and>
      (\<forall>k<64. bit r k = (bit a k \<or> bit b k))) \<and>
   (\<exists>r. eval_binary_op ops OpBitwiseXor (VInteger a) (VInteger b) = Ok (VInteger r) \<and>
      (\<forall>k<64. bit r k = (bit a k \<noteq> bit b k))) \<and>
   (\<exists>r. eval_unary_op ops OpBitwiseNot (VInteger a) = Ok (VInteger r) \<and> (\<forall>k<64. bit r k = (\<not> bit a k))) \<and>
   eval_binary_op ops OpEq (VInteger a) (VInteger b) = Ok (VBoolean (sint a = sint b)) \<and>
   eval_binary_op ops OpNe (VInteger a) (VInteger b) = Ok (VBoolean (sint a \<noteq> sint b)) \<and>
   eval_binary_op ops OpLt (VInteger a) (VInteger b) = Ok (VBoolean (sint a < sint b)) \<and>
   eval_binary_op ops OpGt (VInteger a) (VInteger b) = Ok (VBoolean (sint a > sint b)) \<and>
   eval_binary_op ops OpLe (VInteger a) (VInteger b) = Ok (VBoolean (sint a \<le> sint b)) \<and>
   eval_binary_op ops OpGe (VInteger a) (VInteger b) = Ok (VBoolean (sint a \<ge> sint b))"
  by (intro conjI arithmetic_exact division_exact shifts_exact bitwise_exact comparisons_exact
      allI impI wrap_i64_id; (elim conjE)?; assumption?)

lemma integer_operators_exact_witness:
  "\<exists>q r. eval_binary_op (undefined :: nat std_ops) OpDiv (VInteger (- 7)) (VInteger 2) = Ok (VInteger q) \<and>
    sint q = - 3 \<and> eval_binary_op (undefined :: nat std_ops) OpMod (VInteger (- 7)) (VInteger 2) = Ok (VInteger r) \<and>
    sint r = - 1"
  using integer_operators_exact [of "undefined :: nat std_ops" "- 7" 2] by (auto simp: i64_min_def)

text \<open>A subscript on an array node selects the element at the index exactly when it lies in
  the array, and is an index error carrying the requested index and the length otherwise.\<close>

theorem array_subscript:
  assumes "navigate ops base c = Ok (ArrayNode elems)" "evaluate ops index c = Ok (VInteger raw)"
  shows "evaluate ops (Index base index) c =
    (if 0 \<le> sint raw \<and> nat (sint raw) < length elems
     then ok_or (TypeError ''[]'') (as_scalar (elems ! nat (sint raw)))
     else Err (IndexOutOfRange (base_name base) (sint raw) (length elems)))"
  using assms by (simp add: array_element_def index_at_def)

lemma array_subscript_witness:
  "evaluate (undefined :: nat std_ops) (Index (FieldRef ''A'') (Literal (LInteger (- 1))))
      (insert_node ''A'' (ArrayNode [Scalar (VInteger 4)]) context_new) = Err (IndexOutOfRange ''A'' (- 1) 1)"
  using array_subscript [of "undefined :: nat std_ops" "FieldRef ''A''"
      "insert_node ''A'' (ArrayNode [Scalar (VInteger 4)]) context_new" "[Scalar (VInteger 4)]"
      "Literal (LInteger (- 1))" "- 1"]
  by (simp add: insert_node_def context_new_def)

text \<open>Rendering an integer with \<open>to_s\<close> and reading it back with \<open>to_i\<close> is the identity.\<close>

theorem to_s_to_i_roundtrip:
  "and_then (eval_method_call ops (VInteger n) ''to_s'') (\<lambda>v. eval_method_call ops v ''to_i'') = Ok (VInteger n)"
  by (simp add: eval_method_call_def trim_show_i64 parse_show_i64)

end
