(* ===== verification/Bit_Pack.thy ===== *)
theory Bit_Pack
  imports Prelude
begin

text \<open>
  Row-aware packing of samples of one, two or four bits, most significant bits first:
  \<open>src/src/bitpack.rs\<close>.  Sample counts are \<open>u32\<close> values, so no product of two of them
  leaves 64 bits.  The lemmas describe the packed buffer bit by bit, and show that no
  sample is written outside it and that unpacking inverts packing.
\<close>

unbundle bit_operations_syntax

section \<open>Definitions\<close>

definition bytes_per_row :: "nat \<Rightarrow> nat \<Rightarrow> nat" where
  "bytes_per_row bits samples_per_row = div_ceil (samples_per_row * bits) 8"

definition field_mask :: "nat \<Rightarrow> byte" where
  "field_mask bits = push_bit bits 1 - 1"

definition sample_shift :: "nat \<Rightarrow> nat \<Rightarrow> nat" where
  "sample_shift bits col = 8 - bits - (col * bits) mod 8"

definition sample_byte :: "nat \<Rightarrow> nat \<Rightarrow> nat \<Rightarrow> nat \<Rightarrow> nat" where
  "sample_byte bits samples_per_row row col =
    row * bytes_per_row bits samples_per_row + (col * bits) div 8"

definition unpack_sample :: "byte list \<Rightarrow> nat \<Rightarrow> nat \<Rightarrow> nat \<times> nat \<Rightarrow> byte" where
  "unpack_sample packed bits samples_per_row rc =
    (let byte_index = sample_byte bits samples_per_row (fst rc) (snd rc) in
     if byte_index < length packed
     then drop_bit (sample_shift bits (snd rc)) (packed ! byte_index) AND field_mask bits
     else 0)"

definition row_major :: "nat \<Rightarrow> nat \<Rightarrow> (nat \<times> nat) list" where
  "row_major num_rows samples_per_row = List.product [0..<num_rows] [0..<samples_per_row]"

definition unpack_subbyte_msb_first :: "byte list \<Rightarrow> nat \<Rightarrow> nat \<Rightarrow> nat \<Rightarrow> (byte list, codec_error) outcome" where
  "unpack_subbyte_msb_first packed bits samples_per_row num_rows =
    and_then (assert_that (bits \<in> {1, 2, 4})) (\<lambda>_.
      Ok (map (unpack_sample packed bits samples_per_row) (row_major num_rows samples_per_row)))"

definition sample_value :: "byte list \<Rightarrow> nat \<Rightarrow> nat \<Rightarrow> nat \<times> nat \<Rightarrow> byte" where
  "sample_value unpacked bits samples_per_row rc =
    (let i = fst rc * samples_per_row + snd rc
     in (if i < length unpacked then unpacked ! i else 0) AND field_mask bits)"

definition pack_sample :: "byte list \<Rightarrow> nat \<Rightarrow> nat \<Rightarrow> byte list \<Rightarrow> nat \<times> nat \<Rightarrow> (byte list, codec_error) outcome" where
  "pack_sample unpacked bits samples_per_row result rc =
    (let v = sample_value unpacked bits samples_per_row rc in
     if v = 0 then Ok result
     else
       (let byte_index = sample_byte bits samples_per_row (fst rc) (snd rc);
            shift = sample_shift bits (snd rc)
        in and_then (index_at byte_index result) (\<lambda>b.
             set_at byte_index (b OR push_bit shift v) result)))"

definition pack_subbyte_msb_first :: "byte list \<Rightarrow> nat \<Rightarrow> nat \<Rightarrow> nat \<Rightarrow> (byte list, codec_error) outcome" where
  "pack_subbyte_msb_first unpacked bits samples_per_row num_rows =
    and_then (assert_that (bits \<in> {1, 2, 4})) (\<lambda>_.
      try_fold (pack_sample unpacked bits samples_per_row)
        (replicate (bytes_per_row bits samples_per_row * num_rows) 0)
        (row_major num_rows samples_per_row))"

section \<open>Positions of samples\<close>

lemma set_row_major [simp]: "set (row_major m n) = {0..<m} \<times> {0..<n}"
  by (simp add: row_major_def)

lemma length_row_major [simp]: "length (row_major m n) = m * n"
  by (simp add: row_major_def)

lemma nth_row_major: "i < m * n \<Longrightarrow> row_major m n ! i = (i div n, i mod n)"
  by (auto simp: row_major_def product_nth less_mult_imp_div_less)
    (metis gr_implies_not0 mod_less_divisor mult_0_right neq0_conv nth_upt plus_nat.add_0)+

lemma bits_cases: "bits \<in> {1, 2, 4 :: nat} \<Longrightarrow> bits = 1 \<or> bits = 2 \<or> bits = 4"
  by auto

lemma bit_field_mask: "bits \<in> {1, 2, 4} \<Longrightarrow> bit (field_mask bits) i \<longleftrightarrow> i < bits"
proof -
  assume "bits \<in> {1, 2, 4}"
  then have "field_mask bits = mask bits" by (auto simp: field_mask_def mask_eq_exp_minus_1)
  then show ?thesis using \<open>bits \<in> {1, 2, 4}\<close> by (auto simp: bit_mask_iff)
qed

lemma sample_col_byte:
  assumes "bits \<in> {1, 2, 4}" "col < n"
  shows "col * bits div 8 < bytes_per_row bits n"
proof -
  have "col * bits + bits \<le> n * bits" using assms(2) by (metis Suc_leI add.commute mult_Suc mult_le_mono1)
  moreover have "n * bits \<le> bytes_per_row bits n * 8"
    unfolding bytes_per_row_def by (rule div_ceil_mult) simp
  moreover have "0 < bits" using assms(1) by auto
  ultimately have "col * bits < bytes_per_row bits n * 8" by linarith
  then show ?thesis by (simp add: div_less_iff_less_mult mult.commute)
qed

lemma sample_byte_less:
  assumes "bits \<in> {1, 2, 4}" "row < m" "col < n"
  shows "sample_byte bits n row col < bytes_per_row bits n * m"
proof -
  have "sample_byte bits n row col < row * bytes_per_row bits n + bytes_per_row bits n"
    using sample_col_byte [OF assms(1,3)] by (simp add: sample_byte_def)
  also have "\<dots> \<le> m * bytes_per_row bits n"
    using assms(2) by (metis Suc_leI add.commute mult_Suc mult_le_mono1)
  finally show ?thesis by (simp add: mult.commute)
qed

lemma shift_inj:
  fixes bits u v t :: nat
  assumes "bits = 1 \<or> bits = 2 \<or> bits = 4" "u < 8 div bits" "v < 8 div bits"
    and "8 - bits - u * bits \<le> t" "t < 8 - bits - u * bits + bits"
    and "8 - bits - v * bits \<le> t" "t < 8 - bits - v * bits + bits"
  shows "u = v"
  using assms by (elim disjE) simp_all

lemma col_bits_mod:
  fixes bits c :: nat
  assumes "bits \<in> {1, 2, 4}"
  shows "c * bits mod 8 = c mod (8 div bits) * bits"
proof -
  have "(8 div bits) * bits = 8" using assms by auto
  then show ?thesis using mod_mult_mult2 [of c bits "8 div bits"] by simp
qed

lemma sample_shift_bound:
  assumes "bits \<in> {1, 2, 4}"
  shows "sample_shift bits col + bits \<le> 8" "sample_shift bits col = 8 - bits - (col mod (8 div bits)) * bits"
proof -
  show "sample_shift bits col = 8 - bits - (col mod (8 div bits)) * bits"
    by (simp only: sample_shift_def col_bits_mod [OF assms])
  show "sample_shift bits col + bits \<le> 8"
    using bits_cases [OF assms] by (auto simp: sample_shift_def)
qed

text \<open>Two samples that share a bit of the buffer are the same sample.\<close>

lemma sample_position_inj:
  assumes bits: "bits \<in> {1, 2, 4}" and "c < n" "c' < n"
    and byte: "sample_byte bits n r c = sample_byte bits n r' c'"
    and "sample_shift bits c \<le> t" "t < sample_shift bits c + bits"
    and "sample_shift bits c' \<le> t" "t < sample_shift bits c' + bits"
  shows "r = r' \<and> c = c'"
proof -
  let ?rb = "bytes_per_row bits n"
  have lt: "c * bits div 8 < ?rb" "c' * bits div 8 < ?rb"
    using sample_col_byte [OF bits] assms(2,3) by auto
  have "(r * ?rb + c * bits div 8) div ?rb = r" "(r' * ?rb + c' * bits div 8) div ?rb = r'"
    using lt by (simp_all add: div_nat_eqI algebra_simps)
  then have r: "r = r'" using byte by (simp add: sample_byte_def)
  then have k: "c * bits div 8 = c' * bits div 8" using byte by (simp add: sample_byte_def)
  let ?u = "c mod (8 div bits)" and ?v = "c' mod (8 div bits)"
  have "?u < 8 div bits" "?v < 8 div bits" using bits_cases [OF bits] by auto
  then have "?u = ?v"
    using assms(5-8) unfolding sample_shift_bound(2) [OF bits]
    by (rule shift_inj [OF bits_cases [OF bits]])
  moreover have "c * bits mod 8 = ?u * bits" "c' * bits mod 8 = ?v * bits"
    by (rule col_bits_mod [OF bits])+
  ultimately have "c * bits mod 8 = c' * bits mod 8" by simp
  then have "c * bits = c' * bits" using k by (metis div_mult_mod_eq)
  then show ?thesis using r bits by auto
qed

section \<open>The packed buffer bit by bit\<close>

definition holds_sample :: "byte list \<Rightarrow> nat \<Rightarrow> nat \<Rightarrow> nat \<Rightarrow> nat \<Rightarrow> nat \<times> nat \<Rightarrow> bool" where
  "holds_sample u bits n B t rc \<longleftrightarrow> B = sample_byte bits n (fst rc) (snd rc) \<and>
    sample_shift bits (snd rc) \<le> t \<and> bit (sample_value u bits n rc) (t - sample_shift bits (snd rc))"

lemma sample_value_bits: "bits \<in> {1, 2, 4} \<Longrightarrow> bit (sample_value u bits n rc) i \<Longrightarrow> i < bits"
  by (simp add: sample_value_def Let_def bit_and_iff bit_field_mask)

lemma pack_loop:
  assumes bits: "bits \<in> {1, 2, 4}" and rcs: "\<forall>rc\<in>set rcs. fst rc < m \<and> snd rc < n"
    and "length res = bytes_per_row bits n * m"
  shows "\<exists>res'. try_fold (pack_sample u bits n) res rcs = Ok res' \<and> length res' = length res \<and>
    (\<forall>B<length res. \<forall>t<8. bit (res' ! B) t \<longleftrightarrow>
      bit (res ! B) t \<or> (\<exists>rc\<in>set rcs. holds_sample u bits n B t rc))"
  using assms(2,3)
proof (induction rcs arbitrary: res)
  case (Cons rc rcs)
  let ?B = "sample_byte bits n (fst rc) (snd rc)" and ?v = "sample_value u bits n rc"
    and ?sh = "sample_shift bits (snd rc)"
  have B: "?B < length res" using sample_byte_less [OF bits] Cons.prems by simp
  define res1 where "res1 = (if ?v = 0 then res else res[?B := (res ! ?B) OR push_bit ?sh ?v])"
  have step: "pack_sample u bits n res rc = Ok res1"
    using B by (auto simp: pack_sample_def Let_def res1_def index_at_def set_at_def)
  have len: "length res1 = length res" by (simp add: res1_def)
  have bit1: "bit (res1 ! B) t \<longleftrightarrow> bit (res ! B) t \<or> holds_sample u bits n B t rc"
    if "B < length res" "t < 8" for B t
    using that by (cases "B = ?B") (auto simp: res1_def holds_sample_def bit_or_iff bit_push_bit_iff)
  obtain res2 where "try_fold (pack_sample u bits n) res1 rcs = Ok res2" "length res2 = length res1"
    "\<forall>B<length res1. \<forall>t<8. bit (res2 ! B) t \<longleftrightarrow>
      bit (res1 ! B) t \<or> (\<exists>rc\<in>set rcs. holds_sample u bits n B t rc)"
    using Cons.IH [of res1] Cons.prems len by auto
  then show ?case using step len bit1 by auto
qed simp

lemma pack_spec:
  assumes "bits \<in> {1, 2, 4}"
  shows "\<exists>p. pack_subbyte_msb_first u bits n m = Ok p \<and> length p = bytes_per_row bits n * m \<and>
    (\<forall>B<length p. \<forall>t<8. bit (p ! B) t \<longleftrightarrow> (\<exists>rc\<in>{0..<m} \<times> {0..<n}. holds_sample u bits n B t rc))"
proof -
  obtain p where "try_fold (pack_sample u bits n) (replicate (bytes_per_row bits n * m) 0) (row_major m n) = Ok p"
    "length p = bytes_per_row bits n * m"
    "\<forall>B<bytes_per_row bits n * m. \<forall>t<8. bit (p ! B) t \<longleftrightarrow>
      bit (replicate (bytes_per_row bits n * m) (0 :: byte) ! B) t \<or>
      (\<exists>rc\<in>set (row_major m n). holds_sample u bits n B t rc)"
    using pack_loop [OF assms, of "row_major m n" m n "replicate (bytes_per_row bits n * m) 0" u] by auto
  then show ?thesis using assms by (auto simp: pack_subbyte_msb_first_def)
qed

lemma unpack_packed_sample:
  assumes bits: "bits \<in> {1, 2, 4}" and rc: "r < m" "c < n"
    and p: "length p = bytes_per_row bits n * m"
      "\<forall>B<length p. \<forall>t<8. bit (p ! B) t \<longleftrightarrow> (\<exists>rc\<in>{0..<m} \<times> {0..<n}. holds_sample u bits n B t rc)"
  shows "unpack_sample p bits n (r, c) = sample_value u bits n (r, c)"
proof (rule bit_word_eqI)
  fix i
  assume "i < LENGTH(8)"
  let ?B = "sample_byte bits n r c" and ?sh = "sample_shift bits c"
  have B: "?B < length p" using sample_byte_less [OF bits rc] p(1) by simp
  have "bit (unpack_sample p bits n (r, c)) i \<longleftrightarrow> i < bits \<and> bit (p ! ?B) (?sh + i)"
    using B by (auto simp: unpack_sample_def Let_def bit_and_iff bit_drop_bit_eq bit_field_mask [OF bits])
  also have "\<dots> \<longleftrightarrow> bit (sample_value u bits n (r, c)) i"
  proof (cases "i < bits")
    case True
    then have t: "?sh + i < 8" using sample_shift_bound(1) [OF bits, of c] by linarith
    have "bit (p ! ?B) (?sh + i) \<longleftrightarrow> (\<exists>rc\<in>{0..<m} \<times> {0..<n}. holds_sample u bits n ?B (?sh + i) rc)"
      using p(2) B t by blast
    also have "\<dots> \<longleftrightarrow> holds_sample u bits n ?B (?sh + i) (r, c)"
    proof
      assume "\<exists>rc\<in>{0..<m} \<times> {0..<n}. holds_sample u bits n ?B (?sh + i) rc"
      then obtain r' c' where h: "r' < m" "c' < n" "holds_sample u bits n ?B (?sh + i) (r', c')" by auto
      then have "?sh + i < sample_shift bits c' + bits"
        using sample_value_bits [OF bits] by (fastforce simp: holds_sample_def)
      then have "r = r' \<and> c = c'"
        using sample_position_inj [OF bits rc(2) h(2), of r r' "?sh + i"] h(3) True
        by (auto simp: holds_sample_def)
      then show "holds_sample u bits n ?B (?sh + i) (r, c)" using h(3) by simp
    next
      assume "holds_sample u bits n ?B (?sh + i) (r, c)"
      moreover have "(r, c) \<in> {0..<m} \<times> {0..<n}" using rc by simp
      ultimately show "\<exists>rc\<in>{0..<m} \<times> {0..<n}. holds_sample u bits n ?B (?sh + i) rc" by blast
    qed
    finally show ?thesis using True by (simp add: holds_sample_def)
  next
    case False
    then show ?thesis using sample_value_bits [OF bits] by blast
  qed
  finally show "bit (unpack_sample p bits n (r, c)) i \<longleftrightarrow> bit (sample_value u bits n (r, c)) i" .
qed

section \<open>Properties\<close>

text \<open>C14: packing sub-byte samples never writes outside the buffer of
  \<open>ceil(samples * bits / 8)\<close> bytes per row, and unpacking the result gives back every sample
  masked to its width, in row-major order.\<close>

theorem subbyte_roundtrip:
  assumes "bits \<in> {1, 2, 4}" "length u = num_rows * samples"
  shows "\<exists>p. pack_subbyte_msb_first u bits samples num_rows = Ok p \<and>
    length p = div_ceil (samples * bits) 8 * num_rows \<and>
    unpack_subbyte_msb_first p bits samples num_rows = Ok (map (\<lambda>x. x AND field_mask bits) u)"
proof -
  obtain p where p: "pack_subbyte_msb_first u bits samples num_rows = Ok p"
    "length p = bytes_per_row bits samples * num_rows"
    "\<forall>B<length p. \<forall>t<8. bit (p ! B) t \<longleftrightarrow>
      (\<exists>rc\<in>{0..<num_rows} \<times> {0..<samples}. holds_sample u bits samples B t rc)"
    using pack_spec [OF assms(1)] by blast
  have "map (unpack_sample p bits samples) (row_major num_rows samples) = map (\<lambda>x. x AND field_mask bits) u"
  proof (rule nth_equalityI)
    fix i
    assume "i < length (map (unpack_sample p bits samples) (row_major num_rows samples))"
    then have i: "i < num_rows * samples" by simp
    then have rc: "i div samples < num_rows" "i mod samples < samples"
      by (auto simp: less_mult_imp_div_less) (metis gr_implies_not0 mod_less_divisor mult_0_right neq0_conv)
    have "i div samples * samples + i mod samples = i" by simp
    then show "map (unpack_sample p bits samples) (row_major num_rows samples) ! i =
        map (\<lambda>x. x AND field_mask bits) u ! i"
      using i rc unpack_packed_sample [OF assms(1) rc p(2,3)] assms(2)
      by (simp add: nth_row_major sample_value_def)
  qed (use assms(2) in simp)
  then show ?thesis using p assms(1) by (simp add: unpack_subbyte_msb_first_def bytes_per_row_def)
qed

lemma subbyte_roundtrip_witness:
  "\<exists>p. pack_subbyte_msb_first [1, 2, 3, 3, 0, 5] 2 3 2 = Ok p \<and> length p = 2 \<and>
    unpack_subbyte_msb_first p 2 3 2 = Ok [1, 2, 3, 3, 0, 1]"
  using subbyte_roundtrip [of 2 "[1, 2, 3, 3, 0, 5]" 2 3] by (simp add: div_ceil_def field_mask_def)

end
