(* ===== verification/Block_Mask.thy ===== *)
theory Block_Mask
  imports Prelude
begin

text \<open>
  The image data mask table of masked NITF images: \<open>src/src/jbp/image/mask.rs\<close>.  The
  \<open>u32\<close> products of block counts and block indices wrap at 32 bits, as in a release
  build.  The lemmas give the layout of a written table, its round trip through the
  parser, the malformed inputs that make the parser index outside its data, and the
  presence test for tables built from a set of provided blocks.
\<close>

section \<open>Definitions\<close>

datatype interleave_mode = ModeB | ModeP | ModeR | ModeS

definition EMPTY_BLOCK_OFFSET :: nat where
  "EMPTY_BLOCK_OFFSET = 0xFFFFFFFF"

record image_data_mask =
  image_data_offset :: nat
  block_mask_record_length :: nat
  pad_pixel_mask_record_length :: nat
  pad_pixel_code_length :: nat
  pad_pixel_code :: "nat option"
  block_offsets :: "nat list"
  pad_pixel_offsets :: "nat list"

text \<open>A big-endian number at an offset, indexing out of range being a panic.\<close>

definition read_be :: "nat \<Rightarrow> nat \<Rightarrow> byte list \<Rightarrow> (nat, codec_error) outcome" where
  "read_be offset n d = map_ok be_val (slice offset (offset + n) d)"

definition parse_pad_code :: "byte list \<Rightarrow> nat \<Rightarrow> nat \<Rightarrow> (nat option \<times> nat, codec_error) outcome" where
  "parse_pad_code d offset code_len =
    (if code_len > 0 then
       (let n = div_ceil code_len 8 in
        if length d < offset + n then Err ParseError
        else and_then (slice offset (offset + n) d) (\<lambda>bs.
          Ok (Some (foldl (\<lambda>v b. (v * 256) mod 2 ^ 32 + unat b) 0 bs), offset + n)))
     else Ok (None, offset))"

definition parse_records :: "byte list \<Rightarrow> nat \<Rightarrow> nat \<Rightarrow> nat \<Rightarrow> (nat list \<times> nat, codec_error) outcome" where
  "parse_records d offset record_size num_records =
    (if record_size > 0 then
       (let table_len = num_records * record_size in
        if length d < offset + table_len then Err ParseError
        else map_ok (\<lambda>xs. (xs, offset + table_len))
          (try_map (\<lambda>i. read_be (offset + i * record_size) 4 d) [0..<num_records]))
     else Ok ([], offset))"

definition mask_record_count :: "nat \<Rightarrow> nat \<Rightarrow> interleave_mode \<Rightarrow> nat" where
  "mask_record_count num_blocks num_bands imode =
    (if imode = ModeS then mul32 num_blocks num_bands else num_blocks)"

definition mask_parse :: "byte list \<Rightarrow> nat \<Rightarrow> nat \<Rightarrow> interleave_mode \<Rightarrow> (image_data_mask \<times> nat, codec_error) outcome" where
  "mask_parse d num_blocks num_bands imode =
    (if length d < 10 then Err ParseError
     else
       and_then (read_be 0 4 d) (\<lambda>imdatoff.
       and_then (read_be 4 2 d) (\<lambda>bmr.
       and_then (read_be 6 2 d) (\<lambda>tmr.
       and_then (read_be 8 2 d) (\<lambda>tpxcdlnth.
       and_then (parse_pad_code d 10 tpxcdlnth) (\<lambda>(code, offset).
       let num = mask_record_count num_blocks num_bands imode in
       and_then (parse_records d offset bmr num) (\<lambda>(blocks, offset1).
       and_then (parse_records d offset1 tmr num) (\<lambda>(pads, offset2).
       Ok (\<lparr>image_data_offset = imdatoff, block_mask_record_length = bmr,
            pad_pixel_mask_record_length = tmr, pad_pixel_code_length = tpxcdlnth,
            pad_pixel_code = code, block_offsets = blocks, pad_pixel_offsets = pads\<rparr>, offset2)))))))))"

definition mask_to_bytes :: "image_data_mask \<Rightarrow> (byte list, codec_error) outcome" where
  "mask_to_bytes m =
    (let tpxcd_size = (if pad_pixel_code_length m > 0 then div_ceil (pad_pixel_code_length m) 8 else 0);
         table_len = 10 + tpxcd_size + length (block_offsets m) * block_mask_record_length m
           + length (pad_pixel_offsets m) * pad_pixel_mask_record_length m;
         header = be_bytes 4 table_len @ be_bytes 2 (block_mask_record_length m)
           @ be_bytes 2 (pad_pixel_mask_record_length m) @ be_bytes 2 (pad_pixel_code_length m)
     in and_then
         (case pad_pixel_code m of
           Some code \<Rightarrow> slice (sub64 4 (div_ceil (pad_pixel_code_length m) 8)) 4 (be_bytes 4 code)
         | None \<Rightarrow> Ok [])
         (\<lambda>code_bytes.
           Ok (header @ code_bytes @ concat (map (be_bytes 4) (block_offsets m))
             @ concat (map (be_bytes 4) (pad_pixel_offsets m)))))"

definition calculate_block_index :: "nat \<Rightarrow> nat \<Rightarrow> nat \<Rightarrow> nat \<Rightarrow> interleave_mode \<Rightarrow> nat" where
  "calculate_block_index block_row block_col per_row band imode =
    (let block_index = add32 (mul32 block_row per_row) block_col
     in if imode = ModeS then block_index + band else block_index)"

definition has_block :: "image_data_mask \<Rightarrow> nat \<Rightarrow> nat \<Rightarrow> nat \<Rightarrow> nat \<Rightarrow> interleave_mode \<Rightarrow> bool" where
  "has_block m block_row block_col per_row band imode =
    (if block_mask_record_length m = 0 then True
     else
       (let i = calculate_block_index block_row block_col per_row band imode in
        if i \<ge> length (block_offsets m) then False
        else block_offsets m ! i \<noteq> EMPTY_BLOCK_OFFSET))"

definition get_block_offset :: "image_data_mask \<Rightarrow> nat \<Rightarrow> nat \<Rightarrow> nat \<Rightarrow> nat \<Rightarrow> interleave_mode \<Rightarrow> nat option" where
  "get_block_offset m block_row block_col per_row band imode =
    (if block_mask_record_length m = 0 then None
     else
       (let i = calculate_block_index block_row block_col per_row band imode in
        if i \<ge> length (block_offsets m) then None
        else if block_offsets m ! i = EMPTY_BLOCK_OFFSET then None
        else Some (block_offsets m ! i)))"

text \<open>Marking a provided block: one record, or one per band when the bands are stored
  separately.  The set of provided blocks is given in its iteration order.\<close>

definition mark_record :: "nat list \<Rightarrow> nat \<Rightarrow> nat list" where
  "mark_record offs i = (if i < length offs then offs[i := 0] else offs)"

definition mark_block :: "nat \<Rightarrow> nat \<Rightarrow> nat \<Rightarrow> interleave_mode \<Rightarrow> nat list \<Rightarrow> nat \<times> nat \<Rightarrow> nat list" where
  "mark_block per_row per_col num_bands imode offs rc =
    (case rc of (row, col) \<Rightarrow>
      if row < per_col \<and> col < per_row then
        (let block_index = add32 (mul32 row per_row) col in
         if imode = ModeS
         then foldl (\<lambda>o' band. mark_record o' (block_index * num_bands + band)) offs [0..<num_bands]
         else mark_record offs block_index)
      else offs)"

definition from_provided_blocks :: "(nat \<times> nat) list \<Rightarrow> nat \<Rightarrow> nat \<Rightarrow> nat \<Rightarrow> interleave_mode \<Rightarrow> image_data_mask" where
  "from_provided_blocks provided per_row per_col num_bands imode =
    (let num_records = mask_record_count (mul32 per_row per_col) num_bands imode
     in \<lparr>image_data_offset = 0, block_mask_record_length = 4, pad_pixel_mask_record_length = 0,
         pad_pixel_code_length = 0, pad_pixel_code = None,
         block_offsets =
           foldl (mark_block per_row per_col num_bands imode) (replicate num_records EMPTY_BLOCK_OFFSET) provided,
         pad_pixel_offsets = []\<rparr>)"

section \<open>Parsing a written table\<close>

text \<open>Masks the writer is meant for: record lengths zero (no table) or four, as many records
  as the image has, numbers in range, a pad code of at most 32 bits.\<close>

definition mask_wf :: "nat \<Rightarrow> image_data_mask \<Rightarrow> bool" where
  "mask_wf num m \<longleftrightarrow>
    (block_mask_record_length m = 4 \<and> length (block_offsets m) = num \<or>
     block_mask_record_length m = 0 \<and> block_offsets m = []) \<and>
    (pad_pixel_mask_record_length m = 4 \<and> length (pad_pixel_offsets m) = num \<or>
     pad_pixel_mask_record_length m = 0 \<and> pad_pixel_offsets m = []) \<and>
    pad_pixel_code_length m \<le> 32 \<and>
    (case pad_pixel_code m of
      None \<Rightarrow> pad_pixel_code_length m = 0
    | Some code \<Rightarrow> 0 < pad_pixel_code_length m \<and> code < 256 ^ div_ceil (pad_pixel_code_length m) 8) \<and>
    list_all (\<lambda>x. x < 2 ^ 32) (block_offsets m) \<and> list_all (\<lambda>x. x < 2 ^ 32) (pad_pixel_offsets m)"

lemma read_be_append:
  "length pre = offset \<Longrightarrow> v < 256 ^ n \<Longrightarrow> read_be offset n (pre @ be_bytes n v @ rest) = Ok v"
  by (simp add: read_be_def)

lemma read_be_at:
  assumes "take n (drop offset d) = be_bytes n v" "v < 256 ^ n" "offset + n \<le> length d"
  shows "read_be offset n d = Ok v"
  using assms by (simp add: read_be_def)

lemma drop_concat_fixed:
  assumes "\<forall>x\<in>set xs. length (f x) = w" "i < length xs"
  shows "take w (drop (i * w) (concat (map f xs) @ rest)) = f (xs ! i)"
  using assms
proof (induction xs arbitrary: i)
  case (Cons x xs)
  then show ?case by (cases i) (auto simp: add.commute)
qed simp

lemma length_concat_fixed: "\<forall>x\<in>set xs. length (f x) = w \<Longrightarrow> length (concat (map f xs)) = length xs * w"
  by (induction xs) auto

lemma parse_records_written:
  assumes "list_all (\<lambda>x. x < 2 ^ 32) xs" "length xs = num" "length pre = offset"
  shows "parse_records (pre @ concat (map (be_bytes 4) xs) @ rest) offset 4 num = Ok (xs, offset + num * 4)"
proof -
  let ?d = "pre @ concat (map (be_bytes 4) xs) @ rest"
  have len: "length (concat (map (be_bytes 4) xs)) = num * 4"
    using length_concat_fixed [of xs "be_bytes 4" 4] assms(2) by simp
  have "read_be (offset + i * 4) 4 ?d = Ok (xs ! i)" if "i < num" for i
  proof (rule read_be_at)
    show "take 4 (drop (offset + i * 4) ?d) = be_bytes 4 (xs ! i)"
      using drop_concat_fixed [of xs "be_bytes 4" 4 i rest] that assms(2,3)
      by (simp add: drop_append [of _ pre] add.commute)
    show "xs ! i < 256 ^ 4" using assms(1,2) that by (auto simp: list_all_length)
    show "offset + i * 4 + 4 \<le> length ?d" using len that assms(3) by simp
  qed
  then have "try_map (\<lambda>i. read_be (offset + i * 4) 4 ?d) [0..<num] = Ok (map (\<lambda>i. xs ! i) [0..<num])"
    by (intro try_map_all_Ok) auto
  moreover have "map (\<lambda>i. xs ! i) [0..<num] = xs" using assms(2) map_nth by blast
  ultimately show ?thesis using len assms(3) by (simp add: parse_records_def)
qed

lemma parse_records_none: "parse_records d offset 0 num = Ok ([], offset)"
  by (simp add: parse_records_def)

lemma pad_code_fold:
  assumes "length bs \<le> 4"
  shows "foldl (\<lambda>v b. (v * 256) mod 2 ^ 32 + unat b) 0 bs = be_val bs"
  using assms
proof (induction bs rule: rev_induct)
  case (snoc b bs)
  have "be_val bs < 256 ^ length bs" by (rule be_val_lt)
  also have "(256 :: nat) ^ length bs \<le> 256 ^ 3" using snoc.prems by (intro power_increasing) auto
  finally have "be_val bs * 256 < 2 ^ 32" by simp
  then show ?case using snoc by simp
qed simp

lemma be_bytes_low: "k \<le> n \<Longrightarrow> drop (n - k) (be_bytes n v) = be_bytes k v"
proof (induction n arbitrary: k v)
  case (Suc n)
  show ?case
  proof (cases k)
    case (Suc j)
    then show ?thesis using Suc.IH [of j "v div 256"] Suc.prems by simp
  qed simp
qed simp

definition pad_code_bytes :: "image_data_mask \<Rightarrow> byte list" where
  "pad_code_bytes m =
    (case pad_pixel_code m of
      Some code \<Rightarrow> be_bytes (div_ceil (pad_pixel_code_length m) 8) code
    | None \<Rightarrow> [])"

definition mask_header :: "image_data_mask \<Rightarrow> nat \<Rightarrow> byte list" where
  "mask_header m table_len = be_bytes 4 table_len @ be_bytes 2 (block_mask_record_length m)
     @ be_bytes 2 (pad_pixel_mask_record_length m) @ be_bytes 2 (pad_pixel_code_length m)"

definition mask_size :: "image_data_mask \<Rightarrow> nat" where
  "mask_size m = 10 + length (pad_code_bytes m) + length (block_offsets m) * 4 + length (pad_pixel_offsets m) * 4"

lemma code_size: "pad_pixel_code_length m \<le> 32 \<Longrightarrow> div_ceil (pad_pixel_code_length m) 8 \<le> 4"
  by (rule div_ceil_le) simp_all

lemma mask_to_bytes_layout:
  assumes "mask_wf num m"
  shows "mask_to_bytes m = Ok (mask_header m (mask_size m) @ pad_code_bytes m
    @ concat (map (be_bytes 4) (block_offsets m)) @ concat (map (be_bytes 4) (pad_pixel_offsets m)))"
proof -
  have sizes: "length (block_offsets m) * block_mask_record_length m = length (block_offsets m) * 4"
    "length (pad_pixel_offsets m) * pad_pixel_mask_record_length m = length (pad_pixel_offsets m) * 4"
    using assms by (auto simp: mask_wf_def)
  let ?n = "div_ceil (pad_pixel_code_length m) 8"
  have le: "?n \<le> 4" using assms by (intro code_size) (simp add: mask_wf_def)
  have "sub64 4 ?n = 4 - ?n" using le by (simp add: U64_def)
  then show ?thesis using assms sizes le
    by (auto simp: mask_to_bytes_def mask_header_def mask_size_def pad_code_bytes_def mask_wf_def
        be_bytes_low Let_def split: option.splits)
qed

lemma mask_roundtrip_lemma:
  assumes wf: "mask_wf num m" and num: "mask_record_count num_blocks num_bands imode = num"
    and size: "mask_size m < 2 ^ 32"
  shows "\<exists>bs. mask_to_bytes m = Ok bs \<and> length bs = mask_size m \<and>
    mask_parse (bs @ rest) num_blocks num_bands imode = Ok (m\<lparr>image_data_offset := mask_size m\<rparr>, mask_size m)"
proof -
  let ?code = "pad_code_bytes m" and ?blocks = "concat (map (be_bytes 4) (block_offsets m))"
    and ?pads = "concat (map (be_bytes 4) (pad_pixel_offsets m))" and ?h = "mask_header m (mask_size m)"
  let ?bs = "?h @ ?code @ ?blocks @ ?pads"
  have lens: "length ?h = 10" "length ?blocks = length (block_offsets m) * 4"
    "length ?pads = length (pad_pixel_offsets m) * 4"
    by (simp_all add: mask_header_def length_concat_fixed [of _ _ 4])
  then have len: "length ?bs = mask_size m" by (simp add: mask_size_def)
  have small: "block_mask_record_length m < 256 ^ 2" "pad_pixel_mask_record_length m < 256 ^ 2"
    "pad_pixel_code_length m < 256 ^ 2" "mask_size m < 256 ^ 4"
    using wf size by (auto simp: mask_wf_def)
  let ?d = "?bs @ rest"
  have h: "read_be 0 4 ?d = Ok (mask_size m)" "read_be 4 2 ?d = Ok (block_mask_record_length m)"
    "read_be 6 2 ?d = Ok (pad_pixel_mask_record_length m)" "read_be 8 2 ?d = Ok (pad_pixel_code_length m)"
    using small by (simp_all add: read_be_def mask_header_def)
  have code: "parse_pad_code ?d 10 (pad_pixel_code_length m) = Ok (pad_pixel_code m, 10 + length ?code)"
  proof (cases "pad_pixel_code m")
    case None
    then show ?thesis using wf by (simp add: mask_wf_def parse_pad_code_def pad_code_bytes_def)
  next
    case (Some c)
    let ?n = "div_ceil (pad_pixel_code_length m) 8"
    have c: "0 < pad_pixel_code_length m" "c < 256 ^ ?n" "?n \<le> 4"
      using wf Some code_size by (auto simp: mask_wf_def)
    have "slice 10 (10 + ?n) ?d = Ok (be_bytes ?n c)"
      using lens(1) Some by (simp add: pad_code_bytes_def)
    then show ?thesis using c Some pad_code_fold [of "be_bytes ?n c"]
      by (simp add: parse_pad_code_def pad_code_bytes_def Let_def mask_header_def)
  qed
  have blocks: "parse_records ?d (10 + length ?code) (block_mask_record_length m) num =
      Ok (block_offsets m, 10 + length ?code + length ?blocks)"
  proof (cases "block_mask_record_length m = 0")
    case True
    then show ?thesis using wf by (auto simp: mask_wf_def parse_records_none)
  next
    case False
    then show ?thesis
      using parse_records_written [of "block_offsets m" num "?h @ ?code" "10 + length ?code" "?pads @ rest"]
        wf lens by (auto simp: mask_wf_def)
  qed
  have pads: "parse_records ?d (10 + length ?code + length ?blocks) (pad_pixel_mask_record_length m) num =
      Ok (pad_pixel_offsets m, mask_size m)"
  proof (cases "pad_pixel_mask_record_length m = 0")
    case True
    then show ?thesis using wf lens by (auto simp: mask_wf_def parse_records_none mask_size_def)
  next
    case False
    then show ?thesis
      using parse_records_written [of "pad_pixel_offsets m" num "?h @ ?code @ ?blocks"
          "10 + length ?code + length ?blocks" rest]
        wf lens by (auto simp: mask_wf_def mask_size_def)
  qed
  have "\<not> length ?d < 10" using lens(1) by simp
  then have "mask_parse ?d num_blocks num_bands imode = Ok (m\<lparr>image_data_offset := mask_size m\<rparr>, mask_size m)"
    unfolding mask_parse_def by (simp only: h code blocks pads num if_False and_then.simps Let_def prod.case) simp
  then show ?thesis using mask_to_bytes_layout [OF wf] len by blast
qed

section \<open>Panics of the parser\<close>

lemma read_be_Panic: "read_be offset n d = Panic \<longleftrightarrow> length d < offset + n"
  by (auto simp: read_be_def slice_def)

lemma try_map_Panic: "try_map f xs = Panic \<Longrightarrow> \<exists>x\<in>set xs. f x = Panic"
  by (induction xs) (auto simp: and_then_Panic)

lemma parse_records_Panic:
  assumes "parse_records d offset w num = Panic"
  shows "0 < w \<and> w < 4"
proof (rule ccontr)
  assume c: "\<not> (0 < w \<and> w < 4)"
  with assms obtain i where i: "i < num" "length d < offset + i * w + 4" "offset + num * w \<le> length d" "4 \<le> w"
    by (auto simp: parse_records_def Let_def read_be_Panic split: if_splits dest!: try_map_Panic)
  have "(i + 1) * w \<le> num * w" using i(1) by (intro mult_right_mono) auto
  then show False using i(2-4) by simp
qed

lemma parse_pad_code_total: "parse_pad_code d offset n \<noteq> Panic"
  by (auto simp: parse_pad_code_def Let_def slice_def)

lemma parse_pad_code_offset: "parse_pad_code d offset n = Ok (c, offset') \<Longrightarrow> offset \<le> offset'"
  by (auto simp: parse_pad_code_def Let_def outcome_simps split: if_splits)

lemma mask_parse_Panic:
  assumes "mask_parse d num_blocks num_bands imode = Panic"
  shows "be_val (take 2 (drop 4 d)) \<in> {1, 2, 3} \<or> be_val (take 2 (drop 6 d)) \<in> {1, 2, 3}"
proof -
  have len: "\<not> length d < 10" using assms by (auto simp: mask_parse_def)
  have rd: "read_be 0 4 d = Ok (be_val (take 4 (drop 0 d)))" "read_be 4 2 d = Ok (be_val (take 2 (drop 4 d)))"
    "read_be 6 2 d = Ok (be_val (take 2 (drop 6 d)))" "read_be 8 2 d = Ok (be_val (take 2 (drop 8 d)))"
    using len by (simp_all add: read_be_def)
  have "0 < w \<and> w < 4 \<longleftrightarrow> w \<in> {1, 2, 3}" for w :: nat by auto
  then show ?thesis
    using assms unfolding mask_parse_def rd and_then.simps
    by (auto simp: len and_then_Panic parse_pad_code_total Let_def split: prod.splits
        dest!: parse_records_Panic)
qed

section \<open>Tables of provided blocks\<close>

definition marks :: "nat \<Rightarrow> nat \<Rightarrow> nat \<Rightarrow> interleave_mode \<Rightarrow> nat \<times> nat \<Rightarrow> nat set" where
  "marks per_row per_col num_bands imode rc =
    (if fst rc < per_col \<and> snd rc < per_row then
       (if imode = ModeS
        then {(fst rc * per_row + snd rc) * num_bands..<(fst rc * per_row + snd rc) * num_bands + num_bands}
        else {fst rc * per_row + snd rc})
     else {})"

lemma mark_record_nth:
  "length (mark_record offs i) = length offs"
  "j < length offs \<Longrightarrow> mark_record offs i ! j = (if j = i then 0 else offs ! j)"
  by (auto simp: mark_record_def nth_list_update)

lemma mark_records_nth:
  "length (foldl (\<lambda>o' b. mark_record o' (f b)) offs bs) = length offs \<and>
   (\<forall>j<length offs. foldl (\<lambda>o' b. mark_record o' (f b)) offs bs ! j = (if j \<in> f ` set bs then 0 else offs ! j))"
  by (induction bs arbitrary: offs) (auto simp: mark_record_nth)

lemma block_index_small:
  assumes "per_row * per_col < 2 ^ 32" "row < per_col" "col < per_row"
  shows "add32 (mul32 row per_row) col = row * per_row + col" "row * per_row + col < per_row * per_col"
proof -
  have "(row + 1) * per_row \<le> per_col * per_row" using assms(2) by (intro mult_right_mono) auto
  then have lt: "row * per_row + col < per_row * per_col" using assms(3) by (simp add: mult.commute)
  then have "row * per_row < 2 ^ 32" "row * per_row + col < 2 ^ 32" using assms(1) by linarith+
  then show "add32 (mul32 row per_row) col = row * per_row + col" by (simp add: add32_def mul32_def)
  show "row * per_row + col < per_row * per_col" by (rule lt)
qed

lemma band_indices: "i div n = k \<and> 0 < n \<longleftrightarrow> k * n \<le> i \<and> i < n + k * (n :: nat)"
proof
  assume *: "i div n = k \<and> 0 < n"
  then have "k * n + i mod n = i" using div_mult_mod_eq [of i n] by auto
  moreover have "i mod n < n" using * by simp
  ultimately show "k * n \<le> i \<and> i < n + k * n" by linarith
next
  assume *: "k * n \<le> i \<and> i < n + k * n"
  then have "0 < n" by linarith
  moreover have "i div n = k" by (rule div_nat_eqI) (use * in \<open>auto simp: mult.commute\<close>)
  ultimately show "i div n = k \<and> 0 < n" by simp
qed

lemma mark_block_nth:
  assumes "per_row * per_col < 2 ^ 32"
  shows "length (mark_block per_row per_col nb imode offs rc) = length offs \<and>
    (\<forall>j<length offs. mark_block per_row per_col nb imode offs rc ! j =
      (if j \<in> marks per_row per_col nb imode rc then 0 else offs ! j))"
proof (cases "fst rc < per_col \<and> snd rc < per_row")
  case True
  obtain row col where rc: "rc = (row, col)" by force
  have bi: "add32 (mul32 row per_row) col = row * per_row + col"
    using block_index_small [OF assms] True rc by auto
  show ?thesis
    using True mark_records_nth [of "\<lambda>b. (row * per_row + col) * nb + b" offs "[0..<nb]"]
    by (auto simp: mark_block_def marks_def rc bi Let_def mark_record_nth add.commute)
qed (auto simp: mark_block_def marks_def split: prod.splits)

lemma mark_blocks_nth:
  assumes "per_row * per_col < 2 ^ 32"
  shows "length (foldl (mark_block per_row per_col nb imode) offs rcs) = length offs \<and>
    (\<forall>j<length offs. foldl (mark_block per_row per_col nb imode) offs rcs ! j =
      (if \<exists>rc\<in>set rcs. j \<in> marks per_row per_col nb imode rc then 0 else offs ! j))"
  by (induction rcs arbitrary: offs) (auto simp: mark_block_nth [OF assms])

lemma block_index_inj:
  "c < n \<Longrightarrow> c' < n \<Longrightarrow> r * n + c = r' * n + c' \<Longrightarrow> r = r' \<and> c = (c' :: nat)"
  by (metis add_diff_cancel_left' div_mult_self3 less_nat_zero_code div_less add.right_neutral)

lemma provided_records:
  assumes "per_row * per_col < 2 ^ 32" "row < per_col" "col < per_row"
    and "mask_record_count (per_row * per_col) nb imode = (if imode = ModeS then per_row * per_col * nb else per_row * per_col)"
  shows "imode \<noteq> ModeS \<Longrightarrow> block_offsets (from_provided_blocks prov per_row per_col nb imode) ! (row * per_row + col) =
      (if (row, col) \<in> set prov then 0 else EMPTY_BLOCK_OFFSET)"
    and "imode = ModeS \<Longrightarrow> band < nb \<Longrightarrow>
      block_offsets (from_provided_blocks prov per_row per_col nb imode) ! ((row * per_row + col) * nb + band) =
      (if (row, col) \<in> set prov then 0 else EMPTY_BLOCK_OFFSET)"
proof -
  have m: "mul32 per_row per_col = per_row * per_col" using assms(1) by (simp add: mul32_def)
  note lt = block_index_small(2) [OF assms(1-3)]
  let ?E = "replicate (mask_record_count (per_row * per_col) nb imode) EMPTY_BLOCK_OFFSET"
  have bo: "block_offsets (from_provided_blocks prov per_row per_col nb imode) =
      foldl (mark_block per_row per_col nb imode) ?E prov"
    by (simp add: from_provided_blocks_def Let_def m)
  note nth = mark_blocks_nth [OF assms(1), of nb imode ?E prov]
  have inj: "r * per_row + c = row * per_row + col \<longleftrightarrow> r = row \<and> c = col" if "c < per_row" for r c
    using block_index_inj [OF that assms(3)] by blast
  show "block_offsets (from_provided_blocks prov per_row per_col nb imode) ! (row * per_row + col) =
      (if (row, col) \<in> set prov then 0 else EMPTY_BLOCK_OFFSET)" if ns: "imode \<noteq> ModeS"
  proof -
    have "(\<exists>rc\<in>set prov. row * per_row + col \<in> marks per_row per_col nb imode rc) \<longleftrightarrow> (row, col) \<in> set prov"
    proof
      assume "\<exists>rc\<in>set prov. row * per_row + col \<in> marks per_row per_col nb imode rc"
      then obtain r c where "(r, c) \<in> set prov" "c < per_row" "r * per_row + c = row * per_row + col"
        using ns by (auto simp: marks_def split: if_splits)
      then show "(row, col) \<in> set prov" using inj by auto
    qed (use ns assms(2,3) in \<open>auto simp: marks_def intro!: bexI [of _ "(row, col)"]\<close>)
    then show ?thesis using nth bo lt assms(4) ns by simp
  qed
  show "block_offsets (from_provided_blocks prov per_row per_col nb imode) ! ((row * per_row + col) * nb + band) =
      (if (row, col) \<in> set prov then 0 else EMPTY_BLOCK_OFFSET)" if sep: "imode = ModeS" "band < nb"
  proof -
    let ?i = "(row * per_row + col) * nb + band"
    have i: "?i div nb = row * per_row + col" "0 < nb" using sep(2) by auto
    have "(\<exists>rc\<in>set prov. ?i \<in> marks per_row per_col nb imode rc) \<longleftrightarrow> (row, col) \<in> set prov"
    proof
      assume "\<exists>rc\<in>set prov. ?i \<in> marks per_row per_col nb imode rc"
      then obtain r c where rc: "(r, c) \<in> set prov" "c < per_row"
        "(r * per_row + c) * nb \<le> ?i \<and> ?i < nb + (r * per_row + c) * nb"
        using sep(1) by (auto simp: marks_def add.commute split: if_splits)
      then have "?i div nb = r * per_row + c" using band_indices by blast
      then have "r * per_row + c = row * per_row + col" using i(1) by simp
      then show "(row, col) \<in> set prov" using inj [OF rc(2), of r] rc(1) by simp
    next
      assume "(row, col) \<in> set prov"
      moreover have "?i \<in> marks per_row per_col nb imode (row, col)"
        using sep assms(2,3) by (simp add: marks_def)
      ultimately show "\<exists>rc\<in>set prov. ?i \<in> marks per_row per_col nb imode rc" by blast
    qed
    moreover have "?i < per_row * per_col * nb"
    proof -
      have "?i < (row * per_row + col + 1) * nb" using sep(2) by simp
      also have "\<dots> \<le> per_row * per_col * nb" using lt by (intro mult_right_mono) auto
      finally show ?thesis .
    qed
    ultimately show ?thesis using nth bo assms(4) sep by simp
  qed
qed

lemma length_provided:
  assumes "per_row * per_col < 2 ^ 32"
  shows "length (block_offsets (from_provided_blocks prov per_row per_col nb imode)) =
    mask_record_count (per_row * per_col) nb imode"
  using mark_blocks_nth [OF assms] assms by (simp add: from_provided_blocks_def Let_def mul32_def)

section \<open>Properties\<close>

text \<open>C15: a well-formed mask table is written with its true size as the data offset, and
  parsing the written bytes, with any data after them, gives the table back and stops at
  its end.\<close>

theorem mask_roundtrip:
  assumes "mask_wf (mask_record_count num_blocks num_bands imode) m" "mask_size m < 2 ^ 32"
  shows "\<exists>bs. mask_to_bytes m = Ok bs \<and> length bs = mask_size m \<and>
    mask_parse (bs @ rest) num_blocks num_bands imode = Ok (m\<lparr>image_data_offset := mask_size m\<rparr>, mask_size m)"
  using mask_roundtrip_lemma [OF assms(1) refl assms(2)] .

definition sample_mask :: image_data_mask where
  "sample_mask = \<lparr>image_data_offset = 0, block_mask_record_length = 4, pad_pixel_mask_record_length = 0,
    pad_pixel_code_length = 12, pad_pixel_code = Some 0xABC, block_offsets = [0, EMPTY_BLOCK_OFFSET],
    pad_pixel_offsets = []\<rparr>"

lemma mask_roundtrip_witness:
  "\<exists>bs. mask_to_bytes sample_mask = Ok bs \<and> length bs = 20 \<and>
    mask_parse (bs @ [9]) 2 1 ModeB = Ok (sample_mask\<lparr>image_data_offset := 20\<rparr>, 20)"
proof -
  have "mask_wf (mask_record_count 2 1 ModeB) sample_mask" "mask_size sample_mask = 20"
    by (simp_all add: mask_wf_def mask_record_count_def sample_mask_def div_ceil_def EMPTY_BLOCK_OFFSET_def
        mask_size_def pad_code_bytes_def)
  then show ?thesis using mask_roundtrip [of 2 1 ModeB sample_mask "[9]"] by simp
qed

text \<open>The table parser panics only on a record length of one to three bytes, for which it
  reads four bytes per record after checking fewer; such inputs do make it panic.\<close>

theorem mask_parse_panics:
  "(mask_parse d num_blocks num_bands imode = Panic \<longrightarrow>
     be_val (take 2 (drop 4 d)) \<in> {1, 2, 3} \<or> be_val (take 2 (drop 6 d)) \<in> {1, 2, 3}) \<and>
   mask_parse [0, 0, 0, 12, 0, 1, 0, 0, 0, 0, 7, 7] 2 1 ModeB = Panic"
proof -
  have "mask_parse [0, 0, 0, 12, 0, 1, 0, 0, 0, 0, 7, 7] 2 1 ModeB = Panic"
    by (simp add: mask_parse_def read_be_def be_val_def parse_pad_code_def parse_records_def
        mask_record_count_def Let_def slice_def upt_rec)
  then show ?thesis using mask_parse_Panic by blast
qed

lemma mask_parse_panics_witness:
  "mask_parse [0, 0, 0, 12, 0, 1, 0, 0, 0, 0, 7, 7] 2 1 ModeB = Panic \<and>
    be_val (take 2 (drop 4 [0, 0, 0, 12, 0, 1, 0, 0, 0, 0, 7, 7])) = 1"
  using mask_parse_panics [of "[0, 0, 0, 12, 0, 1, 0, 0, 0, 0, 7, 7]" 2 1 ModeB]
  by (simp add: be_val_def)

text \<open>For images whose bands are not stored separately, a table built from the provided
  blocks answers presence and offset queries exactly by membership in that set.\<close>

theorem provided_blocks_present:
  assumes "per_row * per_col < 2 ^ 32" "row < per_col" "col < per_row" "imode \<noteq> ModeS"
  shows "(has_block (from_provided_blocks prov per_row per_col nb imode) row col per_row band imode
      \<longleftrightarrow> (row, col) \<in> set prov) \<and>
    get_block_offset (from_provided_blocks prov per_row per_col nb imode) row col per_row band imode =
      (if (row, col) \<in> set prov then Some 0 else None)"
proof -
  note bi = block_index_small [OF assms(1-3)]
  have count: "mask_record_count (per_row * per_col) nb imode = per_row * per_col"
    using assms(4) by (simp add: mask_record_count_def)
  have len: "row * per_row + col < length (block_offsets (from_provided_blocks prov per_row per_col nb imode))"
    using length_provided [OF assms(1)] bi(2) count by simp
  have nth: "block_offsets (from_provided_blocks prov per_row per_col nb imode) ! (row * per_row + col) =
      (if (row, col) \<in> set prov then 0 else EMPTY_BLOCK_OFFSET)"
    using provided_records(1) [OF assms(1-3), of nb imode] count assms(4) by simp
  have rl: "block_mask_record_length (from_provided_blocks prov per_row per_col nb imode) = 4"
    by (simp add: from_provided_blocks_def Let_def)
  show ?thesis
    using len nth rl assms(4) bi(1)
    by (simp add: has_block_def get_block_offset_def calculate_block_index_def Let_def EMPTY_BLOCK_OFFSET_def)
qed

lemma provided_blocks_present_witness:
  "has_block (from_provided_blocks [(1, 0)] 2 2 3 ModeP) 1 0 2 0 ModeP \<and>
    \<not> has_block (from_provided_blocks [(1, 0)] 2 2 3 ModeP) 0 1 2 0 ModeP"
  using provided_blocks_present [of 2 2 1 0 ModeP "[(1, 0)]" 3 0]
    provided_blocks_present [of 2 2 0 1 ModeP "[(1, 0)]" 3 0] by simp

text \<open>For band-sequential images the table built from the provided blocks holds the record
  of block \<open>k\<close> and band \<open>b\<close> at index \<open>k * num_bands + b\<close>, but the presence query reads index
  \<open>k + b\<close>: with two bands it reports an absent block as present.\<close>

theorem band_sequential_index_mismatch:
  "(per_row * per_col * nb < 2 ^ 32 \<and> row < per_col \<and> col < per_row \<and> band < nb \<longrightarrow>
      block_offsets (from_provided_blocks prov per_row per_col nb ModeS) ! ((row * per_row + col) * nb + band) =
        (if (row, col) \<in> set prov then 0 else EMPTY_BLOCK_OFFSET)) \<and>
    has_block (from_provided_blocks [(0, 0)] 2 1 2 ModeS) 0 1 2 0 ModeS"
proof
  have "[0..<2] = [0, 1 :: nat]" by (simp add: upt_rec)
  then show "has_block (from_provided_blocks [(0, 0)] 2 1 2 ModeS) 0 1 2 0 ModeS"
    by (simp add: has_block_def from_provided_blocks_def calculate_block_index_def mark_block_def
        mark_record_def mask_record_count_def mul32_def add32_def EMPTY_BLOCK_OFFSET_def Let_def)
  show "per_row * per_col * nb < 2 ^ 32 \<and> row < per_col \<and> col < per_row \<and> band < nb \<longrightarrow>
      block_offsets (from_provided_blocks prov per_row per_col nb ModeS) ! ((row * per_row + col) * nb + band) =
        (if (row, col) \<in> set prov then 0 else EMPTY_BLOCK_OFFSET)"
  proof
    assume *: "per_row * per_col * nb < 2 ^ 32 \<and> row < per_col \<and> col < per_row \<and> band < nb"
    have "per_row * per_col * 1 \<le> per_row * per_col * nb" using * by (intro mult_left_mono) auto
    then have lt: "per_row * per_col < 2 ^ 32" using * by linarith
    then have "mask_record_count (per_row * per_col) nb ModeS = per_row * per_col * nb"
      using * by (simp add: mask_record_count_def mul32_def)
    then show "block_offsets (from_provided_blocks prov per_row per_col nb ModeS) ! ((row * per_row + col) * nb + band) =
        (if (row, col) \<in> set prov then 0 else EMPTY_BLOCK_OFFSET)"
      using provided_records(2) [OF lt, of row col nb ModeS band prov] * by simp
  qed
qed

lemma band_sequential_index_mismatch_witness:
  "block_offsets (from_provided_blocks [(0, 0)] 2 1 2 ModeS) ! 1 = 0 \<and>
    block_offsets (from_provided_blocks [(0, 0)] 2 1 2 ModeS) ! 3 = EMPTY_BLOCK_OFFSET"
  using band_sequential_index_mismatch [of 2 1 2 0 0 1 "[(0, 0)]"]
    band_sequential_index_mismatch [of 2 1 2 0 1 1 "[(0, 0)]"] by simp

end
