(* ===== verification/Copies.thy ===== *)
theory Copies
  imports Prelude
begin

text \<open>
  Loops that fill a buffer by block copies.  The interleave converters, the tile
  assembler and the composite writer all run \<open>dst[d..d + n].copy_from_slice(&src[s..s + n])\<close>
  in nested loops; \<open>copy_block\<close> is one such step and \<open>scatter\<close> the loop rule: when the
  blocks are aligned and no two steps disagree on a block, the loop does not panic and
  every block holds what its step wrote, in whatever order the steps run.
\<close>

section \<open>Definitions\<close>

definition wrap64 :: "nat \<Rightarrow> nat" where
  "wrap64 n = n mod U64"

fun copy_block :: "nat \<Rightarrow> 'a list \<Rightarrow> 'a list \<Rightarrow> nat \<times> nat \<Rightarrow> ('a list, 'e) outcome" where
  "copy_block n src dst (d, s) = and_then (slice s (s + n) src) (\<lambda>bs. blit d bs dst)"

text \<open>The \<open>i\<close>-th block of \<open>n\<close> elements.\<close>

definition sample :: "nat \<Rightarrow> 'a list \<Rightarrow> nat \<Rightarrow> 'a list" where
  "sample n xs i = take n (drop (i * n) xs)"

text \<open>An interleaving of the step lists of several tasks.\<close>

inductive interleaving :: "'a list list \<Rightarrow> 'a list \<Rightarrow> bool" where
  finished: "(\<And>t. t \<in> set ts \<Longrightarrow> t = []) \<Longrightarrow> interleaving ts []"
| one_step: "i < length ts \<Longrightarrow> ts ! i = x # t \<Longrightarrow> interleaving (ts[i := t]) xs \<Longrightarrow> interleaving ts (x # xs)"

section \<open>Lemmas\<close>

lemma wrap64_id [simp]: "n < U64 \<Longrightarrow> wrap64 n = n"
  by (simp add: wrap64_def)

lemma interleaving_set:
  assumes "interleaving ts xs"
  shows "set xs = \<Union> (set ` set ts)"
  using assms
proof (induction rule: interleaving.induct)
  case (one_step i ts x t xs)
  have "\<Union> (set ` set ts) = insert x (\<Union> (set ` set (ts[i := t])))"
  proof -
    have ts: "ts = take i ts @ (x # t) # drop (Suc i) ts"
      using one_step.hyps id_take_nth_drop by metis
    have upd: "ts[i := t] = take i ts @ t # drop (Suc i) ts"
      using one_step.hyps(1) by (rule upd_conv_take_nth_drop)
    show ?thesis by (subst ts, subst upd) auto
  qed
  then show ?case using one_step.IH by simp
qed auto

lemma interleaving_concat: "interleaving ts (concat ts)"
proof (induction "concat ts" arbitrary: ts)
  case Nil
  have c: "concat ts = []" using Nil by simp
  then have "\<And>t. t \<in> set ts \<Longrightarrow> t = []" by (simp add: concat_eq_Nil_conv)
  then show ?case unfolding c by (rule interleaving.finished)
next
  case (Cons x xs)
  define i where "i = length (takeWhile (\<lambda>t. t = []) ts)"
  have "\<exists>t\<in>set ts. t \<noteq> []" using Cons.hyps(2) by (metis concat_eq_Nil_conv list.distinct(1))
  then have "takeWhile (\<lambda>t. t = []) ts \<noteq> ts" by (auto simp: takeWhile_eq_all_conv)
  then have "i \<noteq> length ts" unfolding i_def by (metis takeWhile_eq_take take_all order_refl)
  then have i: "i < length ts" using length_takeWhile_le [of "\<lambda>t. t = []" ts] by (simp add: i_def)
  then have "ts ! i \<noteq> []" unfolding i_def by (rule nth_length_takeWhile)
  then obtain y t where yt: "ts ! i = y # t" by (cases "ts ! i") auto
  have pre: "concat (take i ts) = []"
    unfolding i_def by (metis (mono_tags, lifting) concat_eq_Nil_conv set_takeWhileD takeWhile_eq_take)
  have ts: "ts = take i ts @ (y # t) # drop (Suc i) ts"
    using i yt id_take_nth_drop by metis
  have "concat ts = y # (t @ concat (drop (Suc i) ts))"
    using pre by (subst ts) simp
  moreover have "concat (ts[i := t]) = t @ concat (drop (Suc i) ts)"
    using pre i by (simp add: upd_conv_take_nth_drop)
  ultimately have "x = y" "xs = concat (ts[i := t])" using Cons.hyps(2) by auto
  moreover have "interleaving (ts[i := t]) (concat (ts[i := t]))"
    using calculation Cons.hyps(1) by blast
  ultimately show ?case
    using i yt Cons.hyps(2) by (metis interleaving.one_step)
qed

lemma length_sample [simp]: "(i + 1) * n \<le> length xs \<Longrightarrow> length (sample n xs i) = n"
  by (simp add: sample_def)

lemma sample_sample:
  assumes "col < c"
  shows "sample n (sample (c * n) xs a) col = sample n xs (a * c + col)"
proof -
  have "col * n + n \<le> c * n" using assms by (metis Suc_leI add.commute mult_Suc mult_le_mono1)
  then have "n \<le> c * n - col * n" by simp
  moreover have "col * n + a * (c * n) = (a * c + col) * n" by (simp add: algebra_simps)
  ultimately show ?thesis
    by (simp add: sample_def drop_take min_def)
qed

lemma nth_sample:
  assumes "i < n * m" "length xs = n * m"
  shows "xs ! i = sample n xs (i div n) ! (i mod n)"
proof -
  have "0 < n" using assms(1) by (cases n) auto
  then have "i mod n < n" by simp
  moreover have i: "i div n * n + i mod n = i" by simp
  moreover have "i div n * n \<le> length xs" using i assms by linarith
  ultimately show ?thesis by (simp add: sample_def)
qed

lemma list_eq_samples:
  assumes "length xs = n * m" "length ys = n * m"
    and "\<And>j. j < m \<Longrightarrow> sample n xs j = sample n ys j"
  shows "xs = ys"
proof (rule nth_equalityI)
  fix i
  assume i: "i < length xs"
  then have "i div n < m" using assms(1) by (metis less_mult_imp_div_less mult.commute)
  then show "xs ! i = ys ! i" using i assms nth_sample [of i n m] by metis
qed (use assms in simp)

lemma block_in:
  assumes "p < m"
  shows "p * n + n \<le> m * (n :: nat)"
  using assms by (metis Suc_leI add.commute mult_Suc mult_le_mono1)

lemma sample_overwrite:
  assumes "length b = n" "p < m" "q < m" "length dst = m * n"
  shows "sample n (overwrite (p * n) b dst) q = (if p = q then b else sample n dst q)"
proof (cases "p = q")
  case True
  then show ?thesis using assms block_in [OF assms(2), of n]
    by (simp add: sample_def overwrite_def min_def)
next
  case False
  have pq: "q * n + n \<le> p * n \<or> p * n + n \<le> q * n"
    using False block_in [of q p n] block_in [of p q n] by (cases "q < p") auto
  have pin: "p * n + n \<le> length dst" and qin: "q * n + n \<le> length dst"
    using block_in assms(2-4) by metis+
  have "sample n (overwrite (p * n) b dst) q = sample n dst q"
  proof (rule nth_equalityI)
    fix k
    assume "k < length (sample n (overwrite (p * n) b dst) q)"
    then have k: "k < n" by (simp add: sample_def)
    then have "\<not> (p * n \<le> q * n + k \<and> q * n + k < p * n + n)" using pq by auto
    then show "sample n (overwrite (p * n) b dst) q ! k = sample n dst q ! k"
      using k pin qin assms(1) by (auto simp: sample_def nth_overwrite)
  qed (use pin qin assms(1) in \<open>simp add: sample_def\<close>)
  then show ?thesis using False by simp
qed

text \<open>The loop rule.\<close>

lemma scatter:
  assumes step: "\<And>p dst. p \<in> set ps \<Longrightarrow> length dst = m * n \<Longrightarrow> f dst p = Ok (overwrite (pos p * n) (blk p) dst)"
    and blocks: "\<And>p. p \<in> set ps \<Longrightarrow> length (blk p) = n \<and> pos p < m"
    and agree: "\<And>p q. p \<in> set ps \<Longrightarrow> q \<in> set ps \<Longrightarrow> pos p = pos q \<Longrightarrow> blk p = blk q"
    and "length dst = m * n"
  shows "\<exists>out. try_fold f dst ps = Ok out \<and> length out = m * n \<and>
    (\<forall>p\<in>set ps. sample n out (pos p) = blk p) \<and>
    (\<forall>j<m. j \<notin> pos ` set ps \<longrightarrow> sample n out j = sample n dst j)"
  using assms
proof (induction ps arbitrary: dst)
  case Nil
  show ?case by (rule exI [of _ dst]) (simp add: Nil.prems(4))
next
  case (Cons p ps)
  let ?d = "overwrite (pos p * n) (blk p) dst"
  have b: "length (blk p) = n" "pos p < m" using Cons.prems(2) by auto
  have len: "length ?d = m * n" using b block_in [OF b(2), of n] Cons.prems(4) by simp
  have "\<exists>out. try_fold f ?d ps = Ok out \<and> length out = m * n \<and>
    (\<forall>p\<in>set ps. sample n out (pos p) = blk p) \<and>
    (\<forall>j<m. j \<notin> pos ` set ps \<longrightarrow> sample n out j = sample n ?d j)"
  proof (rule Cons.IH)
    show "length ?d = m * n" by (rule len)
    fix q
    assume q: "q \<in> set ps"
    then show "length (blk q) = n \<and> pos q < m" using Cons.prems(2) by simp
    show "f d' q = Ok (overwrite (pos q * n) (blk q) d')" if "length d' = m * n" for d'
      using q that Cons.prems(1) by simp
    show "blk q = blk q'" if "q' \<in> set ps" "pos q = pos q'" for q'
      using q that Cons.prems(3) [of q q'] by simp
  qed
  then obtain out where out: "try_fold f ?d ps = Ok out" "length out = m * n"
    "\<And>q. q \<in> set ps \<Longrightarrow> sample n out (pos q) = blk q"
    "\<And>j. j < m \<Longrightarrow> j \<notin> pos ` set ps \<Longrightarrow> sample n out j = sample n ?d j" by blast
  have "try_fold f dst (p # ps) = Ok out" using Cons.prems(1,4) out(1) by simp
  moreover have "sample n out (pos p) = blk p"
  proof (cases "pos p \<in> pos ` set ps")
    case True
    then obtain q where "q \<in> set ps" "pos p = pos q" by auto
    then show ?thesis using out(3) [of q] Cons.prems(3) [of p q] by simp
  next
    case False
    then show ?thesis using out(4) b sample_overwrite [OF b(1) b(2) b(2) Cons.prems(4)] by simp
  qed
  moreover have "sample n out j = sample n dst j" if "j < m" "j \<notin> pos ` set (p # ps)" for j
  proof -
    have j: "j \<notin> pos ` set ps" "(pos p = j) = False" using that(2) by auto
    have "sample n out j = sample n ?d j" by (rule out(4) [OF that(1) j(1)])
    also have "\<dots> = sample n dst j"
      unfolding sample_overwrite [OF b(1) b(2) that(1) Cons.prems(4)] j(2) if_False ..
    finally show ?thesis .
  qed
  ultimately show ?case using out(2,3) by (intro exI [of _ out]) simp
qed

lemma copy_block_step:
  assumes "length dst = m * n" "d < m" "s * n + n \<le> length src"
    and "dd = d * n" "ss = s * n"
  shows "copy_block n src dst (dd, ss) = Ok (overwrite (d * n) (sample n src s) dst)"
  using assms block_in [OF assms(2), of n] by (simp add: sample_def)

text \<open>Loops whose steps each write the right value on a set of blocks.\<close>

lemma cover_fold:
  assumes "\<And>p dst. p \<in> set ps \<Longrightarrow> length dst = m * n \<Longrightarrow>
      \<exists>out. f dst p = (Ok out :: ('a list, 'e) outcome) \<and> length out = m * n \<and>
        (\<forall>q<m. sample n out q = (if q \<in> C p then T q else sample n dst q))"
    and "length dst = m * n"
  shows "\<exists>out. try_fold f dst ps = (Ok out :: ('a list, 'e) outcome) \<and> length out = m * n \<and>
    (\<forall>q<m. sample n out q = (if q \<in> (\<Union>p\<in>set ps. C p) then T q else sample n dst q))"
  using assms
proof (induction ps arbitrary: dst)
  case (Cons p ps)
  obtain d1 where d1: "f dst p = Ok d1" "length d1 = m * n"
    "\<And>q. q < m \<Longrightarrow> sample n d1 q = (if q \<in> C p then T q else sample n dst q)"
    using Cons.prems(1) [of p dst] Cons.prems(2) by auto
  have "\<exists>out. try_fold f d1 ps = Ok out \<and> length out = m * n \<and>
    (\<forall>q<m. sample n out q = (if q \<in> (\<Union>p\<in>set ps. C p) then T q else sample n d1 q))"
    by (rule Cons.IH) (use Cons.prems(1) d1(2) in auto)
  then obtain out where out: "try_fold f d1 ps = Ok out" "length out = m * n"
    "\<And>q. q < m \<Longrightarrow> sample n out q = (if q \<in> (\<Union>p\<in>set ps. C p) then T q else sample n d1 q)" by blast
  then show ?case using d1 by (intro exI [of _ out]) simp
qed simp

lemma sample_overwrite_run:
  assumes len: "length b = k * n" "p + k \<le> m" "q < m" "length dst = m * n"
  shows "sample n (overwrite (p * n) b dst) q =
    (if p \<le> q \<and> q < p + k then sample n b (q - p) else sample n dst q)"
proof -
  have fits: "p * n + length b \<le> length dst"
    using assms(1,2,4) by (metis add_mult_distrib mult_le_mono1)
  have qn: "q * n + n \<le> length dst" using block_in [OF assms(3), of n] assms(4) by simp
  show ?thesis
  proof (cases "p \<le> q \<and> q < p + k")
    case True
    then obtain i where i: "q = p + i" "i < k" using le_Suc_ex by (metis add_less_cancel_left)
    have "i * n + n \<le> k * n" by (rule block_in [OF i(2)])
    then have "take n (drop (i * n + p * n) (take (p * n) dst @ b @ drop (p * n + k * n) dst)) = take n (drop (i * n) b)"
      using fits len(1) by (simp add: drop_append)
    then show ?thesis using i True len(1) by (simp add: sample_def overwrite_def add_mult_distrib add.commute)
  next
    case False
    then have "q * n + n \<le> p * n \<or> (p + k) * n \<le> q * n"
      using block_in [of q p n] by (metis linorder_not_le mult_le_mono1)
    then have out: "q * n + n \<le> p * n \<or> p * n + k * n \<le> q * n" by (simp add: add_mult_distrib)
    have "sample n (overwrite (p * n) b dst) q = sample n dst q"
    proof (rule nth_equalityI)
      fix j
      assume "j < length (sample n (overwrite (p * n) b dst) q)"
      then have "j < n" by (simp add: sample_def)
      then show "sample n (overwrite (p * n) b dst) q ! j = sample n dst q ! j"
        using out fits qn len(1) by (auto simp: sample_def nth_overwrite)
    qed (use fits qn in \<open>simp add: sample_def\<close>)
    then show ?thesis by (simp only: False if_False)
  qed
qed

lemma runs_loop:
  assumes step: "\<And>p dst. p \<in> set ps \<Longrightarrow> length dst = m * n \<Longrightarrow>
      f dst p = (Ok (overwrite (pos p * n) (blk p) dst) :: ('a list, 'e) outcome)"
    and shape: "\<And>p. p \<in> set ps \<Longrightarrow> length (blk p) = cnt p * n \<and> pos p + cnt p \<le> m"
    and vals: "\<And>p i. p \<in> set ps \<Longrightarrow> i < cnt p \<Longrightarrow> sample n (blk p) i = T (pos p + i)"
    and "length dst = m * n"
  shows "\<exists>out. try_fold f dst ps = (Ok out :: ('a list, 'e) outcome) \<and> length out = m * n \<and>
    (\<forall>q<m. sample n out q =
      (if q \<in> (\<Union>p\<in>set ps. {pos p..<pos p + cnt p}) then T q else sample n dst q))"
proof (rule cover_fold)
  fix p dst
  assume p: "p \<in> set ps" and len: "length (dst :: 'a list) = m * n"
  have "pos p * n + length (blk p) \<le> length dst"
    using shape [OF p] len by (metis add_mult_distrib mult_le_mono1)
  moreover have "sample n (overwrite (pos p * n) (blk p) dst) q =
      (if q \<in> {pos p..<pos p + cnt p} then T q else sample n dst q)" if "q < m" for q
    using sample_overwrite_run [of "blk p" "cnt p" n "pos p" m q dst] shape [OF p] that len vals [OF p, of "q - pos p"]
    by auto
  ultimately show "\<exists>out. f dst p = Ok out \<and> length out = m * n \<and>
      (\<forall>q<m. sample n out q = (if q \<in> {pos p..<pos p + cnt p} then T q else sample n dst q))"
    using step [OF p len] len by simp
qed (rule assms(4))

lemma try_fold_upt:
  assumes "P 0 s" "\<And>i s. i < n \<Longrightarrow> P i s \<Longrightarrow> \<exists>s'. f s i = Ok s' \<and> P (Suc i) s'"
  shows "\<exists>s'. try_fold f s [0..<n] = Ok s' \<and> P n s'"
  using assms(2)
proof (induction n)
  case (Suc n)
  obtain s1 where s1: "try_fold f s [0..<n] = Ok s1" "P n s1" using Suc.IH Suc.prems by auto
  moreover obtain s2 where "f s1 n = Ok s2" "P (Suc n) s2" using Suc.prems [of n s1] s1(2) by auto
  ultimately show ?case by (auto simp: try_fold_append)
qed (use assms(1) in simp)

lemma sample_concat:
  assumes "\<forall>x\<in>set xs. length x = n" "k < length xs"
  shows "sample n (concat xs) k = xs ! k"
  using assms
proof (induction xs arbitrary: k)
  case (Cons x xs)
  show ?case
  proof (cases k)
    case (Suc j)
    then have "sample n (concat (x # xs)) k = sample n (concat xs) j" using Cons.prems by (simp add: sample_def)
    then show ?thesis using Cons Suc by simp
  qed (use Cons.prems in \<open>simp add: sample_def\<close>)
qed simp

lemma length_concat_equal: "\<forall>x\<in>set xs. length x = n \<Longrightarrow> length (concat xs) = n * length xs"
  by (induction xs) auto

section \<open>Regions of band-sequential images\<close>

text \<open>The place of a pixel in a band-sequential buffer of \<open>h\<close> rows and \<open>w\<close> columns, and a
  buffer that holds the window at \<open>(y0, x0)\<close> of an image.\<close>

definition bsq_index :: "nat \<Rightarrow> nat \<Rightarrow> nat \<Rightarrow> nat \<Rightarrow> nat \<Rightarrow> nat" where
  "bsq_index h w band y x = (band * h + y) * w + x"

definition holds_region ::
    "nat \<Rightarrow> byte list \<Rightarrow> nat \<Rightarrow> nat \<Rightarrow> nat \<Rightarrow> (nat \<Rightarrow> nat \<Rightarrow> nat \<Rightarrow> byte list) \<Rightarrow> nat \<Rightarrow> nat \<Rightarrow> bool" where
  "holds_region bpp d bands h w img y0 x0 \<longleftrightarrow> length d = bands * h * w * bpp \<and>
    (\<forall>band<bands. \<forall>y<h. \<forall>x<w. sample bpp d (bsq_index h w band y x) = img band (y0 + y) (x0 + x))"

lemma bsq_index_less:
  assumes "band < bands" "y < h" "x < w"
  shows "bsq_index h w band y x < bands * h * w"
proof -
  have "band * h + y < bands * h" using block_in [OF assms(1), of h] assms(2) by linarith
  then show ?thesis using block_in [of "band * h + y" "bands * h" w] assms(3) unfolding bsq_index_def by linarith
qed

lemma bsq_index_inj:
  assumes "bsq_index h w band y x = bsq_index h w band' y' x'" "y < h" "x < w" "y' < h" "x' < w"
  shows "band = band' \<and> y = y' \<and> x = x'"
proof -
  have split: "(a * n + b) div n = a \<and> (a * n + b) mod n = b" if "b < n" for a b n :: nat
    using that by simp
  have "band * h + y = band' * h + y'" "x = x'"
    using assms(1) split [OF assms(3)] split [OF assms(5)] unfolding bsq_index_def by metis+
  then show ?thesis using split [OF assms(2)] split [OF assms(4)] by metis
qed

lemma bsq_index_cases:
  assumes "q < bands * h * w"
  obtains band y x where "band < bands" "y < h" "x < w" "q = bsq_index h w band y x"
proof
  have "0 < w" "0 < h" using assms by (cases w; cases h; auto)+
  then show "q mod w < w" "q div w mod h < h" by simp_all
  have "q div w < bands * h" using assms by (simp add: less_mult_imp_div_less)
  then show "q div w div h < bands" by (simp add: less_mult_imp_div_less)
  show "q = bsq_index h w (q div w div h) (q div w mod h) (q mod w)" by (simp add: bsq_index_def)
qed

text \<open>Copying a window row by row from one band-sequential buffer to another.\<close>

lemma region_copy:
  fixes src dst :: "byte list"
  assumes ps: "set ps = {..<bands} \<times> {..<rh}"
    and step: "\<And>band row out. band < bands \<Longrightarrow> row < rh \<Longrightarrow> length out = length dst \<Longrightarrow>
      f out (band, row) = (copy_block (cw * bpp) src out
        (bsq_index dh dw band (dy + row) dx * bpp, bsq_index sh sw band (sy + row) sx * bpp) :: (byte list, 'e) outcome)"
    and fits: "dy + rh \<le> dh" "dx + cw \<le> dw" "sy + rh \<le> sh" "sx + cw \<le> sw"
    and len: "length src = bands * sh * sw * bpp" "length dst = bands * dh * dw * bpp"
  shows "\<exists>out. try_fold f dst ps = (Ok out :: (byte list, 'e) outcome) \<and> length out = length dst \<and>
    (\<forall>band<bands. \<forall>y<dh. \<forall>x<dw. sample bpp out (bsq_index dh dw band y x) =
      (if dy \<le> y \<and> y < dy + rh \<and> dx \<le> x \<and> x < dx + cw
       then sample bpp src (bsq_index sh sw band (sy + (y - dy)) (sx + (x - dx)))
       else sample bpp dst (bsq_index dh dw band y x)))"
proof -
  let ?T = "\<lambda>q. let x = q mod dw; y = q div dw mod dh; band = q div dw div dh
    in sample bpp src (bsq_index sh sw band (sy + (y - dy)) (sx + (x - dx)))"
  let ?pos = "\<lambda>(band, row). bsq_index dh dw band (dy + row) dx"
  let ?blk = "\<lambda>(band, row). take (cw * bpp) (drop (bsq_index sh sw band (sy + row) sx * bpp) src)"
  have T: "?T (bsq_index dh dw band y x) = sample bpp src (bsq_index sh sw band (sy + (y - dy)) (sx + (x - dx)))"
    if "y < dh" "x < dw" for band y x
  proof -
    have *: "(a * n + b) div n = a \<and> (a * n + b) mod n = b" if "b < n" for a b n :: nat using that by simp
    show ?thesis unfolding bsq_index_def using * [OF that(1)] * [OF that(2)] by (simp add: Let_def)
  qed
  have cases0: ?thesis if "cw = 0 \<or> rh = 0"
  proof -
    have id: "f out p = Ok out" if "p \<in> set ps" "length out = length dst" for out p
    proof -
      obtain band row where p: "p = (band, row)" "band < bands" "row < rh" using \<open>p \<in> set ps\<close> ps by auto
      then have "cw = 0" "0 < dh" "0 < sh" using \<open>cw = 0 \<or> rh = 0\<close> fits by auto
      have "dy + row < dh" "sy + row < sh" using p fits by auto
      have bound: "bsq_index h w band y x * bpp \<le> bands * h * w * bpp" if "y < h" "x \<le> w" for h w y x
      proof -
        have "band * h + y < bands * h" using block_in [OF p(2), of h] that(1) by linarith
        then have "(band * h + y) * w + x \<le> bands * h * w" using block_in [of "band * h + y" "bands * h" w] that(2) by linarith
        then show ?thesis unfolding bsq_index_def by (rule mult_le_mono1)
      qed
      have "bsq_index dh dw band (dy + row) dx * bpp \<le> length out" "bsq_index sh sw band (sy + row) sx * bpp \<le> length src"
        using bound \<open>dy + row < dh\<close> \<open>sy + row < sh\<close> fits len that(2) by auto
      then show ?thesis using step [OF p(2,3) that(2)] p(1) \<open>cw = 0\<close> by (simp add: overwrite_def)
    qed
    have "try_fold f dst qs = Ok dst" if "set qs \<subseteq> set ps" for qs
      using that id by (induction qs) auto
    then show ?thesis using that by auto
  qed
  show ?thesis
  proof (cases "cw = 0 \<or> rh = 0")
    case False
    have run: "\<exists>out. try_fold f dst ps = (Ok out :: (byte list, 'e) outcome) \<and> length out = bands * dh * dw * bpp \<and>
      (\<forall>q<bands * dh * dw. sample bpp out q =
        (if q \<in> (\<Union>p\<in>set ps. {?pos p..<?pos p + cw}) then ?T q else sample bpp dst q))"
    proof (rule runs_loop)
      fix p
      assume "p \<in> set ps"
      then obtain band row where p: "p = (band, row)" "band < bands" "row < rh" using ps by auto
      have in_d: "bsq_index dh dw band (dy + row) (dx + i) < bands * dh * dw" if "i < cw" for i
        using p fits that by (intro bsq_index_less) auto
      have in_s: "bsq_index sh sw band (sy + row) (sx + i) < bands * sh * sw" if "i < cw" for i
        using p fits that by (intro bsq_index_less) auto
      have add: "bsq_index h w band y x + i = bsq_index h w band y (x + i)" for h w y x i by (simp add: bsq_index_def)
      have last_d: "?pos p + cw \<le> bands * dh * dw"
        using in_d [of "cw - 1"] False by (simp add: p(1) bsq_index_def)
      have last_s: "bsq_index sh sw band (sy + row) sx + cw \<le> bands * sh * sw"
        using in_s [of "cw - 1"] False by (simp add: bsq_index_def)
      then have fit_s: "bsq_index sh sw band (sy + row) sx * bpp + cw * bpp \<le> length src"
        using len(1) by (metis add_mult_distrib mult_le_mono1)
      then show shape: "length (?blk p) = cw * bpp \<and> ?pos p + cw \<le> bands * dh * dw"
        using last_d by (simp add: p(1))
      show "f out p = Ok (overwrite (?pos p * bpp) (?blk p) out)" if o: "length out = bands * dh * dw * bpp" for out
      proof -
        have "?pos p * bpp + cw * bpp \<le> length out" using last_d o by (metis add_mult_distrib mult_le_mono1)
        then show ?thesis using step [OF p(2,3), of out] o len(2) fit_s shape by (simp add: p(1))
      qed
      show "sample bpp (?blk p) i = ?T (?pos p + i)" if i: "i < cw" for i
      proof -
        have "dy + row < dh" "dx + i < dw" using p(3) i fits by auto
        then have "?T (?pos p + i) = sample bpp src (bsq_index sh sw band (sy + row) (sx + i))"
          using T [of "dy + row" "dx + i" band] by (simp only: p(1) case_prod_conv add add_diff_cancel_left')
        moreover have "i * bpp + bpp \<le> cw * bpp" by (rule block_in [OF i])
        then have "sample bpp (?blk p) i = sample bpp src (bsq_index sh sw band (sy + row) sx + i)"
          by (simp add: sample_def p(1) drop_take add_mult_distrib add.commute min_def)
        ultimately show ?thesis by (simp only: add)
      qed
    qed (rule len(2))
    then obtain out where out: "try_fold f dst ps = Ok out" "length out = bands * dh * dw * bpp"
      "\<And>q. q < bands * dh * dw \<Longrightarrow> sample bpp out q =
        (if q \<in> (\<Union>p\<in>set ps. {?pos p..<?pos p + cw}) then ?T q else sample bpp dst q)" by blast
    have covered: "bsq_index dh dw band y x \<in> (\<Union>p\<in>set ps. {?pos p..<?pos p + cw}) \<longleftrightarrow>
        dy \<le> y \<and> y < dy + rh \<and> dx \<le> x \<and> x < dx + cw"
      if b: "band < bands" "y < dh" "x < dw" for band y x
    proof
      assume "bsq_index dh dw band y x \<in> (\<Union>p\<in>set ps. {?pos p..<?pos p + cw})"
      then obtain band' row where row: "row < rh" "bsq_index dh dw band' (dy + row) dx \<le> bsq_index dh dw band y x"
        "bsq_index dh dw band y x < bsq_index dh dw band' (dy + row) dx + cw"
        unfolding ps by auto
      define i where "i = bsq_index dh dw band y x - bsq_index dh dw band' (dy + row) dx"
      have r: "row < rh" "i < cw" "bsq_index dh dw band y x = bsq_index dh dw band' (dy + row) (dx + i)"
        using row unfolding i_def bsq_index_def by simp_all
      then have "y = dy + row" "x = dx + i"
        using bsq_index_inj [OF r(3) b(2,3)] fits by auto
      then show "dy \<le> y \<and> y < dy + rh \<and> dx \<le> x \<and> x < dx + cw" using r by simp
    next
      assume w: "dy \<le> y \<and> y < dy + rh \<and> dx \<le> x \<and> x < dx + cw"
      then have "y - dy < rh" by linarith
      then have "(band, y - dy) \<in> set ps" using b(1) unfolding ps by simp
      moreover have "bsq_index dh dw band y x \<in> {?pos (band, y - dy)..<?pos (band, y - dy) + cw}"
        using w by (simp add: bsq_index_def)
      ultimately show "bsq_index dh dw band y x \<in> (\<Union>p\<in>set ps. {?pos p..<?pos p + cw})" by blast
    qed
    have "sample bpp out (bsq_index dh dw band y x) =
        (if dy \<le> y \<and> y < dy + rh \<and> dx \<le> x \<and> x < dx + cw
         then sample bpp src (bsq_index sh sw band (sy + (y - dy)) (sx + (x - dx)))
         else sample bpp dst (bsq_index dh dw band y x))"
      if "band < bands" "y < dh" "x < dw" for band y x
      unfolding out(3) [OF bsq_index_less [OF that]] covered [OF that] T [OF that(2,3)] ..
    moreover have "length out = length dst" using out(2) len(2) by simp
    ultimately show ?thesis using out(1) by blast
  qed (rule cases0)
qed

text \<open>Loops over steps that each fill a part of the image plane.\<close>

lemma region_fold:
  assumes "\<And>p dst. p \<in> set ps \<Longrightarrow> length dst = k \<Longrightarrow>
      \<exists>out. f dst p = (Ok out :: (byte list, 'e) outcome) \<and> length out = k \<and>
        (\<forall>band<bands. \<forall>y<h. \<forall>x<w. sample bpp out (bsq_index h w band y x) =
          (if P p y x then V band y x else sample bpp dst (bsq_index h w band y x)))"
    and "length dst = k"
  shows "\<exists>out. try_fold f dst ps = (Ok out :: (byte list, 'e) outcome) \<and> length out = k \<and>
    (\<forall>band<bands. \<forall>y<h. \<forall>x<w. sample bpp out (bsq_index h w band y x) =
      (if \<exists>p\<in>set ps. P p y x then V band y x else sample bpp dst (bsq_index h w band y x)))"
  using assms
proof (induction ps arbitrary: dst)
  case (Cons p ps)
  obtain d1 where d1: "f dst p = Ok d1" "length d1 = k"
    "\<And>band y x. band < bands \<Longrightarrow> y < h \<Longrightarrow> x < w \<Longrightarrow> sample bpp d1 (bsq_index h w band y x) =
      (if P p y x then V band y x else sample bpp dst (bsq_index h w band y x))"
    using Cons.prems(1) [of p dst] Cons.prems(2) by auto
  have "\<exists>out. try_fold f d1 ps = Ok out \<and> length out = k \<and>
    (\<forall>band<bands. \<forall>y<h. \<forall>x<w. sample bpp out (bsq_index h w band y x) =
      (if \<exists>p\<in>set ps. P p y x then V band y x else sample bpp d1 (bsq_index h w band y x)))"
    by (rule Cons.IH) (use Cons.prems(1) d1(2) in auto)
  then obtain out where out: "try_fold f d1 ps = Ok out" "length out = k"
    "\<And>band y x. band < bands \<Longrightarrow> y < h \<Longrightarrow> x < w \<Longrightarrow> sample bpp out (bsq_index h w band y x) =
      (if \<exists>p\<in>set ps. P p y x then V band y x else sample bpp d1 (bsq_index h w band y x))" by blast
  then show ?case using d1 by (intro exI [of _ out]) simp
qed simp

end
