(* ===== verification/Interleave.thy ===== *)
theory Interleave
  imports Copies Block_Mask
begin

text \<open>
  Conversion between the four NITF interleave modes: \<open>src/src/jbp/image/interleave.rs\<close>.
  The nested copy loops are folds over the index triples in loop order; offsets are
  computed modulo \<open>2 ^ 64\<close> as \<open>usize\<close> is.  The reference is \<open>sample_index\<close>, the place of
  a sample in each mode; the converters are shown to move every sample from its place in
  one mode to its place in the other, the fused converters to do so with the byte swap and
  the band selection, and the parallel one in every interleaving of its tasks.
\<close>

section \<open>Definitions\<close>

definition expected_size :: "nat \<Rightarrow> nat \<Rightarrow> nat \<Rightarrow> nat \<Rightarrow> nat" where
  "expected_size nrows ncols nbands bpp = wrap64 (nrows * ncols * nbands * bpp)"

definition row_col_band :: "nat \<Rightarrow> nat \<Rightarrow> nat \<Rightarrow> (nat \<times> nat \<times> nat) list" where
  "row_col_band nrows ncols nbands = List.product [0..<nrows] (List.product [0..<ncols] [0..<nbands])"

fun bip_offset :: "nat \<Rightarrow> nat \<Rightarrow> nat \<Rightarrow> nat \<times> nat \<times> nat \<Rightarrow> nat" where
  "bip_offset ncols nbands bpp (row, col, band) = wrap64 (((row * ncols + col) * nbands + band) * bpp)"

fun bsq_offset :: "nat \<Rightarrow> nat \<Rightarrow> nat \<Rightarrow> nat \<times> nat \<times> nat \<Rightarrow> nat" where
  "bsq_offset nrows ncols bpp (row, col, band) =
    wrap64 (band * (nrows * ncols * bpp) + (row * ncols + col) * bpp)"

definition from_bip_to_bsq :: "byte list \<Rightarrow> nat \<Rightarrow> nat \<Rightarrow> nat \<Rightarrow> nat \<Rightarrow> (byte list, codec_error) outcome" where
  "from_bip_to_bsq data nrows ncols nbands bpp =
    try_fold (\<lambda>out p. copy_block bpp data out (bsq_offset nrows ncols bpp p, bip_offset ncols nbands bpp p))
      (replicate (length data) 0) (row_col_band nrows ncols nbands)"

definition from_bsq_to_bip :: "byte list \<Rightarrow> nat \<Rightarrow> nat \<Rightarrow> nat \<Rightarrow> nat \<Rightarrow> (byte list, codec_error) outcome" where
  "from_bsq_to_bip data nrows ncols nbands bpp =
    try_fold (\<lambda>out p. copy_block bpp data out (bip_offset ncols nbands bpp p, bsq_offset nrows ncols bpp p))
      (replicate (length data) 0) (row_col_band nrows ncols nbands)"

fun bil_row_offset :: "nat \<Rightarrow> nat \<Rightarrow> nat \<Rightarrow> nat \<times> nat \<Rightarrow> nat" where
  "bil_row_offset ncols nbands bpp (row, band) = wrap64 ((row * nbands + band) * (ncols * bpp))"

fun bsq_row_offset :: "nat \<Rightarrow> nat \<Rightarrow> nat \<Rightarrow> nat \<times> nat \<Rightarrow> nat" where
  "bsq_row_offset nrows ncols bpp (row, band) =
    wrap64 (band * (nrows * ncols * bpp) + row * (ncols * bpp))"

definition from_bil_to_bsq :: "byte list \<Rightarrow> nat \<Rightarrow> nat \<Rightarrow> nat \<Rightarrow> nat \<Rightarrow> (byte list, codec_error) outcome" where
  "from_bil_to_bsq data nrows ncols nbands bpp =
    try_fold (\<lambda>out p. copy_block (wrap64 (ncols * bpp)) data out
        (bsq_row_offset nrows ncols bpp p, bil_row_offset ncols nbands bpp p))
      (replicate (length data) 0) (List.product [0..<nrows] [0..<nbands])"

definition from_bsq_to_bil :: "byte list \<Rightarrow> nat \<Rightarrow> nat \<Rightarrow> nat \<Rightarrow> nat \<Rightarrow> (byte list, codec_error) outcome" where
  "from_bsq_to_bil data nrows ncols nbands bpp =
    try_fold (\<lambda>out p. copy_block (wrap64 (ncols * bpp)) data out
        (bil_row_offset ncols nbands bpp p, bsq_row_offset nrows ncols bpp p))
      (replicate (length data) 0) (List.product [0..<nrows] [0..<nbands])"

definition to_band_sequential ::
    "byte list \<Rightarrow> interleave_mode \<Rightarrow> nat \<Rightarrow> nat \<Rightarrow> nat \<Rightarrow> nat \<Rightarrow> (byte list, codec_error) outcome" where
  "to_band_sequential data from_mode nrows ncols nbands bpp =
    (if length data \<noteq> expected_size nrows ncols nbands bpp then Err Decode
     else if nbands = 1 then Ok data
     else case from_mode of
       ModeS \<Rightarrow> Ok data
     | ModeB \<Rightarrow> Ok data
     | ModeP \<Rightarrow> from_bip_to_bsq data nrows ncols nbands bpp
     | ModeR \<Rightarrow> from_bil_to_bsq data nrows ncols nbands bpp)"

definition from_band_sequential ::
    "byte list \<Rightarrow> interleave_mode \<Rightarrow> nat \<Rightarrow> nat \<Rightarrow> nat \<Rightarrow> nat \<Rightarrow> (byte list, codec_error) outcome" where
  "from_band_sequential data to_mode nrows ncols nbands bpp =
    (if length data \<noteq> expected_size nrows ncols nbands bpp then Err Decode
     else if nbands = 1 then Ok data
     else case to_mode of
       ModeS \<Rightarrow> Ok data
     | ModeB \<Rightarrow> Ok data
     | ModeP \<Rightarrow> from_bsq_to_bip data nrows ncols nbands bpp
     | ModeR \<Rightarrow> from_bsq_to_bil data nrows ncols nbands bpp)"

definition convert ::
    "byte list \<Rightarrow> interleave_mode \<Rightarrow> interleave_mode \<Rightarrow> nat \<Rightarrow> nat \<Rightarrow> nat \<Rightarrow> nat \<Rightarrow> (byte list, codec_error) outcome" where
  "convert data from_mode to_mode nrows ncols nbands bpp =
    (if from_mode = to_mode then Ok data
     else and_then (to_band_sequential data from_mode nrows ncols nbands bpp) (\<lambda>bsq.
       from_band_sequential bsq to_mode nrows ncols nbands bpp))"

text \<open>One sample of the fused converters: a copy, with the bytes of 2, 4 and 8-byte samples
  turned from big-endian to the target's order.\<close>

definition native_order :: "bool \<Rightarrow> nat \<Rightarrow> byte list \<Rightarrow> byte list" where
  "native_order big_endian bpp bs =
    (if big_endian \<or> bpp = 1 then bs
     else if bpp = 2 \<or> bpp = 4 \<or> bpp = 8 then le_bytes bpp (be_val bs)
     else bs)"

fun swap_copy :: "bool \<Rightarrow> byte list \<Rightarrow> nat \<Rightarrow> byte list \<Rightarrow> nat \<times> nat \<Rightarrow> (byte list, codec_error) outcome" where
  "swap_copy big_endian src bpp dst (src_off, dst_off) =
    and_then (slice src_off (src_off + bpp) src) (\<lambda>bs. blit dst_off (native_order big_endian bpp bs) dst)"

fun band_selection :: "nat \<Rightarrow> nat list option \<Rightarrow> (nat, codec_error) outcome" where
  "band_selection nbands (Some chosen) =
    (if \<exists>b\<in>set chosen. b \<ge> nbands then Err Decode else Ok (length chosen))"
| "band_selection nbands None = Ok nbands"

text \<open>The \<open>(output band, source band)\<close> pairs of the innermost loop.\<close>

fun band_pairs :: "nat \<Rightarrow> nat list option \<Rightarrow> (nat \<times> nat) list" where
  "band_pairs nbands (Some chosen) = zip [0..<length chosen] chosen"
| "band_pairs nbands None = map (\<lambda>band. (band, band)) [0..<nbands]"

text \<open>The row ranges of the tiles: the \<open>while\<close> loop from a start row.\<close>

function tile_ranges :: "nat \<Rightarrow> nat \<Rightarrow> nat \<Rightarrow> (nat \<times> nat) list" where
  "tile_ranges nrows tile_rows tile_start =
    (if tile_start < nrows then
       (let tile_end = min (tile_start + max 1 tile_rows) nrows
        in (tile_start, tile_end) # tile_ranges nrows tile_rows tile_end)
     else [])"
  by pat_completeness auto
termination by (relation "measure (\<lambda>(nrows, tile_rows, tile_start). nrows - tile_start)") auto

declare tile_ranges.simps [simp del]

definition tile_steps :: "nat \<Rightarrow> (nat \<times> nat) list \<Rightarrow> nat \<times> nat \<Rightarrow> (nat \<times> nat \<times> nat \<times> nat) list" where
  "tile_steps ncols pairs tile = List.product [fst tile..<snd tile] (List.product [0..<ncols] pairs)"

fun fused_step ::
    "bool \<Rightarrow> byte list \<Rightarrow> nat \<Rightarrow> nat \<Rightarrow> nat \<Rightarrow> nat \<Rightarrow> byte list \<Rightarrow> nat \<times> nat \<times> nat \<times> nat \<Rightarrow> (byte list, codec_error) outcome" where
  "fused_step big_endian src nrows ncols nbands bpp dst (row, col, dst_band, src_band) =
    swap_copy big_endian src bpp dst
      (wrap64 ((row * ncols + col) * (nbands * bpp) + src_band * bpp),
       wrap64 (dst_band * (nrows * ncols * bpp) + (row * ncols + col) * bpp))"

definition fused_checks ::
    "byte list \<Rightarrow> byte list \<Rightarrow> nat \<Rightarrow> nat \<Rightarrow> nat \<Rightarrow> nat \<Rightarrow> nat list option \<Rightarrow> (unit, codec_error) outcome" where
  "fused_checks src dst nrows ncols nbands bpp bands =
    (if length src \<noteq> expected_size nrows ncols nbands bpp then Err Decode
     else and_then (band_selection nbands bands) (\<lambda>out_bands.
       if length dst \<noteq> expected_size nrows ncols out_bands bpp then Err Decode else Ok ()))"

definition fused_bip_to_bsq_swap ::
    "bool \<Rightarrow> byte list \<Rightarrow> byte list \<Rightarrow> nat \<Rightarrow> nat \<Rightarrow> nat \<Rightarrow> nat \<Rightarrow> nat list option \<Rightarrow> nat \<Rightarrow> (byte list, codec_error) outcome" where
  "fused_bip_to_bsq_swap big_endian src dst nrows ncols nbands bpp bands tile_rows =
    and_then (fused_checks src dst nrows ncols nbands bpp bands) (\<lambda>_.
      try_fold (try_fold (fused_step big_endian src nrows ncols nbands bpp)) dst
        (map (tile_steps ncols (band_pairs nbands bands)) (tile_ranges nrows tile_rows 0)))"

text \<open>The parallel converter spawns one task per tile; a run executes the steps of all tasks
  in some interleaved order (the copies of different tasks may be reordered freely, each
  copy acting on its own bytes).\<close>

definition parallel_tasks :: "nat \<Rightarrow> nat \<Rightarrow> nat \<Rightarrow> nat list option \<Rightarrow> nat \<Rightarrow> (nat \<times> nat \<times> nat \<times> nat) list list" where
  "parallel_tasks nrows ncols nbands bands tile_rows =
    map (tile_steps ncols (band_pairs nbands bands)) (tile_ranges nrows tile_rows 0)"

definition fused_bip_to_bsq_swap_parallel ::
    "bool \<Rightarrow> (nat \<times> nat \<times> nat \<times> nat) list \<Rightarrow> byte list \<Rightarrow> byte list \<Rightarrow> nat \<Rightarrow> nat \<Rightarrow> nat \<Rightarrow> nat \<Rightarrow> nat list option \<Rightarrow> nat \<Rightarrow> (byte list, codec_error) outcome" where
  "fused_bip_to_bsq_swap_parallel big_endian schedule src dst nrows ncols nbands bpp bands tile_rows =
    and_then (fused_checks src dst nrows ncols nbands bpp bands) (\<lambda>_.
      try_fold (fused_step big_endian src nrows ncols nbands bpp) dst schedule)"

text \<open>The place of a sample in each mode.\<close>

fun sample_index :: "interleave_mode \<Rightarrow> nat \<Rightarrow> nat \<Rightarrow> nat \<Rightarrow> nat \<times> nat \<times> nat \<Rightarrow> nat" where
  "sample_index ModeB nrows ncols nbands (row, col, band) = band * (nrows * ncols) + (row * ncols + col)"
| "sample_index ModeS nrows ncols nbands (row, col, band) = band * (nrows * ncols) + (row * ncols + col)"
| "sample_index ModeP nrows ncols nbands (row, col, band) = (row * ncols + col) * nbands + band"
| "sample_index ModeR nrows ncols nbands (row, col, band) = (row * nbands + band) * ncols + col"

section \<open>Places of samples\<close>

lemma mult_add_less:
  fixes x y m n :: nat
  assumes "x < m" "y < n"
  shows "x * n + y < m * n"
  using block_in [OF assms(1), of n] assms(2) by linarith

lemma mult_add_inj:
  fixes x y x' y' n :: nat
  assumes "x * n + y = x' * n + y'" "y < n" "y' < n"
  shows "x = x' \<and> y = y'"
proof -
  have "(a * n + b) div n = a \<and> (a * n + b) mod n = b" if "b < n" for a b
    using that by simp
  then show ?thesis using assms by metis
qed

lemma mult_add_cases:
  fixes j m n :: nat
  assumes "j < m * n"
  obtains x y where "x < m" "y < n" "j = x * n + y"
proof
  have "0 < n" using assms by (cases n) auto
  then show "j mod n < n" by simp
  show "j div n < m" using assms by (rule less_mult_imp_div_less)
  show "j = j div n * n + j mod n" by simp
qed

lemma sample_index_less:
  assumes "row < nrows" "col < ncols" "band < nbands"
  shows "sample_index mode nrows ncols nbands (row, col, band) < nrows * ncols * nbands"
proof (cases mode)
  case ModeR
  have "(row * nbands + band) * ncols + col < nrows * nbands * ncols"
    using assms by (intro mult_add_less)
  then show ?thesis using ModeR by (simp add: algebra_simps)
next
  case ModeP
  have "(row * ncols + col) * nbands + band < nrows * ncols * nbands"
    using assms by (intro mult_add_less)
  then show ?thesis using ModeP by simp
qed (use assms mult_add_less [OF assms(3) mult_add_less [OF assms(1,2)]] in \<open>simp_all add: algebra_simps\<close>)

lemma sample_index_cases:
  assumes "j < nrows * ncols * nbands"
  obtains row col band where "row < nrows" "col < ncols" "band < nbands"
    "j = sample_index mode nrows ncols nbands (row, col, band)"
proof (cases mode)
  case ModeR
  have "j < nrows * nbands * ncols" using assms by (simp add: algebra_simps)
  then obtain x col where x: "x < nrows * nbands" "col < ncols" "j = x * ncols + col"
    by (rule mult_add_cases)
  from x(1) obtain row band where "row < nrows" "band < nbands" "x = row * nbands + band"
    by (rule mult_add_cases)
  then show thesis using that [of row col band] x ModeR by simp
next
  case ModeP
  from assms obtain x band where x: "x < nrows * ncols" "band < nbands" "j = x * nbands + band"
    by (rule mult_add_cases)
  from x(1) obtain row col where "row < nrows" "col < ncols" "x = row * ncols + col"
    by (rule mult_add_cases)
  then show thesis using that [of row col band] x ModeP by simp
next
  case ModeB
  have "j < nbands * (nrows * ncols)" using assms by (simp add: algebra_simps)
  then obtain band x where x: "band < nbands" "x < nrows * ncols" "j = band * (nrows * ncols) + x"
    by (rule mult_add_cases)
  from x(2) obtain row col where "row < nrows" "col < ncols" "x = row * ncols + col"
    by (rule mult_add_cases)
  then show thesis using that [of row col band] x ModeB by simp
next
  case ModeS
  have "j < nbands * (nrows * ncols)" using assms by (simp add: algebra_simps)
  then obtain band x where x: "band < nbands" "x < nrows * ncols" "j = band * (nrows * ncols) + x"
    by (rule mult_add_cases)
  from x(2) obtain row col where "row < nrows" "col < ncols" "x = row * ncols + col"
    by (rule mult_add_cases)
  then show thesis using that [of row col band] x ModeS by simp
qed

lemma sample_index_inj:
  assumes "sample_index mode nrows ncols nbands (row, col, band) =
      sample_index mode nrows ncols nbands (row', col', band')"
    and "row < nrows" "col < ncols" "band < nbands" "row' < nrows" "col' < ncols" "band' < nbands"
  shows "(row, col, band) = (row', col', band')"
proof -
  have pix: "row = row' \<and> col = col'" if "row * ncols + col = row' * ncols + col'"
    using that assms mult_add_inj by blast
  have lt: "row * ncols + col < nrows * ncols" "row' * ncols + col' < nrows * ncols"
    using assms mult_add_less by blast+
  show ?thesis
  proof (cases mode)
    case ModeR
    then have "(row * nbands + band) * ncols + col = (row' * nbands + band') * ncols + col'"
      using assms(1) by simp
    then have "row * nbands + band = row' * nbands + band'" "col = col'"
      using assms mult_add_inj by blast+
    then show ?thesis using assms mult_add_inj by blast
  next
    case ModeP
    then have "(row * ncols + col) * nbands + band = (row' * ncols + col') * nbands + band'"
      using assms(1) by simp
    then show ?thesis using assms mult_add_inj pix by blast
  next
    case ModeB
    then have "band * (nrows * ncols) + (row * ncols + col) = band' * (nrows * ncols) + (row' * ncols + col')"
      using assms(1) by simp
    then show ?thesis using lt mult_add_inj pix by blast
  next
    case ModeS
    then have "band * (nrows * ncols) + (row * ncols + col) = band' * (nrows * ncols) + (row' * ncols + col')"
      using assms(1) by simp
    then show ?thesis using lt mult_add_inj pix by blast
  qed
qed

section \<open>The loops\<close>

lemma set_row_col_band: "(row, col, band) \<in> set (row_col_band nrows ncols nbands) \<longleftrightarrow>
    row < nrows \<and> col < ncols \<and> band < nbands"
  by (auto simp: row_col_band_def)

lemma row_col_bandE:
  assumes "p \<in> set (row_col_band nrows ncols nbands)"
  obtains row col band where "p = (row, col, band)" "row < nrows" "col < ncols" "band < nbands"
  using assms by (metis prod_cases3 set_row_col_band)

text \<open>The samples of one image in one mode, moved to another mode.\<close>

definition moved :: "interleave_mode \<Rightarrow> interleave_mode \<Rightarrow> nat \<Rightarrow> nat \<Rightarrow> nat \<Rightarrow> nat \<Rightarrow> byte list \<Rightarrow> byte list \<Rightarrow> bool" where
  "moved from_mode to_mode nrows ncols nbands bpp data out \<longleftrightarrow> length out = length data \<and>
    (\<forall>row<nrows. \<forall>col<ncols. \<forall>band<nbands.
      sample bpp out (sample_index to_mode nrows ncols nbands (row, col, band)) =
      sample bpp data (sample_index from_mode nrows ncols nbands (row, col, band)))"

lemma movedI:
  assumes "length out = length data"
    and "\<And>row col band. row < nrows \<Longrightarrow> col < ncols \<Longrightarrow> band < nbands \<Longrightarrow>
      sample bpp out (sample_index to_mode nrows ncols nbands (row, col, band)) =
      sample bpp data (sample_index from_mode nrows ncols nbands (row, col, band))"
  shows "moved from_mode to_mode nrows ncols nbands bpp data out"
  using assms by (simp add: moved_def)

lemma pixel_loop:
  assumes len: "length data = nrows * ncols * nbands * bpp"
    and d: "\<And>p. p \<in> set (row_col_band nrows ncols nbands) \<Longrightarrow> d p = sample_index to_mode nrows ncols nbands p * bpp"
    and s: "\<And>p. p \<in> set (row_col_band nrows ncols nbands) \<Longrightarrow> s p = sample_index from_mode nrows ncols nbands p * bpp"
  shows "\<exists>out. try_fold (\<lambda>out p. copy_block bpp data out (d p, s p)) (replicate (length data) 0)
      (row_col_band nrows ncols nbands) = Ok out \<and> moved from_mode to_mode nrows ncols nbands bpp data out"
proof -
  let ?ps = "row_col_band nrows ncols nbands" and ?m = "nrows * ncols * nbands"
  let ?to = "sample_index to_mode nrows ncols nbands" and ?from = "sample_index from_mode nrows ncols nbands"
  have lt: "sample_index mode nrows ncols nbands p < ?m" if "p \<in> set ?ps" for mode p
    using that by (elim row_col_bandE) (simp add: sample_index_less del: sample_index.simps)
  have "\<exists>out. try_fold (\<lambda>out p. copy_block bpp data out (d p, s p)) (replicate (length data) 0) ?ps = Ok out \<and>
    length out = ?m * bpp \<and> (\<forall>p\<in>set ?ps. sample bpp out (?to p) = sample bpp data (?from p)) \<and>
    (\<forall>j<?m. j \<notin> ?to ` set ?ps \<longrightarrow> sample bpp out j = sample bpp (replicate (length data) 0) j)"
  proof (rule scatter)
    fix p assume p: "p \<in> set ?ps"
    have fits: "?from p * bpp + bpp \<le> length data"
      using block_in [OF lt [OF p, of from_mode], of bpp] len by simp
    then show "length (sample bpp data (?from p)) = bpp \<and> ?to p < ?m"
      using lt [OF p] by (simp add: sample_def)
    show "copy_block bpp data dst (d p, s p) = Ok (overwrite (?to p * bpp) (sample bpp data (?from p)) dst)"
      if "length dst = ?m * bpp" for dst
      by (rule copy_block_step [OF that lt [OF p] fits d [OF p] s [OF p]])
    show "sample bpp data (?from p) = sample bpp data (?from q)" if "q \<in> set ?ps" "?to p = ?to q" for q
    proof -
      have "p = q" using p that by (elim row_col_bandE) (metis sample_index_inj)
      then show ?thesis by simp
    qed
  qed (simp add: len)
  then show ?thesis using len by (auto simp: moved_def set_row_col_band)
qed

lemma index_offset_less:
  assumes "j < m" "m * bpp < U64"
  shows "j * bpp < U64"
  using assms by (meson le_less_trans less_imp_le mult_le_mono1)

lemma pixel_offsets:
  assumes "nrows * ncols * nbands * bpp < U64" "p \<in> set (row_col_band nrows ncols nbands)"
  shows "bip_offset ncols nbands bpp p = sample_index ModeP nrows ncols nbands p * bpp"
    and "bsq_offset nrows ncols bpp p = sample_index ModeS nrows ncols nbands p * bpp"
proof -
  obtain row col band where p: "p = (row, col, band)" "row < nrows" "col < ncols" "band < nbands"
    using assms(2) by (rule row_col_bandE)
  have lt: "sample_index mode nrows ncols nbands p * bpp < U64" for mode
    using sample_index_less [OF p(2-4), of mode] index_offset_less assms(1) unfolding p(1) by blast
  show "bip_offset ncols nbands bpp p = sample_index ModeP nrows ncols nbands p * bpp"
    using lt [of ModeP] p(1) by simp
  have "band * (nrows * ncols * bpp) + (row * ncols + col) * bpp = sample_index ModeS nrows ncols nbands p * bpp"
    using p(1) by (simp add: algebra_simps)
  then show "bsq_offset nrows ncols bpp p = sample_index ModeS nrows ncols nbands p * bpp"
    using lt [of ModeS] p(1) by simp
qed

text \<open>The row loops: units of a whole row of one band.\<close>

fun row_index :: "interleave_mode \<Rightarrow> nat \<Rightarrow> nat \<Rightarrow> nat \<times> nat \<Rightarrow> nat" where
  "row_index ModeR nrows nbands (row, band) = row * nbands + band"
| "row_index _ nrows nbands (row, band) = band * nrows + row"

lemma product_memE:
  assumes "p \<in> set (List.product [0..<m] [0..<n])"
  obtains i j where "p = (i, j)" "i < m" "j < n"
  using assms by auto

lemma row_index_less:
  assumes "row < nrows" "band < nbands"
  shows "row_index mode nrows nbands (row, band) < nrows * nbands"
  using assms mult_add_less [of row nrows band nbands] mult_add_less [of band nbands row nrows]
  by (cases mode) (simp_all add: mult.commute)

lemma row_index_inj:
  assumes "row_index mode nrows nbands (row, band) = row_index mode nrows nbands (row', band')"
    and "row < nrows" "band < nbands" "row' < nrows" "band' < nbands"
  shows "(row, band) = (row', band')"
  using assms mult_add_inj [of row nbands band row' band'] mult_add_inj [of band nrows row band' row']
  by (cases mode) simp_all

lemma sample_index_row:
  assumes "mode \<noteq> ModeP"
  shows "sample_index mode nrows ncols nbands (row, col, band) =
    row_index mode nrows nbands (row, band) * ncols + col"
  using assms by (cases mode) (simp_all add: algebra_simps)

lemma row_loop:
  assumes len: "length data = nrows * ncols * nbands * bpp" and "to_mode \<noteq> ModeP" "from_mode \<noteq> ModeP"
    and d: "\<And>row band. row < nrows \<Longrightarrow> band < nbands \<Longrightarrow>
      d (row, band) = row_index to_mode nrows nbands (row, band) * (ncols * bpp)"
    and s: "\<And>row band. row < nrows \<Longrightarrow> band < nbands \<Longrightarrow>
      s (row, band) = row_index from_mode nrows nbands (row, band) * (ncols * bpp)"
  shows "\<exists>out. try_fold (\<lambda>out p. copy_block (ncols * bpp) data out (d p, s p)) (replicate (length data) 0)
      (List.product [0..<nrows] [0..<nbands]) = (Ok out :: (byte list, codec_error) outcome) \<and> moved from_mode to_mode nrows ncols nbands bpp data out"
proof -
  let ?ps = "List.product [0..<nrows] [0..<nbands]" and ?m = "nrows * nbands" and ?n = "ncols * bpp"
  let ?to = "row_index to_mode nrows nbands" and ?from = "row_index from_mode nrows nbands"
  have len': "length data = ?m * ?n" using len by (simp add: algebra_simps)
  have "\<exists>out. try_fold (\<lambda>out p. copy_block ?n data out (d p, s p)) (replicate (length data) 0) ?ps = (Ok out :: (byte list, codec_error) outcome) \<and>
    length out = ?m * ?n \<and> (\<forall>p\<in>set ?ps. sample ?n out (?to p) = sample ?n data (?from p)) \<and>
    (\<forall>j<?m. j \<notin> ?to ` set ?ps \<longrightarrow> sample ?n out j = sample ?n (replicate (length data) 0) j)"
  proof (rule scatter)
    fix p assume "p \<in> set ?ps"
    then obtain row band where p: "p = (row, band)" "row < nrows" "band < nbands" by (elim product_memE)
    have lt: "row_index mode nrows nbands p < ?m" for mode
      unfolding p(1) using p(2,3) by (rule row_index_less)
    have fits: "?from p * ?n + ?n \<le> length data" using block_in [OF lt [of from_mode], of ?n] len' by simp
    then show "length (sample ?n data (?from p)) = ?n \<and> ?to p < ?m" using lt by (simp add: sample_def)
    show "copy_block ?n data dst (d p, s p) = Ok (overwrite (?to p * ?n) (sample ?n data (?from p)) dst)"
      if "length dst = ?m * ?n" for dst
      by (rule copy_block_step [OF that lt fits]) (use p d s in auto)
    show "sample ?n data (?from p) = sample ?n data (?from q)" if q: "q \<in> set ?ps" "?to p = ?to q" for q
    proof -
      obtain row' band' where q': "q = (row', band')" "row' < nrows" "band' < nbands" using q(1) by (elim product_memE)
      then have "(row, band) = (row', band')" using q(2) p row_index_inj by metis
      then show ?thesis using p(1) q'(1) by simp
    qed
  qed (simp add: len')
  then obtain out where out: "try_fold (\<lambda>out p. copy_block ?n data out (d p, s p)) (replicate (length data) 0) ?ps = (Ok out :: (byte list, codec_error) outcome)"
    "length out = ?m * ?n" "\<And>p. p \<in> set ?ps \<Longrightarrow> sample ?n out (?to p) = sample ?n data (?from p)" by blast
  have "moved from_mode to_mode nrows ncols nbands bpp data out"
  proof (rule movedI)
    fix row col band
    assume r: "row < nrows" "col < ncols" "band < nbands"
    have "sample ?n out (?to (row, band)) = sample ?n data (?from (row, band))"
      using out(3) r by simp
    then show "sample bpp out (sample_index to_mode nrows ncols nbands (row, col, band)) =
        sample bpp data (sample_index from_mode nrows ncols nbands (row, col, band))"
      using sample_sample [OF r(2), of bpp] assms(2,3) by (metis sample_index_row)
  qed (use out(2) len' in simp)
  then show ?thesis using out(1) by blast
qed

lemma row_offsets:
  assumes "nrows * ncols * nbands * bpp < U64" "row < nrows" "band < nbands"
  shows "bil_row_offset ncols nbands bpp (row, band) = row_index ModeR nrows nbands (row, band) * (ncols * bpp)"
    and "bsq_row_offset nrows ncols bpp (row, band) = row_index ModeS nrows nbands (row, band) * (ncols * bpp)"
    and "wrap64 (ncols * bpp) = ncols * bpp"
proof -
  have b: "nrows * nbands * (ncols * bpp) < U64" using assms(1) by (simp add: algebra_simps)
  have lt: "row_index mode nrows nbands (row, band) * (ncols * bpp) < U64" for mode
    using row_index_less [OF assms(2,3)] b by (rule index_offset_less)
  show "bil_row_offset ncols nbands bpp (row, band) = row_index ModeR nrows nbands (row, band) * (ncols * bpp)"
    using lt [of ModeR] by simp
  have "band * (nrows * ncols * bpp) + row * (ncols * bpp) = row_index ModeS nrows nbands (row, band) * (ncols * bpp)"
    by (simp add: algebra_simps)
  then show "bsq_row_offset nrows ncols bpp (row, band) = row_index ModeS nrows nbands (row, band) * (ncols * bpp)"
    using lt [of ModeS] by simp
  have "1 * (ncols * bpp) \<le> nrows * nbands * (ncols * bpp)"
    using assms(2,3) by (intro mult_le_mono1) (cases nrows; cases nbands; simp)
  then have "ncols * bpp < U64" using b by linarith
  then show "wrap64 (ncols * bpp) = ncols * bpp" by simp
qed

section \<open>The converters\<close>

lemma row_converter:
  assumes "length data = nrows * ncols * nbands * bpp" "nrows * ncols * nbands * bpp < U64"
    and "to_mode \<noteq> ModeP" "from_mode \<noteq> ModeP"
    and "\<And>row band. row < nrows \<Longrightarrow> band < nbands \<Longrightarrow>
      d (row, band) = row_index to_mode nrows nbands (row, band) * (ncols * bpp)"
    and "\<And>row band. row < nrows \<Longrightarrow> band < nbands \<Longrightarrow>
      s (row, band) = row_index from_mode nrows nbands (row, band) * (ncols * bpp)"
  shows "\<exists>out. try_fold (\<lambda>out p. copy_block (wrap64 (ncols * bpp)) data out (d p, s p)) (replicate (length data) 0)
      (List.product [0..<nrows] [0..<nbands]) = (Ok out :: (byte list, codec_error) outcome) \<and>
    moved from_mode to_mode nrows ncols nbands bpp data out"
proof (cases "nrows = 0 \<or> nbands = 0")
  case True
  then have "List.product [0..<nrows] [0..<nbands] = []" by (auto simp: product_concat_map)
  moreover have "moved from_mode to_mode nrows ncols nbands bpp data (replicate (length data) 0)"
    using True by (intro movedI) auto
  ultimately show ?thesis by simp
next
  case False
  then have "wrap64 (ncols * bpp) = ncols * bpp" using row_offsets(3) [OF assms(2), of 0 0] by simp
  then show ?thesis using row_loop [OF assms(1,3-6)] by simp
qed

lemma to_band_sequential_moves:
  assumes "length data = nrows * ncols * nbands * bpp" "nrows * ncols * nbands * bpp < U64"
  shows "\<exists>out. to_band_sequential data from_mode nrows ncols nbands bpp = Ok out \<and>
    moved from_mode ModeS nrows ncols nbands bpp data out"
proof (cases "nbands = 1 \<or> from_mode = ModeS \<or> from_mode = ModeB")
  case True
  then have "moved from_mode ModeS nrows ncols nbands bpp data data"
    by (intro movedI) (auto intro!: arg_cong [where f = "sample bpp data"], cases from_mode, auto)
  then show ?thesis using True assms by (auto simp: to_band_sequential_def expected_size_def)
next
  case False
  have "\<exists>out. from_bip_to_bsq data nrows ncols nbands bpp = Ok out \<and> moved ModeP ModeS nrows ncols nbands bpp data out"
    unfolding from_bip_to_bsq_def by (rule pixel_loop [OF assms(1)]) (use pixel_offsets [OF assms(2)] in auto)
  moreover have "\<exists>out. from_bil_to_bsq data nrows ncols nbands bpp = Ok out \<and> moved ModeR ModeS nrows ncols nbands bpp data out"
    unfolding from_bil_to_bsq_def by (rule row_converter [OF assms]) (use row_offsets [OF assms(2)] in auto)
  ultimately show ?thesis using False assms by (cases from_mode) (auto simp: to_band_sequential_def expected_size_def)
qed

lemma from_band_sequential_moves:
  assumes "length data = nrows * ncols * nbands * bpp" "nrows * ncols * nbands * bpp < U64"
  shows "\<exists>out. from_band_sequential data to_mode nrows ncols nbands bpp = Ok out \<and>
    moved ModeS to_mode nrows ncols nbands bpp data out"
proof (cases "nbands = 1 \<or> to_mode = ModeS \<or> to_mode = ModeB")
  case True
  then have "moved ModeS to_mode nrows ncols nbands bpp data data"
    by (intro movedI) (auto intro!: arg_cong [where f = "sample bpp data"], cases to_mode, auto)
  then show ?thesis using True assms by (auto simp: from_band_sequential_def expected_size_def)
next
  case False
  have "\<exists>out. from_bsq_to_bip data nrows ncols nbands bpp = Ok out \<and> moved ModeS ModeP nrows ncols nbands bpp data out"
    unfolding from_bsq_to_bip_def by (rule pixel_loop [OF assms(1)]) (use pixel_offsets [OF assms(2)] in auto)
  moreover have "\<exists>out. from_bsq_to_bil data nrows ncols nbands bpp = Ok out \<and> moved ModeS ModeR nrows ncols nbands bpp data out"
    unfolding from_bsq_to_bil_def by (rule row_converter [OF assms]) (use row_offsets [OF assms(2)] in auto)
  ultimately show ?thesis using False assms by (cases to_mode) (auto simp: from_band_sequential_def expected_size_def)
qed

lemma moved_trans:
  assumes "moved a b nrows ncols nbands bpp x y" "moved b c nrows ncols nbands bpp y z"
  shows "moved a c nrows ncols nbands bpp x z"
  using assms by (simp add: moved_def)

lemma moved_refl_eq:
  assumes "moved a a nrows ncols nbands bpp x y" "length x = nrows * ncols * nbands * bpp"
  shows "y = x"
proof (rule list_eq_samples)
  show "length y = bpp * (nrows * ncols * nbands)" "length x = bpp * (nrows * ncols * nbands)"
    using assms by (simp_all add: moved_def mult.commute)
  fix j
  assume "j < nrows * ncols * nbands"
  then obtain row col band where "row < nrows" "col < ncols" "band < nbands"
    "j = sample_index a nrows ncols nbands (row, col, band)"
    by (rule sample_index_cases)
  then show "sample bpp y j = sample bpp x j" using assms(1) by (simp add: moved_def)
qed

lemma convert_moves:
  assumes "length data = nrows * ncols * nbands * bpp" "nrows * ncols * nbands * bpp < U64"
  shows "\<exists>out. convert data from_mode to_mode nrows ncols nbands bpp = Ok out \<and>
    moved from_mode to_mode nrows ncols nbands bpp data out"
proof (cases "from_mode = to_mode")
  case True
  then show ?thesis by (simp add: convert_def moved_def)
next
  case False
  obtain bsq where bsq: "to_band_sequential data from_mode nrows ncols nbands bpp = Ok bsq"
    "moved from_mode ModeS nrows ncols nbands bpp data bsq"
    using to_band_sequential_moves [OF assms] by blast
  then have "length bsq = nrows * ncols * nbands * bpp" using assms(1) by (simp add: moved_def)
  from from_band_sequential_moves [OF this assms(2), of to_mode]
  obtain out where "from_band_sequential bsq to_mode nrows ncols nbands bpp = Ok out"
    "moved ModeS to_mode nrows ncols nbands bpp bsq out" by blast
  then show ?thesis using False bsq moved_trans by (auto simp: convert_def)
qed

section \<open>Properties of the converters\<close>

text \<open>C16: converting an image of the right size between any two interleave modes succeeds,
  keeps the length, and puts every sample of every band at the place the target mode gives
  it.\<close>

theorem convert_correct:
  assumes "length data = nrows * ncols * nbands * bpp" "nrows * ncols * nbands * bpp < U64"
  shows "\<exists>out. convert data from_mode to_mode nrows ncols nbands bpp = Ok out \<and> length out = length data \<and>
    (\<forall>row<nrows. \<forall>col<ncols. \<forall>band<nbands.
      sample bpp out (sample_index to_mode nrows ncols nbands (row, col, band)) =
      sample bpp data (sample_index from_mode nrows ncols nbands (row, col, band)))"
  using convert_moves [OF assms, of from_mode to_mode] by (simp only: moved_def)

lemma convert_correct_witness:
  "\<exists>out. convert [1, 2, 3, 4, 5, 6, 7, 8, 9, 10, 11, 12] ModeP ModeR 2 2 3 1 = Ok out \<and>
    length out = 12 \<and> sample 1 out 2 = [2] \<and> sample 1 out 11 = [12]"
proof -
  from convert_correct [of "[1, 2, 3, 4, 5, 6, 7, 8, 9, 10, 11, 12 :: byte]" 2 2 3 1 ModeP ModeR]
  obtain out where out: "convert [1, 2, 3, 4, 5, 6, 7, 8, 9, 10, 11, 12] ModeP ModeR 2 2 3 1 = Ok out"
    "length out = 12" "\<forall>row<2. \<forall>col<2. \<forall>band<3.
      sample 1 out (sample_index ModeR 2 2 3 (row, col, band)) =
      sample 1 [1, 2, 3, 4, 5, 6, 7, 8, 9, 10, 11, 12] (sample_index ModeP 2 2 3 (row, col, band))"
    by (auto simp: U64_def)
  have "sample 1 out (sample_index ModeR 2 2 3 (0, 0, 1)) = [2]" "sample 1 out (sample_index ModeR 2 2 3 (1, 1, 2)) = [12]"
    using out(3) by (simp_all add: sample_def del: sample_index.simps) (simp_all add: numeral_eq_Suc)
  then show ?thesis using out by simp
qed

text \<open>Converting to another mode and back gives the original image.\<close>

theorem convert_roundtrip:
  assumes "length data = nrows * ncols * nbands * bpp" "nrows * ncols * nbands * bpp < U64"
  shows "and_then (convert data a b nrows ncols nbands bpp) (\<lambda>out. convert out b a nrows ncols nbands bpp) = Ok data"
proof -
  obtain out where out: "convert data a b nrows ncols nbands bpp = Ok out" "moved a b nrows ncols nbands bpp data out"
    using convert_moves [OF assms] by blast
  then have "length out = nrows * ncols * nbands * bpp" using assms(1) by (simp add: moved_def)
  from convert_moves [OF this assms(2)] obtain again where
    again: "convert out b a nrows ncols nbands bpp = Ok again" "moved b a nrows ncols nbands bpp out again" by blast
  have "again = data" using moved_refl_eq [OF moved_trans [OF out(2) again(2)] assms(1)] .
  then show ?thesis using out again by simp
qed

lemma convert_roundtrip_witness:
  "and_then (convert [1, 2, 3, 4, 5, 6, 7, 8] ModeB ModeP 1 2 2 2) (\<lambda>out. convert out ModeP ModeB 1 2 2 2) =
    Ok [1, 2, 3, 4, 5, 6, 7, 8]"
  by (rule convert_roundtrip) (simp_all add: U64_def)

section \<open>The fused converters\<close>

lemma try_fold_concat: "try_fold (try_fold f) s xss = try_fold f s (concat xss)"
  by (induction xss arbitrary: s) (simp_all add: try_fold_append)

lemma tile_ranges_rows:
  "(\<exists>(a, b)\<in>set (tile_ranges nrows tile_rows start). a \<le> r \<and> r < b) \<longleftrightarrow> start \<le> r \<and> r < nrows"
proof (induction nrows tile_rows start rule: tile_ranges.induct)
  case (1 nrows tile_rows start)
  show ?case
  proof (cases "start < nrows")
    case True
    let ?e = "min (start + max 1 tile_rows) nrows"
    have "start < ?e" "?e \<le> nrows" using True by auto
    moreover have "tile_ranges nrows tile_rows start = (start, ?e) # tile_ranges nrows tile_rows ?e"
      using True by (subst tile_ranges.simps) (simp add: Let_def)
    ultimately show ?thesis using "1.IH" [OF True refl] by auto
  qed (simp add: tile_ranges.simps)
qed

definition fused_steps :: "nat \<Rightarrow> nat \<Rightarrow> nat \<Rightarrow> nat list option \<Rightarrow> (nat \<times> nat \<times> nat \<times> nat) set" where
  "fused_steps nrows ncols nbands bands =
    {(row, col, k, b). row < nrows \<and> col < ncols \<and> (k, b) \<in> set (band_pairs nbands bands)}"

lemma set_tile_steps:
  "(row, col, k, b) \<in> set (tile_steps ncols pairs tile) \<longleftrightarrow>
    fst tile \<le> row \<and> row < snd tile \<and> col < ncols \<and> (k, b) \<in> set pairs"
  by (auto simp: tile_steps_def)

lemma set_parallel_tasks:
  "\<Union> (set ` set (parallel_tasks nrows ncols nbands bands tile_rows)) = fused_steps nrows ncols nbands bands"
proof (rule set_eqI)
  fix p :: "nat \<times> nat \<times> nat \<times> nat"
  obtain row col k b where p: "p = (row, col, k, b)" by (metis prod_cases4)
  have "p \<in> \<Union> (set ` set (parallel_tasks nrows ncols nbands bands tile_rows)) \<longleftrightarrow>
    (\<exists>(x, y)\<in>set (tile_ranges nrows tile_rows 0). x \<le> row \<and> row < y) \<and>
    col < ncols \<and> (k, b) \<in> set (band_pairs nbands bands)"
    unfolding p parallel_tasks_def by (auto simp: set_tile_steps split_def)
  then show "p \<in> \<Union> (set ` set (parallel_tasks nrows ncols nbands bands tile_rows)) \<longleftrightarrow>
    p \<in> fused_steps nrows ncols nbands bands"
    by (simp add: tile_ranges_rows fused_steps_def p)
qed

lemma band_pairs_cases:
  assumes "(k, b) \<in> set (band_pairs nbands bands)"
  shows "k < length (band_pairs nbands bands)" "band_pairs nbands bands ! k = (k, b)"
  using assms by (cases bands; auto simp: in_set_zip)+

lemma band_pairs_source:
  assumes "band_selection nbands bands = Ok n" "(k, b) \<in> set (band_pairs nbands bands)"
  shows "b < nbands"
  using assms by (cases bands) (auto split: if_splits dest!: set_zip_rightD)

lemma band_selection_length:
  "band_selection nbands bands = Ok n \<Longrightarrow> n = length (band_pairs nbands bands)"
  by (cases bands) (auto split: if_splits)

lemma band_pairs_nth:
  assumes "k < length (band_pairs nbands bands)"
  shows "(k, snd (band_pairs nbands bands ! k)) \<in> set (band_pairs nbands bands)"
proof -
  have "fst (band_pairs nbands bands ! k) = k" using assms by (cases bands) simp_all
  then show ?thesis using nth_mem [OF assms] by (metis prod.collapse)
qed

definition swapped :: "bool \<Rightarrow> nat \<Rightarrow> 'a list \<Rightarrow> 'a list" where
  "swapped big_endian bpp bs = (if \<not> big_endian \<and> bpp \<in> {2, 4, 8} then rev bs else bs)"

lemma native_order_swapped: "length bs = bpp \<Longrightarrow> native_order big_endian bpp bs = swapped big_endian bpp bs"
  using be_bytes_be_val [of bs] by (auto simp: native_order_def swapped_def le_bytes_def)

lemma length_swapped [simp]: "length (swapped big_endian bpp bs) = length bs"
  by (simp add: swapped_def)

text \<open>Running the copies of the fused converters in any order.\<close>

lemma fused_any_order:
  assumes steps: "set ps = fused_steps nrows ncols nbands bands"
    and src: "length src = nrows * ncols * nbands * bpp" "nrows * ncols * nbands * bpp < U64"
    and dst: "length dst = nrows * ncols * n * bpp" "nrows * ncols * n * bpp < U64"
    and n: "band_selection nbands bands = Ok n"
  shows "\<exists>out. try_fold (fused_step big_endian src nrows ncols nbands bpp) dst ps = Ok out \<and>
    length out = length dst \<and>
    (\<forall>(row, col, k, b)\<in>fused_steps nrows ncols nbands bands.
      sample bpp out (sample_index ModeS nrows ncols n (row, col, k)) =
      swapped big_endian bpp (sample bpp src (sample_index ModeP nrows ncols nbands (row, col, b))))"
proof -
  let ?m = "nrows * ncols * n"
  let ?pos = "\<lambda>(row, col, k, b). sample_index ModeS nrows ncols n (row, col, k)"
  let ?blk = "\<lambda>(row, col, k, b). swapped big_endian bpp
    (sample bpp src (sample_index ModeP nrows ncols nbands (row, col, b)))"
  have nn: "n = length (band_pairs nbands bands)" using n by (rule band_selection_length)
  have elim: "\<exists>row col k b. p = (row, col, k, b) \<and> row < nrows \<and> col < ncols \<and> k < n \<and> b < nbands \<and>
      band_pairs nbands bands ! k = (k, b)" if p: "p \<in> set ps" for p
    using that band_pairs_cases band_pairs_source [OF n] nn unfolding steps fused_steps_def by fastforce
  have "\<exists>out. try_fold (fused_step big_endian src nrows ncols nbands bpp) dst ps = Ok out \<and>
    length out = ?m * bpp \<and> (\<forall>p\<in>set ps. sample bpp out (?pos p) = ?blk p) \<and>
    (\<forall>j<?m. j \<notin> ?pos ` set ps \<longrightarrow> sample bpp out j = sample bpp dst j)"
  proof (rule scatter)
    fix p assume "p \<in> set ps"
    then obtain row col k b where p: "p = (row, col, k, b)" "row < nrows" "col < ncols" "k < n" "b < nbands"
      "band_pairs nbands bands ! k = (k, b)" using elim by blast
    have s: "sample_index ModeP nrows ncols nbands (row, col, b) < nrows * ncols * nbands"
      and d: "sample_index ModeS nrows ncols n (row, col, k) < ?m"
      using p sample_index_less by blast+
    have s64: "sample_index ModeP nrows ncols nbands (row, col, b) * bpp < U64"
      and d64: "sample_index ModeS nrows ncols n (row, col, k) * bpp < U64"
      using index_offset_less [OF s src(2)] index_offset_less [OF d dst(2)] by auto
    have fits: "sample_index ModeP nrows ncols nbands (row, col, b) * bpp + bpp \<le> length src"
      using block_in [OF s, of bpp] src(1) by simp
    then have len: "length (sample bpp src (sample_index ModeP nrows ncols nbands (row, col, b))) = bpp"
      by (simp add: sample_def)
    then show "length (?blk p) = bpp \<and> ?pos p < ?m" using p d by simp
    have "(row * ncols + col) * (nbands * bpp) + b * bpp = sample_index ModeP nrows ncols nbands (row, col, b) * bpp"
      "k * (nrows * ncols * bpp) + (row * ncols + col) * bpp = sample_index ModeS nrows ncols n (row, col, k) * bpp"
      by (simp_all add: algebra_simps)
    then have offs: "wrap64 ((row * ncols + col) * (nbands * bpp) + b * bpp) =
        sample_index ModeP nrows ncols nbands (row, col, b) * bpp"
      "wrap64 (k * (nrows * ncols * bpp) + (row * ncols + col) * bpp) =
        sample_index ModeS nrows ncols n (row, col, k) * bpp"
      using s64 d64 by (simp_all del: sample_index.simps)
    show "fused_step big_endian src nrows ncols nbands bpp dst' p = Ok (overwrite (?pos p * bpp) (?blk p) dst')"
      if "length dst' = ?m * bpp" for dst'
    proof -
      have "sample_index ModeS nrows ncols n (row, col, k) * bpp + bpp \<le> length dst'"
        using block_in [OF d, of bpp] that by simp
      then show ?thesis
        using fits len unfolding p(1) fused_step.simps swap_copy.simps offs
        by (simp add: native_order_swapped sample_def del: sample_index.simps)
    qed
    show "?blk p = ?blk q" if q: "q \<in> set ps" "?pos p = ?pos q" for q
    proof -
      obtain row' col' k' b' where q': "q = (row', col', k', b')" "row' < nrows" "col' < ncols" "k' < n" "b' < nbands"
        "band_pairs nbands bands ! k' = (k', b')" using elim [OF q(1)] by blast
      have "(row, col, k) = (row', col', k')"
        by (rule sample_index_inj [of ModeS nrows ncols n]) (use q(2) q' p in \<open>simp_all del: sample_index.simps\<close>)
      then have "p = q" using p(1,6) q'(1,6) by simp
      then show ?thesis by simp
    qed
  qed (rule dst(1))
  then show ?thesis using dst(1) steps by (auto simp del: sample_index.simps)
qed

lemma fused_order_irrelevant:
  assumes "set ps = fused_steps nrows ncols nbands bands" "set qs = fused_steps nrows ncols nbands bands"
    and "length src = nrows * ncols * nbands * bpp" "nrows * ncols * nbands * bpp < U64"
    and "length dst = nrows * ncols * n * bpp" "nrows * ncols * n * bpp < U64"
    and n: "band_selection nbands bands = Ok n"
  shows "try_fold (fused_step big_endian src nrows ncols nbands bpp) dst ps =
    try_fold (fused_step big_endian src nrows ncols nbands bpp) dst qs"
proof -
  let ?f = "fused_step big_endian src nrows ncols nbands bpp"
  let ?spec = "\<lambda>out. length out = length dst \<and> (\<forall>(row, col, k, b)\<in>fused_steps nrows ncols nbands bands.
      sample bpp out (sample_index ModeS nrows ncols n (row, col, k)) =
      swapped big_endian bpp (sample bpp src (sample_index ModeP nrows ncols nbands (row, col, b))))"
  obtain x where x: "try_fold ?f dst ps = Ok x" "?spec x" using fused_any_order [OF assms(1,3-7)] by blast
  obtain y where y: "try_fold ?f dst qs = Ok y" "?spec y" using fused_any_order [OF assms(2-7)] by blast
  have "x = y"
  proof (rule list_eq_samples)
    show "length x = bpp * (nrows * ncols * n)" "length y = bpp * (nrows * ncols * n)"
      using x(2) y(2) assms(5) by (simp_all add: mult.commute)
    fix j
    assume "j < nrows * ncols * n"
    then obtain row col k where j: "row < nrows" "col < ncols" "k < n"
      "j = sample_index ModeS nrows ncols n (row, col, k)"
      by (rule sample_index_cases)
    have "(row, col, k, snd (band_pairs nbands bands ! k)) \<in> fused_steps nrows ncols nbands bands"
      using j band_pairs_nth band_selection_length [OF n] by (simp add: fused_steps_def)
    then show "sample bpp x j = sample bpp y j"
      using x(2) y(2) unfolding j(4) by fastforce
  qed
  then show ?thesis using x(1) y(1) by simp
qed

lemma set_sequential_steps:
  "set (concat (map (tile_steps ncols (band_pairs nbands bands)) (tile_ranges nrows tile_rows 0))) =
    fused_steps nrows ncols nbands bands"
  using set_parallel_tasks [of nrows ncols nbands bands tile_rows] by (simp add: parallel_tasks_def)

text \<open>The fused converter writes each selected band's samples, their bytes in the target's
  order, at their band-sequential places, whatever tile height is asked for.\<close>

theorem fused_bip_to_bsq_swap_correct:
  assumes "length src = nrows * ncols * nbands * bpp" "nrows * ncols * nbands * bpp < U64"
    and "length dst = nrows * ncols * length chosen * bpp" "nrows * ncols * length chosen * bpp < U64"
    and "\<forall>b\<in>set chosen. b < nbands"
  shows "\<exists>out. fused_bip_to_bsq_swap big_endian src dst nrows ncols nbands bpp (Some chosen) tile_rows = Ok out \<and>
    length out = length dst \<and>
    (\<forall>row<nrows. \<forall>col<ncols. \<forall>k<length chosen.
      sample bpp out (k * (nrows * ncols) + (row * ncols + col)) =
      (let bytes = sample bpp src ((row * ncols + col) * nbands + chosen ! k)
       in if \<not> big_endian \<and> bpp \<in> {2, 4, 8} then rev bytes else bytes))"
proof -
  have n: "band_selection nbands (Some chosen) = Ok (length chosen)" using assms(5) by auto
  have "fused_checks src dst nrows ncols nbands bpp (Some chosen) = Ok ()"
    unfolding fused_checks_def n using assms(1-4) by (simp add: expected_size_def)
  then have run: "fused_bip_to_bsq_swap big_endian src dst nrows ncols nbands bpp (Some chosen) tile_rows =
      try_fold (fused_step big_endian src nrows ncols nbands bpp) dst
        (concat (map (tile_steps ncols (band_pairs nbands (Some chosen))) (tile_ranges nrows tile_rows 0)))"
    unfolding fused_bip_to_bsq_swap_def try_fold_concat by simp
  obtain out where out: "try_fold (fused_step big_endian src nrows ncols nbands bpp) dst
        (concat (map (tile_steps ncols (band_pairs nbands (Some chosen))) (tile_ranges nrows tile_rows 0))) = Ok out"
    "length out = length dst" "\<forall>(row, col, k, b)\<in>fused_steps nrows ncols nbands (Some chosen).
      sample bpp out (sample_index ModeS nrows ncols (length chosen) (row, col, k)) =
      swapped big_endian bpp (sample bpp src (sample_index ModeP nrows ncols nbands (row, col, b)))"
    using fused_any_order [OF set_sequential_steps assms(1-4) n] by blast
  have "sample bpp out (k * (nrows * ncols) + (row * ncols + col)) =
      swapped big_endian bpp (sample bpp src ((row * ncols + col) * nbands + chosen ! k))"
    if "row < nrows" "col < ncols" "k < length chosen" for row col k
  proof -
    have "(k, chosen ! k) \<in> set (band_pairs nbands (Some chosen))"
      using band_pairs_nth [of k nbands "Some chosen"] that(3) by simp
    then have "(row, col, k, chosen ! k) \<in> fused_steps nrows ncols nbands (Some chosen)"
      using that by (simp add: fused_steps_def del: band_pairs.simps)
    then show ?thesis using out(3) by fastforce
  qed
  then show ?thesis using run out(1,2) by (simp add: swapped_def Let_def)
qed

lemma fused_bip_to_bsq_swap_correct_witness:
  "\<exists>out. fused_bip_to_bsq_swap False [0, 1, 0, 2, 0, 3, 0, 4, 0, 5, 0, 6] [0, 0, 0, 0, 0, 0, 0, 0]
      1 2 3 2 (Some [2, 0]) 1 = Ok out \<and> length out = 8 \<and> sample 2 out 0 = [3, 0] \<and> sample 2 out 3 = [4, 0]"
proof -
  let ?src = "[0, 1, 0, 2, 0, 3, 0, 4, 0, 5, 0, 6 :: byte]"
  from fused_bip_to_bsq_swap_correct [of ?src 1 2 3 2 "[0, 0, 0, 0, 0, 0, 0, 0]" "[2, 0]" False 1]
  obtain out where out: "fused_bip_to_bsq_swap False ?src [0, 0, 0, 0, 0, 0, 0, 0] 1 2 3 2 (Some [2, 0]) 1 = Ok out"
    "length out = 8" "\<forall>row<1. \<forall>col<2. \<forall>k<length [2, 0 :: nat].
      sample 2 out (k * (1 * 2) + (row * 2 + col)) =
      (let bytes = sample 2 ?src ((row * 2 + col) * 3 + [2, 0] ! k)
       in if \<not> False \<and> 2 \<in> {2, 4, 8 :: nat} then rev bytes else bytes)"
    by (auto simp: U64_def)
  have "sample 2 out (0 * (1 * 2) + (0 * 2 + 0)) = [3, 0]"
    using out(3) [THEN spec, THEN mp, of 0, THEN spec, THEN mp, of 0, THEN spec, THEN mp, of 0]
    by (simp add: sample_def)
  moreover have "sample 2 out (1 * (1 * 2) + (0 * 2 + 1)) = [4, 0]"
    using out(3) [THEN spec, THEN mp, of 0, THEN spec, THEN mp, of 1, THEN spec, THEN mp, of 1]
    by (simp add: sample_def)
  ultimately show ?thesis using out(1,2) by simp
qed

text \<open>C17: every interleaving of the parallel converter's tasks gives the result of the
  sequential one, errors included.\<close>

theorem parallel_conversion_deterministic:
  assumes "interleaving (parallel_tasks nrows ncols nbands bands tile_rows) schedule"
    and "nrows * ncols * nbands * bpp < U64" "nrows * ncols * length (band_pairs nbands bands) * bpp < U64"
  shows "fused_bip_to_bsq_swap_parallel big_endian schedule src dst nrows ncols nbands bpp bands tile_rows =
    fused_bip_to_bsq_swap big_endian src dst nrows ncols nbands bpp bands tile_rows"
proof (cases "fused_checks src dst nrows ncols nbands bpp bands")
  case (Ok u)
  then obtain n where n: "band_selection nbands bands = Ok n" "length src = nrows * ncols * nbands * bpp"
    "length dst = expected_size nrows ncols n bpp"
    using assms(2) by (auto simp: fused_checks_def expected_size_def outcome_simps split: if_splits)
  have "n = length (band_pairs nbands bands)" using n(1) by (rule band_selection_length)
  then have d: "length dst = nrows * ncols * n * bpp" "nrows * ncols * n * bpp < U64"
    using n(3) assms(3) by (simp_all add: expected_size_def)
  have "set schedule = fused_steps nrows ncols nbands bands"
    using interleaving_set [OF assms(1)] set_parallel_tasks by simp
  from fused_order_irrelevant [OF this set_sequential_steps [of _ _ _ _ tile_rows] n(2) assms(2) d n(1)] Ok
  show ?thesis
    by (simp add: fused_bip_to_bsq_swap_parallel_def fused_bip_to_bsq_swap_def try_fold_concat)
qed (simp_all add: fused_bip_to_bsq_swap_parallel_def fused_bip_to_bsq_swap_def)

lemma parallel_conversion_deterministic_witness:
  "fused_bip_to_bsq_swap_parallel False [(0, 0, 0, 0), (1, 0, 0, 0), (1, 0, 1, 1), (0, 0, 1, 1)]
      [1, 2, 3, 4] [0, 0, 0, 0] 2 1 2 1 None 1 =
    fused_bip_to_bsq_swap False [1, 2, 3, 4] [0, 0, 0, 0] 2 1 2 1 None 1"
proof (rule parallel_conversion_deterministic)
  have "tile_ranges 2 1 0 = [(0, 1), (1, 2)]" by (simp add: tile_ranges.simps)
  then have tasks: "parallel_tasks 2 1 2 None 1 = [[(0, 0, 0, 0), (0, 0, 1, 1)], [(1, 0, 0, 0), (1, 0, 1, 1)]]"
    by (simp add: parallel_tasks_def tile_steps_def upt_rec)
  show "interleaving (parallel_tasks 2 1 2 None 1) [(0, 0, 0, 0), (1, 0, 0, 0), (1, 0, 1, 1), (0, 0, 1, 1)]"
    unfolding tasks
    apply (rule interleaving.one_step [of 0], simp, simp, simp)
    apply (rule interleaving.one_step [of 1], simp, simp, simp)
    apply (rule interleaving.one_step [of 1], simp, simp, simp)
    apply (rule interleaving.one_step [of 0], simp, simp, simp)
    by (rule interleaving.finished) auto
qed (simp_all add: U64_def)

end
