(* ===== verification/Unicode_Text.thy ===== *)
theory Unicode_Text
  imports Prelude
begin

text \<open>
  Rust strings as lists of Unicode code points, with their UTF-8 encoding: \<open>str::as_bytes\<close>,
  \<open>str::from_utf8\<close>, \<open>str::trim\<close>, left-justified formatting and integer parsing of fields.
  Encoding and decoding are inverse to each other on valid text.
\<close>

section \<open>Definitions\<close>

type_synonym ustring = "nat list"

definition ascii :: "string \<Rightarrow> ustring" where
  "ascii s = map of_char s"

definition scalar_value :: "nat \<Rightarrow> bool" where
  "scalar_value c \<longleftrightarrow> c < 0xD800 \<or> 0xE000 \<le> c \<and> c < 0x110000"

definition utf8_char :: "nat \<Rightarrow> byte list" where
  "utf8_char c =
    (if c < 0x80 then [word_of_nat c]
     else if c < 0x800 then [word_of_nat (0xC0 + c div 64), word_of_nat (0x80 + c mod 64)]
     else if c < 0x10000 then
       [word_of_nat (0xE0 + c div 4096), word_of_nat (0x80 + c div 64 mod 64), word_of_nat (0x80 + c mod 64)]
     else
       [word_of_nat (0xF0 + c div 262144), word_of_nat (0x80 + c div 4096 mod 64),
        word_of_nat (0x80 + c div 64 mod 64), word_of_nat (0x80 + c mod 64)])"

definition utf8_encode :: "ustring \<Rightarrow> byte list" where
  "utf8_encode cs = concat (map utf8_char cs)"

definition continuation :: "byte \<Rightarrow> nat option" where
  "continuation b = (if unat b div 64 = 2 then Some (unat b mod 64) else None)"

text \<open>One code point off the front; overlong forms, surrogates and values above
  \<open>U+10FFFF\<close> are invalid.\<close>

fun utf8_next :: "byte list \<Rightarrow> (nat \<times> byte list) option" where
  "utf8_next [] = None"
| "utf8_next (b0 # bs) =
    (let v = unat b0 in
     if v < 0x80 then Some (v, bs)
     else if v div 32 = 6 then
       (case bs of b1 # r1 \<Rightarrow>
          (case continuation b1 of Some x1 \<Rightarrow>
             (let c = v mod 32 * 64 + x1 in if 0x80 \<le> c then Some (c, r1) else None)
           | None \<Rightarrow> None)
        | [] \<Rightarrow> None)
     else if v div 16 = 14 then
       (case bs of b1 # b2 # r2 \<Rightarrow>
          (case (continuation b1, continuation b2) of (Some x1, Some x2) \<Rightarrow>
             (let c = v mod 16 * 4096 + x1 * 64 + x2
              in if 0x800 \<le> c \<and> scalar_value c then Some (c, r2) else None)
           | _ \<Rightarrow> None)
        | _ \<Rightarrow> None)
     else if v div 8 = 30 then
       (case bs of b1 # b2 # b3 # r3 \<Rightarrow>
          (case (continuation b1, continuation b2, continuation b3) of (Some x1, Some x2, Some x3) \<Rightarrow>
             (let c = v mod 8 * 262144 + x1 * 4096 + x2 * 64 + x3
              in if 0x10000 \<le> c \<and> scalar_value c then Some (c, r3) else None)
           | _ \<Rightarrow> None)
        | _ \<Rightarrow> None)
     else None)"

lemma utf8_next_shorter: "utf8_next bs = Some (c, r) \<Longrightarrow> length r < length bs"
  by (cases bs) (auto simp: Let_def split: if_splits list.splits option.splits)

function utf8_decode :: "byte list \<Rightarrow> ustring option" where
  "utf8_decode bs =
    (if bs = [] then Some []
     else case utf8_next bs of
       Some (c, r) \<Rightarrow> map_option (Cons c) (utf8_decode r)
     | None \<Rightarrow> None)"
  by pat_completeness auto
termination by (relation "measure length") (auto dest: utf8_next_shorter)

declare utf8_decode.simps [simp del]

text \<open>\<open>char::is_whitespace\<close> and \<open>str::trim\<close>.\<close>

definition is_white_space :: "nat \<Rightarrow> bool" where
  "is_white_space c \<longleftrightarrow> 9 \<le> c \<and> c \<le> 13 \<or> c = 0x20 \<or> c = 0x85 \<or> c = 0xA0 \<or> c = 0x1680 \<or>
    0x2000 \<le> c \<and> c \<le> 0x200A \<or> c = 0x2028 \<or> c = 0x2029 \<or> c = 0x202F \<or> c = 0x205F \<or> c = 0x3000"

definition trim_end_matches :: "(nat \<Rightarrow> bool) \<Rightarrow> ustring \<Rightarrow> ustring" where
  "trim_end_matches p s = rev (dropWhile p (rev s))"

definition trim_text :: "ustring \<Rightarrow> ustring" where
  "trim_text s = trim_end_matches is_white_space (dropWhile is_white_space s)"

text \<open>\<open>format!("{:<w}")\<close>: the width counts characters, longer texts are kept whole.\<close>

definition left_justify :: "nat \<Rightarrow> ustring \<Rightarrow> ustring" where
  "left_justify w s = s @ replicate (w - length s) 0x20"

text \<open>\<open>str::parse\<close> for an unsigned type.\<close>

definition parse_text :: "nat \<Rightarrow> ustring \<Rightarrow> nat option" where
  "parse_text bound s = (if list_all (\<lambda>c. c < 0x80) s then parse_unsigned bound (map char_of s) else None)"

section \<open>Lemmas\<close>

lemma length_left_justify: "length s \<le> w \<Longrightarrow> length (left_justify w s) = w"
  by (simp add: left_justify_def)

lemma utf8_decode_Nil [simp]: "utf8_decode [] = Some []"
  by (simp add: utf8_decode.simps)

lemma utf8_encode_simps [simp]:
  "utf8_encode [] = []" "utf8_encode (c # cs) = utf8_char c @ utf8_encode cs"
  "utf8_encode (xs @ ys) = utf8_encode xs @ utf8_encode ys"
  by (simp_all add: utf8_encode_def)

lemma utf8_char_ascii: "c < 0x80 \<Longrightarrow> utf8_char c = [word_of_nat c]"
  by (simp add: utf8_char_def)

lemma utf8_encode_ascii: "list_all (\<lambda>c. c < 0x80) s \<Longrightarrow> utf8_encode s = map word_of_nat s"
  by (induction s) (auto simp: utf8_char_ascii)

lemma length_utf8_ge: "length s \<le> length (utf8_encode s)"
  by (induction s) (auto simp: utf8_char_def)

lemma unat_of_nat_byte: "n < 256 \<Longrightarrow> unat (word_of_nat n :: byte) = n"
  by (simp add: unat_of_nat)

lemma base_divmod:
  fixes y m k :: nat
  assumes "y < m"
  shows "(k * m + y) div m = k" "(k * m + y) mod m = y"
  using assms by simp_all

lemma continuation_of: "x < 64 \<Longrightarrow> continuation (word_of_nat (0x80 + x)) = Some x"
  using base_divmod [of x 64 2] by (simp add: continuation_def unat_of_nat_byte del: of_nat_add)

lemma utf8_next_char:
  assumes "scalar_value c"
  shows "utf8_next (utf8_char c @ r) = Some (c, r)"
proof -
  consider "c < 0x80" | "0x80 \<le> c" "c < 0x800" | "0x800 \<le> c" "c < 0x10000" | "0x10000 \<le> c" by linarith
  then show ?thesis
  proof cases
    case 1
    then show ?thesis by (simp add: utf8_char_def unat_of_nat_byte)
  next
    case 2
    then have "c div 64 < 32" by simp
    then have "(0xC0 + c div 64) div 32 = 6" "(0xC0 + c div 64) mod 32 = c div 64" "0xC0 + c div 64 < 256"
      using base_divmod [of "c div 64" 32 6] by simp_all
    moreover have "c div 64 * 64 + c mod 64 = c" by simp
    ultimately show ?thesis using 2
      by (simp add: utf8_char_def unat_of_nat_byte continuation_of del: of_nat_add)
  next
    case 3
    then have "c div 4096 < 16" by simp
    then have "(0xE0 + c div 4096) div 32 = 7" "(0xE0 + c div 4096) div 16 = 14"
      "(0xE0 + c div 4096) mod 16 = c div 4096" "0xE0 + c div 4096 < 256"
      using base_divmod [of "c div 4096" 32 7] base_divmod [of "c div 4096" 16 14] by simp_all
    moreover have "c div 4096 * 4096 + c div 64 mod 64 * 64 + c mod 64 = c"
    proof -
      have "c div 64 = c div 64 div 64 * 64 + c div 64 mod 64" by (rule div_mult_mod_eq [symmetric])
      moreover have "c div 64 div 64 = c div 4096" by (simp add: div_mult2_eq [symmetric])
      moreover have "c = c div 64 * 64 + c mod 64" by simp
      ultimately show ?thesis by linarith
    qed
    ultimately show ?thesis using 3 assms
      by (simp add: utf8_char_def unat_of_nat_byte continuation_of del: of_nat_add)
  next
    case 4
    have "c < 0x110000" using assms by (auto simp: scalar_value_def)
    then have "c div 262144 < 5" by simp
    then have "(0xF0 + c div 262144) div 32 = 7" "(0xF0 + c div 262144) div 16 = 15"
      "(0xF0 + c div 262144) div 8 = 30" "(0xF0 + c div 262144) mod 8 = c div 262144"
      "0xF0 + c div 262144 < 256"
      using base_divmod [of "16 + c div 262144" 32 7] base_divmod [of "c div 262144" 16 15]
        base_divmod [of "c div 262144" 8 30] by simp_all
    moreover have "c div 262144 * 262144 + c div 4096 mod 64 * 4096 + c div 64 mod 64 * 64 + c mod 64 = c"
    proof -
      have "c div 4096 = c div 4096 div 64 * 64 + c div 4096 mod 64" by (rule div_mult_mod_eq [symmetric])
      moreover have "c div 4096 div 64 = c div 262144" by (simp add: div_mult2_eq [symmetric])
      moreover have "c div 64 = c div 64 div 64 * 64 + c div 64 mod 64" by (rule div_mult_mod_eq [symmetric])
      moreover have "c div 64 div 64 = c div 4096" by (simp add: div_mult2_eq [symmetric])
      moreover have "c = c div 64 * 64 + c mod 64" by simp
      ultimately show ?thesis by linarith
    qed
    ultimately show ?thesis using 4 assms
      by (simp add: utf8_char_def unat_of_nat_byte continuation_of del: of_nat_add)
  qed
qed

lemma utf8_char_nonempty [simp]: "utf8_char c \<noteq> []"
  by (simp add: utf8_char_def)

lemma utf8_decode_encode: "list_all scalar_value s \<Longrightarrow> utf8_decode (utf8_encode s) = Some s"
proof (induction s)
  case (Cons c s)
  then show ?case by (subst utf8_decode.simps) (simp add: utf8_next_char)
qed simp

lemma ascii_scalar: "list_all (\<lambda>c. c < 0x80) s \<Longrightarrow> list_all scalar_value s"
  by (induction s) (auto simp: scalar_value_def)

lemma utf8_decode_ascii:
  "list_all (\<lambda>c. c < 0x80) s \<Longrightarrow> utf8_decode (map word_of_nat s) = Some s"
  using utf8_decode_encode [OF ascii_scalar] by (simp add: utf8_encode_ascii)

lemma trim_id:
  assumes "\<And>c. c \<in> set s \<Longrightarrow> \<not> is_white_space c"
  shows "trim_text s = s"
proof -
  have "dropWhile is_white_space s = s" "dropWhile is_white_space (rev s) = rev s"
    using assms by (auto simp: dropWhile_eq_self_iff hd_rev)
  then show ?thesis by (simp add: trim_text_def trim_end_matches_def)
qed

text \<open>Decimal text written by \<open>format!\<close>.\<close>

lemma ascii_digits:
  assumes "\<forall>c\<in>set s. \<exists>d<10. c = digit_char d"
  shows "list_all (\<lambda>c. c < 0x80) (ascii s)" "\<forall>c\<in>set (ascii s). \<not> is_white_space c" "map char_of (ascii s) = s"
proof -
  have "48 \<le> (of_char c :: nat) \<and> (of_char c :: nat) < 58" if "c \<in> set s" for c
    using assms that of_char_digit by fastforce
  then show "list_all (\<lambda>c. c < 0x80) (ascii s)" "\<forall>c\<in>set (ascii s). \<not> is_white_space c"
    by (fastforce simp: list_all_iff ascii_def is_white_space_def)+
  show "map char_of (ascii s) = s" by (simp add: ascii_def comp_def)
qed

lemma parse_text_zero_pad:
  assumes "n < bound"
  shows "parse_text bound (trim_text (ascii (zero_pad w n))) = Some n"
proof -
  have d: "\<forall>c\<in>set (zero_pad w n). \<exists>d<10. c = digit_char d" using zero_pad_digits by blast
  have "trim_text (ascii (zero_pad w n)) = ascii (zero_pad w n)"
    using ascii_digits(2) [OF d] by (intro trim_id) blast
  then show ?thesis
    by (simp only: parse_text_def ascii_digits(1,3) [OF d] parse_zero_pad [OF assms] if_True)
qed

text \<open>Numbers of at most \<open>k\<close> characters are below \<open>10 ^ k\<close>.\<close>

lemma length_trim_text: "length (trim_text s) \<le> length s"
  unfolding trim_text_def trim_end_matches_def
  by (metis length_dropWhile_le length_rev order_trans)

lemma length_utf8_decode: "utf8_decode bs = Some cs \<Longrightarrow> length cs \<le> length bs"
proof (induction bs arbitrary: cs rule: utf8_decode.induct)
  case (1 bs)
  show ?case
  proof (cases "bs = []")
    case True
    then show ?thesis using "1.prems" by simp
  next
    case False
    then obtain c r cs' where "utf8_next bs = Some (c, r)" "utf8_decode r = Some cs'" "cs = c # cs'"
      using "1.prems" by (subst (asm) utf8_decode.simps) (auto split: option.splits)
    then show ?thesis using "1.IH" [OF False] utf8_next_shorter [of bs c r] by fastforce
  qed
qed

lemma digits_val_bound: "digits_val a s = Some n \<Longrightarrow> n < (a + 1) * 10 ^ length s"
proof (induction s arbitrary: a)
  case (Cons c s)
  then obtain d where d: "char_digit c = Some d" "digits_val (a * 10 + d) s = Some n"
    by (auto split: option.splits)
  have "d < 10" using d(1) by (auto simp: char_digit_def split: if_splits)
  then have "(a * 10 + d + 1) * 10 ^ length s \<le> (a + 1) * 10 * 10 ^ length s" by (intro mult_right_mono) auto
  moreover have "n < (a * 10 + d + 1) * 10 ^ length s" using Cons.IH [OF d(2)] .
  ultimately have "n < (a + 1) * 10 * 10 ^ length s" by (rule less_le_trans [rotated])
  then show ?case by (metis length_Cons mult.assoc power_Suc)
qed simp

lemma parse_text_bound:
  assumes "parse_text b s = Some n"
  shows "n < 10 ^ length s"
proof -
  have p: "parse_unsigned b (map char_of s) = Some n" using assms by (simp add: parse_text_def split: if_splits)
  define ds where "ds = (case map char_of s of c # cs \<Rightarrow> if c = CHR ''+'' then cs else map char_of s | [] \<Rightarrow> [])"
  have "digits_val 0 ds = Some n"
    using p unfolding parse_unsigned_def ds_def [symmetric] by (simp split: if_splits option.splits)
  moreover have "length ds \<le> length s" by (cases s) (auto simp: ds_def)
  ultimately have "n < 10 ^ length ds" "(10 :: nat) ^ length ds \<le> 10 ^ length s"
    using digits_val_bound [of 0 ds n] by (auto intro: power_increasing)
  then show ?thesis by linarith
qed

end
