(* ===== verification/Field_Value.thy ===== *)
theory Field_Value
  imports Unicode_Text
begin

text \<open>
  The values a field accessor returns and their conversions: \<open>src/src/parser/value.rs\<close>,
  together with the byte-level encodings of \<open>src/src/parser/types.rs\<close> and
  \<open>src/src/parser/encoding.rs\<close>.  Floating-point numbers are of an abstract type, with the
  standard library's conversions as a parameter.
\<close>

section \<open>Values\<close>

datatype 'f val =
    VString ustring
  | VBytes "byte list"
  | VUnsigned nat
  | VSigned int
  | VFloat 'f
  | VStruct "byte list" string
  | VArray "'f val list"

datatype conversion_error = TypeMismatch | ConvParseError

text \<open>What the conversions use of \<open>f64\<close>: parsing, the saturating casts and the casts from
  integers.\<close>

record 'f float_conv =
  parse_f64 :: "ustring \<Rightarrow> 'f option"
  f64_to_i64 :: "'f \<Rightarrow> int"
  f64_to_u64 :: "'f \<Rightarrow> nat"
  f64_of_int :: "int \<Rightarrow> 'f"

definition parse_int64 :: "ustring \<Rightarrow> int option" where
  "parse_int64 s = (if list_all (\<lambda>c. c < 0x80) s then map_option sint (parse_i64 (map char_of s)) else None)"

text \<open>Parsing a number out of text: blanks around it are dropped, empty text is zero.\<close>

definition number_of_text :: "(ustring \<Rightarrow> 'a option) \<Rightarrow> 'a \<Rightarrow> ustring \<Rightarrow> ('a, conversion_error) outcome" where
  "number_of_text parse zero s =
    (let trimmed = trim_text s in if trimmed = [] then Ok zero else ok_or ConvParseError (parse trimmed))"

definition from_utf8 :: "byte list \<Rightarrow> (ustring, conversion_error) outcome" where
  "from_utf8 bs = ok_or ConvParseError (utf8_decode bs)"

fun as_str_with_pad :: "nat \<Rightarrow> 'f val \<Rightarrow> (ustring, conversion_error) outcome" where
  "as_str_with_pad pad (VString s) = Ok (trim_end_matches (\<lambda>c. c = pad) s)"
| "as_str_with_pad pad (VBytes bs) = map_ok (trim_end_matches (\<lambda>c. c = pad)) (from_utf8 bs)"
| "as_str_with_pad pad _ = Err TypeMismatch"

definition as_str :: "'f val \<Rightarrow> (ustring, conversion_error) outcome" where
  "as_str v = as_str_with_pad 0x20 v"

fun as_i64 :: "'f float_conv \<Rightarrow> 'f val \<Rightarrow> (int, conversion_error) outcome" where
  "as_i64 fc (VString s) = number_of_text parse_int64 0 s"
| "as_i64 fc (VBytes bs) = and_then (from_utf8 bs) (number_of_text parse_int64 0)"
| "as_i64 fc (VUnsigned n) = (if n < 2 ^ 63 then Ok (int n) else Err ConvParseError)"
| "as_i64 fc (VSigned n) = Ok n"
| "as_i64 fc (VFloat f) = Ok (f64_to_i64 fc f)"
| "as_i64 fc _ = Err TypeMismatch"

fun as_u64 :: "'f float_conv \<Rightarrow> 'f val \<Rightarrow> (nat, conversion_error) outcome" where
  "as_u64 fc (VString s) = number_of_text (parse_text U64) 0 s"
| "as_u64 fc (VBytes bs) = and_then (from_utf8 bs) (number_of_text (parse_text U64) 0)"
| "as_u64 fc (VUnsigned n) = Ok n"
| "as_u64 fc (VSigned n) = (if n \<ge> 0 then Ok (nat n) else Err ConvParseError)"
| "as_u64 fc (VFloat f) = Ok (f64_to_u64 fc f)"
| "as_u64 fc _ = Err TypeMismatch"

fun as_f64 :: "'f float_conv \<Rightarrow> 'f val \<Rightarrow> ('f, conversion_error) outcome" where
  "as_f64 fc (VString s) = number_of_text (parse_f64 fc) (f64_of_int fc 0) s"
| "as_f64 fc (VBytes bs) = and_then (from_utf8 bs) (number_of_text (parse_f64 fc) (f64_of_int fc 0))"
| "as_f64 fc (VUnsigned n) = Ok (f64_of_int fc (int n))"
| "as_f64 fc (VSigned n) = Ok (f64_of_int fc n)"
| "as_f64 fc (VFloat f) = Ok f"
| "as_f64 fc _ = Err TypeMismatch"

fun val_bytes :: "'f val \<Rightarrow> byte list" where
  "val_bytes (VString s) = utf8_encode s"
| "val_bytes (VBytes bs) = bs"
| "val_bytes (VStruct d _) = d"
| "val_bytes _ = []"

section \<open>Encodings\<close>

datatype encoding = EncAscii | EncBcsA | EncBcsN | EncBcsNPI | EncEcsA | EncUtf8

fun default_pad :: "encoding \<Rightarrow> byte" where
  "default_pad EncBcsN = 0x30"
| "default_pad EncBcsNPI = 0x30"
| "default_pad _ = 0x20"

definition is_digit_byte :: "byte \<Rightarrow> bool" where
  "is_digit_byte b \<longleftrightarrow> 0x30 \<le> b \<and> b \<le> 0x39"

definition is_valid_bcs_a_byte :: "byte \<Rightarrow> bool" where
  "is_valid_bcs_a_byte b \<longleftrightarrow> 0x20 \<le> b \<and> b \<le> 0x7E"

definition is_valid_bcs_n_byte :: "byte \<Rightarrow> bool" where
  "is_valid_bcs_n_byte b \<longleftrightarrow> is_digit_byte b \<or> b = 0x20 \<or> b = 0x2B \<or> b = 0x2D \<or> b = 0x2E \<or> b = 0x2F"

definition is_valid_bcs_npi_byte :: "byte \<Rightarrow> bool" where
  "is_valid_bcs_npi_byte b \<longleftrightarrow> is_digit_byte b \<or> b = 0x20"

definition is_valid_ecs_a_byte :: "byte \<Rightarrow> bool" where
  "is_valid_ecs_a_byte b \<longleftrightarrow> 0x20 \<le> b"

fun is_valid_byte :: "encoding \<Rightarrow> byte \<Rightarrow> bool" where
  "is_valid_byte EncAscii b \<longleftrightarrow> unat b < 128"
| "is_valid_byte EncBcsA b \<longleftrightarrow> 0x20 \<le> b \<and> b \<le> 0x7E"
| "is_valid_byte EncBcsN b \<longleftrightarrow>
    is_digit_byte b \<or> b = 0x20 \<or> b = 0x2B \<or> b = 0x2D \<or> b = 0x2E \<or> b = 0x2F"
| "is_valid_byte EncBcsNPI b \<longleftrightarrow> is_digit_byte b \<or> b = 0x20"
| "is_valid_byte EncEcsA b \<longleftrightarrow> 0x20 \<le> b"
| "is_valid_byte EncUtf8 b \<longleftrightarrow> True"

definition enc_validate :: "encoding \<Rightarrow> byte list \<Rightarrow> bool" where
  "enc_validate e d = (if e = EncUtf8 then utf8_decode d \<noteq> None else list_all (is_valid_byte e) d)"

definition validate_bcs_a :: "byte list \<Rightarrow> bool" where "validate_bcs_a d = list_all is_valid_bcs_a_byte d"
definition validate_bcs_n :: "byte list \<Rightarrow> bool" where "validate_bcs_n d = list_all is_valid_bcs_n_byte d"
definition validate_bcs_npi :: "byte list \<Rightarrow> bool" where "validate_bcs_npi d = list_all is_valid_bcs_npi_byte d"
definition validate_ecs_a :: "byte list \<Rightarrow> bool" where "validate_ecs_a d = list_all is_valid_ecs_a_byte d"

record validation_result =
  is_valid :: bool
  first_invalid_index :: "nat option"
  first_invalid_byte :: "byte option"

fun validate_detailed :: "(byte \<Rightarrow> bool) \<Rightarrow> nat \<Rightarrow> byte list \<Rightarrow> validation_result" where
  "validate_detailed ok i [] = \<lparr>is_valid = True, first_invalid_index = None, first_invalid_byte = None\<rparr>"
| "validate_detailed ok i (b # bs) =
    (if \<not> ok b then \<lparr>is_valid = False, first_invalid_index = Some i, first_invalid_byte = Some b\<rparr>
     else validate_detailed ok (i + 1) bs)"

definition validate_bcs_a_detailed :: "byte list \<Rightarrow> validation_result" where
  "validate_bcs_a_detailed = validate_detailed is_valid_bcs_a_byte 0"

definition validate_bcs_n_detailed :: "byte list \<Rightarrow> validation_result" where
  "validate_bcs_n_detailed = validate_detailed is_valid_bcs_n_byte 0"

definition validate_ecs_a_detailed :: "byte list \<Rightarrow> validation_result" where
  "validate_ecs_a_detailed = validate_detailed is_valid_ecs_a_byte 0"

section \<open>Lemmas\<close>

lemma trim_end_matches_padding:
  assumes "s = [] \<or> \<not> p (last s)" "\<forall>c\<in>set r. p c"
  shows "trim_end_matches p (s @ r) = s"
proof -
  have "dropWhile p (rev r @ rev s) = dropWhile p (rev s)" using assms(2) by (intro dropWhile_append2) simp
  moreover have "dropWhile p (rev s) = rev s" using assms(1) by (auto simp: dropWhile_eq_self_iff hd_rev)
  ultimately show ?thesis by (simp add: trim_end_matches_def)
qed

lemma as_str_padded:
  assumes "s = [] \<or> last s \<noteq> 0x20"
  shows "as_str (VString (left_justify w s)) = Ok s"
  using trim_end_matches_padding [of s "\<lambda>c. c = 0x20" "replicate (w - length s) 0x20"] assms
  by (simp add: as_str_def left_justify_def)

lemma as_u64_zero_pad:
  assumes "n < U64"
  shows "as_u64 fc (VString (ascii (zero_pad w n))) = Ok n"
proof -
  have d: "\<forall>c\<in>set (zero_pad w n). \<exists>d<10. c = digit_char d" using zero_pad_digits by blast
  have t: "trim_text (ascii (zero_pad w n)) = ascii (zero_pad w n)"
    using ascii_digits(2) [OF d] by (intro trim_id) blast
  have "ascii (zero_pad w n) \<noteq> []" by (simp add: ascii_def zero_pad_def Let_def)
  then show ?thesis
    using parse_text_zero_pad [OF assms, of w] t by (simp add: number_of_text_def)
qed

lemma validate_detailed_iff: "is_valid (validate_detailed ok i d) \<longleftrightarrow> list_all ok d"
  by (induction d arbitrary: i) auto

lemma validate_detailed_index:
  "\<not> is_valid (validate_detailed ok i d) \<Longrightarrow>
    \<exists>k<length d. first_invalid_index (validate_detailed ok i d) = Some (i + k) \<and>
      first_invalid_byte (validate_detailed ok i d) = Some (d ! k) \<and> \<not> ok (d ! k) \<and> list_all ok (take k d)"
proof (induction d arbitrary: i)
  case (Cons b d)
  show ?case
  proof (cases "ok b")
    case True
    then obtain k where "k < length d" "first_invalid_index (validate_detailed ok (i + 1) d) = Some (i + 1 + k)"
      "first_invalid_byte (validate_detailed ok (i + 1) d) = Some (d ! k)" "\<not> ok (d ! k)" "list_all ok (take k d)"
      using Cons.IH [of "i + 1"] Cons.prems by auto
    then show ?thesis using True by (intro exI [of _ "Suc k"]) auto
  qed (intro exI [of _ 0], simp)
qed simp

end
