(* ===== verification/Tre.thy ===== *)
theory Tre
  imports Unicode_Text
begin

text \<open>
  Tagged record extensions: the envelopes of \<open>src/src/jbp/tre.rs\<close> and the error type of
  \<open>src/src/jbp/error.rs\<close>.  An envelope is a six-character tag, a five-digit length and that
  many bytes of data; a segment holds a sequence of them.
\<close>

section \<open>Definitions\<close>

text \<open>\<open>JBPError\<close>, without the messages; \<open>JParserError\<close> stands for a wrapped parser error.\<close>

datatype jbp_error =
    JInvalidFormat
  | JAssetNotFound string
  | JDuplicateKey string
  | JValidationError
  | JSegmentParseError nat
  | JDefinitionNotFound string
  | JIoError
  | JParserError
  | JInvalidCetag
  | JLengthMismatch nat nat
  | JUnexpectedEof nat nat
  | JInvalidOverflowIndex nat nat

fun codec_error_of_jbp :: "jbp_error \<Rightarrow> codec_error" where
  "codec_error_of_jbp JInvalidFormat = InvalidFormat"
| "codec_error_of_jbp (JAssetNotFound key) = AssetNotFound key"
| "codec_error_of_jbp (JDuplicateKey key) = DuplicateKey key"
| "codec_error_of_jbp JValidationError = ParseError"
| "codec_error_of_jbp (JSegmentParseError offset) = ParseError"
| "codec_error_of_jbp (JDefinitionNotFound name) = InvalidFormat"
| "codec_error_of_jbp JIoError = IoError"
| "codec_error_of_jbp JParserError = ParseError"
| "codec_error_of_jbp JInvalidCetag = ParseError"
| "codec_error_of_jbp (JLengthMismatch cel actual) = ParseError"
| "codec_error_of_jbp (JUnexpectedEof expected available) = ParseError"
| "codec_error_of_jbp (JInvalidOverflowIndex index count) = ParseError"

definition CETAG_SIZE :: nat where "CETAG_SIZE = 6"
definition CEL_SIZE :: nat where "CEL_SIZE = 5"
definition MIN_ENVELOPE_SIZE :: nat where "MIN_ENVELOPE_SIZE = CETAG_SIZE + CEL_SIZE"

record tre_envelope =
  tag :: ustring
  tre_data :: "byte list"

definition ascii_alphanumeric :: "nat \<Rightarrow> bool" where
  "ascii_alphanumeric c \<longleftrightarrow> 48 \<le> c \<and> c \<le> 57 \<or> 65 \<le> c \<and> c \<le> 90 \<or> 97 \<le> c \<and> c \<le> 122"

definition validate_cetag :: "ustring \<Rightarrow> (unit, jbp_error) outcome" where
  "validate_cetag t =
    (if length (utf8_encode t) > CETAG_SIZE then Err JInvalidCetag
     else if \<not> list_all (\<lambda>c. ascii_alphanumeric c \<or> c = 0x20) t then Err JInvalidCetag
     else Ok ())"

definition tre_new :: "ustring \<Rightarrow> byte list \<Rightarrow> (tre_envelope, jbp_error) outcome" where
  "tre_new t d = and_then (validate_cetag t) (\<lambda>_. Ok \<lparr>tag = t, tre_data = d\<rparr>)"

definition tre_parse :: "byte list \<Rightarrow> (tre_envelope \<times> nat, jbp_error) outcome" where
  "tre_parse d =
    (if length d < MIN_ENVELOPE_SIZE then Err (JUnexpectedEof MIN_ENVELOPE_SIZE (length d))
     else
       and_then (ok_or JInvalidCetag (utf8_decode (take CETAG_SIZE d))) (\<lambda>cetag.
       and_then (validate_cetag cetag) (\<lambda>_.
       and_then (ok_or JInvalidFormat (utf8_decode (take CEL_SIZE (drop CETAG_SIZE d)))) (\<lambda>cel_str.
       and_then (ok_or JInvalidFormat (parse_text U64 (trim_text cel_str))) (\<lambda>cel.
       let total_size = add64 MIN_ENVELOPE_SIZE cel
       in if length d < total_size then Err (JUnexpectedEof total_size (length d))
          else and_then (slice MIN_ENVELOPE_SIZE total_size d) (\<lambda>cedata.
            Ok (\<lparr>tag = cetag, tre_data = cedata\<rparr>, total_size)))))))"

text \<open>\<open>parse_all\<close> walks an offset through the data; every envelope consumes at least eleven
  bytes.\<close>

lemma tre_parse_consumes: "tre_parse d = Ok (e, n) \<Longrightarrow> MIN_ENVELOPE_SIZE \<le> n \<and> n \<le> length d"
  by (auto simp: tre_parse_def Let_def outcome_simps blit_simps split: if_splits)

function tre_parse_from :: "byte list \<Rightarrow> nat \<Rightarrow> (tre_envelope list, jbp_error) outcome" where
  "tre_parse_from d offset =
    (if offset < length d then
       (case tre_parse (drop offset d) of
          Ok (envelope, consumed) \<Rightarrow>
            map_ok (Cons envelope) (tre_parse_from d (offset + consumed))
        | Err e \<Rightarrow> Err e
        | Panic \<Rightarrow> Panic)
     else Ok [])"
  by pat_completeness auto
termination
  by (relation "measure (\<lambda>(d, offset). length d - offset)")
    (auto dest!: tre_parse_consumes simp: MIN_ENVELOPE_SIZE_def CETAG_SIZE_def)

declare tre_parse_from.simps [simp del]

definition tre_parse_all :: "byte list \<Rightarrow> (tre_envelope list, jbp_error) outcome" where
  "tre_parse_all d = tre_parse_from d 0"

definition tre_to_bytes :: "tre_envelope \<Rightarrow> byte list" where
  "tre_to_bytes e =
    (let tag_bytes = utf8_encode (tag e) in
     tag_bytes @
     (if length tag_bytes < CETAG_SIZE then replicate (CETAG_SIZE - length tag_bytes) 0x20 else []) @
     utf8_encode (ascii (zero_pad 5 (length (tre_data e)))) @
     tre_data e)"

definition envelope_size :: "tre_envelope \<Rightarrow> nat" where
  "envelope_size e = MIN_ENVELOPE_SIZE + length (tre_data e)"

definition write_tre_envelopes :: "tre_envelope list \<Rightarrow> byte list" where
  "write_tre_envelopes es = concat (map tre_to_bytes es)"

section \<open>Round trip\<close>

text \<open>Envelopes as \<open>new\<close> accepts them with data the five-digit length field can hold, and
  what they read back as: the tag padded to six characters.\<close>

definition tre_valid :: "tre_envelope \<Rightarrow> bool" where
  "tre_valid e \<longleftrightarrow> validate_cetag (tag e) = Ok () \<and> length (tre_data e) < 100000"

definition padded :: "tre_envelope \<Rightarrow> tre_envelope" where
  "padded e = e\<lparr>tag := left_justify CETAG_SIZE (tag e)\<rparr>"

lemma validate_cetag_Ok:
  "validate_cetag t = Ok () \<longleftrightarrow> length t \<le> 6 \<and> list_all (\<lambda>c. ascii_alphanumeric c \<or> c = 0x20) t"
proof -
  have "list_all (\<lambda>c. c < 0x80) t" if "list_all (\<lambda>c. ascii_alphanumeric c \<or> c = 0x20) t"
    using that by (induction t) (auto simp: ascii_alphanumeric_def)
  then show ?thesis
    by (auto simp: validate_cetag_def CETAG_SIZE_def utf8_encode_ascii)
qed

lemma cetag_ascii: "validate_cetag t = Ok () \<Longrightarrow> list_all (\<lambda>c. c < 0x80) t"
  unfolding validate_cetag_Ok by (induction t) (auto simp: ascii_alphanumeric_def)

lemma left_justify_cetag:
  assumes "validate_cetag t = Ok ()"
  shows "validate_cetag (left_justify CETAG_SIZE t) = Ok ()" "length (left_justify CETAG_SIZE t) = 6"
  using assms by (auto simp: validate_cetag_Ok left_justify_def CETAG_SIZE_def list_all_iff)

lemma tre_bytes_layout:
  assumes "tre_valid e"
  shows "tre_to_bytes e = map word_of_nat (left_justify CETAG_SIZE (tag e)) @
      map word_of_nat (ascii (zero_pad 5 (length (tre_data e)))) @ tre_data e"
    and "length (zero_pad 5 (length (tre_data e))) = 5"
proof -
  have v: "validate_cetag (tag e) = Ok ()" and n: "length (tre_data e) < 10 ^ 5"
    using assms by (simp_all add: tre_valid_def)
  have "utf8_encode (tag e) = map word_of_nat (tag e)" by (rule utf8_encode_ascii [OF cetag_ascii [OF v]])
  moreover have "utf8_encode (ascii (zero_pad 5 (length (tre_data e)))) =
      map word_of_nat (ascii (zero_pad 5 (length (tre_data e))))"
    using zero_pad_digits by (intro utf8_encode_ascii ascii_digits) blast
  ultimately show "tre_to_bytes e = map word_of_nat (left_justify CETAG_SIZE (tag e)) @
      map word_of_nat (ascii (zero_pad 5 (length (tre_data e)))) @ tre_data e"
    by (simp add: tre_to_bytes_def Let_def left_justify_def)
  show "length (zero_pad 5 (length (tre_data e))) = 5" using n by (simp add: length_zero_pad)
qed

lemma length_tre_to_bytes: "tre_valid e \<Longrightarrow> length (tre_to_bytes e) = envelope_size e"
  using tre_bytes_layout [of e] left_justify_cetag(2) [of "tag e"]
  by (simp add: tre_valid_def envelope_size_def MIN_ENVELOPE_SIZE_def CETAG_SIZE_def CEL_SIZE_def ascii_def)

lemma parse_tre_bytes:
  assumes "tre_valid e"
  shows "tre_parse (tre_to_bytes e @ rest) = Ok (padded e, envelope_size e)"
proof -
  let ?n = "length (tre_data e)" and ?t = "left_justify CETAG_SIZE (tag e)"
  let ?cel = "ascii (zero_pad 5 ?n)"
  have v: "validate_cetag ?t = Ok ()" "length ?t = 6" "list_all (\<lambda>c. c < 0x80) ?t"
    using assms left_justify_cetag cetag_ascii by (auto simp: tre_valid_def)
  have n: "?n < U64" using assms by (simp add: tre_valid_def U64_def)
  have digits: "\<forall>c\<in>set (zero_pad 5 ?n). \<exists>d<10. c = digit_char d" using zero_pad_digits by blast
  have bytes: "tre_to_bytes e @ rest = map word_of_nat ?t @ map word_of_nat ?cel @ tre_data e @ rest"
    using tre_bytes_layout(1) [OF assms] by simp
  have cel_len: "length ?cel = 5" using tre_bytes_layout(2) [OF assms] by (simp add: ascii_def)
  have tag: "utf8_decode (take CETAG_SIZE (tre_to_bytes e @ rest)) = Some ?t"
    using utf8_decode_ascii [OF v(3)] v(2) by (simp add: bytes CETAG_SIZE_def)
  have cel: "utf8_decode (take CEL_SIZE (drop CETAG_SIZE (tre_to_bytes e @ rest))) = Some ?cel"
    using utf8_decode_ascii [OF ascii_digits(1) [OF digits]] v(2) cel_len
    by (simp add: bytes CETAG_SIZE_def CEL_SIZE_def)
  have total: "add64 MIN_ENVELOPE_SIZE ?n = envelope_size e"
    using assms by (simp add: tre_valid_def envelope_size_def MIN_ENVELOPE_SIZE_def CETAG_SIZE_def CEL_SIZE_def U64_def add64_def)
  have len: "length (tre_to_bytes e @ rest) \<ge> envelope_size e"
    using length_tre_to_bytes [OF assms] by simp
  have d: "drop MIN_ENVELOPE_SIZE (tre_to_bytes e @ rest) = tre_data e @ rest"
    using v(2) cel_len by (simp add: bytes MIN_ENVELOPE_SIZE_def CETAG_SIZE_def CEL_SIZE_def)
  have "slice MIN_ENVELOPE_SIZE (envelope_size e) (tre_to_bytes e @ rest) = Ok (tre_data e)"
    using len d by (simp add: slice_def envelope_size_def)
  then show ?thesis
    using len tag cel v(1) total parse_text_zero_pad [OF n, of 5]
    by (simp add: tre_parse_def Let_def padded_def envelope_size_def del: length_append)
qed

lemma parse_from_envelopes:
  assumes "\<forall>e\<in>set es. tre_valid e"
  shows "tre_parse_from (pre @ write_tre_envelopes es) (length pre) = Ok (map padded es)"
  using assms
proof (induction es arbitrary: pre)
  case Nil
  then show ?case by (simp add: tre_parse_from.simps write_tre_envelopes_def)
next
  case (Cons e es)
  have e: "tre_valid e" using Cons.prems by simp
  have w: "write_tre_envelopes (e # es) = tre_to_bytes e @ write_tre_envelopes es"
    by (simp add: write_tre_envelopes_def)
  have "length (tre_to_bytes e) = envelope_size e" by (rule length_tre_to_bytes [OF e])
  then have "0 < length (tre_to_bytes e)" by (simp add: envelope_size_def MIN_ENVELOPE_SIZE_def CETAG_SIZE_def)
  moreover have "tre_parse_from ((pre @ tre_to_bytes e) @ write_tre_envelopes es) (length (pre @ tre_to_bytes e)) =
      Ok (map padded es)"
    using Cons.prems by (intro Cons.IH) simp
  ultimately show ?case
    using parse_tre_bytes [OF e] length_tre_to_bytes [OF e]
    by (subst tre_parse_from.simps) (simp add: w)
qed

lemma parse_all_written:
  "\<forall>e\<in>set es. tre_valid e \<Longrightarrow> tre_parse_all (write_tre_envelopes es) = Ok (map padded es)"
  using parse_from_envelopes [of es "[]"] by (simp add: tre_parse_all_def)

lemma tre_parse_panic_free: "tre_parse d \<noteq> Panic"
proof -
  have "slice MIN_ENVELOPE_SIZE (add64 MIN_ENVELOPE_SIZE n) d \<noteq> (Panic :: (byte list, jbp_error) outcome)"
    if "utf8_decode (take CEL_SIZE (drop CETAG_SIZE d)) = Some s" "parse_text U64 (trim_text s) = Some n"
      "\<not> length d < add64 MIN_ENVELOPE_SIZE n" for s n
  proof -
    have "length (trim_text s) \<le> 5"
      using length_utf8_decode [OF that(1)] length_trim_text [of s] by (simp add: CEL_SIZE_def)
    then have "n < 10 ^ 5"
      using parse_text_bound [OF that(2)] power_increasing [of "length (trim_text s)" 5 "10 :: nat"] by linarith
    then have "add64 MIN_ENVELOPE_SIZE n = MIN_ENVELOPE_SIZE + n"
      by (simp add: add64_def MIN_ENVELOPE_SIZE_def CETAG_SIZE_def CEL_SIZE_def U64_def)
    then show ?thesis using that(3) by (simp add: slice_def)
  qed
  then show ?thesis
    by (auto simp: tre_parse_def Let_def and_then_Panic validate_cetag_def outcome_simps split: if_splits)
qed

lemma tre_parse_from_panic_free: "tre_parse_from d offset \<noteq> Panic"
proof (induction d offset rule: tre_parse_from.induct)
  case (1 d offset)
  then show ?case
    using tre_parse_panic_free by (subst tre_parse_from.simps) (auto split: outcome.splits)
qed

section \<open>Properties\<close>

text \<open>C21: writing valid envelopes and parsing the bytes back gives the same envelopes, their
  tags padded to six characters; the parser never panics, whatever the bytes.\<close>

theorem tre_envelopes_roundtrip:
  assumes "\<forall>e\<in>set es. validate_cetag (tag e) = Ok () \<and> length (tre_data e) < 100000"
  shows "tre_parse_all (write_tre_envelopes es) = Ok (map (\<lambda>e. e\<lparr>tag := left_justify 6 (tag e)\<rparr>) es) \<and>
    length (write_tre_envelopes es) = (\<Sum>e\<leftarrow>es. 11 + length (tre_data e)) \<and>
    (\<forall>d. tre_parse_all d \<noteq> Panic)"
proof -
  have v: "\<forall>e\<in>set es. tre_valid e" using assms by (simp add: tre_valid_def)
  then have "length (write_tre_envelopes es) = (\<Sum>e\<leftarrow>es. 11 + length (tre_data e))"
    by (induction es) (auto simp: write_tre_envelopes_def length_tre_to_bytes envelope_size_def
        MIN_ENVELOPE_SIZE_def CETAG_SIZE_def CEL_SIZE_def)
  then show ?thesis
    using parse_all_written [OF v] tre_parse_from_panic_free
    by (simp add: padded_def CETAG_SIZE_def tre_parse_all_def)
qed

lemma tre_envelopes_roundtrip_witness:
  "tre_parse_all (write_tre_envelopes [\<lparr>tag = ascii ''PIAIMC'', tre_data = [1, 2]\<rparr>, \<lparr>tag = ascii ''RPC'', tre_data = []\<rparr>]) =
    Ok [\<lparr>tag = ascii ''PIAIMC'', tre_data = [1, 2]\<rparr>, \<lparr>tag = ascii ''RPC   '', tre_data = []\<rparr>]"
proof -
  let ?es = "[\<lparr>tag = ascii ''PIAIMC'', tre_data = [1, 2 :: byte]\<rparr>, \<lparr>tag = ascii ''RPC'', tre_data = []\<rparr>]"
  have tags: "ascii ''PIAIMC'' = [80, 73, 65, 73, 77, 67]" "ascii ''RPC'' = [82, 80, 67]"
    "ascii ''RPC   '' = [82, 80, 67, 32, 32, 32]" by (simp_all add: ascii_def)
  have three: "replicate 3 (32 :: nat) = [32, 32, 32]" by (simp only: numeral_3_eq_3 replicate.simps)
  have "left_justify 6 (ascii ''PIAIMC'') = ascii ''PIAIMC''" "left_justify 6 (ascii ''RPC'') = ascii ''RPC   ''"
    unfolding tags left_justify_def by (simp_all add: three)
  moreover have "\<forall>e\<in>set ?es. validate_cetag (tag e) = Ok () \<and> length (tre_data e) < 100000"
    unfolding tags by (simp add: validate_cetag_Ok ascii_alphanumeric_def)
  ultimately show ?thesis using tre_envelopes_roundtrip [of ?es] by simp
qed

end
