(* ===== verification/Segments.thy ===== *)
theory Segments
  imports Field_Value Tre
begin

text \<open>
  Where the segments of a NITF file lie: \<open>src/src/jbp/types.rs\<close>.  The file header is seen
  through the operations \<open>from_header\<close> uses of its accessor, a \<open>header_view\<close>: reading a field,
  and reading a field of an element of a structure array by the element's type name and
  bytes.  The lemmas show that the computed locations tile the file from the end of the
  header, and that a streaming-mode length is resolved to what makes them end at the end of
  the file.
\<close>

section \<open>Definitions\<close>

datatype nitf_format = Nitf21 | Nsif10

fun magic :: "nitf_format \<Rightarrow> string" where
  "magic Nitf21 = ''NITF02.10''"
| "magic Nsif10 = ''NSIF01.00''"

datatype segment_type = ImageSeg | GraphicSeg | TextSeg | DataExtension | ReservedExtension

fun key_prefix :: "segment_type \<Rightarrow> string" where
  "key_prefix ImageSeg = ''image''"
| "key_prefix GraphicSeg = ''graphic''"
| "key_prefix TextSeg = ''text''"
| "key_prefix DataExtension = ''des''"
| "key_prefix ReservedExtension = ''res''"

definition from_key_prefix :: "string \<Rightarrow> segment_type option" where
  "from_key_prefix p =
    (if p = ''image'' then Some ImageSeg
     else if p = ''graphic'' then Some GraphicSeg
     else if p = ''text'' then Some TextSeg
     else if p = ''des'' then Some DataExtension
     else if p = ''res'' then Some ReservedExtension
     else None)"

record segment_location =
  subheader_offset :: nat
  subheader_length :: nat
  data_offset :: nat
  data_length :: nat

definition location_total_size :: "segment_location \<Rightarrow> nat" where
  "location_total_size l = add64 (subheader_length l) (data_length l)"

definition end_offset :: "segment_location \<Rightarrow> nat" where
  "end_offset l = add64 (data_offset l) (data_length l)"

record segment_offsets =
  images :: "segment_location list"
  graphics :: "segment_location list"
  texts :: "segment_location list"
  des_list :: "segment_location list"
  res_list :: "segment_location list"

definition offsets_new :: segment_offsets where
  "offsets_new = \<lparr>images = [], graphics = [], texts = [], des_list = [], res_list = []\<rparr>"

text \<open>The header accessor: \<open>get\<close>, and \<open>get\<close> on a nested accessor of the named type over the
  element's bytes (\<open>None\<close> when the type is unknown).\<close>

record 'f header_view =
  field_get :: "string \<Rightarrow> ('f val, jbp_error) outcome"
  nested_get :: "string \<Rightarrow> byte list \<Rightarrow> string \<Rightarrow> ('f val, jbp_error) outcome option"

definition is_sentinel :: "nat \<Rightarrow> nat \<Rightarrow> bool" where
  "is_sentinel value width \<longleftrightarrow> value = 10 ^ width - 1"

definition get_u64_field :: "'f float_conv \<Rightarrow> 'f header_view \<Rightarrow> string \<Rightarrow> (nat, jbp_error) outcome" where
  "get_u64_field fc h field =
    and_then (map_err_to (\<lambda>_. JValidationError) (field_get h field)) (\<lambda>v.
      map_err_to (\<lambda>_. JValidationError) (as_u64 fc v))"

definition get_struct_array :: "'f header_view \<Rightarrow> string \<Rightarrow> nat \<Rightarrow> ('f val list, jbp_error) outcome" where
  "get_struct_array h field expected_count =
    (if expected_count = 0 then Ok []
     else case field_get h field of
       Ok (VArray elements) \<Rightarrow> Ok elements
     | Ok _ \<Rightarrow> Err JValidationError
     | Err e \<Rightarrow> Err JValidationError
     | Panic \<Rightarrow> Panic)"

fun get_struct_u64 :: "'f float_conv \<Rightarrow> 'f header_view \<Rightarrow> 'f val \<Rightarrow> string \<Rightarrow> (nat, jbp_error) outcome" where
  "get_struct_u64 fc h (VStruct d type_name) sub_field =
    (case nested_get h type_name d sub_field of
       None \<Rightarrow> Err JValidationError
     | Some r \<Rightarrow> and_then (map_err_to (\<lambda>_. JValidationError) r) (\<lambda>v.
         map_err_to (\<lambda>_. JValidationError) (as_u64 fc v)))"
| "get_struct_u64 fc h _ sub_field = Err JValidationError"

text \<open>Pass 1: the lengths of every segment, with the streaming-mode sentinels marked.\<close>

record raw_segment =
  raw_subheader_length :: nat
  raw_data_length :: nat
  raw_is_sentinel :: bool

definition raw_element ::
    "'f float_conv \<Rightarrow> 'f header_view \<Rightarrow> string \<Rightarrow> string \<Rightarrow> nat \<Rightarrow> nat \<Rightarrow> 'f val \<Rightarrow> (raw_segment, jbp_error) outcome" where
  "raw_element fc h sub_field data_field sub_width data_width element =
    and_then (get_struct_u64 fc h element sub_field) (\<lambda>sub.
    and_then (get_struct_u64 fc h element data_field) (\<lambda>len.
      if is_sentinel sub sub_width then Err JValidationError
      else Ok \<lparr>raw_subheader_length = sub, raw_data_length = len, raw_is_sentinel = is_sentinel len data_width\<rparr>))"

definition raw_group ::
    "'f float_conv \<Rightarrow> 'f header_view \<Rightarrow> string \<Rightarrow> nat \<Rightarrow> string \<Rightarrow> string \<Rightarrow> nat \<Rightarrow> nat \<Rightarrow> (raw_segment list, jbp_error) outcome" where
  "raw_group fc h array_name expected_count sub_field data_field sub_width data_width =
    and_then (get_struct_array h array_name expected_count)
      (try_map (raw_element fc h sub_field data_field sub_width data_width))"

record raw_layout =
  header_length :: nat
  raw_images :: "raw_segment list"
  raw_graphics :: "raw_segment list"
  raw_text :: "raw_segment list"
  raw_des :: "raw_segment list"
  raw_res :: "raw_segment list"

definition collect_lengths :: "'f float_conv \<Rightarrow> 'f header_view \<Rightarrow> (raw_layout, jbp_error) outcome" where
  "collect_lengths fc h =
    and_then (get_u64_field fc h ''HL'') (\<lambda>hl.
    and_then (get_u64_field fc h ''NUMI'') (\<lambda>numi.
    and_then (get_u64_field fc h ''NUMS'') (\<lambda>nums.
    and_then (get_u64_field fc h ''NUMT'') (\<lambda>numt.
    and_then (get_u64_field fc h ''NUMDES'') (\<lambda>numdes.
    and_then (get_u64_field fc h ''NUMRES'') (\<lambda>numres.
    and_then (raw_group fc h ''IMAGE_INFO'' numi ''LISH'' ''LI'' 6 10) (\<lambda>is.
    and_then (raw_group fc h ''GRAPHIC_INFO'' nums ''LSSH'' ''LS'' 4 6) (\<lambda>gs.
    and_then (raw_group fc h ''TEXT_INFO'' numt ''LTSH'' ''LT'' 4 5) (\<lambda>ts.
    and_then (raw_group fc h ''DES_INFO'' numdes ''LDSH'' ''LD'' 4 9) (\<lambda>ds.
    and_then (raw_group fc h ''RES_INFO'' numres ''LRESH'' ''LRE'' 4 7) (\<lambda>rs.
      Ok \<lparr>header_length = hl, raw_images = is, raw_graphics = gs, raw_text = ts, raw_des = ds, raw_res = rs\<rparr>)))))))))))"

definition all_raw :: "raw_layout \<Rightarrow> raw_segment list" where
  "all_raw r = raw_images r @ raw_graphics r @ raw_text r @ raw_des r @ raw_res r"

definition sentinel_count :: "raw_layout \<Rightarrow> nat" where
  "sentinel_count r = length (filter raw_is_sentinel (all_raw r))"

definition known_sum :: "raw_layout \<Rightarrow> nat" where
  "known_sum r = add64 (header_length r)
    (foldl add64 0 (map (\<lambda>s. add64 (raw_subheader_length s) (if raw_is_sentinel s then 0 else raw_data_length s)) (all_raw r)))"

definition resolve_sentinel :: "raw_layout \<Rightarrow> nat \<Rightarrow> (nat option, jbp_error) outcome" where
  "resolve_sentinel r file_size =
    (if sentinel_count r > 1 then Err JValidationError
     else if sentinel_count r = 1 then
       (if file_size < known_sum r then Err JValidationError else Ok (Some (file_size - known_sum r)))
     else Ok None)"

text \<open>Pass 2: the running offset through one group of segments.\<close>

fun place_segments :: "nat option \<Rightarrow> nat \<Rightarrow> raw_segment list \<Rightarrow> (segment_location list \<times> nat, jbp_error) outcome" where
  "place_segments resolved current [] = Ok ([], current)"
| "place_segments resolved current (s # ss) =
    and_then (if raw_is_sentinel s then unwrap resolved else Ok (raw_data_length s)) (\<lambda>len.
    and_then (place_segments resolved (add64 current (add64 (raw_subheader_length s) len)) ss) (\<lambda>(locs, e).
      Ok (\<lparr>subheader_offset = current, subheader_length = raw_subheader_length s,
           data_offset = add64 current (raw_subheader_length s), data_length = len\<rparr> # locs, e)))"

definition from_header :: "'f float_conv \<Rightarrow> 'f header_view \<Rightarrow> nat \<Rightarrow> (segment_offsets, jbp_error) outcome" where
  "from_header fc h file_size =
    and_then (collect_lengths fc h) (\<lambda>r.
    and_then (resolve_sentinel r file_size) (\<lambda>resolved.
    and_then (place_segments resolved (header_length r) (raw_images r)) (\<lambda>(is, o1).
    and_then (place_segments resolved o1 (raw_graphics r)) (\<lambda>(gs, o2).
    and_then (place_segments resolved o2 (raw_text r)) (\<lambda>(ts, o3).
    and_then (place_segments resolved o3 (raw_des r)) (\<lambda>(ds, o4).
    and_then (place_segments resolved o4 (raw_res r)) (\<lambda>(rs, o5).
      Ok \<lparr>images = is, graphics = gs, texts = ts, des_list = ds, res_list = rs\<rparr>)))))))"

fun segments_of :: "segment_offsets \<Rightarrow> segment_type \<Rightarrow> segment_location list" where
  "segments_of so ImageSeg = images so"
| "segments_of so GraphicSeg = graphics so"
| "segments_of so TextSeg = texts so"
| "segments_of so DataExtension = des_list so"
| "segments_of so ReservedExtension = res_list so"

definition segment_get :: "segment_offsets \<Rightarrow> segment_type \<Rightarrow> nat \<Rightarrow> segment_location option" where
  "segment_get so t i = get_at i (segments_of so t)"

definition segment_count :: "segment_offsets \<Rightarrow> segment_type \<Rightarrow> nat" where
  "segment_count so t = length (segments_of so t)"

definition total_segments :: "segment_offsets \<Rightarrow> nat" where
  "total_segments so = length (images so) + length (graphics so) + length (texts so) +
    length (des_list so) + length (res_list so)"

definition segment_iter :: "segment_offsets \<Rightarrow> (segment_type \<times> nat \<times> segment_location) list" where
  "segment_iter so = concat (map (\<lambda>t. map (\<lambda>(i, l). (t, i, l)) (enumerate 0 (segments_of so t)))
    [ImageSeg, GraphicSeg, TextSeg, DataExtension, ReservedExtension])"

section \<open>Layout\<close>

text \<open>Locations that follow each other without gaps from an offset.\<close>

fun layout_from :: "nat \<Rightarrow> segment_location list \<Rightarrow> bool" where
  "layout_from start [] \<longleftrightarrow> True"
| "layout_from start (l # ls) \<longleftrightarrow> subheader_offset l = start \<and> data_offset l = start + subheader_length l \<and>
    layout_from (data_offset l + data_length l) ls"

definition span_length :: "segment_location list \<Rightarrow> nat" where
  "span_length ls = (\<Sum>l\<leftarrow>ls. subheader_length l + data_length l)"

definition all_locations :: "segment_offsets \<Rightarrow> segment_location list" where
  "all_locations so = images so @ graphics so @ texts so @ des_list so @ res_list so"

lemma span_length_simps [simp]:
  "span_length [] = 0" "span_length (l # ls) = subheader_length l + data_length l + span_length ls"
  "span_length (xs @ ys) = span_length xs + span_length ys"
  by (simp_all add: span_length_def)

lemma layout_from_append:
  "layout_from k (xs @ ys) \<longleftrightarrow> layout_from k xs \<and> layout_from (k + span_length xs) ys"
  by (induction xs arbitrary: k) (auto simp: add.assoc)

lemma key_prefix_roundtrip: "from_key_prefix (key_prefix t) = Some t"
  by (cases t) (simp_all add: from_key_prefix_def)

lemma place_segments_append:
  "place_segments v k (xs @ ys) =
    and_then (place_segments v k xs) (\<lambda>(a, k1). and_then (place_segments v k1 ys) (\<lambda>(b, k2). Ok (a @ b, k2)))"
proof (induction xs arbitrary: k)
  case Nil
  then show ?case by (cases "place_segments v k ys") (auto simp: split_def)
next
  case (Cons s xs)
  show ?case
    by (cases "if raw_is_sentinel s then unwrap v else Ok (raw_data_length s)")
      (simp_all add: Cons.IH and_then_assoc split_def)
qed

lemma from_header_placed:
  assumes "from_header fc h file_size = Ok so"
  obtains r v k where "collect_lengths fc h = Ok r" "resolve_sentinel r file_size = Ok v"
    "place_segments v (header_length r) (all_raw r) = Ok (all_locations so, k)"
    "map length [images so, graphics so, texts so, des_list so, res_list so] =
      map length [raw_images r, raw_graphics r, raw_text r, raw_des r, raw_res r]"
proof -
  have len: "length ls = length ss" if "place_segments v k ss = Ok (ls, k')" for v k ss ls k'
    using that by (induction ss arbitrary: k ls k') (auto simp: outcome_simps)
  from assms obtain r v ims o1 gs o2 ts o3 ds o4 rs o5 where p:
    "collect_lengths fc h = Ok r" "resolve_sentinel r file_size = Ok v"
    "place_segments v (header_length r) (raw_images r) = Ok (ims, o1)"
    "place_segments v o1 (raw_graphics r) = Ok (gs, o2)" "place_segments v o2 (raw_text r) = Ok (ts, o3)"
    "place_segments v o3 (raw_des r) = Ok (ds, o4)" "place_segments v o4 (raw_res r) = Ok (rs, o5)"
    "so = \<lparr>images = ims, graphics = gs, texts = ts, des_list = ds, res_list = rs\<rparr>"
    unfolding from_header_def by (auto simp: outcome_simps)
  have "place_segments v (header_length r) (all_raw r) = Ok (all_locations so, o5)"
    using p(3-8) by (simp add: place_segments_append all_raw_def all_locations_def)
  then show ?thesis using that p(1,2) len [OF p(3)] len [OF p(4)] len [OF p(5)] len [OF p(6)] len [OF p(7)] p(8)
    by simp
qed

text \<open>Placing without wrap-around.\<close>

lemma place_segments_layout:
  assumes "place_segments v k ss = Ok (ls, k')" "k + span_length ls < U64"
  shows "layout_from k ls \<and> k' = k + span_length ls \<and> map subheader_length ls = map raw_subheader_length ss \<and>
    map data_length ls = map (\<lambda>s. if raw_is_sentinel s then the v else raw_data_length s) ss"
  using assms
proof (induction ss arbitrary: k ls)
  case (Cons s ss)
  obtain len locs where p: "(if raw_is_sentinel s then unwrap v else Ok (raw_data_length s)) = (Ok len :: (nat, jbp_error) outcome)"
    "place_segments v (add64 k (add64 (raw_subheader_length s) len)) ss = Ok (locs, k')"
    "ls = \<lparr>subheader_offset = k, subheader_length = raw_subheader_length s,
      data_offset = add64 k (raw_subheader_length s), data_length = len\<rparr> # locs"
    using Cons.prems(1) by (auto simp: outcome_simps)
  have b: "k + (raw_subheader_length s + len) + span_length locs < U64" using Cons.prems(2) p(3) by simp
  then have wrap: "add64 k (add64 (raw_subheader_length s) len) = k + (raw_subheader_length s + len)"
    "add64 k (raw_subheader_length s) = k + raw_subheader_length s" by simp_all
  have len: "len = (if raw_is_sentinel s then the v else raw_data_length s)"
    using p(1) by (auto simp: outcome_simps split: if_splits)
  show ?case using Cons.IH [of "k + (raw_subheader_length s + len)" locs] p b wrap len
    by (simp add: add.assoc)
qed simp

lemma foldl_add64: "foldl add64 a xs = (a + sum_list xs) mod U64 \<or> xs = []"
proof (induction xs arbitrary: a)
  case (Cons x xs)
  show ?case using Cons.IH [of "add64 a x"]
    by (cases xs) (auto simp: add64_def mod_add_left_eq add.assoc)
qed simp

lemma sum_filter_one:
  assumes "length (filter p xs) = 1"
  shows "(\<Sum>x\<leftarrow>xs. f x + (if p x then v else g x)) = (\<Sum>x\<leftarrow>xs. f x + (if p x then 0 else g x)) + (v :: nat)"
proof -
  have *: "(\<Sum>x\<leftarrow>xs. f x + (if p x then v else g x)) =
      (\<Sum>x\<leftarrow>xs. f x + (if p x then 0 else g x)) + length (filter p xs) * v"
    by (induction xs) auto
  show ?thesis unfolding * assms by simp
qed

text \<open>The resolved length makes the segments end where the file does.\<close>

lemma sentinel_fills_file:
  assumes "resolve_sentinel r file_size = Ok (Some v)"
    and place: "place_segments (Some v) (header_length r) (all_raw r) = Ok (ls, k)"
    and bound: "header_length r + span_length ls < U64"
  shows "header_length r + span_length ls = file_size"
proof -
  have one: "sentinel_count r = 1" and v: "v = file_size - known_sum r" "known_sum r \<le> file_size"
    using assms(1) by (auto simp: resolve_sentinel_def split: if_splits)
  let ?g = "\<lambda>s. raw_subheader_length s + (if raw_is_sentinel s then 0 else raw_data_length s)"
  have lens: "map subheader_length ls = map raw_subheader_length (all_raw r)"
    "map data_length ls = map (\<lambda>s. if raw_is_sentinel s then v else raw_data_length s) (all_raw r)"
    using place_segments_layout [OF place bound] by simp_all
  have "span_length ls = sum_list (map subheader_length ls) + sum_list (map data_length ls)"
    by (induction ls) auto
  also have "\<dots> = (\<Sum>s\<leftarrow>all_raw r. raw_subheader_length s + (if raw_is_sentinel s then v else raw_data_length s))"
    unfolding lens by (induction "all_raw r") (auto simp: sum_list_addf)
  also have "\<dots> = sum_list (map ?g (all_raw r)) + v"
    using one by (intro sum_filter_one) (simp add: sentinel_count_def)
  finally have span: "span_length ls = sum_list (map ?g (all_raw r)) + v" .
  have small: "sum_list (map ?g (all_raw r)) < U64" "header_length r + sum_list (map ?g (all_raw r)) < U64"
    using span bound by auto
  have each: "?g s < U64" if "s \<in> set (all_raw r)" for s
    using member_le_sum_list [of "?g s" "map ?g (all_raw r)"] that small(1) by auto
  have "map (\<lambda>s. add64 (raw_subheader_length s) (if raw_is_sentinel s then 0 else raw_data_length s)) (all_raw r) =
      map ?g (all_raw r)"
    using each by (intro map_cong) simp_all
  moreover have "foldl add64 0 (map ?g (all_raw r)) = sum_list (map ?g (all_raw r))"
    using foldl_add64 [of 0 "map ?g (all_raw r)"] small(1) by auto
  ultimately have "known_sum r = header_length r + sum_list (map ?g (all_raw r))"
    using small(2) by (simp only: known_sum_def add64_id)
  then show ?thesis using v span by simp
qed

section \<open>Properties\<close>

text \<open>C22: when the file header is accepted and the segments end below \<open>2 ^ 64\<close>, the computed
  locations follow each other without gaps from the end of the header in the order images,
  graphics, texts, DES, RES; each group has as many segments as the header lists, with the
  header's lengths; and a segment written in streaming mode gets the length that makes the
  last segment end at the end of the file.\<close>

theorem segment_layout:
  assumes "from_header fc h file_size = Ok so" "collect_lengths fc h = Ok r"
    and "header_length r + span_length (all_locations so) < U64"
  shows "layout_from (header_length r) (all_locations so) \<and>
    map subheader_length (all_locations so) = map raw_subheader_length (all_raw r) \<and>
    map length [images so, graphics so, texts so, des_list so, res_list so] =
      map length [raw_images r, raw_graphics r, raw_text r, raw_des r, raw_res r] \<and>
    (if sentinel_count r = 1 then header_length r + span_length (all_locations so) = file_size
     else map data_length (all_locations so) = map raw_data_length (all_raw r))"
proof -
  obtain v k where p: "resolve_sentinel r file_size = Ok v"
    "place_segments v (header_length r) (all_raw r) = Ok (all_locations so, k)"
    "map length [images so, graphics so, texts so, des_list so, res_list so] =
      map length [raw_images r, raw_graphics r, raw_text r, raw_des r, raw_res r]"
    using from_header_placed [OF assms(1)] assms(2) by (metis outcome.inject(1))
  note l = place_segments_layout [OF p(2) assms(3)]
  have "if sentinel_count r = 1 then header_length r + span_length (all_locations so) = file_size
     else map data_length (all_locations so) = map raw_data_length (all_raw r)"
  proof (cases "sentinel_count r = 1")
    case True
    then obtain w where "v = Some w" using p(1) by (auto simp: resolve_sentinel_def split: if_splits)
    then show ?thesis using sentinel_fills_file [of r file_size w] p assms(3) True by simp
  next
    case False
    then have "sentinel_count r = 0" using p(1) by (auto simp: resolve_sentinel_def split: if_splits)
    then have "\<not> raw_is_sentinel s" if "s \<in> set (all_raw r)" for s
      using that by (auto simp: sentinel_count_def filter_empty_conv)
    then have "map (\<lambda>s. if raw_is_sentinel s then the v else raw_data_length s) (all_raw r) =
        map raw_data_length (all_raw r)" by (intro map_cong) simp_all
    then show ?thesis using l False by simp
  qed
  then show ?thesis using l p(3) by simp
qed

definition example_header :: "unit header_view" where
  "example_header = \<lparr>
    field_get = (\<lambda>f. if f = ''HL'' then Ok (VUnsigned 404) else if f = ''NUMI'' then Ok (VUnsigned 1)
      else if f = ''NUMDES'' then Ok (VUnsigned 1)
      else if f = ''IMAGE_INFO'' then Ok (VArray [VStruct [] ''image_info_t''])
      else if f = ''DES_INFO'' then Ok (VArray [VStruct [] ''des_info_t'']) else Ok (VUnsigned 0)),
    nested_get = (\<lambda>t d f. Some (Ok (VUnsigned (if f = ''LISH'' then 439 else if f = ''LI'' then 9999999999
      else if f = ''LDSH'' then 200 else 50))))\<rparr>"

lemma segment_layout_witness:
  "\<forall>fc. \<exists>so. from_header fc example_header 2000 = Ok so \<and> 404 + span_length (all_locations so) = 2000 \<and>
    layout_from 404 (all_locations so)"
proof
  fix fc
  let ?r = "\<lparr>header_length = 404,
    raw_images = [\<lparr>raw_subheader_length = 439, raw_data_length = 9999999999, raw_is_sentinel = True\<rparr>],
    raw_graphics = [], raw_text = [],
    raw_des = [\<lparr>raw_subheader_length = 200, raw_data_length = 50, raw_is_sentinel = False\<rparr>], raw_res = []\<rparr>"
  let ?so = "\<lparr>images = [\<lparr>subheader_offset = 404, subheader_length = 439, data_offset = 843, data_length = 907\<rparr>],
    graphics = [], texts = [],
    des_list = [\<lparr>subheader_offset = 1750, subheader_length = 200, data_offset = 1950, data_length = 50\<rparr>],
    res_list = []\<rparr>"
  have r: "collect_lengths fc example_header = Ok ?r"
    by (simp add: collect_lengths_def example_header_def get_u64_field_def raw_group_def get_struct_array_def
        raw_element_def is_sentinel_def)
  have so: "from_header fc example_header 2000 = Ok ?so"
    unfolding from_header_def r
    by (simp add: resolve_sentinel_def sentinel_count_def known_sum_def all_raw_def U64_def)
  show "\<exists>so. from_header fc example_header 2000 = Ok so \<and> 404 + span_length (all_locations so) = 2000 \<and>
    layout_from 404 (all_locations so)"
    using segment_layout [OF so r] so
    by (simp add: sentinel_count_def all_raw_def all_locations_def U64_def)
qed

end
