(* ===== verification/Overflow_Des.thy ===== *)
theory Overflow_Des
  imports Segments Owned_Buffer
begin

text \<open>
  Overflow segments: \<open>src/src/jbp/overflow.rs\<close>.  Extensions that do not fit a subheader are
  moved to a \<open>TRE_OVERFLOW\<close> data extension segment that names where they came from, and
  found again by its one-based index.  The lemmas compose the envelope round trip with the
  buffer: what was written is read back from the segment's range of any kind of buffer.
\<close>

section \<open>Definitions\<close>

datatype overflow_source =
  FileHeaderUdhd | FileHeaderXhd | ImageUdid | ImageIxshd | GraphicSxshd | TextTxshd

fun to_desoflw :: "overflow_source \<Rightarrow> string" where
  "to_desoflw FileHeaderUdhd = ''UDHD  ''"
| "to_desoflw FileHeaderXhd = ''UDHDX ''"
| "to_desoflw ImageUdid = ''UDID  ''"
| "to_desoflw ImageIxshd = ''IXSHD ''"
| "to_desoflw GraphicSxshd = ''SXSHD ''"
| "to_desoflw TextTxshd = ''TXSHD ''"

definition from_desoflw :: "ustring \<Rightarrow> (overflow_source, jbp_error) outcome" where
  "from_desoflw s =
    (let t = trim_text s in
     if t = ascii ''UDHD'' then Ok FileHeaderUdhd
     else if t = ascii ''UDHDX'' then Ok FileHeaderXhd
     else if t = ascii ''XHD'' then Ok FileHeaderXhd
     else if t = ascii ''UDID'' then Ok ImageUdid
     else if t = ascii ''IXSHD'' then Ok ImageIxshd
     else if t = ascii ''SXSHD'' then Ok GraphicSxshd
     else if t = ascii ''TXSHD'' then Ok TextTxshd
     else Err JInvalidFormat)"

text \<open>The security fields: name, the width it is padded to (zero when the value is written as
  it is) and the default.\<close>

definition default_security_fields :: "(string \<times> nat \<times> string) list" where
  "default_security_fields =
  [(''DESCLAS'', 0, ''U''),
   (''DESCLSY'', 2, ''  ''),
   (''DESCODE'', 11, replicate 11 (CHR '' '')),
   (''DESCTLH'', 2, ''  ''),
   (''DESREL'', 20, replicate 20 (CHR '' '')),
   (''DESDCTP'', 2, ''  ''),
   (''DESDCDT'', 8, replicate 8 (CHR '' '')),
   (''DESDCXM'', 4, ''    ''),
   (''DESDG'', 0, '' ''),
   (''DESDGDT'', 8, replicate 8 (CHR '' '')),
   (''DESCLTX'', 43, replicate 43 (CHR '' '')),
   (''DESCATP'', 0, '' ''),
   (''DESCAUT'', 40, replicate 40 (CHR '' '')),
   (''DESCRSN'', 0, '' ''),
   (''DESSRDT'', 8, replicate 8 (CHR '' '')),
   (''DESCTLN'', 15, replicate 15 (CHR '' ''))]"

text \<open>The string values of the optional map of security fields.\<close>

definition get_security_field :: "(string \<Rightarrow> ustring option) option \<Rightarrow> string \<Rightarrow> string \<Rightarrow> ustring" where
  "get_security_field security name dflt =
    (case security of
       Some lookup_field \<Rightarrow> (case lookup_field name of Some s \<Rightarrow> s | None \<Rightarrow> ascii dflt)
     | None \<Rightarrow> ascii dflt)"

definition create_overflow_des ::
    "overflow_source \<Rightarrow> nat \<Rightarrow> tre_envelope list \<Rightarrow> (string \<Rightarrow> ustring option) option \<Rightarrow>
      (byte list \<times> byte list, jbp_error) outcome" where
  "create_overflow_des src segment_index tres security =
    (let desitem = (if src = FileHeaderUdhd \<or> src = FileHeaderXhd then 0 else (segment_index + 1) mod 65536);
         subheader =
           utf8_encode (ascii ''DE'') @
           utf8_encode (ascii (''TRE_OVERFLOW'' @ replicate 13 (CHR '' ''))) @
           utf8_encode (ascii ''01'') @
           concat (map (\<lambda>(name, width, dflt).
             utf8_encode (left_justify width (get_security_field security name dflt))) default_security_fields) @
           utf8_encode (ascii (to_desoflw src)) @
           utf8_encode (ascii (zero_pad 3 desitem)) @
           utf8_encode (ascii ''0000'')
     in Ok (subheader, write_tre_envelopes tres))"

text \<open>The overflow index of a header: absent fields and blank values mean no overflow.\<close>

definition get_overflow_field :: "'f header_view \<Rightarrow> string \<Rightarrow> (nat, jbp_error) outcome" where
  "get_overflow_field h field_name =
    (case field_get h field_name of
       Err e \<Rightarrow> Ok 0
     | Panic \<Rightarrow> Panic
     | Ok v \<Rightarrow>
         and_then (map_err_to (\<lambda>_. JValidationError) (as_str v)) (\<lambda>s.
           let trimmed = trim_text s in
           if trimmed = [] then Ok 0
           else ok_or JValidationError (parse_text 65536 trimmed)))"

definition get_image_overflow_indices :: "'f header_view \<Rightarrow> (nat \<times> nat, jbp_error) outcome" where
  "get_image_overflow_indices h =
    and_then (get_overflow_field h ''UDOFL'') (\<lambda>udofl.
    and_then (get_overflow_field h ''IXSOFL'') (\<lambda>ixsofl. Ok (udofl, ixsofl)))"

definition get_graphic_overflow_index :: "'f header_view \<Rightarrow> (nat, jbp_error) outcome" where
  "get_graphic_overflow_index h = get_overflow_field h ''SXSOFL''"

definition get_text_overflow_index :: "'f header_view \<Rightarrow> (nat, jbp_error) outcome" where
  "get_text_overflow_index h = get_overflow_field h ''TXSOFL''"

definition get_file_header_overflow_indices :: "'f header_view \<Rightarrow> (nat \<times> nat, jbp_error) outcome" where
  "get_file_header_overflow_indices h =
    and_then (get_overflow_field h ''UDHOFL'') (\<lambda>udhofl.
    and_then (get_overflow_field h ''XHDLOFL'') (\<lambda>xhdlofl. Ok (udhofl, xhdlofl)))"

definition fetch_overflow_tres ::
    "nat \<Rightarrow> segment_location list \<Rightarrow> owned_buffer \<Rightarrow> (remote_heap, tre_envelope list, jbp_error) call" where
  "fetch_overflow_tres des_index des_locations src = (\<lambda>h.
    if des_index = 0 then (Ok [], h)
    else if des_index - 1 \<ge> length des_locations
    then (Err (JInvalidOverflowIndex des_index (length des_locations)), h)
    else
      (let loc = des_locations ! (des_index - 1);
           data_end = add64 (data_offset loc) (data_length loc)
       in if data_end > buffer_len src then (Err (JUnexpectedEof data_end (buffer_len src)), h)
          else case buffer_read_range src (data_offset loc) (data_length loc) h of
            (r, h') \<Rightarrow> (and_then (map_err_to (\<lambda>_. JValidationError) r) tre_parse_all, h')))"

section \<open>The subheader\<close>

text \<open>Security values that fit their field.\<close>

definition security_fits :: "(string \<Rightarrow> ustring option) option \<Rightarrow> bool" where
  "security_fits security \<longleftrightarrow>
    list_all (\<lambda>(name, width, dflt).
      list_all (\<lambda>c. c < 0x80) (get_security_field security name dflt) \<and>
      length (left_justify width (get_security_field security name dflt)) = max 1 width)
      default_security_fields"

lemma security_fits_default: "security_fits None"
  by (simp add: security_fits_def default_security_fields_def get_security_field_def ascii_def left_justify_def
      list_all_iff)

lemma utf8_ascii_length:
  "list_all (\<lambda>c. c < 0x80) s \<Longrightarrow> length (utf8_encode s) = length s"
  by (simp add: utf8_encode_ascii)

lemma ascii_left_justify: "list_all (\<lambda>c. c < 0x80) s \<Longrightarrow> list_all (\<lambda>c. c < 0x80) (left_justify w s)"
  by (auto simp: left_justify_def list_all_iff)

lemma security_length:
  assumes "security_fits security"
  shows "length (concat (map (\<lambda>(name, width, dflt).
      utf8_encode (left_justify width (get_security_field security name dflt))) default_security_fields)) = 167"
proof -
  have "length (concat (map (\<lambda>(name, width, dflt).
      utf8_encode (left_justify width (get_security_field security name dflt))) t)) =
      (\<Sum>(name, width, dflt)\<leftarrow>t. max 1 width)"
    if "list_all (\<lambda>(name, width, dflt).
      list_all (\<lambda>c. c < 0x80) (get_security_field security name dflt) \<and>
      length (left_justify width (get_security_field security name dflt)) = max 1 width) t" for t
    using that by (induction t) (auto simp: utf8_ascii_length ascii_left_justify)
  from this [of default_security_fields] assms show ?thesis
    by (simp add: security_fits_def) (simp add: default_security_fields_def)
qed

lemma desoflw_text:
  "list_all (\<lambda>c. c < 0x80) (ascii (to_desoflw src))" "length (to_desoflw src) = 6"
  "from_desoflw (ascii (to_desoflw src)) = Ok src"
  by (cases src; simp add: ascii_def from_desoflw_def trim_text_def trim_end_matches_def is_white_space_def)+

text \<open>A field of \<open>format!\<close>-ted digits inside ASCII text.\<close>

lemma ascii_zero_pad: "list_all (\<lambda>c. c < 0x80) (ascii (zero_pad w n))"
  using zero_pad_digits by (intro ascii_digits) blast

lemma decode_ascii: "list_all (\<lambda>c. c < 0x80) s \<Longrightarrow> utf8_decode (utf8_encode s) = Some s"
  by (rule utf8_decode_encode [OF ascii_scalar])

definition item_index :: "overflow_source \<Rightarrow> nat \<Rightarrow> nat" where
  "item_index src i = (if src = FileHeaderUdhd \<or> src = FileHeaderXhd then 0 else i + 1)"

lemma create_overflow_des_layout:
  assumes "create_overflow_des src i tres security = Ok (subheader, d)"
    and "security_fits security" "i < 999"
  shows "d = write_tre_envelopes tres" "length subheader = 209"
    "utf8_decode (take 6 (drop 196 subheader)) = Some (ascii (to_desoflw src))"
    "utf8_decode (take 3 (drop 202 subheader)) = Some (ascii (zero_pad 3 (item_index src i)))"
proof -
  define hd1 where "hd1 = utf8_encode (ascii ''DE'') @
    utf8_encode (ascii (''TRE_OVERFLOW'' @ replicate 13 (CHR '' ''))) @ utf8_encode (ascii ''01'')"
  define sec where "sec = concat (map (\<lambda>(name, width, dflt).
      utf8_encode (left_justify width (get_security_field security name dflt))) default_security_fields)"
  have item: "(if src = FileHeaderUdhd \<or> src = FileHeaderXhd then 0 else (i + 1) mod 65536) = item_index src i"
    using assms(3) by (simp add: item_index_def)
  have sub: "subheader = hd1 @ sec @ utf8_encode (ascii (to_desoflw src)) @
      utf8_encode (ascii (zero_pad 3 (item_index src i))) @ utf8_encode (ascii ''0000'')"
    using assms(1) by (simp add: create_overflow_des_def Let_def item hd1_def sec_def)
  show "d = write_tre_envelopes tres" using assms(1) by (simp add: create_overflow_des_def Let_def)
  have h: "length hd1 = 29"
    using utf8_ascii_length [of "replicate 13 32"] by (simp add: hd1_def ascii_def utf8_char_def list_all_iff)
  have s: "length sec = 167" unfolding sec_def by (rule security_length [OF assms(2)])
  have o6: "length (utf8_encode (ascii (to_desoflw src))) = 6"
    using desoflw_text(1,2) [of src] by (simp add: utf8_ascii_length ascii_def)
  have "item_index src i < 10 ^ 3" using assms(3) by (simp add: item_index_def)
  then have i3: "length (utf8_encode (ascii (zero_pad 3 (item_index src i)))) = 3"
    using ascii_zero_pad [of 3 "item_index src i"] by (simp add: utf8_ascii_length ascii_def length_zero_pad)
  have z: "length (utf8_encode (ascii ''0000'')) = 4" by (simp add: ascii_def utf8_char_def)
  show "length subheader = 209" using h s o6 i3 z by (simp add: sub)
  have "take 6 (drop 196 subheader) = utf8_encode (ascii (to_desoflw src))"
    using h s o6 by (simp add: sub)
  then show "utf8_decode (take 6 (drop 196 subheader)) = Some (ascii (to_desoflw src))"
    using decode_ascii [OF desoflw_text(1)] by simp
  have "take 3 (drop 202 subheader) = utf8_encode (ascii (zero_pad 3 (item_index src i)))"
    using h s o6 i3 by (simp add: sub)
  then show "utf8_decode (take 3 (drop 202 subheader)) = Some (ascii (zero_pad 3 (item_index src i)))"
    using decode_ascii [OF ascii_zero_pad] by simp
qed

lemma fetch_overflow_written:
  assumes "buffer_wf srcs b" "heap_wf srcs h" "0 < idx" "idx \<le> length locs"
    and "loc = locs ! (idx - 1)" "data_offset loc + data_length loc \<le> buffer_len b"
    and "take (data_length loc) (drop (data_offset loc) (view srcs b)) = write_tre_envelopes tres"
    and "\<forall>e\<in>set tres. tre_valid e"
  shows "\<exists>h'. fetch_overflow_tres idx locs b h = (Ok (map padded tres), h') \<and> heap_wf srcs h'"
proof -
  obtain h' where h': "buffer_read_range b (data_offset loc) (data_length loc) h =
      (Ok (write_tre_envelopes tres), h')" "heap_wf srcs h'"
    using buffer_read_range_step [OF assms(1,2,6)] assms(7) by auto
  have "data_offset loc + data_length loc < U64" using assms(6) buffer_len_lt [OF assms(1)] by simp
  then show ?thesis
    using h' assms(3-6) parse_all_written [OF assms(8)] by (auto simp: fetch_overflow_tres_def Let_def)
qed

section \<open>Properties\<close>

text \<open>C23: the overflow segment written for a list of valid extensions has a subheader of 209
  bytes naming its source and item at the fixed places, and from any kind of buffer whose
  located range holds the segment's data, looking up its index gives the extensions back,
  tags padded; index zero means none and an index beyond the list is an error.\<close>

theorem overflow_segment_roundtrip:
  assumes "create_overflow_des src i tres security = Ok (subheader, d)" "security_fits security" "i < 999"
    and "\<forall>e\<in>set tres. tre_valid e"
    and "buffer_wf srcs b" "heap_wf srcs h" "0 < idx" "idx \<le> length locs"
    and "data_offset (locs ! (idx - 1)) + data_length (locs ! (idx - 1)) \<le> buffer_len b"
    and "take (data_length (locs ! (idx - 1))) (drop (data_offset (locs ! (idx - 1))) (view srcs b)) = d"
  shows "length subheader = 209 \<and>
    map_option from_desoflw (utf8_decode (take 6 (drop 196 subheader))) = Some (Ok src) \<and>
    map_option (\<lambda>t. parse_text 65536 (trim_text t)) (utf8_decode (take 3 (drop 202 subheader))) =
      Some (Some (if src = FileHeaderUdhd \<or> src = FileHeaderXhd then 0 else i + 1)) \<and>
    (\<exists>h'. fetch_overflow_tres idx locs b h = (Ok (map padded tres), h') \<and> heap_wf srcs h') \<and>
    fetch_overflow_tres 0 locs b h = (Ok [], h) \<and>
    fetch_overflow_tres (length locs + 1) locs b h =
      (Err (JInvalidOverflowIndex (length locs + 1) (length locs)), h)"
proof -
  note l = create_overflow_des_layout [OF assms(1-3)]
  have "\<exists>h'. fetch_overflow_tres idx locs b h = (Ok (map padded tres), h') \<and> heap_wf srcs h'"
    by (rule fetch_overflow_written [OF assms(5-8) refl assms(9) _ assms(4)]) (use assms(10) l(1) in simp)
  moreover have "item_index src i < 65536" using assms(3) by (simp add: item_index_def)
  ultimately show ?thesis
    using l(2-4) desoflw_text(3) [of src] parse_text_zero_pad [of "item_index src i" 65536 3]
    by (simp add: fetch_overflow_tres_def item_index_def)
qed

lemma overflow_segment_roundtrip_witness:
  "\<exists>h'. fetch_overflow_tres 1 [\<lparr>subheader_offset = 0, subheader_length = 2, data_offset = 2, data_length = 13\<rparr>]
      (from_vec ([0, 0] @ write_tre_envelopes [\<lparr>tag = ascii ''BLOCKA'', tre_data = [7, 8]\<rparr>])) \<lparr>fetchers = []\<rparr> =
    (Ok [\<lparr>tag = ascii ''BLOCKA'', tre_data = [7, 8]\<rparr>], h')"
proof -
  let ?e = "\<lparr>tag = ascii ''BLOCKA'', tre_data = [7, 8 :: byte]\<rparr>"
  let ?d = "write_tre_envelopes [?e]"
  let ?locs = "[\<lparr>subheader_offset = 0, subheader_length = 2, data_offset = 2, data_length = 13\<rparr>]"
  obtain sub where sub: "create_overflow_des ImageUdid 0 [?e] None = Ok (sub, ?d)"
    by (simp add: create_overflow_des_def Let_def)
  have e: "tre_valid ?e" by (simp add: tre_valid_def validate_cetag_Ok ascii_def ascii_alphanumeric_def)
  have len: "length ?d = 13"
    using length_tre_to_bytes [OF e]
    by (simp add: write_tre_envelopes_def envelope_size_def MIN_ENVELOPE_SIZE_def CETAG_SIZE_def CEL_SIZE_def)
  have wf: "buffer_wf [] (from_vec ([0, 0] @ ?d))" by (rule buffer_wf_from_vec) (use len in \<open>simp add: U64_def\<close>)
  have heap: "heap_wf [] \<lparr>fetchers = []\<rparr>" by (simp add: heap_wf_def)
  have blen: "buffer_len (from_vec ([0, 0] @ ?d)) = 15" using len by (simp add: buffer_len_def from_vec_def)
  have p: "padded ?e = ?e" by (simp add: padded_def left_justify_def CETAG_SIZE_def ascii_def)
  show ?thesis
    using overflow_segment_roundtrip [OF sub security_fits_default _ _ wf heap, of 1 ?locs] e blen len p by auto
qed

end
