(* ===== verification/Tile_Assembler.thy ===== *)
theory Tile_Assembler
  imports Copies
begin

text \<open>
  Assembling output tiles from an image provider with another block grid:
  \<open>src/src/assembly/tile_assembler.rs\<close>, and the part of the provider trait of
  \<open>src/src/traits/image.rs\<close> it relies on.  Coordinates are \<open>u32\<close> values with wrapping sums and
  products, offsets are \<open>usize\<close>.  The locale \<open>block_provider\<close> is the contract of a provider of
  an image: inside its grid, a block is the window of the image at its place, cut at the
  edges.
\<close>

section \<open>Definitions\<close>

type_synonym block = "byte list \<times> nat \<times> nat \<times> nat"

record image_provider =
  get_block :: "nat \<Rightarrow> nat \<Rightarrow> nat \<Rightarrow> nat list option \<Rightarrow> (block, codec_error) outcome"
  provider_has_block :: "nat \<Rightarrow> nat \<Rightarrow> nat \<Rightarrow> (bool, codec_error) outcome"
  num_bands :: nat
  num_rows :: nat
  num_columns :: nat
  num_pixels_per_block_horizontal :: nat
  num_pixels_per_block_vertical :: nat
  num_bits_per_pixel :: nat

definition block_grid_size :: "image_provider \<Rightarrow> nat \<times> nat" where
  "block_grid_size p =
    (let bh = num_pixels_per_block_vertical p; bw = num_pixels_per_block_horizontal p
     in (if bh = 0 then 1 else div_ceil (num_rows p) bh, if bw = 0 then 1 else div_ceil (num_columns p) bw))"

record tile_assembler =
  source :: image_provider
  output_tile_width :: nat
  output_tile_height :: nat
  source_tile_width :: nat
  source_tile_height :: nat
  image_width :: nat
  image_height :: nat
  assembler_bands :: nat
  bytes_per_pixel :: nat

definition assembler_new :: "image_provider \<Rightarrow> nat \<Rightarrow> nat \<Rightarrow> tile_assembler" where
  "assembler_new p w h =
    \<lparr>source = p, output_tile_width = w, output_tile_height = h,
     source_tile_width = num_pixels_per_block_horizontal p,
     source_tile_height = num_pixels_per_block_vertical p,
     image_width = num_columns p, image_height = num_rows p,
     assembler_bands = num_bands p, bytes_per_pixel = div_ceil (num_bits_per_pixel p) 8\<rparr>"

definition output_grid_size :: "tile_assembler \<Rightarrow> (nat \<times> nat, codec_error) outcome" where
  "output_grid_size a =
    and_then (div_ceil_or_panic (image_width a) (output_tile_width a)) (\<lambda>cols.
    and_then (div_ceil_or_panic (image_height a) (output_tile_height a)) (\<lambda>rows. Ok (rows, cols)))"

definition grids_match :: "tile_assembler \<Rightarrow> bool" where
  "grids_match a \<longleftrightarrow> output_tile_width a = source_tile_width a \<and> output_tile_height a = source_tile_height a"

definition assembler_has_block :: "tile_assembler \<Rightarrow> nat \<Rightarrow> nat \<Rightarrow> bool" where
  "assembler_has_block a output_row output_col \<longleftrightarrow>
    mul32 output_col (output_tile_width a) < image_width a \<and>
    mul32 output_row (output_tile_height a) < image_height a"

definition copy_tile_region ::
    "tile_assembler \<Rightarrow> block \<Rightarrow> nat \<Rightarrow> nat \<Rightarrow> byte list \<Rightarrow> nat \<Rightarrow> nat \<Rightarrow> nat \<Rightarrow> nat \<Rightarrow> (byte list, codec_error) outcome" where
  "copy_tile_region a blk src_row src_col output out_start_x out_start_y out_width out_height =
    (case blk of (src_data, _, src_rows, src_cols) \<Rightarrow>
     let src_start_x = mul32 src_col (source_tile_width a);
         src_start_y = mul32 src_row (source_tile_height a);
         overlap_start_x = max out_start_x src_start_x;
         overlap_start_y = max out_start_y src_start_y;
         overlap_end_x = min (add32 out_start_x out_width) (add32 src_start_x src_cols);
         overlap_end_y = min (add32 out_start_y out_height) (add32 src_start_y src_rows)
     in if overlap_start_x \<ge> overlap_end_x \<or> overlap_start_y \<ge> overlap_end_y then Ok output
        else
          (let overlap_width = sub32 overlap_end_x overlap_start_x;
               src_offset_x = sub32 overlap_start_x src_start_x;
               src_offset_y = sub32 overlap_start_y src_start_y;
               out_offset_x = sub32 overlap_start_x out_start_x;
               out_offset_y = sub32 overlap_start_y out_start_y;
               bpp = bytes_per_pixel a;
               src_pixels_per_band = src_rows * src_cols;
               out_pixels_per_band = out_height * out_width
           in try_fold (\<lambda>out (band, row).
                let src_row_offset = wrap64 (band * src_pixels_per_band * bpp +
                      add32 src_offset_y row * src_cols * bpp + src_offset_x * bpp);
                    out_row_offset = wrap64 (band * out_pixels_per_band * bpp +
                      add32 out_offset_y row * out_width * bpp + out_offset_x * bpp)
                in copy_block (wrap64 (overlap_width * bpp)) src_data out (out_row_offset, src_row_offset))
              output
              (List.product [0..<assembler_bands a] [0..<sub32 overlap_end_y overlap_start_y])))"

text \<open>One source block of the assembly loop.\<close>

definition assemble_step ::
    "tile_assembler \<Rightarrow> nat \<Rightarrow> nat \<Rightarrow> nat \<Rightarrow> nat \<Rightarrow> byte list \<Rightarrow> nat \<times> nat \<Rightarrow> (byte list, codec_error) outcome" where
  "assemble_step a start_x start_y tile_width tile_height output rc =
    (case rc of (src_row, src_col) \<Rightarrow>
      and_then (get_block (source a) src_row src_col 0 None) (\<lambda>blk.
        copy_tile_region a blk src_row src_col output start_x start_y tile_width tile_height))"

definition get_output_tile :: "tile_assembler \<Rightarrow> nat \<Rightarrow> nat \<Rightarrow> (block, codec_error) outcome" where
  "get_output_tile a output_row output_col =
    and_then (output_grid_size a) (\<lambda>(grid_rows, grid_cols).
      if output_row \<ge> grid_rows \<or> output_col \<ge> grid_cols
      then Err (InvalidBlockCoordinates output_row output_col 0)
      else if grids_match a then get_block (source a) output_row output_col 0 None
      else
        (let start_x = mul32 output_col (output_tile_width a);
             start_y = mul32 output_row (output_tile_height a);
             end_x = min (add32 start_x (output_tile_width a)) (image_width a);
             end_y = min (add32 start_y (output_tile_height a)) (image_height a);
             tile_width = sub32 end_x start_x;
             tile_height = sub32 end_y start_y
         in and_then (div_or_panic start_x (source_tile_width a)) (\<lambda>src_start_col.
            and_then (div_or_panic (end_x - 1) (source_tile_width a)) (\<lambda>last_col.
            and_then (div_or_panic start_y (source_tile_height a)) (\<lambda>src_start_row.
            and_then (div_or_panic (end_y - 1) (source_tile_height a)) (\<lambda>last_row.
            and_then (try_fold (assemble_step a start_x start_y tile_width tile_height)
                (replicate (wrap64 (tile_width * tile_height * assembler_bands a * bytes_per_pixel a)) 0)
                (List.product [src_start_row..<add32 last_row 1] [src_start_col..<add32 last_col 1])) (\<lambda>output.
              Ok (output, assembler_bands a, tile_height, tile_width))))))))"

definition reassemble_full_image :: "image_provider \<Rightarrow> (block, codec_error) outcome" where
  "reassemble_full_image p =
    get_output_tile (assembler_new p (num_columns p) (num_rows p)) 0 0"

section \<open>The contract of a provider\<close>

definition provider_bpp :: "image_provider \<Rightarrow> nat" where
  "provider_bpp p = div_ceil (num_bits_per_pixel p) 8"

locale block_provider =
  fixes prov :: "'s \<Rightarrow> image_provider" and ready :: "'s \<Rightarrow> bool"
    and img :: "'s \<Rightarrow> nat \<Rightarrow> nat \<Rightarrow> nat \<Rightarrow> byte list"
  assumes block_dims: "ready s \<Longrightarrow> 0 < num_pixels_per_block_horizontal (prov s)" "ready s \<Longrightarrow> 0 < num_pixels_per_block_vertical (prov s)"
    and image_dims: "ready s \<Longrightarrow> num_columns (prov s) < 2 ^ 32" "ready s \<Longrightarrow> num_rows (prov s) < 2 ^ 32"
    and image_size: "ready s \<Longrightarrow> num_bands (prov s) * num_rows (prov s) * num_columns (prov s) * provider_bpp (prov s) < U64"
    and block: "ready s \<Longrightarrow> row * num_pixels_per_block_vertical (prov s) < num_rows (prov s) \<Longrightarrow>
      col * num_pixels_per_block_horizontal (prov s) < num_columns (prov s) \<Longrightarrow>
      \<exists>d. get_block (prov s) row col 0 None = Ok (d, num_bands (prov s),
          min (num_pixels_per_block_vertical (prov s)) (num_rows (prov s) - row * num_pixels_per_block_vertical (prov s)),
          min (num_pixels_per_block_horizontal (prov s)) (num_columns (prov s) - col * num_pixels_per_block_horizontal (prov s))) \<and>
        holds_region (provider_bpp (prov s)) d (num_bands (prov s))
          (min (num_pixels_per_block_vertical (prov s)) (num_rows (prov s) - row * num_pixels_per_block_vertical (prov s)))
          (min (num_pixels_per_block_horizontal (prov s)) (num_columns (prov s) - col * num_pixels_per_block_horizontal (prov s)))
          (img s) (row * num_pixels_per_block_vertical (prov s)) (col * num_pixels_per_block_horizontal (prov s))"

section \<open>Copying one source block\<close>

lemma add32_id [simp]: "a + b < 2 ^ 32 \<Longrightarrow> add32 a b = a + b"
  and mul32_id [simp]: "a * b < 2 ^ 32 \<Longrightarrow> mul32 a b = a * b"
  by (simp_all add: add32_def mul32_def)

lemma scaled_less:
  assumes "i < m" "m * bpp < U64"
  shows "i * bpp < U64"
  using assms by (meson le_less_trans less_imp_le mult_le_mono1)

lemma region_offset:
  "band * (h * w) * bpp + y * w * bpp + x * bpp = bsq_index h w band y x * bpp"
  by (simp add: bsq_index_def algebra_simps)

text \<open>Along one axis: the part of the output window that a source block covers.\<close>

lemma window_axis:
  fixes y n :: nat
  assumes "y < n" "\<not> max u0 s0 \<ge> min (u0 + n) (s0 + k)"
  shows "max u0 s0 - u0 \<le> y \<and> y < max u0 s0 - u0 + (min (u0 + n) (s0 + k) - max u0 s0) \<longleftrightarrow> s0 \<le> u0 + y \<and> u0 + y < s0 + k"
  using assms by (auto simp: max_def min_def split: if_splits)

text \<open>The overlap of the output tile with a source block is copied, the rest is kept.\<close>

lemma copy_tile_region_copies:
  assumes bpp: "bpp = bytes_per_pixel a" and bands: "bands = assembler_bands a"
    and src0: "sx0 = src_col * source_tile_width a" "sy0 = src_row * source_tile_height a"
    and lim: "sx0 + sc < 2 ^ 32" "sy0 + sr < 2 ^ 32" "ox + tw < 2 ^ 32" "oy + th < 2 ^ 32"
    and size: "bands * sr * sc * bpp < U64" "bands * th * tw * bpp < U64"
    and len: "length d = bands * sr * sc * bpp" "length out = bands * th * tw * bpp"
  shows "\<exists>out'. copy_tile_region a (d, b', sr, sc) src_row src_col out ox oy tw th = Ok out' \<and>
    length out' = length out \<and>
    (\<forall>band<bands. \<forall>y<th. \<forall>x<tw. sample bpp out' (bsq_index th tw band y x) =
      (if sy0 \<le> oy + y \<and> oy + y < sy0 + sr \<and> sx0 \<le> ox + x \<and> ox + x < sx0 + sc
       then sample bpp d (bsq_index sr sc band (oy + y - sy0) (ox + x - sx0))
       else sample bpp out (bsq_index th tw band y x)))"
proof -
  let ?osx = "max ox sx0" and ?osy = "max oy sy0" and ?oex = "min (ox + tw) (sx0 + sc)" and ?oey = "min (oy + th) (sy0 + sr)"
  have m: "mul32 src_col (source_tile_width a) = sx0" "mul32 src_row (source_tile_height a) = sy0"
    using lim src0 by simp_all
  have e: "add32 ox tw = ox + tw" "add32 sx0 sc = sx0 + sc" "add32 oy th = oy + th" "add32 sy0 sr = sy0 + sr"
    using lim by simp_all
  show ?thesis
  proof (cases "?osx \<ge> ?oex \<or> ?osy \<ge> ?oey")
    case True
    then have "copy_tile_region a (d, b', sr, sc) src_row src_col out ox oy tw th = Ok out"
      by (simp only: copy_tile_region_def case_prod_conv Let_def m e if_True)
    moreover have "(sy0 \<le> oy + y \<and> oy + y < sy0 + sr \<and> sx0 \<le> ox + x \<and> ox + x < sx0 + sc) = False"
      if "y < th" "x < tw" for y x
      using True that by (auto simp: max_def min_def split: if_splits)
    ultimately show ?thesis by (intro exI [of _ out] conjI allI impI) (simp_all only: if_False)
  next
    case False
    define cw rh where "cw = ?oex - ?osx" and "rh = ?oey - ?osy"
    define dx dy sx sy where "dx = ?osx - ox" and "dy = ?osy - oy" and "sx = ?osx - sx0" and "sy = ?osy - sy0"
    have small: "?oex < 2 ^ 32" "?oey < 2 ^ 32" "?osx < 2 ^ 32" "?osy < 2 ^ 32" using lim False by auto
    have subs: "sub32 ?oex ?osx = cw" "sub32 ?oey ?osy = rh" "sub32 ?osx sx0 = sx" "sub32 ?osy sy0 = sy"
      "sub32 ?osx ox = dx" "sub32 ?osy oy = dy"
      unfolding cw_def rh_def dx_def dy_def sx_def sy_def using False small by (auto intro!: sub32_id)
    have fits: "dy + rh \<le> th" "dx + cw \<le> tw" "sy + rh \<le> sr" "sx + cw \<le> sc"
      unfolding cw_def rh_def dx_def dy_def sx_def sy_def using False by auto
    let ?f = "\<lambda>out (band, row). copy_block (wrap64 (cw * bpp)) d out
      (wrap64 (band * (th * tw) * bpp + add32 dy row * tw * bpp + dx * bpp),
       wrap64 (band * (sr * sc) * bpp + add32 sy row * sc * bpp + sx * bpp))"
    have call: "copy_tile_region a (d, b', sr, sc) src_row src_col out ox oy tw th =
        try_fold ?f out (List.product [0..<bands] [0..<rh])"
      using False by (simp only: copy_tile_region_def case_prod_conv Let_def m e subs if_False bpp bands)
    have "\<exists>out'. try_fold ?f out (List.product [0..<bands] [0..<rh]) = (Ok out' :: (byte list, codec_error) outcome) \<and>
      length out' = length out \<and>
      (\<forall>band<bands. \<forall>y<th. \<forall>x<tw. sample bpp out' (bsq_index th tw band y x) =
        (if dy \<le> y \<and> y < dy + rh \<and> dx \<le> x \<and> x < dx + cw
         then sample bpp d (bsq_index sr sc band (sy + (y - dy)) (sx + (x - dx)))
         else sample bpp out (bsq_index th tw band y x)))"
    proof (rule region_copy [OF _ _ fits len])
      show "set (List.product [0..<bands] [0..<rh]) = {..<bands} \<times> {..<rh}" by auto
      fix band row and out1 :: "byte list"
      assume b: "band < bands" "row < rh" "length out1 = length out"
      have cw: "0 < cw" using False unfolding cw_def by linarith
      have rows: "add32 dy row = dy + row" "add32 sy row = sy + row"
        using b(2) fits lim by (auto intro!: add32_id)
      have "dy + row < th" "dx < tw" "sy + row < sr" "sx < sc" using b fits cw by auto
      then have pos: "bsq_index th tw band (dy + row) dx < bands * th * tw" "bsq_index sr sc band (sy + row) sx < bands * sr * sc"
        using b(1) bsq_index_less by blast+
      then have off: "bsq_index th tw band (dy + row) dx * bpp < U64" "bsq_index sr sc band (sy + row) sx * bpp < U64"
        using size by (auto intro: scaled_less)
      have "cw \<le> bands * th * tw" using b fits
        by (metis (no_types, lifting) add_leE less_nat_zero_code linorder_not_le mult_eq_0_iff mult_le_mono1
            nat_mult_1 not_less_eq_eq le_trans One_nat_def Suc_leI gr_zeroI mult_is_0)
      then have "cw * bpp < U64" using size(2) by (meson le_less_trans mult_le_mono1)
      then show "?f out1 (band, row) = copy_block (cw * bpp) d out1
          (bsq_index th tw band (dy + row) dx * bpp, bsq_index sr sc band (sy + row) sx * bpp)"
        using off by (simp only: case_prod_conv rows region_offset wrap64_id)
    qed
    then obtain out' where o: "copy_tile_region a (d, b', sr, sc) src_row src_col out ox oy tw th = Ok out'"
      "length out' = length out"
      "\<And>band y x. band < bands \<Longrightarrow> y < th \<Longrightarrow> x < tw \<Longrightarrow> sample bpp out' (bsq_index th tw band y x) =
        (if dy \<le> y \<and> y < dy + rh \<and> dx \<le> x \<and> x < dx + cw
         then sample bpp d (bsq_index sr sc band (sy + (y - dy)) (sx + (x - dx)))
         else sample bpp out (bsq_index th tw band y x))" unfolding call by blast
    have win: "(dy \<le> y \<and> y < dy + rh \<and> dx \<le> x \<and> x < dx + cw) \<longleftrightarrow>
        (sy0 \<le> oy + y \<and> oy + y < sy0 + sr \<and> sx0 \<le> ox + x \<and> ox + x < sx0 + sc)"
      if "y < th" "x < tw" for y x
    proof -
      have f: "\<not> ?osx \<ge> ?oex" "\<not> ?osy \<ge> ?oey" using False by blast+
      have "(dy \<le> y \<and> y < dy + rh) = (sy0 \<le> oy + y \<and> oy + y < sy0 + sr)"
        unfolding dy_def rh_def by (rule window_axis [OF that(1) f(2)])
      moreover have "(dx \<le> x \<and> x < dx + cw) = (sx0 \<le> ox + x \<and> ox + x < sx0 + sc)"
        unfolding dx_def cw_def by (rule window_axis [OF that(2) f(1)])
      ultimately show ?thesis by blast
    qed
    have idx: "dy \<le> y \<Longrightarrow> sy + (y - dy) = oy + y - sy0" "dx \<le> x \<Longrightarrow> sx + (x - dx) = ox + x - sx0" for y x
      unfolding dx_def dy_def sx_def sy_def by (auto simp: max_def split: if_splits)
    have eq: "sample bpp out' (bsq_index th tw band y x) =
        (if sy0 \<le> oy + y \<and> oy + y < sy0 + sr \<and> sx0 \<le> ox + x \<and> ox + x < sx0 + sc
         then sample bpp d (bsq_index sr sc band (oy + y - sy0) (ox + x - sx0))
         else sample bpp out (bsq_index th tw band y x))"
      if "band < bands" "y < th" "x < tw" for band y x
      unfolding o(3) [OF that] win [OF that(2,3), symmetric] by (rule if_cong [OF refl]) (auto simp only: idx)
    show ?thesis
      using o(1,2) eq by (intro exI [of _ out'] conjI allI impI) assumption+
  qed
qed

section \<open>The output tile\<close>

text \<open>Along one axis: the blocks between the first and the last one the window touches are
  inside the image, and together they cover the window.\<close>

lemma axis_block_inside:
  fixes k :: nat
  assumes "0 < s" "0 < n" "u0 + n \<le> len" "k < (u0 + n - 1) div s + 1"
  shows "k * s < len"
proof -
  have "k * s \<le> (u0 + n - 1) div s * s" using assms(4) by simp
  also have "\<dots> \<le> u0 + n - 1" by simp
  finally show ?thesis using assms by linarith
qed

lemma axis_block_covers:
  fixes y :: nat
  assumes "0 < s" "y < n" "u0 + n \<le> len"
  defines "k \<equiv> (u0 + y) div s"
  shows "u0 div s \<le> k" "k < (u0 + n - 1) div s + 1" "k * s \<le> u0 + y" "u0 + y < k * s + min s (len - k * s)"
proof -
  show "u0 div s \<le> k" unfolding k_def by (rule div_le_mono) simp
  have "u0 + y \<le> u0 + n - 1" using assms(2) by simp
  then have "(u0 + y) div s \<le> (u0 + n - 1) div s" by (rule div_le_mono)
  then show "k < (u0 + n - 1) div s + 1" unfolding k_def by simp
  show le: "k * s \<le> u0 + y" unfolding k_def by simp
  have "u0 + y < k * s + s" using assms(1) unfolding k_def
    by (metis add.commute dividend_less_div_times mult.commute)
  then show "u0 + y < k * s + min s (len - k * s)" using assms(2,3) le by (simp add: min_def)
qed

context block_provider
begin

lemma window_size:
  assumes s: "ready s" and "th \<le> num_rows (prov s)" "tw \<le> num_columns (prov s)"
  shows "num_bands (prov s) * th * tw * provider_bpp (prov s) < U64"
proof -
  have "num_bands (prov s) * th * tw * provider_bpp (prov s) \<le> num_bands (prov s) * num_rows (prov s) * num_columns (prov s) * provider_bpp (prov s)"
    using assms(2,3) by (intro mult_le_mono order_refl)
  then show ?thesis using image_size [OF s] by (rule le_less_trans)
qed

text \<open>One step of the assembly fills the part of the output its source block covers.\<close>

lemma assemble_step_copies:
  fixes oy ox th tw ow oh :: nat and s :: 's
  defines "a \<equiv> assembler_new (prov s) ow oh" and "bpp \<equiv> provider_bpp (prov s)"
    and "bw \<equiv> num_pixels_per_block_horizontal (prov s)" and "bh \<equiv> num_pixels_per_block_vertical (prov s)"
  assumes s: "ready s" and inside: "oy + th \<le> num_rows (prov s)" "ox + tw \<le> num_columns (prov s)"
    and rc: "row * bh < num_rows (prov s)" "col * bw < num_columns (prov s)"
    and len: "length out = num_bands (prov s) * th * tw * bpp"
  shows "\<exists>out'. assemble_step a ox oy tw th out (row, col) = Ok out' \<and> length out' = num_bands (prov s) * th * tw * bpp \<and>
    (\<forall>band<num_bands (prov s). \<forall>y<th. \<forall>x<tw. sample bpp out' (bsq_index th tw band y x) =
      (if row * bh \<le> oy + y \<and> oy + y < row * bh + min bh (num_rows (prov s) - row * bh) \<and>
          col * bw \<le> ox + x \<and> ox + x < col * bw + min bw (num_columns (prov s) - col * bw)
       then img s band (oy + y) (ox + x) else sample bpp out (bsq_index th tw band y x)))"
proof -
  let ?sr = "min bh (num_rows (prov s) - row * bh)" and ?sc = "min bw (num_columns (prov s) - col * bw)"
  obtain d where d: "get_block (prov s) row col 0 None = Ok (d, num_bands (prov s), ?sr, ?sc)"
    "holds_region bpp d (num_bands (prov s)) ?sr ?sc (img s) (row * bh) (col * bw)"
    using block [OF s, of row col] rc unfolding bpp_def bw_def bh_def by blast
  have fit: "row * bh + ?sr \<le> num_rows (prov s)" "col * bw + ?sc \<le> num_columns (prov s)" using rc by simp_all
  have a: "bpp = bytes_per_pixel a" "num_bands (prov s) = assembler_bands a" "col * bw = col * source_tile_width a"
    "row * bh = row * source_tile_height a" "source a = (prov s)"
    by (simp_all add: a_def bpp_def bw_def bh_def assembler_new_def provider_bpp_def)
  have lim: "col * bw + ?sc < 2 ^ 32" "row * bh + ?sr < 2 ^ 32" "ox + tw < 2 ^ 32" "oy + th < 2 ^ 32"
    using fit inside image_dims [OF s] by linarith+
  have size: "num_bands (prov s) * ?sr * ?sc * bpp < U64" "num_bands (prov s) * th * tw * bpp < U64"
    unfolding bpp_def using fit inside by (auto intro!: window_size [OF s])
  have ld: "length d = num_bands (prov s) * ?sr * ?sc * bpp" using d(2) by (simp add: holds_region_def)
  obtain out' where out': "copy_tile_region a (d, num_bands (prov s), ?sr, ?sc) row col out ox oy tw th = Ok out'"
    "length out' = length out"
    "\<And>band y x. band < num_bands (prov s) \<Longrightarrow> y < th \<Longrightarrow> x < tw \<Longrightarrow> sample bpp out' (bsq_index th tw band y x) =
      (if row * bh \<le> oy + y \<and> oy + y < row * bh + ?sr \<and> col * bw \<le> ox + x \<and> ox + x < col * bw + ?sc
       then sample bpp d (bsq_index ?sr ?sc band (oy + y - row * bh) (ox + x - col * bw))
       else sample bpp out (bsq_index th tw band y x))"
    using copy_tile_region_copies [OF a(1-4) lim size ld len] by blast
  have eq: "sample bpp d (bsq_index ?sr ?sc band (oy + y - row * bh) (ox + x - col * bw)) = img s band (oy + y) (ox + x)"
    if "band < num_bands (prov s)" "row * bh \<le> oy + y" "oy + y < row * bh + ?sr" "col * bw \<le> ox + x" "ox + x < col * bw + ?sc"
    for band y x
  proof -
    have "oy + y - row * bh < ?sr" "ox + x - col * bw < ?sc" using that by linarith+
    then have "sample bpp d (bsq_index ?sr ?sc band (oy + y - row * bh) (ox + x - col * bw)) =
        img s band (row * bh + (oy + y - row * bh)) (col * bw + (ox + x - col * bw))"
      using d(2) that(1) unfolding holds_region_def by blast
    then show ?thesis using that by simp
  qed
  have "assemble_step a ox oy tw th out (row, col) = Ok out'"
    by (simp only: assemble_step_def case_prod_conv a(5) d(1) and_then.simps out'(1))
  moreover have "sample bpp out' (bsq_index th tw band y x) =
      (if row * bh \<le> oy + y \<and> oy + y < row * bh + ?sr \<and> col * bw \<le> ox + x \<and> ox + x < col * bw + ?sc
       then img s band (oy + y) (ox + x) else sample bpp out (bsq_index th tw band y x))"
    if "band < num_bands (prov s)" "y < th" "x < tw" for band y x
    unfolding out'(3) [OF that] by (rule if_cong [OF refl]) (auto simp only: eq that)
  ultimately show ?thesis using out'(2) len by (intro exI [of _ out'] conjI allI impI) simp_all
qed

lemma output_tile_holds:
  fixes ow oh r c :: nat and s :: 's
  defines "th \<equiv> min oh (num_rows (prov s) - r * oh)" and "tw \<equiv> min ow (num_columns (prov s) - c * ow)"
  assumes s: "ready s" and dims: "0 < ow" "0 < oh" and room: "num_columns (prov s) + ow < 2 ^ 32" "num_rows (prov s) + oh < 2 ^ 32"
    and rc: "r * oh < num_rows (prov s)" "c * ow < num_columns (prov s)"
  shows "\<exists>d. get_output_tile (assembler_new (prov s) ow oh) r c = Ok (d, num_bands (prov s), th, tw) \<and>
    holds_region (provider_bpp (prov s)) d (num_bands (prov s)) th tw (img s) (r * oh) (c * ow)"
proof -
  let ?a = "assembler_new (prov s) ow oh" and ?W = "num_columns (prov s)" and ?H = "num_rows (prov s)" and ?bpp = "provider_bpp (prov s)"
  let ?bw = "num_pixels_per_block_horizontal (prov s)" and ?bh = "num_pixels_per_block_vertical (prov s)"
  have sel: "output_tile_width ?a = ow" "output_tile_height ?a = oh" "source_tile_width ?a = ?bw"
    "source_tile_height ?a = ?bh" "image_width ?a = ?W" "image_height ?a = ?H" "assembler_bands ?a = num_bands (prov s)"
    "bytes_per_pixel ?a = ?bpp" "source ?a = (prov s)"
    by (simp_all add: assembler_new_def provider_bpp_def)
  have grid: "output_grid_size ?a = Ok (div_ceil ?H oh, div_ceil ?W ow)" "r < div_ceil ?H oh" "c < div_ceil ?W ow"
    using dims rc by (simp_all add: output_grid_size_def div_ceil_or_panic_def sel less_div_ceil)
  show ?thesis
  proof (cases "grids_match ?a")
    case True
    then have "ow = ?bw" "oh = ?bh" by (simp_all add: grids_match_def sel)
    moreover have "get_output_tile ?a r c = get_block (prov s) r c 0 None"
      using True grid by (simp add: get_output_tile_def sel)
    ultimately show ?thesis using block [OF s, of r c] rc unfolding th_def tw_def by simp
  next
    case False
    have pos: "0 < th" "0 < tw" using dims rc by (simp_all add: th_def tw_def)
    have inside: "r * oh + th \<le> ?H" "c * ow + tw \<le> ?W" using rc by (simp_all add: th_def tw_def)
    have small: "r * oh + oh < 2 ^ 32" "c * ow + ow < 2 ^ 32" using rc room by linarith+
    then have start: "mul32 c ow = c * ow" "mul32 r oh = r * oh" by simp_all
    have ends: "min (add32 (c * ow) ow) ?W = c * ow + tw" "min (add32 (r * oh) oh) ?H = r * oh + th"
      using small rc by (simp_all add: th_def tw_def)
    have subs: "sub32 (c * ow + tw) (c * ow) = tw" "sub32 (r * oh + th) (r * oh) = th"
      using inside image_dims [OF s] by (simp_all add: sub32_id)
    have divs: "div_or_panic n ?bw = Ok (n div ?bw)" "div_or_panic n ?bh = Ok (n div ?bh)" for n
      using block_dims [OF s] by (simp_all add: div_or_panic_def)
    have "(c * ow + tw - 1) div ?bw + 1 < 2 ^ 32" "(r * oh + th - 1) div ?bh + 1 < 2 ^ 32"
      using inside pos image_dims [OF s] div_le_dividend [of "c * ow + tw - 1" ?bw] div_le_dividend [of "r * oh + th - 1" ?bh]
      by linarith+
    then have last: "add32 ((c * ow + tw - 1) div ?bw) 1 = (c * ow + tw - 1) div ?bw + 1"
      "add32 ((r * oh + th - 1) div ?bh) 1 = (r * oh + th - 1) div ?bh + 1" by (simp_all only: add32_id)
    have bytes: "wrap64 (tw * th * num_bands (prov s) * ?bpp) = num_bands (prov s) * th * tw * ?bpp"
      using window_size [OF s, of th tw] inside by (simp add: mult.commute mult.left_commute)
    let ?ps = "List.product [r * oh div ?bh..<(r * oh + th - 1) div ?bh + 1] [c * ow div ?bw..<(c * ow + tw - 1) div ?bw + 1]"
    let ?z = "replicate (num_bands (prov s) * th * tw * ?bpp) (0 :: byte)"
    let ?P = "\<lambda>rc y x. fst rc * ?bh \<le> r * oh + y \<and> r * oh + y < fst rc * ?bh + min ?bh (?H - fst rc * ?bh) \<and>
        snd rc * ?bw \<le> c * ow + x \<and> c * ow + x < snd rc * ?bw + min ?bw (?W - snd rc * ?bw)"
    have call: "get_output_tile ?a r c =
        and_then (try_fold (assemble_step ?a (c * ow) (r * oh) tw th) ?z ?ps) (\<lambda>out. Ok (out, num_bands (prov s), th, tw))"
    proof -
      have "(div_ceil ?H oh \<le> r \<or> div_ceil ?W ow \<le> c) = False" "grids_match ?a = False" using False grid by simp_all
      then show ?thesis
        by (simp only: get_output_tile_def sel grid(1) and_then.simps case_prod_conv start ends subs divs last bytes Let_def if_False)
    qed
    have "\<exists>out. try_fold (assemble_step ?a (c * ow) (r * oh) tw th) ?z ?ps = (Ok out :: (byte list, codec_error) outcome) \<and>
        length out = num_bands (prov s) * th * tw * ?bpp \<and>
        (\<forall>band<num_bands (prov s). \<forall>y<th. \<forall>x<tw. sample ?bpp out (bsq_index th tw band y x) =
          (if \<exists>rc\<in>set ?ps. ?P rc y x then img s band (r * oh + y) (c * ow + x) else sample ?bpp ?z (bsq_index th tw band y x)))"
    proof (rule region_fold)
      fix rc and dst :: "byte list"
      assume rc: "rc \<in> set ?ps" and len: "length dst = num_bands (prov s) * th * tw * ?bpp"
      have "fst rc < (r * oh + th - 1) div ?bh + 1" "snd rc < (c * ow + tw - 1) div ?bw + 1" using rc by auto
      then have "fst rc * ?bh < ?H" "snd rc * ?bw < ?W"
        using axis_block_inside [OF block_dims(2) [OF s] pos(1) inside(1)] axis_block_inside [OF block_dims(1) [OF s] pos(2) inside(2)] by blast+
      from assemble_step_copies [OF s inside this len, where ow = ow and oh = oh]
      show "\<exists>out. assemble_step ?a (c * ow) (r * oh) tw th dst rc = (Ok out :: (byte list, codec_error) outcome) \<and>
          length out = num_bands (prov s) * th * tw * ?bpp \<and>
          (\<forall>band<num_bands (prov s). \<forall>y<th. \<forall>x<tw. sample ?bpp out (bsq_index th tw band y x) =
            (if ?P rc y x then img s band (r * oh + y) (c * ow + x) else sample ?bpp dst (bsq_index th tw band y x)))"
        by (simp only: prod.collapse)
    qed simp
    then obtain out where out: "try_fold (assemble_step ?a (c * ow) (r * oh) tw th) ?z ?ps = Ok out"
      "length out = num_bands (prov s) * th * tw * ?bpp"
      "\<And>band y x. band < num_bands (prov s) \<Longrightarrow> y < th \<Longrightarrow> x < tw \<Longrightarrow> sample ?bpp out (bsq_index th tw band y x) =
        (if \<exists>rc\<in>set ?ps. ?P rc y x then img s band (r * oh + y) (c * ow + x) else sample ?bpp ?z (bsq_index th tw band y x))"
      by blast
    have cover: "\<exists>rc\<in>set ?ps. ?P rc y x" if "y < th" "x < tw" for y x
    proof (rule bexI [of _ "((r * oh + y) div ?bh, (c * ow + x) div ?bw)"])
      note v = axis_block_covers [OF block_dims(2) [OF s] that(1) inside(1)] and h = axis_block_covers [OF block_dims(1) [OF s] that(2) inside(2)]
      show "?P ((r * oh + y) div ?bh, (c * ow + x) div ?bw) y x"
        unfolding fst_conv snd_conv by (intro conjI v h)
      show "((r * oh + y) div ?bh, (c * ow + x) div ?bw) \<in> set ?ps"
        unfolding set_product by (intro SigmaI) (simp_all only: atLeastLessThan_iff set_upt v h simp_thms)
    qed
    have "holds_region ?bpp out (num_bands (prov s)) th tw (img s) (r * oh) (c * ow)"
      unfolding holds_region_def using out(2) by (intro conjI allI impI) (simp_all only: out(3) cover if_True)
    then show ?thesis unfolding call out(1) by simp
  qed
qed

end

end
