(* ===== verification/Buffered_Image.thy ===== *)
theory Buffered_Image
  imports Tile_Assembler
begin

text \<open>
  The in-memory image of \<open>src/src/buffered/image.rs\<close>: blocks kept in a map, an optional source
  image behind them that is read on demand, re-tiled and padded where its block grid or its
  size differ.  Data is band-sequential.  Key, title, description, roles and metadata of the
  asset are constants the operations do not look at and are left out, as are the locks of the
  two maps (one thread; a lock is only ever poisoned by a panic).
\<close>

section \<open>Definitions\<close>

datatype pixel_type = UInt8 | UInt16 | UInt32 | Int8 | Int16 | Int32 | Float32 | Float64

fun pixel_bytes :: "pixel_type \<Rightarrow> nat" where
  "pixel_bytes UInt8 = 1"
| "pixel_bytes Int8 = 1"
| "pixel_bytes UInt16 = 2"
| "pixel_bytes Int16 = 2"
| "pixel_bytes UInt32 = 4"
| "pixel_bytes Int32 = 4"
| "pixel_bytes Float32 = 4"
| "pixel_bytes Float64 = 8"

fun to_numpy_dtype :: "pixel_type \<Rightarrow> string" where
  "to_numpy_dtype UInt8 = ''uint8''"
| "to_numpy_dtype UInt16 = ''uint16''"
| "to_numpy_dtype UInt32 = ''uint32''"
| "to_numpy_dtype Int8 = ''int8''"
| "to_numpy_dtype Int16 = ''int16''"
| "to_numpy_dtype Int32 = ''int32''"
| "to_numpy_dtype Float32 = ''float32''"
| "to_numpy_dtype Float64 = ''float64''"

record image_config =
  cfg_columns :: nat
  cfg_rows :: nat
  cfg_bands :: nat
  cfg_block_width :: nat
  cfg_block_height :: nat
  cfg_pixel_type :: pixel_type
  cfg_bits :: nat
  cfg_actual_bits :: nat
  cfg_irep :: string

definition default_config :: image_config where
  "default_config = \<lparr>cfg_columns = 512, cfg_rows = 512, cfg_bands = 1, cfg_block_width = 256,
    cfg_block_height = 256, cfg_pixel_type = UInt8, cfg_bits = 8, cfg_actual_bits = 8, cfg_irep = ''MONO''\<rparr>"

definition config_new :: "nat \<Rightarrow> nat \<Rightarrow> image_config" where
  "config_new w h = default_config\<lparr>cfg_columns := w, cfg_rows := h\<rparr>"

definition with_bands :: "nat \<Rightarrow> image_config \<Rightarrow> image_config" where
  "with_bands n cfg = cfg\<lparr>cfg_bands := n, cfg_irep := (if n = 1 then ''MONO'' else if n = 3 then ''RGB'' else ''MULTI'')\<rparr>"

definition with_block_size :: "nat \<Rightarrow> nat \<Rightarrow> image_config \<Rightarrow> image_config" where
  "with_block_size w h cfg = cfg\<lparr>cfg_block_width := w, cfg_block_height := h\<rparr>"

definition with_pixel_type :: "pixel_type \<Rightarrow> image_config \<Rightarrow> image_config" where
  "with_pixel_type ty cfg = cfg\<lparr>cfg_pixel_type := ty, cfg_bits := pixel_bytes ty * 8, cfg_actual_bits := pixel_bytes ty * 8\<rparr>"

definition with_bits_per_pixel :: "nat \<Rightarrow> image_config \<Rightarrow> image_config" where
  "with_bits_per_pixel nbpp cfg = cfg\<lparr>cfg_bits := nbpp\<rparr>"

definition with_actual_bits_per_pixel :: "nat \<Rightarrow> image_config \<Rightarrow> image_config" where
  "with_actual_bits_per_pixel abpp cfg = cfg\<lparr>cfg_actual_bits := abpp\<rparr>"

definition num_blocks_horizontal :: "image_config \<Rightarrow> (nat, codec_error) outcome" where
  "num_blocks_horizontal cfg = div_ceil_or_panic (cfg_columns cfg) (cfg_block_width cfg)"

definition num_blocks_vertical :: "image_config \<Rightarrow> (nat, codec_error) outcome" where
  "num_blocks_vertical cfg = div_ceil_or_panic (cfg_rows cfg) (cfg_block_height cfg)"

definition total_blocks :: "image_config \<Rightarrow> (nat, codec_error) outcome" where
  "total_blocks cfg = and_then (num_blocks_horizontal cfg) (\<lambda>h. and_then (num_blocks_vertical cfg) (\<lambda>v. Ok (mul32 h v)))"

record buffered_image =
  config :: image_config
  blocks :: "nat \<times> nat \<Rightarrow> byte list option"
  provided_blocks :: "(nat \<times> nat) set"
  backing :: "image_provider option"

definition buffered_new :: "image_config \<Rightarrow> buffered_image" where
  "buffered_new cfg = \<lparr>config = cfg, blocks = Map.empty, provided_blocks = {}, backing = None\<rparr>"

definition with_source :: "image_provider \<Rightarrow> buffered_image \<Rightarrow> buffered_image" where
  "with_source src b = b\<lparr>backing := Some src\<rparr>"

text \<open>The guard of every access: the block is in the grid of the configuration.\<close>

definition in_grid :: "image_config \<Rightarrow> nat \<Rightarrow> nat \<Rightarrow> (bool, codec_error) outcome" where
  "in_grid cfg row col =
    and_then (num_blocks_horizontal cfg) (\<lambda>h. and_then (num_blocks_vertical cfg) (\<lambda>v. Ok (row < v \<and> col < h)))"

definition put_block :: "nat \<Rightarrow> nat \<Rightarrow> byte list \<Rightarrow> buffered_image \<Rightarrow> buffered_image" where
  "put_block row col d b =
    b\<lparr>blocks := (blocks b)((row, col) \<mapsto> d), provided_blocks := insert (row, col) (provided_blocks b)\<rparr>"

definition set_block :: "nat \<Rightarrow> nat \<Rightarrow> byte list \<Rightarrow> buffered_image \<Rightarrow> (buffered_image, codec_error) outcome" where
  "set_block row col d b =
    and_then (in_grid (config b) row col) (\<lambda>inside.
      if \<not> inside then Err (InvalidBlockCoordinates row col 0) else Ok (put_block row col d b))"

definition extract_block_bsq :: "image_config \<Rightarrow> byte list \<Rightarrow> nat \<Rightarrow> nat \<Rightarrow> (byte list, codec_error) outcome" where
  "extract_block_bsq cfg bsq_data block_row block_col =
    (let bpp = pixel_bytes (cfg_pixel_type cfg); rows = cfg_rows cfg; cols = cfg_columns cfg;
         start_row = mul32 block_row (cfg_block_height cfg); start_col = mul32 block_col (cfg_block_width cfg);
         end_row = min (start_row + cfg_block_height cfg) rows; end_col = min (start_col + cfg_block_width cfg) cols;
         block_rows = sub64 end_row start_row; block_cols = sub64 end_col start_col
     in try_fold (\<lambda>out (band, local_row). copy_block (wrap64 (block_cols * bpp)) bsq_data out
          (wrap64 (band * (block_rows * block_cols) * bpp + local_row * block_cols * bpp),
           wrap64 (band * (rows * cols) * bpp + (start_row + local_row) * cols * bpp + start_col * bpp)))
        (replicate (wrap64 (cfg_bands cfg * (block_rows * block_cols) * bpp)) 0)
        (List.product [0..<cfg_bands cfg] [0..<end_row - start_row]))"

definition set_full_image :: "byte list \<Rightarrow> buffered_image \<Rightarrow> (buffered_image, codec_error) outcome" where
  "set_full_image data b =
    (let cfg = config b
     in if length data \<noteq> wrap64 (cfg_rows cfg * cfg_columns cfg * cfg_bands cfg * pixel_bytes (cfg_pixel_type cfg))
        then Err Decode
        else and_then (num_blocks_horizontal cfg) (\<lambda>h. and_then (num_blocks_vertical cfg) (\<lambda>v.
          try_fold (\<lambda>b (row, col). and_then (extract_block_bsq cfg data row col) (\<lambda>d. Ok (put_block row col d b)))
            b (List.product [0..<v] [0..<h]))))"

definition copy_block_rows ::
    "image_config \<Rightarrow> byte list \<Rightarrow> nat \<Rightarrow> nat \<Rightarrow> byte list \<Rightarrow> (byte list, codec_error) outcome" where
  "copy_block_rows cfg block_data block_row block_col out =
    (let bpp = pixel_bytes (cfg_pixel_type cfg); rows = cfg_rows cfg; cols = cfg_columns cfg;
         start_row = mul32 block_row (cfg_block_height cfg); start_col = mul32 block_col (cfg_block_width cfg);
         end_row = min (start_row + cfg_block_height cfg) rows; end_col = min (start_col + cfg_block_width cfg) cols;
         block_rows = sub64 end_row start_row; block_cols = sub64 end_col start_col
     in try_fold (\<lambda>out (band, local_row).
          let n = wrap64 (block_cols * bpp);
              src_row_start = wrap64 (band * (block_rows * block_cols) * bpp + local_row * block_cols * bpp);
              dst_row_start = wrap64 (band * (rows * cols) * bpp + (start_row + local_row) * cols * bpp + start_col * bpp)
          in if add64 src_row_start n \<le> length block_data \<and> add64 dst_row_start n \<le> length out
             then copy_block n block_data out (dst_row_start, src_row_start) else Ok out)
        out (List.product [0..<cfg_bands cfg] [0..<end_row - start_row]))"

definition get_raw_bsq :: "buffered_image \<Rightarrow> (byte list, codec_error) outcome" where
  "get_raw_bsq b =
    (let cfg = config b
     in and_then (num_blocks_horizontal cfg) (\<lambda>h. and_then (num_blocks_vertical cfg) (\<lambda>v.
        try_fold (\<lambda>out (row, col). case blocks b (row, col) of
            Some d \<Rightarrow> copy_block_rows cfg d row col out
          | None \<Rightarrow> Ok out)
          (replicate (wrap64 (cfg_bands cfg * (cfg_rows cfg * cfg_columns cfg) * pixel_bytes (cfg_pixel_type cfg))) 0)
          (List.product [0..<v] [0..<h]))))"

definition buffered_has_block :: "buffered_image \<Rightarrow> nat \<Rightarrow> nat \<Rightarrow> nat \<Rightarrow> (bool, codec_error) outcome" where
  "buffered_has_block b block_row block_col resolution_level =
    (let cfg = config b
     in if resolution_level \<noteq> 0 then Ok False
        else and_then (in_grid cfg block_row block_col) (\<lambda>inside.
          if \<not> inside then Ok False
          else if (block_row, block_col) \<in> provided_blocks b then Ok True
          else case backing b of
              Some src \<Rightarrow>
                if num_pixels_per_block_horizontal src = cfg_block_width cfg \<and>
                   num_pixels_per_block_vertical src = cfg_block_height cfg
                then provider_has_block src block_row block_col resolution_level
                else Ok (assembler_has_block (assembler_new src (cfg_block_width cfg) (cfg_block_height cfg)) block_row block_col)
            | None \<Rightarrow> Ok False))"

text \<open>The size of a block of the grid, smaller at the edges.\<close>

definition block_dims_at :: "image_config \<Rightarrow> nat \<Rightarrow> nat \<Rightarrow> nat \<times> nat" where
  "block_dims_at cfg block_row block_col =
    (min (cfg_block_height cfg) (sub32 (cfg_rows cfg) (mul32 block_row (cfg_block_height cfg))),
     min (cfg_block_width cfg) (sub32 (cfg_columns cfg) (mul32 block_col (cfg_block_width cfg))))"

text \<open>The requested bands of band-sequential data; a band past the end is skipped.\<close>

definition select_bands :: "nat \<Rightarrow> byte list \<Rightarrow> nat list \<Rightarrow> (byte list, codec_error) outcome" where
  "select_bands band_size d indices =
    try_fold (\<lambda>out band.
      let start = wrap64 (band * band_size); end = add64 start band_size
      in if end \<le> length d then and_then (slice start end d) (\<lambda>bs. Ok (out @ bs)) else Ok out) [] indices"

text \<open>\<open>pad_pixel_bytes\<close> at the pad value \<open>0.0\<close> of this provider: the bytes of zero in every
  pixel type.  A buffer is filled with the pattern only where the pattern is not zero.\<close>

definition pad_zero_bytes :: "pixel_type \<Rightarrow> byte list" where
  "pad_zero_bytes ty = replicate (pixel_bytes ty) 0"

definition pad_buffer :: "byte list \<Rightarrow> nat \<Rightarrow> byte list" where
  "pad_buffer pad n =
    (if list_ex (\<lambda>b. b \<noteq> 0) pad
     then concat (replicate (n div length pad) pad) @ replicate (n mod length pad) 0
     else replicate n 0)"

definition pad_tile ::
    "image_config \<Rightarrow> byte list \<Rightarrow> nat \<Rightarrow> nat \<Rightarrow> nat \<Rightarrow> nat \<Rightarrow> (byte list, codec_error) outcome" where
  "pad_tile cfg tile_data tile_rows tile_cols block_rows block_cols =
    (let pad = pad_zero_bytes (cfg_pixel_type cfg); bpp = length pad
     in try_fold (\<lambda>out (band, row). copy_block (wrap64 (tile_cols * bpp)) tile_data out
          (wrap64 (band * (block_rows * block_cols) * bpp + row * block_cols * bpp),
           wrap64 (band * (tile_rows * tile_cols) * bpp + row * tile_cols * bpp)))
        (pad_buffer pad (wrap64 (block_rows * block_cols * cfg_bands cfg * bpp)))
        (List.product [0..<cfg_bands cfg] [0..<tile_rows]))"

text \<open>A block of the source: passed through where the grids agree, else assembled and padded.\<close>

definition source_block :: "image_config \<Rightarrow> image_provider \<Rightarrow> nat \<Rightarrow> nat \<Rightarrow> nat \<Rightarrow> (block, codec_error) outcome" where
  "source_block cfg src block_row block_col resolution_level =
    (let (src_grid_rows, src_grid_cols) = block_grid_size src
     in if num_pixels_per_block_horizontal src = cfg_block_width cfg \<and>
           num_pixels_per_block_vertical src = cfg_block_height cfg \<and>
           (block_row < src_grid_rows \<and> block_col < src_grid_cols)
        then get_block src block_row block_col resolution_level None
        else
          (let assembler = assembler_new src (cfg_block_width cfg) (cfg_block_height cfg);
               (block_rows, block_cols) = block_dims_at cfg block_row block_col
           in if \<not> assembler_has_block assembler block_row block_col
              then (let pad = pad_zero_bytes (cfg_pixel_type cfg)
                    in Ok (pad_buffer pad (wrap64 (block_rows * block_cols * cfg_bands cfg * length pad)),
                           cfg_bands cfg, block_rows, block_cols))
              else and_then (get_output_tile assembler block_row block_col) (\<lambda>(tile_data, tile_bands, tile_rows, tile_cols).
                if tile_rows = block_rows \<and> tile_cols = block_cols
                then Ok (tile_data, tile_bands, tile_rows, tile_cols)
                else and_then (pad_tile cfg tile_data tile_rows tile_cols block_rows block_cols) (\<lambda>buf.
                  Ok (buf, cfg_bands cfg, block_rows, block_cols)))))"

definition buffered_get_block ::
    "buffered_image \<Rightarrow> nat \<Rightarrow> nat \<Rightarrow> nat \<Rightarrow> nat list option \<Rightarrow> (block, codec_error) outcome" where
  "buffered_get_block b block_row block_col resolution_level bands =
    (let cfg = config b; bpp = pixel_bytes (cfg_pixel_type cfg)
     in if resolution_level \<noteq> 0 then Err (InvalidBlockCoordinates block_row block_col resolution_level)
        else and_then (in_grid cfg block_row block_col) (\<lambda>inside.
          if \<not> inside then Err (InvalidBlockCoordinates block_row block_col resolution_level)
          else case blocks b (block_row, block_col) of
            Some block_data \<Rightarrow>
              (let (block_rows, block_cols) = block_dims_at cfg block_row block_col
               in case bands of
                 Some indices \<Rightarrow>
                   and_then (select_bands (wrap64 (mul32 block_rows block_cols * bpp)) block_data indices) (\<lambda>d.
                     Ok (d, length indices, block_rows, block_cols))
               | None \<Rightarrow> Ok (block_data, cfg_bands cfg, block_rows, block_cols))
          | None \<Rightarrow>
              (case backing b of
                Some src \<Rightarrow>
                  and_then (source_block cfg src block_row block_col resolution_level) (\<lambda>(d, nb, rows, cols).
                    case bands of
                      Some indices \<Rightarrow>
                        and_then (select_bands (wrap64 (rows * cols * bpp)) d indices) (\<lambda>d'.
                          Ok (d', length indices, rows, cols))
                    | None \<Rightarrow> Ok (d, nb, rows, cols))
              | None \<Rightarrow> Err Decode)))"

definition buffered_provider :: "buffered_image \<Rightarrow> image_provider" where
  "buffered_provider b =
    \<lparr>get_block = buffered_get_block b, provider_has_block = buffered_has_block b,
     num_bands = cfg_bands (config b), num_rows = cfg_rows (config b), num_columns = cfg_columns (config b),
     num_pixels_per_block_horizontal = cfg_block_width (config b),
     num_pixels_per_block_vertical = cfg_block_height (config b), num_bits_per_pixel = cfg_bits (config b)\<rparr>"

section \<open>Complete images\<close>

text \<open>The configurations whose arithmetic stays in range, the plane a full image buffer
  spells, and the images that hold every block of their grid.\<close>

definition config_bpp :: "image_config \<Rightarrow> nat" where
  "config_bpp cfg = pixel_bytes (cfg_pixel_type cfg)"

definition valid_config :: "image_config \<Rightarrow> bool" where
  "valid_config cfg \<longleftrightarrow> 0 < cfg_block_width cfg \<and> 0 < cfg_block_height cfg \<and>
    cfg_columns cfg < 2 ^ 32 \<and> cfg_rows cfg < 2 ^ 32 \<and> cfg_block_width cfg < 2 ^ 32 \<and> cfg_block_height cfg < 2 ^ 32 \<and>
    cfg_bands cfg * cfg_rows cfg * cfg_columns cfg * config_bpp cfg < U64 \<and>
    div_ceil (cfg_bits cfg) 8 = config_bpp cfg"

definition edge_rows :: "image_config \<Rightarrow> nat \<Rightarrow> nat" where
  "edge_rows cfg row = min (cfg_block_height cfg) (cfg_rows cfg - row * cfg_block_height cfg)"

definition edge_cols :: "image_config \<Rightarrow> nat \<Rightarrow> nat" where
  "edge_cols cfg col = min (cfg_block_width cfg) (cfg_columns cfg - col * cfg_block_width cfg)"

definition plane :: "image_config \<Rightarrow> byte list \<Rightarrow> nat \<Rightarrow> nat \<Rightarrow> nat \<Rightarrow> byte list" where
  "plane cfg data band y x = sample (config_bpp cfg) data (bsq_index (cfg_rows cfg) (cfg_columns cfg) band y x)"

definition complete :: "buffered_image \<Rightarrow> bool" where
  "complete b \<longleftrightarrow> valid_config (config b) \<and>
    (\<forall>row col. row * cfg_block_height (config b) < cfg_rows (config b) \<longrightarrow> col * cfg_block_width (config b) < cfg_columns (config b) \<longrightarrow>
      (\<exists>d. blocks b (row, col) = Some d \<and>
        length d = cfg_bands (config b) * edge_rows (config b) row * edge_cols (config b) col * config_bpp (config b)))"

definition stored_image :: "buffered_image \<Rightarrow> nat \<Rightarrow> nat \<Rightarrow> nat \<Rightarrow> byte list" where
  "stored_image b band y x =
    (let cfg = config b; row = y div cfg_block_height cfg; col = x div cfg_block_width cfg
     in case blocks b (row, col) of
         Some d \<Rightarrow> sample (config_bpp cfg) d
           (bsq_index (edge_rows cfg row) (edge_cols cfg col) band (y mod cfg_block_height cfg) (x mod cfg_block_width cfg))
       | None \<Rightarrow> [])"

lemma pixel_bytes_pos [simp]: "0 < pixel_bytes ty"
  by (cases ty) simp_all

lemma in_grid_iff:
  assumes "valid_config cfg"
  shows "in_grid cfg row col =
    Ok (row * cfg_block_height cfg < cfg_rows cfg \<and> col * cfg_block_width cfg < cfg_columns cfg)"
  using assms
  by (simp add: in_grid_def num_blocks_horizontal_def num_blocks_vertical_def div_ceil_or_panic_def valid_config_def less_div_ceil)

lemma block_dims_at_edge:
  assumes "valid_config cfg" "row * cfg_block_height cfg < cfg_rows cfg" "col * cfg_block_width cfg < cfg_columns cfg"
  shows "block_dims_at cfg row col = (edge_rows cfg row, edge_cols cfg col)"
  using assms by (simp add: block_dims_at_def valid_config_def edge_rows_def edge_cols_def sub32_id)

lemma buffered_provider_sel [simp]:
  "get_block (buffered_provider b) = buffered_get_block b"
  "num_bands (buffered_provider b) = cfg_bands (config b)"
  "num_rows (buffered_provider b) = cfg_rows (config b)"
  "num_columns (buffered_provider b) = cfg_columns (config b)"
  "num_pixels_per_block_horizontal (buffered_provider b) = cfg_block_width (config b)"
  "num_pixels_per_block_vertical (buffered_provider b) = cfg_block_height (config b)"
  "provider_bpp (buffered_provider b) = div_ceil (cfg_bits (config b)) 8"
  by (simp_all add: buffered_provider_def provider_bpp_def)

lemma edge_rows_le: "edge_rows cfg row \<le> cfg_block_height cfg" "edge_rows cfg row \<le> cfg_rows cfg - row * cfg_block_height cfg"
  and edge_cols_le: "edge_cols cfg col \<le> cfg_block_width cfg" "edge_cols cfg col \<le> cfg_columns cfg - col * cfg_block_width cfg"
  by (simp_all add: edge_rows_def edge_cols_def)

lemma stored_block_get:
  assumes "valid_config (config b)" "row * cfg_block_height (config b) < cfg_rows (config b)"
    "col * cfg_block_width (config b) < cfg_columns (config b)" "blocks b (row, col) = Some d"
  shows "buffered_get_block b row col 0 None =
    Ok (d, cfg_bands (config b), edge_rows (config b) row, edge_cols (config b) col)"
  using assms by (simp add: buffered_get_block_def Let_def in_grid_iff block_dims_at_edge)

lemma stored_image_block:
  assumes "blocks b (row, col) = Some d" "y < edge_rows (config b) row" "x < edge_cols (config b) col"
  shows "stored_image b band (row * cfg_block_height (config b) + y) (col * cfg_block_width (config b) + x) =
    sample (config_bpp (config b)) d (bsq_index (edge_rows (config b) row) (edge_cols (config b) col) band y x)"
proof -
  have "y < cfg_block_height (config b)" "x < cfg_block_width (config b)"
    using assms(2,3) edge_rows_le(1) edge_cols_le(1) less_le_trans by blast+
  then show ?thesis using assms(1) by (simp add: stored_image_def Let_def)
qed

interpretation stored: block_provider buffered_provider complete stored_image
proof (unfold_locales, goal_cases)
  case (6 b row col)
  then obtain d where d: "blocks b (row, col) = Some d"
    "length d = cfg_bands (config b) * edge_rows (config b) row * edge_cols (config b) col * config_bpp (config b)"
    by (auto simp: complete_def)
  have v: "valid_config (config b)" using 6(1) by (simp add: complete_def)
  have "holds_region (config_bpp (config b)) d (cfg_bands (config b)) (edge_rows (config b) row) (edge_cols (config b) col)
      (stored_image b) (row * cfg_block_height (config b)) (col * cfg_block_width (config b))"
    unfolding holds_region_def using d by (simp add: stored_image_block)
  moreover have "config_bpp (config b) = provider_bpp (buffered_provider b)"
    using v by (simp add: valid_config_def)
  ultimately show ?case
    using stored_block_get [OF v _ _ d(1)] 6(2,3) by (simp add: edge_rows_def edge_cols_def)
qed (auto simp: complete_def valid_config_def)

section \<open>Splitting a full image into blocks\<close>

lemma config_region_small:
  assumes "valid_config cfg" "h \<le> cfg_rows cfg" "w \<le> cfg_columns cfg"
  shows "cfg_bands cfg * h * w * config_bpp cfg < U64"
proof -
  have "cfg_bands cfg * h * w * config_bpp cfg \<le> cfg_bands cfg * cfg_rows cfg * cfg_columns cfg * config_bpp cfg"
    using assms(2,3) by (intro mult_le_mono order_refl)
  then show ?thesis using assms(1) unfolding valid_config_def by linarith
qed

text \<open>The arithmetic of one row of one band of a block, on the block's and on the image's side.\<close>

lemma block_row_offsets:
  fixes row col :: nat and cfg :: image_config
  defines "sr \<equiv> row * cfg_block_height cfg" and "sc \<equiv> col * cfg_block_width cfg"
  assumes v: "valid_config cfg" and rc: "sr < cfg_rows cfg" "sc < cfg_columns cfg"
    and b: "band < cfg_bands cfg" "local_row < edge_rows cfg row"
  shows "wrap64 (band * (edge_rows cfg row * edge_cols cfg col) * config_bpp cfg + local_row * edge_cols cfg col * config_bpp cfg) =
      bsq_index (edge_rows cfg row) (edge_cols cfg col) band (0 + local_row) 0 * config_bpp cfg"
    and "wrap64 (band * (cfg_rows cfg * cfg_columns cfg) * config_bpp cfg + (sr + local_row) * cfg_columns cfg * config_bpp cfg +
        sc * config_bpp cfg) =
      bsq_index (cfg_rows cfg) (cfg_columns cfg) band (sr + local_row) sc * config_bpp cfg"
    and "wrap64 (edge_cols cfg col * config_bpp cfg) = edge_cols cfg col * config_bpp cfg"
    and "bsq_index (edge_rows cfg row) (edge_cols cfg col) band (0 + local_row) 0 * config_bpp cfg + edge_cols cfg col * config_bpp cfg
      \<le> cfg_bands cfg * edge_rows cfg row * edge_cols cfg col * config_bpp cfg"
    and "bsq_index (cfg_rows cfg) (cfg_columns cfg) band (sr + local_row) sc * config_bpp cfg + edge_cols cfg col * config_bpp cfg
      \<le> cfg_bands cfg * cfg_rows cfg * cfg_columns cfg * config_bpp cfg"
proof -
  let ?bh = "edge_rows cfg row" and ?bw = "edge_cols cfg col" and ?H = "cfg_rows cfg" and ?W = "cfg_columns cfg"
  let ?n = "config_bpp cfg"
  have fit: "sr + ?bh \<le> ?H" "sc + ?bw \<le> ?W" using rc unfolding edge_rows_def edge_cols_def sr_def sc_def by simp_all
  have w: "0 < ?bw" using rc v unfolding edge_cols_def sc_def valid_config_def by simp
  have i1: "bsq_index ?bh ?bw band local_row (?bw - 1) < cfg_bands cfg * ?bh * ?bw"
    using b w by (intro bsq_index_less) simp_all
  have i2: "bsq_index ?H ?W band (sr + local_row) (sc + (?bw - 1)) < cfg_bands cfg * ?H * ?W"
    using b w fit by (intro bsq_index_less) simp_all
  have e1: "bsq_index ?bh ?bw band local_row 0 + ?bw \<le> cfg_bands cfg * ?bh * ?bw"
    using i1 w by (simp add: bsq_index_def)
  have e2: "bsq_index ?H ?W band (sr + local_row) sc + ?bw \<le> cfg_bands cfg * ?H * ?W"
    using i2 w by (simp add: bsq_index_def)
  show m1: "bsq_index ?bh ?bw band (0 + local_row) 0 * ?n + ?bw * ?n \<le> cfg_bands cfg * ?bh * ?bw * ?n"
    using mult_le_mono1 [OF e1, of ?n] by (simp add: add_mult_distrib)
  show m2: "bsq_index ?H ?W band (sr + local_row) sc * ?n + ?bw * ?n \<le> cfg_bands cfg * ?H * ?W * ?n"
    using mult_le_mono1 [OF e2, of ?n] by (simp add: add_mult_distrib)
  have s1: "cfg_bands cfg * ?bh * ?bw * ?n < U64" "cfg_bands cfg * ?H * ?W * ?n < U64"
    using fit by (auto intro!: config_region_small [OF v])
  have "bsq_index ?bh ?bw band (0 + local_row) 0 * ?n < U64" "bsq_index ?H ?W band (sr + local_row) sc * ?n < U64" "?bw * ?n < U64"
    using m1 m2 s1 by linarith+
  then show "wrap64 (band * (?bh * ?bw) * ?n + local_row * ?bw * ?n) = bsq_index ?bh ?bw band (0 + local_row) 0 * ?n"
    "wrap64 (band * (?H * ?W) * ?n + (sr + local_row) * ?W * ?n + sc * ?n) = bsq_index ?H ?W band (sr + local_row) sc * ?n"
    "wrap64 (?bw * ?n) = ?bw * ?n"
    using region_offset [of band ?bh ?bw ?n local_row 0] by (simp_all add: region_offset)
qed

lemma block_window:
  fixes row col :: nat and cfg :: image_config
  defines "sr \<equiv> row * cfg_block_height cfg" and "sc \<equiv> col * cfg_block_width cfg"
  assumes v: "valid_config cfg" and rc: "sr < cfg_rows cfg" "sc < cfg_columns cfg"
  shows "mul32 row (cfg_block_height cfg) = sr" "mul32 col (cfg_block_width cfg) = sc"
    "sub64 (min (sr + cfg_block_height cfg) (cfg_rows cfg)) sr = edge_rows cfg row"
    "sub64 (min (sc + cfg_block_width cfg) (cfg_columns cfg)) sc = edge_cols cfg col"
    "min (sr + cfg_block_height cfg) (cfg_rows cfg) - sr = edge_rows cfg row"
    "wrap64 (cfg_bands cfg * (edge_rows cfg row * edge_cols cfg col) * config_bpp cfg) =
      cfg_bands cfg * edge_rows cfg row * edge_cols cfg col * config_bpp cfg"
    "sr + edge_rows cfg row \<le> cfg_rows cfg" "sc + edge_cols cfg col \<le> cfg_columns cfg"
proof -
  have lt: "sr < 2 ^ 32" "sc < 2 ^ 32" using v rc unfolding valid_config_def by linarith+
  then show "mul32 row (cfg_block_height cfg) = sr" "mul32 col (cfg_block_width cfg) = sc"
    unfolding sr_def sc_def by (simp_all only: mul32_id)
  show m: "min (sr + cfg_block_height cfg) (cfg_rows cfg) - sr = edge_rows cfg row"
    unfolding edge_rows_def sr_def [symmetric] by linarith
  have m': "min (sc + cfg_block_width cfg) (cfg_columns cfg) - sc = edge_cols cfg col"
    unfolding edge_cols_def sc_def [symmetric] by linarith
  have "min (sr + cfg_block_height cfg) (cfg_rows cfg) < U64" "min (sc + cfg_block_width cfg) (cfg_columns cfg) < U64"
    using v by (auto simp: valid_config_def U64_def)
  then show "sub64 (min (sr + cfg_block_height cfg) (cfg_rows cfg)) sr = edge_rows cfg row"
    "sub64 (min (sc + cfg_block_width cfg) (cfg_columns cfg)) sc = edge_cols cfg col"
    using rc m m' by simp_all
  show fit: "sr + edge_rows cfg row \<le> cfg_rows cfg" "sc + edge_cols cfg col \<le> cfg_columns cfg"
    using rc unfolding edge_rows_def edge_cols_def sr_def sc_def by simp_all
  have "cfg_bands cfg * edge_rows cfg row * edge_cols cfg col * config_bpp cfg < U64"
    using fit by (intro config_region_small [OF v]) simp_all
  then show "wrap64 (cfg_bands cfg * (edge_rows cfg row * edge_cols cfg col) * config_bpp cfg) =
      cfg_bands cfg * edge_rows cfg row * edge_cols cfg col * config_bpp cfg"
    by (simp add: mult.assoc)
qed

lemma extract_block_holds:
  fixes row col :: nat and cfg :: image_config
  defines "sr \<equiv> row * cfg_block_height cfg" and "sc \<equiv> col * cfg_block_width cfg"
  assumes v: "valid_config cfg" and rc: "sr < cfg_rows cfg" "sc < cfg_columns cfg"
    and len: "length data = cfg_bands cfg * cfg_rows cfg * cfg_columns cfg * config_bpp cfg"
  shows "\<exists>d. extract_block_bsq cfg data row col = Ok d \<and>
    holds_region (config_bpp cfg) d (cfg_bands cfg) (edge_rows cfg row) (edge_cols cfg col) (plane cfg data) sr sc"
proof -
  let ?bh = "edge_rows cfg row" and ?bw = "edge_cols cfg col" and ?H = "cfg_rows cfg" and ?W = "cfg_columns cfg"
  let ?n = "config_bpp cfg" and ?B = "cfg_bands cfg"
  let ?z = "replicate (?B * ?bh * ?bw * ?n) (0 :: byte)"
  let ?f = "\<lambda>out (band, local_row). copy_block (wrap64 (?bw * ?n)) data out
    (wrap64 (band * (?bh * ?bw) * ?n + local_row * ?bw * ?n),
     wrap64 (band * (?H * ?W) * ?n + (sr + local_row) * ?W * ?n + sc * ?n))"
  note win = block_window [OF v rc [unfolded sr_def sc_def], folded sr_def sc_def]
  have call: "extract_block_bsq cfg data row col = try_fold ?f ?z (List.product [0..<?B] [0..<?bh])"
    by (simp only: extract_block_bsq_def Let_def win config_bpp_def [symmetric])
  have "\<exists>out. try_fold ?f ?z (List.product [0..<?B] [0..<?bh]) = (Ok out :: (byte list, codec_error) outcome) \<and>
    length out = length ?z \<and>
    (\<forall>band<?B. \<forall>y<?bh. \<forall>x<?bw. sample ?n out (bsq_index ?bh ?bw band y x) =
      (if 0 \<le> y \<and> y < 0 + ?bh \<and> 0 \<le> x \<and> x < 0 + ?bw
       then sample ?n data (bsq_index ?H ?W band (sr + (y - 0)) (sc + (x - 0)))
       else sample ?n ?z (bsq_index ?bh ?bw band y x)))"
  proof (rule region_copy)
    show "set (List.product [0..<?B] [0..<?bh]) = {..<?B} \<times> {..<?bh}" by auto
    show "?f out (band, local_row) = copy_block (?bw * ?n) data out
        (bsq_index ?bh ?bw band (0 + local_row) 0 * ?n, bsq_index ?H ?W band (sr + local_row) sc * ?n)"
      if "band < ?B" "local_row < ?bh" for band local_row and out :: "byte list"
      using block_row_offsets [OF v rc [unfolded sr_def sc_def] that, folded sr_def sc_def] by (simp only: case_prod_conv)
  qed (use win(7,8) len in simp_all)
  then show ?thesis unfolding call by (force simp: holds_region_def plane_def)
qed

text \<open>Every block of the list is stored, the rest of the map is kept.\<close>

lemma put_blocks:
  assumes "\<And>row col. (row, col) \<in> set ps \<Longrightarrow> extract_block_bsq cfg data row col = Ok (e (row, col))"
  shows "\<exists>b'. try_fold (\<lambda>b (row, col). and_then (extract_block_bsq cfg data row col) (\<lambda>d. Ok (put_block row col d b))) b ps =
      Ok b' \<and> config b' = config b \<and> backing b' = backing b \<and> provided_blocks b' = provided_blocks b \<union> set ps \<and>
    (\<forall>p. blocks b' p = (if p \<in> set ps then Some (e p) else blocks b p))"
  using assms
proof (induction ps arbitrary: b)
  case (Cons p ps)
  obtain row col where p: "p = (row, col)" by (cases p)
  have IH: "\<exists>b'. try_fold (\<lambda>b (row, col). and_then (extract_block_bsq cfg data row col) (\<lambda>d. Ok (put_block row col d b)))
      (put_block row col (e p) b) ps = Ok b' \<and> config b' = config (put_block row col (e p) b) \<and>
      backing b' = backing (put_block row col (e p) b) \<and>
      provided_blocks b' = provided_blocks (put_block row col (e p) b) \<union> set ps \<and>
      (\<forall>q. blocks b' q = (if q \<in> set ps then Some (e q) else blocks (put_block row col (e p) b) q))"
    by (rule Cons.IH) (use Cons.prems in auto)
  have "extract_block_bsq cfg data row col = Ok (e p)" using Cons.prems [of row col] p by simp
  then show ?case using IH unfolding p by (auto simp: put_block_def)
qed simp

lemma set_full_image_holds:
  assumes v: "valid_config (config b)"
    and len: "length data = cfg_bands (config b) * cfg_rows (config b) * cfg_columns (config b) * config_bpp (config b)"
  shows "\<exists>b'. set_full_image data b = Ok b' \<and> config b' = config b \<and> backing b' = backing b \<and> complete b' \<and>
    (\<forall>band y x. band < cfg_bands (config b) \<longrightarrow> y < cfg_rows (config b) \<longrightarrow> x < cfg_columns (config b) \<longrightarrow>
      stored_image b' band y x = plane (config b) data band y x)"
proof -
  let ?c = "config b"
  let ?bh = "cfg_block_height ?c" and ?bw = "cfg_block_width ?c"
  let ?f = "\<lambda>b (row, col). and_then (extract_block_bsq ?c data row col) (\<lambda>d. Ok (put_block row col d b))"
  let ?ps = "List.product [0..<div_ceil (cfg_rows ?c) ?bh] [0..<div_ceil (cfg_columns ?c) ?bw]"
  have pos: "0 < ?bh" "0 < ?bw" using v by (simp_all add: valid_config_def)
  have ps: "(row, col) \<in> set ?ps \<longleftrightarrow> row * ?bh < cfg_rows ?c \<and> col * ?bw < cfg_columns ?c" for row col
    using pos by (simp add: less_div_ceil)
  define e where "e = (\<lambda>p. case extract_block_bsq ?c data (fst p) (snd p) of Ok d \<Rightarrow> d | _ \<Rightarrow> [])"
  have "extract_block_bsq ?c data row col = Ok (e (row, col)) \<and>
      holds_region (config_bpp ?c) (e (row, col)) (cfg_bands ?c) (edge_rows ?c row) (edge_cols ?c col)
        (plane ?c data) (row * ?bh) (col * ?bw)"
    if "(row, col) \<in> set ?ps" for row col
  proof -
    have "row * ?bh < cfg_rows ?c" "col * ?bw < cfg_columns ?c" using that unfolding ps by blast+
    from extract_block_holds [OF v this len] show ?thesis by (auto simp: e_def)
  qed
  then have e: "\<And>row col. (row, col) \<in> set ?ps \<Longrightarrow> extract_block_bsq ?c data row col = Ok (e (row, col))"
    "\<And>row col. (row, col) \<in> set ?ps \<Longrightarrow>
      holds_region (config_bpp ?c) (e (row, col)) (cfg_bands ?c) (edge_rows ?c row) (edge_cols ?c col)
        (plane ?c data) (row * ?bh) (col * ?bw)"
    by blast+
  obtain b' where b': "try_fold ?f b ?ps = Ok b'" "config b' = ?c" "backing b' = backing b"
    "\<And>p. blocks b' p = (if p \<in> set ?ps then Some (e p) else blocks b p)"
    using put_blocks [OF e(1)] by blast
  have call: "set_full_image data b = Ok b'"
  proof -
    have "wrap64 (cfg_rows ?c * cfg_columns ?c * cfg_bands ?c * pixel_bytes (cfg_pixel_type ?c)) = length data"
      using config_region_small [OF v order_refl order_refl] len by (simp add: config_bpp_def mult.commute mult.left_commute)
    then show ?thesis using pos b'(1)
      by (simp add: set_full_image_def Let_def num_blocks_horizontal_def num_blocks_vertical_def div_ceil_or_panic_def)
  qed
  have blk: "blocks b' (row, col) = Some (e (row, col))" if "row * ?bh < cfg_rows ?c" "col * ?bw < cfg_columns ?c" for row col
    using that ps [of row col] by (simp add: b'(4))
  have "complete b'"
    unfolding complete_def b'(2)
  proof (intro conjI allI impI v)
    fix row col
    assume rc: "row * ?bh < cfg_rows ?c" "col * ?bw < cfg_columns ?c"
    then have "length (e (row, col)) = cfg_bands ?c * edge_rows ?c row * edge_cols ?c col * config_bpp ?c"
      using e(2) ps unfolding holds_region_def by blast
    then show "\<exists>d. blocks b' (row, col) = Some d \<and>
        length d = cfg_bands ?c * edge_rows ?c row * edge_cols ?c col * config_bpp ?c"
      using blk [OF rc] by simp
  qed
  moreover have "stored_image b' band y x = plane ?c data band y x"
    if "band < cfg_bands ?c" "y < cfg_rows ?c" "x < cfg_columns ?c" for band y x
  proof -
    let ?row = "y div ?bh" and ?col = "x div ?bw"
    have y: "?row * ?bh + y mod ?bh = y" and x: "?col * ?bw + x mod ?bw = x" by simp_all
    have rc: "?row * ?bh < cfg_rows ?c" "?col * ?bw < cfg_columns ?c" using y x that by linarith+
    have m: "y mod ?bh < ?bh" "x mod ?bw < ?bw" using pos by simp_all
    have lt: "y mod ?bh < edge_rows ?c ?row" "x mod ?bw < edge_cols ?c ?col"
      unfolding edge_rows_def edge_cols_def using y x m that by linarith+
    have "stored_image b' band (?row * ?bh + y mod ?bh) (?col * ?bw + x mod ?bw) =
        sample (config_bpp ?c) (e (?row, ?col)) (bsq_index (edge_rows ?c ?row) (edge_cols ?c ?col) band (y mod ?bh) (x mod ?bw))"
      using stored_image_block [OF blk [OF rc], unfolded b'(2), OF lt] .
    also have "\<dots> = plane ?c data band (?row * ?bh + y mod ?bh) (?col * ?bw + x mod ?bw)"
      using e(2) [of ?row ?col] rc ps lt that(1) unfolding holds_region_def by blast
    finally show ?thesis unfolding y x .
  qed
  ultimately show ?thesis using call b'(2,3) by blast
qed

section \<open>Reading the whole image\<close>

lemma copy_block_rows_copies:
  fixes row col :: nat and cfg :: image_config
  defines "sr \<equiv> row * cfg_block_height cfg" and "sc \<equiv> col * cfg_block_width cfg"
  assumes v: "valid_config cfg" and rc: "sr < cfg_rows cfg" "sc < cfg_columns cfg"
    and len: "length d = cfg_bands cfg * edge_rows cfg row * edge_cols cfg col * config_bpp cfg"
      "length dst = cfg_bands cfg * cfg_rows cfg * cfg_columns cfg * config_bpp cfg"
  shows "\<exists>out. copy_block_rows cfg d row col dst = Ok out \<and> length out = length dst \<and>
    (\<forall>band<cfg_bands cfg. \<forall>y<cfg_rows cfg. \<forall>x<cfg_columns cfg.
      sample (config_bpp cfg) out (bsq_index (cfg_rows cfg) (cfg_columns cfg) band y x) =
      (if sr \<le> y \<and> y < sr + edge_rows cfg row \<and> sc \<le> x \<and> x < sc + edge_cols cfg col
       then sample (config_bpp cfg) d (bsq_index (edge_rows cfg row) (edge_cols cfg col) band (0 + (y - sr)) (0 + (x - sc)))
       else sample (config_bpp cfg) dst (bsq_index (cfg_rows cfg) (cfg_columns cfg) band y x)))"
proof -
  let ?bh = "edge_rows cfg row" and ?bw = "edge_cols cfg col" and ?H = "cfg_rows cfg" and ?W = "cfg_columns cfg"
  let ?n = "config_bpp cfg" and ?B = "cfg_bands cfg"
  let ?so = "\<lambda>band local_row. wrap64 (band * (?bh * ?bw) * ?n + local_row * ?bw * ?n)"
  let ?do = "\<lambda>band local_row. wrap64 (band * (?H * ?W) * ?n + (sr + local_row) * ?W * ?n + sc * ?n)"
  let ?f = "\<lambda>out (band, local_row).
    if add64 (?so band local_row) (wrap64 (?bw * ?n)) \<le> length d \<and> add64 (?do band local_row) (wrap64 (?bw * ?n)) \<le> length out
    then copy_block (wrap64 (?bw * ?n)) d out (?do band local_row, ?so band local_row) else Ok out"
  note win = block_window [OF v rc [unfolded sr_def sc_def], folded sr_def sc_def]
  have call: "copy_block_rows cfg d row col dst = try_fold ?f dst (List.product [0..<?B] [0..<?bh])"
    by (simp only: copy_block_rows_def Let_def win config_bpp_def [symmetric])
  have small: "?B * ?H * ?W * ?n < U64" "?B * ?bh * ?bw * ?n < U64"
    using win(7,8) by (auto intro!: config_region_small [OF v])
  show ?thesis unfolding call
  proof (rule region_copy)
    show "set (List.product [0..<?B] [0..<?bh]) = {..<?B} \<times> {..<?bh}" by auto
    show "?f out (band, local_row) = copy_block (?bw * ?n) d out
        (bsq_index ?H ?W band (sr + local_row) sc * ?n, bsq_index ?bh ?bw band (0 + local_row) 0 * ?n)"
      if b: "band < ?B" "local_row < ?bh" "length out = length dst" for band local_row and out :: "byte list"
    proof -
      note off = block_row_offsets [OF v rc [unfolded sr_def sc_def] b(1,2), folded sr_def sc_def]
      have "add64 (bsq_index ?bh ?bw band (0 + local_row) 0 * ?n) (?bw * ?n) \<le> length d"
        using off(4) small(2) len(1) by (simp only: add64_id le_less_trans)
      moreover have "add64 (bsq_index ?H ?W band (sr + local_row) sc * ?n) (?bw * ?n) \<le> length out"
        using off(5) small(1) len(2) b(3) by (simp only: add64_id le_less_trans)
      ultimately show ?thesis by (simp only: case_prod_conv off(1-3) if_True simp_thms)
    qed
  qed (use win(7,8) len in simp_all)
qed

lemma raw_image_holds:
  assumes c: "complete b"
  shows "\<exists>out. get_raw_bsq b = Ok out \<and>
    holds_region (config_bpp (config b)) out (cfg_bands (config b)) (cfg_rows (config b)) (cfg_columns (config b)) (stored_image b) 0 0"
proof -
  let ?c = "config b"
  let ?bh = "cfg_block_height ?c" and ?bw = "cfg_block_width ?c" and ?H = "cfg_rows ?c" and ?W = "cfg_columns ?c"
  let ?n = "config_bpp ?c" and ?B = "cfg_bands ?c"
  let ?ps = "List.product [0..<div_ceil ?H ?bh] [0..<div_ceil ?W ?bw]"
  let ?f = "\<lambda>out (row, col). case blocks b (row, col) of Some d \<Rightarrow> copy_block_rows ?c d row col out | None \<Rightarrow> Ok out"
  let ?z = "replicate (?B * ?H * ?W * ?n) (0 :: byte)"
  let ?P = "\<lambda>p y x. fst p * ?bh \<le> y \<and> y < fst p * ?bh + edge_rows ?c (fst p) \<and> snd p * ?bw \<le> x \<and> x < snd p * ?bw + edge_cols ?c (snd p)"
  have v: "valid_config ?c" using c by (simp add: complete_def)
  have pos: "0 < ?bh" "0 < ?bw" using v by (simp_all add: valid_config_def)
  have "wrap64 (?B * (?H * ?W) * ?n) = ?B * ?H * ?W * ?n"
    using config_region_small [OF v order_refl order_refl] by (simp add: mult.assoc)
  then have call: "get_raw_bsq b = try_fold ?f ?z ?ps"
    using pos
    by (simp add: get_raw_bsq_def Let_def num_blocks_horizontal_def num_blocks_vertical_def div_ceil_or_panic_def config_bpp_def)
  have "\<exists>out. try_fold ?f ?z ?ps = (Ok out :: (byte list, codec_error) outcome) \<and> length out = ?B * ?H * ?W * ?n \<and>
    (\<forall>band<?B. \<forall>y<?H. \<forall>x<?W. sample ?n out (bsq_index ?H ?W band y x) =
      (if \<exists>p\<in>set ?ps. ?P p y x then stored_image b band y x else sample ?n ?z (bsq_index ?H ?W band y x)))"
  proof (rule region_fold)
    fix p and dst :: "byte list"
    assume p: "p \<in> set ?ps" and len: "length dst = ?B * ?H * ?W * ?n"
    have rc: "fst p * ?bh < ?H" "snd p * ?bw < ?W" using p pos by (auto simp: less_div_ceil)
    obtain d where d: "blocks b (fst p, snd p) = Some d" "length d = ?B * edge_rows ?c (fst p) * edge_cols ?c (snd p) * ?n"
      using c rc unfolding complete_def by blast
    obtain out where out: "copy_block_rows ?c d (fst p) (snd p) dst = Ok out" "length out = length dst"
      "\<And>band y x. band < ?B \<Longrightarrow> y < ?H \<Longrightarrow> x < ?W \<Longrightarrow> sample ?n out (bsq_index ?H ?W band y x) =
        (if ?P p y x then sample ?n d (bsq_index (edge_rows ?c (fst p)) (edge_cols ?c (snd p)) band (0 + (y - fst p * ?bh)) (0 + (x - snd p * ?bw)))
         else sample ?n dst (bsq_index ?H ?W band y x))"
      using copy_block_rows_copies [OF v rc d(2) len] by blast
    have eq: "sample ?n d (bsq_index (edge_rows ?c (fst p)) (edge_cols ?c (snd p)) band (0 + (y - fst p * ?bh)) (0 + (x - snd p * ?bw))) =
        stored_image b band y x" if "?P p y x" for band y x
    proof -
      have "y - fst p * ?bh < edge_rows ?c (fst p)" "x - snd p * ?bw < edge_cols ?c (snd p)" using that by linarith+
      from stored_image_block [OF d(1) this, of band] that show ?thesis by simp
    qed
    have "?f dst p = Ok out" using d(1) out(1) by (simp add: case_prod_beta)
    moreover have "sample ?n out (bsq_index ?H ?W band y x) =
        (if ?P p y x then stored_image b band y x else sample ?n dst (bsq_index ?H ?W band y x))"
      if "band < ?B" "y < ?H" "x < ?W" for band y x
      unfolding out(3) [OF that] by (rule if_cong [OF refl]) (simp_all only: eq)
    ultimately show "\<exists>out. ?f dst p = (Ok out :: (byte list, codec_error) outcome) \<and> length out = ?B * ?H * ?W * ?n \<and>
      (\<forall>band<?B. \<forall>y<?H. \<forall>x<?W. sample ?n out (bsq_index ?H ?W band y x) =
        (if ?P p y x then stored_image b band y x else sample ?n dst (bsq_index ?H ?W band y x)))"
      using out(2) len by (intro exI [of _ out] conjI allI impI) simp_all
  qed simp
  then obtain out where out: "try_fold ?f ?z ?ps = Ok out" "length out = ?B * ?H * ?W * ?n"
    "\<And>band y x. band < ?B \<Longrightarrow> y < ?H \<Longrightarrow> x < ?W \<Longrightarrow> sample ?n out (bsq_index ?H ?W band y x) =
      (if \<exists>p\<in>set ?ps. ?P p y x then stored_image b band y x else sample ?n ?z (bsq_index ?H ?W band y x))" by blast
  have cover: "\<exists>p\<in>set ?ps. ?P p y x" if "y < ?H" "x < ?W" for y x
  proof (rule bexI [of _ "(y div ?bh, x div ?bw)"])
    note a = axis_block_covers [OF pos(1) that(1), of 0 ?H] and b = axis_block_covers [OF pos(2) that(2), of 0 ?W]
    show "?P (y div ?bh, x div ?bw) y x" using a b by (simp add: edge_rows_def edge_cols_def)
    have "y div ?bh * ?bh \<le> y" "x div ?bw * ?bw \<le> x" by simp_all
    then have "y div ?bh * ?bh < ?H" "x div ?bw * ?bw < ?W" using that by linarith+
    then show "(y div ?bh, x div ?bw) \<in> set ?ps" using pos by (simp add: less_div_ceil)
  qed
  have "holds_region ?n out ?B ?H ?W (stored_image b) 0 0"
    unfolding holds_region_def using out(2) by (intro conjI allI impI) (simp_all only: out(3) cover if_True add_0)
  then show ?thesis unfolding call out(1) by blast
qed

section \<open>A view over a source image\<close>

text \<open>The image a view shows: the source where it has pixels, zero beyond it.\<close>

definition padded_image ::
    "nat \<Rightarrow> nat \<Rightarrow> nat \<Rightarrow> (nat \<Rightarrow> nat \<Rightarrow> nat \<Rightarrow> byte list) \<Rightarrow> nat \<Rightarrow> nat \<Rightarrow> nat \<Rightarrow> byte list" where
  "padded_image n rows cols img band y x = (if y < rows \<and> x < cols then img band y x else replicate n 0)"

text \<open>A block grid over a source of \<open>n\<close> rows or columns has no short block inside a view of \<open>m\<close>.\<close>

definition edge_fits :: "nat \<Rightarrow> nat \<Rightarrow> nat \<Rightarrow> bool" where
  "edge_fits blk n m \<longleftrightarrow> n = m \<or> blk dvd n"

lemma edge_fits_block:
  assumes "edge_fits blk n m" "n \<le> m" "i * blk < n"
  shows "min blk (m - i * blk) = min blk (n - i * blk)"
proof (cases "n = m")
  case False
  then obtain j where j: "n = j * blk" using assms(1) by (auto simp: edge_fits_def dvd_def mult.commute)
  then have "Suc i * blk \<le> j * blk" using assms(3) j by (intro mult_le_mono1) (simp add: Suc_le_eq)
  then have "blk \<le> n - i * blk" "blk \<le> m - i * blk" using assms(2) j by simp_all
  then show ?thesis by simp
qed simp

text \<open>The views the code fills in correctly: the source has the bands and the pixel size of the
  configuration and fits in it, and where the block grids agree the source ends with a whole
  block or with the view.  (With equal grids a block of the source is passed through as it is,
  also a short one where the view is larger and expects a padded one.)\<close>

definition view_fits :: "image_config \<Rightarrow> image_provider \<Rightarrow> bool" where
  "view_fits cfg src \<longleftrightarrow> valid_config cfg \<and> cfg_bands cfg = num_bands src \<and> config_bpp cfg = provider_bpp src \<and>
    num_rows src \<le> cfg_rows cfg \<and> num_columns src \<le> cfg_columns cfg \<and>
    cfg_columns cfg + cfg_block_width cfg < 2 ^ 32 \<and> cfg_rows cfg + cfg_block_height cfg < 2 ^ 32 \<and>
    (num_pixels_per_block_horizontal src = cfg_block_width cfg \<and> num_pixels_per_block_vertical src = cfg_block_height cfg \<longrightarrow>
      edge_fits (cfg_block_height cfg) (num_rows src) (cfg_rows cfg) \<and>
      edge_fits (cfg_block_width cfg) (num_columns src) (cfg_columns cfg))"

lemma sample_zeros:
  assumes "i < m"
  shows "sample n (replicate (m * n) (0 :: byte)) i = replicate n 0"
proof -
  have "i * n + n \<le> m * n" using assms by (rule block_in)
  then show ?thesis by (simp add: sample_def min_def)
qed

lemma pad_buffer_zero [simp]: "pad_buffer (pad_zero_bytes ty) n = replicate n 0"
  and length_pad_zero [simp]: "length (pad_zero_bytes ty) = pixel_bytes ty"
  by (simp_all add: pad_buffer_def pad_zero_bytes_def list_ex_iff)

lemma zeros_hold:
  assumes "\<And>y x. y < h \<Longrightarrow> x < w \<Longrightarrow> \<not> (y0 + y < rows \<and> x0 + x < cols)"
  shows "holds_region n (replicate (bands * h * w * n) 0) bands h w (padded_image n rows cols img) y0 x0"
  unfolding holds_region_def
proof (intro conjI allI impI)
  fix band y x
  assume "band < bands" "y < h" "x < w"
  then show "sample n (replicate (bands * h * w * n) (0 :: byte)) (bsq_index h w band y x) =
      padded_image n rows cols img band (y0 + y) (x0 + x)"
    using assms [of y x] sample_zeros [OF bsq_index_less, of band bands y h x w n] by (auto simp: padded_image_def)
qed simp

text \<open>The tile of the source goes to the upper left corner of the zeroed block.\<close>

lemma pad_tile_holds:
  assumes v: "valid_config cfg" and fit: "th \<le> bh" "tw \<le> bw" "bh \<le> cfg_rows cfg" "bw \<le> cfg_columns cfg"
    and tile: "holds_region (config_bpp cfg) t (cfg_bands cfg) th tw img y0 x0"
    and edge: "\<And>y. y < bh \<Longrightarrow> y0 + y < rows \<longleftrightarrow> y < th" "\<And>x. x < bw \<Longrightarrow> x0 + x < cols \<longleftrightarrow> x < tw"
  shows "\<exists>d. pad_tile cfg t th tw bh bw = Ok d \<and>
    holds_region (config_bpp cfg) d (cfg_bands cfg) bh bw (padded_image (config_bpp cfg) rows cols img) y0 x0"
proof -
  let ?n = "config_bpp cfg" and ?B = "cfg_bands cfg"
  let ?f = "\<lambda>out (band, row). copy_block (wrap64 (tw * ?n)) t out
    (wrap64 (band * (bh * bw) * ?n + row * bw * ?n), wrap64 (band * (th * tw) * ?n + row * tw * ?n))"
  let ?z = "replicate (?B * bh * bw * ?n) (0 :: byte)"
  have len: "length t = ?B * th * tw * ?n" using tile by (simp add: holds_region_def)
  have small: "?B * bh * bw * ?n < U64" "?B * th * tw * ?n < U64"
    using fit by (auto intro!: config_region_small [OF v])
  have "wrap64 (bh * bw * ?B * ?n) = ?B * bh * bw * ?n" using small(1) by (simp add: mult.commute mult.left_commute)
  then have call: "pad_tile cfg t th tw bh bw = try_fold ?f ?z (List.product [0..<?B] [0..<th])"
    by (simp add: pad_tile_def Let_def config_bpp_def)
  have "\<exists>out. try_fold ?f ?z (List.product [0..<?B] [0..<th]) = (Ok out :: (byte list, codec_error) outcome) \<and>
    length out = length ?z \<and>
    (\<forall>band<?B. \<forall>y<bh. \<forall>x<bw. sample ?n out (bsq_index bh bw band y x) =
      (if 0 \<le> y \<and> y < 0 + th \<and> 0 \<le> x \<and> x < 0 + tw
       then sample ?n t (bsq_index th tw band (0 + (y - 0)) (0 + (x - 0)))
       else sample ?n ?z (bsq_index bh bw band y x)))"
  proof (rule region_copy)
    show "set (List.product [0..<?B] [0..<th]) = {..<?B} \<times> {..<th}" by auto
    fix band row and out :: "byte list"
    assume b: "band < ?B" "row < th"
    have off: "wrap64 (band * (h * w) * ?n + row * w * ?n) = bsq_index h w band (0 + row) 0 * ?n"
      if "?B * h * w * ?n < U64" "row < h" for h w
    proof -
      have "band * h + row < ?B * h" using block_in [OF b(1), of h] that(2) by linarith
      then have "bsq_index h w band row 0 * ?n \<le> ?B * h * w * ?n" by (simp add: bsq_index_def)
      then show ?thesis using that(1) by (simp add: bsq_index_def algebra_simps)
    qed
    have "1 * tw * ?n \<le> ?B * th * tw * ?n"
      using b by (intro mult_le_mono1) (simp add: Suc_le_eq)
    then have n: "wrap64 (tw * ?n) = tw * ?n" using small(2) by (intro wrap64_id) linarith
    show "?f out (band, row) = copy_block (tw * ?n) t out
        (bsq_index bh bw band (0 + row) 0 * ?n, bsq_index th tw band (0 + row) 0 * ?n)"
      using b(2) fit(1) by (simp only: case_prod_conv n off [OF small(2) b(2)] off [OF small(1)] less_le_trans)
  qed (use fit len in simp_all)
  then obtain out where out: "try_fold ?f ?z (List.product [0..<?B] [0..<th]) = (Ok out :: (byte list, codec_error) outcome)" "length out = ?B * bh * bw * ?n"
    "\<And>band y x. band < ?B \<Longrightarrow> y < bh \<Longrightarrow> x < bw \<Longrightarrow> sample ?n out (bsq_index bh bw band y x) =
      (if 0 \<le> y \<and> y < 0 + th \<and> 0 \<le> x \<and> x < 0 + tw
       then sample ?n t (bsq_index th tw band (0 + (y - 0)) (0 + (x - 0))) else sample ?n ?z (bsq_index bh bw band y x))"
    unfolding length_replicate by blast
  note fill = out(3) [unfolded add_0 diff_zero simp_thms le0]
  have eq: "sample ?n out (bsq_index bh bw band y x) = padded_image ?n rows cols img band (y0 + y) (x0 + x)"
    if b: "band < ?B" "y < bh" "x < bw" for band y x
  proof (cases "y < th \<and> x < tw")
    case True
    then have "sample ?n t (bsq_index th tw band y x) = img band (y0 + y) (x0 + x)"
      using tile b(1) by (simp add: holds_region_def)
    then show ?thesis unfolding fill [OF b] using True edge b by (simp add: padded_image_def)
  next
    case False
    then show ?thesis unfolding fill [OF b]
      using edge b sample_zeros [OF bsq_index_less [OF b], of ?n] by (auto simp: padded_image_def)
  qed
  then show ?thesis unfolding call out(1)
    by (intro exI [of _ out] conjI refl) (simp add: holds_region_def out(2) eq)
qed

context block_provider
begin

lemma source_block_holds:
  fixes s :: 's and cfg :: image_config
  defines "p \<equiv> prov s"
  assumes s: "ready s" and view: "view_fits cfg p"
    and rc: "row * cfg_block_height cfg < cfg_rows cfg" "col * cfg_block_width cfg < cfg_columns cfg"
  shows "\<exists>d. source_block cfg p row col 0 = Ok (d, cfg_bands cfg, edge_rows cfg row, edge_cols cfg col) \<and>
    holds_region (config_bpp cfg) d (cfg_bands cfg) (edge_rows cfg row) (edge_cols cfg col)
      (padded_image (config_bpp cfg) (num_rows p) (num_columns p) (img s)) (row * cfg_block_height cfg) (col * cfg_block_width cfg)"
proof -
  let ?bh = "cfg_block_height cfg" and ?bw = "cfg_block_width cfg" and ?n = "config_bpp cfg"
  let ?er = "edge_rows cfg row" and ?ec = "edge_cols cfg col" and ?H = "num_rows p" and ?W = "num_columns p"
  let ?a = "assembler_new p ?bw ?bh"
  have v: "valid_config cfg" and same: "cfg_bands cfg = num_bands p" "?n = provider_bpp p" "?H \<le> cfg_rows cfg" "?W \<le> cfg_columns cfg"
    and room: "?W + ?bw < 2 ^ 32" "?H + ?bh < 2 ^ 32" and pos: "0 < ?bw" "0 < ?bh"
    using view by (auto simp: view_fits_def valid_config_def)
  have img_ok: "holds_region ?n d B h w (padded_image ?n ?H ?W (img s)) y0 x0"
    if "holds_region ?n d B h w (img s) y0 x0" "y0 + h \<le> ?H" "x0 + w \<le> ?W" for d B h w y0 x0
    using that unfolding holds_region_def padded_image_def by auto
  show ?thesis
  proof (cases "(num_pixels_per_block_horizontal p = ?bw \<and> num_pixels_per_block_vertical p = ?bh) \<and> row * ?bh < ?H \<and> col * ?bw < ?W")
    case True
    then have dims: "?er = min ?bh (?H - row * ?bh)" "?ec = min ?bw (?W - col * ?bw)"
      using view unfolding edge_rows_def edge_cols_def by (auto simp: view_fits_def intro: edge_fits_block)
    have "block_grid_size p = (div_ceil ?H ?bh, div_ceil ?W ?bw)"
      using True pos by (simp add: block_grid_size_def)
    then have "source_block cfg p row col 0 = get_block p row col 0 None"
      using True pos by (simp add: source_block_def less_div_ceil)
    moreover obtain d where "get_block p row col 0 None = Ok (d, num_bands p, ?er, ?ec)"
      "holds_region ?n d (num_bands p) ?er ?ec (img s) (row * ?bh) (col * ?bw)"
      using block [OF s, of row col] True dims same(2) unfolding p_def [symmetric] by auto
    moreover have "row * ?bh + ?er \<le> ?H" "col * ?bw + ?ec \<le> ?W" using True dims by linarith+
    ultimately show ?thesis using img_ok same(1) by auto
  next
    case False
    have m: "mul32 col ?bw = col * ?bw" "mul32 row ?bh = row * ?bh" using block_window(1,2) [OF v rc] by simp_all
    have sel: "output_tile_width ?a = ?bw" "output_tile_height ?a = ?bh" "image_width ?a = ?W" "image_height ?a = ?H"
      by (simp_all add: assembler_new_def)
    have has: "assembler_has_block ?a row col \<longleftrightarrow> col * ?bw < ?W \<and> row * ?bh < ?H"
      by (simp add: assembler_has_block_def sel m)
    have call: "source_block cfg p row col 0 =
        (if \<not> assembler_has_block ?a row col
         then Ok (pad_buffer (pad_zero_bytes (cfg_pixel_type cfg)) (wrap64 (?er * ?ec * cfg_bands cfg * ?n)), cfg_bands cfg, ?er, ?ec)
         else and_then (get_output_tile ?a row col) (\<lambda>(tile_data, tile_bands, tile_rows, tile_cols).
           if tile_rows = ?er \<and> tile_cols = ?ec then Ok (tile_data, tile_bands, tile_rows, tile_cols)
           else and_then (pad_tile cfg tile_data tile_rows tile_cols ?er ?ec) (\<lambda>buf. Ok (buf, cfg_bands cfg, ?er, ?ec))))"
    proof -
      obtain gr gc where grid: "block_grid_size p = (gr, gc)" by (cases "block_grid_size p")
      have "(num_pixels_per_block_horizontal p = ?bw \<and> num_pixels_per_block_vertical p = ?bh \<and> row < gr \<and> col < gc) = False"
      proof (cases "num_pixels_per_block_horizontal p = ?bw \<and> num_pixels_per_block_vertical p = ?bh")
        case True
        then have "gr = div_ceil ?H ?bh" "gc = div_ceil ?W ?bw" using grid pos by (simp_all add: block_grid_size_def)
        then show ?thesis using True False pos by (simp add: less_div_ceil)
      qed blast
      then show ?thesis
        by (simp only: source_block_def Let_def grid block_dims_at_edge [OF v rc] case_prod_conv length_pad_zero if_False
            config_bpp_def [symmetric])
    qed
    show ?thesis
    proof (cases "assembler_has_block ?a row col")
      case False
      have "wrap64 (?er * ?ec * cfg_bands cfg * ?n) = cfg_bands cfg * ?er * ?ec * ?n"
        using config_region_small [OF v, of ?er ?ec] block_window(7,8) [OF v rc] by (simp add: mult.commute mult.left_commute)
      then have "source_block cfg p row col 0 = Ok (replicate (cfg_bands cfg * ?er * ?ec * ?n) 0, cfg_bands cfg, ?er, ?ec)"
        unfolding call using False by simp
      moreover have "holds_region ?n (replicate (cfg_bands cfg * ?er * ?ec * ?n) 0) (cfg_bands cfg) ?er ?ec
          (padded_image ?n ?H ?W (img s)) (row * ?bh) (col * ?bw)"
        by (rule zeros_hold) (use False has in auto)
      ultimately show ?thesis by blast
    next
      case True
      then have in_src: "row * ?bh < ?H" "col * ?bw < ?W" using has by simp_all
      let ?th = "min ?bh (?H - row * ?bh)" and ?tw = "min ?bw (?W - col * ?bw)"
      obtain t where t: "get_output_tile ?a row col = Ok (t, num_bands p, ?th, ?tw)"
        "holds_region ?n t (num_bands p) ?th ?tw (img s) (row * ?bh) (col * ?bw)"
        using output_tile_holds [OF s pos, folded p_def, OF room in_src] same(2) by auto
      have le: "?th \<le> ?er" "?tw \<le> ?ec" using same(3,4) by (auto simp: edge_rows_def edge_cols_def)
      show ?thesis
      proof (cases "?th = ?er \<and> ?tw = ?ec")
        case True
        then have "source_block cfg p row col 0 = Ok (t, cfg_bands cfg, ?er, ?ec)"
          unfolding call t(1) using \<open>assembler_has_block ?a row col\<close> same(1) by simp
        moreover have "row * ?bh + ?th \<le> ?H" "col * ?bw + ?tw \<le> ?W" using in_src by simp_all
        ultimately show ?thesis using img_ok [OF t(2)] True same(1) by auto
      next
        case False
        have "\<exists>d. pad_tile cfg t ?th ?tw ?er ?ec = Ok d \<and>
            holds_region ?n d (cfg_bands cfg) ?er ?ec (padded_image ?n ?H ?W (img s)) (row * ?bh) (col * ?bw)"
        proof (rule pad_tile_holds [OF v le])
          show "?er \<le> cfg_rows cfg" "?ec \<le> cfg_columns cfg" using block_window(7,8) [OF v rc] by linarith+
          show "holds_region ?n t (cfg_bands cfg) ?th ?tw (img s) (row * ?bh) (col * ?bw)" using t(2) same(1) by simp
          show "row * ?bh + y < ?H \<longleftrightarrow> y < ?th" if "y < ?er" for y
            using that edge_rows_le(1) [of cfg row] by auto
          show "col * ?bw + x < ?W \<longleftrightarrow> x < ?tw" if "x < ?ec" for x
            using that edge_cols_le(1) [of cfg col] by auto
        qed
        then obtain d where "pad_tile cfg t ?th ?tw ?er ?ec = Ok d"
          "holds_region ?n d (cfg_bands cfg) ?er ?ec (padded_image ?n ?H ?W (img s)) (row * ?bh) (col * ?bw)" by blast
        moreover have "source_block cfg p row col 0 = and_then (pad_tile cfg t ?th ?tw ?er ?ec) (\<lambda>buf. Ok (buf, cfg_bands cfg, ?er, ?ec))"
        proof -
          have "(\<not> assembler_has_block ?a row col) = False" "(?th = ?er \<and> ?tw = ?ec) = False"
            using \<open>assembler_has_block ?a row col\<close> False by blast+
          then show ?thesis unfolding call t(1) by (simp only: if_False and_then.simps case_prod_conv)
        qed
        ultimately show ?thesis by auto
      qed
    qed
  qed
qed

end

text \<open>A view as a provider: nothing set locally, everything read from the source.\<close>

definition view :: "image_config \<times> buffered_image \<Rightarrow> buffered_image" where
  "view v = with_source (buffered_provider (snd v)) (buffered_new (fst v))"

definition view_ready :: "image_config \<times> buffered_image \<Rightarrow> bool" where
  "view_ready v \<longleftrightarrow> complete (snd v) \<and> view_fits (fst v) (buffered_provider (snd v))"

definition view_image :: "image_config \<times> buffered_image \<Rightarrow> nat \<Rightarrow> nat \<Rightarrow> nat \<Rightarrow> byte list" where
  "view_image v = padded_image (config_bpp (fst v)) (cfg_rows (config (snd v))) (cfg_columns (config (snd v))) (stored_image (snd v))"

lemma view_block:
  assumes "view_ready v"
    and rc: "row * cfg_block_height (fst v) < cfg_rows (fst v)" "col * cfg_block_width (fst v) < cfg_columns (fst v)"
  shows "\<exists>d. buffered_get_block (view v) row col 0 None =
      Ok (d, cfg_bands (fst v), edge_rows (fst v) row, edge_cols (fst v) col) \<and>
    holds_region (config_bpp (fst v)) d (cfg_bands (fst v)) (edge_rows (fst v) row) (edge_cols (fst v) col)
      (view_image v) (row * cfg_block_height (fst v)) (col * cfg_block_width (fst v))"
proof -
  obtain cfg b where v: "v = (cfg, b)" by (cases v)
  have ready: "complete b" and fits: "view_fits cfg (buffered_provider b)" using assms(1) by (simp_all add: v view_ready_def)
  have valid: "valid_config cfg" using fits by (simp add: view_fits_def)
  obtain d where d: "source_block cfg (buffered_provider b) row col 0 = Ok (d, cfg_bands cfg, edge_rows cfg row, edge_cols cfg col)"
    "holds_region (config_bpp cfg) d (cfg_bands cfg) (edge_rows cfg row) (edge_cols cfg col)
      (padded_image (config_bpp cfg) (cfg_rows (config b)) (cfg_columns (config b)) (stored_image b))
      (row * cfg_block_height cfg) (col * cfg_block_width cfg)"
    using stored.source_block_holds [OF ready fits] rc unfolding v by auto
  then have "buffered_get_block (view v) row col 0 None = Ok (d, cfg_bands cfg, edge_rows cfg row, edge_cols cfg col)"
    using rc by (simp add: v view_def buffered_get_block_def with_source_def buffered_new_def Let_def in_grid_iff [OF valid])
  then show ?thesis using d(2) by (simp add: v view_image_def)
qed

text \<open>Where the grids agree the view has the source's block as it is: at the source's edge it is
  shorter than the block the view's own grid has there.\<close>

lemma equal_grids_pass_through:
  assumes "complete b" "valid_config cfg"
    and grid: "cfg_block_width cfg = cfg_block_width (config b)" "cfg_block_height cfg = cfg_block_height (config b)"
    and rc: "row * cfg_block_height cfg < cfg_rows cfg" "col * cfg_block_width cfg < cfg_columns cfg"
    and src: "row * cfg_block_height cfg < cfg_rows (config b)" "col * cfg_block_width cfg < cfg_columns (config b)"
  shows "\<exists>d. buffered_get_block (view (cfg, b)) row col 0 None =
    Ok (d, cfg_bands (config b), edge_rows (config b) row, edge_cols (config b) col)"
proof -
  have "0 < cfg_block_width cfg" "0 < cfg_block_height cfg" using assms(2) by (simp_all add: valid_config_def)
  then have "source_block cfg (buffered_provider b) row col 0 = buffered_get_block b row col 0 None"
    using grid src by (simp add: source_block_def block_grid_size_def less_div_ceil)
  moreover have "\<exists>d. buffered_get_block b row col 0 None = Ok (d, cfg_bands (config b), edge_rows (config b) row, edge_cols (config b) col)"
    using stored_block_get [of b row col] assms(1) src unfolding grid complete_def by blast
  ultimately show ?thesis
    using rc by (auto simp: view_def buffered_get_block_def with_source_def buffered_new_def Let_def in_grid_iff [OF assms(2)])
qed

interpretation viewed: block_provider "\<lambda>v. buffered_provider (view v)" view_ready view_image
proof (unfold_locales, goal_cases)
  case (6 v row col)
  have "config (view v) = fst v" by (simp add: view_def with_source_def buffered_new_def)
  moreover have "div_ceil (cfg_bits (fst v)) 8 = config_bpp (fst v)"
    using 6(1) by (simp add: view_ready_def view_fits_def valid_config_def)
  ultimately show ?case
    using view_block [OF 6(1), of row col] 6(2,3) by (simp add: edge_rows_def edge_cols_def)
qed (auto simp: view_def with_source_def buffered_new_def view_ready_def view_fits_def valid_config_def)

section \<open>Properties\<close>

lemma holds_region_cong:
  assumes "\<And>band y x. band < bands \<Longrightarrow> y < h \<Longrightarrow> x < w \<Longrightarrow> img band (y0 + y) (x0 + x) = img' band (y0 + y) (x0 + x)"
  shows "holds_region n d bands h w img y0 x0 \<longleftrightarrow> holds_region n d bands h w img' y0 x0"
  using assms unfolding holds_region_def by auto

lemma plane_determines:
  assumes "holds_region (config_bpp cfg) out (cfg_bands cfg) (cfg_rows cfg) (cfg_columns cfg) (plane cfg data) 0 0"
    and "length data = cfg_bands cfg * cfg_rows cfg * cfg_columns cfg * config_bpp cfg"
  shows "out = data"
proof (rule list_eq_samples)
  show "length data = config_bpp cfg * (cfg_bands cfg * cfg_rows cfg * cfg_columns cfg)"
    "length out = config_bpp cfg * (cfg_bands cfg * cfg_rows cfg * cfg_columns cfg)"
    using assms unfolding holds_region_def by simp_all
  fix q
  assume "q < cfg_bands cfg * cfg_rows cfg * cfg_columns cfg"
  then obtain band y x where q: "band < cfg_bands cfg" "y < cfg_rows cfg" "x < cfg_columns cfg"
    "q = bsq_index (cfg_rows cfg) (cfg_columns cfg) band y x" by (rule bsq_index_cases)
  then have "sample (config_bpp cfg) out q = plane cfg data band (0 + y) (0 + x)"
    using assms(1) unfolding holds_region_def by blast
  then show "sample (config_bpp cfg) out q = sample (config_bpp cfg) data q" by (simp add: plane_def q(4))
qed

text \<open>C18: an image set as a whole is read back as it is.  For every configuration whose block
  sizes are positive, in range and whose nominal pixel size is the pixel type's, and every
  buffer of the image's size, \<open>set_full_image\<close> splits the buffer into the blocks of the grid,
  the smaller ones at the edges included, without an error or a panic, and the raw asset put
  together from the blocks is the buffer, byte for byte.\<close>

theorem full_image_roundtrip:
  assumes "valid_config (config b)"
    and "length data = cfg_bands (config b) * cfg_rows (config b) * cfg_columns (config b) * config_bpp (config b)"
  shows "\<exists>b'. set_full_image data b = Ok b' \<and> get_raw_bsq b' = Ok data"
proof -
  obtain b' where b': "set_full_image data b = Ok b'" "config b' = config b" "complete b'"
    "\<And>band y x. band < cfg_bands (config b) \<Longrightarrow> y < cfg_rows (config b) \<Longrightarrow> x < cfg_columns (config b) \<Longrightarrow>
      stored_image b' band y x = plane (config b) data band y x"
    using set_full_image_holds [OF assms] by blast
  obtain out where out: "get_raw_bsq b' = Ok out"
    "holds_region (config_bpp (config b)) out (cfg_bands (config b)) (cfg_rows (config b)) (cfg_columns (config b)) (stored_image b') 0 0"
    using raw_image_holds [OF b'(3)] b'(2) by auto
  have "out = data" using out(2) b'(4) by (intro plane_determines [OF _ assms(2)]) (simp add: holds_region_def)
  then show ?thesis using b'(1) out(1) by blast
qed

lemma full_image_roundtrip_witness:
  "\<exists>b'. set_full_image [1, 2, 3, 4, 5, 6, 7, 8, 9, 10, 11, 12] (buffered_new (with_block_size 2 1 (with_bands 2 (config_new 3 2)))) = Ok b' \<and>
    get_raw_bsq b' = Ok [1, 2, 3, 4, 5, 6, 7, 8, 9, 10, 11, 12]"
  by (rule full_image_roundtrip)
    (simp_all add: buffered_new_def with_block_size_def with_bands_def config_new_def default_config_def valid_config_def
      config_bpp_def U64_def div_ceil_def)

text \<open>C19: re-tiling keeps the pixels.  A tile assembler of any output tile size over an image set
  as a whole returns, for every tile of its grid, the window of the image at the tile's place,
  cut at the right and lower edges, with every pixel of every band where the image has it:
  whether one source block covers the tile, several contribute to it or the grids agree and the
  block is passed through.  No row copy leaves its buffer.\<close>

theorem retiled_image_holds:
  assumes "valid_config (config b)"
    and "length data = cfg_bands (config b) * cfg_rows (config b) * cfg_columns (config b) * config_bpp (config b)"
    and "0 < w" "0 < h" "cfg_columns (config b) + w < 2 ^ 32" "cfg_rows (config b) + h < 2 ^ 32"
    and "row * h < cfg_rows (config b)" "col * w < cfg_columns (config b)"
  shows "\<exists>b' d. set_full_image data b = Ok b' \<and>
    get_output_tile (assembler_new (buffered_provider b') w h) row col =
      Ok (d, cfg_bands (config b), min h (cfg_rows (config b) - row * h), min w (cfg_columns (config b) - col * w)) \<and>
    holds_region (config_bpp (config b)) d (cfg_bands (config b)) (min h (cfg_rows (config b) - row * h))
      (min w (cfg_columns (config b) - col * w)) (plane (config b) data) (row * h) (col * w)"
proof -
  let ?th = "min h (cfg_rows (config b) - row * h)" and ?tw = "min w (cfg_columns (config b) - col * w)"
  obtain b' where b': "set_full_image data b = Ok b'" "config b' = config b" "complete b'"
    "\<And>band y x. band < cfg_bands (config b) \<Longrightarrow> y < cfg_rows (config b) \<Longrightarrow> x < cfg_columns (config b) \<Longrightarrow>
      stored_image b' band y x = plane (config b) data band y x"
    using set_full_image_holds [OF assms(1,2)] by blast
  have bpp: "provider_bpp (buffered_provider b') = config_bpp (config b)"
    using assms(1) b'(2) by (simp add: valid_config_def)
  obtain d where d: "get_output_tile (assembler_new (buffered_provider b') w h) row col = Ok (d, cfg_bands (config b), ?th, ?tw)"
    "holds_region (config_bpp (config b)) d (cfg_bands (config b)) ?th ?tw (stored_image b') (row * h) (col * w)"
    using stored.output_tile_holds [OF b'(3), of w h row col] assms(3-8) bpp b'(2) by auto
  have "holds_region (config_bpp (config b)) d (cfg_bands (config b)) ?th ?tw (plane (config b) data) (row * h) (col * w)"
    using d(2) b'(4) by (subst (asm) holds_region_cong [where img' = "plane (config b) data"]) auto
  then show ?thesis using b'(1) d(1) by blast
qed

lemma retiled_image_holds_witness:
  "\<exists>b' d. set_full_image [1, 2, 3, 4, 5, 6] (buffered_new (with_block_size 2 2 (config_new 3 2))) = Ok b' \<and>
    get_output_tile (assembler_new (buffered_provider b') 3 1) 1 0 = Ok (d, 1, 1, 3) \<and>
    holds_region 1 d 1 1 3 (plane (with_block_size 2 2 (config_new 3 2)) [1, 2, 3, 4, 5, 6]) 1 0"
  using retiled_image_holds [of "buffered_new (with_block_size 2 2 (config_new 3 2))" "[1, 2, 3, 4, 5, 6]" 3 1 1 0]
  by (simp add: buffered_new_def with_block_size_def config_new_def default_config_def valid_config_def
      config_bpp_def U64_def div_ceil_def)

text \<open>C20: a view over an image shows it, padded.  A buffered image with no block of its own and
  another image as its source, of at least the source's size and on another block grid, or on
  the same grid where the source ends with whole blocks or with the view, serves, re-tiled once
  more by an assembler of any tile size, the pixels of the source where the source has them and
  zero bytes beyond its last row and column: a block wholly outside the source, one that
  straddles its edge and one inside it alike.  The set-up, the delegation, the assembly, the
  padding and the second assembly compose without an error.\<close>

theorem padded_view_holds:
  assumes "valid_config (config b)"
    and "length data = cfg_bands (config b) * cfg_rows (config b) * cfg_columns (config b) * config_bpp (config b)"
    and "view_fits cfg (buffered_provider b)"
    and "0 < w" "0 < h" "cfg_columns cfg + w < 2 ^ 32" "cfg_rows cfg + h < 2 ^ 32"
    and "row * h < cfg_rows cfg" "col * w < cfg_columns cfg"
  shows "\<exists>b' d. set_full_image data b = Ok b' \<and>
    get_output_tile (assembler_new (buffered_provider (view (cfg, b'))) w h) row col =
      Ok (d, cfg_bands cfg, min h (cfg_rows cfg - row * h), min w (cfg_columns cfg - col * w)) \<and>
    holds_region (config_bpp cfg) d (cfg_bands cfg) (min h (cfg_rows cfg - row * h)) (min w (cfg_columns cfg - col * w))
      (padded_image (config_bpp cfg) (cfg_rows (config b)) (cfg_columns (config b)) (plane (config b) data)) (row * h) (col * w)"
proof -
  let ?th = "min h (cfg_rows cfg - row * h)" and ?tw = "min w (cfg_columns cfg - col * w)"
  obtain b' where b': "set_full_image data b = Ok b'" "config b' = config b" "complete b'"
    "\<And>band y x. band < cfg_bands (config b) \<Longrightarrow> y < cfg_rows (config b) \<Longrightarrow> x < cfg_columns (config b) \<Longrightarrow>
      stored_image b' band y x = plane (config b) data band y x"
    using set_full_image_holds [OF assms(1,2)] by blast
  have fits: "view_fits cfg (buffered_provider b')" using assms(3) b'(2) by (simp add: view_fits_def)
  then have ready: "view_ready (cfg, b')" using b'(3) by (simp add: view_ready_def)
  have cfg: "config (view (cfg, b')) = cfg" by (simp add: view_def with_source_def buffered_new_def)
  have bpp: "div_ceil (cfg_bits cfg) 8 = config_bpp cfg" using fits by (simp add: view_fits_def valid_config_def)
  have bands: "cfg_bands cfg = cfg_bands (config b)" using assms(3) by (simp add: view_fits_def)
  obtain d where d: "get_output_tile (assembler_new (buffered_provider (view (cfg, b'))) w h) row col = Ok (d, cfg_bands cfg, ?th, ?tw)"
    "holds_region (config_bpp cfg) d (cfg_bands cfg) ?th ?tw (view_image (cfg, b')) (row * h) (col * w)"
    using viewed.output_tile_holds [OF ready, of w h row col] assms(4-9) by (auto simp: cfg bpp)
  have "view_image (cfg, b') band y x =
      padded_image (config_bpp cfg) (cfg_rows (config b)) (cfg_columns (config b)) (plane (config b) data) band y x"
    if "band < cfg_bands cfg" for band y x
    using that b'(2,4) bands by (simp add: view_image_def padded_image_def)
  then have "holds_region (config_bpp cfg) d (cfg_bands cfg) ?th ?tw
      (padded_image (config_bpp cfg) (cfg_rows (config b)) (cfg_columns (config b)) (plane (config b) data)) (row * h) (col * w)"
    using d(2) unfolding holds_region_def by simp
  then show ?thesis using b'(1) d(1) by blast
qed

lemma padded_view_holds_witness:
  "\<exists>b' d. set_full_image [1, 2, 3, 4, 5, 6] (buffered_new (with_block_size 2 2 (config_new 3 2))) = Ok b' \<and>
    get_output_tile (assembler_new (buffered_provider (view (with_block_size 3 3 (config_new 4 4), b'))) 4 1) 1 0 = Ok (d, 1, 1, 4) \<and>
    holds_region 1 d 1 1 4 (padded_image 1 2 3 (plane (with_block_size 2 2 (config_new 3 2)) [1, 2, 3, 4, 5, 6])) 1 0"
  using padded_view_holds [of "buffered_new (with_block_size 2 2 (config_new 3 2))" "[1, 2, 3, 4, 5, 6]"
      "with_block_size 3 3 (config_new 4 4)" 4 1 1 0]
  by (simp add: buffered_new_def with_block_size_def config_new_def default_config_def valid_config_def
      config_bpp_def U64_def div_ceil_def view_fits_def)

end
