(* ===== verification/Structure_Defs.thy ===== *)
theory Structure_Defs
  imports Expr_Eval Field_Value Int_Codec "HOL-Library.AList"
begin

text \<open>
  Structure definitions: the types of \<open>src/src/parser/types.rs\<close>, the check of type references
  of \<open>src/src/parser/definition.rs\<close>, and the reading of single field values of
  \<open>src/src/parser/accessor/read.rs\<close> and \<open>context.rs\<close>.  Hash maps of a definition are
  association lists with distinct keys.  Titles, documentation and enumerations are read by
  no operation of the model and left out.
\<close>

section \<open>Definitions of structures\<close>

datatype field_type = FString | FBytes | FUnsigned nat | FSigned nat | FFloat nat | FTypeRef string

datatype 'f size_spec = SizeFixed nat | SizeExpr "'f expression" | SizeEos

datatype 'f repeat_spec = RepeatCount nat | RepeatExpr "'f expression" | RepeatUntil "'f expression" | RepeatEos

record 'f field_definition =
  field_id :: string
  field_type :: field_type
  field_size :: "'f size_spec"
  field_encoding :: "encoding option"
  field_pad :: "byte option"
  field_condition :: "'f expression option"
  field_repeat :: "'f repeat_spec option"
  field_type_args :: "'f expression list"

datatype 'f structure_definition = Structure
  (def_id: string)
  (def_endian: endian)
  (def_fields: "'f field_definition list")
  (def_types: "(string \<times> 'f structure_definition) list")
  (def_consts: "(string \<times> 'f node) list")
  (def_params: "string list")

definition field_new :: "string \<Rightarrow> field_type \<Rightarrow> 'f field_definition" where
  "field_new name ty =
    \<lparr>field_id = name, field_type = ty, field_size = SizeFixed 0, field_encoding = None, field_pad = None,
     field_condition = None, field_repeat = None, field_type_args = []\<rparr>"

definition structure_new :: "string \<Rightarrow> 'f structure_definition" where
  "structure_new name = Structure name Big [] [] [] []"

fun with_field :: "'f field_definition \<Rightarrow> 'f structure_definition \<Rightarrow> 'f structure_definition" where
  "with_field f (Structure i e fs ts cs ps) = Structure i e (fs @ [f]) ts cs ps"

fun with_type :: "string \<Rightarrow> 'f structure_definition \<Rightarrow> 'f structure_definition \<Rightarrow> 'f structure_definition" where
  "with_type name t (Structure i e fs ts cs ps) = Structure i e fs (AList.update name t ts) cs ps"

fun with_types :: "(string \<times> 'f structure_definition) list \<Rightarrow> 'f structure_definition \<Rightarrow> 'f structure_definition" where
  "with_types ts (Structure i e fs _ cs ps) = Structure i e fs ts cs ps"

definition find_field :: "'f structure_definition \<Rightarrow> string \<Rightarrow> ('f field_definition, access_error) outcome" where
  "find_field d name = ok_or (UnknownField name) (find (\<lambda>f. field_id f = name) (def_fields d))"

section \<open>The check of type references\<close>

datatype load_error = UndefinedType string | InvalidType

text \<open>The type of a reference is looked up in the types of its structure, then in those of the
  enclosing ones, from the inside out.\<close>

fun resolve_type ::
    "(string \<times> 'f structure_definition) list list \<Rightarrow> string \<Rightarrow> 'f structure_definition option" where
  "resolve_type [] name = None"
| "resolve_type (ts # scopes) name =
    (case map_of ts name of Some d \<Rightarrow> Some d | None \<Rightarrow> resolve_type scopes name)"

definition check_field_ref ::
    "(string \<times> 'f structure_definition) list list \<Rightarrow> 'f field_definition \<Rightarrow> (unit, load_error) outcome" where
  "check_field_ref scopes f =
    (case field_type f of
      FTypeRef name \<Rightarrow>
        (case resolve_type scopes name of
          None \<Rightarrow> Err (UndefinedType name)
        | Some d \<Rightarrow> if length (field_type_args f) \<noteq> length (def_params d) then Err InvalidType else Ok ())
    | _ \<Rightarrow> Ok ())"

fun validate_type_refs ::
    "(string \<times> 'f structure_definition) list list \<Rightarrow> 'f structure_definition \<Rightarrow> (unit, load_error) outcome"
and validate_types ::
    "(string \<times> 'f structure_definition) list list \<Rightarrow> (string \<times> 'f structure_definition) list \<Rightarrow> (unit, load_error) outcome" where
  "validate_type_refs ancestors (Structure i e fs ts cs ps) =
    and_then (try_map (check_field_ref (ts # ancestors)) fs) (\<lambda>_. validate_types (ts # ancestors) ts)"
| "validate_types scopes [] = Ok ()"
| "validate_types scopes ((name, d) # rest) =
    and_then (validate_type_refs scopes d) (\<lambda>_. validate_types scopes rest)"

definition validate_type_references :: "'f structure_definition \<Rightarrow> (unit, load_error) outcome" where
  "validate_type_references d = validate_type_refs [] d"

section \<open>Reading a field\<close>

text \<open>The parameters of a reader: the operations on \<open>f64\<close>, its value of a bit pattern of 4 or 8
  bytes, zero, the nesting of structures the call stack has room for, and the elements of a
  repeated field memory has room for.\<close>

record 'f reader =
  std :: "'f std_ops"
  f_of_bits :: "nat \<Rightarrow> nat \<Rightarrow> 'f"
  f_zero :: 'f
  depth :: nat
  room :: nat

definition endian_val :: "endian \<Rightarrow> byte list \<Rightarrow> nat" where
  "endian_val e bs = (case e of Big \<Rightarrow> be_val bs | Little \<Rightarrow> le_val bs)"

definition read_float :: "'f reader \<Rightarrow> byte list \<Rightarrow> nat \<Rightarrow> endian \<Rightarrow> ('f, access_error) outcome" where
  "read_float env bs n e =
    (if n = 4 \<or> n = 8
     then if n \<le> length bs then Ok (f_of_bits env n (endian_val e (take n bs))) else Panic
     else Err (UnknownField ''unsupported float size''))"

definition read_field_value_from_bytes ::
    "'f reader \<Rightarrow> 'f field_definition \<Rightarrow> byte list \<Rightarrow> endian \<Rightarrow> ('f val, access_error) outcome" where
  "read_field_value_from_bytes env f bs e =
    (case field_type f of
      FString \<Rightarrow> map_ok val.VString (ok_or (EncodingError (field_id f) ''UTF-8'') (utf8_decode bs))
    | FBytes \<Rightarrow> Ok (val.VBytes bs)
    | FUnsigned n \<Rightarrow> map_ok (\<lambda>w. VUnsigned (unat w)) (read_unsigned bs n e)
    | FSigned n \<Rightarrow> map_ok (\<lambda>w. VSigned (sint w)) (read_signed bs n e)
    | FFloat n \<Rightarrow>
        if length bs < n then Err (UnexpectedEof (field_id f) n (length bs))
        else map_ok val.VFloat (read_float env bs n e)
    | FTypeRef name \<Rightarrow> Ok (VStruct bs name))"

text \<open>The reads that feed the context of size expressions: big-endian, zero where the bytes are
  too few or the width is none of 1, 2, 3, 4 and 8, empty text for invalid UTF-8.\<close>

definition simple_unsigned :: "nat \<Rightarrow> byte list \<Rightarrow> nat" where
  "simple_unsigned n bs = (if n \<in> {1, 2, 3, 4, 8} \<and> n \<le> length bs then be_val (take n bs) else 0)"

definition simple_signed :: "nat \<Rightarrow> byte list \<Rightarrow> int" where
  "simple_signed n bs =
    (if n \<in> {1, 2, 3, 4, 8} \<and> n \<le> length bs
     then signed_take_bit (8 * n - 1) (int (be_val (take n bs))) else 0)"

definition read_simple_text :: "byte list \<Rightarrow> ustring" where
  "read_simple_text bs = (case utf8_decode bs of Some s \<Rightarrow> s | None \<Rightarrow> [])"

definition read_simple_value ::
    "'f reader \<Rightarrow> 'f field_definition \<Rightarrow> byte list \<Rightarrow> ('f val, access_error) outcome" where
  "read_simple_value env f bs =
    (case field_type f of
      FString \<Rightarrow> Ok (val.VString (read_simple_text bs))
    | FBytes \<Rightarrow> Ok (val.VBytes bs)
    | FUnsigned n \<Rightarrow> Ok (VUnsigned (simple_unsigned n bs))
    | FSigned n \<Rightarrow> Ok (VSigned (simple_signed n bs))
    | FFloat n \<Rightarrow>
        if n \<le> length bs
        then (case read_float env bs n Big of Ok v \<Rightarrow> Ok (val.VFloat v) | Err e \<Rightarrow> Ok (val.VFloat (f_zero env)) | Panic \<Rightarrow> Panic)
        else Ok (val.VFloat (f_zero env))
    | FTypeRef name \<Rightarrow> Err (UnknownField (field_id f)))"

definition read_simple_nested_value ::
    "'f reader \<Rightarrow> 'f field_definition \<Rightarrow> byte list \<Rightarrow> ('f val, access_error) outcome" where
  "read_simple_nested_value env f bs =
    (case field_type f of
      FString \<Rightarrow> Ok (val.VString (read_simple_text bs))
    | FBytes \<Rightarrow> Ok (val.VBytes bs)
    | FUnsigned n \<Rightarrow> Ok (VUnsigned (simple_unsigned n bs))
    | FSigned n \<Rightarrow> Ok (VSigned (simple_signed n bs))
    | FFloat n \<Rightarrow>
        if length bs < n then Err (UnknownField (field_id f)) else map_ok val.VFloat (read_float env bs n Big)
    | FTypeRef name \<Rightarrow> Err (UnknownField (field_id f)))"

section \<open>Values in the context\<close>

text \<open>The text of a value as text of the expression language, whose characters are the code
  points below 256; text beyond them is outside the model.\<close>

definition context_text :: "ustring \<Rightarrow> string" where
  "context_text s = map char_of s"

definition scalar_of_value :: "'f val \<Rightarrow> 'f eval_result option" where
  "scalar_of_value v =
    (case v of
      val.VString s \<Rightarrow> Some (eval_result.VString (context_text s))
    | val.VBytes bs \<Rightarrow> Some (eval_result.VBytes bs)
    | VUnsigned n \<Rightarrow> Some (VInteger (of_nat n))
    | VSigned n \<Rightarrow> Some (VInteger (of_int n))
    | val.VFloat f \<Rightarrow> Some (eval_result.VFloat f)
    | _ \<Rightarrow> None)"

definition add_value_to_context :: "string \<Rightarrow> 'f val \<Rightarrow> 'f eval_context \<Rightarrow> 'f eval_context" where
  "add_value_to_context name v c =
    (case scalar_of_value v of Some r \<Rightarrow> insert_scalar name r c | None \<Rightarrow> c)"

text \<open>An error that the code ignores; panics stay.\<close>

fun caught :: "('a, 'e) outcome \<Rightarrow> ('a option, 'd) outcome" where
  "caught (Ok a) = Ok (Some a)"
| "caught (Err e) = Ok None"
| "caught Panic = Panic"

end
