(* ===== verification/Structure_Sizes.thy ===== *)
theory Structure_Sizes
  imports Structure_Defs
begin

text \<open>
  How many bytes a field takes: the sizes of \<open>src/src/parser/accessor/context.rs\<close>
  (\<open>get_simple_field_size\<close>, \<open>get_nested_type_size\<close>) and the more lenient ones of
  \<open>src/src/parser/accessor/mod.rs\<close> (\<open>get_type_size\<close>), which evaluate size, count and
  condition expressions over the fields read so far.  The size of a type is the sum over its
  fields, which may name types again: \<open>depth\<close> bounds the nesting the stack has room for, and a
  deeper call is a crash.  For types that do not contain themselves the bound is irrelevant.
\<close>

section \<open>Definitions\<close>

type_synonym sized = "(nat, access_error) outcome"

text \<open>The size of a type: its name, arguments, the context and the offset of the value.\<close>

type_synonym 'f type_sizer = "string \<Rightarrow> 'f expression list \<Rightarrow> 'f eval_context \<Rightarrow> nat \<Rightarrow> sized"

definition eval_count :: "'f reader \<Rightarrow> string \<Rightarrow> 'f expression \<Rightarrow> 'f eval_context \<Rightarrow> sized" where
  "eval_count env name e c =
    and_then (map_err_to (\<lambda>_. ExpressionFailed name) (evaluate (std env) e c)) (\<lambda>v. case v of
      VInteger n \<Rightarrow> if 0 \<le> sint n then Ok (nat (sint n)) else Err (ExpressionFailed name)
    | _ \<Rightarrow> Err (ExpressionFailed name))"

definition bind_params ::
    "'f reader \<Rightarrow> string \<Rightarrow> 'f structure_definition \<Rightarrow> 'f expression list \<Rightarrow> 'f eval_context \<Rightarrow> ('f eval_context, access_error) outcome" where
  "bind_params env name d args c =
    map_ok (\<lambda>bs. foldl (\<lambda>c (p, v). insert_scalar p v c) c bs)
      (map_err_to (\<lambda>_. ExpressionFailed name) (bind_type_params (std env) (def_params d) args c))"

definition simple_field_size ::
    "'f reader \<Rightarrow> 'f type_sizer \<Rightarrow> byte list \<Rightarrow> 'f field_definition \<Rightarrow> 'f eval_context \<Rightarrow> nat \<Rightarrow> sized" where
  "simple_field_size env type_size bs f c base_offset =
    (case field_size f of
      SizeFixed n \<Rightarrow>
        if n = 0 then
          (case field_type f of
            FUnsigned w \<Rightarrow> Ok w
          | FSigned w \<Rightarrow> Ok w
          | FTypeRef name \<Rightarrow> type_size name (field_type_args f) c base_offset
          | _ \<Rightarrow> Ok 0)
        else Ok n
    | SizeExpr e \<Rightarrow> eval_count env (field_id f) e c
    | SizeEos \<Rightarrow> Ok (length bs - base_offset))"

text \<open>The elements of a repeated type one after the other: their sizes may differ.\<close>

definition elements_size :: "'f type_sizer \<Rightarrow> string \<Rightarrow> 'f expression list \<Rightarrow> 'f eval_context \<Rightarrow> nat \<Rightarrow> nat \<Rightarrow> sized" where
  "elements_size type_size name args c n base_offset =
    map_ok fst (try_fold (\<lambda>(total_size, current_offset) _.
        map_ok (\<lambda>sz. (add64 total_size sz, add64 current_offset sz)) (type_size name args c current_offset))
      (0, base_offset) [0..<n])"

definition total_field_size ::
    "'f reader \<Rightarrow> 'f type_sizer \<Rightarrow> 'f field_definition \<Rightarrow> 'f eval_context \<Rightarrow> nat \<Rightarrow> nat \<Rightarrow> sized" where
  "total_field_size env type_size f c element_size base_offset =
    (case field_repeat f of
      None \<Rightarrow> Ok element_size
    | Some (RepeatCount n) \<Rightarrow> Ok (mul64 element_size n)
    | Some (RepeatExpr e) \<Rightarrow>
        and_then (eval_count env (field_id f) e c) (\<lambda>n.
          case field_type f of
            FTypeRef name \<Rightarrow> elements_size type_size name (field_type_args f) c n base_offset
          | _ \<Rightarrow> Ok (mul64 element_size n))
    | Some (RepeatUntil _) \<Rightarrow> Ok element_size
    | Some RepeatEos \<Rightarrow> Ok element_size)"

definition simple_total_field_size ::
    "'f reader \<Rightarrow> 'f type_sizer \<Rightarrow> byte list \<Rightarrow> 'f field_definition \<Rightarrow> 'f eval_context \<Rightarrow> nat \<Rightarrow> sized" where
  "simple_total_field_size env type_size bs f c base_offset =
    and_then (simple_field_size env type_size bs f c base_offset) (\<lambda>element_size.
      total_field_size env type_size f c element_size base_offset)"

text \<open>What a condition says of a field of a type: \<open>context.rs\<close> reports a condition that fails or
  is no boolean, \<open>mod.rs\<close> leaves the field out.\<close>

definition strict_condition :: "'f reader \<Rightarrow> 'f field_definition \<Rightarrow> 'f eval_context \<Rightarrow> (bool, access_error) outcome" where
  "strict_condition env f c =
    (case field_condition f of
      None \<Rightarrow> Ok True
    | Some e \<Rightarrow>
        and_then (map_err_to (\<lambda>_. ExpressionFailed (field_id f)) (evaluate (std env) e c)) (\<lambda>v. case v of
          VBoolean b \<Rightarrow> Ok b
        | _ \<Rightarrow> Err (ExpressionFailed (field_id f))))"

definition lenient_condition :: "'f reader \<Rightarrow> 'f field_definition \<Rightarrow> 'f eval_context \<Rightarrow> (bool, access_error) outcome" where
  "lenient_condition env f c =
    (case field_condition f of
      None \<Rightarrow> Ok True
    | Some e \<Rightarrow> map_ok (\<lambda>v. v = Some (VBoolean True)) (caught (evaluate (std env) e c)))"

text \<open>A repeat count that is zero for sure.\<close>

definition counts_zero :: "'f reader \<Rightarrow> 'f field_definition \<Rightarrow> 'f eval_context \<Rightarrow> (bool, access_error) outcome" where
  "counts_zero env f c =
    (case field_repeat f of
      Some (RepeatCount n) \<Rightarrow> Ok (n = 0)
    | Some (RepeatExpr e) \<Rightarrow> map_ok (\<lambda>v. v = Some (VInteger 0)) (caught (evaluate (std env) e c))
    | _ \<Rightarrow> Ok False)"

definition eager_repeat_count :: "'f reader \<Rightarrow> 'f field_definition \<Rightarrow> 'f eval_context \<Rightarrow> (nat option, access_error) outcome" where
  "eager_repeat_count env f c =
    (case field_repeat f of
      Some (RepeatCount n) \<Rightarrow> Ok (Some n)
    | Some (RepeatExpr e) \<Rightarrow>
        map_ok (\<lambda>v. case v of
            Some (VInteger n) \<Rightarrow> Some (if 0 \<le> sint n then nat (sint n) else 0)
          | _ \<Rightarrow> Some 0) (caught (evaluate (std env) e c))
    | _ \<Rightarrow> Ok None)"

text \<open>A field that is all there joins the context of the fields after it.\<close>

definition read_into_context ::
    "('f field_definition \<Rightarrow> byte list \<Rightarrow> ('f val, access_error) outcome) \<Rightarrow> byte list \<Rightarrow> 'f field_definition \<Rightarrow>
      nat \<Rightarrow> nat \<Rightarrow> 'f eval_context \<Rightarrow> ('f eval_context, access_error) outcome" where
  "read_into_context read bs f offset n c =
    (if add64 offset n \<le> length bs
     then and_then (slice offset (add64 offset n) bs) (\<lambda>d.
          map_ok (\<lambda>v. case v of Some v \<Rightarrow> add_value_to_context (field_id f) v c | None \<Rightarrow> c) (caught (read f d)))
     else Ok c)"

text \<open>One field of \<open>get_nested_type_size\<close>.\<close>

definition nested_step ::
    "'f reader \<Rightarrow> 'f type_sizer \<Rightarrow> byte list \<Rightarrow> nat \<Rightarrow> 'f eval_context \<times> nat \<Rightarrow> 'f field_definition \<Rightarrow>
      ('f eval_context \<times> nat, access_error) outcome" where
  "nested_step env type_size bs offset st f =
    (case st of (c, total_size) \<Rightarrow>
      and_then (strict_condition env f c) (\<lambda>present.
      if \<not> present then Ok st else
      and_then (counts_zero env f c) (\<lambda>zero.
      if zero then Ok st else
      and_then (simple_field_size env type_size bs f c (add64 offset total_size)) (\<lambda>field_size.
      and_then (read_into_context (read_simple_value env) bs f (add64 offset total_size) field_size c) (\<lambda>c'.
      and_then (simple_total_field_size env type_size bs f c' (add64 offset total_size)) (\<lambda>total_field_size.
        Ok (c', add64 total_size total_field_size)))))))"

text \<open>One field of \<open>get_type_size\<close>.\<close>

definition lenient_step ::
    "'f reader \<Rightarrow> 'f type_sizer \<Rightarrow> byte list \<Rightarrow> nat \<Rightarrow> 'f eval_context \<times> nat \<Rightarrow> 'f field_definition \<Rightarrow>
      ('f eval_context \<times> nat, access_error) outcome" where
  "lenient_step env type_size bs offset st f =
    (case st of (c, total_size) \<Rightarrow>
      and_then (lenient_condition env f c) (\<lambda>present.
      if \<not> present then Ok st else
      and_then (eager_repeat_count env f c) (\<lambda>count.
      if count = Some 0 then Ok st else
      and_then (simple_field_size env type_size bs f c (add64 offset total_size)) (\<lambda>field_size.
      and_then (read_into_context (read_simple_nested_value env) bs f (add64 offset total_size) field_size c) (\<lambda>c'.
      and_then (total_field_size env type_size f c' field_size (add64 offset total_size)) (\<lambda>total_field_size.
        Ok (c', add64 total_size total_field_size)))))))"

text \<open>The size of a named type, one level of nesting deeper.\<close>

definition type_size_body ::
    "string \<Rightarrow> ('f type_sizer \<Rightarrow> byte list \<Rightarrow> nat \<Rightarrow> 'f eval_context \<times> nat \<Rightarrow> 'f field_definition \<Rightarrow> ('f eval_context \<times> nat, access_error) outcome) \<Rightarrow>
      'f reader \<Rightarrow> (string \<times> 'f structure_definition) list \<Rightarrow> byte list \<Rightarrow> 'f type_sizer \<Rightarrow> 'f type_sizer" where
  "type_size_body prefix step env types bs type_size name args c offset =
    and_then (ok_or (UnknownField (prefix @ name)) (map_of types name)) (\<lambda>nested.
    and_then (bind_params env (''type:'' @ name) nested args c) (\<lambda>c0.
      map_ok snd (try_fold (step type_size bs offset) (c0, 0) (def_fields nested))))"

fun nested_type_size :: "'f reader \<Rightarrow> (string \<times> 'f structure_definition) list \<Rightarrow> byte list \<Rightarrow> nat \<Rightarrow> 'f type_sizer" where
  "nested_type_size env types bs 0 = (\<lambda>name args c offset. Panic)"
| "nested_type_size env types bs (Suc k) = type_size_body ''type:'' (nested_step env) env types bs (nested_type_size env types bs k)"

fun get_type_size :: "'f reader \<Rightarrow> (string \<times> 'f structure_definition) list \<Rightarrow> byte list \<Rightarrow> nat \<Rightarrow> 'f type_sizer" where
  "get_type_size env types bs 0 = (\<lambda>name args c offset. Panic)"
| "get_type_size env types bs (Suc k) = type_size_body [] (lenient_step env) env types bs (get_type_size env types bs k)"

end
