(* ===== verification/Structure_Accessor.thy ===== *)
theory Structure_Accessor
  imports Structure_Sizes
begin

text \<open>
  The structure accessor of \<open>src/src/parser/accessor/mod.rs\<close>: one pass over the fields finds
  where each field and each element of a repeated field lies and fills the context their
  expressions see; \<open>get\<close> then reads values by path.  The caches of the accessor (interior
  mutability in the code) are its state: operations are calls on it.  A structure value joins
  the context as the snapshot of an accessor of its own, \<open>depth\<close> bounds that nesting.
\<close>

section \<open>State\<close>

record 'f accessor =
  definition_of :: "'f structure_definition"
  data_of :: "byte list"
  offset_cache :: "string \<Rightarrow> (nat \<times> nat) option"
  repeat_offsets :: "string \<Rightarrow> (nat \<times> nat) list option"
  parsed_context :: "'f eval_context option"
  parsed :: bool
  inherited :: "string \<Rightarrow> 'f node option"

definition accessor_with_inherited ::
    "'f structure_definition \<Rightarrow> byte list \<Rightarrow> (string \<Rightarrow> 'f node option) \<Rightarrow> 'f accessor" where
  "accessor_with_inherited d bs inh =
    \<lparr>definition_of = d, data_of = bs, offset_cache = Map.empty, repeat_offsets = Map.empty,
     parsed_context = None, parsed = False, inherited = inh\<rparr>"

definition accessor_new :: "'f structure_definition \<Rightarrow> byte list \<Rightarrow> 'f accessor" where
  "accessor_new d bs = accessor_with_inherited d bs Map.empty"

definition seeded_context :: "'f structure_definition \<Rightarrow> (string \<Rightarrow> 'f node option) \<Rightarrow> 'f eval_context" where
  "seeded_context d inh = context_new\<lparr>ctx_root := map_of (def_consts d) ++ inh\<rparr>"

definition read_field_value ::
    "'f reader \<Rightarrow> endian \<Rightarrow> byte list \<Rightarrow> 'f field_definition \<Rightarrow> nat \<Rightarrow> nat \<Rightarrow> ('f val, access_error) outcome" where
  "read_field_value env e bs f offset n =
    (if add64 offset n > length bs then Err (UnexpectedEof (field_id f) n (length bs - offset))
     else and_then (slice offset (add64 offset n) bs) (\<lambda>d. read_field_value_from_bytes env f d e))"

section \<open>Values as nodes of the context\<close>

text \<open>The node of a structure value: its type, its bytes and the names it inherits.\<close>

type_synonym 'f struct_noder = "string \<Rightarrow> byte list \<Rightarrow> (string \<Rightarrow> 'f node option) \<Rightarrow> ('f node option, access_error) outcome"

fun value_to_node :: "'f struct_noder \<Rightarrow> (string \<Rightarrow> 'f node option) \<Rightarrow> 'f val \<Rightarrow> ('f node option, access_error) outcome"
and values_to_nodes :: "'f struct_noder \<Rightarrow> (string \<Rightarrow> 'f node option) \<Rightarrow> 'f val list \<Rightarrow> ('f node list, access_error) outcome" where
  "value_to_node snap inh (VArray vs) = map_ok (\<lambda>ns. Some (ArrayNode ns)) (values_to_nodes snap inh vs)"
| "value_to_node snap inh (VStruct bs name) = snap name bs inh"
| "value_to_node snap inh v = Ok (map_option Scalar (scalar_of_value v))"
| "values_to_nodes snap inh [] = Ok []"
| "values_to_nodes snap inh (v # vs) =
    and_then (value_to_node snap inh v) (\<lambda>n. map_ok (\<lambda>ns. case n of Some n \<Rightarrow> n # ns | None \<Rightarrow> ns) (values_to_nodes snap inh vs))"

section \<open>The elements of a repeated field\<close>

text \<open>Everything a pass over the fields needs: the reader, the definition, its bytes, and how to
  turn structures into nodes.\<close>

record 'f pass =
  reader_of :: "'f reader"
  pass_definition :: "'f structure_definition"
  pass_data :: "byte list"
  struct_noder :: "'f struct_noder"

definition strict_size :: "'f pass \<Rightarrow> 'f type_sizer" where
  "strict_size p = nested_type_size (reader_of p) (def_types (pass_definition p)) (pass_data p) (depth (reader_of p))"

definition lenient_size :: "'f pass \<Rightarrow> 'f type_sizer" where
  "lenient_size p = get_type_size (reader_of p) (def_types (pass_definition p)) (pass_data p) (depth (reader_of p))"

definition pass_read :: "'f pass \<Rightarrow> 'f field_definition \<Rightarrow> nat \<Rightarrow> nat \<Rightarrow> ('f val, access_error) outcome" where
  "pass_read p = read_field_value (reader_of p) (def_endian (pass_definition p)) (pass_data p)"

text \<open>Elements of a named type are measured one by one, others have the size of the first.\<close>

definition element_size :: "'f pass \<Rightarrow> 'f field_definition \<Rightarrow> nat \<Rightarrow> 'f eval_context \<Rightarrow> nat \<Rightarrow> sized" where
  "element_size p f n c offset =
    (case field_type f of
      FTypeRef name \<Rightarrow>
        map_ok (\<lambda>r. case r of Some k \<Rightarrow> k | None \<Rightarrow> n) (caught (lenient_size p name (field_type_args f) c offset))
    | _ \<Rightarrow> Ok n)"

text \<open>The loops return the places of the elements, their values and the offset behind them.\<close>

type_synonym 'f elements = "(nat \<times> nat) list \<times> 'f val list \<times> nat"

definition consed :: "nat \<times> nat \<Rightarrow> 'f val option \<Rightarrow> 'f elements \<Rightarrow> 'f elements" where
  "consed place v r = (case r of (places, vs, e) \<Rightarrow> (place # places, (case v of Some v \<Rightarrow> v # vs | None \<Rightarrow> vs), e))"

fun counted_elements ::
    "'f pass \<Rightarrow> 'f field_definition \<Rightarrow> nat \<Rightarrow> 'f eval_context \<Rightarrow> nat list \<Rightarrow> nat \<Rightarrow> ('f elements, access_error) outcome" where
  "counted_elements p f n c [] offset = Ok ([], [], offset)"
| "counted_elements p f n c (i # is) offset =
    and_then (element_size p f n (with_index i c) offset) (\<lambda>k.
      if add64 offset k > length (pass_data p) then Ok ([], [], offset)
      else and_then (caught (pass_read p f offset k)) (\<lambda>v.
        map_ok (consed (offset, k) v) (counted_elements p f n c is (add64 offset k))))"

text \<open>Until a condition on the element holds: at most \<open>room\<close> elements fit in memory.\<close>

fun until_elements ::
    "'f pass \<Rightarrow> 'f field_definition \<Rightarrow> nat \<Rightarrow> 'f expression \<Rightarrow> nat \<Rightarrow> 'f eval_context \<Rightarrow> nat \<Rightarrow> nat \<Rightarrow>
      ('f eval_context \<times> 'f elements, access_error) outcome" where
  "until_elements p f n cond 0 c i offset = Panic"
| "until_elements p f n cond (Suc fuel) c i offset =
    and_then (element_size p f n c offset) (\<lambda>k.
      if add64 offset k > length (pass_data p) then Ok (c, [], [], offset)
      else and_then (pass_read p f offset k) (\<lambda>v.
        (let c' = add_value_to_context (field_id f) v c;
             until_ctx = add_value_to_context ''_'' v (with_index i c')
         in and_then (caught (evaluate (std (reader_of p)) cond until_ctx)) (\<lambda>r.
            if r = Some (VBoolean True) then Ok (c', [(offset, k)], [v], add64 offset k)
            else map_ok (\<lambda>(c'', es). (c'', consed (offset, k) (Some v) es))
              (until_elements p f n cond fuel c' (Suc i) (add64 offset k))))))"

text \<open>To the end of the data: an element of no size ends the loop, so the length of the data
  bounds the number of turns.\<close>

fun eos_elements ::
    "'f pass \<Rightarrow> 'f field_definition \<Rightarrow> nat \<Rightarrow> 'f eval_context \<Rightarrow> nat \<Rightarrow> nat \<Rightarrow> ('f elements, access_error) outcome" where
  "eos_elements p f n c 0 offset = Panic"
| "eos_elements p f n c (Suc fuel) offset =
    and_then (element_size p f n c offset) (\<lambda>k.
      if k = 0 \<or> add64 offset k > length (pass_data p) then Ok ([], [], offset)
      else and_then (caught (pass_read p f offset k)) (\<lambda>v.
        map_ok (\<lambda>r. case v of Some v \<Rightarrow> consed (offset, k) (Some v) r | None \<Rightarrow> r)
          (eos_elements p f n c fuel (add64 offset k))))"

section \<open>The pass over the fields\<close>

text \<open>The state of the pass: the two caches, the context and the offset reached.\<close>

record 'f progress =
  places :: "string \<Rightarrow> (nat \<times> nat) option"
  element_places :: "string \<Rightarrow> (nat \<times> nat) list option"
  context_of :: "'f eval_context"
  reached :: nat

datatype flow = NextField | StopPass

type_synonym 'f pass_step = "('f progress, flow, access_error) call"

definition put_place :: "string \<Rightarrow> nat \<times> nat \<Rightarrow> 'f progress \<Rightarrow> 'f progress" where
  "put_place name place s = s\<lparr>places := (places s)(name \<mapsto> place)\<rparr>"

definition put_elements :: "string \<Rightarrow> (nat \<times> nat) list \<Rightarrow> 'f progress \<Rightarrow> 'f progress" where
  "put_elements name es s = s\<lparr>element_places := (element_places s)(name \<mapsto> es)\<rparr>"

text \<open>The array of the elements joins the context under the name of the field.\<close>

definition insert_array_node ::
    "'f pass \<Rightarrow> 'f field_definition \<Rightarrow> 'f val list \<Rightarrow> 'f eval_context \<Rightarrow> ('f eval_context, access_error) outcome" where
  "insert_array_node p f vs c =
    map_ok (\<lambda>ns. insert_node (field_id f) (ArrayNode ns) c)
      (values_to_nodes (struct_noder p) (context_snapshot c) vs)"

text \<open>The end of each of the three loops: the elements are recorded and the pass moves behind
  them.\<close>

definition finish_elements ::
    "'f pass \<Rightarrow> 'f field_definition \<Rightarrow> 'f eval_context \<Rightarrow> 'f elements \<Rightarrow> 'f pass_step" where
  "finish_elements p f c es =
    (case es of (os, vs, e) \<Rightarrow>
      seq (lift_outcome (insert_array_node p f vs c)) (\<lambda>c' s.
        (Ok NextField, (put_elements (field_id f) os s)\<lparr>context_of := c', reached := e\<rparr>)))"

definition parse_repeated :: "'f pass \<Rightarrow> 'f field_definition \<Rightarrow> 'f repeat_spec \<Rightarrow> nat \<Rightarrow> 'f pass_step" where
  "parse_repeated p f repeat n = (\<lambda>s.
    (let s' = put_place (field_id f) (reached s, n) s
     in case repeat of
       RepeatCount count \<Rightarrow>
         seq (lift_outcome (counted_elements p f n (context_of s) [0..<count] (reached s)))
           (finish_elements p f (context_of s)) s'
     | RepeatExpr e \<Rightarrow>
         seq (lift_outcome (and_then (eager_repeat_count (reader_of p) f (context_of s)) (\<lambda>count.
             counted_elements p f n (context_of s) [0..<case count of Some k \<Rightarrow> k | None \<Rightarrow> 0] (reached s))))
           (finish_elements p f (context_of s)) s'
     | RepeatUntil cond \<Rightarrow>
         seq (lift_outcome (until_elements p f n cond (room (reader_of p)) (context_of s) 0 (reached s)))
           (\<lambda>(c, es). finish_elements p f c es) s'
     | RepeatEos \<Rightarrow>
         seq (lift_outcome (eos_elements p f n (context_of s) (Suc (length (pass_data p))) (reached s)))
           (finish_elements p f (context_of s)) s'))"

definition parse_single :: "'f pass \<Rightarrow> 'f field_definition \<Rightarrow> nat \<Rightarrow> 'f pass_step" where
  "parse_single p f n = (\<lambda>s.
    (let s' = put_place (field_id f) (reached s, n) s; c = context_of s
     in seq (lift_outcome
          (if add64 (reached s) n \<le> length (pass_data p)
           then and_then (caught (pass_read p f (reached s) n)) (\<lambda>v. case v of
               None \<Rightarrow> Ok c
             | Some (VStruct bs name) \<Rightarrow>
                 map_ok (\<lambda>nd. case nd of Some nd \<Rightarrow> insert_node (field_id f) nd c | None \<Rightarrow> c)
                   (value_to_node (struct_noder p) (context_snapshot c) (VStruct bs name))
             | Some v \<Rightarrow> Ok (add_value_to_context (field_id f) v c))
           else Ok c))
        (\<lambda>c' s. (Ok NextField, s\<lparr>context_of := c', reached := add64 (reached s) n\<rparr>)) s'))"

text \<open>One field: left out when its condition is false (a condition that fails does not leave it
  out), recorded as empty when it repeats zero times, and the pass stops where a size cannot be
  told.\<close>

definition parse_field :: "'f pass \<Rightarrow> 'f field_definition \<Rightarrow> 'f pass_step" where
  "parse_field p f = (\<lambda>s.
    (let env = reader_of p; c = context_of s
     in seq (lift_outcome (case field_condition f of
            None \<Rightarrow> Ok False
          | Some e \<Rightarrow> map_ok (\<lambda>v. v = Some (VBoolean False)) (caught (evaluate (std env) e c))))
        (\<lambda>absent. if absent then done_with NextField else
          seq (lift_outcome (eager_repeat_count env f c)) (\<lambda>count.
            if count = Some 0 then
              (\<lambda>s. (Ok NextField, put_elements (field_id f) [] (put_place (field_id f) (reached s, 0) s)))
            else
              seq (lift_outcome (caught (simple_field_size env (strict_size p) (pass_data p) f
                  (if field_type_args f = [] then c else with_index 0 c) (reached s))))
                (\<lambda>n. case n of
                  None \<Rightarrow> done_with StopPass
                | Some n \<Rightarrow>
                    (case field_repeat f of
                      Some repeat \<Rightarrow> parse_repeated p f repeat n
                    | None \<Rightarrow> parse_single p f n)))) s))"

fun parse_fields :: "'f pass \<Rightarrow> 'f field_definition list \<Rightarrow> ('f progress, unit, access_error) call" where
  "parse_fields p [] = done_with ()"
| "parse_fields p (f # fs) =
    seq (parse_field p f) (\<lambda>flow. case flow of NextField \<Rightarrow> parse_fields p fs | StopPass \<Rightarrow> done_with ())"

definition pass_of :: "'f reader \<Rightarrow> 'f struct_noder \<Rightarrow> 'f accessor \<Rightarrow> 'f pass" where
  "pass_of env snap a =
    \<lparr>reader_of = env, pass_definition = definition_of a, pass_data = data_of a, struct_noder = snap\<rparr>"

text \<open>The caches keep what an interrupted pass has put into them.\<close>

definition ensure_parsed_with :: "'f reader \<Rightarrow> 'f struct_noder \<Rightarrow> ('f accessor, unit, access_error) call" where
  "ensure_parsed_with env snap = (\<lambda>a.
    if parsed a then (Ok (), a)
    else
      (let s = \<lparr>places = offset_cache a, element_places = repeat_offsets a,
                context_of = seeded_context (definition_of a) (inherited a), reached = 0\<rparr>
       in case parse_fields (pass_of env snap a) (def_fields (definition_of a)) s of
         (r, s') \<Rightarrow>
           (let a' = a\<lparr>offset_cache := places s', repeat_offsets := element_places s'\<rparr>
            in (r, if r = Ok () then a'\<lparr>parsed_context := Some (context_of s'), parsed := True\<rparr> else a'))))"

section \<open>The context of conditions\<close>

text \<open>Before the pass has run, the context is built by another one over the fields, which
  reports every error.\<close>

definition context_step ::
    "'f pass \<Rightarrow> 'f eval_context \<times> nat \<Rightarrow> 'f field_definition \<Rightarrow> ('f eval_context \<times> nat, access_error) outcome" where
  "context_step p st f =
    (case st of (c, current_offset) \<Rightarrow>
      and_then (strict_condition (reader_of p) f c) (\<lambda>present.
      if \<not> present then Ok st else
      and_then (counts_zero (reader_of p) f c) (\<lambda>zero.
      if zero then Ok st else
      and_then (simple_field_size (reader_of p) (strict_size p) (pass_data p) f c current_offset) (\<lambda>n.
      and_then (if add64 current_offset n \<le> length (pass_data p)
          then map_ok (\<lambda>v. case v of Some v \<Rightarrow> add_value_to_context (field_id f) v c | None \<Rightarrow> c)
            (caught (pass_read p f current_offset n))
          else Ok c) (\<lambda>c'.
      and_then (simple_total_field_size (reader_of p) (strict_size p) (pass_data p) f c' current_offset) (\<lambda>total_size.
        Ok (c', add64 current_offset total_size)))))))"

definition build_context_from_definition ::
    "'f pass \<Rightarrow> string \<Rightarrow> (string \<Rightarrow> 'f node option) \<Rightarrow> ('f eval_context, access_error) outcome" where
  "build_context_from_definition p stop_at inh =
    map_ok fst (try_fold (context_step p) (seeded_context (pass_definition p) inh, 0)
      (takeWhile (\<lambda>f. field_id f \<noteq> stop_at) (def_fields (pass_definition p))))"

definition build_eval_context_with :: "'f reader \<Rightarrow> 'f struct_noder \<Rightarrow> 'f accessor \<Rightarrow> ('f eval_context, access_error) outcome" where
  "build_eval_context_with env snap a =
    (case parsed_context a of
      Some c \<Rightarrow> Ok c
    | None \<Rightarrow> build_context_from_definition (pass_of env snap a) [] (inherited a))"

definition eval_snapshot_with ::
    "'f reader \<Rightarrow> 'f struct_noder \<Rightarrow> ('f accessor, string \<Rightarrow> 'f node option, access_error) call" where
  "eval_snapshot_with env snap = (\<lambda>a.
    case ensure_parsed_with env snap a of
      (Panic, a') \<Rightarrow> (Panic, a')
    | (_, a') \<Rightarrow>
        (case build_eval_context_with env snap a' of
          Ok c \<Rightarrow> (Ok (context_snapshot c), a')
        | Err e \<Rightarrow> (Ok (inherited a'), a')
        | Panic \<Rightarrow> (Panic, a')))"

text \<open>The node of a structure: the fields and parameters of its type that an accessor on its
  bytes, with the types of the root, has in its snapshot.\<close>

definition struct_node_body ::
    "'f reader \<Rightarrow> (string \<times> 'f structure_definition) list \<Rightarrow> 'f struct_noder \<Rightarrow> 'f struct_noder" where
  "struct_node_body env types snap name bs inh =
    (case map_of types name of
      None \<Rightarrow> Ok None
    | Some nested \<Rightarrow>
        (let names = map field_id (def_fields nested) @ def_params nested;
             sub_accessor = accessor_with_inherited (with_types types nested) bs inh
         in map_ok (\<lambda>m. Some (StructNode (\<lambda>k. if k \<in> set names then m k else None)))
              (fst (eval_snapshot_with env snap sub_accessor))))"

fun struct_node :: "'f reader \<Rightarrow> (string \<times> 'f structure_definition) list \<Rightarrow> nat \<Rightarrow> 'f struct_noder" where
  "struct_node env types 0 = (\<lambda>name bs inh. Panic)"
| "struct_node env types (Suc k) = struct_node_body env types (struct_node env types k)"

definition noder_of :: "'f reader \<Rightarrow> 'f accessor \<Rightarrow> 'f struct_noder" where
  "noder_of env a = struct_node env (def_types (definition_of a)) (depth env)"

definition ensure_parsed :: "'f reader \<Rightarrow> ('f accessor, unit, access_error) call" where
  "ensure_parsed env = (\<lambda>a. ensure_parsed_with env (noder_of env a) a)"

definition build_eval_context :: "'f reader \<Rightarrow> 'f accessor \<Rightarrow> ('f eval_context, access_error) outcome" where
  "build_eval_context env a = build_eval_context_with env (noder_of env a) a"

definition eval_snapshot :: "'f reader \<Rightarrow> ('f accessor, string \<Rightarrow> 'f node option, access_error) call" where
  "eval_snapshot env = (\<lambda>a. eval_snapshot_with env (noder_of env a) a)"

section \<open>Access by path\<close>

text \<open>The part before the first dot and the part behind it; an index is never parsed.\<close>

definition parse_path :: "string \<Rightarrow> string \<times> nat option \<times> string option" where
  "parse_path path =
    (let first = takeWhile (\<lambda>c. c \<noteq> CHR ''.'') path
     in case dropWhile (\<lambda>c. c \<noteq> CHR ''.'') path of
         [] \<Rightarrow> (first, None, None)
       | _ # rest \<Rightarrow> (first, None, Some rest))"

definition calculate_field_offset :: "'f reader \<Rightarrow> string \<Rightarrow> ('f accessor, nat \<times> nat, access_error) call" where
  "calculate_field_offset env name = (\<lambda>a.
    case offset_cache a name of
      Some place \<Rightarrow> (Ok place, a)
    | None \<Rightarrow>
        seq (ensure_parsed env) (\<lambda>_ a.
          (case offset_cache a name of
            Some place \<Rightarrow> Ok place
          | None \<Rightarrow>
              (case find_field (definition_of a) name of
                Ok f \<Rightarrow> if field_condition f \<noteq> None then Err (ConditionalNotPresent name []) else Err (UnknownField name)
              | _ \<Rightarrow> Err (UnknownField name)), a)) a)"

definition accessor_read :: "'f reader \<Rightarrow> 'f accessor \<Rightarrow> 'f field_definition \<Rightarrow> nat \<Rightarrow> nat \<Rightarrow> ('f val, access_error) outcome" where
  "accessor_read env a = read_field_value env (def_endian (definition_of a)) (data_of a)"

text \<open>The static size that nested access gives a field of a structure value.\<close>

definition nested_static_size :: "byte list \<Rightarrow> 'f field_definition \<Rightarrow> nat \<Rightarrow> nat" where
  "nested_static_size bs f offset =
    (case field_size f of
      SizeFixed n \<Rightarrow> n
    | SizeEos \<Rightarrow> length bs - offset
    | SizeExpr _ \<Rightarrow> (case field_type f of FUnsigned w \<Rightarrow> w | FSigned w \<Rightarrow> w | _ \<Rightarrow> 0))"

text \<open>The bytes of a nested field: its bits are read with the byte order of its type.\<close>

definition nested_field_value ::
    "'f reader \<Rightarrow> endian \<Rightarrow> 'f field_definition \<Rightarrow> byte list \<Rightarrow> ('f val, access_error) outcome" where
  "nested_field_value env e f bs =
    (case field_type f of
      FString \<Rightarrow> map_ok val.VString (ok_or (EncodingError (field_id f) ''UTF-8'') (utf8_decode bs))
    | FBytes \<Rightarrow> Ok (val.VBytes bs)
    | FUnsigned n \<Rightarrow> map_ok (\<lambda>w. VUnsigned (unat w)) (read_unsigned bs n e)
    | FSigned n \<Rightarrow> map_ok (\<lambda>w. VSigned (sint w)) (read_signed bs n e)
    | FFloat n \<Rightarrow> map_ok val.VFloat (read_float env bs n e)
    | FTypeRef name \<Rightarrow> Ok (VStruct bs name))"

definition nested_field ::
    "'f reader \<Rightarrow> 'f structure_definition \<Rightarrow> byte list \<Rightarrow> string \<Rightarrow> string \<Rightarrow> ('f val, access_error) outcome" where
  "nested_field env nested bs path name =
    and_then (find_field nested name) (\<lambda>f.
      (let prior = takeWhile (\<lambda>g. field_id g \<noteq> name) (def_fields nested);
           offset = foldl (\<lambda>offset g. add64 offset (nested_static_size bs g offset)) 0 prior;
           n = nested_static_size bs f offset
       in if add64 offset n > length bs then Err (UnexpectedEof path n (length bs - offset))
          else and_then (slice offset (add64 offset n) bs) (nested_field_value env (def_endian nested) f)))"

text \<open>An element number is a decimal number with an optional plus sign.\<close>

definition parse_usize :: "string \<Rightarrow> nat option" where
  "parse_usize s = parse_unsigned U64 s"

lemma parse_path_shorter:
  "parse_path path = (name, i, Some rest) \<Longrightarrow> length rest < length path"
proof -
  assume "parse_path path = (name, i, Some rest)"
  then obtain c where "dropWhile (\<lambda>c. c \<noteq> CHR ''.'') path = c # rest"
    by (auto simp: parse_path_def Let_def split: list.splits)
  then have "length (c # rest) \<le> length path" by (metis length_dropWhile_le)
  then show ?thesis by simp
qed

function access_nested ::
    "'f reader \<Rightarrow> (string \<times> 'f structure_definition) list \<Rightarrow> 'f val \<Rightarrow> string \<Rightarrow> ('f val, access_error) outcome" where
  "access_nested env types v path =
    (case v of
      VStruct bs type_name \<Rightarrow>
        and_then (ok_or (UnknownField type_name) (map_of types type_name)) (\<lambda>nested.
          and_then (nested_field env nested bs path (fst (parse_path path))) (\<lambda>v'.
            case snd (snd (parse_path path)) of
              None \<Rightarrow> Ok v'
            | Some rest \<Rightarrow> access_nested env types v' rest))
    | VArray vs \<Rightarrow>
        (case parse_usize (fst (parse_path path)) of
          Some i \<Rightarrow> ok_or (UnknownField path) (get_at i vs)
        | None \<Rightarrow> Err (UnknownField path))
    | _ \<Rightarrow> Err (UnknownField path))"
  by pat_completeness auto
termination
  by (relation "measure (\<lambda>(env, types, v, path). length path)") (auto intro: parse_path_shorter simp: prod_eq_iff)

definition access_rest ::
    "'f reader \<Rightarrow> 'f accessor \<Rightarrow> 'f val \<Rightarrow> string option \<Rightarrow> ('f val, access_error) outcome" where
  "access_rest env a v rest =
    (case rest of None \<Rightarrow> Ok v | Some path \<Rightarrow> access_nested env (def_types (definition_of a)) v path)"

text \<open>A repeated field whose elements the pass has recorded.\<close>

definition get_elements ::
    "'f reader \<Rightarrow> 'f accessor \<Rightarrow> 'f field_definition \<Rightarrow> string \<Rightarrow> nat option \<Rightarrow> string option \<Rightarrow> (nat \<times> nat) list \<Rightarrow>
      ('f val, access_error) outcome" where
  "get_elements env a f path index rest offsets =
    (case index of
      Some idx \<Rightarrow>
        if idx < length offsets
        then and_then (accessor_read env a f (fst (offsets ! idx)) (snd (offsets ! idx))) (\<lambda>v. access_rest env a v rest)
        else Err (UnknownField path)
    | None \<Rightarrow> map_ok VArray (try_map (\<lambda>(offset, n). accessor_read env a f offset n) offsets))"

text \<open>The condition of a field, checked before the pass runs.\<close>

definition check_condition :: "'f reader \<Rightarrow> 'f accessor \<Rightarrow> string \<Rightarrow> 'f field_definition \<Rightarrow> (unit, access_error) outcome" where
  "check_condition env a path f =
    (case field_condition f of
      None \<Rightarrow> Ok ()
    | Some e \<Rightarrow>
        and_then (build_eval_context env a) (\<lambda>c.
        and_then (map_err_to (\<lambda>_. ExpressionFailed path) (evaluate (std env) e c)) (\<lambda>v. case v of
          VBoolean True \<Rightarrow> Ok ()
        | VBoolean False \<Rightarrow> Err (ConditionalNotPresent path [])
        | _ \<Rightarrow> Err (ExpressionFailed path))))"

text \<open>A repeated field the pass has recorded no elements for (another field of the same name
  put it on the map): the elements are found again.\<close>

definition get_field_size :: "'f reader \<Rightarrow> 'f accessor \<Rightarrow> 'f field_definition \<Rightarrow> nat \<Rightarrow> sized" where
  "get_field_size env a f offset =
    (let size_in = (\<lambda>c. simple_field_size env
        (get_type_size env (def_types (definition_of a)) (data_of a) (depth env)) (data_of a) f c offset)
     in case field_size f of
         SizeExpr _ \<Rightarrow> and_then (build_eval_context env a) size_in
       | SizeFixed n \<Rightarrow> (case field_type f of
             FTypeRef _ \<Rightarrow> if n = 0 then and_then (build_eval_context env a) size_in else size_in context_new
           | _ \<Rightarrow> size_in context_new)
       | SizeEos \<Rightarrow> size_in context_new)"

definition element_stops ::
    "'f reader \<Rightarrow> 'f accessor \<Rightarrow> string \<Rightarrow> 'f expression \<Rightarrow> nat \<Rightarrow> 'f val \<Rightarrow> (bool, access_error) outcome" where
  "element_stops env a name cond i v =
    and_then (build_eval_context env a) (\<lambda>c.
      map_ok (\<lambda>r. r = VBoolean True)
        (map_err_to (\<lambda>_. ExpressionFailed name)
          (evaluate (std env) cond (add_value_to_context ''_'' v (with_index i c)))))"

fun count_until ::
    "'f reader \<Rightarrow> 'f accessor \<Rightarrow> 'f field_definition \<Rightarrow> string \<Rightarrow> 'f expression \<Rightarrow> nat \<Rightarrow> nat \<Rightarrow> nat \<Rightarrow> sized" where
  "count_until env a f name cond 0 count offset = Panic"
| "count_until env a f name cond (Suc fuel) count offset =
    and_then (get_field_size env a f offset) (\<lambda>n.
      if add64 offset n > length (data_of a) then Ok count
      else and_then (accessor_read env a f offset n) (\<lambda>v.
           and_then (element_stops env a name cond count v) (\<lambda>stop.
             if stop then Ok (Suc count) else count_until env a f name cond fuel (Suc count) (add64 offset n))))"

definition get_actual_repeat_count ::
    "'f reader \<Rightarrow> 'f accessor \<Rightarrow> 'f repeat_spec \<Rightarrow> string \<Rightarrow> nat \<Rightarrow> 'f field_definition \<Rightarrow> sized" where
  "get_actual_repeat_count env a repeat name start_offset f =
    (case repeat of
      RepeatCount n \<Rightarrow> Ok n
    | RepeatExpr e \<Rightarrow> and_then (build_eval_context env a) (eval_count env name e)
    | RepeatUntil cond \<Rightarrow> count_until env a f name cond (room env) 0 start_offset
    | RepeatEos \<Rightarrow>
        and_then (get_field_size env a f start_offset) (\<lambda>n.
          if n = 0 then Ok 0 else Ok ((length (data_of a) - start_offset) div n)))"

fun read_elements ::
    "'f reader \<Rightarrow> 'f accessor \<Rightarrow> 'f field_definition \<Rightarrow> string \<Rightarrow> 'f repeat_spec \<Rightarrow> nat list \<Rightarrow> nat \<Rightarrow> ('f val list, access_error) outcome" where
  "read_elements env a f name repeat [] offset = Ok []"
| "read_elements env a f name repeat (i # is) offset =
    and_then (get_field_size env a f offset) (\<lambda>n.
      if add64 offset n > length (data_of a) then Ok []
      else and_then (accessor_read env a f offset n) (\<lambda>v.
           and_then (case repeat of RepeatUntil cond \<Rightarrow> element_stops env a name cond i v | _ \<Rightarrow> Ok False) (\<lambda>stop.
             if stop then Ok [v] else map_ok ((#) v) (read_elements env a f name repeat is (add64 offset n)))))"

definition get_unrecorded ::
    "'f reader \<Rightarrow> 'f accessor \<Rightarrow> 'f field_definition \<Rightarrow> string \<Rightarrow> 'f repeat_spec \<Rightarrow> nat option \<Rightarrow> string option \<Rightarrow> nat \<times> nat \<Rightarrow>
      ('f val, access_error) outcome" where
  "get_unrecorded env a f name repeat index rest place =
    (case index of
      Some i \<Rightarrow> and_then (accessor_read env a f (fst place) (snd place)) (\<lambda>v. access_rest env a v rest)
    | None \<Rightarrow>
        and_then (get_actual_repeat_count env a repeat name (fst place) f) (\<lambda>count.
          map_ok VArray (read_elements env a f name repeat [0..<count] (fst place))))"

definition get :: "'f reader \<Rightarrow> string \<Rightarrow> ('f accessor, 'f val, access_error) call" where
  "get env path = (\<lambda>a.
    case parse_path path of (field_name, index, rest) \<Rightarrow>
      seq (lift_outcome (find_field (definition_of a) field_name)) (\<lambda>f.
      seq (lift_outcome (check_condition env a path f)) (\<lambda>_.
      seq (ensure_parsed env) (\<lambda>_ a.
        case field_repeat f of
          Some repeat \<Rightarrow>
            (case repeat_offsets a field_name of
              Some offsets \<Rightarrow> (get_elements env a f path index rest offsets, a)
            | None \<Rightarrow>
                seq (calculate_field_offset env field_name) (\<lambda>place a.
                  (get_unrecorded env a f field_name repeat index rest place, a)) a)
        | None \<Rightarrow>
            seq (calculate_field_offset env field_name) (\<lambda>(offset, n) a.
              (and_then (accessor_read env a f offset n) (\<lambda>v. access_rest env a v rest), a)) a))) a)"

definition has :: "'f reader \<Rightarrow> string \<Rightarrow> ('f accessor, bool, access_error) call" where
  "has env path = (\<lambda>a. case get env path a of
      (Ok _, a') \<Rightarrow> (Ok True, a')
    | (Err _, a') \<Rightarrow> (Ok False, a')
    | (Panic, a') \<Rightarrow> (Panic, a'))"

record field_info =
  info_type :: field_type
  info_size :: nat
  info_offset :: nat
  info_encoding :: "encoding option"

definition get_field_info :: "'f reader \<Rightarrow> string \<Rightarrow> ('f accessor, field_info option, access_error) call" where
  "get_field_info env path = (\<lambda>a.
    case find_field (definition_of a) (fst (parse_path path)) of
      Ok f \<Rightarrow>
        (case calculate_field_offset env (fst (parse_path path)) a of
          (Ok (offset, n), a') \<Rightarrow>
            (Ok (Some \<lparr>info_type = field_type f, info_size = n, info_offset = offset, info_encoding = field_encoding f\<rparr>), a')
        | (Err _, a') \<Rightarrow> (Ok None, a')
        | (Panic, a') \<Rightarrow> (Panic, a'))
    | _ \<Rightarrow> (Ok None, a))"

definition raw_slice :: "'f reader \<Rightarrow> string \<Rightarrow> ('f accessor, byte list, access_error) call" where
  "raw_slice env path = (\<lambda>a.
    case parse_path path of (field_name, index, rest) \<Rightarrow>
      let repeated = (case find_field (definition_of a) field_name of Ok f \<Rightarrow> field_repeat f \<noteq> None \<and> index = None | _ \<Rightarrow> False)
      in if repeated \<or> rest \<noteq> None then (Err (NonContiguous path), a)
         else seq (calculate_field_offset env field_name) (\<lambda>(offset, n) a.
           (if add64 offset n > length (data_of a) then Err (UnexpectedEof path n (length (data_of a) - offset))
            else slice offset (add64 offset n) (data_of a), a)) a)"

text \<open>The names an iteration over the fields yields: repeated fields that are not left out, and
  single fields that can be read.\<close>

fun field_names :: "'f reader \<Rightarrow> 'f field_definition list \<Rightarrow> ('f accessor, string list, access_error) call" where
  "field_names env [] = done_with []"
| "field_names env (f # fs) = (\<lambda>a.
    seq (lift_outcome (case field_condition f of
          None \<Rightarrow> Ok False
        | Some e \<Rightarrow>
            and_then (caught (build_eval_context env a)) (\<lambda>c. case c of
              None \<Rightarrow> Ok False
            | Some c \<Rightarrow> map_ok (\<lambda>v. v = Some (VBoolean False)) (caught (evaluate (std env) e c)))))
      (\<lambda>absent. if absent then field_names env fs else
        seq (if field_repeat f \<noteq> None then done_with True else has env (field_id f)) (\<lambda>present.
          seq (field_names env fs) (\<lambda>names. done_with (if present then field_id f # names else names)))) a)"

definition accessor_fields :: "'f reader \<Rightarrow> ('f accessor, string list, access_error) call" where
  "accessor_fields env = (\<lambda>a. field_names env (def_fields (definition_of a)) a)"

end
