(* ===== verification/Structure_Pass.thy ===== *)
theory Structure_Pass
  imports Structure_Accessor
begin

text \<open>
  What the pass over the fields guarantees: the elements it records lie in the data, one
  behind the other, and the caches do not show through - a call gives what it gives on a
  fresh accessor, whatever was called before, as long as no condition is involved.
\<close>

section \<open>Sizes are machine words\<close>

definition field_fits :: "'f field_definition \<Rightarrow> bool" where
  "field_fits f \<longleftrightarrow>
    (case field_size f of SizeFixed n \<Rightarrow> n < U64 | _ \<Rightarrow> True) \<and>
    (case field_type f of FUnsigned w \<Rightarrow> w < U64 | FSigned w \<Rightarrow> w < U64 | _ \<Rightarrow> True)"

lemma add64_less [simp]: "add64 a b < U64"
  by (simp add: add64_def)

lemma eval_count_less:
  assumes "eval_count env name e c = Ok n"
  shows "n < U64"
proof -
  obtain v where v: "evaluate (std env) e c = Ok v" "(case v of
      VInteger n \<Rightarrow> if 0 \<le> sint n then Ok (nat (sint n)) else Err (ExpressionFailed name)
    | _ \<Rightarrow> Err (ExpressionFailed name)) = Ok n"
    using assms by (auto simp: eval_count_def outcome_simps)
  then obtain w :: "64 word" where "n = nat (sint w)" "0 \<le> sint w" by (cases v) (auto split: if_splits)
  then show ?thesis using sint_lt [of w] by (simp add: U64_def)
qed

lemma type_size_body_less:
  assumes "type_size_body prefix step env types bs ts name args c offset = Ok n"
    and "\<And>st f st'. step ts bs offset st f = Ok st' \<Longrightarrow> st' = st \<or> snd st' < U64"
  shows "n < U64"
proof -
  obtain nested c0 st where st: "try_fold (step ts bs offset) (c0, 0) (def_fields nested) = Ok st" "n = snd st"
    using assms(1) by (auto simp: type_size_body_def outcome_simps)
  have "snd st < U64"
    using st(1)
  proof (rule try_fold_invariant)
    fix s x s'
    assume "snd s < U64" "step ts bs offset s x = Ok s'"
    then show "snd s' < U64" using assms(2) [of s x s'] by blast
  qed simp
  then show ?thesis using st(2) by simp
qed

lemma nested_type_size_less: "nested_type_size env types bs k name args c offset = Ok n \<Longrightarrow> n < U64"
  by (cases k) (auto elim!: type_size_body_less simp: nested_step_def outcome_simps split: prod.splits if_splits)

lemma get_type_size_less: "get_type_size env types bs k name args c offset = Ok n \<Longrightarrow> n < U64"
  by (cases k) (auto elim!: type_size_body_less simp: lenient_step_def outcome_simps split: prod.splits if_splits)

lemma simple_field_size_less:
  assumes "simple_field_size env ts bs f c offset = Ok n" "field_fits f" "length bs < U64"
    and "\<And>name args c offset n. ts name args c offset = Ok n \<Longrightarrow> n < U64"
  shows "n < U64"
  using assms
  by (auto simp: simple_field_size_def field_fits_def split: size_spec.splits field_type.splits if_splits
      dest: eval_count_less)

lemma element_size_less:
  assumes "element_size p f n c offset = Ok k" "n < U64"
  shows "k < U64"
proof (cases "field_type f")
  case (FTypeRef name)
  obtain r where r: "caught (lenient_size p name (field_type_args f) c offset) = (Ok r :: (nat option, access_error) outcome)"
    "k = (case r of Some k \<Rightarrow> k | None \<Rightarrow> n)"
    using assms(1) by (auto simp: element_size_def FTypeRef outcome_simps)
  show ?thesis
  proof (cases r)
    case (Some m)
    then have "lenient_size p name (field_type_args f) c offset = Ok m"
      using r(1) by (cases "lenient_size p name (field_type_args f) c offset") auto
    then show ?thesis using Some r(2) by (auto simp: lenient_size_def dest: get_type_size_less)
  qed (use assms r in simp)
qed (use assms in \<open>simp_all add: element_size_def\<close>)

section \<open>Elements lie in the data in order\<close>

fun in_order :: "nat \<Rightarrow> nat \<Rightarrow> (nat \<times> nat) list \<Rightarrow> bool" where
  "in_order lo len [] \<longleftrightarrow> True"
| "in_order lo len ((offset, n) # es) \<longleftrightarrow> lo \<le> offset \<and> offset + n \<le> len \<and> in_order (offset + n) len es"

lemma in_order_mono: "in_order lo len es \<Longrightarrow> lo' \<le> lo \<Longrightarrow> in_order lo' len es"
  by (cases es) auto

text \<open>A read that did not panic was inside the data.\<close>

lemma caught_not_Panic: "caught m = Ok v \<Longrightarrow> m \<noteq> Panic"
  by (cases m) auto

lemma pass_read_inside:
  assumes "pass_read p f offset n \<noteq> Panic" "add64 offset n \<le> length (pass_data p)" "n < U64" "length (pass_data p) < U64"
  shows "add64 offset n = offset + n"
proof -
  have le: "offset \<le> add64 offset n"
    using assms(1,2) by (auto simp: pass_read_def read_field_value_def slice_def split: if_splits)
  then have o: "offset < U64" using assms(2,4) by linarith
  show ?thesis
  proof (cases "offset + n < U64")
    case False
    then have "(offset + n) mod U64 = offset + n - U64" using o assms(3) by (simp add: mod_if)
    then show ?thesis using le False assms(3) o by (simp add: add64_def)
  qed simp
qed

lemma counted_in_order:
  assumes "counted_elements p f n c is offset = Ok (os, vs, e)" "n < U64" "length (pass_data p) < U64"
  shows "in_order offset (length (pass_data p)) os"
  using assms(1)
proof (induction "is" arbitrary: offset os vs e)
  case (Cons i "is")
  obtain k where k: "element_size p f n (with_index i c) offset = Ok k" using Cons.prems by (auto simp: outcome_simps)
  show ?case
  proof (cases "add64 offset k > length (pass_data p)")
    case True
    then show ?thesis using Cons.prems k by simp
  next
    case False
    obtain v os' vs' e' where r: "caught (pass_read p f offset k) = (Ok v :: ('a val option, access_error) outcome)"
      "counted_elements p f n c is (add64 offset k) = Ok (os', vs', e')" "os = (offset, k) # os'"
      using Cons.prems k False by (fastforce simp: outcome_simps consed_def)
    have "add64 offset k = offset + k"
      using pass_read_inside [OF caught_not_Panic [OF r(1)]] False element_size_less [OF k assms(2)] assms(3) by simp
    then show ?thesis using Cons.IH [OF r(2)] False r(3) by simp
  qed
qed simp

lemma until_in_order:
  assumes "until_elements p f n cond fuel c i offset = Ok (c', os, vs, e)" "n < U64" "length (pass_data p) < U64"
  shows "in_order offset (length (pass_data p)) os"
  using assms(1)
proof (induction fuel arbitrary: c i offset os vs e)
  case (Suc fuel)
  obtain k where k: "element_size p f n c offset = Ok k" using Suc.prems by (auto simp: outcome_simps)
  show ?case
  proof (cases "add64 offset k > length (pass_data p)")
    case True
    then show ?thesis using Suc.prems k by simp
  next
    case False
    obtain v where v: "pass_read p f offset k = Ok v" using Suc.prems k False by (auto simp: outcome_simps)
    have eq: "add64 offset k = offset + k"
      using pass_read_inside [of p f offset k] v False element_size_less [OF k assms(2)] assms(3) by simp
    have "os = [(offset, k)] \<or> (\<exists>c1 os' vs' e'. os = (offset, k) # os' \<and>
        until_elements p f n cond fuel c1 (Suc i) (add64 offset k) = Ok (c', os', vs', e'))"
      using Suc.prems k v False by (fastforce simp: outcome_simps consed_def Let_def split: if_splits)
    then show ?thesis using Suc.IH False eq by auto
  qed
qed simp

lemma eos_in_order:
  assumes "eos_elements p f n c fuel offset = Ok (os, vs, e)" "n < U64" "length (pass_data p) < U64"
  shows "in_order offset (length (pass_data p)) os"
  using assms(1)
proof (induction fuel arbitrary: offset os vs e)
  case (Suc fuel)
  obtain k where k: "element_size p f n c offset = Ok k" using Suc.prems by (auto simp: outcome_simps)
  show ?case
  proof (cases "k = 0 \<or> add64 offset k > length (pass_data p)")
    case True
    then show ?thesis using Suc.prems k by simp
  next
    case False
    obtain v r where r: "caught (pass_read p f offset k) = (Ok v :: ('a val option, access_error) outcome)"
      "eos_elements p f n c fuel (add64 offset k) = Ok r" "(os, vs, e) = (case v of Some v \<Rightarrow> consed (offset, k) (Some v) r | None \<Rightarrow> r)"
      using Suc.prems k False by (auto simp: outcome_simps)
    have eq: "add64 offset k = offset + k"
      using pass_read_inside [OF caught_not_Panic [OF r(1)]] False element_size_less [OF k assms(2)] assms(3) by simp
    obtain os' vs' e' where r': "r = (os', vs', e')" by (cases r)
    have "in_order (offset + k) (length (pass_data p)) os'" using Suc.IH r(2) r' eq by simp
    then show ?thesis using r(3) r' False eq
      by (auto simp: consed_def split: option.splits intro: in_order_mono)
  qed
qed simp

section \<open>The pass keeps its records in order\<close>

definition records_ordered :: "nat \<Rightarrow> 'f progress \<Rightarrow> bool" where
  "records_ordered len s \<longleftrightarrow> (\<forall>name os. element_places s name = Some os \<longrightarrow> in_order 0 len os)"

text \<open>An invariant of a stateful call, whatever its outcome.\<close>

definition keeps :: "('s \<Rightarrow> bool) \<Rightarrow> ('s, 'a, 'e) call \<Rightarrow> 's \<Rightarrow> bool" where
  "keeps P m s \<longleftrightarrow> (P s \<longrightarrow> P (snd (m s)))"

lemma keeps_seq:
  assumes "keeps P m s" "\<And>a s'. m s = (Ok a, s') \<Longrightarrow> keeps P (f a) s'"
  shows "keeps P (seq m f) s"
  using assms by (cases "m s"; cases "fst (m s)") (auto simp: keeps_def)

lemma keeps_lift [simp]: "keeps P (lift_outcome r) s"
  by (simp add: keeps_def)

lemma keeps_done [simp]: "keeps P (done_with a) s"
  by (simp add: keeps_def)

lemma keeps_seq_lift:
  assumes "\<And>a. r = Ok a \<Longrightarrow> keeps P (f a) s"
  shows "keeps P (seq (lift_outcome r) f) s"
  by (rule keeps_seq) (auto simp: assms)

lemma keeps_of_parts: "m s = m' s \<Longrightarrow> keeps P m' s \<Longrightarrow> keeps P m s"
  by (simp add: keeps_def)

lemma records_ordered_put_place [simp]: "records_ordered len (put_place name place s) = records_ordered len s"
  by (simp add: records_ordered_def put_place_def)

lemma records_ordered_put_elements:
  "records_ordered len s \<Longrightarrow> in_order 0 len os \<Longrightarrow> records_ordered len (put_elements name os s)"
  by (simp add: records_ordered_def put_elements_def)

lemma records_ordered_other [simp]:
  "records_ordered len (s\<lparr>context_of := c\<rparr>) = records_ordered len s"
  "records_ordered len (s\<lparr>reached := n\<rparr>) = records_ordered len s"
  by (simp_all add: records_ordered_def)

lemma finish_elements_keeps:
  assumes "in_order offset len (fst es)"
  shows "keeps (records_ordered len) (finish_elements p f c es) s"
proof -
  obtain os vs e where es: "es = (os, vs, e)" by (cases es)
  have "in_order 0 len os" using assms by (auto simp: es intro: in_order_mono)
  then show ?thesis
    unfolding es finish_elements_def case_prod_conv
    by (intro keeps_seq_lift) (simp add: keeps_def records_ordered_put_elements)
qed

lemma parse_repeated_keeps:
  assumes "n < U64" "length (pass_data p) < U64"
  shows "keeps (records_ordered (length (pass_data p))) (parse_repeated p f repeat n) s"
proof -
  let ?s = "put_place (field_id f) (reached s, n) s" and ?P = "records_ordered (length (pass_data p))"
  have counted: "keeps ?P (finish_elements p f c es) s'"
    if "counted_elements p f n c is (reached s) = Ok es" for c "is" es s'
    using that counted_in_order [of p f n c "is" "reached s" "fst es" "fst (snd es)" "snd (snd es)"] assms
    by (intro finish_elements_keeps [of "reached s"]) simp
  have "keeps ?P (\<lambda>_. parse_repeated p f repeat n s) ?s"
  proof (cases repeat)
    case (RepeatCount count)
    then show ?thesis unfolding parse_repeated_def Let_def
      by (simp only: repeat_spec.case) (rule keeps_of_parts [OF refl], rule keeps_seq_lift, rule counted)
  next
    case (RepeatExpr e)
    then show ?thesis unfolding parse_repeated_def Let_def
      by (simp only: repeat_spec.case)
        (rule keeps_of_parts [OF refl], rule keeps_seq_lift, auto simp: outcome_simps intro: counted)
  next
    case (RepeatUntil cond)
    then show ?thesis unfolding parse_repeated_def Let_def
      by (simp only: repeat_spec.case)
        (rule keeps_of_parts [OF refl], rule keeps_seq_lift,
          auto intro!: finish_elements_keeps [of "reached s"] dest!: until_in_order simp: assms)
  next
    case RepeatEos
    then show ?thesis unfolding parse_repeated_def Let_def
      by (simp only: repeat_spec.case)
        (rule keeps_of_parts [OF refl], rule keeps_seq_lift,
          auto intro!: finish_elements_keeps [of "reached s"] dest!: eos_in_order simp: assms simp del: eos_elements.simps)
  qed
  then show ?thesis by (simp add: keeps_def)
qed

lemma parse_single_keeps: "keeps (records_ordered len) (parse_single p f n) s"
proof -
  have "keeps (records_ordered len) (\<lambda>_. parse_single p f n s) (put_place (field_id f) (reached s, n) s)"
    unfolding parse_single_def Let_def
    by (rule keeps_of_parts [OF refl], rule keeps_seq_lift) (simp add: keeps_def)
  then show ?thesis by (simp add: keeps_def)
qed

lemma parse_field_keeps:
  assumes "field_fits f" "length (pass_data p) < U64"
  shows "keeps (records_ordered (length (pass_data p))) (parse_field p f) s"
proof (rule keeps_of_parts [OF parse_field_def [THEN fun_cong, unfolded Let_def]], rule keeps_seq_lift)
  let ?P = "records_ordered (length (pass_data p))"
  fix absent
  show "keeps ?P (if absent then done_with NextField else
      seq (lift_outcome (eager_repeat_count (reader_of p) f (context_of s))) (\<lambda>count.
        if count = Some 0
        then (\<lambda>s. (Ok NextField, put_elements (field_id f) [] (put_place (field_id f) (reached s, 0) s)))
        else seq (lift_outcome (caught (simple_field_size (reader_of p) (strict_size p) (pass_data p) f
            (if field_type_args f = [] then context_of s else with_index 0 (context_of s)) (reached s))))
          (\<lambda>n. case n of
            None \<Rightarrow> done_with StopPass
          | Some n \<Rightarrow> (case field_repeat f of Some repeat \<Rightarrow> parse_repeated p f repeat n | None \<Rightarrow> parse_single p f n)))) s"
  proof (cases absent)
    case False
    have n: "n < U64" if "caught (simple_field_size (reader_of p) (strict_size p) (pass_data p) f c offset) = (Ok (Some n) :: (nat option, access_error) outcome)"
      for c offset n
    proof -
      have "simple_field_size (reader_of p) (strict_size p) (pass_data p) f c offset = Ok n"
        using that by (cases "simple_field_size (reader_of p) (strict_size p) (pass_data p) f c offset") auto
      then show ?thesis
        by (rule simple_field_size_less) (use assms in \<open>auto simp: strict_size_def dest: nested_type_size_less\<close>)
    qed
    show ?thesis
      unfolding if_not_P [OF False]
    proof (rule keeps_seq_lift)
      fix count
      show "keeps ?P (if count = Some 0
          then (\<lambda>s. (Ok NextField, put_elements (field_id f) [] (put_place (field_id f) (reached s, 0) s)))
          else seq (lift_outcome (caught (simple_field_size (reader_of p) (strict_size p) (pass_data p) f
              (if field_type_args f = [] then context_of s else with_index 0 (context_of s)) (reached s))))
            (\<lambda>n. case n of
              None \<Rightarrow> done_with StopPass
            | Some n \<Rightarrow> (case field_repeat f of Some repeat \<Rightarrow> parse_repeated p f repeat n | None \<Rightarrow> parse_single p f n))) s"
      proof (cases "count = Some 0")
        case True
        then show ?thesis by (simp add: keeps_def records_ordered_put_elements)
      next
        case False
        show ?thesis unfolding if_not_P [OF False]
          by (rule keeps_seq_lift)
            (auto split: option.split intro!: parse_repeated_keeps parse_single_keeps assms(2) dest: n)
      qed
    qed
  qed simp
qed

lemma parse_fields_keeps:
  assumes "\<And>f. f \<in> set fs \<Longrightarrow> field_fits f" "length (pass_data p) < U64"
  shows "keeps (records_ordered (length (pass_data p))) (parse_fields p fs) s"
  using assms(1)
proof (induction fs arbitrary: s)
  case (Cons f fs)
  show ?case unfolding parse_fields.simps
    by (rule keeps_seq, rule parse_field_keeps)
      (use Cons assms(2) in \<open>auto split: flow.split\<close>)
qed simp

section \<open>The caches do not show through\<close>

text \<open>The pass never reads the caches: started with entries in them, it does the same and adds
  its own on top.\<close>

definition over ::
    "(string \<Rightarrow> (nat \<times> nat) option) \<Rightarrow> (string \<Rightarrow> (nat \<times> nat) list option) \<Rightarrow> 'f progress \<Rightarrow> 'f progress" where
  "over m em s = s\<lparr>places := m ++ places s, element_places := em ++ element_places s\<rparr>"

definition oblivious :: "('f progress, 'a, 'e) call \<Rightarrow> bool" where
  "oblivious m \<longleftrightarrow> (\<forall>ps es s. m (over ps es s) = (fst (m s), over ps es (snd (m s))))"

lemma oblivious_seq:
  assumes "oblivious m" "\<And>a. oblivious (f a)"
  shows "oblivious (seq m f)"
  unfolding oblivious_def
proof (intro allI)
  fix ps es s
  have "m (over ps es s) = (fst (m s), over ps es (snd (m s)))" using assms(1) by (simp add: oblivious_def)
  moreover have "f a (over ps es t) = (fst (f a t), over ps es (snd (f a t)))" for a t
    using assms(2) by (simp add: oblivious_def)
  ultimately show "seq m f (over ps es s) = (fst (seq m f s), over ps es (snd (seq m f s)))"
    by (cases "m s"; cases "fst (m s)") (simp_all add: seq_def)
qed

lemma oblivious_lift [simp]: "oblivious (lift_outcome r)" and oblivious_done [simp]: "oblivious (done_with a)"
  and oblivious_pair [simp]: "oblivious (Pair r)"
  by (simp_all add: oblivious_def)

lemma over_sel [simp]: "context_of (over ps es s) = context_of s" "reached (over ps es s) = reached s"
  by (simp_all add: over_def)

lemma over_put [simp]:
  "put_place name place (over ps es s) = over ps es (put_place name place s)"
  "put_elements name os (over ps es s) = over ps es (put_elements name os s)"
  "(over ps es s)\<lparr>context_of := c, reached := n\<rparr> = over ps es (s\<lparr>context_of := c, reached := n\<rparr>)"
  by (simp_all add: over_def put_place_def put_elements_def)

lemma oblivious_finish [simp]: "oblivious (finish_elements p f c es)"
proof -
  obtain os vs e where es: "es = (os, vs, e)" by (cases es)
  show ?thesis unfolding es finish_elements_def case_prod_conv
    by (rule oblivious_seq) (simp_all add: oblivious_def)
qed

text \<open>A call that looks at the context and the offset and then goes on obliviously.\<close>

lemma oblivious_by:
  assumes "\<And>c n. oblivious (g c n)" "\<And>s. m s = g (context_of s) (reached s) s"
  shows "oblivious m"
  using assms unfolding oblivious_def by (metis over_sel)

lemma oblivious_after_put:
  assumes "oblivious m"
  shows "oblivious (\<lambda>s. m (put_place name place s))"
  using assms by (simp add: oblivious_def)

lemma oblivious_repeated [simp]: "oblivious (parse_repeated p f repeat n)"
proof (cases repeat)
  case (RepeatCount count)
  show ?thesis
    by (rule oblivious_by [where g = "\<lambda>c r s. seq (lift_outcome (counted_elements p f n c [0..<count] r))
          (finish_elements p f c) (put_place (field_id f) (r, n) s)"])
      (rule oblivious_after_put oblivious_seq oblivious_lift oblivious_finish | simp add: parse_repeated_def RepeatCount)+
next
  case (RepeatExpr e)
  show ?thesis
    by (rule oblivious_by [where g = "\<lambda>c r s. seq (lift_outcome (and_then (eager_repeat_count (reader_of p) f c) (\<lambda>count.
             counted_elements p f n c [0..<case count of Some k \<Rightarrow> k | None \<Rightarrow> 0] r)))
          (finish_elements p f c) (put_place (field_id f) (r, n) s)"])
      (rule oblivious_after_put oblivious_seq oblivious_lift oblivious_finish | simp add: parse_repeated_def RepeatExpr)+
next
  case (RepeatUntil cond)
  show ?thesis
    by (rule oblivious_by [where g = "\<lambda>c r s. seq (lift_outcome (until_elements p f n cond (room (reader_of p)) c 0 r))
          (\<lambda>(c, es). finish_elements p f c es) (put_place (field_id f) (r, n) s)"])
      (rule oblivious_after_put oblivious_seq oblivious_lift oblivious_finish | simp add: parse_repeated_def RepeatUntil split: prod.split)+
next
  case RepeatEos
  show ?thesis
    by (rule oblivious_by [where g = "\<lambda>c r s. seq (lift_outcome (eos_elements p f n c (Suc (length (pass_data p))) r))
          (finish_elements p f c) (put_place (field_id f) (r, n) s)"])
      (rule oblivious_after_put oblivious_seq oblivious_lift oblivious_finish | simp add: parse_repeated_def RepeatEos del: eos_elements.simps)+
qed

lemma oblivious_single [simp]: "oblivious (parse_single p f n)"
proof -
  let ?g = "\<lambda>c r s. seq (lift_outcome
          (if add64 r n \<le> length (pass_data p)
           then and_then (caught (pass_read p f r n)) (\<lambda>v. case v of
               None \<Rightarrow> Ok c
             | Some (VStruct bs name) \<Rightarrow>
                 map_ok (\<lambda>nd. case nd of Some nd \<Rightarrow> insert_node (field_id f) nd c | None \<Rightarrow> c)
                   (value_to_node (struct_noder p) (context_snapshot c) (VStruct bs name))
             | Some v \<Rightarrow> Ok (add_value_to_context (field_id f) v c))
           else Ok c))
        (\<lambda>c' s. (Ok NextField, s\<lparr>context_of := c', reached := add64 (reached s) n\<rparr>)) (put_place (field_id f) (r, n) s)"
  have eq: "parse_single p f n s = ?g (context_of s) (reached s) s" for s
    unfolding parse_single_def Let_def by (rule refl)
  have "oblivious (?g c r)" for c r
    by (rule oblivious_after_put, rule oblivious_seq, rule oblivious_lift) (simp add: oblivious_def)
  then show ?thesis using eq by (rule oblivious_by [where g = ?g])
qed

lemma oblivious_field [simp]: "oblivious (parse_field p f)"
proof -
  let ?empty = "\<lambda>s. (Ok NextField, put_elements (field_id f) [] (put_place (field_id f) (reached s, 0) s))"
  let ?g = "\<lambda>c r. seq (lift_outcome (case field_condition f of
            None \<Rightarrow> Ok False
          | Some e \<Rightarrow> map_ok (\<lambda>v. v = Some (VBoolean False)) (caught (evaluate (std (reader_of p)) e c))))
        (\<lambda>absent. if absent then done_with NextField else
          seq (lift_outcome (eager_repeat_count (reader_of p) f c)) (\<lambda>count.
            if count = Some 0 then ?empty
            else
              seq (lift_outcome (caught (simple_field_size (reader_of p) (strict_size p) (pass_data p) f
                  (if field_type_args f = [] then c else with_index 0 c) r)))
                (\<lambda>n. case n of
                  None \<Rightarrow> done_with StopPass
                | Some n \<Rightarrow>
                    (case field_repeat f of
                      Some repeat \<Rightarrow> parse_repeated p f repeat n
                    | None \<Rightarrow> parse_single p f n))))"
  have eq: "parse_field p f s = ?g (context_of s) (reached s) s" for s
    unfolding parse_field_def Let_def by (rule refl)
  have empty: "oblivious ?empty" by (simp add: oblivious_def)
  have sized: "oblivious (case n of None \<Rightarrow> done_with StopPass | Some n \<Rightarrow>
      (case field_repeat f of Some repeat \<Rightarrow> parse_repeated p f repeat n | None \<Rightarrow> parse_single p f n))" for n
    by (auto split: option.split)
  have counted: "oblivious (if count = Some 0 then ?empty else seq (lift_outcome r) (\<lambda>n. case n of
      None \<Rightarrow> done_with StopPass
    | Some n \<Rightarrow> (case field_repeat f of Some repeat \<Rightarrow> parse_repeated p f repeat n | None \<Rightarrow> parse_single p f n)))"
    for count :: "nat option" and r
    using empty oblivious_seq [OF oblivious_lift sized] by (cases "count = Some 0") simp_all
  have present: "oblivious (if absent then done_with NextField else seq (lift_outcome r) (\<lambda>count. if count = Some 0 then ?empty
      else seq (lift_outcome r') (\<lambda>n. case n of
      None \<Rightarrow> done_with StopPass
    | Some n \<Rightarrow> (case field_repeat f of Some repeat \<Rightarrow> parse_repeated p f repeat n | None \<Rightarrow> parse_single p f n))))"
    for absent and r :: "(nat option, access_error) outcome" and r'
  proof (cases absent)
    case False
    show ?thesis unfolding if_not_P [OF False] by (rule oblivious_seq [OF oblivious_lift]) (rule counted)
  qed simp
  have "oblivious (?g c r)" for c r
    by (rule oblivious_seq [OF oblivious_lift]) (rule present)
  then show ?thesis using eq by (rule oblivious_by [where g = ?g])
qed

lemma oblivious_fields [simp]: "oblivious (parse_fields p fs)"
proof (induction fs)
  case (Cons f fs)
  then show ?case unfolding parse_fields.simps by (intro oblivious_seq) (auto split: flow.split)
qed simp

section \<open>The states an accessor goes through\<close>

text \<open>The pass of a fresh accessor, and the accessor it leaves.\<close>

lemma map_add_self [simp]: "m ++ m = m"
  by (simp add: fun_eq_iff map_add_def split: option.split)

lemma ensure_parsed_again:
  fixes d bs inh env
  defines "a \<equiv> accessor_with_inherited d bs inh"
  shows "ensure_parsed env (snd (ensure_parsed env a)) = ensure_parsed env a"
proof -
  let ?s = "\<lparr>places = Map.empty, element_places = Map.empty, context_of = seeded_context d inh, reached = 0\<rparr> :: 'a progress"
  let ?snap = "struct_node env (def_types d) (depth env)"
  define p where "p = pass_of env ?snap a"
  obtain r s' where run: "parse_fields p (def_fields d) ?s = (r, s')" by (cases "parse_fields p (def_fields d) ?s")
  have again: "parse_fields p (def_fields d) (over m em ?s) = (r, over m em s')" for m em
    using oblivious_fields [of p "def_fields d"] run by (simp add: oblivious_def)
  have sel: "definition_of a = d" "data_of a = bs" "inherited a = inh" "\<not> parsed a" "offset_cache a = Map.empty"
    "repeat_offsets a = Map.empty" "noder_of env a = ?snap"
    by (simp_all add: a_def accessor_with_inherited_def noder_of_def)
  let ?a0 = "a\<lparr>offset_cache := places s', repeat_offsets := element_places s'\<rparr>"
  have first: "ensure_parsed env a = (r, if r = Ok () then ?a0\<lparr>parsed_context := Some (context_of s'), parsed := True\<rparr> else ?a0)"
    using run by (simp add: ensure_parsed_def ensure_parsed_with_def sel p_def [symmetric] Let_def)
  show ?thesis
  proof (cases "r = Ok ()")
    case True
    then show ?thesis unfolding first by (simp add: ensure_parsed_def ensure_parsed_with_def)
  next
    case False
    have p: "pass_of env ?snap ?a0 = p" "noder_of env ?a0 = ?snap"
      by (simp_all add: p_def pass_of_def noder_of_def sel)
    have "over (places s') (element_places s') s' = s'" by (simp add: over_def)
    moreover have "\<lparr>places = places s', element_places = element_places s', context_of = seeded_context d inh, reached = 0\<rparr> =
        over (places s') (element_places s') ?s" by (simp add: over_def)
    ultimately have "ensure_parsed env ?a0 = (r, ?a0)"
      using again [of "places s'" "element_places s'"] False
      by (simp add: ensure_parsed_def ensure_parsed_with_def sel p Let_def)
    then show ?thesis unfolding first using False by simp
  qed
qed

text \<open>The calls on an accessor, as steps between its states.\<close>

inductive accessor_step :: "'f reader \<Rightarrow> 'f accessor \<Rightarrow> 'f accessor \<Rightarrow> bool" for env where
  step_get: "get env path a = (r, a') \<Longrightarrow> accessor_step env a a'"
| step_has: "has env path a = (b, a') \<Longrightarrow> accessor_step env a a'"
| step_info: "get_field_info env path a = (i, a') \<Longrightarrow> accessor_step env a a'"
| step_raw: "raw_slice env path a = (bs, a') \<Longrightarrow> accessor_step env a a'"
| step_fields: "accessor_fields env a = (names, a') \<Longrightarrow> accessor_step env a a'"
| step_snapshot: "eval_snapshot env a = (m, a') \<Longrightarrow> accessor_step env a a'"

inductive_cases accessor_stepE: "accessor_step env a a'"

abbreviation accessor_steps :: "'f reader \<Rightarrow> 'f accessor \<Rightarrow> 'f accessor \<Rightarrow> bool" where
  "accessor_steps env \<equiv> (accessor_step env)\<^sup>*\<^sup>*"

text \<open>Untouched, or as the pass leaves it.\<close>

definition pass_state :: "'f reader \<Rightarrow> 'f accessor \<Rightarrow> 'f accessor \<Rightarrow> bool" where
  "pass_state env fresh a \<longleftrightarrow> a = fresh \<or> a = snd (ensure_parsed env fresh)"

lemma pass_state_parsed:
  assumes "pass_state env (accessor_with_inherited d bs inh) a"
  shows "ensure_parsed env a = ensure_parsed env (accessor_with_inherited d bs inh)"
  using assms ensure_parsed_again [of env d bs inh] by (auto simp: pass_state_def)

lemma keeps_ensure:
  assumes "fresh = accessor_with_inherited d bs inh"
  shows "keeps (pass_state env fresh) (ensure_parsed env) a"
  using pass_state_parsed [of env d bs inh a] assms by (auto simp: keeps_def pass_state_def)

lemma keeps_offset:
  assumes "fresh = accessor_with_inherited d bs inh"
  shows "keeps (pass_state env fresh) (calculate_field_offset env name) a"
proof (cases "offset_cache a name")
  case None
  have "keeps (pass_state env fresh) (\<lambda>a. seq (ensure_parsed env) (\<lambda>_ a.
      (case offset_cache a name of
        Some place \<Rightarrow> Ok place
      | None \<Rightarrow>
          (case find_field (definition_of a) name of
            Ok f \<Rightarrow> if field_condition f \<noteq> None then Err (ConditionalNotPresent name []) else Err (UnknownField name)
          | _ \<Rightarrow> Err (UnknownField name)), a)) a) a"
    by (rule keeps_seq [OF keeps_ensure [OF assms]]) (simp add: keeps_def)
  then show ?thesis by (rule keeps_of_parts [rotated]) (simp add: calculate_field_offset_def None)
qed (simp add: keeps_def calculate_field_offset_def)

lemma keeps_get:
  assumes "fresh = accessor_with_inherited d bs inh"
  shows "keeps (pass_state env fresh) (get env path) a"
proof -
  note ensure = keeps_ensure [OF assms] and offset = keeps_offset [OF assms]
  obtain name index rest where path: "parse_path path = (name, index, rest)" by (cases "parse_path path")
  have tail: "keeps (pass_state env fresh) (\<lambda>a. case field_repeat f of
          Some repeat \<Rightarrow>
            (case repeat_offsets a name of
              Some offsets \<Rightarrow> (get_elements env a f path index rest offsets, a)
            | None \<Rightarrow>
                seq (calculate_field_offset env name) (\<lambda>place a.
                  (get_unrecorded env a f name repeat index rest place, a)) a)
        | None \<Rightarrow>
            seq (calculate_field_offset env name) (\<lambda>(offset, n) a.
              (and_then (accessor_read env a f offset n) (\<lambda>v. access_rest env a v rest), a)) a) a'" for f a'
  proof (cases "field_repeat f")
    case None
    have "keeps (pass_state env fresh) (seq (calculate_field_offset env name) (\<lambda>(offset, n) a.
              (and_then (accessor_read env a f offset n) (\<lambda>v. access_rest env a v rest), a))) a'"
      by (rule keeps_seq [OF offset]) (auto simp: keeps_def)
    then show ?thesis by (simp add: keeps_def None)
  next
    case (Some repeat)
    have "keeps (pass_state env fresh) (seq (calculate_field_offset env name) (\<lambda>place a.
                  (get_unrecorded env a f name repeat index rest place, a))) a'"
      by (rule keeps_seq [OF offset]) (simp add: keeps_def)
    then show ?thesis by (simp add: keeps_def Some split: option.split)
  qed
  have "keeps (pass_state env fresh) (\<lambda>_. get env path a) a"
    unfolding get_def path case_prod_conv
    by (rule keeps_of_parts [OF refl], rule keeps_seq_lift, rule keeps_seq_lift, rule keeps_seq [OF ensure]) (rule tail)
  then show ?thesis by (simp add: keeps_def)
qed

lemma keeps_has:
  assumes "fresh = accessor_with_inherited d bs inh"
  shows "keeps (pass_state env fresh) (has env path) a"
proof -
  have "snd (has env path a) = snd (get env path a)" by (simp add: has_def split: prod.split outcome.split)
  then show ?thesis using keeps_get [OF assms, of env path a] by (simp add: keeps_def)
qed

lemma keeps_info:
  assumes "fresh = accessor_with_inherited d bs inh"
  shows "keeps (pass_state env fresh) (get_field_info env path) a"
proof -
  have "snd (get_field_info env path a) = snd (calculate_field_offset env (fst (parse_path path)) a) \<or> snd (get_field_info env path a) = a"
    by (simp add: get_field_info_def split: prod.split outcome.split)
  then show ?thesis using keeps_offset [OF assms, of env "fst (parse_path path)" a] by (auto simp: keeps_def)
qed

lemma keeps_raw:
  assumes "fresh = accessor_with_inherited d bs inh"
  shows "keeps (pass_state env fresh) (raw_slice env path) a"
proof -
  obtain name index rest where path: "parse_path path = (name, index, rest)" by (cases "parse_path path")
  let ?m = "seq (calculate_field_offset env name) (\<lambda>(offset, n) a.
           (if add64 offset n > length (data_of a) then Err (UnexpectedEof path n (length (data_of a) - offset))
            else slice offset (add64 offset n) (data_of a), a))"
  have "keeps (pass_state env fresh) ?m a"
    by (rule keeps_seq [OF keeps_offset [OF assms]]) (auto simp: keeps_def)
  then show ?thesis by (auto simp: keeps_def raw_slice_def path Let_def)
qed

lemma keeps_names:
  assumes "fresh = accessor_with_inherited d bs inh"
  shows "keeps (pass_state env fresh) (field_names env fs) a"
proof (induction fs arbitrary: a)
  case (Cons f fs)
  have rest: "keeps (pass_state env fresh) (seq (if field_repeat f \<noteq> None then done_with True else has env (field_id f)) (\<lambda>present.
          seq (field_names env fs) (\<lambda>names. done_with (if present then field_id f # names else names)))) a" for a
    by (rule keeps_seq) (auto intro: keeps_has [OF assms] intro!: keeps_seq [OF Cons.IH] simp del: done_with_apply)
  have if_absent: "keeps (pass_state env fresh) (if absent then field_names env fs else
      seq (if field_repeat f \<noteq> None then done_with True else has env (field_id f)) (\<lambda>present.
          seq (field_names env fs) (\<lambda>names. done_with (if present then field_id f # names else names)))) a" for absent a
    by (cases absent) (simp_all only: if_True if_False Cons.IH rest)
  have "keeps (pass_state env fresh) (\<lambda>_. field_names env (f # fs) a) a"
    unfolding field_names.simps
    by (rule keeps_of_parts [OF refl], rule keeps_seq_lift) (rule if_absent)
  then show ?case by (simp add: keeps_def)
qed simp

lemma keeps_snapshot:
  assumes "fresh = accessor_with_inherited d bs inh"
  shows "keeps (pass_state env fresh) (eval_snapshot env) a"
proof -
  have "snd (eval_snapshot env a) = snd (ensure_parsed env a)"
    by (simp add: eval_snapshot_def eval_snapshot_with_def ensure_parsed_def split: prod.split outcome.split)
  then show ?thesis using keeps_ensure [OF assms, of env a] by (simp add: keeps_def)
qed

lemma step_pass_state:
  assumes "fresh = accessor_with_inherited d bs inh" "accessor_step env a a'" "pass_state env fresh a"
  shows "pass_state env fresh a'"
  using assms(2)
  by (rule accessor_stepE)
    (use assms(3) keeps_get [OF assms(1)] keeps_has [OF assms(1)] keeps_info [OF assms(1)] keeps_raw [OF assms(1)]
      keeps_names [OF assms(1)] keeps_snapshot [OF assms(1)] in \<open>(metis keeps_def snd_conv accessor_fields_def)+\<close>)

lemma steps_pass_state:
  assumes "accessor_steps env (accessor_with_inherited d bs inh) a"
  shows "pass_state env (accessor_with_inherited d bs inh) a"
  using assms
  by (induction rule: rtranclp_induct) (auto simp: pass_state_def [of _ _ "accessor_with_inherited d bs inh"]
      intro: step_pass_state [OF refl])

section \<open>Properties\<close>

lemma get_unconditional:
  assumes "find_field (definition_of a) (fst (parse_path path)) = Ok f" "field_condition f = None"
  shows "get env path a = seq (ensure_parsed env) (\<lambda>_ a. case parse_path path of (field_name, index, rest) \<Rightarrow>
        case field_repeat f of
          Some repeat \<Rightarrow>
            (case repeat_offsets a field_name of
              Some offsets \<Rightarrow> (get_elements env a f path index rest offsets, a)
            | None \<Rightarrow>
                seq (calculate_field_offset env field_name) (\<lambda>place a.
                  (get_unrecorded env a f field_name repeat index rest place, a)) a)
        | None \<Rightarrow>
            seq (calculate_field_offset env field_name) (\<lambda>(offset, n) a.
              (and_then (accessor_read env a f offset n) (\<lambda>v. access_rest env a v rest), a)) a) a"
proof -
  obtain name index rest where path: "parse_path path = (name, index, rest)" by (cases "parse_path path")
  have f: "lift_outcome (find_field (definition_of a) name) a = (Ok f, a)"
    "lift_outcome (check_condition env a path f) a = (Ok (), a)"
    using assms by (simp_all add: path check_condition_def)
  show ?thesis unfolding get_def path case_prod_conv
    by (subst seq_Ok [where m = "lift_outcome (find_field (definition_of a) name)" and a = f, OF f(1)],
        subst seq_Ok [where m = "lift_outcome (check_condition env a path f)" and a = "()", OF f(2)]) (rule refl)
qed

text \<open>C24: the elements of a repeated field lie in the data.  After any sequence of calls on an
  accessor of any definition and any bytes, the places recorded for a repeated field - counted,
  until a condition holds or to the end of the data, of fixed size or of a type measured element
  by element - are inside the data and follow each other without overlap, so that reading an
  element never slices out of bounds.  (Sizes are \<open>usize\<close> values.)\<close>

theorem elements_in_order:
  assumes "accessor_steps env (accessor_new d bs) a"
    and "length bs < U64" "list_all field_fits (def_fields d)"
    and "repeat_offsets a name = Some os"
  shows "in_order 0 (length bs) os"
proof -
  let ?fresh = "accessor_with_inherited d bs Map.empty"
  let ?p = "pass_of env (noder_of env ?fresh) ?fresh"
  let ?s = "\<lparr>places = Map.empty, element_places = Map.empty, context_of = seeded_context d Map.empty, reached = 0\<rparr> :: 'a progress"
  have p: "pass_data ?p = bs" by (simp add: pass_of_def accessor_with_inherited_def)
  have "keeps (records_ordered (length (pass_data ?p))) (parse_fields ?p (def_fields d)) ?s"
    by (rule parse_fields_keeps) (use assms(2,3) p in \<open>auto simp: list_all_iff\<close>)
  then have kept: "records_ordered (length bs) (snd (parse_fields ?p (def_fields d) ?s))"
    by (simp add: keeps_def p records_ordered_def)
  have "repeat_offsets (snd (ensure_parsed env ?fresh)) = element_places (snd (parse_fields ?p (def_fields d) ?s))"
    by (simp add: ensure_parsed_def ensure_parsed_with_def accessor_with_inherited_def Let_def split: prod.split)
  moreover have "a = ?fresh \<or> a = snd (ensure_parsed env ?fresh)"
    using steps_pass_state [of env d bs Map.empty a] assms(1) by (simp add: accessor_new_def pass_state_def)
  ultimately show ?thesis
    using assms(4) kept by (auto simp: records_ordered_def accessor_with_inherited_def)
qed

text \<open>C25: the caches of an accessor do not show through.  Whatever was called before - reads that
  succeeded or failed, raw slices, iteration, snapshots - reading a path whose field has no
  condition gives the value or the error it gives on a fresh accessor, and leaves the same
  accessor.\<close>

theorem get_history_independent:
  assumes "accessor_steps env (accessor_new d bs) a"
    and "find_field d (fst (parse_path path)) = Ok f" "field_condition f = None"
  shows "get env path a = get env path (accessor_new d bs)"
proof -
  have s: "pass_state env (accessor_new d bs) a"
    using steps_pass_state assms(1) unfolding accessor_new_def .
  then have d: "definition_of a = d"
    by (auto simp: pass_state_def accessor_new_def accessor_with_inherited_def ensure_parsed_def ensure_parsed_with_def Let_def
        split: prod.split)
  have eq: "ensure_parsed env a = ensure_parsed env (accessor_new d bs)"
    using pass_state_parsed s unfolding accessor_new_def by blast
  have same: "get env path a' = get env path a''"
    if "ensure_parsed env a' = ensure_parsed env a''" "definition_of a' = d" "definition_of a'' = d" for a' a''
  proof -
    have f: "find_field (definition_of a') (fst (parse_path path)) = Ok f" "find_field (definition_of a'') (fst (parse_path path)) = Ok f"
      using that assms(2) by simp_all
    show ?thesis
      unfolding get_unconditional [OF f(1) assms(3)] get_unconditional [OF f(2) assms(3)] seq_def that(1) by (rule refl)
  qed
  show ?thesis by (rule same [OF eq d]) (simp add: accessor_new_def accessor_with_inherited_def)
qed

text \<open>A count and that many pairs of bytes.\<close>

definition pairs_definition :: "'f structure_definition" where
  "pairs_definition = Structure ''pairs'' Big
    [(field_new ''N'' (FUnsigned 1))\<lparr>field_size := SizeFixed 1\<rparr>,
     (field_new ''P'' FBytes)\<lparr>field_size := SizeFixed 2, field_repeat := Some (RepeatExpr (FieldRef ''N''))\<rparr>] [] [] []"

lemmas accessor_eval =
  ensure_parsed_def ensure_parsed_with_def accessor_new_def accessor_with_inherited_def parse_field_def parse_single_def
  parse_repeated_def Let_def field_new_def seeded_context_def pass_of_def noder_of_def simple_field_size_def
  eager_repeat_count_def pass_read_def read_field_value_def read_field_value_from_bytes_def add64_def U64_def slice_def
  insert_scalar_def add_value_to_context_def scalar_of_value_def read_unsigned_def read_uint_bytes_def finish_elements_def
  insert_array_node_def element_size_def put_place_def put_elements_def context_get_scalar_def fold_byte_def seq_def
  context_new_def insert_node_def consed_def upt_conv_Cons

lemma pairs_parsed:
  "repeat_offsets (snd (ensure_parsed env (accessor_new pairs_definition [2, 7, 8, 9, 10, 11]))) ''P'' = Some [(1, 2), (3, 2)]"
  "fst (ensure_parsed env (accessor_new pairs_definition [2, 7, 8, 9, 10, 11])) = Ok ()"
  by (simp_all add: pairs_definition_def accessor_eval)

lemma snapshot_parses: "accessor_steps env (accessor_new d bs) (snd (ensure_parsed env (accessor_new d bs)))"
proof (rule r_into_rtranclp, rule step_snapshot)
  have "snd (eval_snapshot env (accessor_new d bs)) = snd (ensure_parsed env (accessor_new d bs))"
    by (simp add: eval_snapshot_def eval_snapshot_with_def ensure_parsed_def split: prod.split outcome.split)
  then show "eval_snapshot env (accessor_new d bs) =
      (fst (eval_snapshot env (accessor_new d bs)), snd (ensure_parsed env (accessor_new d bs)))"
    by (metis prod.collapse)
qed

lemma elements_in_order_witness:
  "\<exists>os. repeat_offsets (snd (ensure_parsed (undefined :: unit reader)
      (accessor_new pairs_definition [2, 7, 8, 9, 10, 11]))) ''P'' = Some os \<and> length os = 2 \<and> in_order 0 6 os"
proof -
  have "in_order 0 (length [2, 7, 8, 9, 10, 11 :: byte]) [(1, 2), (3, 2)]"
    by (rule elements_in_order [where env = "undefined :: unit reader" and d = pairs_definition and name = "''P''"])
      (rule snapshot_parses, simp_all add: pairs_parsed U64_def,
        simp add: pairs_definition_def field_new_def field_fits_def U64_def)
  then show ?thesis using pairs_parsed(1) [of "undefined :: unit reader"] by simp
qed

lemma get_history_independent_witness:
  "\<exists>a. a \<noteq> accessor_new pairs_definition [2, 7, 8, 9, 10, 11] \<and>
    get (undefined :: unit reader) ''N'' a = get undefined ''N'' (accessor_new pairs_definition [2, 7, 8, 9, 10, 11])"
proof -
  let ?fresh = "accessor_new pairs_definition [2, 7, 8, 9, 10, 11] :: unit accessor" and ?env = "undefined :: unit reader"
  let ?a = "snd (ensure_parsed ?env ?fresh)"
  have "repeat_offsets ?a \<noteq> repeat_offsets ?fresh"
    using pairs_parsed(1) [of ?env] by (auto simp: accessor_new_def accessor_with_inherited_def)
  then have "?a \<noteq> ?fresh" by metis
  moreover have "get ?env ''N'' ?a = get ?env ''N'' ?fresh"
    by (rule get_history_independent [OF snapshot_parses, where f = "(field_new ''N'' (FUnsigned 1))\<lparr>field_size := SizeFixed 1\<rparr>"])
      (simp_all add: pairs_definition_def field_new_def find_field_def parse_path_def)
  ultimately show ?thesis by blast
qed

text \<open>A field whose condition names nothing, a field that is always there, and an unconditional
  one.\<close>

definition conditional_definition :: "'f structure_definition" where
  "conditional_definition = Structure ''conditional'' Big
    [(field_new ''A'' FBytes)\<lparr>field_size := SizeFixed 1, field_condition := Some (FieldRef ''X'')\<rparr>,
     (field_new ''B'' FBytes)\<lparr>field_size := SizeFixed 1, field_condition := Some (Literal (LBoolean True))\<rparr>,
     (field_new ''C'' FBytes)\<lparr>field_size := SizeFixed 1\<rparr>] [] [] []"

text \<open>With conditions, the order of the reads shows.  On a fresh accessor the context of a
  condition is built by a pass that reports the condition it cannot evaluate, so reading \<open>B\<close>
  fails; once \<open>C\<close> has been read, the context of the other pass, which takes a field with such a
  condition as present, is there, and reading \<open>B\<close> succeeds.\<close>

theorem conditional_get_depends_on_history:
  "fst (get env ''B'' (accessor_new conditional_definition [1, 2, 3])) = Err (ExpressionFailed ''A'') \<and>
   fst (get env ''C'' (accessor_new conditional_definition [1, 2, 3])) = Ok (val.VBytes [3]) \<and>
   fst (get env ''B'' (snd (get env ''C'' (accessor_new conditional_definition [1, 2, 3])))) = Ok (val.VBytes [2])"
proof -
  let ?fresh = "accessor_new conditional_definition [1, 2, 3]"
  show ?thesis
    by (simp add: conditional_definition_def accessor_eval get_def check_condition_def build_eval_context_def
        build_eval_context_with_def build_context_from_definition_def context_step_def strict_condition_def
        find_field_def parse_path_def calculate_field_offset_def accessor_read_def access_rest_def)
qed

end
