(* ===== verification/Structure_Depth.thy ===== *)
theory Structure_Depth
  imports Structure_Pass
begin

text \<open>
  Nested types and the call stack.  A type size or a structure node recurses into the types of
  its fields; the model bounds the recursion by \<open>depth\<close>.  For definitions whose types do not
  contain themselves the bound shows nowhere; for a type that contains itself every bound is
  too small, although the check of type references accepts it.
\<close>

section \<open>The bound is not looked at elsewhere\<close>

abbreviation at_depth :: "'f reader \<Rightarrow> nat \<Rightarrow> 'f reader" where
  "at_depth env n \<equiv> env\<lparr>depth := n\<rparr>"

lemma depth_irrelevant [simp]:
  "eval_count (at_depth env n) = eval_count env"
  "bind_params (at_depth env n) = bind_params env"
  "simple_field_size (at_depth env n) = simple_field_size env"
  "total_field_size (at_depth env n) = total_field_size env"
  "strict_condition (at_depth env n) = strict_condition env"
  "lenient_condition (at_depth env n) = lenient_condition env"
  "counts_zero (at_depth env n) = counts_zero env"
  "eager_repeat_count (at_depth env n) = eager_repeat_count env"
  "read_float (at_depth env n) = read_float env"
  by (simp_all add: fun_eq_iff eval_count_def bind_params_def simple_field_size_def total_field_size_def
      strict_condition_def lenient_condition_def counts_zero_def eager_repeat_count_def read_float_def
      split: size_spec.split option.split repeat_spec.split)

lemma depth_irrelevant_reads [simp]:
  "read_field_value_from_bytes (at_depth env n) = read_field_value_from_bytes env"
  "read_simple_value (at_depth env n) = read_simple_value env"
  "read_simple_nested_value (at_depth env n) = read_simple_nested_value env"
  "simple_total_field_size (at_depth env n) = simple_total_field_size env"
  by (simp_all add: fun_eq_iff read_field_value_from_bytes_def read_simple_value_def read_simple_nested_value_def
      simple_total_field_size_def split: field_type.split outcome.split)

lemma depth_irrelevant_steps [simp]:
  "read_field_value (at_depth env n) = read_field_value env"
  "nested_step (at_depth env n) = nested_step env"
  "lenient_step (at_depth env n) = lenient_step env"
  by (simp_all add: fun_eq_iff read_field_value_def nested_step_def lenient_step_def cong: if_cong)

lemma depth_irrelevant_sizes [simp]:
  "nested_type_size (at_depth env n) types bs k = nested_type_size env types bs k"
  "get_type_size (at_depth env n) types bs k = get_type_size env types bs k"
  by (induction k) (simp_all add: type_size_body_def [abs_def])

section \<open>Types that do not contain themselves\<close>

text \<open>A rank that goes down from a type to the types of its fields.\<close>

definition ranked :: "(string \<Rightarrow> nat) \<Rightarrow> (string \<times> 'f structure_definition) list \<Rightarrow> bool" where
  "ranked rk types \<longleftrightarrow>
    (\<forall>(name, d) \<in> set types. \<forall>f \<in> set (def_fields d). \<forall>inner. field_type f = FTypeRef inner \<longrightarrow> rk inner < rk name)"

lemma sizes_cong:
  assumes "\<And>u. field_type f = FTypeRef u \<Longrightarrow> ts u = ts' u"
  shows "simple_field_size env ts bs f = simple_field_size env ts' bs f"
    "total_field_size env ts f = total_field_size env ts' f"
    "nested_step env ts bs offset st f = nested_step env ts' bs offset st f"
    "lenient_step env ts bs offset st f = lenient_step env ts' bs offset st f"
proof -
  show simple: "simple_field_size env ts bs f = simple_field_size env ts' bs f"
    using assms by (simp add: fun_eq_iff simple_field_size_def split: size_spec.split field_type.split)
  show total: "total_field_size env ts f = total_field_size env ts' f"
  proof (cases "field_type f")
    case (FTypeRef u)
    then have eq: "elements_size ts u = elements_size ts' u" using assms by (simp add: fun_eq_iff elements_size_def)
    show ?thesis by (simp add: fun_eq_iff total_field_size_def FTypeRef eq split: option.split repeat_spec.split)
  qed (simp_all add: fun_eq_iff total_field_size_def split: option.split repeat_spec.split)
  show "nested_step env ts bs offset st f = nested_step env ts' bs offset st f"
    unfolding nested_step_def simple_total_field_size_def simple total by (rule refl)
  show "lenient_step env ts bs offset st f = lenient_step env ts' bs offset st f"
    unfolding lenient_step_def simple total by (rule refl)
qed

lemma type_size_body_cong:
  assumes "\<And>d f u. map_of types name = Some d \<Longrightarrow> f \<in> set (def_fields d) \<Longrightarrow> field_type f = FTypeRef u \<Longrightarrow> ts u = ts' u"
    and "\<And>f offset st. (\<And>u. field_type f = FTypeRef u \<Longrightarrow> ts u = ts' u) \<Longrightarrow> step ts bs offset st f = step ts' bs offset st f"
  shows "type_size_body prefix step env types bs ts name = type_size_body prefix step env types bs ts' name"
proof (cases "map_of types name")
  case (Some d)
  have "try_fold (step ts bs offset) st (def_fields d) = try_fold (step ts' bs offset) st (def_fields d)" for offset st
    by (rule try_fold_cong) (use assms Some in blast)
  then show ?thesis by (simp add: fun_eq_iff type_size_body_def Some)
qed (simp add: fun_eq_iff type_size_body_def)

lemma ranked_field:
  assumes "ranked rk types" "map_of types name = Some d" "f \<in> set (def_fields d)" "field_type f = FTypeRef u"
  shows "rk u < rk name"
proof -
  have "(name, d) \<in> set types" using assms(2) by (rule map_of_SomeD)
  then show ?thesis using assms(1,3,4) unfolding ranked_def by fast
qed

lemma nested_type_size_depth:
  assumes "ranked rk types" "rk name < m" "rk name < n"
  shows "nested_type_size env types bs m name = nested_type_size env types bs n name"
  using assms(2,3)
proof (induction m arbitrary: n name)
  case (Suc m)
  then obtain n' where n: "n = Suc n'" by (cases n) simp_all
  show ?case unfolding n nested_type_size.simps
  proof (rule type_size_body_cong)
    show "nested_type_size env types bs m u = nested_type_size env types bs n' u"
      if "map_of types name = Some d" "f \<in> set (def_fields d)" "field_type f = FTypeRef u" for d f u
    proof (rule Suc.IH)
      show "rk u < m" "rk u < n'" using ranked_field [OF assms(1) that] Suc.prems n by linarith+
    qed
  qed (rule sizes_cong(3))
qed simp

lemma get_type_size_depth:
  assumes "ranked rk types" "rk name < m" "rk name < n"
  shows "get_type_size env types bs m name = get_type_size env types bs n name"
  using assms(2,3)
proof (induction m arbitrary: n name)
  case (Suc m)
  then obtain n' where n: "n = Suc n'" by (cases n) simp_all
  show ?case unfolding n get_type_size.simps
  proof (rule type_size_body_cong)
    show "get_type_size env types bs m u = get_type_size env types bs n' u"
      if "map_of types name = Some d" "f \<in> set (def_fields d)" "field_type f = FTypeRef u" for d f u
    proof (rule Suc.IH)
      show "rk u < m" "rk u < n'" using ranked_field [OF assms(1) that] Suc.prems n by linarith+
    qed
  qed (rule sizes_cong(4))
qed simp

section \<open>The pass at two depths\<close>

text \<open>Two passes over the same data that agree on what the field may name.\<close>

definition agree_on :: "'f pass \<Rightarrow> 'f pass \<Rightarrow> 'f field_definition \<Rightarrow> bool" where
  "agree_on p p' f \<longleftrightarrow> (\<exists>n. reader_of p' = at_depth (reader_of p) n) \<and>
    pass_definition p' = pass_definition p \<and> pass_data p' = pass_data p \<and>
    (\<forall>u. field_type f = FTypeRef u \<longrightarrow>
      strict_size p' u = strict_size p u \<and> lenient_size p' u = lenient_size p u \<and> struct_noder p' u = struct_noder p u)"

text \<open>A value of a field is no array, and a structure only of the type the field names.\<close>

definition value_of :: "'f field_definition \<Rightarrow> 'f val \<Rightarrow> bool" where
  "value_of f v \<longleftrightarrow> (case v of VArray _ \<Rightarrow> False | VStruct _ u \<Rightarrow> field_type f = FTypeRef u | _ \<Rightarrow> True)"

lemma pass_read_value: "pass_read p f offset n = Ok v \<Longrightarrow> value_of f v"
  by (cases "field_type f")
    (auto simp: pass_read_def read_field_value_def read_field_value_from_bytes_def value_of_def outcome_simps split: if_splits)

lemma caught_Some: "caught m = Ok (Some v) \<longleftrightarrow> m = Ok v"
  by (cases m) auto

lemma agree_read:
  assumes "agree_on p p' f"
  shows "pass_read p' f = pass_read p f"
  using assms by (auto simp: agree_on_def pass_read_def)

lemma agree_element_size:
  assumes "agree_on p p' f"
  shows "element_size p' f = element_size p f"
  using assms by (auto simp: agree_on_def element_size_def fun_eq_iff split: field_type.split)

lemma agree_counted:
  assumes "agree_on p p' f"
  shows "counted_elements p' f n c is offset = counted_elements p f n c is offset"
  using assms agree_read [OF assms] agree_element_size [OF assms]
  by (induction "is" arbitrary: offset) (auto simp: agree_on_def cong: if_cong)

lemma agree_until:
  assumes "agree_on p p' f"
  shows "until_elements p' f n cond fuel c i offset = until_elements p f n cond fuel c i offset"
  using assms agree_read [OF assms] agree_element_size [OF assms]
  by (induction fuel arbitrary: c i offset) (auto simp: agree_on_def cong: if_cong)

lemma agree_eos:
  assumes "agree_on p p' f"
  shows "eos_elements p' f n c fuel offset = eos_elements p f n c fuel offset"
  using assms agree_read [OF assms] agree_element_size [OF assms]
  by (induction fuel arbitrary: offset) (auto simp: agree_on_def cong: if_cong)

lemma counted_values:
  "counted_elements p f n c is offset = Ok (os, vs, e) \<Longrightarrow> v \<in> set vs \<Longrightarrow> value_of f v"
proof (induction "is" arbitrary: offset os vs e)
  case (Cons i "is")
  then show ?case
    by (fastforce simp: outcome_simps consed_def caught_Some split: if_splits option.splits prod.splits dest: pass_read_value)
qed simp

lemma until_values:
  "until_elements p f n cond fuel c i offset = Ok (c', os, vs, e) \<Longrightarrow> v \<in> set vs \<Longrightarrow> value_of f v"
proof (induction fuel arbitrary: c i offset os vs e)
  case (Suc fuel)
  then show ?case
    by (fastforce simp: outcome_simps consed_def Let_def split: if_splits prod.splits dest: pass_read_value)
qed simp

lemma eos_values:
  "eos_elements p f n c fuel offset = Ok (os, vs, e) \<Longrightarrow> v \<in> set vs \<Longrightarrow> value_of f v"
proof (induction fuel arbitrary: offset os vs e)
  case (Suc fuel)
  then show ?case
    by (fastforce simp: outcome_simps consed_def caught_Some split: if_splits option.splits prod.splits dest: pass_read_value)
qed simp

lemma agree_nodes:
  assumes "agree_on p p' f" "\<And>v. v \<in> set vs \<Longrightarrow> value_of f v"
  shows "values_to_nodes (struct_noder p') inh vs = values_to_nodes (struct_noder p) inh vs"
  using assms(2)
proof (induction vs)
  case (Cons v vs)
  have "value_to_node (struct_noder p') inh v = value_to_node (struct_noder p) inh v"
    using Cons.prems [of v] assms(1) by (cases v) (auto simp: value_of_def agree_on_def)
  then show ?case using Cons by simp
qed simp

lemma agree_finish:
  assumes "agree_on p p' f" "\<And>v. v \<in> set (fst (snd es)) \<Longrightarrow> value_of f v"
  shows "finish_elements p' f c es = finish_elements p f c es"
proof -
  obtain os vs e where es: "es = (os, vs, e)" by (cases es)
  have "insert_array_node p' f vs c = insert_array_node p f vs c"
    unfolding insert_array_node_def using agree_nodes [OF assms(1), of vs] assms(2) es by simp
  then show ?thesis by (simp add: finish_elements_def es)
qed

lemma seq_lift_cong:
  assumes "\<And>a. r = Ok a \<Longrightarrow> f a = g a"
  shows "seq (lift_outcome r) f s = seq (lift_outcome r) g s"
  using assms by (cases r) simp_all

lemma agree_repeated:
  assumes "agree_on p p' f"
  shows "parse_repeated p' f repeat n s = parse_repeated p f repeat n s"
proof -
  have p: "eager_repeat_count (reader_of p') = eager_repeat_count (reader_of p)" "room (reader_of p') = room (reader_of p)"
    "pass_data p' = pass_data p"
    using assms by (auto simp: agree_on_def)
  note loops = agree_counted [OF assms] agree_until [OF assms] agree_eos [OF assms] p
  show ?thesis
  proof (cases repeat)
    case (RepeatCount count)
    show ?thesis unfolding parse_repeated_def RepeatCount Let_def repeat_spec.case loops
      by (rule seq_lift_cong) (auto intro!: agree_finish [OF assms] dest: counted_values)
  next
    case (RepeatExpr e)
    show ?thesis unfolding parse_repeated_def RepeatExpr Let_def repeat_spec.case loops
      by (rule seq_lift_cong) (auto simp: outcome_simps intro!: agree_finish [OF assms] dest: counted_values)
  next
    case (RepeatUntil cond)
    show ?thesis unfolding parse_repeated_def RepeatUntil Let_def repeat_spec.case loops
      by (rule seq_lift_cong) (auto intro!: agree_finish [OF assms] dest: until_values)
  next
    case RepeatEos
    show ?thesis unfolding parse_repeated_def RepeatEos Let_def repeat_spec.case loops
      by (rule seq_lift_cong) (auto intro!: agree_finish [OF assms] dest: eos_values simp del: eos_elements.simps)
  qed
qed

lemma agree_single:
  assumes "agree_on p p' f"
  shows "parse_single p' f n s = parse_single p f n s"
proof -
  have data: "pass_data p' = pass_data p" using assms by (simp add: agree_on_def)
  have node: "value_to_node (struct_noder p') inh v = value_to_node (struct_noder p) inh v" if "value_of f v" for inh v
    using that assms by (cases v) (auto simp: value_of_def agree_on_def)
  have read: "and_then (caught (pass_read p f o' n)) (g (value_to_node (struct_noder p'))) =
      and_then (caught (pass_read p f o' n)) (g (value_to_node (struct_noder p)))"
    if g: "\<And>h h' v. (\<And>inh v. value_of f v \<Longrightarrow> h inh v = h' inh v) \<Longrightarrow> value_of f v \<Longrightarrow> g h (Some v) = g h' (Some v)"
      "\<And>h h'. g h None = g h' None"
    for o' and g :: "((string \<Rightarrow> 'a node option) \<Rightarrow> 'a val \<Rightarrow> ('a node option, access_error) outcome) \<Rightarrow> 'a val option \<Rightarrow> ('a eval_context, access_error) outcome"
  proof (cases "pass_read p f o' n")
    case (Ok v)
    then show ?thesis using g(1) [OF node pass_read_value] by simp
  next
    case (Err e)
    then show ?thesis using g(2) by simp
  qed simp
  show ?thesis unfolding parse_single_def agree_read [OF assms] Let_def data
    apply (subst read [where g = "\<lambda>h v. case v of
               None \<Rightarrow> Ok (context_of s)
             | Some (VStruct bs name) \<Rightarrow>
                 map_ok (\<lambda>nd. case nd of Some nd \<Rightarrow> insert_node (field_id f) nd (context_of s) | None \<Rightarrow> context_of s)
                   (h (context_snapshot (context_of s)) (VStruct bs name))
             | Some v \<Rightarrow> Ok (add_value_to_context (field_id f) v (context_of s))"])
      apply (auto split: val.split) [2]
    by (rule refl)
qed

lemma agree_field:
  assumes "agree_on p p' f"
  shows "parse_field p' f s = parse_field p f s"
proof -
  have p: "std (reader_of p') = std (reader_of p)" "eager_repeat_count (reader_of p') = eager_repeat_count (reader_of p)"
    "pass_data p' = pass_data p" "simple_field_size (reader_of p') = simple_field_size (reader_of p)"
    using assms by (auto simp: agree_on_def)
  have sz: "simple_field_size env (strict_size p') bs f = simple_field_size env (strict_size p) bs f" for env bs
    by (rule sizes_cong) (use assms in \<open>auto simp: agree_on_def\<close>)
  have r: "parse_repeated p' f = parse_repeated p f" "parse_single p' f = parse_single p f"
    using agree_repeated [OF assms] agree_single [OF assms] by (simp_all add: fun_eq_iff)
  show ?thesis unfolding parse_field_def Let_def p sz r by (rule refl)
qed

lemma agree_fields:
  assumes "\<And>f. f \<in> set fs \<Longrightarrow> agree_on p p' f"
  shows "parse_fields p' fs = parse_fields p fs"
  using assms
proof (induction fs)
  case (Cons f fs)
  have "parse_field p' f = parse_field p f" by (rule ext) (rule agree_field, rule Cons.prems, simp)
  moreover have "parse_fields p' fs = parse_fields p fs" by (rule Cons.IH) (rule Cons.prems, simp)
  ultimately show ?case by (simp only: parse_fields.simps)
qed simp

section \<open>An accessor at two depths\<close>

text \<open>Sizes of types and nodes of structures do not differ between two bounds above the ranks.\<close>

definition pass_pair :: "'f reader \<Rightarrow> nat \<Rightarrow> 'f struct_noder \<Rightarrow> 'f struct_noder \<Rightarrow> 'f accessor \<Rightarrow> bool" where
  "pass_pair env n snap snap' a \<longleftrightarrow>
    (\<forall>f \<in> set (def_fields (definition_of a)). agree_on (pass_of env snap a) (pass_of (at_depth env n) snap' a) f)"

lemma pass_pair_kept:
  assumes "pass_pair env n snap snap' a" "definition_of b = definition_of a" "data_of b = data_of a"
  shows "pass_pair env n snap snap' b"
  using assms by (simp add: pass_pair_def pass_of_def)

lemma ensure_parsed_pair:
  assumes "pass_pair env n snap snap' a"
  shows "ensure_parsed_with (at_depth env n) snap' a = ensure_parsed_with env snap a"
proof -
  have "parse_fields (pass_of (at_depth env n) snap' a) (def_fields (definition_of a)) =
      parse_fields (pass_of env snap a) (def_fields (definition_of a))"
    by (rule agree_fields) (use assms in \<open>simp add: pass_pair_def\<close>)
  then show ?thesis by (simp only: ensure_parsed_with_def)
qed

lemma agree_context_step:
  assumes "agree_on p p' f"
  shows "context_step p' st f = context_step p st f"
proof -
  obtain n where r: "reader_of p' = at_depth (reader_of p) n" using assms by (auto simp: agree_on_def)
  have p: "pass_data p' = pass_data p" using assms by (simp add: agree_on_def)
  have sz: "simple_field_size env (strict_size p') bs f = simple_field_size env (strict_size p) bs f"
    "simple_total_field_size env (strict_size p') bs f = simple_total_field_size env (strict_size p) bs f" for env bs
  proof -
    have u: "strict_size p' u = strict_size p u" if "field_type f = FTypeRef u" for u
      using that assms by (simp add: agree_on_def)
    show "simple_field_size env (strict_size p') bs f = simple_field_size env (strict_size p) bs f"
      by (rule sizes_cong) (rule u)
    then show "simple_total_field_size env (strict_size p') bs f = simple_total_field_size env (strict_size p) bs f"
      unfolding simple_total_field_size_def [abs_def] using sizes_cong(2) [OF u] by simp
  qed
  show ?thesis unfolding context_step_def agree_read [OF assms] p sz r depth_irrelevant depth_irrelevant_reads by (rule refl)
qed

lemma build_context_pair:
  assumes "pass_pair env n snap snap' a"
  shows "build_eval_context_with (at_depth env n) snap' a = build_eval_context_with env snap a"
proof -
  let ?p = "pass_of env snap a" and ?p' = "pass_of (at_depth env n) snap' a"
  have d: "pass_definition ?p' = definition_of a" "pass_definition ?p = definition_of a" by (simp_all add: pass_of_def)
  have "try_fold (context_step ?p') st (takeWhile P (def_fields (definition_of a))) =
      try_fold (context_step ?p) st (takeWhile P (def_fields (definition_of a)))" for st P
    by (rule try_fold_cong, rule agree_context_step)
      (use assms in \<open>auto simp: pass_pair_def dest: set_takeWhileD\<close>)
  then have "build_context_from_definition ?p' stop inh = build_context_from_definition ?p stop inh" for stop inh
    by (simp only: build_context_from_definition_def d)
  then show ?thesis by (simp only: build_eval_context_with_def)
qed

lemma ensure_parsed_with_frame:
  assumes "ensure_parsed_with env snap a = (r, a')"
  shows "definition_of a' = definition_of a" "data_of a' = data_of a" "inherited a' = inherited a"
  using assms by (auto simp: ensure_parsed_with_def Let_def split: if_splits prod.splits)

lemma eval_snapshot_pair:
  assumes "pass_pair env n snap snap' a"
  shows "eval_snapshot_with (at_depth env n) snap' a = eval_snapshot_with env snap a"
proof -
  obtain r a' where e: "ensure_parsed_with env snap a = (r, a')" by (cases "ensure_parsed_with env snap a")
  have "pass_pair env n snap snap' a'"
    by (rule pass_pair_kept [OF assms]) (rule ensure_parsed_with_frame [OF e])+
  then show ?thesis
    by (simp only: eval_snapshot_with_def ensure_parsed_pair [OF assms] e prod.case build_context_pair)
qed

lemma ranked_pair:
  assumes "ranked rk (def_types (definition_of a))" "\<And>u. rk u < depth env" "\<And>u. rk u < n"
    and "\<And>f u. f \<in> set (def_fields (definition_of a)) \<Longrightarrow> field_type f = FTypeRef u \<Longrightarrow> snap' u = snap u"
  shows "pass_pair env n snap snap' a"
proof -
  have "nested_type_size env types bs n u = nested_type_size env types bs (depth env) u"
    "get_type_size env types bs n u = get_type_size env types bs (depth env) u"
    if "types = def_types (definition_of a)" for types bs u
    using nested_type_size_depth [OF assms(1) assms(3,2)] get_type_size_depth [OF assms(1) assms(3,2)] that by simp_all
  then show ?thesis
    using assms(4) by (auto simp: pass_pair_def agree_on_def pass_of_def strict_size_def lenient_size_def)
qed

lemma with_types_parts [simp]: "def_fields (with_types ts d) = def_fields d" "def_types (with_types ts d) = ts"
  by (cases d; simp)+

lemma struct_node_body_depth:
  assumes "ranked rk types" "\<And>u. rk u < depth env" "\<And>u. rk u < e"
    and "\<And>u. rk u < rk name \<Longrightarrow> snap' u = snap u"
  shows "struct_node_body (at_depth env e) types snap' name = struct_node_body env types snap name"
proof (cases "map_of types name")
  case (Some nested)
  have "eval_snapshot_with (at_depth env e) snap' (accessor_with_inherited (with_types types nested) bs inh) =
      eval_snapshot_with env snap (accessor_with_inherited (with_types types nested) bs inh)" for bs inh
  proof (rule eval_snapshot_pair, rule ranked_pair)
    show "ranked rk (def_types (definition_of (accessor_with_inherited (with_types types nested) bs inh)))"
      using assms(1) by (simp add: accessor_with_inherited_def)
    fix f u
    assume f: "f \<in> set (def_fields (definition_of (accessor_with_inherited (with_types types nested) bs inh)))"
      and u: "field_type f = FTypeRef u"
    have "rk u < rk name"
      by (rule ranked_field [OF assms(1) Some _ u]) (use f in \<open>simp add: accessor_with_inherited_def\<close>)
    then show "snap' u = snap u" by (rule assms(4))
  qed (rule assms(2,3))+
  then show ?thesis by (simp add: fun_eq_iff struct_node_body_def Some Let_def)
qed (simp add: fun_eq_iff struct_node_body_def)

lemma struct_node_depth:
  assumes "ranked rk types" "\<And>u. rk u < depth env" "\<And>u. rk u < e" "rk name < m" "rk name < n"
  shows "struct_node (at_depth env e) types n name = struct_node env types m name"
  using assms(4,5)
proof (induction m arbitrary: n name)
  case (Suc m)
  then obtain n' where n: "n = Suc n'" by (cases n) simp_all
  have "struct_node (at_depth env e) types n' u = struct_node env types m u" if "rk u < rk name" for u
    using that Suc.prems n by (intro Suc.IH) simp_all
  then show ?case unfolding n struct_node.simps by (rule struct_node_body_depth [OF assms(1-3)])
qed simp

lemma accessor_pair:
  assumes "ranked rk (def_types (definition_of a))" "\<And>u. rk u < depth env" "\<And>u. rk u < n"
  shows "pass_pair env n (noder_of env a) (noder_of (at_depth env n) a) a"
  by (rule ranked_pair [OF assms]) (simp add: noder_of_def struct_node_depth [OF assms(1-3)] assms(2,3))

lemma accessor_calls_depth:
  assumes "ranked rk (def_types (definition_of a))" "\<And>u. rk u < depth env" "\<And>u. rk u < n"
  shows "ensure_parsed (at_depth env n) a = ensure_parsed env a"
    "build_eval_context (at_depth env n) a = build_eval_context env a"
    "calculate_field_offset (at_depth env n) name a = calculate_field_offset env name a"
    "check_condition (at_depth env n) a path f = check_condition env a path f"
proof -
  note pair = accessor_pair [of rk a env n, OF assms]
  show e: "ensure_parsed (at_depth env n) a = ensure_parsed env a"
    unfolding ensure_parsed_def by (rule ensure_parsed_pair [OF pair])
  show b: "build_eval_context (at_depth env n) a = build_eval_context env a"
    unfolding build_eval_context_def by (rule build_context_pair [OF pair])
  show "calculate_field_offset (at_depth env n) name a = calculate_field_offset env name a"
    by (simp add: calculate_field_offset_def seq_def e split: option.split)
  show "check_condition (at_depth env n) a path f = check_condition env a path f"
    by (simp add: check_condition_def b split: option.split)
qed

lemma depth_irrelevant_field [simp]: "nested_field (at_depth env n) = nested_field env"
proof -
  have v: "nested_field_value (at_depth env n) = nested_field_value env"
    by (simp add: fun_eq_iff nested_field_value_def split: field_type.split)
  show ?thesis unfolding nested_field_def [abs_def] v by (rule refl)
qed

lemma depth_irrelevant_nested: "access_nested (at_depth env n) types v path = access_nested env types v path"
proof (induction env types v path rule: access_nested.induct)
  case (1 env types v path)
  show ?case
  proof (cases v)
    case (VStruct bs type_name)
    show ?thesis
    proof (cases "map_of types type_name")
      case (Some nested)
      show ?thesis
      proof (cases "snd (snd (parse_path path))")
        case (Some rest)
        have "access_nested (at_depth env n) types w rest = access_nested env types w rest"
          for w by (rule 1 [OF VStruct Some])
        then show ?thesis
          using VStruct Some \<open>map_of types type_name = Some nested\<close> by simp
      qed (use VStruct Some in simp)
    qed (use VStruct in simp)
  qed simp_all
qed

lemma depth_irrelevant_access [simp]:
  "accessor_read (at_depth env n) = accessor_read env"
  "access_rest (at_depth env n) = access_rest env"
  "get_elements (at_depth env n) = get_elements env"
proof -
  show r: "accessor_read (at_depth env n) = accessor_read env" by (simp add: fun_eq_iff accessor_read_def)
  show n: "access_rest (at_depth env n) = access_rest env"
    unfolding fun_eq_iff access_rest_def depth_irrelevant_nested by simp
  show "get_elements (at_depth env n) = get_elements env" unfolding fun_eq_iff get_elements_def r n by simp
qed

lemma get_field_size_depth:
  assumes "ranked rk (def_types (definition_of a))" "\<And>u. rk u < depth env" "\<And>u. rk u < n"
  shows "get_field_size (at_depth env n) a f offset = get_field_size env a f offset"
proof -
  have "get_type_size env (def_types (definition_of a)) bs n u = get_type_size env (def_types (definition_of a)) bs (depth env) u" for bs u
    by (rule get_type_size_depth [OF assms(1,3,2)])
  then have "simple_field_size env (get_type_size env (def_types (definition_of a)) bs n) =
      simple_field_size env (get_type_size env (def_types (definition_of a)) bs (depth env))" for bs
    by presburger
  then show ?thesis unfolding get_field_size_def accessor_calls_depth(2) [of rk a env n, OF assms] by simp
qed

lemma get_unrecorded_depth:
  assumes "ranked rk (def_types (definition_of a))" "\<And>u. rk u < depth env" "\<And>u. rk u < n"
  shows "get_unrecorded (at_depth env n) a f name repeat index rest place = get_unrecorded env a f name repeat index rest place"
proof -
  note calls = accessor_calls_depth [of rk a env n, OF assms] get_field_size_depth [of rk a env n, OF assms]
  have stops: "element_stops (at_depth env n) a = element_stops env a"
    by (simp add: fun_eq_iff element_stops_def calls)
  have count: "count_until (at_depth env n) a f name cond fuel k offset = count_until env a f name cond fuel k offset"
    for cond fuel k offset
    by (induction fuel arbitrary: k offset) (simp_all add: calls stops cong: if_cong)
  have elements: "read_elements (at_depth env n) a f name repeat is offset = read_elements env a f name repeat is offset" for "is" offset
    by (induction "is" arbitrary: offset) (simp_all add: calls stops cong: if_cong repeat_spec.case_cong)
  show ?thesis
    by (simp add: get_unrecorded_def get_actual_repeat_count_def calls count elements split: option.split repeat_spec.split)
qed

lemma get_depth:
  assumes "ranked rk (def_types (definition_of a))" "\<And>u. rk u < depth env" "\<And>u. rk u < n"
  shows "get (at_depth env n) path a = get env path a"
proof -
  note calls = accessor_calls_depth [of rk _ env n, OF _ assms(2,3)]
  obtain name index rest where path: "parse_path path = (name, index, rest)" by (cases "parse_path path")
  show ?thesis
  proof (cases "find_field (definition_of a) name")
    case (Ok f)
    have step: "seq (ensure_parsed (at_depth env n)) (g (at_depth env n)) a = seq (ensure_parsed env) (g env) a"
      if "\<And>a'. definition_of a' = definition_of a \<Longrightarrow> g (at_depth env n) () a' = g env () a'" for g :: "'a reader \<Rightarrow> unit \<Rightarrow> ('a accessor, 'a val, access_error) call"
    proof -
      obtain r a' where e: "ensure_parsed env a = (r, a')" by (cases "ensure_parsed env a")
      have "definition_of a' = definition_of a" using e ensure_parsed_with_frame by (metis ensure_parsed_def)
      then show ?thesis using that calls(1) [OF assms(1)] e by (cases r) (simp_all add: seq_def)
    qed
    have offset: "seq (calculate_field_offset (at_depth env n) name) (g (at_depth env n)) a' = seq (calculate_field_offset env name) (g env) a'"
      if "definition_of a' = definition_of a" "\<And>place b. definition_of b = definition_of a \<Longrightarrow> g (at_depth env n) place b = g env place b"
      for a' and g :: "'a reader \<Rightarrow> nat \<times> nat \<Rightarrow> ('a accessor, 'a val, access_error) call"
    proof -
      obtain r b where e: "calculate_field_offset env name a' = (r, b)" by (cases "calculate_field_offset env name a'")
      have "definition_of b = definition_of a'"
      proof (cases "offset_cache a' name")
        case None
        obtain r1 b1 where e1: "ensure_parsed env a' = (r1, b1)" by (cases "ensure_parsed env a'")
        have "definition_of b1 = definition_of a'" using e1 ensure_parsed_with_frame by (metis ensure_parsed_def)
        then show ?thesis using e None e1 by (cases r1) (auto simp: calculate_field_offset_def seq_def)
      qed (use e in \<open>simp add: calculate_field_offset_def\<close>)
      then show ?thesis using that calls(3) [of a' name] e assms(1) by (cases r) (simp_all add: seq_def)
    qed
    define g where "g env = (\<lambda>(_ :: unit) a. case field_repeat f of
          Some repeat \<Rightarrow>
            (case repeat_offsets a name of
              Some offsets \<Rightarrow> (get_elements env a f path index rest offsets, a)
            | None \<Rightarrow>
                seq (calculate_field_offset env name) (\<lambda>place a.
                  (get_unrecorded env a f name repeat index rest place, a)) a)
        | None \<Rightarrow>
            seq (calculate_field_offset env name) (\<lambda>(offset, n) a.
              (and_then (accessor_read env a f offset n) (\<lambda>v. access_rest env a v rest), a)) a)" for env :: "'a reader"
    have "g (at_depth env n) () b = g env () b" if b: "definition_of b = definition_of a" for b
    proof -
      note unrecorded = get_unrecorded_depth [of rk _ env n, OF _ assms(2,3)]
      have "seq (calculate_field_offset (at_depth env n) name) (\<lambda>place a. (get_unrecorded (at_depth env n) a f name repeat index rest place, a)) b =
          seq (calculate_field_offset env name) (\<lambda>place a. (get_unrecorded env a f name repeat index rest place, a)) b" for repeat
        by (rule offset [where g = "\<lambda>env place a. (get_unrecorded env a f name repeat index rest place, a)", OF b])
          (simp add: unrecorded assms(1))
      moreover have "seq (calculate_field_offset (at_depth env n) name) (\<lambda>(offset, n) a.
            (and_then (accessor_read env a f offset n) (\<lambda>v. access_rest env a v rest), a)) b =
          seq (calculate_field_offset env name) (\<lambda>(offset, n) a.
            (and_then (accessor_read env a f offset n) (\<lambda>v. access_rest env a v rest), a)) b"
        by (rule offset [where g = "\<lambda>env (offset, n) a. (and_then (accessor_read env a f offset n) (\<lambda>v. access_rest env a v rest), a)", OF b,
            simplified depth_irrelevant_access]) (rule refl)
      ultimately show ?thesis by (simp add: g_def split: option.split)
    qed
    then have body: "seq (ensure_parsed (at_depth env n)) (g (at_depth env n)) a = seq (ensure_parsed env) (g env) a" by (rule step)
    have get: "get env path a = seq (lift_outcome (check_condition env a path f)) (\<lambda>_. seq (ensure_parsed env) (g env)) a" for env
    proof -
      have f: "lift_outcome (find_field (definition_of a) name) a = (Ok f, a)" by (simp add: Ok)
      show ?thesis unfolding get_def path prod.case g_def by (subst seq_Ok [where m = "lift_outcome (find_field (definition_of a) name)", OF f]) (rule refl)
    qed
    show ?thesis unfolding get accessor_calls_depth(4) [of rk a env n, OF assms]
      by (cases "check_condition env a path f") (simp_all add: body)
  qed (simp_all add: get_def path)
qed

section \<open>The recursion without a bound\<close>

text \<open>The code has no bound: its functions call themselves on the types of the fields.  Where no
  type contains itself, that recursion has one solution, the bounded functions.\<close>

lemma at_own_depth: "at_depth env (depth env) = env" by simp

lemma type_size_body_ranked:
  assumes "ranked rk types" "\<And>u. rk u < rk name \<Longrightarrow> ts u = ts' u"
    and "\<And>ts ts' f offset st. (\<And>u. field_type f = FTypeRef u \<Longrightarrow> ts u = ts' u) \<Longrightarrow> step ts bs offset st f = step ts' bs offset st f"
  shows "type_size_body prefix step env types bs ts name = type_size_body prefix step env types bs ts' name"
proof (rule type_size_body_cong)
  show "ts u = ts' u" if "map_of types name = Some d" "f \<in> set (def_fields d)" "field_type f = FTypeRef u" for d f u
    using ranked_field [OF assms(1) that] by (rule assms(2))
qed (rule assms(3))

lemma solution_unique:
  fixes rk :: "string \<Rightarrow> nat"
  assumes "\<And>ts ts' name. (\<And>u. rk u < rk name \<Longrightarrow> ts u = ts' u) \<Longrightarrow> body ts name = body ts' name"
    and "ts' = body ts'"
  shows "ts = body ts \<longleftrightarrow> ts = ts'"
proof
  assume ts: "ts = body ts"
  have "ts name = ts' name" for name
  proof (induction "rk name" arbitrary: name rule: less_induct)
    case less
    have "ts name = body ts name" using ts by (rule fun_cong)
    also have "\<dots> = body ts' name" by (rule assms(1)) (rule less)
    also have "\<dots> = ts' name" using assms(2) by (rule fun_cong [symmetric])
    finally show ?case .
  qed
  then show "ts = ts'" by (rule ext)
qed (use assms(2) in simp)

lemma nested_type_size_solves:
  assumes "ranked rk types" "\<And>u. rk u < n"
  shows "ts = type_size_body ''type:'' (nested_step env) env types bs ts \<longleftrightarrow> ts = nested_type_size env types bs n"
proof (rule solution_unique)
  show "type_size_body ''type:'' (nested_step env) env types bs ts name = type_size_body ''type:'' (nested_step env) env types bs ts' name"
    if "\<And>u. rk u < rk name \<Longrightarrow> ts u = ts' u" for ts ts' name
    by (rule type_size_body_ranked [OF assms(1) that sizes_cong(3)])
  have "nested_type_size env types bs n name = nested_type_size env types bs (Suc n) name" for name
    by (rule nested_type_size_depth [OF assms(1)]) (simp_all add: assms(2) less_SucI)
  then show "nested_type_size env types bs n = type_size_body ''type:'' (nested_step env) env types bs (nested_type_size env types bs n)"
    by (simp add: fun_eq_iff)
qed

lemma get_type_size_solves:
  assumes "ranked rk types" "\<And>u. rk u < n"
  shows "ts = type_size_body [] (lenient_step env) env types bs ts \<longleftrightarrow> ts = get_type_size env types bs n"
proof (rule solution_unique)
  show "type_size_body [] (lenient_step env) env types bs ts name = type_size_body [] (lenient_step env) env types bs ts' name"
    if "\<And>u. rk u < rk name \<Longrightarrow> ts u = ts' u" for ts ts' name
    by (rule type_size_body_ranked [OF assms(1) that sizes_cong(4)])
  have "get_type_size env types bs n name = get_type_size env types bs (Suc n) name" for name
    by (rule get_type_size_depth [OF assms(1)]) (simp_all add: assms(2) less_SucI)
  then show "get_type_size env types bs n = type_size_body [] (lenient_step env) env types bs (get_type_size env types bs n)"
    by (simp add: fun_eq_iff)
qed

lemma struct_node_solves:
  assumes "ranked rk types" "\<And>u. rk u < depth env"
  shows "snap = struct_node_body env types snap \<longleftrightarrow> snap = struct_node env types (depth env)"
proof (rule solution_unique)
  note body = struct_node_body_depth [OF assms assms(2), unfolded at_own_depth]
  show "struct_node_body env types snap name = struct_node_body env types snap' name"
    if "\<And>u. rk u < rk name \<Longrightarrow> snap u = snap' u" for snap snap' name
    by (rule body) (rule that)
  have "struct_node env types (depth env) name = struct_node env types (Suc (depth env)) name" for name
    using struct_node_depth [OF assms assms(2), of name "Suc (depth env)" "depth env"] assms(2) [of name]
    by (simp add: at_own_depth)
  then show "struct_node env types (depth env) = struct_node_body env types (struct_node env types (depth env))"
    by (simp add: fun_eq_iff)
qed

section \<open>Properties\<close>

text \<open>C26: the recursion over nested types ends and never runs out of stack.  When no type
  contains itself (a rank goes down from each type to the types of its fields), the recursive
  equations of the code, which have no bound, have exactly one solution each, for the sizes of the
  pass, for the sizes of \<open>get\<close> and for the nodes of structures, and it is the bounded function at
  any bound above the ranks: the value at the bound is never used.  Reading any path of any accessor
  then gives one result, errors and caches included, at every such bound: the stack a reader
  needs is bounded by the definition and not by the data.\<close>

theorem nesting_bounded:
  assumes "ranked rk (def_types (definition_of a))" "\<And>u. rk u < m" "\<And>u. rk u < n"
  shows "(ts = type_size_body ''type:'' (nested_step env) env (def_types (definition_of a)) bs ts \<longleftrightarrow>
      ts = nested_type_size env (def_types (definition_of a)) bs n) \<and>
    (ls = type_size_body [] (lenient_step env) env (def_types (definition_of a)) bs ls \<longleftrightarrow>
      ls = get_type_size env (def_types (definition_of a)) bs n) \<and>
    (snap = struct_node_body (at_depth env n) (def_types (definition_of a)) snap \<longleftrightarrow>
      snap = noder_of (at_depth env n) a) \<and>
    get (at_depth env m) path a = get (at_depth env n) path a"
proof (intro conjI)
  have "get (at_depth (at_depth env m) n) path a = get (at_depth env m) path a"
    by (rule get_depth [where rk = rk]) (simp_all add: assms)
  then show "get (at_depth env m) path a = get (at_depth env n) path a" by simp
  have "snap = struct_node_body (at_depth env n) (def_types (definition_of a)) snap \<longleftrightarrow>
      snap = struct_node (at_depth env n) (def_types (definition_of a)) (depth (at_depth env n))"
    by (rule struct_node_solves [OF assms(1)]) (simp add: assms(3))
  then show "snap = struct_node_body (at_depth env n) (def_types (definition_of a)) snap \<longleftrightarrow> snap = noder_of (at_depth env n) a"
    by (simp add: noder_of_def)
qed (rule nested_type_size_solves [OF assms(1,3)] get_type_size_solves [OF assms(1,3)])+

text \<open>A header of two types, one inside the other.\<close>

definition nested_definition :: "'f structure_definition" where
  "nested_definition = Structure ''nested'' Big [field_new ''H'' (FTypeRef ''head'')]
    [(''head'', Structure ''head'' Big [(field_new ''B'' (FTypeRef ''body''))] [] [] []),
     (''body'', Structure ''body'' Big [(field_new ''V'' (FUnsigned 1))] [] [] [])] [] []"

lemma U64_not_one: "U64 \<noteq> Suc 0" by (simp add: U64_def)

lemma nested_head_size:
  "nested_type_size env (def_types nested_definition) [7] 2 ''head'' [] c 0 = Ok 1"
  by (simp add: nested_definition_def eval_nat_numeral type_size_body_def bind_params_def bind_type_params_def nested_step_def
      strict_condition_def counts_zero_def simple_field_size_def simple_total_field_size_def total_field_size_def
      field_new_def read_into_context_def read_simple_value_def add64_def slice_def U64_not_one)

lemma nesting_bounded_witness:
  "\<forall>env :: unit reader.
    get (at_depth env 2) ''H'' (accessor_new nested_definition [7]) =
      get (at_depth env 1000) ''H'' (accessor_new nested_definition [7]) \<and>
    nested_type_size env (def_types nested_definition) [7] 1000 ''head'' [] context_new 0 = Ok 1"
  (is "\<forall>env. ?get env \<and> ?size env")
proof
  fix env :: "unit reader"
  let ?a = "accessor_new nested_definition [7] :: unit accessor"
  let ?rk = "\<lambda>u. if u = ''head'' then 1 else 0 :: nat"
  have a: "definition_of ?a = nested_definition" by (simp add: accessor_new_def accessor_with_inherited_def)
  have rk: "ranked ?rk (def_types (definition_of ?a))"
    unfolding a by (simp add: nested_definition_def ranked_def field_new_def)
  note bounded = nesting_bounded [OF rk, where env = env]
  have "nested_type_size env (def_types (definition_of ?a)) [7] 1000 = nested_type_size env (def_types (definition_of ?a)) [7] 2"
  proof (rule iffD1 [OF conjunct1 [OF bounded [of 1000 2]]])
    show "nested_type_size env (def_types (definition_of ?a)) [7] 1000 = type_size_body ''type:'' (nested_step env) env
        (def_types (definition_of ?a)) [7] (nested_type_size env (def_types (definition_of ?a)) [7] 1000)"
      by (rule iffD2 [OF conjunct1 [OF bounded [of 2 1000]]]) simp_all
  qed simp_all
  then have "?size env" unfolding a by (simp only: nested_head_size)
  moreover have "?get env" by (rule conjunct2 [OF conjunct2 [OF conjunct2 [OF bounded]]]) simp_all
  ultimately show "?get env \<and> ?size env" by blast
qed

text \<open>A type that contains itself passes the check of type references, and its size overflows
  every stack.\<close>

definition looping_definition :: "'f structure_definition" where
  "looping_definition = Structure ''looping'' Big [field_new ''X'' (FTypeRef ''t'')]
    [(''t'', Structure ''t'' Big [(field_new ''Y'' (FTypeRef ''t''))] [] [] [])] [] []"

lemma looping_size: "nested_type_size env (def_types looping_definition) bs k ''t'' [] c offset = Panic"
proof (induction k arbitrary: c offset)
  case (Suc k)
  then show ?case
    by (simp add: looping_definition_def type_size_body_def bind_params_def bind_type_params_def nested_step_def
        strict_condition_def counts_zero_def simple_field_size_def field_new_def)
qed simp

lemma parse_field_panics:
  assumes "field_condition f = None" "field_repeat f = None"
    "\<And>c offset. simple_field_size (reader_of p) (strict_size p) (pass_data p) f c offset = Panic"
  shows "parse_field p f s = (Panic, s)"
  using assms by (simp add: parse_field_def Let_def eager_repeat_count_def seq_def)

lemma looping_overflows:
  fixes env :: "'f reader" and bs :: "byte list"
  defines "fresh \<equiv> accessor_new looping_definition bs :: 'f accessor"
  shows "validate_type_references (looping_definition :: 'f structure_definition) = Ok () \<and>
    fst (ensure_parsed env fresh) = Panic"
proof
  show "validate_type_references (looping_definition :: 'f structure_definition) = Ok ()"
    by (simp add: validate_type_references_def looping_definition_def check_field_ref_def field_new_def)
  let ?p = "pass_of env (noder_of env fresh) fresh"
  have "strict_size ?p ''t'' [] c offset = Panic" for c offset
    using looping_size by (simp add: strict_size_def pass_of_def fresh_def accessor_new_def accessor_with_inherited_def)
  then have "parse_field ?p (field_new ''X'' (FTypeRef ''t'')) s = (Panic, s)" for s
    by (intro parse_field_panics) (simp_all add: simple_field_size_def field_new_def)
  moreover have "def_fields (definition_of fresh) = [field_new ''X'' (FTypeRef ''t'')]"
    by (simp add: fresh_def accessor_new_def accessor_with_inherited_def looping_definition_def)
  ultimately have "parse_fields ?p (def_fields (definition_of fresh)) s = (Panic, s)" for s
    by simp
  moreover have "\<not> parsed fresh" by (simp add: fresh_def accessor_new_def accessor_with_inherited_def)
  ultimately show "fst (ensure_parsed env fresh) = Panic"
    by (simp only: ensure_parsed_def ensure_parsed_with_def Let_def if_False prod.case fst_conv)
qed

end
