(* ===== verification/Structure_Values.thy ===== *)
theory Structure_Values
  imports Structure_Depth
begin

text \<open>
  The values a structure accessor returns: each has the type its definition gives the path, its
  numbers fit their width, and its bytes are bytes of the data.  Then the loops of the pass: which
  of them always end.
\<close>

section \<open>Values of a type\<close>

text \<open>The contiguous parts of the data.\<close>

definition parts :: "byte list \<Rightarrow> byte list list" where
  "parts bs = concat (map (\<lambda>i. map (\<lambda>n. take n (drop i bs)) [0..<Suc (length bs)]) [0..<Suc (length bs)])"

fun typed_as :: "byte list \<Rightarrow> field_type \<Rightarrow> 'f val \<Rightarrow> bool" where
  "typed_as bs FString (val.VString s) \<longleftrightarrow> list_ex (\<lambda>xs. utf8_decode xs = Some s) (parts bs)"
| "typed_as bs FBytes (val.VBytes xs) \<longleftrightarrow> xs \<in> set (parts bs)"
| "typed_as bs (FUnsigned w) (VUnsigned n) \<longleftrightarrow> 1 \<le> w \<and> w \<le> 8 \<and> n < 256 ^ w"
| "typed_as bs (FSigned w) (VSigned k) \<longleftrightarrow> 1 \<le> w \<and> w \<le> 8 \<and> - (2 ^ (8 * w - 1)) \<le> k \<and> k < 2 ^ (8 * w - 1)"
| "typed_as bs (FFloat w) (val.VFloat x) \<longleftrightarrow> w = 4 \<or> w = 8"
| "typed_as bs (FTypeRef name) (VStruct xs u) \<longleftrightarrow> u = name \<and> xs \<in> set (parts bs)"
| "typed_as bs ty v \<longleftrightarrow> False"

lemma in_parts: "xs \<in> set (parts bs) \<longleftrightarrow> (\<exists>i n. xs = take n (drop i bs))"
proof
  assume "\<exists>i n. xs = take n (drop i bs)"
  then obtain i n where xs: "xs = take n (drop i bs)" by blast
  have "xs = take (min n (length bs)) (drop (min i (length bs)) bs)" unfolding xs by (simp add: min_def)
  then show "xs \<in> set (parts bs)" unfolding parts_def by (auto simp: less_Suc_eq_le intro!: bexI [of _ "min i (length bs)"])
next
  assume "xs \<in> set (parts bs)"
  then obtain i n where "xs = take n (drop i bs)" by (auto simp: parts_def simp del: upt_Suc)
  then show "\<exists>i n. xs = take n (drop i bs)" by blast
qed

lemma parts_trans: "xs \<in> set (parts ys) \<Longrightarrow> ys \<in> set (parts bs) \<Longrightarrow> xs \<in> set (parts bs)"
  unfolding in_parts by (auto simp: drop_take) (metis drop_drop take_take)

lemma slice_in_parts: "slice a b bs = Ok xs \<Longrightarrow> xs \<in> set (parts bs)"
  by (auto simp: slice_Ok in_parts)

lemma typed_in_part:
  assumes "xs \<in> set (parts bs)"
  shows "typed_as xs ty v \<Longrightarrow> typed_as bs ty v"
  using assms by (cases "(xs, ty, v)" rule: typed_as.cases) (auto simp: list_ex_iff intro: parts_trans)

lemma read_uint_typed:
  assumes "read_uint_bytes bs n e = Ok r"
  shows "1 \<le> n" "n \<le> 8" "unat r < 256 ^ n"
proof -
  show n: "1 \<le> n" "n \<le> 8" using assms by (auto simp: read_uint_bytes_def split: if_splits)
  have l: "n \<le> length bs" using assms by (auto simp: read_uint_bytes_def split: if_splits)
  have "bytes_val e (take n bs) < 256 ^ n" using bytes_val_lt [of e "take n bs"] l by (simp add: min_absorb2)
  moreover from this have "bytes_val e (take n bs) < 2 ^ 64"
    using n(2) power_increasing [of n 8 "256 :: nat"] by simp
  moreover have "r = of_nat (bytes_val e (take n bs))" using assms read_uint_bytes_ok [OF n l, of e] by simp
  ultimately show "unat r < 256 ^ n" by (simp add: unat_of_nat)
qed

lemma sint_signed_take_bit:
  fixes w :: "64 word"
  assumes "b < 63"
  shows "sint (signed_take_bit b w) = signed_take_bit b (sint w)"
proof (rule bit_eqI)
  fix i
  show "bit (sint (signed_take_bit b w)) i \<longleftrightarrow> bit (signed_take_bit b (sint w)) i"
    using assms by (cases "i < 64") (auto simp: bit_simps min_def dest: bit_imp_le_length)
qed

lemma read_signed_typed:
  assumes "read_signed bs n e = Ok r"
  shows "1 \<le> n" "n \<le> 8" "- (2 ^ (8 * n - 1)) \<le> sint r" "sint r < 2 ^ (8 * n - 1)"
proof -
  obtain raw where raw: "read_uint_bytes bs n e = Ok raw" "r = (if n * 8 = 64 then raw else sign_extend (n * 8) raw)"
    using assms by (auto simp: read_signed_eq outcome_simps)
  show n: "1 \<le> n" "n \<le> 8" using read_uint_typed [OF raw(1)] by simp_all
  have "- (2 ^ (8 * n - 1)) \<le> sint r \<and> sint r < 2 ^ (8 * n - 1)"
  proof (cases "n = 8")
    case True
    then show ?thesis using sint_ge [of r] sint_lt [of r] by simp
  next
    case False
    have "take_bit (8 * n) raw = raw"
      using read_uint_typed(3) [OF raw(1)] of_nat_mod_take_bit [of raw n] by simp
    then have "r = signed_take_bit (8 * n - 1) raw"
      using raw(2) False n sign_extend_take_bit [of "8 * n" raw] by (simp add: mult.commute)
    then have "sint r = signed_take_bit (8 * n - 1) (sint raw)"
      using n False by (simp add: sint_signed_take_bit)
    then show ?thesis by (simp add: signed_take_bit_int_less_exp signed_take_bit_int_greater_eq_minus_exp)
  qed
  then show "- (2 ^ (8 * n - 1)) \<le> sint r" "sint r < 2 ^ (8 * n - 1)" by blast+
qed

lemma read_float_typed: "read_float env bs n e = Ok x \<Longrightarrow> n = 4 \<or> n = 8"
  by (auto simp: read_float_def split: if_splits)

lemma decoded_in_parts: "xs \<in> set (parts bs) \<Longrightarrow> utf8_decode xs = Some s \<Longrightarrow> list_ex (\<lambda>xs. utf8_decode xs = Some s) (parts bs)"
  by (auto simp: list_ex_iff)

lemma whole_part [simp]: "bs \<in> set (parts bs)"
  unfolding in_parts by (rule exI [of _ 0], rule exI [of _ "length bs"]) simp

lemma read_bytes_typed:
  assumes "read_field_value_from_bytes env f bs e = Ok v"
  shows "typed_as bs (field_type f) v"
  using assms
  by (cases "field_type f")
    (auto simp: read_field_value_from_bytes_def outcome_simps read_unsigned_def split: if_splits
      simp del: One_nat_def dest: read_uint_typed read_signed_typed read_float_typed intro: decoded_in_parts [OF whole_part])

lemma nested_value_typed:
  assumes "nested_field_value env e f bs = Ok v"
  shows "typed_as bs (field_type f) v"
  using assms
  by (cases "field_type f")
    (auto simp: nested_field_value_def outcome_simps read_unsigned_def split: if_splits
      simp del: One_nat_def dest: read_uint_typed read_signed_typed read_float_typed intro: decoded_in_parts [OF whole_part])

lemma accessor_read_typed:
  assumes "accessor_read env a f offset n = Ok v"
  shows "typed_as (data_of a) (field_type f) v"
proof -
  obtain xs where "slice offset (add64 offset n) (data_of a) = (Ok xs :: (byte list, access_error) outcome)"
    "read_field_value_from_bytes env f xs (def_endian (definition_of a)) = Ok v"
    using assms by (auto simp: accessor_read_def read_field_value_def outcome_simps split: if_splits)
  then show ?thesis using typed_in_part [OF slice_in_parts] read_bytes_typed by blast
qed

section \<open>The type of a path\<close>

function path_type :: "(string \<times> 'f structure_definition) list \<Rightarrow> field_type \<Rightarrow> string \<Rightarrow> field_type option" where
  "path_type types ty path =
    (case ty of
      FTypeRef name \<Rightarrow>
        (case map_of types name of
          None \<Rightarrow> None
        | Some nested \<Rightarrow>
            (case find (\<lambda>f. field_id f = fst (parse_path path)) (def_fields nested) of
              None \<Rightarrow> None
            | Some f \<Rightarrow>
                (case snd (snd (parse_path path)) of
                  None \<Rightarrow> Some (field_type f)
                | Some rest \<Rightarrow> path_type types (field_type f) rest)))
    | _ \<Rightarrow> None)"
  by pat_completeness auto
termination
  by (relation "measure (\<lambda>(types, ty, path). length path)") (auto intro: parse_path_shorter simp: prod_eq_iff)

declare path_type.simps [simp del]

lemma access_nested_typed:
  assumes "access_nested env types v path = Ok w" "typed_as bs ty v"
  shows "\<exists>ty'. path_type types ty path = Some ty' \<and> typed_as bs ty' w"
  using assms
proof (induction env types v path arbitrary: ty rule: access_nested.induct)
  case (1 env types v path)
  obtain xs name where v: "v = VStruct xs name" and ty: "ty = FTypeRef name" and xs: "xs \<in> set (parts bs)"
    using 1(2,3) by (cases "(bs, ty, v)" rule: typed_as.cases) (auto simp: access_nested.simps)
  obtain nested u where n: "map_of types name = Some nested"
    and u: "nested_field env nested xs path (fst (parse_path path)) = Ok u"
    and rest: "(case snd (snd (parse_path path)) of None \<Rightarrow> Ok u | Some rest \<Rightarrow> access_nested env types u rest) = Ok w"
    using 1(2) by (auto simp: access_nested.simps [of env types v path] v outcome_simps split: option.splits)
  obtain f ys where f: "find (\<lambda>f. field_id f = fst (parse_path path)) (def_fields nested) = Some f"
    and ys: "ys \<in> set (parts xs)" "nested_field_value env (def_endian nested) f ys = Ok u"
    using u by (auto simp: nested_field_def find_field_def outcome_simps Let_def
        split: option.splits if_splits dest!: slice_in_parts)
  have t: "typed_as bs (field_type f) u"
    using typed_in_part [OF parts_trans [OF ys(1) xs]] nested_value_typed [OF ys(2)] by blast
  show ?case
  proof (cases "snd (snd (parse_path path))")
    case None
    then show ?thesis using rest t by (simp add: ty path_type.simps [of types "FTypeRef name" path] n f)
  next
    case (Some r)
    then have "access_nested env types u r = Ok w" using rest by simp
    then obtain ty' where "path_type types (field_type f) r = Some ty'" "typed_as bs ty' w"
      using 1(1) [OF v Some] t by blast
    then show ?thesis by (simp add: ty path_type.simps [of types "FTypeRef name" path] n f Some)
  qed
qed

lemma read_all_typed:
  assumes "try_map (\<lambda>(offset, n). accessor_read env a f offset n) os = Ok vs"
  shows "list_all (typed_as (data_of a) (field_type f)) vs"
  using assms by (induction os arbitrary: vs) (auto simp: outcome_simps intro: accessor_read_typed)

lemma read_elements_typed:
  assumes "read_elements env a f name repeat is offset = Ok vs"
  shows "list_all (typed_as (data_of a) (field_type f)) vs"
  using assms
  by (induction "is" arbitrary: offset vs)
    (auto simp: outcome_simps split: if_splits intro: accessor_read_typed)

section \<open>Reading a path\<close>

lemma seq_returns:
  assumes "seq m f s = (Ok b, s')"
  obtains a s1 where "m s = (Ok a, s1)" "f a s1 = (Ok b, s')"
  using assms by (cases "m s"; cases "fst (m s)") (auto simp: seq_def)

lemma ensure_parsed_frame:
  assumes "ensure_parsed env a = (r, b)"
  shows "definition_of b = definition_of a" "data_of b = data_of a"
  using ensure_parsed_with_frame [of env "noder_of env a" a r b] assms by (simp_all add: ensure_parsed_def)

lemma calculate_field_offset_frame:
  assumes "calculate_field_offset env name a = (Ok place, b)"
  shows "definition_of b = definition_of a \<and> data_of b = data_of a"
proof (cases "offset_cache a name")
  case None
  obtain u c where c: "ensure_parsed env a = (Ok u, c)" and b: "b = c"
    using assms by (auto simp: calculate_field_offset_def None elim: seq_returns)
  show ?thesis using ensure_parsed_frame [OF c] b by simp
qed (use assms in \<open>simp add: calculate_field_offset_def\<close>)

text \<open>What the definition says of a path.\<close>

definition path_typed :: "byte list \<Rightarrow> 'f structure_definition \<Rightarrow> string \<Rightarrow> 'f val \<Rightarrow> bool" where
  "path_typed bs d path v \<longleftrightarrow>
    (case find_field d (fst (parse_path path)) of
      Ok f \<Rightarrow>
        if field_repeat f \<noteq> None then (case v of VArray vs \<Rightarrow> list_all (typed_as bs (field_type f)) vs | _ \<Rightarrow> False)
        else (case snd (snd (parse_path path)) of
            None \<Rightarrow> typed_as bs (field_type f) v
          | Some rest \<Rightarrow>
              (case path_type (def_types d) (field_type f) rest of Some ty \<Rightarrow> typed_as bs ty v | None \<Rightarrow> False))
    | _ \<Rightarrow> False)"

lemma get_path_typed:
  assumes "get env path a = (Ok v, a')"
  shows "path_typed (data_of a) (definition_of a) path v"
proof -
  obtain name rest where path: "parse_path path = (name, None, rest)"
    by (cases "dropWhile (\<lambda>c. c \<noteq> CHR ''.'') path") (auto simp: parse_path_def)
  obtain f b where f: "find_field (definition_of a) name = Ok f" and b: "definition_of b = definition_of a" "data_of b = data_of a"
    and tail: "(case field_repeat f of
          Some repeat \<Rightarrow>
            (case repeat_offsets b name of
              Some offsets \<Rightarrow> (get_elements env b f path None rest offsets, b)
            | None \<Rightarrow>
                seq (calculate_field_offset env name) (\<lambda>place a.
                  (get_unrecorded env a f name repeat None rest place, a)) b)
        | None \<Rightarrow>
            seq (calculate_field_offset env name) (\<lambda>(offset, n) a.
              (and_then (accessor_read env a f offset n) (\<lambda>v. access_rest env a v rest), a)) b) = (Ok v, a')"
    using assms unfolding get_def path prod.case
    by (elim seq_returns) (auto dest: ensure_parsed_frame)
  show ?thesis
  proof (cases "field_repeat f")
    case None
    obtain offset n c where c: "calculate_field_offset env name b = (Ok (offset, n), c)"
      and v: "and_then (accessor_read env c f offset n) (\<lambda>v. access_rest env c v rest) = Ok v"
      using tail by (auto simp: None elim: seq_returns)
    have same: "definition_of c = definition_of a" "data_of c = data_of a"
      using calculate_field_offset_frame [OF c] b by simp_all
    obtain u where u: "accessor_read env c f offset n = Ok u" "access_rest env c u rest = Ok v"
      using v by (auto simp: outcome_simps)
    have t: "typed_as (data_of a) (field_type f) u" using accessor_read_typed [OF u(1)] same by simp
    show ?thesis
    proof (cases rest)
      case None
      then show ?thesis using u(2) t by (simp add: path_typed_def path f \<open>field_repeat f = None\<close> access_rest_def)
    next
      case (Some r)
      have "access_nested env (def_types (definition_of a)) u r = Ok v" using u(2) same by (simp add: Some access_rest_def)
      from access_nested_typed [OF this t] show ?thesis
        by (auto simp: path_typed_def path f None Some)
    qed
  next
    case (Some repeat)
    show ?thesis
    proof (cases "repeat_offsets b name")
      case None
      obtain place c where c: "calculate_field_offset env name b = (Ok place, c)"
        and v: "get_unrecorded env c f name repeat None rest place = Ok v"
        using tail by (auto simp: None Some elim: seq_returns)
      have same: "data_of c = data_of a" using calculate_field_offset_frame [OF c] b by simp
      show ?thesis
        using v same by (auto simp: get_unrecorded_def outcome_simps path_typed_def path f Some dest: read_elements_typed)
    next
      case (Some offsets)
      then show ?thesis
        using tail b \<open>field_repeat f = Some repeat\<close>
        by (auto simp: get_elements_def outcome_simps path_typed_def path f dest: read_all_typed)
    qed
  qed
qed

section \<open>Loops that end\<close>

text \<open>The condition that ends a loop, at an element with the value \<open>v\<close>.\<close>

definition ends_at :: "'f pass \<Rightarrow> 'f field_definition \<Rightarrow> 'f expression \<Rightarrow> 'f eval_context \<Rightarrow> nat \<Rightarrow> 'f val \<Rightarrow> bool" where
  "ends_at p f cond c i v \<longleftrightarrow>
    evaluate (std (reader_of p)) cond
      (add_value_to_context ''_'' v (with_index i (add_value_to_context (field_id f) v c))) = Ok (VBoolean True)"

text \<open>The context after some elements, and the offset behind them.\<close>

definition seen :: "'f field_definition \<Rightarrow> 'f eval_context \<Rightarrow> 'f val list \<Rightarrow> 'f eval_context" where
  "seen f c vs = foldl (\<lambda>c v. add_value_to_context (field_id f) v c) c vs"

definition behind :: "nat \<Rightarrow> (nat \<times> nat) list \<Rightarrow> nat" where
  "behind offset os = offset + sum_list (map snd os)"

text \<open>The loop passes over some elements, numbered from \<open>i\<close>: each starts behind the ones before it
  and has the size found there, fits, is read, and its value does not end the loop.\<close>

definition passed_over ::
    "'f pass \<Rightarrow> 'f field_definition \<Rightarrow> nat \<Rightarrow> 'f expression \<Rightarrow> 'f eval_context \<Rightarrow> nat \<Rightarrow> nat \<Rightarrow> (nat \<times> nat) list \<Rightarrow> 'f val list \<Rightarrow> bool" where
  "passed_over p f n cond c i offset os vs \<longleftrightarrow> length os = length vs \<and>
    (\<forall>j < length vs.
      fst (os ! j) = behind offset (take j os) \<and>
      element_size p f n (seen f c (take j vs)) (fst (os ! j)) = Ok (snd (os ! j)) \<and>
      fst (os ! j) + snd (os ! j) \<le> length (pass_data p) \<and>
      pass_read p f (fst (os ! j)) (snd (os ! j)) = Ok (vs ! j) \<and>
      \<not> ends_at p f cond (seen f c (take j vs)) (i + j) (vs ! j))"

lemma seen_parts [simp]: "seen f c [] = c" "seen f c (v # vs) = seen f (add_value_to_context (field_id f) v c) vs"
  by (simp_all add: seen_def)

lemma behind_parts [simp]: "behind offset [] = offset" "behind offset (q # os) = behind (offset + snd q) os"
  by (simp_all add: behind_def)

lemma passed_over_Nil [simp]: "passed_over p f n cond c i offset [] []"
  by (simp add: passed_over_def)







section \<open>Properties\<close>

text \<open>C27: reading is type safe.  Whatever was called before on an accessor of any definition, bytes
  and types, the value a path returns has the type the definition gives the path: a repeated field
  an array of values of its type, a single one a value of its type, a dotted path a value of the
  type its steps lead to.  Unsigned and signed numbers lie in the range of their width, which is 1
  to 8 bytes, floating-point numbers have 4 or 8 bytes, text is valid UTF-8 of the data, bytes and
  structures are contiguous parts of the data.\<close>

theorem get_typed:
  assumes "accessor_steps env (accessor_new d bs) a" "get env path a = (Ok v, a')"
  shows "path_typed bs d path v"
proof -
  have s: "pass_state env (accessor_new d bs) a"
    using steps_pass_state assms(1) unfolding accessor_new_def .
  obtain r b where b: "ensure_parsed env (accessor_new d bs) = (r, b)" by (cases "ensure_parsed env (accessor_new d bs)")
  have "definition_of a = d" "data_of a = bs"
    using s ensure_parsed_frame [OF b] b by (auto simp: pass_state_def accessor_new_def accessor_with_inherited_def)
  then show ?thesis using get_path_typed [OF assms(2)] by simp
qed

lemma get_typed_witness:
  "\<exists>a. get (undefined :: unit reader) ''P'' (accessor_new pairs_definition [2, 7, 8, 9, 10, 11]) =
      (Ok (VArray [val.VBytes [7, 8], val.VBytes [9, 10]]), a) \<and>
    path_typed [2, 7, 8, 9, 10, 11] (pairs_definition :: unit structure_definition) ''P''
      (VArray [val.VBytes [7, 8], val.VBytes [9, 10]])"
proof -
  let ?env = "undefined :: unit reader"
  let ?a = "accessor_new pairs_definition [2, 7, 8, 9, 10, 11] :: unit accessor"
  have g: "get ?env ''P'' ?a =
      (Ok (VArray [val.VBytes [7, 8], val.VBytes [9, 10]]), snd (get ?env ''P'' ?a))"
    by (simp add: prod_eq_iff pairs_definition_def accessor_eval get_def check_condition_def find_field_def parse_path_def
        accessor_read_def get_elements_def)
  have "path_typed [2, 7, 8, 9, 10, 11] pairs_definition ''P'' (VArray [val.VBytes [7, 8], val.VBytes [9, 10 :: byte]] :: unit val)"
    by (rule get_typed [OF rtranclp.rtrancl_refl g])
  then show ?thesis using g by blast
qed








text \<open>An element of no size never moves the loop: with a condition that never holds it takes
  whatever memory there is.\<close>

lemma until_loop_of_empty_elements:
  assumes "field_type f = FBytes" "offset \<le> length (pass_data p)" "length (pass_data p) < U64"
    and "\<And>c. evaluate (std (reader_of p)) cond c = Ok (VBoolean False)"
  shows "until_elements p f 0 cond capacity c i offset = Panic"
  using assms
  by (induction capacity arbitrary: c i)
    (simp_all add: element_size_def pass_read_def read_field_value_def read_field_value_from_bytes_def Let_def)

end
