(* ===== verification/Structure_Writer.thy ===== *)
theory Structure_Writer
  imports Structure_Values
begin

text \<open>
  The structure writer of \<open>src/src/parser/writer/\<close>: fields are written in the order of the
  definition, each encoded to its size; sizes, conditions and counts are evaluated over the
  values written so far.  \<open>encode.rs\<close> formats and pads single values, \<open>streaming.rs\<close> says which
  field comes next, \<open>mod.rs\<close> holds the writer.
\<close>

section \<open>Values to write\<close>

datatype 'f write_value =
    WString ustring
  | WBytes "byte list"
  | WInteger "64 word"
  | WUnsigned "64 word"
  | WFloat 'f
  | WArray "'f write_value list"

text \<open>What the writer uses of \<open>f64\<close>: expression arithmetic, printing, parsing, the whole part of
  the magnitude as \<open>u64\<close>, the magnitude, printing with a number of decimals, and the bit pattern
  at 4 or 8 bytes.\<close>

record 'f writer_ops =
  arith :: "'f std_ops"
  text_of_float :: "'f \<Rightarrow> ustring"
  float_of_text :: "ustring \<Rightarrow> 'f option"
  whole_part :: "'f \<Rightarrow> nat"
  magnitude_of :: "'f \<Rightarrow> 'f"
  fixed_text :: "nat \<Rightarrow> 'f \<Rightarrow> ustring"
  bits_of_float :: "nat \<Rightarrow> 'f \<Rightarrow> nat"

section \<open>Encoding one value\<close>

definition validate_encoding :: "byte list \<Rightarrow> encoding \<Rightarrow> string \<Rightarrow> bool \<Rightarrow> (unit, write_error) outcome" where
  "validate_encoding bs enc path strict =
    (let effective = (if \<not> strict then (case enc of EncBcsN \<Rightarrow> EncBcsA | EncBcsNPI \<Rightarrow> EncBcsA | other \<Rightarrow> other) else enc)
     in if \<not> enc_validate effective bs then Err (ValidationError path []) else Ok ())"

definition get_pad_char :: "'f field_definition \<Rightarrow> byte" where
  "get_pad_char f =
    (case field_pad f of Some b \<Rightarrow> b | None \<Rightarrow> (case field_encoding f of Some e \<Rightarrow> default_pad e | None \<Rightarrow> 0x20))"

text \<open>\<open>format!("{:0>w}")\<close>: zeros in front, up to \<open>w\<close> characters.\<close>

definition zero_fill :: "nat \<Rightarrow> ustring \<Rightarrow> ustring" where
  "zero_fill w s = replicate (w - length s) 0x30 @ s"

definition fitting :: "string \<Rightarrow> nat \<Rightarrow> nat \<Rightarrow> ustring \<Rightarrow> (ustring, write_error) outcome" where
  "fitting path size_limit actual formatted =
    (if length (utf8_encode formatted) > size_limit then Err (ValueTooLarge path size_limit actual) else Ok formatted)"

text \<open>A number behind its sign: with no room for the sign the width is below zero and formatting
  fails.\<close>

definition signed_fill :: "ustring \<Rightarrow> nat \<Rightarrow> ustring \<Rightarrow> (ustring, write_error) outcome" where
  "signed_fill sign w digits =
    (if w < length sign then Panic else Ok (sign @ zero_fill (w - length sign) digits))"

definition format_decimal :: "'f writer_ops \<Rightarrow> ustring \<Rightarrow> ustring \<Rightarrow> nat \<Rightarrow> string \<Rightarrow> nat \<Rightarrow> (ustring, write_error) outcome" where
  "format_decimal ops trimmed sign w path actual =
    and_then (ok_or (ValidationError path []) (float_of_text ops trimmed)) (\<lambda>x.
      (let digits = ascii (show_nat (whole_part ops x));
           available_for_decimals = w - (length sign + length digits + 1)
       in and_then
            (if available_for_decimals = 0 then signed_fill sign w digits
             else signed_fill sign w (fixed_text ops available_for_decimals (if sign = [] then x else magnitude_of ops x)))
            (fitting path w actual)))"

definition format_integer :: "ustring \<Rightarrow> ustring \<Rightarrow> nat \<Rightarrow> string \<Rightarrow> nat \<Rightarrow> (ustring, write_error) outcome" where
  "format_integer trimmed sign w path actual =
    and_then (ok_or (ValidationError path []) (parse_int64 trimmed)) (\<lambda>n.
      and_then
        (if n < 0 then signed_fill [0x2D] w (ascii (show_nat (nat (- n))))
         else if sign = [0x2B] then signed_fill [0x2B] w (ascii (show_nat (nat n)))
         else Ok (zero_fill w (ascii (show_nat (nat n)))))
        (fitting path w actual))"

definition format_numeric_to_fit :: "'f writer_ops \<Rightarrow> ustring \<Rightarrow> nat \<Rightarrow> encoding \<Rightarrow> string \<Rightarrow> (ustring, write_error) outcome" where
  "format_numeric_to_fit ops s w enc path =
    (if length (utf8_encode s) \<le> w then Ok s
     else if enc = EncBcsNPI then
       and_then (ok_or (ValidationError path []) (parse_text U64 (trim_text s))) (\<lambda>n.
         (let formatted = zero_fill w (ascii (show_nat n)) in fitting path w (length (utf8_encode formatted)) formatted))
     else
       (let trimmed = trim_text s;
            sign = (case trimmed of c # _ \<Rightarrow> if c = 0x2B \<or> c = 0x2D then [c] else [] | [] \<Rightarrow> []);
            magnitude = drop (length sign) trimmed
        in if 0x2E \<in> set magnitude then format_decimal ops trimmed sign w path (length (utf8_encode s))
           else format_integer trimmed sign w path (length (utf8_encode s))))"

definition encode_string ::
    "'f writer_ops \<Rightarrow> ustring \<Rightarrow> 'f field_definition \<Rightarrow> nat \<Rightarrow> string \<Rightarrow> bool \<Rightarrow> (byte list, write_error) outcome" where
  "encode_string ops s f w path strict =
    (let numeric = (case field_encoding f of Some EncBcsN \<Rightarrow> Some EncBcsN | Some EncBcsNPI \<Rightarrow> Some EncBcsNPI | _ \<Rightarrow> None)
     in and_then (case numeric of Some e \<Rightarrow> format_numeric_to_fit ops s w e path | None \<Rightarrow> Ok s) (\<lambda>formatted.
        (let bs = utf8_encode formatted
         in if length bs > w then Err (ValueTooLarge path w (length bs))
            else and_then (case field_encoding f of Some e \<Rightarrow> validate_encoding bs e path strict | None \<Rightarrow> Ok ()) (\<lambda>_.
              blit (if numeric \<noteq> None then w - length bs else 0) bs (replicate w (get_pad_char f))))))"

definition encode_float :: "'f writer_ops \<Rightarrow> 'f \<Rightarrow> nat \<Rightarrow> endian \<Rightarrow> string \<Rightarrow> (byte list, write_error) outcome" where
  "encode_float ops x n e path =
    (if n = 4 \<or> n = 8
     then Ok (case e of Big \<Rightarrow> be_bytes n (bits_of_float ops n x) | Little \<Rightarrow> le_bytes n (bits_of_float ops n x))
     else Err (ValidationError path []))"

definition encode_bytes :: "byte list \<Rightarrow> nat \<Rightarrow> string \<Rightarrow> (byte list, write_error) outcome" where
  "encode_bytes bs w path =
    (if length bs > w then Err (ValueTooLarge path w (length bs)) else blit 0 bs (replicate w 0))"

fun encode_value ::
    "'f writer_ops \<Rightarrow> 'f write_value \<Rightarrow> 'f field_definition \<Rightarrow> nat \<Rightarrow> endian \<Rightarrow> string \<Rightarrow> bool \<Rightarrow> (byte list, write_error) outcome" where
  "encode_value ops v f w e path strict =
    (case (field_type f, v) of
      (FString, WString s) \<Rightarrow> encode_string ops s f w path strict
    | (FString, WInteger n) \<Rightarrow> encode_string ops (ascii (show_i64 n)) f w path strict
    | (FString, WUnsigned n) \<Rightarrow> encode_string ops (ascii (show_nat (unat n))) f w path strict
    | (FString, WFloat x) \<Rightarrow> encode_string ops (text_of_float ops x) f w path strict
    | (FBytes, WBytes bs) \<Rightarrow> encode_bytes bs w path
    | (FBytes, WString s) \<Rightarrow> encode_bytes (utf8_encode s) w path
    | (FUnsigned k, WUnsigned n) \<Rightarrow> encode_unsigned n k e path
    | (FUnsigned k, WInteger n) \<Rightarrow> if sint n < 0 then Err (ValidationError path []) else encode_unsigned n k e path
    | (FSigned k, WInteger n) \<Rightarrow> encode_signed n k e path
    | (FSigned k, WUnsigned n) \<Rightarrow> if unat n \<ge> 2 ^ 63 then Err (ValidationError path []) else encode_signed n k e path
    | (FFloat k, WFloat x) \<Rightarrow> encode_float ops x k e path
    | (FTypeRef _, WBytes bs) \<Rightarrow> Ok bs
    | _ \<Rightarrow> Err (ConversionFailed path))"

text \<open>A field to the end of the data takes text or bytes as they are.\<close>

definition encode_eos_value :: "'f write_value \<Rightarrow> 'f field_definition \<Rightarrow> string \<Rightarrow> bool \<Rightarrow> (byte list, write_error) outcome" where
  "encode_eos_value v f path strict =
    (case v of
      WString s \<Rightarrow>
        and_then (case field_encoding f of Some e \<Rightarrow> validate_encoding (utf8_encode s) e path strict | None \<Rightarrow> Ok ()) (\<lambda>_.
          Ok (utf8_encode s))
    | WBytes bs \<Rightarrow> Ok bs
    | _ \<Rightarrow> Err (ConversionFailed path))"

section \<open>The next field\<close>

fun advance_past_false_conditions ::
    "'f writer_ops \<Rightarrow> 'f eval_context \<Rightarrow> 'f field_definition list \<Rightarrow> nat \<Rightarrow> (nat, write_error) outcome" where
  "advance_past_false_conditions ops c [] index = Ok index"
| "advance_past_false_conditions ops c (f # fs) index =
    (case field_condition f of
      None \<Rightarrow> Ok index
    | Some e \<Rightarrow>
        and_then (caught (evaluate (arith ops) e c)) (\<lambda>v.
          if v = Some (VBoolean False) then advance_past_false_conditions ops c fs (Suc index) else Ok index))"

definition get_expected_streaming_field :: "'f structure_definition \<Rightarrow> nat \<Rightarrow> ('f field_definition, write_error) outcome" where
  "get_expected_streaming_field d next = ok_or (ValidationError [] []) (get_at next (def_fields d))"

definition get_last_written_field :: "'f structure_definition \<Rightarrow> nat \<Rightarrow> string" where
  "get_last_written_field d next =
    (if next = 0 then ''start''
     else (case get_at (next - 1) (def_fields d) of Some f \<Rightarrow> field_id f | None \<Rightarrow> ''unknown''))"

definition write_count :: "'f writer_ops \<Rightarrow> string \<Rightarrow> 'f expression \<Rightarrow> 'f eval_context \<Rightarrow> (nat, write_error) outcome" where
  "write_count ops name e c =
    and_then (map_err_to (\<lambda>_. ValidationError name []) (evaluate (arith ops) e c)) (\<lambda>v. case v of
      VInteger n \<Rightarrow> if 0 \<le> sint n then Ok (nat (sint n)) else Err (ValidationError name [])
    | _ \<Rightarrow> Err (ValidationError name []))"

definition get_streaming_field_size :: "'f writer_ops \<Rightarrow> 'f field_definition \<Rightarrow> 'f eval_context \<Rightarrow> (nat, write_error) outcome" where
  "get_streaming_field_size ops f c =
    (case field_size f of
      SizeFixed n \<Rightarrow>
        if n = 0 then
          (case field_type f of
            FUnsigned w \<Rightarrow> Ok w
          | FSigned w \<Rightarrow> Ok w
          | FFloat w \<Rightarrow> Ok w
          | FTypeRef _ \<Rightarrow> Ok 0
          | _ \<Rightarrow> Err (ValidationError (field_id f) []))
        else Ok n
    | SizeExpr e \<Rightarrow> write_count ops (field_id f) e c
    | SizeEos \<Rightarrow> Ok 0)"

definition get_repeat_count :: "'f writer_ops \<Rightarrow> 'f repeat_spec \<Rightarrow> string \<Rightarrow> 'f eval_context \<Rightarrow> (nat, write_error) outcome" where
  "get_repeat_count ops repeat name c =
    (case repeat of
      RepeatCount n \<Rightarrow> Ok n
    | RepeatExpr e \<Rightarrow> write_count ops name e c
    | _ \<Rightarrow> Err (ValidationError name []))"

section \<open>The writer\<close>

record 'f structure_writer =
  writer_definition :: "'f structure_definition"
  buffer :: "byte list"
  position :: nat
  written :: "string set"
  written_nodes :: "string \<Rightarrow> 'f node option"
  next_field_index :: nat
  current_repeat_written :: nat
  eos_until_counts :: "string \<Rightarrow> nat option"
  strict_encoding :: bool
  writer_inherited :: "string \<Rightarrow> 'f node option"

definition writer_new :: "'f structure_definition \<Rightarrow> 'f structure_writer" where
  "writer_new d =
    \<lparr>writer_definition = d, buffer = [], position = 0, written = {}, written_nodes = Map.empty, next_field_index = 0,
     current_repeat_written = 0, eos_until_counts = Map.empty, strict_encoding = False, writer_inherited = Map.empty\<rparr>"

definition set_strict_encoding :: "bool \<Rightarrow> 'f structure_writer \<Rightarrow> 'f structure_writer" where
  "set_strict_encoding strict w = w\<lparr>strict_encoding := strict\<rparr>"

definition set_inherited_context :: "(string \<Rightarrow> 'f node option) \<Rightarrow> 'f structure_writer \<Rightarrow> 'f structure_writer" where
  "set_inherited_context inh w = w\<lparr>writer_inherited := inh\<rparr>"

definition set_node :: "string \<Rightarrow> 'f node \<Rightarrow> 'f structure_writer \<Rightarrow> 'f structure_writer" where
  "set_node name nd w = w\<lparr>written_nodes := (written_nodes w)(name \<mapsto> nd)\<rparr>"

text \<open>Constants first, then the enclosing scope, then what has been written.\<close>

definition writer_context :: "'f structure_writer \<Rightarrow> 'f eval_context" where
  "writer_context w =
    context_new\<lparr>ctx_root := map_of (def_consts (writer_definition w)) ++ writer_inherited w ++ written_nodes w\<rparr>"

definition writer_snapshot :: "'f structure_writer \<Rightarrow> string \<Rightarrow> 'f node option" where
  "writer_snapshot w = context_snapshot (writer_context w)"

definition writer_find_field :: "'f structure_writer \<Rightarrow> string \<Rightarrow> ('f field_definition, write_error) outcome" where
  "writer_find_field w name =
    ok_or (ValidationError name []) (find (\<lambda>f. field_id f = name) (def_fields (writer_definition w)))"

definition is_set :: "string \<Rightarrow> 'f structure_writer \<Rightarrow> bool" where
  "is_set name w \<longleftrightarrow> name \<in> written w"

definition is_field_active :: "'f writer_ops \<Rightarrow> 'f structure_writer \<Rightarrow> 'f field_definition \<Rightarrow> (bool, write_error) outcome" where
  "is_field_active ops w f =
    (case field_condition f of
      None \<Rightarrow> Ok True
    | Some e \<Rightarrow>
        and_then (map_err_to (\<lambda>_. ValidationError (field_id f) []) (evaluate (arith ops) e (writer_context w))) (\<lambda>v. case v of
          VBoolean b \<Rightarrow> Ok b
        | _ \<Rightarrow> Err (ValidationError (field_id f) [])))"

definition resolve_repeat_count ::
    "'f writer_ops \<Rightarrow> 'f structure_writer \<Rightarrow> 'f repeat_spec \<Rightarrow> string \<Rightarrow> 'f eval_context \<Rightarrow> (nat, write_error) outcome" where
  "resolve_repeat_count ops w repeat name c =
    (case repeat of
      RepeatEos \<Rightarrow> Ok (case eos_until_counts w name of Some n \<Rightarrow> n | None \<Rightarrow> 0)
    | RepeatUntil _ \<Rightarrow> Ok (case eos_until_counts w name of Some n \<Rightarrow> n | None \<Rightarrow> 0)
    | _ \<Rightarrow> get_repeat_count ops repeat name c)"

fun write_value_to_scalar :: "'f write_value \<Rightarrow> 'f eval_result option" where
  "write_value_to_scalar (WInteger n) = Some (VInteger n)"
| "write_value_to_scalar (WUnsigned n) = Some (VInteger n)"
| "write_value_to_scalar (WString s) = Some (eval_result.VString (context_text s))"
| "write_value_to_scalar (WFloat x) = Some (eval_result.VFloat x)"
| "write_value_to_scalar _ = None"

definition mark_written :: "string \<Rightarrow> 'f structure_writer \<Rightarrow> 'f structure_writer" where
  "mark_written name w = w\<lparr>written := insert name (written w), next_field_index := next_field_index w + 1\<rparr>"

definition put_encoded :: "string \<Rightarrow> 'f write_value \<Rightarrow> byte list \<Rightarrow> 'f structure_writer \<Rightarrow> 'f structure_writer" where
  "put_encoded name v bs w =
    w\<lparr>buffer := buffer w @ bs, position := add64 (position w) (length bs),
      written_nodes := (case write_value_to_scalar v of
          Some leaf \<Rightarrow> (written_nodes w)(name \<mapsto> Scalar leaf)
        | None \<Rightarrow> written_nodes w)\<rparr>"

text \<open>The elements of a repeated field are counted, the last one moves on to the next field.\<close>

definition advance_repeat ::
    "'f writer_ops \<Rightarrow> 'f eval_context \<Rightarrow> string \<Rightarrow> 'f field_definition \<Rightarrow> ('f structure_writer, unit, write_error) call" where
  "advance_repeat ops c name f = (\<lambda>w.
    (let w' = w\<lparr>current_repeat_written := current_repeat_written w + 1\<rparr>
     in case field_repeat f of
         None \<Rightarrow> (Ok (), w')
       | Some repeat \<Rightarrow>
           seq (lift_outcome (resolve_repeat_count ops w' repeat (field_id f) c)) (\<lambda>expected_count w.
             (Ok (), if expected_count \<le> current_repeat_written w
                     then (mark_written name w)\<lparr>current_repeat_written := 0\<rparr> else w)) w'))"

text \<open>The field that comes next, given the values written: the cursor stays there.\<close>

definition next_field :: "'f writer_ops \<Rightarrow> ('f structure_writer, 'f field_definition, write_error) call" where
  "next_field ops = (\<lambda>w.
    seq (lift_outcome (advance_past_false_conditions ops (writer_context w)
        (drop (next_field_index w) (def_fields (writer_definition w))) (next_field_index w)))
      (\<lambda>i w. (get_expected_streaming_field (writer_definition w) i, w\<lparr>next_field_index := i\<rparr>)) w)"

definition out_of_order :: "string \<Rightarrow> 'f structure_writer \<Rightarrow> write_error" where
  "out_of_order path w = OutOfOrder path (get_last_written_field (writer_definition w) (next_field_index w))"

definition write_streaming ::
    "'f writer_ops \<Rightarrow> string \<Rightarrow> nat option \<Rightarrow> 'f field_definition \<Rightarrow> 'f write_value \<Rightarrow> string \<Rightarrow>
      ('f structure_writer, unit, write_error) call" where
  "write_streaming ops name index f v path = (\<lambda>w.
    (let c = writer_context w
     in seq (next_field ops) (\<lambda>expected w.
          (let is_expected = (case index of
                Some i \<Rightarrow> field_id expected = name \<and> i = current_repeat_written w
              | None \<Rightarrow> field_id expected = name \<and> field_repeat expected = None)
           in if \<not> is_expected then (Err (out_of_order path w), w)
              else seq (lift_outcome (and_then (get_streaming_field_size ops f c) (\<lambda>n.
                    if field_size f = SizeEos then encode_eos_value v f path (strict_encoding w)
                    else encode_value ops v f n (def_endian (writer_definition w)) path (strict_encoding w))))
                (\<lambda>bs w.
                  (let w' = put_encoded name v bs w
                   in case index of
                       Some _ \<Rightarrow> advance_repeat ops c name f w'
                     | None \<Rightarrow> (Ok (), mark_written name w'))) w)) w))"

fun write_elements ::
    "'f writer_ops \<Rightarrow> string \<Rightarrow> 'f field_definition \<Rightarrow> nat \<Rightarrow> 'f write_value list \<Rightarrow> ('f structure_writer, unit, write_error) call" where
  "write_elements ops name f i [] = done_with ()"
| "write_elements ops name f i (v # vs) =
    seq (write_streaming ops name (Some i) f v (name @ ''_'' @ show_nat i)) (\<lambda>_. write_elements ops name f (Suc i) vs)"

definition write_array ::
    "'f writer_ops \<Rightarrow> string \<Rightarrow> 'f field_definition \<Rightarrow> 'f write_value list \<Rightarrow> ('f structure_writer, unit, write_error) call" where
  "write_array ops name f vs = (\<lambda>w.
    (let w' = (case field_repeat f of
          Some RepeatEos \<Rightarrow> w\<lparr>eos_until_counts := (eos_until_counts w)(name \<mapsto> length vs)\<rparr>
        | Some (RepeatUntil _) \<Rightarrow> w\<lparr>eos_until_counts := (eos_until_counts w)(name \<mapsto> length vs)\<rparr>
        | _ \<Rightarrow> w)
     in if vs = [] then
          seq (next_field ops) (\<lambda>expected w.
            if field_id expected \<noteq> name then (Err (out_of_order name w), w)
            else (Ok (), mark_written name w)) w'
        else write_elements ops name f 0 vs w'))"

definition set_value :: "'f writer_ops \<Rightarrow> string \<Rightarrow> 'f write_value \<Rightarrow> ('f structure_writer, unit, write_error) call" where
  "set_value ops path v = (\<lambda>w.
    seq (lift_outcome (writer_find_field w path)) (\<lambda>f.
      case v of
        WArray vs \<Rightarrow> if field_repeat f \<noteq> None then write_array ops path f vs else write_streaming ops path None f v path
      | _ \<Rightarrow> write_streaming ops path None f v path) w)"

text \<open>Every field without condition must have been written; a repeated one that repeats.\<close>

fun missing_fields :: "'f writer_ops \<Rightarrow> 'f structure_writer \<Rightarrow> 'f field_definition list \<Rightarrow> (unit, write_error) outcome" where
  "missing_fields ops w [] = Ok ()"
| "missing_fields ops w (f # fs) =
    (if field_condition f \<noteq> None then missing_fields ops w fs
     else and_then
       (case field_repeat f of
         Some repeat \<Rightarrow>
           and_then (resolve_repeat_count ops w repeat (field_id f) (writer_context w)) (\<lambda>expected_count.
             if 0 < expected_count \<and> field_id f \<notin> written w then Err (MissingRequired (field_id f)) else Ok ())
       | None \<Rightarrow> if field_id f \<notin> written w then Err (MissingRequired (field_id f)) else Ok ())
       (\<lambda>_. missing_fields ops w fs))"

definition finish_writer :: "'f writer_ops \<Rightarrow> 'f structure_writer \<Rightarrow> (byte list, write_error) outcome" where
  "finish_writer ops w = and_then (missing_fields ops w (def_fields (writer_definition w))) (\<lambda>_. Ok (buffer w))"

end
