(* ===== verification/Structure_Write_Read.thy ===== *)
theory Structure_Write_Read
  imports Structure_Writer
begin

text \<open>
  The writer and the accessor together: a record written field by field is read back, for
  definitions of single fields whose sizes are fixed or computed from the numbers before them.
\<close>

section \<open>Records of plain fields\<close>

definition is_number :: "'f field_definition \<Rightarrow> bool" where
  "is_number f \<longleftrightarrow> (case field_type f of FUnsigned _ \<Rightarrow> True | FSigned _ \<Rightarrow> True | _ \<Rightarrow> False)"

definition number_names :: "'f structure_definition \<Rightarrow> string set" where
  "number_names d = set (map field_id (filter is_number (def_fields d)))"

definition plain_field :: "string set \<Rightarrow> 'f field_definition \<Rightarrow> bool" where
  "plain_field numbers f \<longleftrightarrow> field_condition f = None \<and> field_repeat f = None \<and> field_type_args f = [] \<and>
    (case field_type f of
      FUnsigned w \<Rightarrow> field_size f = SizeFixed 0 \<or> field_size f = SizeFixed w
    | FSigned w \<Rightarrow> field_size f = SizeFixed 0 \<or> field_size f = SizeFixed w
    | FFloat w \<Rightarrow> field_size f = SizeFixed w
    | FTypeRef _ \<Rightarrow> False
    | _ \<Rightarrow> unat (get_pad_char f) < 128 \<and>
        (case field_size f of SizeFixed n \<Rightarrow> 0 < n | SizeExpr e \<Rightarrow> Expr_Eval.field_names e \<subseteq> numbers | SizeEos \<Rightarrow> False))"

definition plain_record :: "'f structure_definition \<Rightarrow> bool" where
  "plain_record d \<longleftrightarrow> distinct (map field_id (def_fields d)) \<and>
    list_all (\<lambda>f. CHR ''.'' \<notin> set (field_id f)) (def_fields d) \<and>
    list_all (plain_field (number_names d)) (def_fields d)"

section \<open>What the writer has done\<close>

definition leaf_added :: "string \<Rightarrow> 'f write_value \<Rightarrow> (string \<Rightarrow> 'f node option) \<Rightarrow> string \<Rightarrow> 'f node option" where
  "leaf_added name v m = (case write_value_to_scalar v of Some leaf \<Rightarrow> m(name \<mapsto> Scalar leaf) | None \<Rightarrow> m)"

fun encoded_all ::
    "'f writer_ops \<Rightarrow> bool \<Rightarrow> endian \<Rightarrow> (string \<Rightarrow> 'f node option) \<Rightarrow> ('f field_definition \<times> 'f write_value) list \<Rightarrow>
      (byte list list, write_error) outcome" where
  "encoded_all ops strict e m [] = Ok []"
| "encoded_all ops strict e m ((f, v) # rest) =
    and_then (get_streaming_field_size ops f (context_new\<lparr>ctx_root := m\<rparr>)) (\<lambda>n.
    and_then (encode_value ops v f n e (field_id f) strict) (\<lambda>bs.
      map_ok ((#) bs) (encoded_all ops strict e (leaf_added (field_id f) v m) rest)))"

fun set_all :: "'f writer_ops \<Rightarrow> (string \<times> 'f write_value) list \<Rightarrow> ('f structure_writer, unit, write_error) call" where
  "set_all ops [] = done_with ()"
| "set_all ops ((name, v) # rest) = seq (set_value ops name v) (\<lambda>_. set_all ops rest)"

definition write_record ::
    "'f writer_ops \<Rightarrow> bool \<Rightarrow> 'f structure_definition \<Rightarrow> (string \<times> 'f write_value) list \<Rightarrow> (byte list, write_error) outcome" where
  "write_record ops strict d vs =
    (case set_all ops vs (set_strict_encoding strict (writer_new d)) of
      (Ok _, w) \<Rightarrow> finish_writer ops w
    | (Err e, w) \<Rightarrow> Err e
    | (Panic, w) \<Rightarrow> Panic)"

lemma plain_fieldD:
  assumes "plain_record d" "f \<in> set (def_fields d)"
  shows "field_condition f = None" "field_repeat f = None" "plain_field (number_names d) f"
  using assms by (auto simp: plain_record_def list_all_iff plain_field_def)

lemma find_distinct:
  assumes "distinct (map g xs)" "x \<in> set xs"
  shows "find (\<lambda>y. g y = g x) xs = Some x"
  using assms by (induction xs) (auto simp: image_iff)

lemma next_field_plain:
  assumes "plain_record (writer_definition w)" "next_field ops w = (Ok f, w')"
  shows "w' = w" "next_field_index w < length (def_fields (writer_definition w))"
    "f = def_fields (writer_definition w) ! next_field_index w"
proof -
  let ?i = "next_field_index w" and ?fs = "def_fields (writer_definition w)"
  have "advance_past_false_conditions ops (writer_context w) (drop ?i ?fs) ?i = Ok ?i"
  proof (cases "?i < length ?fs")
    case True
    then have "drop ?i ?fs = ?fs ! ?i # drop (Suc ?i) ?fs" by (rule Cons_nth_drop_Suc [symmetric])
    then show ?thesis using plain_fieldD(1) [OF assms(1), of "?fs ! ?i"] True by simp
  qed simp
  then have e: "get_expected_streaming_field (writer_definition w) ?i = Ok f \<and> w' = w"
    using assms(2) by (auto simp: next_field_def)
  then show "w' = w" by blast
  show "?i < length ?fs" "f = ?fs ! ?i"
    using e by (auto simp: get_expected_streaming_field_def get_at_def outcome_simps split: if_splits)
qed

lemma set_plain:
  assumes plain: "plain_record (writer_definition w)" and call: "set_value ops name v w = (Ok u, w')"
  defines "f \<equiv> def_fields (writer_definition w) ! next_field_index w"
  shows "next_field_index w < length (def_fields (writer_definition w)) \<and> name = field_id f \<and>
    (\<exists>n bs. get_streaming_field_size ops f (writer_context w) = Ok n \<and>
      encode_value ops v f n (def_endian (writer_definition w)) name (strict_encoding w) = Ok bs \<and>
      w' = mark_written name (put_encoded name v bs w))"
proof -
  obtain g where g: "find (\<lambda>f. field_id f = name) (def_fields (writer_definition w)) = Some g"
    and written: "(case v of
        WArray vs \<Rightarrow> if field_repeat g \<noteq> None then write_array ops name g vs else write_streaming ops name None g v name
      | _ \<Rightarrow> write_streaming ops name None g v name) w = (Ok u, w')"
    using call by (auto simp: set_value_def writer_find_field_def outcome_simps elim!: seq_returns)
  have g_in: "g \<in> set (def_fields (writer_definition w))" "field_id g = name"
    using g by (auto simp: find_Some_iff)
  have "write_streaming ops name None g v name w = (Ok u, w')"
    using written plain_fieldD(2) [OF plain g_in(1)] by (cases v) simp_all
  then obtain ex w1 where ex: "next_field ops w = (Ok ex, w1)"
    and tail: "(if \<not> (field_id ex = name \<and> field_repeat ex = None) then (Err (out_of_order name w1), w1)
           else seq (lift_outcome (and_then (get_streaming_field_size ops g (writer_context w)) (\<lambda>n.
                    if field_size g = SizeEos then encode_eos_value v g name (strict_encoding w1)
                    else encode_value ops v g n (def_endian (writer_definition w1)) name (strict_encoding w1))))
                (\<lambda>bs w. (Ok (), mark_written name (put_encoded name v bs w))) w1) = (Ok u, w')"
    by (auto simp: write_streaming_def Let_def elim!: seq_returns cong: if_cong)
  note nf = next_field_plain [OF plain ex]
  have name: "field_id ex = name" using tail by (auto split: if_splits)
  have eq: "g = ex"
  proof -
    have "ex \<in> set (def_fields (writer_definition w))" using nf by simp
    then have "find (\<lambda>f. field_id f = name) (def_fields (writer_definition w)) = Some ex"
      using find_distinct [of field_id "def_fields (writer_definition w)" ex] plain name by (simp add: plain_record_def)
    then show ?thesis using g by simp
  qed
  have "field_size g \<noteq> SizeEos"
  proof
    assume "field_size g = SizeEos"
    then show False using plain_fieldD(3) [OF plain g_in(1)] by (simp add: plain_field_def split: field_type.splits)
  qed
  then obtain n bs where "get_streaming_field_size ops g (writer_context w) = Ok n"
    "encode_value ops v g n (def_endian (writer_definition w)) name (strict_encoding w) = Ok bs"
    "w' = mark_written name (put_encoded name v bs w)"
    using tail nf(1) by (auto split: if_splits simp: outcome_simps elim!: seq_returns simp del: encode_value.simps)
  then show ?thesis using nf eq name by (auto simp: f_def)
qed

lemma writer_context_put:
  "ctx_root (writer_context (mark_written name (put_encoded name v bs w))) = leaf_added name v (ctx_root (writer_context w))"
  by (simp add: writer_context_def mark_written_def put_encoded_def leaf_added_def split: option.split)

lemma writer_context_root: "context_new\<lparr>ctx_root := ctx_root (writer_context w)\<rparr> = writer_context w"
  by (simp add: writer_context_def)

lemma set_all_plain:
  assumes "plain_record (writer_definition w)" "set_all ops vs w = (Ok u, w')"
  shows "length vs \<le> length (drop (next_field_index w) (def_fields (writer_definition w))) \<and>
    map fst vs = map field_id (take (length vs) (drop (next_field_index w) (def_fields (writer_definition w)))) \<and>
    (\<exists>encs. encoded_all ops (strict_encoding w) (def_endian (writer_definition w)) (ctx_root (writer_context w))
        (zip (drop (next_field_index w) (def_fields (writer_definition w))) (map snd vs)) = Ok encs \<and>
      buffer w' = buffer w @ concat encs) \<and>
    written w' = written w \<union> set (map fst vs) \<and> writer_definition w' = writer_definition w"
  using assms
proof (induction vs arbitrary: w)
  case (Cons nv vs)
  obtain name v where nv: "nv = (name, v)" by (cases nv)
  let ?i = "next_field_index w" and ?fs = "def_fields (writer_definition w)"
  obtain u1 w1 where set1: "set_value ops name v w = (Ok u1, w1)" and rest: "set_all ops vs w1 = (Ok u, w')"
    using Cons.prems(2) by (auto simp: nv elim: seq_returns)
  obtain n bs where i: "?i < length ?fs" "name = field_id (?fs ! ?i)"
    and enc: "get_streaming_field_size ops (?fs ! ?i) (writer_context w) = Ok n"
      "encode_value ops v (?fs ! ?i) n (def_endian (writer_definition w)) name (strict_encoding w) = Ok bs"
    and w1: "w1 = mark_written name (put_encoded name v bs w)"
    using set_plain [OF Cons.prems(1) set1] by blast
  have same: "writer_definition w1 = writer_definition w" "next_field_index w1 = Suc ?i" "strict_encoding w1 = strict_encoding w"
    "buffer w1 = buffer w @ bs" "written w1 = insert name (written w)"
    by (simp_all add: w1 mark_written_def put_encoded_def)
  have drop: "drop ?i ?fs = ?fs ! ?i # drop (Suc ?i) ?fs" using i(1) by (rule Cons_nth_drop_Suc [symmetric])
  obtain encs where IH: "length vs \<le> length (drop (Suc ?i) ?fs)"
    "map fst vs = map field_id (take (length vs) (drop (Suc ?i) ?fs))"
    "encoded_all ops (strict_encoding w) (def_endian (writer_definition w)) (leaf_added name v (ctx_root (writer_context w)))
        (zip (drop (Suc ?i) ?fs) (map snd vs)) = Ok encs"
    "buffer w' = buffer w @ bs @ concat encs" "written w' = insert name (written w) \<union> set (map fst vs)"
    "writer_definition w' = writer_definition w"
    using Cons.IH [OF _ rest] Cons.prems(1) unfolding same by (auto simp: w1 writer_context_put)
  have "encoded_all ops (strict_encoding w) (def_endian (writer_definition w)) (ctx_root (writer_context w))
      (zip (drop ?i ?fs) (map snd (nv # vs))) = Ok (bs # encs)"
    unfolding drop using enc IH(3) i(2) by (simp add: nv writer_context_root del: encode_value.simps)
  then show ?case using IH i drop by (auto simp: nv)
qed simp

lemma missing_fields_written:
  assumes "missing_fields ops w fs = Ok ()" "\<And>f. f \<in> set fs \<Longrightarrow> field_condition f = None \<and> field_repeat f = None"
  shows "field_id ` set fs \<subseteq> written w"
  using assms by (induction fs) (auto split: if_splits)

lemma write_record_plain:
  assumes "plain_record d" "write_record ops strict d vs = Ok bs"
  shows "map fst vs = map field_id (def_fields d) \<and>
    (\<exists>encs. encoded_all ops strict (def_endian d) (map_of (def_consts d)) (zip (def_fields d) (map snd vs)) = Ok encs \<and>
      bs = concat encs)"
proof -
  let ?w = "set_strict_encoding strict (writer_new d)"
  obtain u w' where w': "set_all ops vs ?w = (Ok u, w')" and fin: "finish_writer ops w' = Ok bs"
    using assms(2) by (auto simp: write_record_def split: prod.splits outcome.splits)
  have new: "writer_definition ?w = d" "next_field_index ?w = 0" "strict_encoding ?w = strict" "buffer ?w = []" "written ?w = {}"
    "ctx_root (writer_context ?w) = map_of (def_consts d)"
    by (simp_all add: set_strict_encoding_def writer_new_def writer_context_def)
  obtain encs where len: "length vs \<le> length (def_fields d)" and names: "map fst vs = map field_id (take (length vs) (def_fields d))"
    and enc: "encoded_all ops strict (def_endian d) (map_of (def_consts d)) (zip (def_fields d) (map snd vs)) = Ok encs"
    and buf: "buffer w' = concat encs" and wr: "written w' = set (map fst vs)" and d: "writer_definition w' = d"
    using set_all_plain [OF _ w'] assms(1) unfolding new by auto
  have fin': "missing_fields ops w' (def_fields d) = Ok ()" "bs = buffer w'"
    using fin by (auto simp: finish_writer_def d outcome_simps)
  have "field_id ` set (def_fields d) \<subseteq> written w'"
    using missing_fields_written [OF fin'(1)] plain_fieldD [OF assms(1)] by blast
  then have sub: "set (map field_id (def_fields d)) \<subseteq> set (take (length vs) (map field_id (def_fields d)))"
    using names by (simp add: wr take_map)
  have "length vs = length (def_fields d)"
  proof (rule ccontr)
    assume "length vs \<noteq> length (def_fields d)"
    then have k: "length vs < length (def_fields d)" using len by simp
    have "distinct (map field_id (def_fields d))" using assms(1) by (simp add: plain_record_def)
    then have "card (set (map field_id (def_fields d))) = length (def_fields d)" by (metis distinct_card length_map)
    moreover have "card (set (take (length vs) (map field_id (def_fields d)))) \<le> length vs"
      by (rule order_trans [OF card_length]) simp
    ultimately show False using card_mono [OF _ sub] k by simp
  qed
  then show ?thesis using names enc fin'(2) buf by simp
qed

section \<open>What reading gives back\<close>

definition numeric_encoding :: "'f field_definition \<Rightarrow> encoding option" where
  "numeric_encoding f =
    (case field_encoding f of Some EncBcsN \<Rightarrow> Some EncBcsN | Some EncBcsNPI \<Rightarrow> Some EncBcsNPI | _ \<Rightarrow> None)"

fun text_of_value :: "'f writer_ops \<Rightarrow> 'f write_value \<Rightarrow> ustring option" where
  "text_of_value ops (WString s) = Some s"
| "text_of_value ops (WInteger n) = Some (ascii (show_i64 n))"
| "text_of_value ops (WUnsigned n) = Some (ascii (show_nat (unat n)))"
| "text_of_value ops (WFloat x) = Some (text_of_float ops x)"
| "text_of_value ops _ = None"

text \<open>Text is padded behind, numbers in front after they have been fitted to the width.\<close>

definition stored_text :: "'f writer_ops \<Rightarrow> 'f field_definition \<Rightarrow> nat \<Rightarrow> ustring \<Rightarrow> ustring option" where
  "stored_text ops f n s =
    (let pads = (\<lambda>t. replicate (n - length (utf8_encode t)) (unat (get_pad_char f)))
     in case numeric_encoding f of
         Some e \<Rightarrow> (case format_numeric_to_fit ops s n e (field_id f) of Ok t \<Rightarrow> Some (pads t @ t) | _ \<Rightarrow> None)
       | None \<Rightarrow> Some (s @ pads s))"

definition stored :: "'f writer_ops \<Rightarrow> 'f reader \<Rightarrow> 'f field_definition \<Rightarrow> nat \<Rightarrow> 'f write_value \<Rightarrow> 'f val option" where
  "stored ops env f n v =
    (case field_type f of
      FString \<Rightarrow> Option.bind (text_of_value ops v) (\<lambda>s. map_option val.VString (stored_text ops f n s))
    | FBytes \<Rightarrow>
        (case v of
          WBytes bs \<Rightarrow> Some (val.VBytes (bs @ replicate (n - length bs) 0))
        | WString s \<Rightarrow> Some (val.VBytes (utf8_encode s @ replicate (n - length (utf8_encode s)) 0))
        | _ \<Rightarrow> None)
    | FUnsigned _ \<Rightarrow> (case v of WUnsigned x \<Rightarrow> Some (VUnsigned (unat x)) | WInteger x \<Rightarrow> Some (VUnsigned (unat x)) | _ \<Rightarrow> None)
    | FSigned _ \<Rightarrow> (case v of WUnsigned x \<Rightarrow> Some (VSigned (sint x)) | WInteger x \<Rightarrow> Some (VSigned (sint x)) | _ \<Rightarrow> None)
    | FFloat k \<Rightarrow> (case v of WFloat x \<Rightarrow> Some (val.VFloat (f_of_bits env k (bits_of_float ops k x mod 256 ^ k))) | _ \<Rightarrow> None)
    | FTypeRef _ \<Rightarrow> None)"

text \<open>Texts are sequences of Unicode scalar values.\<close>

definition valid_value :: "'f writer_ops \<Rightarrow> 'f write_value \<Rightarrow> bool" where
  "valid_value ops v \<longleftrightarrow> (case text_of_value ops v of Some s \<Rightarrow> list_all scalar_value s | None \<Rightarrow> True)"

lemma scalar_ascii: "list_all scalar_value (ascii s)"
proof -
  have "scalar_value (of_char c)" for c :: char
  proof -
    have "(of_char c :: nat) < 256" by (rule nat_of_char_less_256)
    then have "(of_char c :: nat) < 0xD800" by linarith
    then show ?thesis unfolding scalar_value_def by blast
  qed
  then show ?thesis by (simp add: ascii_def list_all_iff)
qed

lemma ascii_of_bytes:
  assumes "list_all (\<lambda>b. unat b < 128) (utf8_encode t)"
  shows "list_all (\<lambda>c. c < 0x80) t"
  using assms
proof (induction t)
  case (Cons c t)
  have "unat (word_of_nat (0x80 + c mod 64) :: byte) = 0x80 + c mod 64"
    by (rule unat_of_nat_byte) (use mod_less_divisor [of 64 c] in linarith)
  then have "c < 0x80" using Cons.prems by (auto simp: utf8_char_def split: if_splits)
  then show ?case using Cons by simp
qed simp

lemma overwrite_front: "length bs \<le> n \<Longrightarrow> overwrite 0 bs (replicate n x) = bs @ replicate (n - length bs) x"
  by (simp add: overwrite_def)

lemma overwrite_back: "length bs \<le> n \<Longrightarrow> overwrite (n - length bs) bs (replicate n x) = replicate (n - length bs) x @ bs"
  by (simp add: overwrite_def min_absorb1)

lemma utf8_encode_replicate: "unat b < 128 \<Longrightarrow> utf8_encode (replicate k (unat b)) = replicate k b"
  by (induction k) (simp_all add: utf8_char_ascii)

lemma validated_ascii:
  assumes "validate_encoding bs e path strict = Ok ()" "e = EncBcsN \<or> e = EncBcsNPI"
  shows "list_all (\<lambda>b. unat b < 128) bs"
proof -
  have n: "0x20 \<le> b \<and> b \<le> 0x7E \<Longrightarrow> unat b < 128" "is_digit_byte b \<Longrightarrow> unat b < 128" for b :: byte
    by (auto simp: word_le_nat_alt is_digit_byte_def)
  obtain e' where e': "e' = EncBcsA \<or> e' = EncBcsN \<or> e' = EncBcsNPI" "enc_validate e' bs"
    by (rule that [of "if strict then e else EncBcsA"])
      (use assms in \<open>auto simp: validate_encoding_def Let_def split: if_splits\<close>)
  have "unat b < 128" if "is_valid_byte e' b" for b
    using e'(1) that n [of b] by auto
  moreover have "list_all (is_valid_byte e') bs" using e' by (auto simp: enc_validate_def)
  ultimately show ?thesis by (auto simp: list_all_iff)
qed

lemma encode_string_back:
  assumes "encode_string ops s f n path strict = Ok bs" "list_all scalar_value s" "unat (get_pad_char f) < 128" "path = field_id f"
  shows "length bs = n \<and> (\<exists>t. stored_text ops f n s = Some t \<and> utf8_decode bs = Some t)"
proof -
  let ?pad = "get_pad_char f"
  have valid: "utf8_decode (utf8_encode (t @ replicate k (unat ?pad))) = Some (t @ replicate k (unat ?pad))"
    "utf8_decode (utf8_encode (replicate k (unat ?pad) @ t)) = Some (replicate k (unat ?pad) @ t)"
    if "list_all scalar_value t" for t k
  proof -
    have "list_all scalar_value (t @ replicate k (unat ?pad))" "list_all scalar_value (replicate k (unat ?pad) @ t)"
      using that assms(3) by (auto simp: list_all_iff scalar_value_def)
    then show "utf8_decode (utf8_encode (t @ replicate k (unat ?pad))) = Some (t @ replicate k (unat ?pad))"
      "utf8_decode (utf8_encode (replicate k (unat ?pad) @ t)) = Some (replicate k (unat ?pad) @ t)"
      by (simp_all only: utf8_decode_encode)
  qed
  show ?thesis
  proof (cases "numeric_encoding f")
    case None
    then have len: "length (utf8_encode s) \<le> n" and bs: "bs = utf8_encode s @ replicate (n - length (utf8_encode s)) ?pad"
      using assms(1) unfolding encode_string_def numeric_encoding_def [symmetric] Let_def
      by (auto simp: outcome_simps blit_def overwrite_front split: if_splits)
    show ?thesis using valid(1) [OF assms(2)] len
      by (auto simp: bs stored_text_def None utf8_encode_replicate [OF assms(3)])
  next
    case (Some e)
    then have e: "field_encoding f = Some e" "e = EncBcsN \<or> e = EncBcsNPI"
      by (auto simp: numeric_encoding_def split: option.splits encoding.splits)
    obtain t where t: "format_numeric_to_fit ops s n e path = Ok t" "validate_encoding (utf8_encode t) e path strict = Ok ()"
      and len: "length (utf8_encode t) \<le> n" and bs: "bs = replicate (n - length (utf8_encode t)) ?pad @ utf8_encode t"
      using assms(1) Some unfolding encode_string_def numeric_encoding_def [symmetric] Let_def
      by (auto simp: e outcome_simps blit_def overwrite_back split: if_splits)
    have "list_all scalar_value t" by (rule ascii_scalar [OF ascii_of_bytes [OF validated_ascii [OF t(2) e(2)]]])
    then show ?thesis using valid(2) len t(1) assms(4)
      by (auto simp: bs stored_text_def Some utf8_encode_replicate [OF assms(3)])
  qed
qed

lemma number_size:
  assumes "plain_field numbers f" "get_streaming_field_size ops f c = Ok n"
  shows "field_type f = FUnsigned w \<Longrightarrow> n = w" "field_type f = FSigned w \<Longrightarrow> n = w" "field_type f = FFloat w \<Longrightarrow> n = w"
  using assms by (auto simp: plain_field_def get_streaming_field_size_def split: if_splits)

lemma encode_unsigned_back:
  assumes "encode_unsigned x w e path = Ok bs"
  shows "length bs = w \<and> read_unsigned bs w e = Ok x"
proof -
  have w: "1 \<le> w" "w \<le> 8" using encode_unsigned_width [OF assms] by simp_all
  then have "unat x < 256 ^ w" "bs = low_bytes e w (unat x)"
    using assms encode_unsigned_eq [OF w, of x e path] by (simp_all split: if_splits)
  then show ?thesis using read_unsigned_low [OF w, of x e "[]"] by simp
qed

lemma encode_signed_back:
  assumes "encode_signed x w e path = Ok bs"
  shows "length bs = w \<and> read_signed bs w e = Ok x"
proof -
  have w: "1 \<le> w" "w \<le> 8" using encode_signed_width [OF assms] by simp_all
  then have "signed_fits w x" "bs = low_bytes e w (unat x)"
    using assms encode_signed_eq [OF w, of x e path] by (simp_all split: if_splits)
  then show ?thesis using read_signed_low [OF w, of x e "[]"] by simp
qed

lemma encode_float_back:
  assumes "encode_float ops x w e path = Ok bs"
  shows "length bs = w \<and> read_float env bs w e = Ok (f_of_bits env w (bits_of_float ops w x mod 256 ^ w))"
  using assms
  by (auto simp: encode_float_def read_float_def endian_val_def be_val_be_bytes le_val_def le_bytes_def
      split: if_splits endian.splits)

lemma encode_bytes_back:
  "encode_bytes xs n path = Ok bs \<Longrightarrow> length bs = n \<and> bs = xs @ replicate (n - length xs) 0"
  by (auto simp: encode_bytes_def blit_def overwrite_front split: if_splits)

lemma encode_value_back:
  assumes plain: "plain_field numbers f" and size: "get_streaming_field_size ops f c = Ok n"
    and enc: "encode_value ops v f n e (field_id f) strict = Ok bs" and valid: "valid_value ops v"
  shows "length bs = n \<and> (\<exists>r. stored ops env f n v = Some r \<and> read_field_value_from_bytes env f bs e = Ok r)"
proof (cases "field_type f")
  case FString
  then obtain s where s: "text_of_value ops v = Some s" "encode_string ops s f n (field_id f) strict = Ok bs"
    using enc by (cases v) auto
  have "list_all scalar_value s" using valid s(1) by (simp add: valid_value_def)
  moreover have "unat (get_pad_char f) < 128" using plain FString by (simp add: plain_field_def)
  ultimately show ?thesis using encode_string_back [OF s(2)]
    by (auto simp: stored_def FString s(1) read_field_value_from_bytes_def)
next
  case FBytes
  then show ?thesis using enc
    by (cases v) (auto simp: stored_def read_field_value_from_bytes_def dest!: encode_bytes_back)
next
  case (FUnsigned w)
  then have n: "n = w" using number_size [OF plain size] by blast
  obtain x where "encode_unsigned x w e (field_id f) = Ok bs" "stored ops env f n v = Some (VUnsigned (unat x))"
    using enc FUnsigned by (cases v) (auto simp: stored_def split: if_splits)
  then show ?thesis using encode_unsigned_back FUnsigned n by (auto simp: read_field_value_from_bytes_def)
next
  case (FSigned w)
  then have n: "n = w" using number_size [OF plain size] by blast
  obtain x where "encode_signed x w e (field_id f) = Ok bs" "stored ops env f n v = Some (VSigned (sint x))"
    using enc FSigned by (cases v) (auto simp: stored_def split: if_splits)
  then show ?thesis using encode_signed_back FSigned n by (auto simp: read_field_value_from_bytes_def)
next
  case (FFloat w)
  then have n: "n = w" using number_size [OF plain size] by blast
  obtain x where x: "v = WFloat x" "encode_float ops x w e (field_id f) = Ok bs"
    using enc FFloat by (cases v) auto
  then show ?thesis using encode_float_back [OF x(2), of env] FFloat n
    by (auto simp: stored_def read_field_value_from_bytes_def)
qed (use plain in \<open>simp add: plain_field_def\<close>)

text \<open>A number enters the contexts of the writer and of the reader as the same integer.\<close>

lemma number_leaf:
  assumes "is_number f" "encode_value ops v f n e path strict = Ok bs" "stored ops env f n v = Some r"
  shows "\<exists>x. write_value_to_scalar v = Some (VInteger x) \<and> scalar_of_value r = Some (VInteger x)"
  using assms
  by (cases v; cases "field_type f") (auto simp: is_number_def stored_def scalar_of_value_def split: if_splits)

section \<open>The pass over a written record\<close>

definition agree :: "string set \<Rightarrow> (string \<Rightarrow> 'f node option) \<Rightarrow> (string \<Rightarrow> 'f node option) \<Rightarrow> bool" where
  "agree numbers m m' \<longleftrightarrow> (\<forall>x\<in>numbers. m x = m' x)"

lemma read_size_agrees:
  assumes plain: "plain_field numbers f" and size: "get_streaming_field_size ops f (context_new\<lparr>ctx_root := m\<rparr>) = Ok n"
    and same: "agree numbers (ctx_root c) m" "ctx_index c = None" and std: "std env = arith ops"
  shows "simple_field_size env ts bs f c offset = Ok n"
proof (cases "field_size f")
  case (SizeExpr e)
  then have e: "Expr_Eval.field_names e \<subseteq> numbers" using plain by (auto simp: plain_field_def split: field_type.splits)
  have "evaluate (arith ops) e c = evaluate (arith ops) e (context_new\<lparr>ctx_root := m\<rparr>)"
    by (rule conjunct1 [OF evaluate_frame]) (use e same in \<open>auto simp: agree_def context_new_def\<close>)
  then show ?thesis using size
    by (auto simp: SizeExpr simple_field_size_def get_streaming_field_size_def write_count_def eval_count_def std outcome_simps
        split: eval_result.splits if_splits)
qed (use plain size in \<open>auto simp: plain_field_def simple_field_size_def get_streaming_field_size_def
    split: field_type.splits if_splits\<close>)

lemma parse_field_single:
  assumes "field_condition f = None" "field_repeat f = None" "field_type_args f = []"
    and "simple_field_size (reader_of p) (strict_size p) (pass_data p) f (context_of s) (reached s) = Ok n"
  shows "parse_field p f s = parse_single p f n s"
  using assms by (simp add: parse_field_def Let_def eager_repeat_count_def seq_def)

lemma parse_plain:
  assumes plain: "plain_field numbers f"
    and size: "get_streaming_field_size ops f (context_new\<lparr>ctx_root := m\<rparr>) = Ok n"
    and same: "agree numbers (ctx_root (context_of s)) m" "ctx_index (context_of s) = None"
    and std: "std (reader_of p) = arith ops"
    and data: "reached s + n \<le> length (pass_data p)" "length (pass_data p) < U64"
    and read: "read_field_value_from_bytes (reader_of p) f (take n (drop (reached s) (pass_data p)))
      (def_endian (pass_definition p)) = Ok r"
  shows "parse_field p f s =
    (Ok NextField, s\<lparr>places := (places s)(field_id f \<mapsto> (reached s, n)),
      context_of := add_value_to_context (field_id f) r (context_of s), reached := reached s + n\<rparr>)"
proof -
  have f: "field_condition f = None" "field_repeat f = None" "field_type_args f = []" "\<And>u. field_type f \<noteq> FTypeRef u"
    using plain by (auto simp: plain_field_def)
  have sz: "simple_field_size (reader_of p) (strict_size p) (pass_data p) f (context_of s) (reached s) = Ok n"
    by (rule read_size_agrees [OF plain size same std])
  have add: "add64 (reached s) n = reached s + n" using data by simp
  have rd: "pass_read p f (reached s) n = Ok r"
    using read data by (simp add: pass_read_def read_field_value_def add)
  then have scalar: "\<And>bs u. r \<noteq> VStruct bs u" using pass_read_value [OF rd] f(4) by (auto simp: value_of_def)
  have "parse_single p f n s =
    (Ok NextField, s\<lparr>places := (places s)(field_id f \<mapsto> (reached s, n)),
      context_of := add_value_to_context (field_id f) r (context_of s), reached := reached s + n\<rparr>)"
    using rd data(1) scalar by (simp add: parse_single_def Let_def put_place_def add split: val.split)
  then show ?thesis using parse_field_single [OF f(1-3) sz] by simp
qed

lemma leaf_agrees:
  assumes "agree numbers (ctx_root c) m" "field_id f \<in> numbers \<longrightarrow> is_number f"
    and "encode_value ops v f n e path strict = Ok bs" "stored ops env f n v = Some r"
  shows "agree numbers (ctx_root (add_value_to_context (field_id f) r c)) (leaf_added (field_id f) v m)"
proof (cases "field_id f \<in> numbers")
  case True
  then obtain x where "write_value_to_scalar v = Some (VInteger x)" "scalar_of_value r = Some (VInteger x)"
    using number_leaf [OF _ assms(3,4)] assms(2) by blast
  then show ?thesis using assms(1) by (simp add: agree_def add_value_to_context_def insert_scalar_def leaf_added_def)
next
  case False
  then show ?thesis using assms(1)
    by (auto simp: agree_def add_value_to_context_def insert_scalar_def leaf_added_def split: option.split)
qed

definition fixed_width :: "'f field_definition \<Rightarrow> nat \<Rightarrow> bool" where
  "fixed_width f n \<longleftrightarrow> (case field_size f of SizeFixed k \<Rightarrow> 0 < k \<longrightarrow> n = k | _ \<Rightarrow> True)"

text \<open>The field is on the map, and its bytes are those of the value.\<close>

definition lies_at :: "'f writer_ops \<Rightarrow> 'f pass \<Rightarrow> 'f field_definition \<Rightarrow> 'f write_value \<Rightarrow> nat \<times> nat \<Rightarrow> bool" where
  "lies_at ops p f v place \<longleftrightarrow> fst place + snd place \<le> length (pass_data p) \<and>
    fixed_width f (snd place) \<and>
    (\<exists>r. stored ops (reader_of p) f (snd place) v = Some r \<and>
      read_field_value_from_bytes (reader_of p) f (take (snd place) (drop (fst place) (pass_data p)))
        (def_endian (pass_definition p)) = Ok r)"

lemma parse_written:
  assumes "list_all (plain_field numbers) fs" "\<And>f. f \<in> set fs \<Longrightarrow> field_id f \<in> numbers \<longrightarrow> is_number f"
    and "distinct (map field_id fs)" "length vs = length fs" "list_all (valid_value ops) vs"
    and "encoded_all ops strict (def_endian (pass_definition p)) m (zip fs vs) = Ok encs"
    and "drop (reached s) (pass_data p) = concat encs" "reached s \<le> length (pass_data p)" "length (pass_data p) < U64"
    and "agree numbers (ctx_root (context_of s)) m" "ctx_index (context_of s) = None"
    and "std (reader_of p) = arith ops"
  shows "\<exists>s'. parse_fields p fs s = (Ok (), s') \<and> (\<forall>x. x \<notin> field_id ` set fs \<longrightarrow> places s' x = places s x) \<and>
    list_all2 (\<lambda>f v. \<exists>place. places s' (field_id f) = Some place \<and> lies_at ops p f v place) fs vs"
  using assms
proof (induction fs arbitrary: vs m encs s)
  case (Cons f fs)
  obtain v vs' where vs: "vs = v # vs'" using Cons.prems(4) by (cases vs) auto
  obtain n bs encs' where n: "get_streaming_field_size ops f (context_new\<lparr>ctx_root := m\<rparr>) = Ok n"
    and bs: "encode_value ops v f n (def_endian (pass_definition p)) (field_id f) strict = Ok bs"
    and rest: "encoded_all ops strict (def_endian (pass_definition p)) (leaf_added (field_id f) v m) (zip fs vs') = Ok encs'"
    and encs: "encs = bs # encs'"
    using Cons.prems(6) by (auto simp: vs outcome_simps simp del: encode_value.simps)
  have plain: "plain_field numbers f" using Cons.prems(1) by simp
  obtain r where len: "length bs = n" and r: "stored ops (reader_of p) f n v = Some r"
    and read: "read_field_value_from_bytes (reader_of p) f bs (def_endian (pass_definition p)) = Ok r"
    using encode_value_back [OF plain n bs, of "reader_of p"] Cons.prems(5) by (auto simp: vs)
  have data: "drop (reached s) (pass_data p) = bs @ concat encs'" using Cons.prems(7) by (simp add: encs)
  then have fits: "reached s + n \<le> length (pass_data p)"
    using len Cons.prems(8) by (metis le_add1 length_append length_drop le_diff_conv2 add.commute)
  have part: "take n (drop (reached s) (pass_data p)) = bs" using data len by simp
  let ?s = "s\<lparr>places := (places s)(field_id f \<mapsto> (reached s, n)),
      context_of := add_value_to_context (field_id f) r (context_of s), reached := reached s + n\<rparr>"
  have step: "parse_field p f s = (Ok NextField, ?s)"
    by (rule parse_plain [OF plain n Cons.prems(10,11,12) fits Cons.prems(9)]) (simp add: part read)
  have "drop (reached ?s) (pass_data p) = concat encs'"
    using data len by (simp add: drop_drop [symmetric] add.commute)
  moreover have "agree numbers (ctx_root (context_of ?s)) (leaf_added (field_id f) v m)"
    using leaf_agrees [OF Cons.prems(10) Cons.prems(2) [of f] bs r] by simp
  moreover have "ctx_index (context_of ?s) = None"
    using Cons.prems(11) by (simp add: add_value_to_context_def insert_scalar_def split: option.split)
  ultimately obtain s' where s': "parse_fields p fs ?s = (Ok (), s')"
    and other: "\<forall>x. x \<notin> field_id ` set fs \<longrightarrow> places s' x = places ?s x"
    and found: "list_all2 (\<lambda>f v. \<exists>place. places s' (field_id f) = Some place \<and> lies_at ops p f v place) fs vs'"
    using Cons.IH [of vs' "leaf_added (field_id f) v m" encs' ?s] Cons.prems rest fits by (auto simp: vs)
  have "places s' (field_id f) = Some (reached s, n)" using other Cons.prems(3) by auto
  moreover have "fixed_width f n"
    using n by (auto simp: get_streaming_field_size_def fixed_width_def split: size_spec.split)
  then have "lies_at ops p f v (reached s, n)" using fits r read by (simp add: lies_at_def part)
  ultimately show ?case using step s' other found by (auto simp: vs)
qed simp

section \<open>Properties\<close>

lemma get_placed:
  assumes "ensure_parsed env a = (Ok (), b)" "offset_cache b name = Some (offset, n)"
    and "find_field (definition_of a) name = Ok f" "CHR ''.'' \<notin> set name" "field_condition f = None" "field_repeat f = None"
    and "offset + n \<le> length (data_of a)" "length (data_of a) < U64"
    and "read_field_value_from_bytes env f (take n (drop offset (data_of a))) (def_endian (definition_of a)) = Ok r"
  shows "fst (get env name a) = Ok r"
proof -
  have path: "parse_path name = (name, None, None)"
  proof -
    have t: "takeWhile (\<lambda>c. c \<noteq> CHR ''.'') name = name" "dropWhile (\<lambda>c. c \<noteq> CHR ''.'') name = []"
      using assms(4) by (auto simp: takeWhile_eq_all_conv dropWhile_eq_Nil_conv)
    show ?thesis unfolding parse_path_def t by simp
  qed
  have b: "definition_of b = definition_of a" "data_of b = data_of a" using ensure_parsed_frame [OF assms(1)] by simp_all
  have read: "accessor_read env b f offset n = Ok r"
    using assms(7-9) by (simp add: accessor_read_def read_field_value_def b)
  have f: "find_field (definition_of a) (fst (parse_path name)) = Ok f" using assms(3) by (simp add: path)
  show ?thesis unfolding get_unconditional [OF f assms(5)]
    using assms(1,2) read by (simp add: seq_def path assms(6) calculate_field_offset_def access_rest_def)
qed

lemma number_names_numbers:
  assumes "plain_record d" "f \<in> set (def_fields d)"
  shows "field_id f \<in> number_names d \<longrightarrow> is_number f"
proof
  assume "field_id f \<in> number_names d"
  then obtain g where "g \<in> set (def_fields d)" "is_number g" "field_id g = field_id f" by (auto simp: number_names_def)
  then show "is_number f" using assms by (metis plain_record_def distinct_map inj_onD)
qed

lemma ensure_written:
  assumes "plain_record d" "encoded_all ops strict (def_endian d) (map_of (def_consts d)) (zip (def_fields d) vs) = Ok encs"
    and "length vs = length (def_fields d)" "length (concat encs) < U64" "list_all (valid_value ops) vs" "std env = arith ops"
  defines "a \<equiv> accessor_new d (concat encs)"
  shows "\<exists>b. ensure_parsed env a = (Ok (), b) \<and>
    list_all2 (\<lambda>f v. \<exists>place. offset_cache b (field_id f) = Some place \<and>
      lies_at ops (pass_of env (noder_of env a) a) f v place) (def_fields d) vs"
proof -
  let ?p = "pass_of env (noder_of env a) a"
  let ?s = "\<lparr>places = Map.empty, element_places = Map.empty, context_of = seeded_context d Map.empty, reached = 0\<rparr> :: 'a progress"
  have a: "definition_of a = d" "data_of a = concat encs" "offset_cache a = Map.empty" "repeat_offsets a = Map.empty"
    "inherited a = Map.empty" "\<not> parsed a"
    by (simp_all add: a_def accessor_new_def accessor_with_inherited_def)
  have p: "pass_definition ?p = d" "pass_data ?p = concat encs" "reader_of ?p = env" by (simp_all add: pass_of_def a)
  have c: "ctx_root (seeded_context d Map.empty) = map_of (def_consts d)" "ctx_index (seeded_context d Map.empty) = None"
    by (simp_all add: seeded_context_def context_new_def)
  have "\<exists>s'. parse_fields ?p (def_fields d) ?s = (Ok (), s') \<and>
      (\<forall>x. x \<notin> field_id ` set (def_fields d) \<longrightarrow> places s' x = places ?s x) \<and>
      list_all2 (\<lambda>f v. \<exists>place. places s' (field_id f) = Some place \<and> lies_at ops ?p f v place) (def_fields d) vs"
    by (rule parse_written [where numbers = "number_names d" and m = "map_of (def_consts d)" and encs = encs and strict = strict])
      (use assms(1-6) number_names_numbers [OF assms(1)] in \<open>simp_all add: p c plain_record_def agree_def\<close>)
  then obtain s' where s': "parse_fields ?p (def_fields d) ?s = (Ok (), s')"
    and found: "list_all2 (\<lambda>f v. \<exists>place. places s' (field_id f) = Some place \<and> lies_at ops ?p f v place) (def_fields d) vs"
    by blast
  define b where "b = a\<lparr>offset_cache := places s', repeat_offsets := element_places s',
      parsed_context := Some (context_of s'), parsed := True\<rparr>"
  have "ensure_parsed env a = (Ok (), b)"
    using s' by (simp add: ensure_parsed_def ensure_parsed_with_def a Let_def b_def)
  then show ?thesis using found by (auto simp: b_def)
qed

lemma written_field:
  assumes "plain_record d" "f \<in> set (def_fields d)" "length bs < U64"
    and "ensure_parsed env (accessor_new d bs) = (Ok (), b)" "offset_cache b (field_id f) = Some place"
    and "lies_at ops (pass_of env snap (accessor_new d bs)) f v place"
  shows "\<exists>n r. n \<le> length bs \<and> stored ops env f n v = Some r \<and>
    fixed_width f n \<and>
    fst (get env (field_id f) (accessor_new d bs)) = Ok r"
proof -
  obtain offset n where place: "place = (offset, n)" by (cases place)
  have a: "definition_of (accessor_new d bs) = d" "data_of (accessor_new d bs) = bs"
    by (simp_all add: accessor_new_def accessor_with_inherited_def)
  obtain r where r: "stored ops env f n v = Some r" "offset + n \<le> length bs"
    "read_field_value_from_bytes env f (take n (drop offset bs)) (def_endian d) = Ok r"
    "fixed_width f n"
    using assms(6) by (auto simp: lies_at_def place pass_of_def a)
  have "find_field d (field_id f) = Ok f"
    using find_distinct [of field_id "def_fields d" f] assms(1,2) by (simp add: find_field_def plain_record_def)
  moreover have "CHR ''.'' \<notin> set (field_id f)" using assms(1,2) by (simp add: plain_record_def list_all_iff)
  ultimately have "fst (get env (field_id f) (accessor_new d bs)) = Ok r"
    using plain_fieldD [OF assms(1,2)] r(2,3) assms(3,5)
    by (intro get_placed [OF assms(4)]) (simp_all add: a place)
  then show ?thesis using r by (intro exI [of _ n] exI [of _ r]) simp
qed

text \<open>C29: what the writer writes, the accessor reads.  For any definition of single, unconditional
  fields - numbers of every width, floating-point numbers, text and bytes of fixed size or of a
  size computed from the numbers before them - if the calls of the writer and its \<open>finish\<close> succeed,
  the fields were written once each in the order of the definition, and reading a field of the
  bytes returns its value: a number as it was, text and bytes with their padding, text of a
  numeric field fitted to its width.\<close>

theorem written_record_reads_back:
  assumes "plain_record d" "write_record ops strict d vs = Ok bs"
    and "length bs < U64" "list_all (valid_value ops) (map snd vs)" "std env = arith ops"
  shows "map fst vs = map field_id (def_fields d) \<and>
    list_all2 (\<lambda>f (name, v). \<exists>n r. n \<le> length bs \<and> stored ops env f n v = Some r \<and>
      fixed_width f n \<and>
      fst (get env name (accessor_new d bs)) = Ok r) (def_fields d) vs"
proof
  show names: "map fst vs = map field_id (def_fields d)" using write_record_plain [OF assms(1,2)] by blast
  obtain encs where enc: "encoded_all ops strict (def_endian d) (map_of (def_consts d)) (zip (def_fields d) (map snd vs)) = Ok encs"
    and bs: "bs = concat encs"
    using write_record_plain [OF assms(1,2)] by blast
  have len: "length (map snd vs) = length (def_fields d)" using names by (metis length_map)
  obtain b where b: "ensure_parsed env (accessor_new d bs) = (Ok (), b)"
    and found: "list_all2 (\<lambda>f v. \<exists>place. offset_cache b (field_id f) = Some place \<and>
      lies_at ops (pass_of env (noder_of env (accessor_new d bs)) (accessor_new d bs)) f v place) (def_fields d) (map snd vs)"
    using ensure_written [OF assms(1) enc len _ assms(4,5)] assms(3) unfolding bs by blast
  show "list_all2 (\<lambda>f (name, v). \<exists>n r. n \<le> length bs \<and> stored ops env f n v = Some r \<and>
      fixed_width f n \<and>
      fst (get env name (accessor_new d bs)) = Ok r) (def_fields d) vs"
    unfolding list_all2_conv_all_nth
  proof (intro conjI allI impI)
    fix i assume i: "i < length (def_fields d)"
    have name: "fst (vs ! i) = field_id (def_fields d ! i)" using names i len by (metis length_map nth_map)
    obtain place where "offset_cache b (field_id (def_fields d ! i)) = Some place"
      "lies_at ops (pass_of env (noder_of env (accessor_new d bs)) (accessor_new d bs)) (def_fields d ! i) (snd (vs ! i)) place"
      using found i len by (auto simp: list_all2_conv_all_nth)
    from written_field [OF assms(1) nth_mem [OF i] assms(3) b this]
    show "case vs ! i of (name, v) \<Rightarrow> \<exists>n r. n \<le> length bs \<and> stored ops env (def_fields d ! i) n v = Some r \<and>
        fixed_width (def_fields d ! i) n \<and>
        fst (get env name (accessor_new d bs)) = Ok r"
      using name by (simp add: case_prod_beta)
  qed (use len in simp)
qed

lemmas writer_eval =
  write_record_def set_strict_encoding_def writer_new_def set_value_def writer_find_field_def write_streaming_def seq_def
  next_field_def get_expected_streaming_field_def get_at_def get_streaming_field_size_def writer_context_def context_new_def
  put_encoded_def mark_written_def finish_writer_def write_count_def context_get_scalar_def encode_unsigned_def unsigned_max_def
  serialize_low_bytes_def u64_be_bytes_def u64_le_bytes_def le_bytes_def slice_def encode_bytes_def encode_string_def
  validate_encoding_def enc_validate_def blit_def overwrite_def get_pad_char_def utf8_char_def add64_def U64_def Let_def

text \<open>A length, that many bytes, and a name.\<close>

definition prefixed_definition :: "'f structure_definition" where
  "prefixed_definition = Structure ''prefixed'' Little
    [field_new ''LEN'' (FUnsigned 2),
     (field_new ''DATA'' FBytes)\<lparr>field_size := SizeExpr (FieldRef ''LEN'')\<rparr>,
     (field_new ''NAME'' FString)\<lparr>field_size := SizeFixed 4, field_encoding := Some EncBcsA\<rparr>] [] [] []"

lemma written_record_reads_back_witness:
  "\<forall>(ops :: unit writer_ops) env. \<exists>bs. write_record ops True prefixed_definition
      [(''LEN'', WUnsigned 3), (''DATA'', WBytes [7, 8]), (''NAME'', WString [65, 66])] = Ok bs \<and>
    fst (get (env\<lparr>std := arith ops\<rparr>) ''NAME'' (accessor_new prefixed_definition bs)) = Ok (val.VString [65, 66, 32, 32])"
proof (intro allI)
  fix ops :: "unit writer_ops" and env :: "unit reader"
  let ?vs = "[(''LEN'', WUnsigned 3), (''DATA'', WBytes [7, 8]), (''NAME'', WString [65, 66])] :: (string \<times> unit write_value) list"
  have w: "write_record ops True prefixed_definition ?vs = Ok [3, 0, 7, 8, 0, 65, 66, 32, 32]"
  proof -
    have "be_bytes (Suc (Suc (Suc (Suc (Suc (Suc (Suc (Suc 0)))))))) 3 = [0, 0, 0, 0, 0, 0, 0, 3 :: byte]" by simp
    then have "be_bytes 8 3 = [0, 0, 0, 0, 0, 0, 0, 3 :: byte]" by (simp only: Suc_numeral numeral_1_eq_Suc_0 [symmetric] add_num_simps)
    then show ?thesis
      by (simp add: writer_eval prefixed_definition_def field_new_def) (simp add: numeral_2_eq_2)
  qed
  have plain: "plain_record (prefixed_definition :: unit structure_definition)"
    by (simp add: plain_record_def prefixed_definition_def plain_field_def number_names_def is_number_def field_new_def get_pad_char_def)
  have "length [3, 0, 7, 8, 0, 65, 66, 32, 32 :: byte] < U64" by (simp add: U64_def)
  moreover have "list_all (valid_value ops) (map snd ?vs)" by (simp add: valid_value_def scalar_ascii) (simp add: scalar_value_def)
  ultimately have "list_all2 (\<lambda>f (name, v). \<exists>n r. n \<le> length [3, 0, 7, 8, 0, 65, 66, 32, 32 :: byte] \<and>
      stored ops (env\<lparr>std := arith ops\<rparr>) f n v = Some r \<and> fixed_width f n \<and>
      fst (get (env\<lparr>std := arith ops\<rparr>) name (accessor_new prefixed_definition [3, 0, 7, 8, 0, 65, 66, 32, 32])) = Ok r)
      (def_fields prefixed_definition) ?vs"
    by (rule conjunct2 [OF written_record_reads_back [OF plain w]]) simp
  moreover have "replicate 2 (32 :: nat) = [32, 32]" by (simp add: numeral_2_eq_2)
  ultimately have "fst (get (env\<lparr>std := arith ops\<rparr>) ''NAME'' (accessor_new prefixed_definition [3, 0, 7, 8, 0, 65, 66, 32, 32])) =
      Ok (val.VString [65, 66, 32, 32])"
    by (auto simp: prefixed_definition_def field_new_def fixed_width_def stored_def stored_text_def numeric_encoding_def get_pad_char_def utf8_char_def)
  then show "\<exists>bs. write_record ops True prefixed_definition ?vs = Ok bs \<and>
      fst (get (env\<lparr>std := arith ops\<rparr>) ''NAME'' (accessor_new prefixed_definition bs)) = Ok (val.VString [65, 66, 32, 32])"
    using w by blast
qed

end
