(* ===== verification/Dted_Records.thy ===== *)
theory Dted_Records
  imports Unicode_Text
begin

text \<open>
  The records of DTED elevation files: \<open>src/src/dted/records.rs\<close>.  Header records are fixed
  columns of text, elevation posts are signed-magnitude 16-bit numbers, every data record ends
  with the sum of its bytes.  Floating-point arithmetic is a parameter.
\<close>

section \<open>Lossy decoding\<close>

text \<open>\<open>String::from_utf8_lossy\<close>: the longest prefix of a sequence that stays invalid becomes one
  replacement character.\<close>

definition second_in_range :: "nat \<Rightarrow> nat \<Rightarrow> bool" where
  "second_in_range v0 v1 \<longleftrightarrow>
    v0 = 0xE0 \<and> 0xA0 \<le> v1 \<and> v1 \<le> 0xBF \<or> 0xE1 \<le> v0 \<and> v0 \<le> 0xEC \<and> 0x80 \<le> v1 \<and> v1 \<le> 0xBF \<or>
    v0 = 0xED \<and> 0x80 \<le> v1 \<and> v1 \<le> 0x9F \<or> 0xEE \<le> v0 \<and> v0 \<le> 0xEF \<and> 0x80 \<le> v1 \<and> v1 \<le> 0xBF \<or>
    v0 = 0xF0 \<and> 0x90 \<le> v1 \<and> v1 \<le> 0xBF \<or> 0xF1 \<le> v0 \<and> v0 \<le> 0xF3 \<and> 0x80 \<le> v1 \<and> v1 \<le> 0xBF \<or>
    v0 = 0xF4 \<and> 0x80 \<le> v1 \<and> v1 \<le> 0x8F"

fun invalid_prefix :: "byte list \<Rightarrow> nat" where
  "invalid_prefix (b0 # b1 # bs) =
    (if \<not> second_in_range (unat b0) (unat b1) then 1
     else case bs of
       b2 # _ \<Rightarrow> if 0xF0 \<le> unat b0 \<and> continuation b2 \<noteq> None then 3 else 2
     | [] \<Rightarrow> 2)"
| "invalid_prefix bs = 1"

function from_utf8_lossy :: "byte list \<Rightarrow> ustring" where
  "from_utf8_lossy bs =
    (if bs = [] then []
     else case utf8_next bs of
       Some (c, r) \<Rightarrow> c # from_utf8_lossy r
     | None \<Rightarrow> 0xFFFD # from_utf8_lossy (drop (invalid_prefix bs) bs))"
  by pat_completeness auto

lemma invalid_prefix_pos: "0 < invalid_prefix bs"
  by (cases bs rule: invalid_prefix.cases) (auto split: list.splits)

termination from_utf8_lossy
  by (relation "measure length") (auto dest: utf8_next_shorter simp: invalid_prefix_pos)

declare from_utf8_lossy.simps [simp del]

text \<open>Slicing a string at byte offsets, which must not split a character.\<close>

definition is_char_boundary :: "nat \<Rightarrow> byte list \<Rightarrow> bool" where
  "is_char_boundary k bs \<longleftrightarrow> k = 0 \<or> k = length bs \<or> k < length bs \<and> continuation (bs ! k) = None"

definition text_slice :: "nat \<Rightarrow> nat \<Rightarrow> ustring \<Rightarrow> (ustring, 'e) outcome" where
  "text_slice a b s =
    (let bs = utf8_encode s
     in if a \<le> b \<and> b \<le> length bs \<and> is_char_boundary a bs \<and> is_char_boundary b bs
        then unwrap (utf8_decode (take (b - a) (drop a bs)))
        else Panic)"

section \<open>Header records\<close>

text \<open>What the records use of \<open>f64\<close>: parsing, integer constants, arithmetic, comparison, and the
  conversion to \<open>u32\<close>.\<close>

record 'f angle_ops =
  angle_parse :: "ustring \<Rightarrow> 'f option"
  angle_of_int :: "int \<Rightarrow> 'f"
  angle_plus :: "'f \<Rightarrow> 'f \<Rightarrow> 'f"
  angle_minus :: "'f \<Rightarrow> 'f \<Rightarrow> 'f"
  angle_times :: "'f \<Rightarrow> 'f \<Rightarrow> 'f"
  angle_over :: "'f \<Rightarrow> 'f \<Rightarrow> 'f"
  angle_less :: "'f \<Rightarrow> 'f \<Rightarrow> bool"
  angle_abs :: "'f \<Rightarrow> 'f"
  angle_round :: "'f \<Rightarrow> 'f"
  angle_to_u32 :: "'f \<Rightarrow> nat"

definition UHL_SIZE :: nat where "UHL_SIZE = 80"
definition DSI_SIZE :: nat where "DSI_SIZE = 648"
definition ACC_SIZE :: nat where "ACC_SIZE = 2700"
definition DATA_OFFSET :: nat where "DATA_OFFSET = UHL_SIZE + DSI_SIZE + ACC_SIZE"

record 'f uhl =
  origin_lon :: 'f
  origin_lat :: 'f
  lon_interval_tenths :: nat
  lat_interval_tenths :: nat
  num_lon_lines :: nat
  num_lat_points :: nat
  vertical_accuracy :: "nat option"
  security_code :: nat
  multiple_accuracy :: bool

record dsi =
  dsi_security_code :: ustring
  product_level :: ustring
  edition_number :: ustring
  compilation_date :: ustring
  producer_code :: ustring
  vertical_datum :: ustring
  horizontal_datum :: ustring
  partial_cell_indicator :: ustring

record acc =
  absolute_horizontal_accuracy :: ustring
  absolute_vertical_accuracy :: ustring
  relative_vertical_accuracy :: ustring

definition ascii_field :: "byte list \<Rightarrow> nat \<Rightarrow> nat \<Rightarrow> (ustring, codec_error) outcome" where
  "ascii_field d offset len = map_ok (\<lambda>bs. trim_text (from_utf8_lossy bs)) (slice offset (offset + len) d)"

definition parse_ascii_u16 :: "byte list \<Rightarrow> (nat, codec_error) outcome" where
  "parse_ascii_u16 d = ok_or ParseError (parse_text (2 ^ 16) (trim_text (from_utf8_lossy d)))"

definition parse_optional_u16 :: "byte list \<Rightarrow> nat option" where
  "parse_optional_u16 d =
    (let s = trim_text (from_utf8_lossy d) in if s = ascii ''NA'' \<or> s = [] then None else parse_text (2 ^ 16) s)"

definition parse_part :: "'f angle_ops \<Rightarrow> nat \<Rightarrow> nat \<Rightarrow> ustring \<Rightarrow> ('f, codec_error) outcome" where
  "parse_part ops a b s = and_then (text_slice a b s) (\<lambda>part. ok_or ParseError (angle_parse ops part))"

text \<open>\<open>sign * (degrees + minutes / 60.0 + seconds / 3600.0)\<close>.\<close>

definition angle_value :: "'f angle_ops \<Rightarrow> int \<Rightarrow> 'f \<Rightarrow> 'f \<Rightarrow> 'f \<Rightarrow> 'f" where
  "angle_value ops sign degrees minutes seconds =
    angle_times ops (angle_of_int ops sign)
      (angle_plus ops (angle_plus ops degrees (angle_over ops minutes (angle_of_int ops 60)))
        (angle_over ops seconds (angle_of_int ops 3600)))"

definition parse_longitude :: "'f angle_ops \<Rightarrow> byte list \<Rightarrow> ('f, codec_error) outcome" where
  "parse_longitude ops d =
    (if length d < 8 then Err ParseError
     else
       (let s = trim_text (from_utf8_lossy d)
        in if length (utf8_encode s) < 8 then Err ParseError
           else
             and_then (parse_part ops 0 3 s) (\<lambda>degrees.
             and_then (parse_part ops 3 5 s) (\<lambda>minutes.
             and_then (parse_part ops 5 7 s) (\<lambda>seconds.
             and_then (index_at 7 (utf8_encode s)) (\<lambda>hemisphere.
               if hemisphere = 0x45 then Ok (angle_value ops 1 degrees minutes seconds)
               else if hemisphere = 0x57 then Ok (angle_value ops (- 1) degrees minutes seconds)
               else Err ParseError))))))"

definition is_hemisphere :: "byte \<Rightarrow> bool" where
  "is_hemisphere b \<longleftrightarrow> b = 0x4E \<or> b = 0x53"

text \<open>The sign is that of the last \<open>N\<close> or \<open>S\<close>, the number ends at the first.\<close>

definition parse_latitude :: "'f angle_ops \<Rightarrow> byte list \<Rightarrow> ('f, codec_error) outcome" where
  "parse_latitude ops d =
    (if length d < 7 then Err ParseError
     else
       and_then (ok_or ParseError (find is_hemisphere (rev d))) (\<lambda>hemisphere.
         (let numeric = takeWhile (\<lambda>b. \<not> is_hemisphere b) d
          in if length numeric < 6 then Err ParseError
             else
               (let s = trim_text (from_utf8_lossy numeric);
                    numeric_len = length (utf8_encode s)
                in if numeric_len < 6 then Err ParseError
                   else
                     and_then (parse_part ops 0 (numeric_len - 4) s) (\<lambda>degrees.
                     and_then (parse_part ops (numeric_len - 4) (numeric_len - 2) s) (\<lambda>minutes.
                     and_then (parse_part ops (numeric_len - 2) numeric_len s) (\<lambda>seconds.
                       Ok (angle_value ops (if hemisphere = 0x4E then 1 else - 1) degrees minutes seconds))))))))"

definition uhl_parse :: "'f angle_ops \<Rightarrow> byte list \<Rightarrow> ('f uhl, codec_error) outcome" where
  "uhl_parse ops d =
    (if length d < UHL_SIZE then Err InvalidFormat
     else
       and_then (slice 0 3 d) (\<lambda>sentinel.
       if sentinel \<noteq> [0x55, 0x48, 0x4C] then Err InvalidFormat
       else
         and_then (and_then (slice 4 12 d) (parse_longitude ops)) (\<lambda>lon.
         and_then (and_then (slice 12 20 d) (parse_latitude ops)) (\<lambda>lat.
         and_then (and_then (slice 20 24 d) parse_ascii_u16) (\<lambda>lon_interval.
         and_then (and_then (slice 24 28 d) parse_ascii_u16) (\<lambda>lat_interval.
         and_then (map_ok parse_optional_u16 (slice 28 32 d)) (\<lambda>accuracy.
         and_then (index_at 32 d) (\<lambda>code.
         and_then (and_then (slice 47 51 d) parse_ascii_u16) (\<lambda>lines.
         and_then (and_then (slice 51 55 d) parse_ascii_u16) (\<lambda>points.
         and_then (index_at 55 d) (\<lambda>multiple.
           Ok \<lparr>origin_lon = lon, origin_lat = lat, lon_interval_tenths = lon_interval,
               lat_interval_tenths = lat_interval, num_lon_lines = lines, num_lat_points = points,
               vertical_accuracy = accuracy, security_code = unat code, multiple_accuracy = (multiple = 0x31)\<rparr>)))))))))))"

definition dsi_parse :: "byte list \<Rightarrow> (dsi, codec_error) outcome" where
  "dsi_parse data =
    (if length data < UHL_SIZE + DSI_SIZE then Err InvalidFormat
     else
       and_then (slice UHL_SIZE (UHL_SIZE + DSI_SIZE) data) (\<lambda>d.
       and_then (slice 0 3 d) (\<lambda>sentinel.
       if sentinel \<noteq> [0x44, 0x53, 0x49] then Err InvalidFormat
       else
         and_then (ascii_field d 3 1) (\<lambda>code.
         and_then (ascii_field d 59 5) (\<lambda>level.
         and_then (ascii_field d 87 2) (\<lambda>edition.
         and_then (ascii_field d 93 4) (\<lambda>date.
         and_then (ascii_field d 65 8) (\<lambda>producer.
         and_then (ascii_field d 141 3) (\<lambda>vdatum.
         and_then (ascii_field d 144 5) (\<lambda>hdatum.
         and_then (ascii_field d 289 2) (\<lambda>partial_cell.
           Ok \<lparr>dsi_security_code = code, product_level = level, edition_number = edition, compilation_date = date,
               producer_code = producer, vertical_datum = vdatum, horizontal_datum = hdatum,
               partial_cell_indicator = partial_cell\<rparr>)))))))))))"

definition acc_parse :: "byte list \<Rightarrow> (acc, codec_error) outcome" where
  "acc_parse data =
    (if length data < UHL_SIZE + DSI_SIZE + ACC_SIZE then Err InvalidFormat
     else
       and_then (slice (UHL_SIZE + DSI_SIZE) (UHL_SIZE + DSI_SIZE + ACC_SIZE) data) (\<lambda>d.
       and_then (slice 0 3 d) (\<lambda>sentinel.
       if sentinel \<noteq> [0x41, 0x43, 0x43] then Err InvalidFormat
       else
         and_then (ascii_field d 3 4) (\<lambda>horizontal.
         and_then (ascii_field d 7 4) (\<lambda>vertical.
         and_then (ascii_field d 11 4) (\<lambda>relative.
           Ok \<lparr>absolute_horizontal_accuracy = horizontal, absolute_vertical_accuracy = vertical,
               relative_vertical_accuracy = relative\<rparr>))))))"

section \<open>Data records\<close>

unbundle bit_operations_syntax

definition decode_elevation :: "byte \<Rightarrow> byte \<Rightarrow> 16 word" where
  "decode_elevation b0 b1 =
    (let raw = word_of_nat (be_val [b0, b1])
     in if raw = 0xFFFF then - 32767 else if raw AND 0x8000 \<noteq> 0 then - (raw AND 0x7FFF) else raw)"

definition encode_elevation :: "16 word \<Rightarrow> byte list" where
  "encode_elevation v =
    (if v = - 32767 then [0xFF, 0xFF]
     else if sint v < 0 then be_bytes 2 (unat (- v OR 0x8000))
     else be_bytes 2 (unat v))"

definition compute_record_checksum :: "byte list \<Rightarrow> nat" where
  "compute_record_checksum d = sum_list (map unat d) mod 2 ^ 32"

definition record_size :: "nat \<Rightarrow> nat" where
  "record_size lat_points = 8 + lat_points * 2 + 4"

definition validate_record_checksum :: "byte list \<Rightarrow> bool" where
  "validate_record_checksum d \<longleftrightarrow>
    12 \<le> length d \<and>
    compute_record_checksum (take (length d - 4) d) = be_val (drop (length d - 4) d)"

section \<open>Elevations\<close>

text \<open>Every elevation but \<open>i16::MIN\<close>, whose magnitude has no room, survives.\<close>

lemma take_bit_low:
  fixes m :: "16 word"
  assumes "unat m < 2 ^ 15"
  shows "take_bit 15 m = m"
proof -
  have "unat (take_bit 15 m) = unat m" using assms by (simp add: unsigned_take_bit_eq take_bit_nat_eq_self)
  then show ?thesis by (simp only: word_unat_eq_iff)
qed

lemma be_bytes_2: "be_bytes 2 n = [word_of_nat (n div 256 mod 256), word_of_nat (n mod 256)]"
  by (simp add: numeral_2_eq_2)

lemma raw_be_bytes: "word_of_nat (be_val (be_bytes 2 (unat w))) = (w :: 16 word)"
proof -
  have "unat w < 2 ^ 16" using unsigned_less [of w, where ?'a = nat] by simp
  then have "be_val (be_bytes 2 (unat w)) = unat w" by (intro be_val_be_bytes_id) simp
  then show ?thesis by simp
qed

lemma sign_bit_or:
  fixes m :: "16 word"
  assumes "unat m < 2 ^ 15"
  shows "(m OR 0x8000) AND 0x8000 \<noteq> 0" "(m OR 0x8000) AND 0x7FFF = m"
proof -
  have m: "m AND 0x7FFF = m" using take_bit_low [OF assms] by (simp add: take_bit_eq_mask mask_eq_exp_minus_1)
  have "(m OR 0x8000) AND 0x8000 = 0x8000" by (rule bit_word_eqI) (auto simp: bit_and_iff bit_or_iff)
  then show "(m OR 0x8000) AND 0x8000 \<noteq> 0" by simp
  show "(m OR 0x8000) AND 0x7FFF = m" by (simp add: bit.conj_disj_distrib2 m)
qed

lemma unat_opposite:
  assumes "sint (v :: 16 word) < 0" "v \<noteq> 0x8000"
  shows "unat (- v) < 2 ^ 15"
proof -
  have v: "v = word_of_int (sint v)" by simp
  have "word_of_int (- (2 ^ 15)) = (0x8000 :: 16 word)" by simp
  then have "sint v \<noteq> - (2 ^ 15)" using assms(2) v by metis
  moreover have "- (2 ^ 15) \<le> sint v" using sint_ge [of v] by simp
  ultimately have n: "0 \<le> - sint v" "- sint v < 2 ^ 15" using assms(1) by linarith+
  have "- v = word_of_int (- sint v)" by simp
  then have "uint (- v) = - sint v" using n by (simp only: uint_word_of_int) simp
  then show ?thesis using n by (simp add: unat_eq_nat_uint nat_less_iff del: uint_minus_simple_alt)
qed

text \<open>Every elevation but \<open>i16::MIN\<close>, whose magnitude has no room, survives.\<close>

definition decode_pair :: "byte list \<Rightarrow> 16 word" where
  "decode_pair bs = decode_elevation (bs ! 0) (bs ! 1)"

lemma length_encode_elevation [simp]: "length (encode_elevation v) = 2"
  by (simp add: encode_elevation_def)

lemma decode_be_bytes:
  assumes "w \<noteq> 0xFFFF"
  shows "decode_pair (be_bytes 2 (unat w)) = (if w AND 0x8000 \<noteq> 0 then - (w AND 0x7FFF) else w)"
  using assms raw_be_bytes [of w] by (simp add: decode_pair_def decode_elevation_def be_bytes_2 Let_def)

lemma elevation_roundtrip:
  assumes "v \<noteq> 0x8000"
  shows "decode_pair (encode_elevation v) = v"
proof (cases "v = - 32767")
  case True
  then show ?thesis by (simp add: encode_elevation_def decode_pair_def decode_elevation_def be_val_def)
next
  case not_void: False
  show ?thesis
  proof (cases "sint v < 0")
    case True
    have "- v OR 0x8000 \<noteq> 0xFFFF"
    proof
      assume "- v OR 0x8000 = 0xFFFF"
      then have "- v = 0x7FFF" using sign_bit_or(2) [OF unat_opposite [OF True assms]] by simp
      then show False using not_void by (metis minus_minus)
    qed
        then show ?thesis using sign_bit_or [OF unat_opposite [OF True assms]] not_void True
      by (simp add: encode_elevation_def decode_be_bytes)
  next
    case False
    have "unat v < 2 ^ 15"
    proof -
      have n: "0 \<le> sint v" "sint v < 2 ^ 15" using False sint_lt [of v] by simp_all
      have "v = word_of_int (sint v)" by simp
      then have "uint v = sint v mod 2 ^ 16" by (subst (asm) word_uint_eq_iff) (simp only: uint_word_of_int, simp)
      then show ?thesis using n by (simp add: unat_eq_nat_uint nat_less_iff)
    qed
    then have v: "v AND 0x7FFF = v" using take_bit_low by (simp add: take_bit_eq_mask mask_eq_exp_minus_1)
    have "v AND 0x8000 = v AND (0x7FFF AND 0x8000)" by (subst v [symmetric]) (simp only: and.assoc)
    moreover have "v \<noteq> 0xFFFF" using \<open>unat v < 2 ^ 15\<close> by auto
    ultimately show ?thesis using False not_void by (simp add: encode_elevation_def decode_be_bytes)
  qed
qed

lemma elevation_min_is_lost: "decode_pair (encode_elevation 0x8000) = 0"
  by (simp add: encode_elevation_def decode_pair_def decode_elevation_def be_val_def be_bytes_2)

end
