(* ===== verification/Assets.thy ===== *)
theory Assets
  imports Buffered_Image
begin

text \<open>
  Assets and metadata as the dataset readers and writers pass them around: \<open>AssetType\<close> of
  \<open>src/src/types.rs\<close>, the provider enumeration of \<open>src/src/traits/asset.rs\<close>, the image view of
  \<open>src/src/traits/image.rs\<close> with its pixel type, and the metadata dictionary of
  \<open>src/src/traits/metadata.rs\<close>.  JSON values come from a crate; what is used of them is the
  record \<open>json_ops\<close>.
\<close>

datatype asset_type = Image | Text | Graphics | Data

record image_asset =
  asset_image :: image_provider
  pixel_value_type :: pixel_type

datatype ('i, 'o) asset_provider =
    ImageAsset 'i
  | TextAsset 'o
  | DataAsset 'o
  | GraphicsAsset 'o

fun asset_type_of :: "('i, 'o) asset_provider \<Rightarrow> asset_type" where
  "asset_type_of (ImageAsset i) = Image"
| "asset_type_of (TextAsset x) = Text"
| "asset_type_of (DataAsset x) = Data"
| "asset_type_of (GraphicsAsset x) = Graphics"

fun as_image :: "('i, 'o) asset_provider \<Rightarrow> 'i option" where
  "as_image (ImageAsset i) = Some i"
| "as_image _ = None"

text \<open>The values of metadata entries: made from text, numbers and truth values, and read back as
  text, as numbers, or printed.\<close>

record ('j, 'f) json_ops =
  json_of_text :: "nat list \<Rightarrow> 'j"
  json_of_nat :: "nat \<Rightarrow> 'j"
  json_of_float :: "'f \<Rightarrow> 'j"
  json_of_bool :: "bool \<Rightarrow> 'j"
  as_str :: "'j \<Rightarrow> nat list option"
  json_print :: "'j \<Rightarrow> nat list"
  as_json_u64 :: "'j \<Rightarrow> nat option"
  as_json_f64 :: "'j \<Rightarrow> 'f option"

record 'j metadata_provider =
  raw_metadata :: "byte list"
  entries :: "string option \<Rightarrow> string \<Rightarrow> 'j option"

definition metadata_value :: "'j metadata_provider \<Rightarrow> string \<Rightarrow> 'j option" where
  "metadata_value m key = entries m None key"

definition metadata_contains :: "'j metadata_provider \<Rightarrow> string \<Rightarrow> bool" where
  "metadata_contains m key \<longleftrightarrow> entries m None key \<noteq> None"

definition metadata_all :: "'j metadata_provider \<Rightarrow> string \<Rightarrow> 'j list" where
  "metadata_all m key = (case metadata_value m key of Some v \<Rightarrow> [v] | None \<Rightarrow> [])"

definition prefixed :: "string \<Rightarrow> (string \<Rightarrow> 'j option) \<Rightarrow> string \<Rightarrow> 'j option" where
  "prefixed p m = (\<lambda>k. if take (length p) k = p then m k else None)"

end
