(* ===== verification/Dted_Image.thy ===== *)
theory Dted_Image
  imports Dted_Records Owned_Buffer Assets
begin

text \<open>
  Reading DTED files: \<open>src/src/dted/reader.rs\<close>, \<open>src/src/dted/image.rs\<close> and
  \<open>src/src/dted/metadata.rs\<close>.  The file lies in a shared buffer of any backing; the header is
  read when the file is opened, the elevations when the one block of the image is asked for.
  Native byte order is little-endian.  Titles, media types and roles are constants.
\<close>

section \<open>Metadata\<close>

definition dted_entries :: "('j, 'f) json_ops \<Rightarrow> 'f uhl \<Rightarrow> dsi \<Rightarrow> acc \<Rightarrow> string \<Rightarrow> 'j option" where
  "dted_entries js u d a =
    (map_of
      ([(''dted:origin_longitude'', json_of_float js (origin_lon u)),
        (''dted:origin_latitude'', json_of_float js (origin_lat u)),
        (''dted:longitude_interval'', json_of_nat js (lon_interval_tenths u)),
        (''dted:latitude_interval'', json_of_nat js (lat_interval_tenths u)),
        (''dted:num_longitude_lines'', json_of_nat js (num_lon_lines u)),
        (''dted:num_latitude_points'', json_of_nat js (num_lat_points u))] @
       (case vertical_accuracy u of Some v \<Rightarrow> [(''dted:vertical_accuracy'', json_of_nat js v)] | None \<Rightarrow> []) @
       [(''dted:security_code'', json_of_text js [security_code u]),
        (''dted:multiple_accuracy'', json_of_bool js (multiple_accuracy u)),
        (''dted:level'', json_of_text js (product_level d)),
        (''dted:edition_number'', json_of_text js (edition_number d)),
        (''dted:compilation_date'', json_of_text js (compilation_date d)),
        (''dted:producer_code'', json_of_text js (producer_code d)),
        (''dted:vertical_datum'', json_of_text js (vertical_datum d)),
        (''dted:horizontal_datum'', json_of_text js (horizontal_datum d)),
        (''dted:partial_cell_indicator'', json_of_text js (partial_cell_indicator d)),
        (''dted:absolute_horizontal_accuracy'', json_of_text js (absolute_horizontal_accuracy a)),
        (''dted:absolute_vertical_accuracy'', json_of_text js (absolute_vertical_accuracy a)),
        (''dted:relative_vertical_accuracy'', json_of_text js (relative_vertical_accuracy a))]))"

definition dted_metadata :: "('j, 'f) json_ops \<Rightarrow> 'f uhl \<Rightarrow> dsi \<Rightarrow> acc \<Rightarrow> byte list \<Rightarrow> 'j metadata_provider" where
  "dted_metadata js u d a raw_header =
    (let es = dted_entries js u d a
     in \<lparr>raw_metadata = raw_header, entries = (\<lambda>p. case p of None \<Rightarrow> es | Some prefix \<Rightarrow> prefixed prefix es)\<rparr>)"

section \<open>The image\<close>

record 'j dted_image =
  source_data :: owned_buffer
  lon_lines :: nat
  lat_points :: nat
  image_record_size :: nat
  image_metadata :: "'j metadata_provider"

definition dted_image_new :: "owned_buffer \<Rightarrow> nat \<Rightarrow> nat \<Rightarrow> 'j metadata_provider \<Rightarrow> 'j dted_image" where
  "dted_image_new b lines points m =
    \<lparr>source_data = b, lon_lines = lines, lat_points = points, image_record_size = record_size points,
     image_metadata = m\<rparr>"

definition decode_post :: "byte list \<Rightarrow> nat \<Rightarrow> nat \<Rightarrow> nat \<Rightarrow> 16 word list \<Rightarrow> nat \<Rightarrow> (16 word list, codec_error) outcome" where
  "decode_post record_bytes rows cols col output row =
    (let byte_offset = 8 + (rows - 1 - row) * 2
     in and_then (index_at byte_offset record_bytes) (\<lambda>b0.
        and_then (index_at (byte_offset + 1) record_bytes) (\<lambda>b1.
          set_at (row * cols + col) (decode_elevation b0 b1) output)))"

definition decode_column :: "byte list \<Rightarrow> nat \<Rightarrow> nat \<Rightarrow> nat \<Rightarrow> 16 word list \<Rightarrow> nat \<Rightarrow> (16 word list, codec_error) outcome" where
  "decode_column d rec_size rows cols output col =
    (let record_offset = DATA_OFFSET + col * rec_size;
         record_end = record_offset + rec_size
     in if record_end > length d then Err Decode
        else
          and_then (slice record_offset record_end d) (\<lambda>record_bytes.
          and_then (index_at 0 record_bytes) (\<lambda>sentinel.
            if sentinel \<noteq> 0xAA then Err Decode
            else if \<not> validate_record_checksum record_bytes then Err Decode
            else try_fold (decode_post record_bytes rows cols col) output [0..<rows])))"

definition decode_grid :: "byte list \<Rightarrow> nat \<Rightarrow> nat \<Rightarrow> nat \<Rightarrow> (byte list, codec_error) outcome" where
  "decode_grid d rec_size rows cols =
    map_ok (\<lambda>output. concat (map (\<lambda>v. le_bytes 2 (unat v)) output))
      (try_fold (decode_column d rec_size rows cols) (replicate (rows * cols) 0) [0..<cols])"

definition decode_full_grid :: "'j dted_image \<Rightarrow> byte list buffer_call" where
  "decode_full_grid i =
    seq (materialize (source_data i)) (\<lambda>resident.
    seq (lift_outcome (as_bytes resident)) (\<lambda>d.
      lift_outcome (decode_grid d (image_record_size i) (lat_points i) (lon_lines i))))"

definition dted_has_block :: "'j dted_image \<Rightarrow> nat \<Rightarrow> nat \<Rightarrow> nat \<Rightarrow> bool" where
  "dted_has_block i row col level \<longleftrightarrow> level = 0 \<and> row = 0 \<and> col = 0"

definition dted_get_block :: "'j dted_image \<Rightarrow> nat \<Rightarrow> nat \<Rightarrow> nat \<Rightarrow> nat list option \<Rightarrow> block buffer_call" where
  "dted_get_block i row col level bands =
    (if level > 0 then lift_outcome (Err (InvalidResolutionLevel level))
     else if row \<noteq> 0 \<or> col \<noteq> 0 then lift_outcome (Err (InvalidBlockCoordinates row col level))
     else if (case bands of Some b \<Rightarrow> b = [] \<or> list_ex (\<lambda>i. i \<noteq> 0) b | None \<Rightarrow> False)
     then lift_outcome (Err (InvalidBlockCoordinates row col level))
     else seq (decode_full_grid i) (\<lambda>pixels. done_with (pixels, 1, lat_points i, lon_lines i)))"

text \<open>The image as a provider of blocks, the source in the state \<open>h\<close>.\<close>

definition dted_provider :: "'j dted_image \<Rightarrow> remote_heap \<Rightarrow> image_provider" where
  "dted_provider i h =
    \<lparr>get_block = (\<lambda>row col level bands. fst (dted_get_block i row col level bands h)),
     provider_has_block = (\<lambda>row col level. Ok (dted_has_block i row col level)), num_bands = 1,
     num_rows = lat_points i, num_columns = lon_lines i, num_pixels_per_block_horizontal = lon_lines i,
     num_pixels_per_block_vertical = lat_points i, num_bits_per_pixel = 16\<rparr>"

definition tile_byte_ranges :: "'j dted_image \<Rightarrow> nat \<times> nat \<Rightarrow> (nat \<times> nat) list option" where
  "tile_byte_ranges i = [(0, 0) \<mapsto> [(DATA_OFFSET, lon_lines i * image_record_size i)]]"

definition codec_configuration :: "'j dted_image \<Rightarrow> string \<Rightarrow> byte list option" where
  "codec_configuration i =
    [''dted_codec'' \<mapsto> [], ''num_lat_points'' \<mapsto> le_bytes 4 (lat_points i),
     ''num_lon_lines'' \<mapsto> le_bytes 4 (lon_lines i), ''record_size'' \<mapsto> le_bytes 4 (image_record_size i)]"

section \<open>The reader\<close>

record 'j dted_reader =
  dted_image_of :: "'j dted_image option"
  reader_metadata :: "'j metadata_provider"

definition dted_open :: "('j, 'f) json_ops \<Rightarrow> 'f angle_ops \<Rightarrow> owned_buffer \<Rightarrow> 'j dted_reader buffer_call" where
  "dted_open js ops b =
    (let total_len = buffer_len b
     in if total_len < DATA_OFFSET then lift_outcome (Err InvalidFormat)
        else
          seq (try_slice b 0 DATA_OFFSET) (\<lambda>header.
          seq (lift_outcome (as_bytes header)) (\<lambda>d.
          seq (lift_outcome (uhl_parse ops d)) (\<lambda>u.
          seq (lift_outcome (dsi_parse d)) (\<lambda>ds.
          seq (lift_outcome (acc_parse d)) (\<lambda>a.
            (let rec_size = record_size (num_lat_points u);
                 expected_size = DATA_OFFSET + num_lon_lines u * rec_size
             in if total_len < expected_size then lift_outcome (Err InvalidFormat)
                else
                  seq (lift_outcome (slice 0 DATA_OFFSET d)) (\<lambda>raw_header.
                    (let m = dted_metadata js u ds a raw_header
                     in done_with \<lparr>dted_image_of = Some (dted_image_new b (num_lon_lines u) (num_lat_points u) m),
                          reader_metadata = m\<rparr>)))))))))"

definition ELEVATION :: string where "ELEVATION = ''elevation''"

definition dted_get_asset :: "'j dted_reader \<Rightarrow> string \<Rightarrow> ('j dted_image, codec_error) outcome" where
  "dted_get_asset r key =
    (case dted_image_of r of
      Some i \<Rightarrow> if key = ELEVATION then Ok i else Err (AssetNotFound key)
    | None \<Rightarrow> Err (AssetNotFound key))"

definition dted_get_asset_keys :: "'j dted_reader \<Rightarrow> asset_type option \<Rightarrow> string list option \<Rightarrow> string list" where
  "dted_get_asset_keys r ty roles =
    (if ty = None \<or> ty = Some Image then
       (case dted_image_of r of
         Some i \<Rightarrow>
           (case roles of
             Some requested \<Rightarrow> if list_ex (\<lambda>x. x \<in> set [''data'', ''elevation'']) requested then [ELEVATION] else []
           | None \<Rightarrow> [ELEVATION])
       | None \<Rightarrow> [])
     else [])"

definition dted_has_asset :: "'j dted_reader \<Rightarrow> string \<Rightarrow> bool" where
  "dted_has_asset r key = (case dted_image_of r of Some i \<Rightarrow> key = ELEVATION | None \<Rightarrow> False)"

definition dted_reader_close :: "'j dted_reader \<Rightarrow> 'j dted_reader" where
  "dted_reader_close r = r\<lparr>dted_image_of := None\<rparr>"

end
