(* ===== verification/Dted_Writer.thy ===== *)
theory Dted_Writer
  imports Dted_Image
begin

text \<open>
  Writing DTED files: \<open>src/src/dted/writer.rs\<close>.  One image is queued; closing the writer sends
  the three header records, filled from the metadata, and one data record for every column to
  the output.  The output is a parameter: what \<open>write_all\<close> and \<open>flush\<close> do to it.
\<close>

section \<open>The output\<close>

record 's sink =
  sink_write :: "byte list \<Rightarrow> 's \<Rightarrow> bool \<times> 's"
  sink_flush :: "'s \<Rightarrow> bool \<times> 's"

definition sink_step :: "('s \<Rightarrow> bool \<times> 's) \<Rightarrow> ('s, unit, codec_error) call" where
  "sink_step m = (\<lambda>s. case m s of (ok, s') \<Rightarrow> (if ok then Ok () else Err IoError, s'))"

text \<open>\<open>Vec<u8>\<close> as an output.\<close>

definition vec_sink :: "byte list sink" where
  "vec_sink = \<lparr>sink_write = (\<lambda>bs s. (True, s @ bs)), sink_flush = (\<lambda>s. (True, s))\<rparr>"

section \<open>Header records\<close>

text \<open>\<open>copy_from_slice\<close> into a fixed range: the lengths must agree.\<close>

definition put_exact :: "nat \<Rightarrow> nat \<Rightarrow> byte list \<Rightarrow> byte list \<Rightarrow> (byte list, codec_error) outcome" where
  "put_exact a b src dst = (if length src = b - a then blit a src dst else Panic)"

definition get_metadata_str :: "('j, 'f) json_ops \<Rightarrow> 'j metadata_provider option \<Rightarrow> string \<Rightarrow> ustring option" where
  "get_metadata_str js m key =
    (case m of None \<Rightarrow> None
    | Some m \<Rightarrow> map_option (\<lambda>v. case as_str js v of Some s \<Rightarrow> s | None \<Rightarrow> json_print js v) (entries m None key))"

definition get_metadata_u16 :: "('j, 'f) json_ops \<Rightarrow> 'j metadata_provider option \<Rightarrow> string \<Rightarrow> nat option" where
  "get_metadata_u16 js m key =
    (case m of None \<Rightarrow> None
    | Some m \<Rightarrow> Option.bind (entries m None key) (\<lambda>v. map_option (\<lambda>n. n mod 2 ^ 16) (as_json_u64 js v)))"

definition get_metadata_f64 :: "('j, 'f) json_ops \<Rightarrow> 'j metadata_provider option \<Rightarrow> string \<Rightarrow> 'f option" where
  "get_metadata_f64 js m key =
    (case m of None \<Rightarrow> None | Some m \<Rightarrow> Option.bind (entries m None key) (as_json_f64 js))"

text \<open>Degrees, minutes and seconds of the magnitude; \<open>{:0w}\<close> of a number is \<open>zero_pad w\<close>.\<close>

definition angle_parts :: "'f angle_ops \<Rightarrow> 'f \<Rightarrow> nat \<times> nat \<times> nat" where
  "angle_parts ops degrees =
    (let magnitude = angle_abs ops degrees;
         d = angle_to_u32 ops magnitude;
         rem = angle_times ops (angle_minus ops magnitude (angle_of_int ops (int d))) (angle_of_int ops 60);
         m = angle_to_u32 ops rem;
         s = angle_to_u32 ops (angle_round ops (angle_times ops (angle_minus ops rem (angle_of_int ops (int m))) (angle_of_int ops 60)))
     in (d, m, s))"

definition eight_bytes :: "string \<Rightarrow> (byte list, codec_error) outcome" where
  "eight_bytes s = blit 0 (take 8 (map of_char s)) (replicate 8 0x20)"

definition format_longitude :: "'f angle_ops \<Rightarrow> 'f \<Rightarrow> (byte list, codec_error) outcome" where
  "format_longitude ops degrees =
    (let hemi = (if angle_less ops degrees (angle_of_int ops 0) then ''W'' else ''E'')
     in case angle_parts ops degrees of
       (d, m, s) \<Rightarrow> eight_bytes (zero_pad 3 d @ zero_pad 2 m @ zero_pad 2 s @ hemi))"

definition format_latitude :: "'f angle_ops \<Rightarrow> 'f \<Rightarrow> (byte list, codec_error) outcome" where
  "format_latitude ops degrees =
    (let hemi = (if angle_less ops degrees (angle_of_int ops 0) then ''S'' else ''N'')
     in case angle_parts ops degrees of
       (d, m, s) \<Rightarrow> eight_bytes (zero_pad 2 d @ zero_pad 2 m @ zero_pad 2 s @ hemi @ '' ''))"

definition number_bytes :: "string \<Rightarrow> byte list" where
  "number_bytes s = map of_char s"

text \<open>\<open>{:>4}\<close>: spaces in front.\<close>

definition right_align :: "nat \<Rightarrow> string \<Rightarrow> string" where
  "right_align w s = replicate (w - length s) CHR '' '' @ s"

definition security_byte :: "('j, 'f) json_ops \<Rightarrow> 'j metadata_provider option \<Rightarrow> byte" where
  "security_byte js m =
    (case get_metadata_str js m ''dted:security_code'' of
      Some s \<Rightarrow> (case utf8_encode s of b # _ \<Rightarrow> b | [] \<Rightarrow> 0x55)
    | None \<Rightarrow> 0x55)"

definition accuracy_bytes :: "nat option \<Rightarrow> byte list" where
  "accuracy_bytes va = (case va of Some v \<Rightarrow> number_bytes (zero_pad 4 v) | None \<Rightarrow> [0x4E, 0x41, 0x20, 0x20])"

definition or_else :: "'a \<Rightarrow> 'a option \<Rightarrow> 'a" where
  "or_else d x = (case x of Some y \<Rightarrow> y | None \<Rightarrow> d)"

definition build_uhl ::
    "('j, 'f) json_ops \<Rightarrow> 'f angle_ops \<Rightarrow> 'j metadata_provider option \<Rightarrow> nat \<Rightarrow> nat \<Rightarrow> (byte list, codec_error) outcome" where
  "build_uhl js ops m lines points =
    and_then (put_exact 0 3 [0x55, 0x48, 0x4C] (replicate UHL_SIZE 0x20)) (\<lambda>uhl.
    and_then (set_at 3 0x31 uhl) (\<lambda>uhl.
    and_then (and_then (format_longitude ops (or_else (angle_of_int ops 0) (get_metadata_f64 js m ''dted:origin_longitude'')))
      (\<lambda>lon. put_exact 4 12 lon uhl)) (\<lambda>uhl.
    and_then (and_then (format_latitude ops (or_else (angle_of_int ops 0) (get_metadata_f64 js m ''dted:origin_latitude'')))
      (\<lambda>lat. put_exact 12 20 lat uhl)) (\<lambda>uhl.
    and_then (put_exact 20 24 (number_bytes (zero_pad 4 (or_else 30 (get_metadata_u16 js m ''dted:longitude_interval'')))) uhl) (\<lambda>uhl.
    and_then (put_exact 24 28 (number_bytes (zero_pad 4 (or_else 30 (get_metadata_u16 js m ''dted:latitude_interval'')))) uhl) (\<lambda>uhl.
    and_then (put_exact 28 32 (accuracy_bytes (get_metadata_u16 js m ''dted:vertical_accuracy'')) uhl) (\<lambda>uhl.
    and_then (set_at 32 (security_byte js m) uhl) (\<lambda>uhl.
    and_then (put_exact 47 51 (number_bytes (right_align 4 (show_nat lines))) uhl) (\<lambda>uhl.
    and_then (put_exact 51 55 (number_bytes (right_align 4 (show_nat points))) uhl) (\<lambda>uhl.
    set_at 55 0x30 uhl))))))))))"

text \<open>A text of the metadata at its column, cut to its width.\<close>

definition put_text :: "('j, 'f) json_ops \<Rightarrow> 'j metadata_provider option \<Rightarrow> string \<Rightarrow> string \<Rightarrow> nat \<Rightarrow> nat \<Rightarrow> byte list \<Rightarrow> (byte list, codec_error) outcome" where
  "put_text js m key default_text offset w dst =
    blit offset (take w (utf8_encode (or_else (ascii default_text) (get_metadata_str js m key)))) dst"

definition build_dsi :: "('j, 'f) json_ops \<Rightarrow> 'j metadata_provider option \<Rightarrow> (byte list, codec_error) outcome" where
  "build_dsi js m =
    and_then (put_exact 0 3 [0x44, 0x53, 0x49] (replicate DSI_SIZE 0x20)) (\<lambda>dsi.
    and_then (set_at 3 (security_byte js m) dsi) (\<lambda>dsi.
    and_then (put_text js m ''dted:level'' ''DTED1'' 59 5 dsi) (\<lambda>dsi.
    and_then (put_text js m ''dted:producer_code'' '''' 65 8 dsi) (\<lambda>dsi.
    and_then (put_text js m ''dted:edition_number'' ''01'' 87 2 dsi) (\<lambda>dsi.
    and_then (put_text js m ''dted:compilation_date'' ''0101'' 93 4 dsi) (\<lambda>dsi.
    and_then (put_text js m ''dted:vertical_datum'' ''MSL'' 141 3 dsi) (\<lambda>dsi.
    and_then (put_text js m ''dted:horizontal_datum'' ''WGS84'' 144 5 dsi) (\<lambda>dsi.
    put_text js m ''dted:partial_cell_indicator'' ''00'' 289 2 dsi))))))))"

definition build_acc :: "('j, 'f) json_ops \<Rightarrow> 'j metadata_provider option \<Rightarrow> (byte list, codec_error) outcome" where
  "build_acc js m =
    and_then (put_exact 0 3 [0x41, 0x43, 0x43] (replicate ACC_SIZE 0x20)) (\<lambda>acc.
    and_then (put_text js m ''dted:absolute_horizontal_accuracy'' ''NA  '' 3 4 acc) (\<lambda>acc.
    and_then (put_text js m ''dted:absolute_vertical_accuracy'' ''NA  '' 7 4 acc) (\<lambda>acc.
    put_text js m ''dted:relative_vertical_accuracy'' ''NA  '' 11 4 acc)))"

section \<open>Data records\<close>

definition record_header :: "nat \<Rightarrow> byte list" where
  "record_header col =
    [0xAA, word_of_nat (col div 2 ^ 16 mod 256), word_of_nat (col div 2 ^ 8 mod 256), word_of_nat (col mod 256),
     word_of_nat (col div 2 ^ 8 mod 256), word_of_nat (col mod 256), 0, 0]"

definition data_record :: "16 word list \<Rightarrow> nat \<Rightarrow> nat \<Rightarrow> nat \<Rightarrow> (byte list, codec_error) outcome" where
  "data_record pixels rows cols col =
    map_ok (\<lambda>posts. (let body = record_header col @ concat posts in body @ be_bytes 4 (compute_record_checksum body)))
      (try_map (\<lambda>row. map_ok encode_elevation (index_at (row * cols + col) pixels)) (rev [0..<rows]))"

definition native_pixels :: "byte list \<Rightarrow> 16 word list" where
  "native_pixels d = map (\<lambda>i. word_of_nat (le_val (sample 2 d i))) [0..<length d div 2]"

section \<open>The writer\<close>

record ('j, 'o, 's) dted_writer =
  dted_output :: "'s option"
  output_poisoned :: bool
  image_queued :: bool
  dted_writer_metadata :: "'j metadata_provider option"
  dted_closed :: bool
  queued_assets :: "(image_asset, 'o) asset_provider list"

definition dted_writer_new :: "'s \<Rightarrow> ('j, 'o, 's) dted_writer" where
  "dted_writer_new out =
    \<lparr>dted_output = Some out, output_poisoned = False, image_queued = False, dted_writer_metadata = None,
     dted_closed = False, queued_assets = []\<rparr>"

definition dted_add_asset :: "string \<Rightarrow> (image_asset, 'o) asset_provider \<Rightarrow> (('j, 'o, 's) dted_writer, unit, codec_error) call" where
  "dted_add_asset key p = (\<lambda>w.
    if dted_closed w then (Err Unsupported, w)
    else if asset_type_of p \<noteq> Image then (Err Unsupported, w)
    else if image_queued w then (Err Unsupported, w)
    else case as_image p of
      None \<Rightarrow> (Err Unsupported, w)
    | Some i \<Rightarrow>
        if pixel_value_type i \<noteq> Int16 then (Err Unsupported, w)
        else if num_bands (asset_image i) \<noteq> 1 then (Err Unsupported, w)
        else (Ok (), w\<lparr>queued_assets := queued_assets w @ [p], image_queued := True\<rparr>))"

definition dted_set_metadata :: "'j metadata_provider \<Rightarrow> (('j, 'o, 's) dted_writer, unit, codec_error) call" where
  "dted_set_metadata m = (\<lambda>w. (Ok (), w\<lparr>dted_writer_metadata := Some m\<rparr>))"

text \<open>The data records one behind the other.\<close>

fun write_records :: "'s sink \<Rightarrow> 16 word list \<Rightarrow> nat \<Rightarrow> nat \<Rightarrow> nat list \<Rightarrow> ('s, unit, codec_error) call" where
  "write_records sk pixels rows cols [] = done_with ()"
| "write_records sk pixels rows cols (col # cs) =
    seq (lift_outcome (data_record pixels rows cols col)) (\<lambda>bs.
    seq (sink_step (sink_write sk bs)) (\<lambda>_. write_records sk pixels rows cols cs))"

text \<open>Everything \<open>close\<close> sends, once the pixels are there.\<close>

definition write_dted ::
    "'s sink \<Rightarrow> byte list \<Rightarrow> byte list \<Rightarrow> byte list \<Rightarrow> byte list \<Rightarrow> nat \<Rightarrow> nat \<Rightarrow> ('s, unit, codec_error) call" where
  "write_dted sk uhl dsi acc bsq rows cols =
    seq (sink_step (sink_write sk uhl)) (\<lambda>_.
    seq (sink_step (sink_write sk dsi)) (\<lambda>_.
    seq (sink_step (sink_write sk acc)) (\<lambda>_.
    seq (write_records sk (native_pixels bsq) rows cols [0..<cols]) (\<lambda>_.
    sink_step (sink_flush sk)))))"

definition take_output :: "(('j, 'o, 's) dted_writer, 's, codec_error) call" where
  "take_output = (\<lambda>w.
    if output_poisoned w then (Err Unsupported, w)
    else (ok_or Unsupported (dted_output w), w\<lparr>dted_output := None\<rparr>))"

text \<open>Closing returns the output, which the code drops after its last use.\<close>

definition dted_close ::
    "('j, 'f) json_ops \<Rightarrow> 'f angle_ops \<Rightarrow> 's sink \<Rightarrow> (('j, 'o, 's) dted_writer, 's option, codec_error) call" where
  "dted_close js ops sk = (\<lambda>w.
    if dted_closed w then (Ok None, w)
    else
      (let w = w\<lparr>dted_closed := True\<rparr>
       in case queued_assets w of
         [] \<Rightarrow> (Ok None, w)
       | asset # _ \<Rightarrow>
           seq (lift_outcome (ok_or Unsupported (as_image asset))) (\<lambda>i.
             (let p = asset_image i;
                  cols = num_columns p mod 2 ^ 16;
                  rows = num_rows p mod 2 ^ 16
              in seq (lift_outcome (reassemble_full_image p)) (\<lambda>(bsq, _, shape_rows, shape_cols).
                 if length bsq \<noteq> cols * rows * 2 then lift_outcome (Err Encode)
                 else if shape_rows \<noteq> rows \<or> shape_cols \<noteq> cols then lift_outcome (Err Encode)
                 else
                   (\<lambda>w. seq (lift_outcome (build_uhl js ops (dted_writer_metadata w) cols rows)) (\<lambda>uhl.
                     seq (lift_outcome (build_dsi js (dted_writer_metadata w))) (\<lambda>dsi.
                     seq (lift_outcome (build_acc js (dted_writer_metadata w))) (\<lambda>acc.
                     seq take_output (\<lambda>out.
                       lift_outcome (case write_dted sk uhl dsi acc bsq rows cols out of
                           (r, out') \<Rightarrow> map_ok (\<lambda>_. Some out') r))))) w)))) w))"

end
