(* ===== verification/Dted_Header.thy ===== *)
theory Dted_Header
  imports Dted_Writer
begin

text \<open>
  What the header written by \<open>src/src/dted/writer.rs\<close> holds column by column, and that the parsers
  of \<open>src/src/dted/records.rs\<close> find it there.
\<close>

section \<open>ASCII text\<close>

abbreviation digit_string :: "string \<Rightarrow> bool" where
  "digit_string s \<equiv> \<forall>c\<in>set s. \<exists>d<10. c = digit_char d"

lemma number_bytes_ascii: "number_bytes s = map word_of_nat (ascii s)"
  by (simp add: number_bytes_def ascii_def of_nat_of_char)

lemma length_number_bytes: "length (number_bytes s) = length s" by (simp add: number_bytes_def)

lemma from_utf8_lossy_ascii: "list_all (\<lambda>c. c < 0x80) t \<Longrightarrow> from_utf8_lossy (map word_of_nat t) = t"
proof (induction t)
  case (Cons c t)
  then have "utf8_next (word_of_nat c # map word_of_nat t) = Some (c, map word_of_nat t)"
    using utf8_next_char [of c "map word_of_nat t"] by (simp add: scalar_value_def utf8_char_ascii)
  then show ?case using Cons by (subst from_utf8_lossy.simps) simp
qed (simp add: from_utf8_lossy.simps)

lemma lossy_number_bytes: "list_all (\<lambda>c. c < 0x80) (ascii s) \<Longrightarrow> from_utf8_lossy (number_bytes s) = ascii s"
  by (simp only: number_bytes_ascii from_utf8_lossy_ascii)

lemma parse_zero_padded: "n < 2 ^ 16 \<Longrightarrow> parse_ascii_u16 (number_bytes (zero_pad w n)) = Ok n"
  using ascii_digits(1) [of "zero_pad w n"] zero_pad_digits
  by (simp add: parse_ascii_u16_def lossy_number_bytes parse_text_zero_pad)

lemma trim_leading_spaces:
  assumes "\<forall>c\<in>set s. \<not> is_white_space c"
  shows "trim_text (replicate k 0x20 @ s) = s"
proof -
  have "dropWhile is_white_space (replicate k 0x20 @ s) = dropWhile is_white_space s"
    by (induction k) (simp_all add: is_white_space_def)
  then show ?thesis using trim_id [of s] assms by (simp add: trim_text_def)
qed

lemma zero_pad_0: "zero_pad 0 n = show_nat n" by (simp add: zero_pad_def)

lemma parse_right_aligned:
  assumes "n < 2 ^ 16"
  shows "parse_ascii_u16 (number_bytes (right_align w (show_nat n))) = Ok n"
proof -
  have d: "digit_string (show_nat n)" using show_nat_digits by blast
  have split: "ascii (right_align w (show_nat n)) = replicate (w - length (show_nat n)) 0x20 @ ascii (show_nat n)"
    by (simp add: right_align_def ascii_def)
  have "list_all (\<lambda>c. c < 0x80) (ascii (right_align w (show_nat n)))"
    using ascii_digits(1) [OF d] unfolding split by (auto simp: list_all_iff)
  moreover have "trim_text (ascii (right_align w (show_nat n))) = ascii (show_nat n)"
    unfolding split by (rule trim_leading_spaces [OF ascii_digits(2) [OF d]])
  moreover have "parse_text (2 ^ 16) (ascii (show_nat n)) = Some n"
    using parse_text_zero_pad [OF assms, of 0] trim_id ascii_digits(2) [OF d] by (simp add: zero_pad_0)
  ultimately show ?thesis by (simp add: parse_ascii_u16_def lossy_number_bytes)
qed

lemma text_slice_ascii:
  assumes "list_all (\<lambda>c. c < 0x80) s" "a \<le> b" "b \<le> length s"
  shows "text_slice a b s = Ok (take (b - a) (drop a s))"
proof -
  have "continuation (word_of_nat c) = None" if "c < 0x80" for c
    using that by (simp add: continuation_def unat_of_nat_byte less_mult_imp_div_less)
  then have "is_char_boundary k (map word_of_nat s)" if "k \<le> length s" for k
    using assms(1) that by (auto simp: is_char_boundary_def list_all_length le_less)
  moreover have "utf8_decode (take (b - a) (drop a (map word_of_nat s))) = Some (take (b - a) (drop a s))"
    using assms(1) by (simp only: take_map drop_map, intro utf8_decode_ascii)
      (auto simp: list_all_iff dest: in_set_takeD in_set_dropD)
  ultimately show ?thesis using assms by (simp add: text_slice_def utf8_encode_ascii)
qed

section \<open>Coordinates\<close>

text \<open>\<open>f64::from_str\<close> accepts every string of digits.\<close>

definition decimal_parse :: "'f angle_ops \<Rightarrow> bool" where
  "decimal_parse ops \<longleftrightarrow> (\<forall>s. s \<noteq> [] \<longrightarrow> digit_string s \<longrightarrow> angle_parse ops (ascii s) \<noteq> None)"

text \<open>A coordinate whose degrees have at most \<open>k\<close> digits.\<close>

definition angle_fits :: "'f angle_ops \<Rightarrow> nat \<Rightarrow> 'f \<Rightarrow> bool" where
  "angle_fits ops k x \<longleftrightarrow> (case angle_parts ops x of (d, m, s) \<Rightarrow> d < 10 ^ k \<and> m < 100 \<and> s < 100)"

lemma parse_part_digits:
  assumes "decimal_parse ops" "list_all (\<lambda>c. c < 0x80) t" "a < b" "b \<le> length t"
    and "take (b - a) (drop a t) = ascii s" "digit_string s"
  shows "\<exists>x. parse_part ops a b t = Ok x"
proof -
  have "length (ascii s) = b - a" using assms(3,4) by (simp flip: assms(5))
  then have "s \<noteq> []" using assms(3) by (auto simp: ascii_def)
  then obtain x where "angle_parse ops (ascii s) = Some x" using assms(1,6) unfolding decimal_parse_def by blast
  moreover have "text_slice a b t = (Ok (ascii s) :: (ustring, codec_error) outcome)"
    using text_slice_ascii [OF assms(2), of a b] assms(3-5) by simp
  ultimately show ?thesis by (simp add: parse_part_def)
qed

lemma eight_bytes_full: "length s = 8 \<Longrightarrow> eight_bytes s = Ok (number_bytes s)"
  by (simp add: eight_bytes_def number_bytes_def)

lemma length_ascii [simp]: "length (ascii s) = length s" by (simp add: ascii_def)

lemma ascii_append: "ascii (s @ t) = ascii s @ ascii t" by (simp add: ascii_def)

lemma coordinate_text:
  assumes "digit_string ds" "c \<in> {CHR ''N'', CHR ''S'', CHR ''E'', CHR ''W''}"
  shows "list_all (\<lambda>c. c < 0x80) (ascii (ds @ [c]))" "trim_text (ascii (ds @ [c])) = ascii (ds @ [c])"
proof -
  show "list_all (\<lambda>c. c < 0x80) (ascii (ds @ [c]))"
    using ascii_digits(1) [OF assms(1)] assms(2) by (auto simp: ascii_append) (simp_all add: ascii_def)
  have "\<not> is_white_space x" if "x \<in> set (ascii (ds @ [c]))" for x
    using that ascii_digits(2) [OF assms(1)] assms(2) by (auto simp: ascii_append) (auto simp: ascii_def is_white_space_def)
  then show "trim_text (ascii (ds @ [c])) = ascii (ds @ [c])" by (rule trim_id)
qed

lemma longitude_reads:
  assumes "decimal_parse ops" "angle_fits ops 3 x"
  shows "\<exists>bs. format_longitude ops x = Ok bs \<and> length bs = 8 \<and> (\<exists>y. parse_longitude ops bs = Ok y)"
proof -
  obtain d m s where parts: "angle_parts ops x = (d, m, s)" and lt: "d < 10 ^ 3" "m < 10 ^ 2" "s < 10 ^ 2"
    using assms(2) by (cases "angle_parts ops x") (auto simp: angle_fits_def)
  obtain c where c: "(if angle_less ops x (angle_of_int ops 0) then ''W'' else ''E'') = [c]" "c = CHR ''W'' \<or> c = CHR ''E''"
    by (cases "angle_less ops x (angle_of_int ops 0)") auto
  define ds where "ds = zero_pad 3 d @ zero_pad 2 m @ zero_pad 2 s"
  have len: "length (zero_pad 3 d) = 3" "length (zero_pad 2 m) = 2" "length (zero_pad 2 s) = 2" "length ds = 7"
    using lt length_zero_pad by (auto simp: ds_def)
  have digits: "digit_string ds" using zero_pad_digits by (auto simp: ds_def)
  have bs: "format_longitude ops x = Ok (number_bytes (ds @ [c]))"
    using eight_bytes_full [of "ds @ [c]"] len by (simp add: format_longitude_def parts c(1) ds_def)
  let ?t = "ascii (ds @ [c])"
  have t: "list_all (\<lambda>c. c < 0x80) ?t" "trim_text ?t = ?t" using coordinate_text [OF digits, of c] c(2) by auto
  have split: "?t = ascii (zero_pad 3 d) @ ascii (zero_pad 2 m) @ ascii (zero_pad 2 s) @ ascii [c]"
    by (simp add: ds_def ascii_append)
  have "\<exists>x. parse_part ops 0 3 ?t = Ok x"
    by (rule parse_part_digits [OF assms(1) t(1), of _ _ "zero_pad 3 d"]) (use len zero_pad_digits in \<open>auto simp: split\<close>)
  moreover have "\<exists>x. parse_part ops 3 5 ?t = Ok x"
    by (rule parse_part_digits [OF assms(1) t(1), of _ _ "zero_pad 2 m"]) (use len zero_pad_digits in \<open>auto simp: split\<close>)
  moreover have "\<exists>x. parse_part ops 5 7 ?t = Ok x"
    by (rule parse_part_digits [OF assms(1) t(1), of _ _ "zero_pad 2 s"]) (use len zero_pad_digits in \<open>auto simp: split\<close>)
  moreover have e: "utf8_encode ?t = number_bytes (ds @ [c])" by (simp only: utf8_encode_ascii [OF t(1)] number_bytes_ascii)
  moreover have "index_at 7 (number_bytes (ds @ [c])) = (Ok (of_char c) :: (byte, codec_error) outcome)"
    using len by (simp add: index_at_def nth_append number_bytes_def)
  ultimately have "\<exists>y. parse_longitude ops (number_bytes (ds @ [c])) = Ok y"
    using c(2) t len lossy_number_bytes [OF t(1)] by (auto simp: parse_longitude_def Let_def length_number_bytes)
  then show ?thesis using bs len by (simp add: number_bytes_def)
qed

lemma latitude_reads:
  assumes "decimal_parse ops" "angle_fits ops 2 x"
  shows "\<exists>bs. format_latitude ops x = Ok bs \<and> length bs = 8 \<and> (\<exists>y. parse_latitude ops bs = Ok y)"
proof -
  obtain d m s where parts: "angle_parts ops x = (d, m, s)" and lt: "d < 10 ^ 2" "m < 10 ^ 2" "s < 10 ^ 2"
    using assms(2) by (cases "angle_parts ops x") (auto simp: angle_fits_def)
  obtain c where c: "(if angle_less ops x (angle_of_int ops 0) then ''S'' else ''N'') = [c]" "c = CHR ''S'' \<or> c = CHR ''N''"
    by (cases "angle_less ops x (angle_of_int ops 0)") auto
  define ds where "ds = zero_pad 2 d @ zero_pad 2 m @ zero_pad 2 s"
  have len: "length (zero_pad 2 d) = 2" "length (zero_pad 2 m) = 2" "length (zero_pad 2 s) = 2" "length ds = 6"
    using lt length_zero_pad by (auto simp: ds_def)
  have digits: "digit_string ds" using zero_pad_digits by (auto simp: ds_def)
  have bs: "format_latitude ops x = Ok (number_bytes (ds @ [c, CHR '' '']))"
    using eight_bytes_full [of "ds @ [c, CHR '' '']"] len by (simp add: format_latitude_def parts c(1) ds_def)
  have low: "\<not> is_hemisphere b" if "b \<in> set (number_bytes ds)" for b
  proof -
    obtain x where x: "x \<in> set ds" "b = of_char x" using \<open>b \<in> set (number_bytes ds)\<close> by (auto simp: number_bytes_def)
    obtain k where "k < 10" "b = of_char (digit_char k)" using bspec [OF digits x(1)] x(2) by auto
    then have "b = word_of_nat (48 + k)" using of_char_digit by (metis of_nat_of_char)
    then have "unat b = 48 + k" using unat_of_nat_byte [of "48 + k"] \<open>k < 10\<close> by simp
    then show ?thesis using \<open>k < 10\<close> by (auto simp: is_hemisphere_def)
  qed
  have hemi: "is_hemisphere (of_char c)" using c(2) by (auto simp: is_hemisphere_def)
  have split: "number_bytes (ds @ [c, CHR '' '']) = number_bytes ds @ [of_char c, 0x20]" by (simp add: number_bytes_def)
  have first: "takeWhile (\<lambda>b. \<not> is_hemisphere b) (number_bytes (ds @ [c, CHR '' ''])) = number_bytes ds"
    unfolding split using low hemi by (simp add: takeWhile_append)
  have last: "find is_hemisphere (rev (number_bytes (ds @ [c, CHR '' '']))) = Some (of_char c)"
    unfolding split using hemi by (simp add: is_hemisphere_def)
  have t: "list_all (\<lambda>c. c < 0x80) (ascii ds)" "trim_text (ascii ds) = ascii ds"
    using ascii_digits [OF digits] trim_id by blast+
  have e: "utf8_encode (ascii ds) = number_bytes ds" by (simp only: utf8_encode_ascii [OF t(1)] number_bytes_ascii)
  have parts_of: "ascii ds = ascii (zero_pad 2 d) @ ascii (zero_pad 2 m) @ ascii (zero_pad 2 s)"
    by (simp add: ds_def ascii_append)
  have "\<exists>x. parse_part ops 0 2 (ascii ds) = Ok x"
    by (rule parse_part_digits [OF assms(1) t(1), of _ _ "zero_pad 2 d"]) (use len zero_pad_digits in \<open>auto simp: parts_of\<close>)
  moreover have "\<exists>x. parse_part ops 2 4 (ascii ds) = Ok x"
    by (rule parse_part_digits [OF assms(1) t(1), of _ _ "zero_pad 2 m"]) (use len zero_pad_digits in \<open>auto simp: parts_of\<close>)
  moreover have "\<exists>x. parse_part ops 4 6 (ascii ds) = Ok x"
    by (rule parse_part_digits [OF assms(1) t(1), of _ _ "zero_pad 2 s"]) (use len zero_pad_digits in \<open>auto simp: parts_of\<close>)
  ultimately have "\<exists>y. parse_latitude ops (number_bytes (ds @ [c, CHR '' ''])) = Ok y"
    using len by (auto simp: parse_latitude_def first last lossy_number_bytes t e Let_def length_number_bytes)
  then show ?thesis using bs len by (simp add: number_bytes_def)
qed

section \<open>Columns\<close>

definition column :: "nat \<Rightarrow> byte list \<Rightarrow> byte list \<Rightarrow> bool" where
  "column k x bs \<longleftrightarrow> k + length x \<le> length bs \<and> take (length x) (drop k bs) = x"

lemma column_slice: "column a x d \<Longrightarrow> b = a + length x \<Longrightarrow> slice a b d = Ok x"
  by (simp add: column_def)

lemma column_index: "column a [x] d \<Longrightarrow> index_at a d = Ok x"
  by (auto simp: column_def index_at_def take_Suc hd_drop_conv_nth)

lemma column_append: "column k x d \<Longrightarrow> column k x (d @ r)"
  by (auto simp: column_def)

lemma column_here [simp]: "a + length src \<le> length dst \<Longrightarrow> column a src (overwrite a src dst)"
  by (simp add: column_def overwrite_def)

lemma column_elsewhere [simp]:
  assumes "k + length x \<le> a \<or> a + length src \<le> k" "a + length src \<le> length dst"
  shows "column k x (overwrite a src dst) \<longleftrightarrow> column k x dst"
  using assms by (auto simp: column_def overwrite_def take_drop)

text \<open>Columns written from left to right are all there in the end.\<close>

definition put_columns :: "(nat \<times> byte list) list \<Rightarrow> byte list \<Rightarrow> byte list" where
  "put_columns ws dst = fold (\<lambda>(a, x). overwrite a x) ws dst"

lemma put_columns_simps:
  "put_columns [] dst = dst" "put_columns ((a, x) # ws) dst = put_columns ws (overwrite a x dst)"
  by (simp_all add: put_columns_def)

lemma put_columns_holds:
  assumes "sorted_wrt (\<lambda>(a, x) (b, y). a + length x \<le> b) ws" "\<forall>(a, x)\<in>set ws. a + length x \<le> length dst"
  shows "length (put_columns ws dst) = length dst \<and> (\<forall>(a, x)\<in>set ws. column a x (put_columns ws dst)) \<and>
    (\<forall>k x. (\<forall>(a, y)\<in>set ws. k + length x \<le> a \<or> a + length y \<le> k) \<longrightarrow> column k x dst \<longrightarrow> column k x (put_columns ws dst))"
  using assms
proof (induction ws arbitrary: dst)
  case (Cons w ws)
  obtain a x where w: "w = (a, x)" by (cases w)
  have here: "a + length x \<le> length dst" using Cons.prems(2) w by simp
  then have IH: "length (put_columns ws (overwrite a x dst)) = length dst"
    "\<forall>(b, y)\<in>set ws. column b y (put_columns ws (overwrite a x dst))"
    "\<And>k z. \<forall>(b, y)\<in>set ws. k + length z \<le> b \<or> b + length y \<le> k \<Longrightarrow> column k z (overwrite a x dst) \<Longrightarrow>
      column k z (put_columns ws (overwrite a x dst))"
    using Cons.IH [of "overwrite a x dst"] Cons.prems by auto
  have "column a x (put_columns ws (overwrite a x dst))"
    by (rule IH(3)) (use Cons.prems(1) w here in auto)
  then show ?case using IH here w by (auto simp: put_columns_simps)
qed (simp add: put_columns_simps)

lemma set_at_column: "i < length xs \<Longrightarrow> set_at i v xs = Ok (overwrite i [v] xs)"
  by (simp add: set_at_def overwrite_def upd_conv_take_nth_drop)

lemma put_exact_column: "length src = b - a \<Longrightarrow> a + length src \<le> length dst \<Longrightarrow> put_exact a b src dst = Ok (overwrite a src dst)"
  by (simp add: put_exact_def)

section \<open>The header records\<close>

text \<open>The dimensions and metadata that fit their columns.\<close>

definition header_fits :: "('j, 'f) json_ops \<Rightarrow> 'f angle_ops \<Rightarrow> 'j metadata_provider option \<Rightarrow> bool" where
  "header_fits js ops m \<longleftrightarrow>
    angle_fits ops 3 (or_else (angle_of_int ops 0) (get_metadata_f64 js m ''dted:origin_longitude'')) \<and>
    angle_fits ops 2 (or_else (angle_of_int ops 0) (get_metadata_f64 js m ''dted:origin_latitude'')) \<and>
    or_else 30 (get_metadata_u16 js m ''dted:longitude_interval'') < 10 ^ 4 \<and>
    or_else 30 (get_metadata_u16 js m ''dted:latitude_interval'') < 10 ^ 4 \<and>
    (\<forall>v. get_metadata_u16 js m ''dted:vertical_accuracy'' = Some v \<longrightarrow> v < 10 ^ 4)"

lemma build_uhl_columns:
  assumes "header_fits js ops m" "decimal_parse ops" "lines < 10 ^ 4" "points < 10 ^ 4"
  shows "\<exists>uhl lon lat. build_uhl js ops m lines points = Ok uhl \<and> length uhl = UHL_SIZE \<and>
    length lon = 8 \<and> length lat = 8 \<and> is_ok (parse_longitude ops lon) \<and> is_ok (parse_latitude ops lat) \<and>
    column 0 [0x55, 0x48, 0x4C] uhl \<and> column 4 lon uhl \<and> column 12 lat uhl \<and>
    column 20 (number_bytes (zero_pad 4 (or_else 30 (get_metadata_u16 js m ''dted:longitude_interval'')))) uhl \<and>
    column 24 (number_bytes (zero_pad 4 (or_else 30 (get_metadata_u16 js m ''dted:latitude_interval'')))) uhl \<and>
    column 28 (accuracy_bytes (get_metadata_u16 js m ''dted:vertical_accuracy'')) uhl \<and>
    column 32 [security_byte js m] uhl \<and>
    column 47 (number_bytes (right_align 4 (show_nat lines))) uhl \<and>
    column 51 (number_bytes (right_align 4 (show_nat points))) uhl \<and> column 55 [0x30] uhl"
proof -
  let ?lon = "or_else (angle_of_int ops 0) (get_metadata_f64 js m ''dted:origin_longitude'')"
  let ?lat = "or_else (angle_of_int ops 0) (get_metadata_f64 js m ''dted:origin_latitude'')"
  obtain lon where lon: "format_longitude ops ?lon = Ok lon" "length lon = 8" "is_ok (parse_longitude ops lon)"
    using longitude_reads [OF assms(2), of ?lon] assms(1) by (auto simp: header_fits_def is_ok_iff)
  obtain lat where lat: "format_latitude ops ?lat = Ok lat" "length lat = 8" "is_ok (parse_latitude ops lat)"
    using latitude_reads [OF assms(2), of ?lat] assms(1) by (auto simp: header_fits_def is_ok_iff)
  define i1 where "i1 = number_bytes (zero_pad 4 (or_else 30 (get_metadata_u16 js m ''dted:longitude_interval'')))"
  define i2 where "i2 = number_bytes (zero_pad 4 (or_else 30 (get_metadata_u16 js m ''dted:latitude_interval'')))"
  define va where "va = accuracy_bytes (get_metadata_u16 js m ''dted:vertical_accuracy'')"
  define n1 where "n1 = number_bytes (right_align 4 (show_nat lines))"
  define n2 where "n2 = number_bytes (right_align 4 (show_nat points))"
  have len: "length i1 = 4" "length i2 = 4" "length va = 4" "length n1 = 4" "length n2 = 4"
    using assms length_zero_pad [where w = 4] length_show_nat_le [where w = 4]
    by (auto simp: i1_def i2_def va_def n1_def n2_def header_fits_def length_number_bytes accuracy_bytes_def
        right_align_def split: option.split)
  define ws :: "(nat \<times> byte list) list" where "ws = [(0, [0x55, 0x48, 0x4C]), (3, [0x31]), (4, lon), (12, lat), (20, i1), (24, i2), (28, va),
    (32, [security_byte js m]), (47, n1), (51, n2), (55, [0x30])]"
  define uhl where "uhl = put_columns ws (replicate UHL_SIZE 0x20)"
  have build: "build_uhl js ops m lines points = Ok uhl"
    unfolding build_uhl_def i1_def [symmetric] i2_def [symmetric] va_def [symmetric] n1_def [symmetric] n2_def [symmetric]
    by (simp add: lon lat len put_exact_column set_at_column UHL_SIZE_def uhl_def ws_def put_columns_simps)
  have "sorted_wrt (\<lambda>(a, x) (b, y). a + length x \<le> b) ws" "\<forall>(a, x)\<in>set ws. a + length x \<le> length (replicate UHL_SIZE (0x20 :: byte))"
    by (simp_all add: ws_def lon lat len UHL_SIZE_def)
  from put_columns_holds [OF this]
  have "length uhl = UHL_SIZE" "\<forall>(a, x)\<in>set ws. column a x uhl" by (simp_all add: uhl_def)
  then show ?thesis
    unfolding i1_def [symmetric] i2_def [symmetric] va_def [symmetric] n1_def [symmetric] n2_def [symmetric]
    by (intro exI [of _ uhl] exI [of _ lon] exI [of _ lat]) (simp add: build lon lat ws_def)
qed

text \<open>The numbers of the metadata as the header keeps them.\<close>

definition kept_numbers :: "('j, 'f) json_ops \<Rightarrow> 'j metadata_provider option \<Rightarrow> 'f uhl \<Rightarrow> bool" where
  "kept_numbers js m u \<longleftrightarrow>
    lon_interval_tenths u = or_else 30 (get_metadata_u16 js m ''dted:longitude_interval'') \<and>
    lat_interval_tenths u = or_else 30 (get_metadata_u16 js m ''dted:latitude_interval'') \<and>
    vertical_accuracy u = get_metadata_u16 js m ''dted:vertical_accuracy''"

lemma accuracy_kept:
  assumes "header_fits js ops m"
  shows "parse_optional_u16 (accuracy_bytes (get_metadata_u16 js m ''dted:vertical_accuracy'')) =
    get_metadata_u16 js m ''dted:vertical_accuracy''"
proof (cases "get_metadata_u16 js m ''dted:vertical_accuracy''")
  case None
  have "from_utf8_lossy (map word_of_nat [0x4E, 0x41, 0x20, 0x20]) = [0x4E, 0x41, 0x20, 0x20]"
    by (rule from_utf8_lossy_ascii) simp
  then have "from_utf8_lossy [0x4E, 0x41, 0x20, 0x20] = [0x4E, 0x41, 0x20, 0x20]" by simp
  then show ?thesis unfolding None accuracy_bytes_def
    by (simp add: parse_optional_u16_def trim_text_def trim_end_matches_def is_white_space_def ascii_def)
next
  case (Some v)
  have v: "v < 2 ^ 16" using assms Some by (auto simp: header_fits_def)
  have d: "digit_string (zero_pad 4 v)" using zero_pad_digits by blast
  have t: "trim_text (ascii (zero_pad 4 v)) = ascii (zero_pad 4 v)" using trim_id ascii_digits(2) [OF d] by blast
  have "ascii (zero_pad 4 v) \<noteq> ascii ''NA''" "ascii (zero_pad 4 v) \<noteq> []"
  proof -
    have "length (zero_pad 4 v) = 4" using length_zero_pad [of v 4] assms Some by (auto simp: header_fits_def)
    then have "length (ascii (zero_pad 4 v)) = 4" by (simp add: ascii_def)
    then show "ascii (zero_pad 4 v) \<noteq> ascii ''NA''" "ascii (zero_pad 4 v) \<noteq> []" by (auto simp: ascii_def)
  qed
  then show ?thesis unfolding Some accuracy_bytes_def
    using parse_text_zero_pad [OF v, of 4] by (simp add: parse_optional_u16_def lossy_number_bytes ascii_digits(1) [OF d] t)
qed

lemma uhl_reads:
  assumes "header_fits js ops m" "decimal_parse ops" "lines < 10 ^ 4" "points < 10 ^ 4"
  shows "\<exists>uhl. build_uhl js ops m lines points = Ok uhl \<and> length uhl = UHL_SIZE \<and>
    (\<forall>rest. \<exists>u. uhl_parse ops (uhl @ rest) = Ok u \<and> num_lon_lines u = lines \<and> num_lat_points u = points \<and> kept_numbers js m u)"
proof -
  from build_uhl_columns [OF assms]
  obtain uhl lon lat where u: "build_uhl js ops m lines points = Ok uhl" "length uhl = UHL_SIZE"
    and len: "length lon = 8" "length lat = 8" and ok: "is_ok (parse_longitude ops lon)" "is_ok (parse_latitude ops lat)"
    and c: "column 0 [0x55, 0x48, 0x4C] uhl" "column 4 lon uhl" "column 12 lat uhl"
      "column 20 (number_bytes (zero_pad 4 (or_else 30 (get_metadata_u16 js m ''dted:longitude_interval'')))) uhl"
      "column 24 (number_bytes (zero_pad 4 (or_else 30 (get_metadata_u16 js m ''dted:latitude_interval'')))) uhl"
      "column 28 (accuracy_bytes (get_metadata_u16 js m ''dted:vertical_accuracy'')) uhl"
      "column 32 [security_byte js m] uhl"
      "column 47 (number_bytes (right_align 4 (show_nat lines))) uhl"
      "column 51 (number_bytes (right_align 4 (show_nat points))) uhl" "column 55 [0x30] uhl"
    by blast
  have num: "length (number_bytes (zero_pad 4 n)) = 4" "length (number_bytes (right_align 4 (show_nat n))) = 4" if "n < 10 ^ 4" for n
    using that length_zero_pad [of n 4] length_show_nat_le [of n 4] by (simp_all add: length_number_bytes right_align_def)
  have va: "length (accuracy_bytes (get_metadata_u16 js m ''dted:vertical_accuracy'')) = 4"
    using assms(1) num(1) by (auto simp: accuracy_bytes_def header_fits_def split: option.split)
  have "\<exists>r. uhl_parse ops (uhl @ rest) = Ok r \<and> num_lon_lines r = lines \<and> num_lat_points r = points \<and> kept_numbers js m r" for rest
  proof -
    note c' = c [THEN column_append, of rest]
    note read = column_slice [OF c'(1), of 3] column_slice [OF c'(2), of 12] column_slice [OF c'(3), of 20]
      column_slice [OF c'(4), of 24] column_slice [OF c'(5), of 28] column_slice [OF c'(6), of 32]
      column_slice [OF c'(8), of 51] column_slice [OF c'(9), of 55] column_index [OF c'(7)] column_index [OF c'(10)]
    have fits: "or_else 30 (get_metadata_u16 js m ''dted:longitude_interval'') < 10 ^ 4"
      "or_else 30 (get_metadata_u16 js m ''dted:latitude_interval'') < 10 ^ 4"
      using assms(1) by (simp_all add: header_fits_def)
    have "length (uhl @ rest) \<ge> UHL_SIZE" using u(2) by simp
    then show ?thesis
      using ok assms(3,4) fits
      by (auto simp: kept_numbers_def accuracy_kept [OF assms(1)] uhl_parse_def read len num va parse_zero_padded parse_right_aligned is_ok_iff simp del: length_append slice_in)
  qed
  then show ?thesis using u by blast
qed

text \<open>The bytes a text puts into a column of width \<open>w\<close>, and the column with its padding.\<close>

definition text_column :: "('j, 'f) json_ops \<Rightarrow> 'j metadata_provider option \<Rightarrow> string \<Rightarrow> string \<Rightarrow> nat \<Rightarrow> byte list" where
  "text_column js m key default_text w = take w (utf8_encode (or_else (ascii default_text) (get_metadata_str js m key)))"

definition padded_column :: "nat \<Rightarrow> byte list \<Rightarrow> byte list" where
  "padded_column w x = x @ replicate (w - length x) 0x20"

lemma length_text_column: "length (text_column js m key t w) \<le> w"
  by (simp add: text_column_def)

lemma length_padded_column [simp]: "length x \<le> w \<Longrightarrow> length (padded_column w x) = w"
  by (simp add: padded_column_def)

lemma put_text_column:
  "offset + w \<le> length dst \<Longrightarrow> put_text js m key t offset w dst = Ok (overwrite offset (text_column js m key t w) dst)"
  using length_text_column [of js m key t w] by (simp add: put_text_def flip: text_column_def)

text \<open>Texts put into a record of blanks are padded to the width of their columns.\<close>

lemma column_join: "column k x d \<Longrightarrow> column (k + length x) y d \<Longrightarrow> column k (x @ y) d"
  by (auto simp: column_def take_add add.commute)

lemma blank_columns:
  assumes "sorted_wrt (\<lambda>(a, w, x) (b, _, _). a + w \<le> b) ws" "\<forall>(a, w, x)\<in>set ws. length x \<le> w \<and> a + w \<le> n"
  shows "length (put_columns (map (\<lambda>(a, w, x). (a, x)) ws) (replicate n 0x20)) = n \<and>
    (\<forall>(a, w, x)\<in>set ws. column a (padded_column w x) (put_columns (map (\<lambda>(a, w, x). (a, x)) ws) (replicate n 0x20)))"
proof -
  let ?vs = "map (\<lambda>(a, w, x). (a, x)) ws"
  have s: "sorted_wrt (\<lambda>(a, x) (b, y). a + length x \<le> b) ?vs"
    unfolding sorted_wrt_map by (rule sorted_wrt_mono_rel [OF _ assms(1)]) (use assms(2) in force)
  have r: "\<forall>(a, x)\<in>set ?vs. a + length x \<le> length (replicate n (0x20 :: byte))" using assms(2) by force
  from put_columns_holds [OF s r]
  have len: "length (put_columns ?vs (replicate n 0x20)) = n"
    and here: "\<forall>(a, x)\<in>set ?vs. column a x (put_columns ?vs (replicate n 0x20))"
    and kept: "\<And>k x. \<forall>(a, y)\<in>set ?vs. k + length x \<le> a \<or> a + length y \<le> k \<Longrightarrow>
      column k x (replicate n 0x20) \<Longrightarrow> column k x (put_columns ?vs (replicate n 0x20))"
    by auto
  have "column a (padded_column w x) (put_columns ?vs (replicate n 0x20))" if "(a, w, x) \<in> set ws" for a w x
    unfolding padded_column_def
  proof (rule column_join)
    show "column a x (put_columns ?vs (replicate n 0x20))" using here that by force
    show "column (a + length x) (replicate (w - length x) 0x20) (put_columns ?vs (replicate n 0x20))"
    proof (rule kept)
      obtain i where i: "i < length ws" "ws ! i = (a, w, x)" using \<open>(a, w, x) \<in> set ws\<close> by (metis in_set_conv_nth)
      have "a + length x + (w - length x) \<le> fst (ws ! j) \<or> fst (ws ! j) + length (snd (snd (ws ! j))) \<le> a + length x"
        if "j < length ws" for j
      proof (cases "j \<le> i")
        case True
        then show ?thesis
        proof (cases "j = i")
          case False
          then have "fst (ws ! j) + fst (snd (ws ! j)) \<le> a"
            using sorted_wrt_nth_less [OF assms(1), of j i] True i by (auto simp: case_prod_beta)
          moreover have "length (snd (snd (ws ! j))) \<le> fst (snd (ws ! j))"
            using assms(2) nth_mem [OF that] by (auto simp: case_prod_beta)
          ultimately show ?thesis by linarith
        qed (use i in simp)
      next
        case False
        then have "a + w \<le> fst (ws ! j)"
          using sorted_wrt_nth_less [OF assms(1), of i j] that i by (auto simp: case_prod_beta)
        moreover have "length x \<le> w" using assms(2) \<open>(a, w, x) \<in> set ws\<close> by blast
        ultimately show ?thesis by linarith
      qed
      then show "\<forall>(b, y)\<in>set ?vs. a + length x + length (replicate (w - length x) (0x20 :: byte)) \<le> b \<or> b + length y \<le> a + length x"
        by (auto simp: in_set_conv_nth) (metis fst_conv snd_conv)
      show "column (a + length x) (replicate (w - length x) 0x20) (replicate n 0x20)"
        using assms(2) that by (auto simp: column_def)
    qed
  qed
  then show ?thesis using len by blast
qed

end
