(* ===== verification/Dted_Roundtrip.thy ===== *)
theory Dted_Roundtrip
  imports Dted_Header
begin

text \<open>
  A file written by the DTED writer, opened by the DTED reader: the header parses, every data
  record lies at its place with a valid checksum, and the block of the image is the image that
  was written.
\<close>

section \<open>DSI and ACC\<close>

lemma column_ascii_field: "column k x d \<Longrightarrow> length x = w \<Longrightarrow> ascii_field d k w = Ok (trim_text (from_utf8_lossy x))"
  by (simp add: ascii_field_def column_slice)

lemma length_put_text_column:
  "offset + w \<le> length dst \<Longrightarrow> length (overwrite offset (text_column js m key t w) dst) = length dst"
  using length_text_column [of js m key t w] by simp

text \<open>The text a field of the metadata becomes when it has been written and read.\<close>

definition kept_text :: "('j, 'f) json_ops \<Rightarrow> 'j metadata_provider option \<Rightarrow> string \<Rightarrow> string \<Rightarrow> nat \<Rightarrow> ustring" where
  "kept_text js m key default_text w = trim_text (from_utf8_lossy (padded_column w (text_column js m key default_text w)))"

definition kept_dsi :: "('j, 'f) json_ops \<Rightarrow> 'j metadata_provider option \<Rightarrow> dsi" where
  "kept_dsi js m =
    \<lparr>dsi_security_code = trim_text (from_utf8_lossy [security_byte js m]),
     product_level = kept_text js m ''dted:level'' ''DTED1'' 5,
     edition_number = kept_text js m ''dted:edition_number'' ''01'' 2,
     compilation_date = kept_text js m ''dted:compilation_date'' ''0101'' 4,
     producer_code = kept_text js m ''dted:producer_code'' '''' 8,
     vertical_datum = kept_text js m ''dted:vertical_datum'' ''MSL'' 3,
     horizontal_datum = kept_text js m ''dted:horizontal_datum'' ''WGS84'' 5,
     partial_cell_indicator = kept_text js m ''dted:partial_cell_indicator'' ''00'' 2\<rparr>"

definition kept_acc :: "('j, 'f) json_ops \<Rightarrow> 'j metadata_provider option \<Rightarrow> acc" where
  "kept_acc js m =
    \<lparr>absolute_horizontal_accuracy = kept_text js m ''dted:absolute_horizontal_accuracy'' ''NA  '' 4,
     absolute_vertical_accuracy = kept_text js m ''dted:absolute_vertical_accuracy'' ''NA  '' 4,
     relative_vertical_accuracy = kept_text js m ''dted:relative_vertical_accuracy'' ''NA  '' 4\<rparr>"

lemma dsi_reads:
  "\<exists>d. build_dsi js m = Ok d \<and> length d = DSI_SIZE \<and>
    (\<forall>uhl rest. length uhl = UHL_SIZE \<longrightarrow> dsi_parse (uhl @ d @ rest) =
      Ok (kept_dsi js m))"
proof -
  let ?T = "text_column js m"
  define ws :: "(nat \<times> nat \<times> byte list) list" where
    "ws = [(0, 3, [0x44, 0x53, 0x49]), (3, 1, [security_byte js m]), (59, 5, ?T ''dted:level'' ''DTED1'' 5),
      (65, 8, ?T ''dted:producer_code'' '''' 8), (87, 2, ?T ''dted:edition_number'' ''01'' 2),
      (93, 4, ?T ''dted:compilation_date'' ''0101'' 4), (141, 3, ?T ''dted:vertical_datum'' ''MSL'' 3),
      (144, 5, ?T ''dted:horizontal_datum'' ''WGS84'' 5), (289, 2, ?T ''dted:partial_cell_indicator'' ''00'' 2)]"
  define d where "d = put_columns (map (\<lambda>(a, w, x). (a, x)) ws) (replicate DSI_SIZE 0x20)"
  have build: "build_dsi js m = Ok d"
    by (simp add: length_put_text_column build_dsi_def put_exact_column set_at_column put_text_column d_def ws_def put_columns_simps DSI_SIZE_def)
  have "sorted_wrt (\<lambda>(a, w, x) (b, _, _). a + w \<le> b) ws" "\<forall>(a, w, x)\<in>set ws. length x \<le> w \<and> a + w \<le> DSI_SIZE"
    using length_text_column [of js m] by (simp_all add: ws_def DSI_SIZE_def)
  from blank_columns [OF this]
  have len: "length d = DSI_SIZE" and c: "\<forall>(a, w, x)\<in>set ws. column a (padded_column w x) d"
    by (simp_all add: d_def)
  have t: "ascii_field d k w = Ok (kept_text js m key def w)" if "(k, w, ?T key def w) \<in> set ws" for k w key def
    using c that column_ascii_field [of k "padded_column w (?T key def w)" d w] length_text_column [of js m key def w]
    by (auto simp: kept_text_def)
  have s: "column 0 [0x44, 0x53, 0x49] d" "column 3 [security_byte js m] d"
    using c by (simp_all add: ws_def padded_column_def)
  have "dsi_parse (uhl @ d @ rest) =
      Ok (kept_dsi js m)"
    if "length uhl = UHL_SIZE" for uhl rest
  proof -
    have f: "ascii_field d 59 5 = Ok (kept_text js m ''dted:level'' ''DTED1'' 5)"
      "ascii_field d 87 2 = Ok (kept_text js m ''dted:edition_number'' ''01'' 2)"
      "ascii_field d 93 4 = Ok (kept_text js m ''dted:compilation_date'' ''0101'' 4)"
      "ascii_field d 65 8 = Ok (kept_text js m ''dted:producer_code'' '''' 8)"
      "ascii_field d 141 3 = Ok (kept_text js m ''dted:vertical_datum'' ''MSL'' 3)"
      "ascii_field d 144 5 = Ok (kept_text js m ''dted:horizontal_datum'' ''WGS84'' 5)"
      "ascii_field d 289 2 = Ok (kept_text js m ''dted:partial_cell_indicator'' ''00'' 2)"
      by (rule t; simp add: ws_def)+
    have "slice UHL_SIZE (UHL_SIZE + DSI_SIZE) (uhl @ d @ rest) = (Ok d :: (byte list, codec_error) outcome)"
      using that len by simp
    moreover have "slice 0 3 d = (Ok [0x44, 0x53, 0x49] :: (byte list, codec_error) outcome)"
      by (rule column_slice [OF s(1)]) simp
    ultimately show ?thesis
      using that len column_ascii_field [OF s(2), of 1] by (simp add: dsi_parse_def f kept_dsi_def)
  qed
  then show ?thesis using build len by blast
qed

lemma acc_reads:
  "\<exists>d. build_acc js m = Ok d \<and> length d = ACC_SIZE \<and>
    (\<forall>uhl rest. length uhl = UHL_SIZE + DSI_SIZE \<longrightarrow> acc_parse (uhl @ d @ rest) =
      Ok (kept_acc js m))"
proof -
  let ?T = "text_column js m"
  define ws :: "(nat \<times> nat \<times> byte list) list" where
    "ws = [(0, 3, [0x41, 0x43, 0x43]), (3, 4, ?T ''dted:absolute_horizontal_accuracy'' ''NA  '' 4),
      (7, 4, ?T ''dted:absolute_vertical_accuracy'' ''NA  '' 4), (11, 4, ?T ''dted:relative_vertical_accuracy'' ''NA  '' 4)]"
  define d where "d = put_columns (map (\<lambda>(a, w, x). (a, x)) ws) (replicate ACC_SIZE 0x20)"
  have build: "build_acc js m = Ok d"
    by (simp add: length_put_text_column build_acc_def put_exact_column set_at_column put_text_column d_def ws_def put_columns_simps ACC_SIZE_def)
  have "sorted_wrt (\<lambda>(a, w, x) (b, _, _). a + w \<le> b) ws" "\<forall>(a, w, x)\<in>set ws. length x \<le> w \<and> a + w \<le> ACC_SIZE"
    using length_text_column [of js m] by (simp_all add: ws_def ACC_SIZE_def)
  from blank_columns [OF this]
  have len: "length d = ACC_SIZE" and c: "\<forall>(a, w, x)\<in>set ws. column a (padded_column w x) d"
    by (simp_all add: d_def)
  have t: "ascii_field d k w = Ok (kept_text js m key def w)" if "(k, w, ?T key def w) \<in> set ws" for k w key def
    using c that column_ascii_field [of k "padded_column w (?T key def w)" d w] length_text_column [of js m key def w]
    by (auto simp: kept_text_def)
  have f: "ascii_field d 3 4 = Ok (kept_text js m ''dted:absolute_horizontal_accuracy'' ''NA  '' 4)"
    "ascii_field d 7 4 = Ok (kept_text js m ''dted:absolute_vertical_accuracy'' ''NA  '' 4)"
    "ascii_field d 11 4 = Ok (kept_text js m ''dted:relative_vertical_accuracy'' ''NA  '' 4)"
    by (rule t; simp add: ws_def)+
  have s: "slice 0 3 d = (Ok [0x41, 0x43, 0x43] :: (byte list, codec_error) outcome)"
    by (rule column_slice) (use c in \<open>simp_all add: ws_def padded_column_def\<close>)
  have "slice (UHL_SIZE + DSI_SIZE) (UHL_SIZE + DSI_SIZE + ACC_SIZE) (uhl @ d @ rest) = (Ok d :: (byte list, codec_error) outcome)"
    if "length uhl = UHL_SIZE + DSI_SIZE" for uhl rest
    using that len by simp
  then show ?thesis using build len by (auto simp: acc_parse_def f s kept_acc_def)
qed

section \<open>Data records\<close>

definition record_body :: "16 word list \<Rightarrow> nat \<Rightarrow> nat \<Rightarrow> nat \<Rightarrow> byte list" where
  "record_body pixels rows cols col =
    record_header col @ concat (map (\<lambda>row. encode_elevation (pixels ! (row * cols + col))) (rev [0..<rows]))"

definition record_bytes :: "16 word list \<Rightarrow> nat \<Rightarrow> nat \<Rightarrow> nat \<Rightarrow> byte list" where
  "record_bytes pixels rows cols col =
    (let body = record_body pixels rows cols col in body @ be_bytes 4 (compute_record_checksum body))"

lemma length_record_header [simp]: "length (record_header col) = 8" by (simp add: record_header_def)

lemma length_record_body: "length (record_body pixels rows cols col) = 8 + rows * 2"
  by (simp add: record_body_def length_concat_equal [where n = 2])

lemma length_record_bytes [simp]: "length (record_bytes pixels rows cols col) = record_size rows"
  by (simp add: record_bytes_def Let_def length_record_body record_size_def)

lemma data_record_bytes:
  assumes "length pixels = rows * cols" "col < cols"
  shows "data_record pixels rows cols col = Ok (record_bytes pixels rows cols col)"
proof -
  have "index_at (row * cols + col) pixels = (Ok (pixels ! (row * cols + col)) :: (_, codec_error) outcome)" if "row < rows" for row
  proof -
    have "row * cols + col < Suc row * cols" using assms(2) by simp
    also have "\<dots> \<le> rows * cols" using that by (intro mult_le_mono1) simp
    finally show ?thesis using assms(1) by (simp add: index_at_def)
  qed
  then have "try_map (\<lambda>row. map_ok encode_elevation (index_at (row * cols + col) pixels)) (rev [0..<rows]) =
      (Ok (map (\<lambda>row. encode_elevation (pixels ! (row * cols + col))) (rev [0..<rows])) :: (byte list list, codec_error) outcome)"
    by (intro try_map_all_Ok) simp
  then show ?thesis by (simp add: data_record_def record_bytes_def record_body_def)
qed

lemma record_checksum_valid: "validate_record_checksum (record_bytes pixels rows cols col)"
proof -
  let ?body = "record_body pixels rows cols col"
  have "compute_record_checksum ?body < 256 ^ 4" by (simp add: compute_record_checksum_def)
  then show ?thesis
    by (simp add: validate_record_checksum_def record_bytes_def Let_def length_record_body)
qed

lemma record_sentinel: "index_at 0 (record_bytes pixels rows cols col) = Ok 0xAA"
  by (simp add: index_at_def record_bytes_def record_body_def record_header_def Let_def)

text \<open>The post of a row, counted from the south.\<close>

lemma record_post:
  assumes "row < rows"
  defines "k \<equiv> 8 + (rows - 1 - row) * 2"
  shows "k + 1 < record_size rows"
    "[record_bytes pixels rows cols col ! k, record_bytes pixels rows cols col ! (k + 1)] = encode_elevation (pixels ! (row * cols + col))"
proof -
  let ?posts = "map (\<lambda>row. encode_elevation (pixels ! (row * cols + col))) (rev [0..<rows])"
  let ?j = "rows - 1 - row"
  have j: "?j < length ?posts" "rows - 1 - ?j = row" using assms(1) by auto
  show "k + 1 < record_size rows" using j(1) by (simp add: k_def record_size_def)
  have lens: "\<forall>x\<in>set ?posts. length x = 2" by auto
  have len: "length (concat ?posts) = 2 * rows" using length_concat_equal [OF lens] by simp
  have "take 2 (drop (?j * 2) (concat ?posts)) = ?posts ! ?j" using sample_concat [OF lens j(1)] by (simp only: sample_def)
  also have "\<dots> = encode_elevation (pixels ! (row * cols + col))" using j assms(1) by (simp add: rev_nth)
  finally have two: "take 2 (drop (?j * 2) (concat ?posts)) = encode_elevation (pixels ! (row * cols + col))" .
  have fits: "?j * 2 + 1 < length (concat ?posts)" using j(1) len by simp
  have "take 2 (drop (?j * 2) (concat ?posts)) = [concat ?posts ! (?j * 2), concat ?posts ! (?j * 2 + 1)]"
    using fits by (simp only: Cons_nth_drop_Suc [symmetric, of "?j * 2"] Cons_nth_drop_Suc [symmetric, of "Suc (?j * 2)"] numeral_2_eq_2 take_Suc_Cons take_0) (simp add: Cons_nth_drop_Suc [symmetric])
  moreover have "record_bytes pixels rows cols col ! k = concat ?posts ! (?j * 2)"
    "record_bytes pixels rows cols col ! (k + 1) = concat ?posts ! (?j * 2 + 1)"
    using fits by (simp_all add: record_bytes_def record_body_def Let_def nth_append k_def del: length_concat)
  ultimately show "[record_bytes pixels rows cols col ! k, record_bytes pixels rows cols col ! (k + 1)] =
      encode_elevation (pixels ! (row * cols + col))"
    using two by simp
qed

section \<open>Reading the grid\<close>

lemma decode_post_record:
  assumes "row < rows" "col < cols" "length out = rows * cols" "pixels ! (row * cols + col) \<noteq> 0x8000"
  shows "decode_post (record_bytes pixels rows cols col) rows cols col out row =
    Ok (out[row * cols + col := pixels ! (row * cols + col)])"
proof -
  let ?r = "record_bytes pixels rows cols col" and ?k = "8 + (rows - 1 - row) * 2"
  note post = record_post(1) [OF assms(1)] record_post(2) [OF assms(1), of pixels cols col]
  have "row * cols + col < rows * cols"
    using assms(1,2) by (metis Suc_leI add.commute add_less_cancel_right less_le_trans mult_Suc mult_le_mono1)
  moreover have "decode_elevation (?r ! ?k) (?r ! (?k + 1)) = pixels ! (row * cols + col)"
    using elevation_roundtrip [OF assms(4)] post(2) by (simp add: decode_pair_def flip: post(2))
  ultimately show ?thesis
    using post(1) assms(3) by (simp add: decode_post_def index_at_def set_at_def)
qed

text \<open>The cells of the first \<open>k\<close> columns, and the first \<open>j\<close> rows of the column after them.\<close>

definition decoded_upto :: "16 word list \<Rightarrow> nat \<Rightarrow> nat \<Rightarrow> nat \<Rightarrow> nat \<Rightarrow> 16 word list \<Rightarrow> bool" where
  "decoded_upto pixels rows cols k j out \<longleftrightarrow> length out = rows * cols \<and>
    (\<forall>row<rows. \<forall>col<cols. col < k \<or> col = k \<and> row < j \<longrightarrow> out ! (row * cols + col) = pixels ! (row * cols + col))"

lemma cell_inj:
  assumes "col < cols" "col' < (cols :: nat)"
  shows "row * cols + col = row' * cols + col' \<longleftrightarrow> row = row' \<and> col = col'"
proof
  assume eq: "row * cols + col = row' * cols + col'"
  have "row = (row * cols + col) div cols" "col = (row * cols + col) mod cols" using assms by simp_all
  moreover have "row' = (row' * cols + col') div cols" "col' = (row' * cols + col') mod cols" using assms by simp_all
  ultimately show "row = row' \<and> col = col'" unfolding eq by simp
qed simp

lemma cell_less: "row < rows \<Longrightarrow> col < cols \<Longrightarrow> row * cols + col < rows * (cols :: nat)"
  by (metis Suc_leI add.commute add_less_cancel_right less_le_trans mult_Suc mult_le_mono1)

lemma decode_column_record:
  assumes "col < cols" "length pixels = rows * cols" "\<forall>v\<in>set pixels. v \<noteq> 0x8000"
    and "DATA_OFFSET + col * record_size rows + record_size rows \<le> length d"
    and rec: "take (record_size rows) (drop (DATA_OFFSET + col * record_size rows) d) = record_bytes pixels rows cols col"
    and out: "decoded_upto pixels rows cols col 0 out"
  shows "\<exists>out'. decode_column d (record_size rows) rows cols out col = Ok out' \<and> decoded_upto pixels rows cols (Suc col) 0 out'"
proof -
  let ?r = "record_bytes pixels rows cols col"
  have "\<exists>out'. try_fold (decode_post ?r rows cols col) out [0..<rows] = Ok out' \<and> decoded_upto pixels rows cols col rows out'"
  proof (rule try_fold_upt [where P = "decoded_upto pixels rows cols col"])
    fix row o1
    assume row: "row < rows" and o1: "decoded_upto pixels rows cols col row o1"
    have len: "length o1 = rows * cols" using o1 by (simp add: decoded_upto_def)
    have "pixels ! (row * cols + col) \<noteq> 0x8000" using assms(2,3) cell_less [OF row assms(1)] by simp
    from decode_post_record [OF row assms(1) len this]
    have "decode_post ?r rows cols col o1 row = Ok (o1[row * cols + col := pixels ! (row * cols + col)])" .
    moreover have "decoded_upto pixels rows cols col (Suc row) (o1[row * cols + col := pixels ! (row * cols + col)])"
      using o1 cell_less [OF row assms(1)] assms(1)
      by (auto simp: decoded_upto_def nth_list_update cell_inj less_Suc_eq)
    ultimately show "\<exists>o2. decode_post ?r rows cols col o1 row = Ok o2 \<and> decoded_upto pixels rows cols col (Suc row) o2" by blast
  qed (rule out)
  then obtain out' where fold: "try_fold (decode_post ?r rows cols col) out [0..<rows] = Ok out'"
    and o': "decoded_upto pixels rows cols col rows out'" by blast
  have "decode_column d (record_size rows) rows cols out col = Ok out'"
    using assms(4) fold by (simp add: decode_column_def Let_def rec record_sentinel record_checksum_valid)
  moreover have "decoded_upto pixels rows cols (Suc col) 0 out'"
    using o' by (auto simp: decoded_upto_def less_Suc_eq)
  ultimately show ?thesis by blast
qed

definition dted_file :: "byte list \<Rightarrow> 16 word list \<Rightarrow> nat \<Rightarrow> nat \<Rightarrow> byte list" where
  "dted_file header pixels rows cols = header @ concat (map (record_bytes pixels rows cols) [0..<cols])"

lemma file_record:
  assumes "length header = DATA_OFFSET" "col < cols"
  shows "DATA_OFFSET + col * record_size rows + record_size rows \<le> length (dted_file header pixels rows cols)"
    "take (record_size rows) (drop (DATA_OFFSET + col * record_size rows) (dted_file header pixels rows cols)) =
      record_bytes pixels rows cols col"
proof -
  let ?rs = "map (record_bytes pixels rows cols) [0..<cols]"
  have lens: "\<forall>x\<in>set ?rs. length x = record_size rows" by simp
  have "Suc col * record_size rows \<le> cols * record_size rows" using assms(2) by (intro mult_le_mono1) simp
  then show "DATA_OFFSET + col * record_size rows + record_size rows \<le> length (dted_file header pixels rows cols)"
    using length_concat_equal [OF lens] assms(1) by (simp add: dted_file_def mult.commute del: length_concat)
  show "take (record_size rows) (drop (DATA_OFFSET + col * record_size rows) (dted_file header pixels rows cols)) =
      record_bytes pixels rows cols col"
    using sample_concat [OF lens, of col] assms by (simp add: dted_file_def sample_def)
qed

lemma native_roundtrip:
  assumes "length bsq = 2 * n"
  shows "concat (map (\<lambda>v. le_bytes 2 (unat v)) (native_pixels bsq)) = bsq"
proof (rule list_eq_samples)
  let ?xs = "map (\<lambda>v. le_bytes 2 (unat v)) (native_pixels bsq)"
  have lens: "\<forall>x\<in>set ?xs. length x = 2" by simp
  show "length (concat ?xs) = 2 * n" using length_concat_equal [OF lens] assms by (simp add: native_pixels_def)
  fix j
  assume j: "j < n"
  have s: "length (sample 2 bsq j) = 2" using assms j by (intro length_sample) simp
  then have "le_val (sample 2 bsq j) < 2 ^ 16" using le_val_lt [of "sample 2 bsq j"] by simp
  then have "unat (word_of_nat (le_val (sample 2 bsq j)) :: 16 word) = le_val (sample 2 bsq j)" by (simp add: unat_of_nat)
  then have "?xs ! j = sample 2 bsq j"
    using j assms le_bytes_le_val [of "sample 2 bsq j"] s by (simp add: native_pixels_def)
  then show "sample 2 (concat ?xs) j = sample 2 bsq j"
    using sample_concat [OF lens, of j] j assms by (simp add: native_pixels_def)
qed (rule assms)

lemma decode_file:
  assumes "length header = DATA_OFFSET" "length bsq = 2 * (rows * cols)" "\<forall>v\<in>set (native_pixels bsq). v \<noteq> 0x8000"
  shows "decode_grid (dted_file header (native_pixels bsq) rows cols) (record_size rows) rows cols = Ok bsq"
proof -
  let ?p = "native_pixels bsq" and ?d = "dted_file header (native_pixels bsq) rows cols"
  have len: "length ?p = rows * cols" using assms(2) by (simp add: native_pixels_def)
  have "\<exists>out. try_fold (decode_column ?d (record_size rows) rows cols) (replicate (rows * cols) 0) [0..<cols] = Ok out \<and>
      decoded_upto ?p rows cols cols 0 out"
  proof (rule try_fold_upt [where P = "\<lambda>k. decoded_upto ?p rows cols k 0"])
    fix col out
    assume "col < cols" "decoded_upto ?p rows cols col 0 out"
    then show "\<exists>out'. decode_column ?d (record_size rows) rows cols out col = Ok out' \<and> decoded_upto ?p rows cols (Suc col) 0 out'"
      using decode_column_record [OF _ len assms(3) file_record [OF assms(1)]] by blast
  qed (simp add: decoded_upto_def)
  then obtain out where out: "try_fold (decode_column ?d (record_size rows) rows cols) (replicate (rows * cols) 0) [0..<cols] = Ok out"
    "decoded_upto ?p rows cols cols 0 out" by blast
  have "out = ?p"
  proof (rule nth_equalityI)
    show l: "length out = length ?p" using out(2) len by (simp add: decoded_upto_def)
    fix i
    assume "i < length out"
    then have i: "i < rows * cols" using l len by simp
    then have "0 < cols" by (cases cols) auto
    then have "i div cols < rows" "i mod cols < cols" using i by (simp_all add: less_mult_imp_div_less)
    then show "out ! i = ?p ! i" using out(2) unfolding decoded_upto_def by (metis div_mult_mod_eq)
  qed
  then show ?thesis using out(1) native_roundtrip [OF assms(2)] by (simp add: decode_grid_def)
qed

section \<open>Writing the file\<close>

lemma write_records_vec:
  assumes "length pixels = rows * cols" "\<forall>col\<in>set cs. col < cols"
  shows "write_records vec_sink pixels rows cols cs s = (Ok (), s @ concat (map (record_bytes pixels rows cols) cs))"
  using assms(2)
proof (induction cs arbitrary: s)
  case (Cons col cs)
  then show ?case using data_record_bytes [OF assms(1), of col]
    by (simp add: seq_def sink_step_def vec_sink_def)
qed simp

lemma write_dted_vec:
  assumes "length bsq = 2 * (rows * cols)"
  shows "write_dted vec_sink uhl dsi acc bsq rows cols [] = (Ok (), dted_file (uhl @ dsi @ acc) (native_pixels bsq) rows cols)"
proof -
  have "length (native_pixels bsq) = rows * cols" using assms by (simp add: native_pixels_def)
  from write_records_vec [OF this, of "[0..<cols]"] show ?thesis
    by (simp add: write_dted_def seq_def sink_step_def dted_file_def) (simp add: vec_sink_def)
qed

text \<open>Adding an image to a new writer, giving it metadata and closing it.\<close>

definition write_image ::
    "('j, 'f) json_ops \<Rightarrow> 'f angle_ops \<Rightarrow> string \<Rightarrow> image_asset \<Rightarrow> 'j metadata_provider \<Rightarrow> (byte list option, codec_error) outcome" where
  "write_image js ops key i m =
    fst (seq (dted_add_asset key (ImageAsset i :: (image_asset, unit) asset_provider)) (\<lambda>_.
      seq (dted_set_metadata m) (\<lambda>_. dted_close js ops vec_sink)) (dted_writer_new []))"

lemma write_image_file:
  assumes i: "pixel_value_type i = Int16" "num_bands (asset_image i) = 1"
    and img: "reassemble_full_image (asset_image i) = Ok (bsq, n, rows, cols)"
    and dims: "num_rows (asset_image i) = rows" "num_columns (asset_image i) = cols" "rows < 10 ^ 4" "cols < 10 ^ 4"
    and len: "length bsq = 2 * (rows * cols)"
    and header: "header_fits js ops (Some m)" "decimal_parse ops"
  shows "\<exists>header. write_image js ops key i m = Ok (Some (dted_file header (native_pixels bsq) rows cols)) \<and>
    length header = DATA_OFFSET \<and>
    (\<exists>u. uhl_parse ops header = Ok u \<and> num_lon_lines u = cols \<and> num_lat_points u = rows \<and> kept_numbers js (Some m) u) \<and>
    dsi_parse header = Ok (kept_dsi js (Some m)) \<and> acc_parse header = Ok (kept_acc js (Some m))"
proof -
  obtain uhl where u: "build_uhl js ops (Some m) cols rows = Ok uhl" "length uhl = UHL_SIZE"
    "\<And>rest. \<exists>u. uhl_parse ops (uhl @ rest) = Ok u \<and> num_lon_lines u = cols \<and> num_lat_points u = rows \<and> kept_numbers js (Some m) u"
    using uhl_reads [OF header dims(4,3)] by blast
  obtain dsi where d: "build_dsi js (Some m) = Ok dsi" "length dsi = DSI_SIZE"
    "\<And>uhl rest. length uhl = UHL_SIZE \<Longrightarrow> dsi_parse (uhl @ dsi @ rest) = Ok (kept_dsi js (Some m))"
    using dsi_reads [of js "Some m"] by blast
  obtain acc where a: "build_acc js (Some m) = Ok acc" "length acc = ACC_SIZE"
    "\<And>uhl rest. length uhl = UHL_SIZE + DSI_SIZE \<Longrightarrow> acc_parse (uhl @ acc @ rest) = Ok (kept_acc js (Some m))"
    using acc_reads [of js "Some m"] by blast
  have "write_image js ops key i m = Ok (Some (dted_file (uhl @ dsi @ acc) (native_pixels bsq) rows cols))"
    using i img dims len
    by (simp add: write_image_def seq_def dted_writer_new_def dted_add_asset_def dted_set_metadata_def dted_close_def
        take_output_def u(1) d(1) a(1) write_dted_vec mult.commute)
  moreover have "length (uhl @ dsi @ acc) = DATA_OFFSET" using u(2) d(2) a(2) by (simp add: DATA_OFFSET_def)
  moreover have "acc_parse (uhl @ dsi @ acc) = Ok (kept_acc js (Some m))" using a(3) [of "uhl @ dsi" "[]"] u(2) d(2) by simp
  ultimately show ?thesis using u(3) [of "dsi @ acc"] d(3) [OF u(2), of acc] by blast
qed

lemma dted_open_file:
  assumes b: "buffer_wf srcs b" "heap_wf srcs h" "Owned_Buffer.view srcs b = dted_file header pixels rows cols"
    and hd: "length header = DATA_OFFSET" "uhl_parse ops header = Ok u" "num_lon_lines u = cols" "num_lat_points u = rows"
      "dsi_parse header = Ok d" "acc_parse header = Ok a"
  shows "\<exists>h'. dted_open js ops b h =
      (Ok \<lparr>dted_image_of = Some (dted_image_new b cols rows (dted_metadata js u d a header)),
           reader_metadata = dted_metadata js u d a header\<rparr>, h') \<and> heap_wf srcs h'"
proof -
  let ?rs = "map (record_bytes pixels rows cols) [0..<cols]"
  have "length (dted_file header pixels rows cols) = DATA_OFFSET + cols * record_size rows"
    using length_concat_equal [of ?rs "record_size rows"] hd(1) by (simp add: dted_file_def mult.commute del: length_concat)
  then have len: "buffer_len b = DATA_OFFSET + cols * record_size rows" using length_view [OF b(1)] b(3) by simp
  obtain b' h' where s: "try_slice b 0 DATA_OFFSET h = (Ok b', h')" "heap_wf srcs h'" "buffer_wf srcs b'"
    "Owned_Buffer.view srcs b' = take DATA_OFFSET (Owned_Buffer.view srcs b)" "\<not> is_remote b'"
    using try_slice_step [OF b(1,2), of 0 DATA_OFFSET] len by auto
  have "as_bytes b' = Ok header" using as_bytes_view [OF s(3,5)] s(4) hd(1) b(3) by (simp add: dted_file_def)
  then show ?thesis using s(1,2) hd len by (simp add: dted_open_def seq_def Let_def)
qed

lemma materialize_view:
  assumes "buffer_wf srcs b" "heap_wf srcs h"
  shows "\<exists>b' h'. materialize b h = (Ok b', h') \<and> as_bytes b' = Ok (Owned_Buffer.view srcs b) \<and> heap_wf srcs h'"
proof (cases "is_remote b")
  case True
  obtain b' h' where "try_slice b 0 (buffer_len b) h = (Ok b', h')" "heap_wf srcs h'" "buffer_wf srcs b'"
    "Owned_Buffer.view srcs b' = take (buffer_len b - 0) (drop 0 (Owned_Buffer.view srcs b))" "\<not> is_remote b'"
    using try_slice_step [OF assms, of 0 "buffer_len b"] by auto
  then show ?thesis using True as_bytes_view length_view [OF assms(1)] by (auto simp: materialize_def)
next
  case False
  then show ?thesis using as_bytes_view [OF assms(1)] assms(2) by (simp add: materialize_def)
qed

lemma reassembled_image:
  assumes "valid_config (config b)"
    and "length px = cfg_bands (config b) * cfg_rows (config b) * cfg_columns (config b) * config_bpp (config b)"
    and "0 < cfg_rows (config b)" "0 < cfg_columns (config b)" "2 * cfg_rows (config b) < 2 ^ 32" "2 * cfg_columns (config b) < 2 ^ 32"
  shows "\<exists>b'. set_full_image px b = Ok b' \<and> config b' = config b \<and>
    reassemble_full_image (buffered_provider b') = Ok (px, cfg_bands (config b), cfg_rows (config b), cfg_columns (config b))"
proof -
  obtain b' where b': "set_full_image px b = Ok b'" "config b' = config b" "complete b'"
    "\<And>band y x. band < cfg_bands (config b) \<Longrightarrow> y < cfg_rows (config b) \<Longrightarrow> x < cfg_columns (config b) \<Longrightarrow>
      stored_image b' band y x = plane (config b) px band y x"
    using set_full_image_holds [OF assms(1,2)] by blast
  have bpp: "provider_bpp (buffered_provider b') = config_bpp (config b)"
    using assms(1) b'(2) by (simp add: valid_config_def)
  obtain d where d: "reassemble_full_image (buffered_provider b') = Ok (d, cfg_bands (config b), cfg_rows (config b), cfg_columns (config b))"
    "holds_region (config_bpp (config b)) d (cfg_bands (config b)) (cfg_rows (config b)) (cfg_columns (config b)) (stored_image b') 0 0"
    using stored.output_tile_holds [OF b'(3), of "cfg_columns (config b)" "cfg_rows (config b)" 0 0] assms(3-6) bpp b'(2)
    by (auto simp: reassemble_full_image_def)
  have "d = px" using d(2) b'(4) by (intro plane_determines [OF _ assms(2)]) (simp add: holds_region_def)
  then show ?thesis using b' d(1) by blast
qed

section \<open>From the writer to the reader\<close>

text \<open>The images the writer takes, and the metadata that fits the header.\<close>

definition dted_writable :: "('j, 'f) json_ops \<Rightarrow> 'f angle_ops \<Rightarrow> image_config \<Rightarrow> byte list \<Rightarrow> 'j metadata_provider \<Rightarrow> bool" where
  "dted_writable js ops cfg px m \<longleftrightarrow>
    valid_config cfg \<and> cfg_bands cfg = 1 \<and> cfg_pixel_type cfg = Int16 \<and>
    0 < cfg_rows cfg \<and> cfg_rows cfg < 10 ^ 4 \<and> 0 < cfg_columns cfg \<and> cfg_columns cfg < 10 ^ 4 \<and>
    length px = 2 * (cfg_rows cfg * cfg_columns cfg) \<and> header_fits js ops (Some m) \<and> decimal_parse ops"

lemma written_file:
  assumes "dted_writable js ops (config b) px m"
  defines "rows \<equiv> cfg_rows (config b)" and "cols \<equiv> cfg_columns (config b)"
  shows "\<exists>b' header u. set_full_image px b = Ok b' \<and>
    write_image js ops key \<lparr>asset_image = buffered_provider b', pixel_value_type = Int16\<rparr> m =
      Ok (Some (dted_file header (native_pixels px) rows cols)) \<and>
    length (dted_file header (native_pixels px) rows cols) = DATA_OFFSET + cols * record_size rows \<and>
    length header = DATA_OFFSET \<and> kept_numbers js (Some m) u \<and>
    (\<forall>srcs buf h. buffer_wf srcs buf \<and> heap_wf srcs h \<and> Owned_Buffer.view srcs buf = dted_file header (native_pixels px) rows cols \<longrightarrow>
      (\<exists>h'. dted_open js ops buf h =
        (Ok \<lparr>dted_image_of = Some (dted_image_new buf cols rows (dted_metadata js u (kept_dsi js (Some m)) (kept_acc js (Some m)) header)),
             reader_metadata = dted_metadata js u (kept_dsi js (Some m)) (kept_acc js (Some m)) header\<rparr>, h') \<and> heap_wf srcs h'))"
proof -
  have w: "valid_config (config b)" "cfg_bands (config b) = 1" "cfg_pixel_type (config b) = Int16" "0 < rows" "rows < 10 ^ 4"
    "0 < cols" "cols < 10 ^ 4" "length px = 2 * (rows * cols)" "header_fits js ops (Some m)" "decimal_parse ops"
    using assms(1) by (simp_all add: dted_writable_def rows_def cols_def)
  obtain b' where b': "set_full_image px b = Ok b'" "config b' = config b"
    "reassemble_full_image (buffered_provider b') = Ok (px, 1, rows, cols)"
    using reassembled_image [OF w(1), of px] w by (auto simp: config_bpp_def rows_def cols_def)
  obtain header u where h: "write_image js ops key \<lparr>asset_image = buffered_provider b', pixel_value_type = Int16\<rparr> m =
      Ok (Some (dted_file header (native_pixels px) rows cols))" "length header = DATA_OFFSET"
    and u: "uhl_parse ops header = Ok u" "num_lon_lines u = cols" "num_lat_points u = rows" "kept_numbers js (Some m) u"
    and da: "dsi_parse header = Ok (kept_dsi js (Some m))" "acc_parse header = Ok (kept_acc js (Some m))"
    using write_image_file [of "\<lparr>asset_image = buffered_provider b', pixel_value_type = Int16\<rparr>" px 1 rows cols js ops m key] b' w
    by (auto simp: rows_def cols_def)
  have "length (dted_file header (native_pixels px) rows cols) = DATA_OFFSET + cols * record_size rows"
    using length_concat_equal [of "map (record_bytes (native_pixels px) rows cols) [0..<cols]" "record_size rows"] h(2)
    by (simp add: dted_file_def mult.commute del: length_concat)
  then show ?thesis using b'(1) h u(4) dted_open_file [OF _ _ _ h(2) u(1-3) da] by blast
qed

text \<open>C30: an elevation image survives the trip through a DTED file.  Any 16-bit image of one band and
  up to 9999 rows and columns, held by an in-memory image of any block size and without the value
  \<open>i16::MIN\<close>, is written by the DTED writer to a file that the DTED reader opens from any backing
  of a shared buffer, memory-mapped, in memory or fetched from a remote source, and whose one
  block is the image byte for byte.  Transposition, signed-magnitude coding, checksums, header
  columns and record offsets of writer and reader agree.\<close>

theorem dted_image_roundtrip:
  assumes "dted_writable js ops (config b) px m" "\<forall>v\<in>set (native_pixels px). v \<noteq> 0x8000"
  shows "\<exists>b' file. set_full_image px b = Ok b' \<and>
    write_image js ops key \<lparr>asset_image = buffered_provider b', pixel_value_type = Int16\<rparr> m = Ok (Some file) \<and>
    length file = DATA_OFFSET + cfg_columns (config b) * record_size (cfg_rows (config b)) \<and>
    (\<forall>srcs buf h. buffer_wf srcs buf \<and> heap_wf srcs h \<and> Owned_Buffer.view srcs buf = file \<longrightarrow>
      (\<exists>r i h1 h2. dted_open js ops buf h = (Ok r, h1) \<and> dted_get_asset r ''elevation'' = Ok i \<and>
        dted_get_block i 0 0 0 None h1 = (Ok (px, 1, cfg_rows (config b), cfg_columns (config b)), h2)))"
proof -
  let ?rows = "cfg_rows (config b)" and ?cols = "cfg_columns (config b)"
  obtain b' header u where w: "set_full_image px b = Ok b'"
    "write_image js ops key \<lparr>asset_image = buffered_provider b', pixel_value_type = Int16\<rparr> m =
      Ok (Some (dted_file header (native_pixels px) ?rows ?cols))"
    "length (dted_file header (native_pixels px) ?rows ?cols) = DATA_OFFSET + ?cols * record_size ?rows"
    "length header = DATA_OFFSET"
    and open_file: "\<forall>srcs buf h. buffer_wf srcs buf \<and> heap_wf srcs h \<and> Owned_Buffer.view srcs buf = dted_file header (native_pixels px) ?rows ?cols \<longrightarrow>
      (\<exists>h'. dted_open js ops buf h =
        (Ok \<lparr>dted_image_of = Some (dted_image_new buf ?cols ?rows (dted_metadata js u (kept_dsi js (Some m)) (kept_acc js (Some m)) header)),
             reader_metadata = dted_metadata js u (kept_dsi js (Some m)) (kept_acc js (Some m)) header\<rparr>, h') \<and> heap_wf srcs h')"
    using written_file [OF assms(1)] by blast
  have grid: "decode_grid (dted_file header (native_pixels px) ?rows ?cols) (record_size ?rows) ?rows ?cols = Ok px"
    using decode_file [OF w(4) _ assms(2)] assms(1) by (simp add: dted_writable_def)
  have "\<exists>r i h1 h2. dted_open js ops buf h = (Ok r, h1) \<and> dted_get_asset r ''elevation'' = Ok i \<and>
      dted_get_block i 0 0 0 None h1 = (Ok (px, 1, ?rows, ?cols), h2)"
    if buf: "buffer_wf srcs buf" "heap_wf srcs h" "Owned_Buffer.view srcs buf = dted_file header (native_pixels px) ?rows ?cols"
    for srcs buf h
  proof -
    obtain r h1 where r: "dted_open js ops buf h = (Ok r, h1)" "heap_wf srcs h1"
      "dted_image_of r = Some (dted_image_new buf ?cols ?rows (reader_metadata r))"
      using open_file buf by fastforce
    obtain c h2 where "materialize buf h1 = (Ok c, h2)" "as_bytes c = Ok (Owned_Buffer.view srcs buf)"
      using materialize_view [OF buf(1) r(2)] by blast
    then have "dted_get_block (dted_image_new buf ?cols ?rows (reader_metadata r)) 0 0 0 None h1 = (Ok (px, 1, ?rows, ?cols), h2)"
      using grid buf(3) by (simp add: dted_get_block_def decode_full_grid_def dted_image_new_def seq_def)
    then show ?thesis using r(1,3) by (auto simp: dted_get_asset_def ELEVATION_def)
  qed
  then show ?thesis using w(1-3) by blast
qed

definition plain_angles :: "nat angle_ops" where
  "plain_angles = \<lparr>angle_parse = (\<lambda>_. Some 0), angle_of_int = nat, angle_plus = (+), angle_minus = (-), angle_times = (*),
     angle_over = (div), angle_less = (<), angle_abs = id, angle_round = id, angle_to_u32 = id\<rparr>"

definition text_values :: "(ustring, nat) json_ops" where
  "text_values = \<lparr>json_of_text = id, json_of_nat = (\<lambda>n. ascii (show_nat n)), json_of_float = (\<lambda>n. ascii (show_nat n)),
     json_of_bool = (\<lambda>b. []), as_str = Some, json_print = id, as_json_u64 = (\<lambda>_. None), as_json_f64 = (\<lambda>_. None)\<rparr>"

definition level_metadata :: "ustring metadata_provider" where
  "level_metadata = \<lparr>raw_metadata = [], entries = (\<lambda>_. [''dted:level'' \<mapsto> ascii ''DTED2''])\<rparr>"

lemma level_metadata_writable:
  assumes "cfg = with_pixel_type Int16 (config_new 2 1)" "length px = 4"
  shows "dted_writable text_values plain_angles cfg px level_metadata"
  using assms
  by (simp add: dted_writable_def with_pixel_type_def config_new_def default_config_def valid_config_def config_bpp_def U64_def
      div_ceil_def header_fits_def level_metadata_def text_values_def plain_angles_def get_metadata_f64_def get_metadata_u16_def
      or_else_def angle_fits_def angle_parts_def decimal_parse_def)

lemma dted_image_roundtrip_witness:
  "\<exists>b' file r i h1 h2. set_full_image [5, 0, 255, 255] (buffered_new (with_pixel_type Int16 (config_new 2 1))) = Ok b' \<and>
    write_image text_values plain_angles ''E'' \<lparr>asset_image = buffered_provider b', pixel_value_type = Int16\<rparr> level_metadata = Ok (Some file) \<and>
    dted_open text_values plain_angles (from_vec file) \<lparr>fetchers = []\<rparr> = (Ok r, h1) \<and> dted_get_asset r ''elevation'' = Ok i \<and>
    dted_get_block i 0 0 0 None h1 = (Ok ([5, 0, 255, 255], 1, 1, 2), h2)"
proof -
  let ?b = "buffered_new (with_pixel_type Int16 (config_new 2 1))" and ?px = "[5, 0, 255, 255 :: byte]"
  have cfg: "config ?b = with_pixel_type Int16 (config_new 2 1)" "cfg_rows (config ?b) = 1" "cfg_columns (config ?b) = 2"
    by (simp_all add: buffered_new_def with_pixel_type_def config_new_def)
  have w: "dted_writable text_values plain_angles (config ?b) ?px level_metadata"
    by (rule level_metadata_writable [OF cfg(1)]) simp
  have nodata: "\<forall>v\<in>set (native_pixels ?px). v \<noteq> 0x8000"
    by (simp add: native_pixels_def sample_def le_val_def be_val_def upt_rec)
  obtain b' content where f: "set_full_image ?px ?b = Ok b'"
    "write_image text_values plain_angles ''E'' \<lparr>asset_image = buffered_provider b', pixel_value_type = Int16\<rparr> level_metadata = Ok (Some content)"
    "length content = DATA_OFFSET + 2 * record_size 1"
    and opened: "\<forall>srcs buf h. buffer_wf srcs buf \<and> heap_wf srcs h \<and> Owned_Buffer.view srcs buf = content \<longrightarrow>
      (\<exists>r i h1 h2. dted_open text_values plain_angles buf h = (Ok r, h1) \<and> dted_get_asset r ''elevation'' = Ok i \<and>
        dted_get_block i 0 0 0 None h1 = (Ok (?px, 1, 1, 2), h2))"
    using dted_image_roundtrip [OF w nodata, of "''E''"] unfolding cfg(2,3) by blast
  have "buffer_wf [] (from_vec content)" "heap_wf [] \<lparr>fetchers = []\<rparr>"
    using f(3) by (simp_all add: buffer_wf_from_vec DATA_OFFSET_def UHL_SIZE_def DSI_SIZE_def ACC_SIZE_def record_size_def U64_def heap_wf_def)
  then show ?thesis using f(1,2) opened view_from_vec [of "[]" content] by blast
qed

section \<open>Metadata\<close>

definition text_fields :: "(string \<times> nat) list" where
  "text_fields =
    [(''dted:level'', 5), (''dted:edition_number'', 2), (''dted:compilation_date'', 4), (''dted:producer_code'', 8),
     (''dted:vertical_datum'', 3), (''dted:horizontal_datum'', 5), (''dted:partial_cell_indicator'', 2),
     (''dted:absolute_horizontal_accuracy'', 4), (''dted:absolute_vertical_accuracy'', 4),
     (''dted:relative_vertical_accuracy'', 4)]"

lemma kept_text_fits:
  assumes "get_metadata_str js m key = Some s" "list_all (\<lambda>c. c < 0x80) s" "trim_text s = s" "length s \<le> w"
  shows "kept_text js m key t w = s"
proof -
  have col: "text_column js m key t w = map word_of_nat s"
    using assms by (simp add: text_column_def or_else_def utf8_encode_ascii)
  have "padded_column w (map word_of_nat s) = map word_of_nat (s @ replicate (w - length s) 0x20)"
    by (simp add: padded_column_def)
  moreover have "list_all (\<lambda>c. c < 0x80) (s @ replicate (w - length s) 0x20)" using assms(2) by (auto simp: list_all_iff)
  ultimately have lossy: "from_utf8_lossy (padded_column w (map word_of_nat s)) = s @ replicate (w - length s) 0x20"
    by (simp only: from_utf8_lossy_ascii)
  have blank: "dropWhile is_white_space (replicate k 0x20 @ t) = dropWhile is_white_space t" for k t
    by (induction k) (simp_all add: is_white_space_def)
  have "trim_text (s @ replicate k 0x20) = s" for k
  proof (cases "dropWhile is_white_space s")
    case Nil
    then have "trim_text s = []" by (simp only: trim_text_def trim_end_matches_def) simp
    then have "s = []" using assms(3) by simp
    then show ?thesis using blank [of k "[]"] by (simp add: trim_text_def trim_end_matches_def)
  next
    case (Cons c cs)
    then have "dropWhile is_white_space (s @ replicate k 0x20) = dropWhile is_white_space s @ replicate k 0x20"
      by (metis dropWhile_append dropWhile_eq_Nil_conv list.distinct(1))
    then show ?thesis using assms(3) blank [of k "rev (dropWhile is_white_space s)"] by (simp add: trim_text_def trim_end_matches_def)
  qed
  then show ?thesis by (simp add: kept_text_def col lossy)
qed

lemma dted_entries_simps:
  "dted_entries js u d a ''dted:longitude_interval'' = Some (json_of_nat js (lon_interval_tenths u))"
  "dted_entries js u d a ''dted:latitude_interval'' = Some (json_of_nat js (lat_interval_tenths u))"
  "dted_entries js u d a ''dted:vertical_accuracy'' = map_option (json_of_nat js) (vertical_accuracy u)"
  "dted_entries js u d a ''dted:level'' = Some (json_of_text js (product_level d))"
  "dted_entries js u d a ''dted:edition_number'' = Some (json_of_text js (edition_number d))"
  "dted_entries js u d a ''dted:compilation_date'' = Some (json_of_text js (compilation_date d))"
  "dted_entries js u d a ''dted:producer_code'' = Some (json_of_text js (producer_code d))"
  "dted_entries js u d a ''dted:vertical_datum'' = Some (json_of_text js (vertical_datum d))"
  "dted_entries js u d a ''dted:horizontal_datum'' = Some (json_of_text js (horizontal_datum d))"
  "dted_entries js u d a ''dted:partial_cell_indicator'' = Some (json_of_text js (partial_cell_indicator d))"
  "dted_entries js u d a ''dted:absolute_horizontal_accuracy'' = Some (json_of_text js (absolute_horizontal_accuracy a))"
  "dted_entries js u d a ''dted:absolute_vertical_accuracy'' = Some (json_of_text js (absolute_vertical_accuracy a))"
  "dted_entries js u d a ''dted:relative_vertical_accuracy'' = Some (json_of_text js (relative_vertical_accuracy a))"
  by (cases "vertical_accuracy u"; simp add: dted_entries_def)+

lemma dted_text_entry:
  assumes "(key, w) \<in> set text_fields" "get_metadata_str js m key = Some s" "list_all (\<lambda>c. c < 0x80) s" "trim_text s = s" "length s \<le> w"
  shows "dted_entries js u (kept_dsi js m) (kept_acc js m) key = Some (json_of_text js s)"
proof -
  have t: "kept_text js m key def w = s" for def using kept_text_fits [OF assms(2-5)] .
  from assms(1) consider "key = ''dted:level''" "w = 5" | "key = ''dted:edition_number''" "w = 2"
    | "key = ''dted:compilation_date''" "w = 4" | "key = ''dted:producer_code''" "w = 8"
    | "key = ''dted:vertical_datum''" "w = 3" | "key = ''dted:horizontal_datum''" "w = 5"
    | "key = ''dted:partial_cell_indicator''" "w = 2" | "key = ''dted:absolute_horizontal_accuracy''" "w = 4"
    | "key = ''dted:absolute_vertical_accuracy''" "w = 4" | "key = ''dted:relative_vertical_accuracy''" "w = 4"
    unfolding text_fields_def list.set insert_iff prod.inject empty_iff by argo
  then show ?thesis
    by cases (use t in \<open>simp only: dted_entries_simps kept_dsi_def kept_acc_def dsi.simps acc.simps\<close>)+
qed

text \<open>C31: metadata survives the trip through a DTED file.  Every text of the header's DSI and ACC
  records that is trimmed ASCII and fits its column, the intervals and the vertical accuracy
  are found by the reader's metadata as they were given to the writer, and values that were not
  given as the writer's defaults.\<close>

theorem dted_metadata_roundtrip:
  assumes "dted_writable js ops (config b) px m"
    and "(field, w) \<in> set text_fields" "get_metadata_str js (Some m) field = Some s"
    and "list_all (\<lambda>c. c < 0x80) s" "trim_text s = s" "length s \<le> w"
  shows "\<exists>b' file. set_full_image px b = Ok b' \<and>
    write_image js ops key \<lparr>asset_image = buffered_provider b', pixel_value_type = Int16\<rparr> m = Ok (Some file) \<and>
    length file = DATA_OFFSET + cfg_columns (config b) * record_size (cfg_rows (config b)) \<and>
    (\<forall>srcs buf h. buffer_wf srcs buf \<and> heap_wf srcs h \<and> Owned_Buffer.view srcs buf = file \<longrightarrow>
      (\<exists>r h1. dted_open js ops buf h = (Ok r, h1) \<and>
        entries (reader_metadata r) None field = Some (json_of_text js s) \<and>
        entries (reader_metadata r) None ''dted:longitude_interval'' =
          Some (json_of_nat js (or_else 30 (get_metadata_u16 js (Some m) ''dted:longitude_interval''))) \<and>
        entries (reader_metadata r) None ''dted:latitude_interval'' =
          Some (json_of_nat js (or_else 30 (get_metadata_u16 js (Some m) ''dted:latitude_interval''))) \<and>
        entries (reader_metadata r) None ''dted:vertical_accuracy'' =
          map_option (json_of_nat js) (get_metadata_u16 js (Some m) ''dted:vertical_accuracy'')))"
proof -
  let ?rows = "cfg_rows (config b)" and ?cols = "cfg_columns (config b)"
  obtain b' header u where w: "set_full_image px b = Ok b'"
    "write_image js ops key \<lparr>asset_image = buffered_provider b', pixel_value_type = Int16\<rparr> m =
      Ok (Some (dted_file header (native_pixels px) ?rows ?cols))"
    "length (dted_file header (native_pixels px) ?rows ?cols) = DATA_OFFSET + ?cols * record_size ?rows"
    and u: "kept_numbers js (Some m) u"
    and open_file: "\<forall>srcs buf h. buffer_wf srcs buf \<and> heap_wf srcs h \<and> Owned_Buffer.view srcs buf = dted_file header (native_pixels px) ?rows ?cols \<longrightarrow>
      (\<exists>h'. dted_open js ops buf h =
        (Ok \<lparr>dted_image_of = Some (dted_image_new buf ?cols ?rows (dted_metadata js u (kept_dsi js (Some m)) (kept_acc js (Some m)) header)),
             reader_metadata = dted_metadata js u (kept_dsi js (Some m)) (kept_acc js (Some m)) header\<rparr>, h') \<and> heap_wf srcs h')"
    using written_file [OF assms(1)] by blast
  let ?es = "dted_entries js u (kept_dsi js (Some m)) (kept_acc js (Some m))"
  have es: "?es field = Some (json_of_text js s)"
    "?es ''dted:longitude_interval'' = Some (json_of_nat js (or_else 30 (get_metadata_u16 js (Some m) ''dted:longitude_interval'')))"
    "?es ''dted:latitude_interval'' = Some (json_of_nat js (or_else 30 (get_metadata_u16 js (Some m) ''dted:latitude_interval'')))"
    "?es ''dted:vertical_accuracy'' = map_option (json_of_nat js) (get_metadata_u16 js (Some m) ''dted:vertical_accuracy'')"
    using dted_text_entry [OF assms(2-6)] u by (simp_all only: dted_entries_simps kept_numbers_def)
  have "\<exists>r h1. dted_open js ops buf h = (Ok r, h1) \<and> entries (reader_metadata r) None = ?es"
    if "buffer_wf srcs buf \<and> heap_wf srcs h \<and> Owned_Buffer.view srcs buf = dted_file header (native_pixels px) ?rows ?cols"
    for srcs buf h
  proof -
    from mp [OF spec [OF spec [OF spec [OF open_file]]] that]
    obtain h1 r where r: "dted_open js ops buf h = (Ok r, h1)"
      "reader_metadata r = dted_metadata js u (kept_dsi js (Some m)) (kept_acc js (Some m)) header"
      by auto
    then have "entries (reader_metadata r) None = ?es" by (simp add: dted_metadata_def Let_def)
    then show ?thesis using r(1) by blast
  qed
  then show ?thesis using w(1-3) es by metis
qed

lemma dted_metadata_roundtrip_witness:
  "\<exists>b' file r h1. set_full_image [5, 0, 255, 255] (buffered_new (with_pixel_type Int16 (config_new 2 1))) = Ok b' \<and>
    write_image text_values plain_angles ''E'' \<lparr>asset_image = buffered_provider b', pixel_value_type = Int16\<rparr> level_metadata = Ok (Some file) \<and>
    dted_open text_values plain_angles (from_vec file) \<lparr>fetchers = []\<rparr> = (Ok r, h1) \<and>
    entries (reader_metadata r) None ''dted:level'' = Some (ascii ''DTED2'')"
proof -
  let ?b = "buffered_new (with_pixel_type Int16 (config_new 2 1))" and ?px = "[5, 0, 255, 255 :: byte]"
  have cfg: "config ?b = with_pixel_type Int16 (config_new 2 1)" "cfg_rows (config ?b) = 1" "cfg_columns (config ?b) = 2"
    by (simp_all add: buffered_new_def with_pixel_type_def config_new_def)
  have w: "dted_writable text_values plain_angles (config ?b) ?px level_metadata"
    by (rule level_metadata_writable [OF cfg(1)]) simp
  have t: "(''dted:level'', 5) \<in> set text_fields" "get_metadata_str text_values (Some level_metadata) ''dted:level'' = Some (ascii ''DTED2'')"
    "list_all (\<lambda>c. c < 0x80) (ascii ''DTED2'')" "trim_text (ascii ''DTED2'') = ascii ''DTED2''" "length (ascii ''DTED2'') \<le> 5"
    by (simp_all add: text_fields_def get_metadata_str_def level_metadata_def text_values_def ascii_def trim_text_def
        trim_end_matches_def is_white_space_def)
  obtain b' content where f: "set_full_image ?px ?b = Ok b'"
    "write_image text_values plain_angles ''E'' \<lparr>asset_image = buffered_provider b', pixel_value_type = Int16\<rparr> level_metadata = Ok (Some content)"
    "length content = DATA_OFFSET + 2 * record_size 1"
    and opened: "\<forall>srcs buf h. buffer_wf srcs buf \<and> heap_wf srcs h \<and> Owned_Buffer.view srcs buf = content \<longrightarrow>
      (\<exists>r h1. dted_open text_values plain_angles buf h = (Ok r, h1) \<and>
        entries (reader_metadata r) None ''dted:level'' = Some (json_of_text text_values (ascii ''DTED2'')))"
    using dted_metadata_roundtrip [OF w t, of "''E''"] unfolding cfg(2,3) by fast
  have "buffer_wf [] (from_vec content)" "heap_wf [] \<lparr>fetchers = []\<rparr>"
    using f(3) by (simp_all add: buffer_wf_from_vec DATA_OFFSET_def UHL_SIZE_def DSI_SIZE_def ACC_SIZE_def record_size_def U64_def heap_wf_def)
  moreover have "json_of_text text_values (ascii ''DTED2'') = ascii ''DTED2''" by (simp add: text_values_def)
  ultimately show ?thesis using f(1,2) opened view_from_vec [of "[]" content] by metis
qed

end
