(* ===== verification/Composite.thy ===== *)
theory Composite
  imports Dted_Image
begin

text \<open>
  Datasets made of a primary file and overview files: \<open>src/src/composite/reader.rs\<close>,
  \<open>wrapper.rs\<close> and \<open>writer.rs\<close>.  The inner readers and writers are those of the formats, behind
  the traits of \<open>src/src/traits/reader.rs\<close> and \<open>writer.rs\<close>; they are parameters, records of their
  operations.  The locale \<open>dataset_reader\<close> is what a reader promises: the keys it lists are there.
\<close>

section \<open>Readers\<close>

record ('r, 'a) reader_ops =
  reader_get :: "'r \<Rightarrow> string \<Rightarrow> ('a, codec_error) outcome"
  reader_keys :: "'r \<Rightarrow> asset_type option \<Rightarrow> string list option \<Rightarrow> string list"
  reader_has :: "'r \<Rightarrow> string \<Rightarrow> bool"
  reader_close :: "('r, unit, codec_error) call"

text \<open>The wrapper changes the key and the roles of an image and passes everything else on.\<close>

record 'i overview_wrapper =
  wrapper_key :: string
  wrapper_roles :: "string list"
  inner :: 'i

definition wrapper_new :: "string \<Rightarrow> 'i \<Rightarrow> 'i overview_wrapper" where
  "wrapper_new key i = \<lparr>wrapper_key = key, wrapper_roles = [''overview''], inner = i\<rparr>"

record ('r, 'i, 'a) composite_reader =
  base_reader :: 'r
  overviews :: "string \<Rightarrow> 'i overview_wrapper option"
  overview_keys :: "string list"
  asset_cache :: "string \<Rightarrow> ('i overview_wrapper + 'a) option"

definition overview_key :: "nat \<Rightarrow> string" where
  "overview_key level = ''image:0:overview:'' @ show_nat level"

text \<open>The number behind the last colon.\<close>

definition key_level :: "string \<Rightarrow> nat" where
  "key_level k =
    (case parse_unsigned (2 ^ 32) (rev (takeWhile (\<lambda>c. c \<noteq> CHR '':'') (rev k))) of Some n \<Rightarrow> n | None \<Rightarrow> 0)"

definition composite_reader_new :: "'r \<Rightarrow> (nat \<times> 'i) list \<Rightarrow> ('r, 'i, 'a) composite_reader" where
  "composite_reader_new b levels =
    \<lparr>base_reader = b,
     overviews = fold (\<lambda>(level, i) m. m(overview_key level \<mapsto> wrapper_new (overview_key level) i)) levels Map.empty,
     overview_keys = sort_key key_level (map (\<lambda>(level, i). overview_key level) levels),
     asset_cache = Map.empty\<rparr>"

definition composite_get ::
    "('r, 'a) reader_ops \<Rightarrow> string \<Rightarrow> (('r, 'i, 'a) composite_reader, 'i overview_wrapper + 'a, codec_error) call" where
  "composite_get ops key = (\<lambda>r.
    case overviews r key of
      Some w \<Rightarrow>
        (case asset_cache r key of
          Some asset \<Rightarrow> (Ok asset, r)
        | None \<Rightarrow> (Ok (Inl w), r\<lparr>asset_cache := (asset_cache r)(key \<mapsto> Inl w)\<rparr>))
    | None \<Rightarrow> (map_ok Inr (reader_get ops (base_reader r) key), r))"

definition composite_keys ::
    "('r, 'a) reader_ops \<Rightarrow> ('r, 'i, 'a) composite_reader \<Rightarrow> asset_type option \<Rightarrow> string list option \<Rightarrow> string list" where
  "composite_keys ops r ty roles =
    (let type_matches = (ty = None \<or> ty = Some Image);
         roles_match = (case roles of None \<Rightarrow> True | Some rs \<Rightarrow> list_ex (\<lambda>role. role = ''overview'') rs)
     in reader_keys ops (base_reader r) ty roles @ (if type_matches \<and> roles_match then overview_keys r else []))"

definition composite_has :: "('r, 'a) reader_ops \<Rightarrow> ('r, 'i, 'a) composite_reader \<Rightarrow> string \<Rightarrow> bool" where
  "composite_has ops r key \<longleftrightarrow> overviews r key \<noteq> None \<or> reader_has ops (base_reader r) key"

definition composite_reader_close :: "('r, 'a) reader_ops \<Rightarrow> (('r, 'i, 'a) composite_reader, unit, codec_error) call" where
  "composite_reader_close ops = (\<lambda>r.
    case reader_close ops (base_reader r) of
      (res, b) \<Rightarrow> (res, r\<lparr>asset_cache := Map.empty, base_reader := b\<rparr>))"

section \<open>Writers\<close>

text \<open>An asset goes with its title, description and roles as it is.\<close>

record ('w, 'a, 'm) writer_trait =
  writer_add :: "string \<Rightarrow> 'a \<Rightarrow> ('w, unit, codec_error) call"
  writer_set_metadata :: "'m \<Rightarrow> ('w, unit, codec_error) call"
  writer_close :: "('w, unit, codec_error) call"

record ('w, 'm) composite_writer =
  base_writer :: 'w
  rset_writers :: "(nat \<times> 'w) list"
  composite_metadata :: "'m option"
  asset_keys :: "string set"
  composite_closed :: bool

definition composite_writer_new :: "'w \<Rightarrow> (nat \<times> 'w) list \<Rightarrow> ('w, 'm) composite_writer" where
  "composite_writer_new b rs =
    \<lparr>base_writer = b, rset_writers = sort_key fst rs, composite_metadata = None, asset_keys = {}, composite_closed = False\<rparr>"

text \<open>\<open>str::rsplit_once\<close>: around the last occurrence.\<close>

definition rsplit_once :: "string \<Rightarrow> string \<Rightarrow> (string \<times> string) option" where
  "rsplit_once pat s =
    map_option (\<lambda>i. (take i s, drop (i + length pat) s))
      (find (\<lambda>i. take (length pat) (drop i s) = pat \<and> i + length pat \<le> length s) (rev [0..<Suc (length s)]))"

definition starts_with :: "string \<Rightarrow> string \<Rightarrow> bool" where
  "starts_with p s \<longleftrightarrow> take (length p) s = p"

definition parse_overview_key :: "string \<Rightarrow> (string \<times> nat) option" where
  "parse_overview_key key =
    (case rsplit_once '':overview:'' key of
      None \<Rightarrow> None
    | Some (parent, suffix) \<Rightarrow>
        if starts_with ''image:'' parent then map_option (\<lambda>level. (parent, level)) (parse_unsigned (2 ^ 32) suffix) else None)"

text \<open>A call on the first writer of a level.\<close>

fun on_level :: "nat \<Rightarrow> ('w, 'b, 'e) call \<Rightarrow> (nat \<times> 'w) list \<Rightarrow> (('b, 'e) outcome \<times> (nat \<times> 'w) list) option" where
  "on_level level m [] = None"
| "on_level level m ((l, w) # ws) =
    (if l = level then (case m w of (r, w') \<Rightarrow> Some (r, (l, w') # ws))
     else map_option (\<lambda>(r, ws'). (r, (l, w) # ws')) (on_level level m ws))"

definition composite_add ::
    "('w, 'a, 'm) writer_trait \<Rightarrow> string \<Rightarrow> 'a \<Rightarrow> (('w, 'm) composite_writer, unit, codec_error) call" where
  "composite_add ops key asset = (\<lambda>c.
    if composite_closed c then (Err IoError, c)
    else if key \<in> asset_keys c then (Err (DuplicateKey key), c)
    else
      (let c = c\<lparr>asset_keys := insert key (asset_keys c)\<rparr>
       in case parse_overview_key key of
           Some (parent, level) \<Rightarrow>
             (case on_level level (writer_add ops parent asset) (rset_writers c) of
               Some (r, ws) \<Rightarrow> (r, c\<lparr>rset_writers := ws\<rparr>)
             | None \<Rightarrow> (Err InvalidFormat, c))
         | None \<Rightarrow> (case writer_add ops key asset (base_writer c) of (r, b) \<Rightarrow> (r, c\<lparr>base_writer := b\<rparr>))))"

text \<open>The overview writers one by one, up to the first error.\<close>

fun each_writer :: "('w, unit, 'e) call \<Rightarrow> ((nat \<times> 'w) list, unit, 'e) call" where
  "each_writer m [] = (Ok (), [])"
| "each_writer m ((l, w) # ws) =
    (case m w of
      (Ok _, w') \<Rightarrow> (case each_writer m ws of (r, ws') \<Rightarrow> (r, (l, w') # ws'))
    | (r, w') \<Rightarrow> (r, (l, w') # ws))"

definition all_writers :: "('w, unit, codec_error) call \<Rightarrow> (('w, 'm) composite_writer, unit, codec_error) call" where
  "all_writers m = (\<lambda>c.
    case m (base_writer c) of
      (Ok _, b) \<Rightarrow> (case each_writer m (rset_writers c) of (r, ws) \<Rightarrow> (r, c\<lparr>base_writer := b, rset_writers := ws\<rparr>))
    | (r, b) \<Rightarrow> (r, c\<lparr>base_writer := b\<rparr>))"

definition composite_set_metadata ::
    "('w, 'a, 'm) writer_trait \<Rightarrow> 'm \<Rightarrow> (('w, 'm) composite_writer, unit, codec_error) call" where
  "composite_set_metadata ops m =
    seq (all_writers (writer_set_metadata ops m)) (\<lambda>_ c. (Ok (), c\<lparr>composite_metadata := Some m\<rparr>))"

definition composite_close :: "('w, 'a, 'm) writer_trait \<Rightarrow> (('w, 'm) composite_writer, unit, codec_error) call" where
  "composite_close ops = (\<lambda>c.
    if composite_closed c then (Ok (), c)
    else seq (all_writers (writer_close ops)) (\<lambda>_ c. (Ok (), c\<lparr>composite_closed := True\<rparr>)) c)"

section \<open>What a reader promises\<close>

locale dataset_reader =
  fixes ready :: "'r \<Rightarrow> bool" and keys :: "'r \<Rightarrow> asset_type option \<Rightarrow> string list option \<Rightarrow> string list"
    and has :: "'r \<Rightarrow> string \<Rightarrow> bool" and find_asset :: "'r \<Rightarrow> string \<Rightarrow> ('a, codec_error) outcome"
  assumes listed: "ready r \<Longrightarrow> key \<in> set (keys r ty roles) \<Longrightarrow> has r key"
    and found: "ready r \<Longrightarrow> has r key \<longleftrightarrow> is_ok (find_asset r key)"
begin

lemma listed_found: "ready r \<Longrightarrow> key \<in> set (keys r ty roles) \<Longrightarrow> \<exists>a. find_asset r key = Ok a"
  using listed found by (auto simp: is_ok_iff)

end

definition dted_ready :: "'j dted_reader \<Rightarrow> bool" where
  "dted_ready r \<longleftrightarrow> (\<forall>i. dted_image_of r = Some i \<longrightarrow> image_record_size i = record_size (lat_points i))"

lemma dted_listed: "key \<in> set (dted_get_asset_keys r ty roles) \<Longrightarrow> dted_has_asset r key"
  by (cases "ty = None \<or> ty = Some Image"; cases "dted_image_of r"; cases roles)
    (simp_all add: dted_get_asset_keys_def dted_has_asset_def split: if_splits)

lemma dted_found: "dted_has_asset r key \<longleftrightarrow> is_ok (dted_get_asset r key)"
  by (cases "dted_image_of r") (simp_all add: dted_has_asset_def dted_get_asset_def)

interpretation dted: dataset_reader dted_ready dted_get_asset_keys dted_has_asset dted_get_asset
  by unfold_locales (erule dted_listed, rule dted_found)

text \<open>What stays true of a composite reader: the overviews listed are there, the cache holds them.\<close>

definition composite_ready :: "('r \<Rightarrow> bool) \<Rightarrow> ('r, 'i, 'a) composite_reader \<Rightarrow> bool" where
  "composite_ready base_ready r \<longleftrightarrow> base_ready (base_reader r) \<and> (\<forall>k\<in>set (overview_keys r). overviews r k \<noteq> None) \<and>
    (\<forall>k a. asset_cache r k = Some a \<longrightarrow> (\<exists>w. overviews r k = Some w \<and> a = Inl w))"

lemma composite_get_result:
  assumes "composite_ready P r"
  shows "fst (composite_get ops key r) =
    (case overviews r key of Some w \<Rightarrow> Ok (Inl w) | None \<Rightarrow> map_ok Inr (reader_get ops (base_reader r) key))"
proof (cases "overviews r key")
  case (Some w)
  then have "asset_cache r key = None \<or> asset_cache r key = Some (Inl w)"
    using assms unfolding composite_ready_def by (cases "asset_cache r key") fastforce+
  then show ?thesis using Some by (auto simp: composite_get_def)
qed (simp add: composite_get_def)

lemma composite_get_keeps:
  assumes "composite_ready P r" "composite_get ops key r = (res, r')"
  shows "composite_ready P r' \<and> base_reader r' = base_reader r \<and> overviews r' = overviews r \<and> overview_keys r' = overview_keys r"
  using assms by (auto simp: composite_get_def composite_ready_def split: option.splits if_splits)

locale composite_base = base: dataset_reader base_ready "reader_keys ops" "reader_has ops" "reader_get ops"
  for base_ready :: "'r \<Rightarrow> bool" and ops :: "('r, 'a) reader_ops"

sublocale composite_base \<subseteq> composite: dataset_reader "composite_ready base_ready :: ('r, 'i, 'a) composite_reader \<Rightarrow> bool"
  "composite_keys ops" "composite_has ops" "\<lambda>r key. fst (composite_get ops key r)"
proof (unfold_locales, goal_cases)
  case (1 r key ty roles)
  then show ?case using base.listed by (auto simp: composite_keys_def composite_has_def composite_ready_def Let_def split: if_splits)
next
  case (2 r key)
  then show ?case using base.found [of "base_reader r" key]
    by (auto simp: composite_get_result composite_has_def composite_ready_def is_ok_iff outcome_simps split: option.splits)
qed

definition dted_ops :: "('j dted_reader, 'j dted_image) reader_ops" where
  "dted_ops = \<lparr>reader_get = dted_get_asset, reader_keys = dted_get_asset_keys, reader_has = dted_has_asset,
     reader_close = (\<lambda>r. (Ok (), dted_reader_close r))\<rparr>"

interpretation composite_dted: composite_base dted_ready dted_ops
  unfolding composite_base_def dted_ops_def using dted.dataset_reader_axioms by simp

section \<open>Overview keys\<close>

lemma find_app: "find P (xs @ ys) = (case find P xs of Some x \<Rightarrow> Some x | None \<Rightarrow> find P ys)"
  by (induction xs) auto

lemma rsplit_once_last:
  assumes "\<And>i. length pre < i \<Longrightarrow> i + length pat \<le> length (pre @ pat @ suf) \<Longrightarrow> take (length pat) (drop i (pre @ pat @ suf)) \<noteq> pat"
  shows "rsplit_once pat (pre @ pat @ suf) = Some (pre, suf)"
proof -
  let ?s = "pre @ pat @ suf" and ?P = "\<lambda>i. take (length pat) (drop i (pre @ pat @ suf)) = pat \<and> i + length pat \<le> length (pre @ pat @ suf)"
  have upt: "[0..<Suc (length ?s)] = [0..<length pre] @ length pre # [Suc (length pre)..<Suc (length ?s)]"
    using upt_add_eq_append [of 0 "length pre" "Suc (length pat + length suf)"] upt_conv_Cons [of "length pre" "Suc (length ?s)"]
    by simp
  have none: "find ?P (rev [Suc (length pre)..<Suc (length ?s)]) = None"
    using assms by (auto simp: find_None_iff simp del: upt_Suc)
  have "find ?P (rev [0..<Suc (length ?s)]) = Some (length pre)"
    unfolding upt rev_append rev.simps append_assoc using none by (simp add: find_app del: upt_Suc)
  then show ?thesis by (simp add: rsplit_once_def del: upt_Suc)
qed

lemma digit_not_colon: "d < 10 \<Longrightarrow> digit_char d \<noteq> CHR '':''"
  using of_char_digit [of d] by (auto simp: dest: arg_cong [where f = "of_char :: char \<Rightarrow> nat"])

lemma show_nat_no_colon: "CHR '':'' \<notin> set (show_nat n)"
  using show_nat_digits digit_not_colon by metis

lemma parse_show_nat: "n < bound \<Longrightarrow> parse_unsigned bound (show_nat n) = Some n"
  using parse_unsigned_digits [OF show_nat_nonempty digits_val_show_nat _ ballI [OF show_nat_digits]] .

lemma parse_overview_key_overview:
  assumes "level < 2 ^ 32"
  shows "parse_overview_key (overview_key level) = Some (''image:0'', level)"
proof -
  let ?pre = "''image:0''" and ?pat = "'':overview:''" and ?suf = "show_nat level"
  have "take (length ?pat) (drop i (?pre @ ?pat @ ?suf)) \<noteq> ?pat"
    if i: "length ?pre < i" "i + length ?pat \<le> length (?pre @ ?pat @ ?suf)" for i
  proof
    assume eq: "take (length ?pat) (drop i (?pre @ ?pat @ ?suf)) = ?pat"
    have "take (length ?pat) (drop i (?pre @ ?pat @ ?suf)) ! 9 = CHR '':''" unfolding eq by simp
    then have "(?pre @ ?pat @ ?suf) ! (i + 9) = CHR '':''" using i(2) by simp
    moreover have "(?pre @ ?pat @ ?suf) ! (i + 9) = ?suf ! (i + 9 - 17)" using i(1) by (simp add: nth_append numeral_eq_Suc)
    moreover have "i + 9 - 17 < length ?suf" using i by simp
    ultimately have "CHR '':'' \<in> set ?suf" using nth_mem by metis
    then show False using show_nat_no_colon by blast
  qed
  then have "rsplit_once ?pat (?pre @ ?pat @ ?suf) = Some (?pre, ?suf)" by (rule rsplit_once_last)
  moreover have "overview_key level = ?pre @ ?pat @ ?suf" by (simp add: overview_key_def)
  ultimately show ?thesis using assms by (simp add: parse_overview_key_def parse_show_nat starts_with_def)
qed

lemma key_level_overview:
  assumes "level < 2 ^ 32"
  shows "key_level (overview_key level) = level"
proof -
  have "takeWhile (\<lambda>c. c \<noteq> CHR '':'') (rev (show_nat level) @ rev ''image:0:overview:'') = rev (show_nat level)"
    using show_nat_no_colon [of level] by (subst takeWhile_append2) auto
  then show ?thesis using parse_show_nat [OF assms] by (simp add: key_level_def overview_key_def)
qed

lemma overview_key_inj: "l < 2 ^ 32 \<Longrightarrow> l' < 2 ^ 32 \<Longrightarrow> overview_key l = overview_key l' \<longleftrightarrow> l = l'"
  using key_level_overview by metis

section \<open>Reading\<close>

lemma map_sort_key: "map f (sort_key f xs) = sort (map f xs)"
  by (rule properties_for_sort [symmetric]) (metis mset_map mset_sort, simp)

text \<open>The states a reader reaches through \<open>get_asset\<close>.\<close>

inductive composite_reads :: "('r, 'a) reader_ops \<Rightarrow> ('r, 'i, 'a) composite_reader \<Rightarrow> ('r, 'i, 'a) composite_reader \<Rightarrow> bool"
  for ops where
  start: "composite_reads ops r r"
| get: "composite_reads ops r r' \<Longrightarrow> composite_reads ops r (snd (composite_get ops key r'))"

lemma composite_reads_keep:
  assumes "composite_reads ops r r'" "composite_ready P r"
  shows "composite_ready P r' \<and> base_reader r' = base_reader r \<and> overviews r' = overviews r \<and> overview_keys r' = overview_keys r"
  using assms
proof (induction rule: composite_reads.induct)
  case (get r r' key)
  then show ?case using composite_get_keeps [of P r' ops key] by (metis prod.collapse)
qed simp

lemma overviews_fold:
  assumes "\<forall>(l, i)\<in>set levels. l < 2 ^ 32"
  shows "fold (\<lambda>(level, i) m. m(overview_key level \<mapsto> wrapper_new (overview_key level) i)) levels m key =
    (case map_of (rev (map (\<lambda>(l, i). (overview_key l, wrapper_new (overview_key l) i)) levels)) key of Some w \<Rightarrow> Some w | None \<Rightarrow> m key)"
  using assms
proof (induction levels arbitrary: m)
  case (Cons a levels)
  obtain l i where a: "a = (l, i)" by (cases a)
  show ?case using Cons by (auto simp: a map_of_append map_add_def split: option.splits)
qed simp

lemma map_of_keys:
  assumes "\<forall>(l, i)\<in>set xs. l < 2 ^ 32" "l < 2 ^ 32"
  shows "map_of (map (\<lambda>(l, i). (overview_key l, wrapper_new (overview_key l) i)) xs) (overview_key l) =
    map_option (wrapper_new (overview_key l)) (map_of xs l)"
  using assms by (induction xs) (auto simp: overview_key_inj)

lemma composite_new_ready:
  assumes "\<forall>(l, i)\<in>set levels. l < 2 ^ 32" "P b"
  shows "composite_ready P (composite_reader_new b levels)"
proof -
  have "overviews (composite_reader_new b levels) (overview_key l) \<noteq> None" if "(l, i) \<in> set levels" for l i
  proof -
    have "l < 2 ^ 32" using assms(1) that by blast
    moreover have "map_of (rev levels) l \<noteq> None" using imageI [OF that, of fst] by (simp add: map_of_eq_None_iff)
    ultimately show ?thesis using map_of_keys [of "rev levels" l] assms(1)
      by (auto simp: composite_reader_new_def overviews_fold [OF assms(1)] rev_map split: option.split)
  qed
  then show ?thesis using assms(2) by (auto simp: composite_ready_def composite_reader_new_def)
qed

text \<open>C36: a composite reader shows the base and every overview.  Whatever was asked of it before, the
  overview of a level, the last given for it, is found under the key \<open>image:0:overview:N\<close> with
  the overview role, a key that writers route back to level \<open>N\<close>; the keys listed are those of the
  base followed by the overview keys in ascending order of level; every other key is answered by
  the base.\<close>

theorem composite_reader_complete:
  assumes "\<forall>(l, i)\<in>set levels. l < 2 ^ 32" "composite_reads ops (composite_reader_new b levels) r"
  shows "(\<forall>l i. map_of (rev levels) l = Some i \<longrightarrow>
      fst (composite_get ops (overview_key l) r) = Ok (Inl (wrapper_new (overview_key l) i)) \<and>
      parse_overview_key (overview_key l) = Some (''image:0'', l)) \<and>
    (\<forall>key. key \<notin> overview_key ` fst ` set levels \<longrightarrow>
      fst (composite_get ops key r) = map_ok Inr (reader_get ops b key)) \<and>
    composite_keys ops r None None = reader_keys ops b None None @ overview_keys r \<and>
    map key_level (overview_keys r) = sort (map fst levels) \<and>
    set (overview_keys r) = overview_key ` fst ` set levels"
proof -
  have r: "composite_ready (\<lambda>_. True) r" "base_reader r = b" "overview_keys r = sort_key key_level (map (\<lambda>(l, i). overview_key l) levels)"
    and over: "\<And>key. overviews r key = map_of (rev (map (\<lambda>(l, i). (overview_key l, wrapper_new (overview_key l) i)) levels)) key"
    using composite_reads_keep [OF assms(2) composite_new_ready [where P = "\<lambda>_. True", OF assms(1) TrueI]] overviews_fold [OF assms(1), of Map.empty]
    by (auto simp: composite_reader_new_def split: option.splits)
  have small: "l < 2 ^ 32" if "map_of (rev levels) l = Some i" for l i
    using assms(1) map_of_SomeD [OF that] by auto
  have one: "fst (composite_get ops (overview_key l) r) = Ok (Inl (wrapper_new (overview_key l) i))"
    if "map_of (rev levels) l = Some i" for l i
    using that map_of_keys [of "rev levels" l] assms(1) small [OF that]
    by (auto simp: composite_get_result [OF r(1)] over rev_map)
  have other: "fst (composite_get ops key r) = map_ok Inr (reader_get ops b key)" if "key \<notin> overview_key ` fst ` set levels" for key
  proof -
    have "overviews r key = None" unfolding over using that by (force simp: map_of_eq_None_iff rev_map [symmetric] image_iff)
    then show ?thesis by (simp add: composite_get_result [OF r(1)] r(2))
  qed
  have "map key_level (map (\<lambda>(l, i). overview_key l) levels) = map fst levels"
    using assms(1) by (auto simp: key_level_overview)
  then have levels: "map key_level (overview_keys r) = sort (map fst levels)"
    unfolding r(3) using map_sort_key by metis
  show ?thesis
    using one other levels small parse_overview_key_overview
    by (auto simp: composite_keys_def r(2)) (force simp: r(3) image_iff split_def)+
qed

section \<open>Writing\<close>

text \<open>Assets added one after the other, with the result of every call.\<close>

fun add_all :: "(string \<Rightarrow> 'a \<Rightarrow> ('w, unit, codec_error) call) \<Rightarrow> (string \<times> 'a) list \<Rightarrow> 'w \<Rightarrow> (unit, codec_error) outcome list \<times> 'w" where
  "add_all add [] w = ([], w)"
| "add_all add ((key, asset) # assets) w =
    (case add key asset w of (r, w') \<Rightarrow> (case add_all add assets w' of (rs, w'') \<Rightarrow> (r # rs, w'')))"

text \<open>The share of one writer: the first occurrence of every key that a routing sends to it.\<close>

fun share :: "(string \<Rightarrow> string option) \<Rightarrow> string set \<Rightarrow> (string \<times> 'a) list \<Rightarrow> (string \<times> 'a) list" where
  "share route seen [] = []"
| "share route seen ((key, asset) # assets) =
    (if key \<in> seen then share route seen assets
     else (case route key of Some k \<Rightarrow> [(k, asset)] | None \<Rightarrow> []) @ share route (insert key seen) assets)"

definition to_base :: "string \<Rightarrow> string option" where
  "to_base key = (if parse_overview_key key = None then Some key else None)"

definition to_level :: "nat \<Rightarrow> string \<Rightarrow> string option" where
  "to_level l key = (case parse_overview_key key of Some (parent, level) \<Rightarrow> if level = l then Some parent else None | None \<Rightarrow> None)"

lemma add_all_append: "snd (add_all add (xs @ ys) w) = snd (add_all add ys (snd (add_all add xs w)))"
  by (induction xs arbitrary: w) (auto simp: split_def)

lemma on_level_writers:
  "case map_of ws level of
     None \<Rightarrow> on_level level m ws = None
   | Some w \<Rightarrow> \<exists>ws'. on_level level m ws = Some (fst (m w), ws') \<and> map fst ws' = map fst ws \<and>
       map_of ws' = (map_of ws)(level \<mapsto> snd (m w))"
proof (induction ws)
  case (Cons p ws)
  obtain l w where p: "p = (l, w)" by (cases p)
  show ?case using Cons by (cases "m w") (auto simp: p fun_eq_iff split: option.splits)
qed simp

text \<open>C37: assets added through a composite writer reach every inner writer as if it were written to
  alone.  Whatever the inner writers do, failures included, after any sequence of additions the
  base writer is in the state that the assets without overview keys bring it to, added in
  order, and the writer of a level in the state that the assets of its level bring it to, under
  the keys of their parents; only the first use of a key counts, and no other writer is
  touched.\<close>

theorem composite_writer_routes:
  assumes "\<not> composite_closed c" "add_all (composite_add ops) assets c = (rs, c')"
  shows "base_writer c' = snd (add_all (writer_add ops) (share to_base (asset_keys c) assets) (base_writer c)) \<and>
    map fst (rset_writers c') = map fst (rset_writers c) \<and>
    (\<forall>l. map_of (rset_writers c') l =
      map_option (\<lambda>w. snd (add_all (writer_add ops) (share (to_level l) (asset_keys c) assets) w)) (map_of (rset_writers c) l)) \<and>
    asset_keys c' = asset_keys c \<union> fst ` set assets \<and> \<not> composite_closed c'"
  using assms
proof (induction assets arbitrary: c rs)
  case (Cons p assets)
  obtain key asset where p: "p = (key, asset)" by (cases p)
  obtain r1 c1 rs1 where c1: "composite_add ops key asset c = (r1, c1)" and rest: "add_all (composite_add ops) assets c1 = (rs1, c')"
    using Cons.prems(2) by (auto simp: p split: prod.splits)
  have op: "\<not> composite_closed c1" "asset_keys c1 = insert key (asset_keys c)"
    using c1 Cons.prems(1) by (auto simp: composite_add_def Let_def split: if_splits option.splits prod.splits)
  note IH = Cons.IH [OF op(1) rest]
  have base: "base_writer c1 = (if key \<in> asset_keys c \<or> to_base key = None then base_writer c
      else snd (writer_add ops key asset (base_writer c)))"
    using c1 Cons.prems(1) by (auto simp: composite_add_def Let_def to_base_def split: if_splits option.splits prod.splits)
  have rsets: "map fst (rset_writers c1) = map fst (rset_writers c) \<and>
      (\<forall>l. map_of (rset_writers c1) l = map_option (\<lambda>w. if key \<in> asset_keys c then w else
        (case to_level l key of Some k \<Rightarrow> snd (writer_add ops k asset w) | None \<Rightarrow> w)) (map_of (rset_writers c) l))"
  proof (cases "key \<in> asset_keys c \<or> parse_overview_key key = None")
    case True
    then have "rset_writers c1 = rset_writers c"
      using c1 Cons.prems(1) by (auto simp: composite_add_def Let_def split: if_splits option.splits prod.splits)
    moreover have "map_option (\<lambda>w. if key \<in> asset_keys c then w else
        (case to_level l key of Some k \<Rightarrow> snd (writer_add ops k asset w) | None \<Rightarrow> w)) x = x" for l x
      using True by (cases x) (auto simp: to_level_def)
    ultimately show ?thesis by simp
  next
    case False
    then obtain parent level where k: "parse_overview_key key = Some (parent, level)" "key \<notin> asset_keys c" by auto
    show ?thesis
      using c1 Cons.prems(1) k on_level_writers [where ws = "rset_writers c" and level = level and m = "writer_add ops parent asset"]
      by (auto simp: composite_add_def to_level_def option.map_ident split: option.splits)
  qed
  show ?case
  proof (cases "key \<in> asset_keys c")
    case True
    then have "asset_keys c1 = asset_keys c" using op(2) by (simp add: insert_absorb)
    moreover have "map_of (rset_writers c1) l = map_of (rset_writers c) l" for l
      using rsets True by (simp add: option.map_ident)
    moreover have "base_writer c1 = base_writer c" using base True by simp
    ultimately show ?thesis unfolding p using IH conjunct1 [OF rsets] True by (simp add: insert_absorb)
  next
    case False
    have "map_option (\<lambda>w. snd (add_all (writer_add ops) (share (to_level l) (asset_keys c) ((key, asset) # assets)) w)) x =
        map_option (\<lambda>w. snd (add_all (writer_add ops) (share (to_level l) (insert key (asset_keys c)) assets) w))
          (map_option (\<lambda>w. case to_level l key of Some k \<Rightarrow> snd (writer_add ops k asset w) | None \<Rightarrow> w) x)" for l x
      using False by (cases x) (auto simp: split_def split: option.split)
    moreover have "snd (add_all (writer_add ops) (share to_base (asset_keys c) ((key, asset) # assets)) (base_writer c)) =
        snd (add_all (writer_add ops) (share to_base (insert key (asset_keys c)) assets) (base_writer c1))"
      using base False by (cases "parse_overview_key key") (simp_all add: to_base_def split_def)
    ultimately show ?thesis unfolding p using IH rsets op(2) False by simp
  qed
qed (auto simp: option.map_ident)

text \<open>A writer that takes every asset but those of one name.\<close>

definition log_writer :: "((string \<times> nat) list, nat, unit) writer_trait" where
  "log_writer = \<lparr>writer_add = (\<lambda>key asset w. if asset = 0 then (Err Unsupported, w) else (Ok (), w @ [(key, asset)])),
     writer_set_metadata = (\<lambda>_ w. (Ok (), w)), writer_close = (\<lambda>w. (Ok (), w))\<rparr>"

lemma composite_writer_routes_witness:
  "\<exists>rs c'. add_all (composite_add log_writer) [(''image:0'', 1), (''image:0:overview:2'', 3), (''image:0'', 4), (''text:0'', 0)]
      (composite_writer_new [] [(2, [])]) = (rs, c') \<and>
    base_writer c' = [(''image:0'', 1)] \<and> map_of (rset_writers c') 2 = Some [(''image:0'', 3)]"
proof -
  let ?as = "[(''image:0'', 1), (''image:0:overview:2'', 3), (''image:0'', 4), (''text:0'', 0 :: nat)]"
  let ?c = "composite_writer_new [] [(2, [])] :: ((string \<times> nat) list, unit) composite_writer"
  obtain rs c' where c': "add_all (composite_add log_writer) ?as ?c = (rs, c')" by (cases "add_all (composite_add log_writer) ?as ?c")
  have open_writer: "\<not> composite_closed ?c" by (simp add: composite_writer_new_def)
  have k: "parse_overview_key ''image:0'' = None" "parse_overview_key ''text:0'' = None"
    by (simp_all add: parse_overview_key_def rsplit_once_def upt_rec)
  have o: "parse_overview_key ''image:0:overview:2'' = Some (''image:0'', 2)"
    using parse_overview_key_overview [of 2] by (simp add: overview_key_def digit_char_values show_nat.simps)
  have "asset_keys ?c = {}" "base_writer ?c = []" "map_of (rset_writers ?c) 2 = Some []"
    by (simp_all add: composite_writer_new_def)
  moreover have "share to_base {} ?as = [(''image:0'', 1), (''text:0'', 0)]" "share (to_level 2) {} ?as = [(''image:0'', 3)]"
    by (simp_all add: k o to_base_def to_level_def)
  moreover note composite_writer_routes [OF open_writer c', THEN conjunct1]
    composite_writer_routes [OF open_writer c', THEN conjunct2, THEN conjunct2, THEN conjunct1, THEN spec, of 2]
  ultimately have "base_writer c' = [(''image:0'', 1)]" "map_of (rset_writers c') 2 = Some [(''image:0'', 3)]"
    by (simp_all add: log_writer_def)
  then show ?thesis using c' by blast
qed

lemma composite_reader_complete_witness:
  "\<exists>r. composite_reads dted_ops (composite_reader_new \<lparr>dted_image_of = None, reader_metadata = \<lparr>raw_metadata = [], entries = (\<lambda>_ _. None)\<rparr>\<rparr> [(2, ''b''), (1, ''a'')]) r \<and>
    fst (composite_get (dted_ops :: (unit dted_reader, unit dted_image) reader_ops) (overview_key 1) r) =
      Ok (Inl \<lparr>wrapper_key = ''image:0:overview:1'', wrapper_roles = [''overview''], inner = ''a''\<rparr>) \<and>
    map key_level (overview_keys r) = [1, 2]"
proof -
  let ?b = "\<lparr>dted_image_of = None, reader_metadata = \<lparr>raw_metadata = [], entries = (\<lambda>_ _. None)\<rparr>\<rparr> :: unit dted_reader"
  let ?l = "[(2, ''b''), (1, ''a'')] :: (nat \<times> string) list"
  let ?n = "composite_reader_new ?b ?l :: (unit dted_reader, string, unit dted_image) composite_reader"
  have small: "\<forall>(l, i)\<in>set ?l. l < 2 ^ 32" by simp
  have "fst (composite_get dted_ops (overview_key 1) ?n) = Ok (Inl (wrapper_new (overview_key 1) ''a''))"
    "map key_level (overview_keys ?n) = sort (map fst ?l)"
    using composite_reader_complete [OF small composite_reads.start, where ops = dted_ops and b = ?b] by auto
  moreover have "overview_key 1 = ''image:0:overview:1''" by (simp add: overview_key_def digit_char_values show_nat.simps)
  ultimately show ?thesis using composite_reads.start [of dted_ops ?n] by (intro exI [of _ ?n]) (simp add: wrapper_new_def)
qed

end
