(* ===== verification/Codestream.thy ===== *)
theory Codestream
  imports Prelude
begin

text \<open>
  JPEG 2000 codestreams as far as the crate reads them itself: \<open>src/src/j2k/markers.rs\<close>.  The
  walk over the marker segments of the main header, the table of tile-parts from the TLM
  segments or from the SOT markers, and the codestream of a single tile that is handed to the
  decoder.  Positions inside the codestream are numbers, since a slice is shorter than
  \<open>2 ^ 63\<close> bytes; sums of lengths that the file declares wrap.
\<close>

section \<open>Markers\<close>

definition SOC :: nat where "SOC = 0xFF4F"
definition SIZ :: nat where "SIZ = 0xFF51"
definition TLM :: nat where "TLM = 0xFF55"
definition SOT :: nat where "SOT = 0xFF90"
definition EOC :: nat where "EOC = 0xFFD9"

record tile_part_entry =
  tile_index :: nat
  part_offset :: nat
  part_length :: nat

record main_header_info =
  main_header :: "byte list"
  decode_header :: "byte list"
  tlm_offset_table :: "tile_part_entry list option"
  first_sot_offset :: nat

definition read_u16 :: "byte list \<Rightarrow> nat \<Rightarrow> (nat, 'e) outcome" where
  "read_u16 bytes offset = map_ok be_val (slice offset (offset + 2) bytes)"

definition read_u32 :: "byte list \<Rightarrow> nat \<Rightarrow> (nat, 'e) outcome" where
  "read_u32 bytes offset = map_ok be_val (slice offset (offset + 4) bytes)"

section \<open>The lengths in a TLM segment\<close>

text \<open>The width of a tile index by the ST bits, the width of a length by the SP bit.\<close>

definition tile_index_size :: "byte \<Rightarrow> nat option" where
  "tile_index_size stlm =
    (let st = (unat stlm div 16) mod 4 in if st = 3 then None else Some st)"

definition length_size :: "byte \<Rightarrow> nat" where
  "length_size stlm = (if (unat stlm div 64) mod 2 = 0 then 2 else 4)"

definition tlm_index :: "byte list \<Rightarrow> nat \<Rightarrow> nat \<Rightarrow> nat \<Rightarrow> (nat, codec_error) outcome" where
  "tlm_index body isize pos sequential =
    (if isize = 0 then Ok sequential
     else if isize = 1 then map_ok unat (index_at pos body)
     else read_u16 body pos)"

definition tlm_length :: "byte list \<Rightarrow> nat \<Rightarrow> nat \<Rightarrow> (nat, codec_error) outcome" where
  "tlm_length body lsize pos = (if lsize = 2 then read_u16 body pos else read_u32 body pos)"

function tlm_loop ::
    "byte list \<Rightarrow> nat \<Rightarrow> nat \<Rightarrow> nat \<Rightarrow> nat \<Rightarrow> nat \<Rightarrow> nat \<Rightarrow> (tile_part_entry list \<times> nat, codec_error) outcome" where
  "tlm_loop body isize lsize payload_end pos sequential offset =
    (if lsize \<noteq> 0 \<and> pos + (isize + lsize) \<le> payload_end then
       and_then (tlm_index body isize pos sequential) (\<lambda>index.
       and_then (tlm_length body lsize (pos + isize)) (\<lambda>len.
         map_ok (\<lambda>(es, offset'). (\<lparr>tile_index = index, part_offset = offset, part_length = len\<rparr> # es, offset'))
           (tlm_loop body isize lsize payload_end (pos + isize + lsize)
             (if isize = 0 then (sequential + 1) mod 2 ^ 16 else sequential) (add64 offset len))))
     else Ok ([], offset))"
  by pat_completeness auto

termination
  by (relation "measure (\<lambda>(body, isize, lsize, payload_end, pos, sequential, offset). payload_end + 1 - pos)") auto

declare tlm_loop.simps [simp del]

definition parse_tlm_entries :: "byte list \<Rightarrow> nat \<Rightarrow> (tile_part_entry list \<times> nat, codec_error) outcome" where
  "parse_tlm_entries body running_offset =
    (if length body < 4 then Err InvalidFormat
     else
       and_then (read_u16 body 0) (\<lambda>ltlm.
       and_then (index_at 3 body) (\<lambda>stlm.
       and_then (ok_or InvalidFormat (tile_index_size stlm)) (\<lambda>isize.
         let payload_len = (ltlm - 2) - 2
         in if length body < 4 + payload_len then Err InvalidFormat
            else tlm_loop body isize (length_size stlm) (4 + payload_len) 4 0 running_offset))))"

section \<open>The main header\<close>

text \<open>Markers without a length: \<open>EPH\<close> and the reserved ones, told by their second byte.\<close>

definition delimiter :: "nat \<Rightarrow> bool" where
  "delimiter marker \<longleftrightarrow> marker mod 256 = 0x92 \<or> (0x30 \<le> marker mod 256 \<and> marker mod 256 \<le> 0x3F)"

text \<open>What the walk collects: where it found SOT, the TLM segments, and their entries.\<close>

type_synonym walk_state = "(nat \<times> nat) list \<times> tile_part_entry list \<times> nat"

function header_walk :: "byte list \<Rightarrow> nat \<Rightarrow> walk_state \<Rightarrow> (nat option \<times> walk_state, codec_error) outcome" where
  "header_walk cs pos w =
    (if pos + 2 \<le> length cs then
       (case read_u16 cs pos of
         Ok marker \<Rightarrow>
           (if marker = SOT then Ok (Some pos, w)
            else if delimiter marker then header_walk cs (pos + 2) w
            else if length cs < pos + 4 then Err InvalidFormat
            else
              (case read_u16 cs (pos + 2) of
                Ok marker_length \<Rightarrow>
                  (let segment_total = 2 + marker_length
                   in if length cs < pos + segment_total then Err InvalidFormat
                      else if marker = TLM then
                        (case w of (ranges, entries, running) \<Rightarrow>
                          (case slice (pos + 2) (pos + segment_total) cs of
                            Ok body \<Rightarrow>
                              (case parse_tlm_entries body running of
                                Ok (new, running') \<Rightarrow>
                                  header_walk cs (pos + segment_total)
                                    (ranges @ [(pos, segment_total)], entries @ new, running')
                              | Err e \<Rightarrow> Err e
                              | Panic \<Rightarrow> Panic)
                          | Err e \<Rightarrow> Err e
                          | Panic \<Rightarrow> Panic))
                      else header_walk cs (pos + segment_total) w)
              | Err e \<Rightarrow> Err e
              | Panic \<Rightarrow> Panic))
       | Err e \<Rightarrow> Err e
       | Panic \<Rightarrow> Panic)
     else Ok (None, w))"
  by pat_completeness auto

termination by (relation "measure (\<lambda>(cs, pos, w). length cs + 1 - pos)") auto

declare header_walk.simps [simp del]

text \<open>The main header without the TLM segments.\<close>

fun strip_ranges :: "byte list \<Rightarrow> nat \<Rightarrow> (nat \<times> nat) list \<Rightarrow> (byte list, codec_error) outcome" where
  "strip_ranges header copy_from [] = slice copy_from (length header) header"
| "strip_ranges header copy_from ((start, len) # ranges) =
    and_then (slice copy_from start header) (\<lambda>before.
      map_ok (\<lambda>after. before @ after) (strip_ranges header (start + len) ranges))"

definition parse_main_header :: "byte list \<Rightarrow> (main_header_info, codec_error) outcome" where
  "parse_main_header cs =
    and_then (if length cs < 2 then Err InvalidFormat
       else and_then (read_u16 cs 0) (\<lambda>m. guard (m = SOC) InvalidFormat)) (\<lambda>_.
    and_then (if length cs < 4 then Err InvalidFormat
       else and_then (read_u16 cs 2) (\<lambda>m. guard (m = SIZ) InvalidFormat)) (\<lambda>_.
    and_then (header_walk cs 2 ([], [], 0)) (\<lambda>(found, ranges, entries, _).
    and_then (ok_or InvalidFormat found) (\<lambda>first_sot.
    and_then (slice 0 first_sot cs) (\<lambda>header.
    and_then (if ranges = [] then Ok header else strip_ranges header 0 ranges) (\<lambda>stripped.
      let table = map (\<lambda>e. e\<lparr>part_offset := add64 (part_offset e) first_sot\<rparr>) entries
      in Ok \<lparr>main_header = header, decode_header = stripped,
           tlm_offset_table = (if table = [] then None else Some table),
           first_sot_offset = first_sot\<rparr>))))))"

datatype main_header_extent = Complete nat | Truncated

function extent_walk :: "byte list \<Rightarrow> nat \<Rightarrow> (main_header_extent, codec_error) outcome" where
  "extent_walk cs pos =
    (if pos + 2 \<le> length cs then
       (case read_u16 cs pos of
         Ok marker \<Rightarrow>
           (if marker = SOT then Ok (Complete pos)
            else if delimiter marker then extent_walk cs (pos + 2)
            else if length cs < pos + 4 then Ok Truncated
            else
              (case read_u16 cs (pos + 2) of
                Ok marker_length \<Rightarrow>
                  (let segment_total = 2 + marker_length
                   in if length cs < pos + segment_total then Ok Truncated else extent_walk cs (pos + segment_total))
              | Err e \<Rightarrow> Err e
              | Panic \<Rightarrow> Panic))
       | Err e \<Rightarrow> Err e
       | Panic \<Rightarrow> Panic)
     else Ok Truncated)"
  by pat_completeness auto

termination by (relation "measure (\<lambda>(cs, pos). length cs + 1 - pos)") auto

declare extent_walk.simps [simp del]

definition main_header_extent :: "byte list \<Rightarrow> (main_header_extent, codec_error) outcome" where
  "main_header_extent cs =
    (if length cs < 4 then Ok Truncated
     else and_then (read_u16 cs 0) (\<lambda>m. if m \<noteq> SOC then Ok Truncated else extent_walk cs 2))"

section \<open>Tile-parts\<close>

function scan_loop :: "byte list \<Rightarrow> nat \<Rightarrow> (tile_part_entry list, codec_error) outcome" where
  "scan_loop cs pos =
    (if pos < length cs then
       (case (if pos + 2 \<le> length cs then map_ok (\<lambda>m. m = EOC) (read_u16 cs pos) else Ok False) of
         Ok at_end \<Rightarrow>
           (if at_end then Ok []
            else if length cs < pos + 12 then Err InvalidFormat
            else
              (case read_u16 cs pos of
                Ok marker \<Rightarrow>
                  (if marker \<noteq> SOT then Ok []
                   else
                     and_then (read_u16 cs (pos + 2)) (\<lambda>lsot.
                     and_then (guard (lsot = 10) InvalidFormat) (\<lambda>_.
                     and_then (read_u16 cs (pos + 4)) (\<lambda>isot.
                     (case read_u32 cs (pos + 6) of
                       Ok psot \<Rightarrow>
                         (if psot = 0 then
                            Ok [\<lparr>tile_index = isot, part_offset = pos, part_length = length cs - pos\<rparr>]
                          else if length cs < pos + psot then Err InvalidFormat
                          else
                            map_ok (\<lambda>es. \<lparr>tile_index = isot, part_offset = pos, part_length = psot\<rparr> # es)
                              (scan_loop cs (pos + psot)))
                     | Err e \<Rightarrow> Err e
                     | Panic \<Rightarrow> Panic)))))
              | Err e \<Rightarrow> Err e
              | Panic \<Rightarrow> Panic))
       | Err e \<Rightarrow> Err e
       | Panic \<Rightarrow> Panic)
     else Ok [])"
  by pat_completeness auto

termination by (relation "measure (\<lambda>(cs, pos). length cs - pos)") auto

declare scan_loop.simps [simp del]

definition scan_sot_markers :: "byte list \<Rightarrow> nat \<Rightarrow> (tile_part_entry list, codec_error) outcome" where
  "scan_sot_markers cs first_sot = scan_loop cs first_sot"

function split_loop :: "byte list \<Rightarrow> nat \<Rightarrow> (byte list list, codec_error) outcome" where
  "split_loop buf pos =
    (if pos + 12 \<le> length buf then
       (case read_u16 buf pos of
         Ok marker \<Rightarrow>
           (if marker \<noteq> SOT then Ok []
            else
              (case read_u32 buf (pos + 6) of
                Ok psot \<Rightarrow>
                  (let part_end = (if psot = 0 \<or> length buf < pos + psot then length buf else pos + psot)
                   in and_then (slice pos part_end buf) (\<lambda>part.
                        if part_end = length buf then Ok [part]
                        else map_ok (\<lambda>parts. part # parts) (split_loop buf part_end)))
              | Err e \<Rightarrow> Err e
              | Panic \<Rightarrow> Panic))
       | Err e \<Rightarrow> Err e
       | Panic \<Rightarrow> Panic)
     else Ok [])"
  by pat_completeness auto

termination by (relation "measure (\<lambda>(buf, pos). length buf - pos)") (auto split: if_splits)

declare split_loop.simps [simp del]

definition split_tile_parts :: "byte list \<Rightarrow> (byte list list, codec_error) outcome" where
  "split_tile_parts buf = split_loop buf 0"

section \<open>The codestream of one tile\<close>

definition starts_with_sot :: "byte list \<Rightarrow> bool" where
  "starts_with_sot part \<longleftrightarrow> 6 \<le> length part \<and> part ! 0 = 0xFF \<and> part ! 1 = 0x90"

definition extract_isot :: "byte list \<Rightarrow> (nat option, codec_error) outcome" where
  "extract_isot part = (if starts_with_sot part then map_ok Some (read_u16 part 4) else Ok None)"

definition rem_or_panic :: "nat \<Rightarrow> nat \<Rightarrow> (nat, 'e) outcome" where
  "rem_or_panic a b = (if b = 0 then Panic else Ok (a mod b))"

text \<open>The SIZ fields that the rewriting reads, by their distance from the marker.\<close>

definition siz_field :: "byte list \<Rightarrow> nat \<Rightarrow> (nat, codec_error) outcome" where
  "siz_field header k = read_u32 header (2 + k)"

definition rewrite_siz_for_tile :: "byte list \<Rightarrow> nat \<Rightarrow> (byte list, codec_error) outcome" where
  "rewrite_siz_for_tile header isot =
    (if length header < 40 then Ok header
     else and_then (read_u16 header 2) (\<lambda>marker.
       if marker \<noteq> SIZ then Ok header
       else
         and_then (siz_field header 6) (\<lambda>xsiz.
         and_then (siz_field header 10) (\<lambda>ysiz.
         and_then (siz_field header 14) (\<lambda>xosiz.
         and_then (siz_field header 18) (\<lambda>yosiz.
         and_then (siz_field header 22) (\<lambda>xtsiz.
         and_then (siz_field header 26) (\<lambda>ytsiz.
         and_then (div_ceil_or_panic (sub32 xsiz xosiz) xtsiz) (\<lambda>num_tiles_x.
         and_then (rem_or_panic isot num_tiles_x) (\<lambda>tile_col.
         and_then (div_or_panic isot num_tiles_x) (\<lambda>tile_row.
           let tile_x0 = add32 xosiz (mul32 tile_col xtsiz);
               tile_y0 = add32 yosiz (mul32 tile_row ytsiz);
               width = sub32 (min (add32 tile_x0 xtsiz) xsiz) tile_x0;
               height = sub32 (min (add32 tile_y0 ytsiz) ysiz) tile_y0
           in if width = xtsiz \<and> height = ytsiz then Ok header
              else
                and_then (blit 8 (be_bytes 4 width) header) (\<lambda>h.
                and_then (blit 12 (be_bytes 4 height) h) (\<lambda>h.
                and_then (blit 16 (be_bytes 4 0) h) (\<lambda>h.
                and_then (blit 20 (be_bytes 4 0) h) (\<lambda>h.
                and_then (blit 24 (be_bytes 4 width) h) (\<lambda>h.
                and_then (blit 28 (be_bytes 4 height) h) (\<lambda>h.
                and_then (blit 32 (be_bytes 4 0) h) (\<lambda>h.
                  blit 36 (be_bytes 4 0) h))))))))))))))))))"

text \<open>A tile-part with the index of its tile set to zero.\<close>

definition patch_isot :: "byte list \<Rightarrow> byte list" where
  "patch_isot part = (if starts_with_sot part then take 4 part @ [0, 0] @ drop 6 part else part)"

definition build_minimal_codestream_from_parts :: "byte list \<Rightarrow> byte list list \<Rightarrow> (byte list, codec_error) outcome" where
  "build_minimal_codestream_from_parts header parts =
    and_then (case parts of [] \<Rightarrow> Ok None | part # _ \<Rightarrow> extract_isot part) (\<lambda>isot.
    and_then (case isot of Some i \<Rightarrow> rewrite_siz_for_tile header i | None \<Rightarrow> Ok header) (\<lambda>rewritten.
      Ok (rewritten @ concat (map patch_isot parts) @ [0xFF, 0xD9])))"

definition part_slices :: "byte list \<Rightarrow> (nat \<times> nat) list \<Rightarrow> byte list list" where
  "part_slices cs parts =
    concat (map (\<lambda>(start, len).
      (let part_end = add64 start len
       in if start \<le> part_end \<and> part_end \<le> length cs then [take (part_end - start) (drop start cs)] else [])) parts)"

definition build_minimal_codestream :: "byte list \<Rightarrow> (nat \<times> nat) list \<Rightarrow> byte list \<Rightarrow> (byte list, codec_error) outcome" where
  "build_minimal_codestream header parts cs = build_minimal_codestream_from_parts header (part_slices cs parts)"

section \<open>Reading\<close>

lemma read_u16_in [simp]: "offset + 2 \<le> length bytes \<Longrightarrow> read_u16 bytes offset = Ok (be_val (take 2 (drop offset bytes)))"
  by (simp add: read_u16_def)

lemma read_u32_in [simp]: "offset + 4 \<le> length bytes \<Longrightarrow> read_u32 bytes offset = Ok (be_val (take 4 (drop offset bytes)))"
  by (simp add: read_u32_def)

end
