(* ===== verification/Codestream_Header.thy ===== *)
theory Codestream_Header
  imports Codestream
begin

text \<open>
  The walks of \<open>Codestream\<close> on arbitrary bytes: they never panic, the extent of the header agrees
  with its parsing and neither looks behind the first SOT marker, and cutting a buffer into tile-parts
  agrees with the table of its SOT markers.
\<close>

section \<open>TLM segments\<close>

lemma tlm_loop_total:
  assumes "payload_end \<le> length body" "isize \<le> 2" "lsize = 2 \<or> lsize = 4"
  shows "\<exists>r. (tlm_loop body isize lsize payload_end pos sequential offset :: (_, codec_error) outcome) = Ok r"
  using assms
proof (induction body isize lsize payload_end pos sequential offset rule: tlm_loop.induct)
  case (1 body isize lsize payload_end pos sequential offset)
  show ?case
  proof (cases "lsize \<noteq> 0 \<and> pos + (isize + lsize) \<le> payload_end")
    case True
    obtain index where index: "tlm_index body isize pos sequential = (Ok index :: (nat, codec_error) outcome)"
      using True 1(2-4) by (cases "isize = 0"; cases "isize = 1") (auto simp: index_at_def tlm_index_def)
    obtain len where len: "tlm_length body lsize (pos + isize) = (Ok len :: (nat, codec_error) outcome)"
      using True 1(2-4) by (cases "lsize = 2") (auto simp: tlm_length_def)
    obtain r where "tlm_loop body isize lsize payload_end (pos + isize + lsize)
        (if isize = 0 then (sequential + 1) mod 2 ^ 16 else sequential) (add64 offset len) = (Ok r :: (_, codec_error) outcome)"
      using 1(1) [OF True 1(2-4), of len] by blast
    then show ?thesis unfolding tlm_loop.simps [of body isize lsize payload_end pos] if_P [OF True] index len by simp
  next
    case False
    then show ?thesis unfolding tlm_loop.simps [of body isize lsize payload_end pos] if_not_P [OF False] by simp
  qed
qed

lemma parse_tlm_total: "parse_tlm_entries body running \<noteq> Panic"
proof (cases "length body < 4")
  case False
  have "\<exists>r. tlm_loop body isize (length_size stlm) (4 + n) 4 0 running = (Ok r :: (_, codec_error) outcome)"
    if "tile_index_size stlm = Some isize" "4 + n \<le> length body" for stlm isize n
    using that by (intro tlm_loop_total) (auto simp: tile_index_size_def length_size_def Let_def split: if_splits)
  then show ?thesis using False
    by (cases "tile_index_size (body ! 3)") (force simp: parse_tlm_entries_def index_at_def Let_def not_less split: if_splits)+
qed (simp add: parse_tlm_entries_def)

section \<open>The walk over the header\<close>

text \<open>One step of either walk: the end of the header, a segment to skip, or the end of the bytes.\<close>

datatype step = Found | Skip nat nat | Short

definition walk_step :: "byte list \<Rightarrow> nat \<Rightarrow> step" where
  "walk_step cs pos =
    (let marker = be_val (take 2 (drop pos cs)); segment_total = 2 + be_val (take 2 (drop (pos + 2) cs))
     in if length cs < pos + 2 then Short
        else if marker = SOT then Found
        else if delimiter marker then Skip marker 2
        else if length cs < pos + 4 \<or> length cs < pos + segment_total then Short
        else Skip marker segment_total)"

lemma TLM_no_delimiter [simp]: "\<not> delimiter TLM"
  by (simp add: delimiter_def TLM_def)

lemma extent_walk_step:
  "extent_walk cs pos =
    (case walk_step cs pos of Found \<Rightarrow> Ok (Complete pos) | Short \<Rightarrow> Ok Truncated | Skip m n \<Rightarrow> extent_walk cs (pos + n))"
  by (subst extent_walk.simps) (simp add: walk_step_def Let_def)

lemma header_walk_step:
  "header_walk cs pos w =
    (case walk_step cs pos of
      Found \<Rightarrow> Ok (Some pos, w)
    | Short \<Rightarrow> if length cs < pos + 2 then Ok (None, w) else Err InvalidFormat
    | Skip m n \<Rightarrow>
        if m \<noteq> TLM then header_walk cs (pos + n) w
        else case w of (ranges, entries, running) \<Rightarrow>
          and_then (parse_tlm_entries (take (n - 2) (drop (pos + 2) cs)) running) (\<lambda>(new, running').
            header_walk cs (pos + n) (ranges @ [(pos, n)], entries @ new, running')))"
proof -
  have "2 + k - 2 = k" for k :: nat by simp
  then show ?thesis
    by (subst header_walk.simps)
      (auto simp: walk_step_def Let_def split: prod.splits outcome.splits)
qed

lemma take_drop_more: "pos + k \<le> length cs \<Longrightarrow> take k (drop pos (cs @ suf)) = take k (drop pos cs)"
  by simp

lemma walk_step_more:
  assumes "walk_step cs pos \<noteq> Short"
  shows "walk_step (cs @ suf) pos = walk_step cs pos"
proof (cases "walk_step cs pos")
  case Found
  then have "pos + 2 \<le> length cs" "be_val (take 2 (drop pos cs)) = SOT"
    by (simp_all add: walk_step_def Let_def split: if_splits)
  then show ?thesis using Found by (simp add: walk_step_def Let_def take_drop_more del: drop_append take_append)
next
  case (Skip m n)
  then have "pos + 2 \<le> length cs" "delimiter m \<or> pos + 4 \<le> length cs \<and> pos + n \<le> length cs" "m = be_val (take 2 (drop pos cs))"
    by (auto simp: walk_step_def Let_def split: if_splits)
  then show ?thesis using Skip
    by (auto simp: walk_step_def Let_def take_drop_more simp del: drop_append take_append split: if_splits)
qed (use assms in simp)

lemma walk_step_bound: "walk_step cs pos = Skip m n \<Longrightarrow> pos + n \<le> length cs \<and> 2 \<le> n"
  by (auto simp: walk_step_def Let_def split: if_splits)

lemma walk_step_found: "walk_step cs pos = Found \<Longrightarrow> pos + 2 \<le> length cs"
  by (auto simp: walk_step_def Let_def split: if_splits)

text \<open>Induction over the segments of a header.\<close>

lemma walk_induct [case_names step]:
  assumes "\<And>pos. (\<And>m n. walk_step cs pos = Skip m n \<Longrightarrow> P (pos + n)) \<Longrightarrow> P pos"
  shows "P pos"
proof (induction "length cs + 1 - pos" arbitrary: pos rule: less_induct)
  case less
  show ?case
  proof (rule assms)
    fix m n assume "walk_step cs pos = Skip m n"
    then show "P (pos + n)" using walk_step_bound [of cs pos m n] by (intro less) auto
  qed
qed

lemma extent_walk_total: "\<exists>ext. extent_walk cs pos = Ok ext"
proof (induction pos rule: walk_induct [of cs])
  case (step pos)
  then show ?case by (auto simp: extent_walk_step [of cs pos] split: step.split)
qed

lemma extent_walk_more:
  "extent_walk cs pos = Ok (Complete p) \<Longrightarrow> extent_walk (cs @ suf) pos = Ok (Complete p)"
proof (induction pos rule: walk_induct [of cs])
  case (step pos)
  have "walk_step cs pos \<noteq> Short" using step(2) by (auto simp: extent_walk_step [of cs pos])
  then have "walk_step (cs @ suf) pos = walk_step cs pos" by (rule walk_step_more)
  then show ?case
    using step by (auto simp: extent_walk_step [of "cs @ suf" pos] extent_walk_step [of cs pos] split: step.splits)
qed

lemma header_walk_extent:
  "header_walk cs pos w = Ok (Some p, w') \<Longrightarrow> extent_walk cs pos = Ok (Complete p)"
proof (induction pos arbitrary: w rule: walk_induct [of cs])
  case (step pos)
  show ?case
    using step by (auto simp: extent_walk_step [of cs pos] header_walk_step [of cs pos] outcome_simps
      split: step.splits if_splits prod.splits)
qed

lemma header_walk_more:
  "extent_walk cs pos = Ok (Complete p) \<Longrightarrow> header_walk (cs @ suf) pos w = header_walk cs pos w"
proof (induction pos arbitrary: w rule: walk_induct [of cs])
  case (step pos)
  have "walk_step cs pos \<noteq> Short" using step(2) by (auto simp: extent_walk_step [of cs pos])
  then have grown: "walk_step (cs @ suf) pos = walk_step cs pos" by (rule walk_step_more)
  have rest: "header_walk (cs @ suf) (pos + n) v = header_walk cs (pos + n) v"
    and body: "take (n - 2) (drop (pos + 2) (cs @ suf)) = take (n - 2) (drop (pos + 2) cs)" if "walk_step cs pos = Skip m n" for m n v
    using step that walk_step_bound [OF that] by (auto simp: extent_walk_step [of cs pos])
  show ?case
  proof (cases "walk_step cs pos")
    case (Skip m n)
    show ?thesis
      unfolding header_walk_step [of cs pos] header_walk_step [of "cs @ suf" pos] grown Skip step.case rest [OF Skip] body [OF Skip]
      by (rule refl)
  next
    case Short
    then show ?thesis using step(2) by (simp add: extent_walk_step [of cs pos])
  qed (simp add: header_walk_step [of _ pos] grown)
qed

lemma header_walk_total: "header_walk cs pos w \<noteq> Panic"
proof (induction pos arbitrary: w rule: walk_induct [of cs])
  case (step pos)
  show ?case
    using step parse_tlm_total
    by (auto simp: header_walk_step [of cs pos] and_then_Panic split: step.split prod.split)
qed

text \<open>The TLM segments that the walk records follow one another, in front of the SOT marker.\<close>

fun ascending :: "nat \<Rightarrow> (nat \<times> nat) list \<Rightarrow> nat \<Rightarrow> bool" where
  "ascending low [] limit \<longleftrightarrow> low \<le> limit"
| "ascending low ((start, len) # ranges) limit \<longleftrightarrow> low \<le> start \<and> ascending (start + len) ranges limit"

lemma ascending_snoc: "ascending low (ranges @ [(a, n)]) limit \<longleftrightarrow> ascending low ranges a \<and> a + n \<le> limit"
  by (induction ranges arbitrary: low) auto

lemma ascending_mono: "ascending low ranges a \<Longrightarrow> a \<le> b \<Longrightarrow> ascending low ranges b"
  by (induction ranges arbitrary: low) auto

lemma ascending_le: "ascending low ranges limit \<Longrightarrow> low \<le> limit"
  by (induction ranges arbitrary: low) force+

lemma header_walk_ascending:
  "header_walk cs pos (ranges, entries, running) = Ok (Some p, ranges', w') \<Longrightarrow> ascending 0 ranges pos \<Longrightarrow>
    ascending 0 ranges' p \<and> p + 2 \<le> length cs"
proof (induction pos arbitrary: ranges entries running rule: walk_induct [of cs])
  case (step pos)
  have later: "ascending 0 ranges (pos + n)" for n using ascending_mono [OF step(3)] by simp
  show ?case
  proof (cases "walk_step cs pos")
    case Found
    then show ?thesis using step(2,3) walk_step_found [OF Found] by (simp add: header_walk_step [of cs pos])
  next
    case (Skip m n)
    show ?thesis
    proof (cases "m = TLM")
      case True
      then obtain new running' where "header_walk cs (pos + n) (ranges @ [(pos, n)], entries @ new, running') = Ok (Some p, ranges', w')"
        using step(2) Skip by (auto simp: header_walk_step [of cs pos] outcome_simps)
      then show ?thesis using step(1) [OF Skip] step(3) by (force simp: ascending_snoc)
    next
      case False
      then show ?thesis using step(1) [OF Skip] step(2) Skip later False by (auto simp: header_walk_step [of cs pos])
    qed
  next
    case Short
    then show ?thesis using step(2) by (auto simp: header_walk_step [of cs pos] split: if_splits)
  qed
qed

lemma strip_ranges_total:
  "ascending low ranges (length header) \<Longrightarrow> \<exists>bytes. strip_ranges header low ranges = Ok bytes"
proof (induction ranges arbitrary: low)
  case (Cons r ranges)
  obtain start len where r: "r = (start, len)" by (cases r)
  have "start \<le> length header" using Cons.prems ascending_le by (force simp: r)
  moreover obtain bytes where "strip_ranges header (start + len) ranges = Ok bytes" using Cons by (auto simp: r)
  ultimately show ?case using Cons.prems by (simp add: r)
qed simp

text \<open>What the parsing of the header makes of the end of the walk.\<close>

definition header_info :: "byte list \<Rightarrow> nat option \<times> walk_state \<Rightarrow> (main_header_info, codec_error) outcome" where
  "header_info cs walk =
    (case walk of (found, ranges, entries, _) \<Rightarrow>
      and_then (ok_or InvalidFormat found) (\<lambda>first_sot.
      and_then (slice 0 first_sot cs) (\<lambda>header.
      and_then (if ranges = [] then Ok header else strip_ranges header 0 ranges) (\<lambda>stripped.
        let table = map (\<lambda>e. e\<lparr>part_offset := add64 (part_offset e) first_sot\<rparr>) entries
        in Ok \<lparr>main_header = header, decode_header = stripped,
             tlm_offset_table = (if table = [] then None else Some table),
             first_sot_offset = first_sot\<rparr>))))"

definition header_start :: "byte list \<Rightarrow> bool" where
  "header_start cs \<longleftrightarrow> 4 \<le> length cs \<and> be_val (take 2 cs) = SOC \<and> be_val (take 2 (drop 2 cs)) = SIZ"

lemma parse_main_header_walk:
  "parse_main_header cs =
    (if header_start cs then and_then (header_walk cs 2 ([], [], 0)) (header_info cs) else Err InvalidFormat)"
  unfolding parse_main_header_def header_info_def header_start_def
  by (auto simp: guard_def not_less split: prod.splits)

lemma main_header_extent_walk:
  "main_header_extent cs = (if 4 \<le> length cs \<and> be_val (take 2 cs) = SOC then extent_walk cs 2 else Ok Truncated)"
  by (auto simp: main_header_extent_def not_less)

lemma header_info_result:
  assumes "header_walk cs 2 ([], [], 0) = Ok (found, w)"
  shows "header_info cs (found, w) \<noteq> Panic"
    and "found = Some p \<Longrightarrow> \<exists>info. header_info cs (found, w) = Ok info \<and> first_sot_offset info = p \<and> main_header info = take p cs"
proof -
  obtain ranges entries running where w: "w = (ranges, entries, running)" by (cases w)
  have ok: "\<exists>info. header_info cs (Some p, w) = Ok info \<and> first_sot_offset info = p \<and> main_header info = take p cs"
    if found: "found = Some p" for p
  proof -
    have asc: "ascending 0 ranges p" "p + 2 \<le> length cs"
      using header_walk_ascending [of cs 2 "[]" "[]" 0 p ranges "(entries, running)"] assms by (auto simp: w found)
    then obtain bytes where "strip_ranges (take p cs) 0 ranges = Ok bytes"
      using strip_ranges_total [of 0 ranges "take p cs"] by auto
    then show ?thesis using asc by (simp add: header_info_def w Let_def)
  qed
  show "header_info cs (found, w) \<noteq> Panic"
    using ok by (cases found) (auto simp: header_info_def w)
  show "found = Some p \<Longrightarrow> \<exists>info. header_info cs (found, w) = Ok info \<and> first_sot_offset info = p \<and> main_header info = take p cs"
    using ok by simp
qed

lemma header_info_None: "header_info cs (None, w) = Err InvalidFormat"
  by (cases w) (simp add: header_info_def)

lemma parse_main_header_total: "parse_main_header cs \<noteq> Panic"
  using header_walk_total header_info_result(1) by (auto simp: parse_main_header_walk and_then_Panic)

lemma parse_main_header_Ok:
  assumes "parse_main_header cs = Ok info"
  shows "main_header_extent cs = Ok (Complete (first_sot_offset info)) \<and> main_header info = take (first_sot_offset info) cs"
proof -
  obtain found w where walk: "header_start cs" "header_walk cs 2 ([], [], 0) = Ok (found, w)" "header_info cs (found, w) = Ok info"
    using assms by (auto simp: parse_main_header_walk outcome_simps split: if_splits)
  then obtain p where p: "found = Some p" using header_info_None by (cases found) auto
  then have "first_sot_offset info = p" "main_header info = take p cs"
    using header_info_result(2) [OF walk(2) p] walk(3) by auto
  moreover have "extent_walk cs 2 = Ok (Complete p)" using header_walk_extent walk(2) p by simp
  ultimately show ?thesis using walk(1) by (simp add: main_header_extent_walk header_start_def)
qed

lemma extent_walk_bound: "extent_walk cs pos = Ok (Complete p) \<Longrightarrow> p + 2 \<le> length cs"
proof (induction pos rule: walk_induct [of cs])
  case (step pos)
  then show ?case using walk_step_found [of cs pos] by (auto simp: extent_walk_step [of cs pos] split: step.splits)
qed

lemma header_walk_found:
  "extent_walk cs pos = Ok (Complete p) \<Longrightarrow> header_walk cs pos w = Ok (found, w') \<Longrightarrow> found = Some p"
proof (induction pos arbitrary: w rule: walk_induct [of cs])
  case (step pos)
  then show ?case
    by (auto simp: extent_walk_step [of cs pos] header_walk_step [of cs pos] outcome_simps split: step.splits if_splits prod.splits)
qed

lemma complete_grows:
  assumes "main_header_extent cs = Ok (Complete p)"
  shows "main_header_extent (cs @ suf) = Ok (Complete p) \<and> parse_main_header (cs @ suf) = parse_main_header cs"
proof -
  have cs: "4 \<le> length cs" "be_val (take 2 cs) = SOC" "extent_walk cs 2 = Ok (Complete p)"
    using assms by (auto simp: main_header_extent_walk split: if_splits)
  have start: "header_start (cs @ suf) = header_start cs" using cs(1) by (simp add: header_start_def)
  have "header_info (cs @ suf) (found, w) = header_info cs (found, w)" if "header_walk cs 2 ([], [], 0) = Ok (found, w)" for found w
    using header_walk_found [OF cs(3) that] extent_walk_bound [OF cs(3)] by (cases w) (simp add: header_info_def)
  then have "and_then (header_walk cs 2 ([], [], 0)) (header_info (cs @ suf)) = and_then (header_walk cs 2 ([], [], 0)) (header_info cs)"
    by (cases "header_walk cs 2 ([], [], 0)") auto
  then show ?thesis
    using cs extent_walk_more [OF cs(3)] header_walk_more [OF cs(3)]
    by (simp add: parse_main_header_walk main_header_extent_walk start)
qed

text \<open>C34: the extent of a main header agrees with its parsing, on any bytes.  Neither panics.  A header that
  parses is found to be complete, and ends where its SOT marker was found; and once the bytes seen are found to be complete,
  more bytes change neither the extent nor what parsing returns, so that a reader that has
  fetched a complete header region reads the same header as from the whole codestream.\<close>

theorem header_extent_agrees:
  "parse_main_header cs \<noteq> Panic \<and> (\<exists>ext. main_header_extent cs = Ok ext) \<and>
    (\<forall>info. parse_main_header cs = Ok info \<longrightarrow>
      main_header_extent cs = Ok (Complete (first_sot_offset info)) \<and> main_header info = take (first_sot_offset info) cs) \<and>
    (\<forall>p suf. main_header_extent cs = Ok (Complete p) \<longrightarrow>
      p + 2 \<le> length cs \<and> main_header_extent (cs @ suf) = Ok (Complete p) \<and> parse_main_header (cs @ suf) = parse_main_header cs)"
proof -
  have "\<exists>ext. main_header_extent cs = Ok ext" using extent_walk_total [of cs 2] by (auto simp: main_header_extent_walk)
  moreover have "p + 2 \<le> length cs" if "main_header_extent cs = Ok (Complete p)" for p
    using that extent_walk_bound [of cs 2] by (auto simp: main_header_extent_walk split: if_splits)
  ultimately show ?thesis using parse_main_header_total parse_main_header_Ok complete_grows by blast
qed

section \<open>Tile-parts\<close>

definition u16_at :: "byte list \<Rightarrow> nat \<Rightarrow> nat" where
  "u16_at cs pos = be_val (take 2 (drop pos cs))"

definition u32_at :: "byte list \<Rightarrow> nat \<Rightarrow> nat" where
  "u32_at cs pos = be_val (take 4 (drop pos cs))"

lemma scan_loop_step:
  "scan_loop cs pos =
    (if length cs \<le> pos then Ok []
     else if pos + 2 \<le> length cs \<and> u16_at cs pos = EOC then Ok []
     else if length cs < pos + 12 then Err InvalidFormat
     else if u16_at cs pos \<noteq> SOT then Ok []
     else if u16_at cs (pos + 2) \<noteq> 10 then Err InvalidFormat
     else if u32_at cs (pos + 6) = 0 then
       Ok [\<lparr>tile_index = u16_at cs (pos + 4), part_offset = pos, part_length = length cs - pos\<rparr>]
     else if length cs < pos + u32_at cs (pos + 6) then Err InvalidFormat
     else map_ok (\<lambda>es. \<lparr>tile_index = u16_at cs (pos + 4), part_offset = pos, part_length = u32_at cs (pos + 6)\<rparr> # es)
       (scan_loop cs (pos + u32_at cs (pos + 6))))"
  by (subst scan_loop.simps) (auto simp: u16_at_def u32_at_def guard_def not_less not_le)

lemma split_loop_step:
  "split_loop buf pos =
    (if length buf < pos + 12 then Ok []
     else if u16_at buf pos \<noteq> SOT then Ok []
     else if u32_at buf (pos + 6) = 0 \<or> length buf \<le> pos + u32_at buf (pos + 6) then Ok [drop pos buf]
     else map_ok (\<lambda>parts. take (u32_at buf (pos + 6)) (drop pos buf) # parts) (split_loop buf (pos + u32_at buf (pos + 6))))"
  by (subst split_loop.simps) (auto simp: u16_at_def u32_at_def not_less not_le Let_def)

text \<open>Entries one behind the other.\<close>

fun consecutive :: "nat \<Rightarrow> tile_part_entry list \<Rightarrow> bool" where
  "consecutive pos [] \<longleftrightarrow> True"
| "consecutive pos (e # es) \<longleftrightarrow> part_offset e = pos \<and> consecutive (pos + part_length e) es"

definition entry_bytes :: "byte list \<Rightarrow> tile_part_entry \<Rightarrow> byte list" where
  "entry_bytes cs e = take (part_length e) (drop (part_offset e) cs)"

definition entry_fits :: "byte list \<Rightarrow> tile_part_entry \<Rightarrow> bool" where
  "entry_fits cs e \<longleftrightarrow> 0 < part_length e \<and> part_offset e + part_length e \<le> length cs \<and>
    u16_at cs (part_offset e) = SOT \<and> u16_at cs (part_offset e + 4) = tile_index e"

lemma scan_loop_total: "scan_loop cs pos \<noteq> Panic"
proof (induction "length cs - pos" arbitrary: pos rule: less_induct)
  case less
  then show ?case by (subst scan_loop_step) auto
qed

lemma scan_loop_entries:
  "scan_loop cs pos = Ok es \<Longrightarrow> consecutive pos es \<and> list_all (entry_fits cs) es"
proof (induction "length cs - pos" arbitrary: pos es rule: less_induct)
  case less
  show ?case
    using less(2) less(1) [of "pos + u32_at cs (pos + 6)"]
    by (auto simp: scan_loop_step [of cs pos] entry_fits_def outcome_simps split: if_splits)
qed

lemma u16_drop [simp]: "u16_at (drop start cs) pos = u16_at cs (start + pos)"
  and u32_drop [simp]: "u32_at (drop start cs) pos = u32_at cs (start + pos)"
  by (simp_all add: u16_at_def u32_at_def add.commute)

lemma split_scan:
  "scan_loop cs (start + pos) = Ok es \<Longrightarrow> (split_loop (drop start cs) pos :: (_, codec_error) outcome) = Ok (map (entry_bytes cs) es)"
proof (induction "length cs - (start + pos)" arbitrary: pos es rule: less_induct)
  case less
  let ?psot = "u32_at cs (start + (pos + 6))"
  consider "es = []" "length cs \<le> start + pos \<or> length cs < start + pos + 12 \<or> u16_at cs (start + pos) \<noteq> SOT"
    | "es \<noteq> []" "start + pos + 12 \<le> length cs" "u16_at cs (start + pos) = SOT"
    using less(2) by (cases es) (auto simp: scan_loop_step [of cs "start + pos"] EOC_def SOT_def outcome_simps split: if_splits)
  then show ?case
  proof cases
    case 1
    then show ?thesis by (auto simp: split_loop_step [of "drop start cs" pos])
  next
    case 2
    show ?thesis
    proof (cases "?psot = 0")
      case True
      then show ?thesis using 2 less(2)
        by (auto simp: scan_loop_step [of cs "start + pos"] split_loop_step [of "drop start cs" pos] entry_bytes_def add.assoc add.commute [of pos start]
          split: if_splits)
    next
      case False
      then obtain es' where es': "scan_loop cs (start + (pos + ?psot)) = Ok es'" "start + pos + ?psot \<le> length cs"
        "es = \<lparr>tile_index = u16_at cs (start + pos + 4), part_offset = start + pos, part_length = ?psot\<rparr> # es'"
        using 2 less(2) by (auto simp: scan_loop_step [of cs "start + pos"] outcome_simps add.assoc split: if_splits)
      have rest: "(split_loop (drop start cs) (pos + ?psot) :: (_, codec_error) outcome) = Ok (map (entry_bytes cs) es')"
        using less(1) [OF _ es'(1)] False es'(2) 2 by simp
      show ?thesis
      proof (cases "length cs = start + pos + ?psot")
        case True
        then have "es' = []" using es'(1) by (simp add: scan_loop_step add.assoc)
        then show ?thesis using True 2 es'(3) by (simp add: split_loop_step [of "drop start cs" pos] entry_bytes_def add.assoc add.commute [of pos start])
      next
        case no_end: False
        then show ?thesis using rest 2 es'(2,3) False
          by (auto simp: split_loop_step [of "drop start cs" pos] entry_bytes_def add.assoc add.commute [of pos start])
      qed
    qed
  qed
qed

text \<open>C35: tile-parts are cut the same way by both routines.  The scan of the SOT markers never
  panics; when it succeeds its entries lie one behind the other inside the codestream, each at
  a SOT marker that names its tile; and splitting the bytes behind the header returns exactly the bytes of the
  entries, in order.\<close>

theorem tile_parts_cut:
  "scan_sot_markers cs start \<noteq> Panic \<and>
    (\<forall>es. scan_sot_markers cs start = Ok es \<longrightarrow>
      consecutive start es \<and> list_all (entry_fits cs) es \<and>
      split_tile_parts (drop start cs) = Ok (map (entry_bytes cs) es))"
  using scan_loop_total scan_loop_entries split_scan [of cs start 0]
  by (auto simp: scan_sot_markers_def split_tile_parts_def)

section \<open>A small codestream\<close>

definition small_codestream :: "byte list" where
  "small_codestream = [0xFF, 0x4F, 0xFF, 0x51, 0, 2, 0xFF, 0x90, 0, 10, 0, 3, 0, 0, 0, 0, 0, 1]"

lemma small_values:
  "u16_at small_codestream 6 = SOT" "u16_at small_codestream 8 = 10" "u16_at small_codestream 10 = 3"
  "u32_at small_codestream 12 = 0" "length small_codestream = 18"
  by (simp_all add: small_codestream_def u16_at_def u32_at_def be_val_def SOT_def)

lemma small_parse:
  "parse_main_header (take 8 small_codestream) =
    Ok \<lparr>main_header = take 6 small_codestream, decode_header = take 6 small_codestream, tlm_offset_table = None, first_sot_offset = 6\<rparr>"
  by (simp add: small_codestream_def parse_main_header_walk header_start_def header_walk_step [of _ 2] header_walk_step [of _ 6]
      walk_step_def delimiter_def be_val_def SOC_def SIZ_def SOT_def TLM_def header_info_def)

lemma header_extent_agrees_witness:
  "parse_main_header small_codestream =
    Ok \<lparr>main_header = take 6 small_codestream, decode_header = take 6 small_codestream, tlm_offset_table = None, first_sot_offset = 6\<rparr> \<and>
    main_header_extent small_codestream = Ok (Complete 6)"
proof -
  have "main_header_extent (take 8 small_codestream) = Ok (Complete 6)"
    using header_extent_agrees [of "take 8 small_codestream"] small_parse by simp
  then show ?thesis
    using header_extent_agrees [of "take 8 small_codestream"] small_parse append_take_drop_id [of 8 small_codestream] by metis
qed

lemma tile_parts_cut_witness:
  "scan_sot_markers small_codestream 6 = Ok [\<lparr>tile_index = 3, part_offset = 6, part_length = 12\<rparr>] \<and>
    split_tile_parts (drop 6 small_codestream) = Ok [drop 6 small_codestream]"
proof -
  have "scan_sot_markers small_codestream 6 = Ok [\<lparr>tile_index = 3, part_offset = 6, part_length = 12\<rparr>]"
    by (simp add: scan_sot_markers_def scan_loop_step [of _ 6] small_values EOC_def) (simp add: SOT_def)
  moreover have "entry_bytes small_codestream \<lparr>tile_index = 3, part_offset = 6, part_length = 12\<rparr> = drop 6 small_codestream"
    by (simp add: entry_bytes_def small_values(5))
  ultimately show ?thesis using tile_parts_cut [of small_codestream 6] by simp
qed

end
