(* ===== verification/Codestream_Roundtrip.thy ===== *)
theory Codestream_Roundtrip
  imports Codestream_Header
begin

text \<open>
  Codestreams written down from their parts: the segments of the main header, TLM segments with
  the lengths they list, and the tile-parts.  Reading them with \<open>Codestream\<close> gives the parts
  back, and the codestream built for one tile is again such a codestream.
\<close>

section \<open>Codestreams by their parts\<close>

datatype header_item =
    Segment nat "byte list"
  | Lengths byte nat bool "(nat \<times> nat) list"

definition segment_bytes :: "nat \<Rightarrow> byte list \<Rightarrow> byte list" where
  "segment_bytes marker body = be_bytes 2 marker @ be_bytes 2 (length body + 2) @ body"

definition length_width :: "bool \<Rightarrow> nat" where
  "length_width long = (if long then 4 else 2)"

definition length_entry :: "nat \<Rightarrow> bool \<Rightarrow> nat \<times> nat \<Rightarrow> byte list" where
  "length_entry isize long e = be_bytes isize (fst e) @ be_bytes (length_width long) (snd e)"

definition tlm_body :: "byte \<Rightarrow> nat \<Rightarrow> bool \<Rightarrow> (nat \<times> nat) list \<Rightarrow> byte list" where
  "tlm_body z isize long es =
    z # word_of_nat (isize * 16 + (if long then 64 else 0)) # concat (map (length_entry isize long) es)"

fun item_bytes :: "header_item \<Rightarrow> byte list" where
  "item_bytes (Segment marker body) = segment_bytes marker body"
| "item_bytes (Lengths z isize long es) = segment_bytes TLM (tlm_body z isize long es)"

definition header_bytes :: "header_item list \<Rightarrow> byte list" where
  "header_bytes items = be_bytes 2 SOC @ concat (map item_bytes items)"

text \<open>A segment that the walk can skip; lengths that fit their widths, with tiles counted from 0
  when their indices are left out.\<close>

fun good_item :: "header_item \<Rightarrow> bool" where
  "good_item (Segment marker body) \<longleftrightarrow>
    marker < 2 ^ 16 \<and> marker \<noteq> SOT \<and> marker \<noteq> TLM \<and> \<not> delimiter marker \<and> length body + 2 < 2 ^ 16"
| "good_item (Lengths z isize long es) \<longleftrightarrow>
    isize \<le> 2 \<and> (\<forall>(t, l)\<in>set es. l < 256 ^ length_width long) \<and>
    (if isize = 0 then map fst es = [0..<length es] else \<forall>(t, l)\<in>set es. t < 256 ^ isize) \<and>
    length (tlm_body z isize long es) + 2 < 2 ^ 16"

fun listed_item :: "header_item \<Rightarrow> (nat \<times> nat) list" where
  "listed_item (Segment marker body) = []"
| "listed_item (Lengths z isize long es) = es"

definition listed :: "header_item list \<Rightarrow> (nat \<times> nat) list" where
  "listed items = concat (map listed_item items)"

fun is_segment :: "header_item \<Rightarrow> bool" where
  "is_segment (Segment marker body) = True"
| "is_segment (Lengths z isize long es) = False"

record tile_part =
  part_tile :: nat
  part_number :: byte
  part_count :: byte
  part_data :: "byte list"

definition part_size :: "tile_part \<Rightarrow> nat" where
  "part_size p = 12 + length (part_data p)"

definition part_bytes :: "tile_part \<Rightarrow> byte list" where
  "part_bytes p = be_bytes 2 SOT @ be_bytes 2 10 @ be_bytes 2 (part_tile p) @ be_bytes 4 (part_size p) @
     [part_number p, part_count p] @ part_data p"

definition good_part :: "tile_part \<Rightarrow> bool" where
  "good_part p \<longleftrightarrow> part_tile p < 2 ^ 16 \<and> part_size p < 2 ^ 32"

definition codestream_bytes :: "header_item list \<Rightarrow> tile_part list \<Rightarrow> byte list" where
  "codestream_bytes items parts = header_bytes items @ concat (map part_bytes parts) @ be_bytes 2 EOC"

fun entries_at :: "nat \<Rightarrow> (nat \<times> nat) list \<Rightarrow> tile_part_entry list" where
  "entries_at pos [] = []"
| "entries_at pos ((t, l) # es) = \<lparr>tile_index = t, part_offset = pos, part_length = l\<rparr> # entries_at (pos + l) es"

definition part_entry :: "tile_part \<Rightarrow> nat \<times> nat" where
  "part_entry p = (part_tile p, part_size p)"

section \<open>Numbers at a place\<close>

lemma u16_bytes: "v < 2 ^ 16 \<Longrightarrow> u16_at (pre @ be_bytes 2 v @ rest) (length pre) = v"
  by (simp add: u16_at_def)

lemma u32_bytes: "v < 2 ^ 32 \<Longrightarrow> u32_at (pre @ be_bytes 4 v @ rest) (length pre) = v"
  by (simp add: u32_at_def)

lemma marker_values: "SOC < 2 ^ 16" "SIZ < 2 ^ 16" "TLM < 2 ^ 16" "SOT < 2 ^ 16" "EOC < 2 ^ 16" "SOT \<noteq> EOC" "TLM \<noteq> SOT" "SIZ \<noteq> TLM"
  by (simp_all add: SOC_def SIZ_def TLM_def SOT_def EOC_def)

section \<open>Reading the lengths\<close>

lemma tlm_loop_stop:
  "length body < pos + (isize + lsize) \<Longrightarrow> tlm_loop body isize lsize (length body) pos k offset = Ok ([], offset)"
  by (subst tlm_loop.simps) simp

lemma tlm_loop_entries:
  assumes "isize \<le> 2" "\<forall>(t, l)\<in>set es. l < 256 ^ length_width long" "offset + sum_list (map snd es) < U64"
    "if isize = 0 then map fst es = [k..<k + length es] \<and> k + length es \<le> 2 ^ 16 else \<forall>(t, l)\<in>set es. t < 256 ^ isize"
  shows "tlm_loop (pre @ concat (map (length_entry isize long) es)) isize (length_width long)
      (length pre + length (concat (map (length_entry isize long) es))) (length pre) k offset =
    Ok (entries_at offset es, offset + sum_list (map snd es))"
  using assms
proof (induction es arbitrary: pre k offset)
  case Nil
  have "length pre < length pre + (isize + length_width long)" by (simp add: length_width_def)
  then show ?case using tlm_loop_stop [of pre "length pre" isize "length_width long" k offset] by simp
next
  case (Cons e es)
  obtain t l where e: "e = (t, l)" by (cases e)
  let ?w = "length_width long" and ?pre = "pre @ length_entry isize long e"
  let ?body = "pre @ concat (map (length_entry isize long) (e # es))"
  obtain k' where k': "k' = (if isize = 0 then (k + 1) mod 2 ^ 16 else k)" by simp
  have body: "?body = ?pre @ concat (map (length_entry isize long) es)" by simp
  have width: "length (length_entry isize long e) = isize + ?w" "?w = 2 \<or> ?w = 4" by (simp_all add: length_entry_def length_width_def)
  have index: "tlm_index ?body isize (length pre) k = Ok t"
  proof -
    consider "isize = 0" | "isize = 1" | "isize = 2" using Cons.prems(1) by linarith
    then show ?thesis
    proof cases
      case 1
      then show ?thesis using Cons.prems(4) by (simp add: tlm_index_def e upt_rec)
    next
      case 2
      then have "t < 256" using Cons.prems(4) by (simp add: e)
      then show ?thesis using 2 by (simp add: tlm_index_def index_at_def length_entry_def e unat_of_nat)
    next
      case 3
      then have "t < 256 ^ 2" using Cons.prems(4) by (simp add: e)
      then show ?thesis using 3 by (simp add: tlm_index_def length_entry_def e)
    qed
  qed
  have "l < 256 ^ ?w" using Cons.prems(2) by (simp add: e)
  then have len: "tlm_length ?body ?w (length pre + isize) = Ok l"
    by (auto simp: tlm_length_def length_entry_def e length_width_def split: if_splits)
  have "tlm_loop ?body isize ?w (length ?body) (length ?pre) k' (add64 offset l) =
    Ok (entries_at (offset + l) es, offset + l + sum_list (map snd es))"
  proof -
    have sum: "offset + l < U64" "offset + l + sum_list (map snd es) < U64" using Cons.prems(3) by (simp_all add: e)
    have small: "\<forall>(t, l)\<in>set es. l < 256 ^ length_width long" using Cons.prems(2) by simp
    have count: "if isize = 0 then map fst es = [k'..<k' + length es] \<and> k' + length es \<le> 2 ^ 16 else \<forall>(t, l)\<in>set es. t < 256 ^ isize"
    proof (cases "isize = 0")
      case True
      then have k: "k # map fst es = [k..<k + length (e # es)]" "k + 1 + length es \<le> 2 ^ 16" "t = k"
        using Cons.prems(4) by (simp_all add: e upt_rec)
      have "[k..<k + length (e # es)] = k # [k + 1..<k + 1 + length es]" by (simp add: upt_conv_Cons del: upt_Suc)
      then have "map fst es = [k + 1..<k + 1 + length es]" using k(1) by simp
      moreover have "(k + 1) mod 2 ^ 16 = k + 1 \<or> es = []" using k(2) by (cases es) auto
      ultimately show ?thesis using True k(2) k' by auto
    next
      case False
      then show ?thesis using Cons.prems(4) k' by simp
    qed
    show ?thesis
      using Cons.IH [OF Cons.prems(1) small sum(2) count, of ?pre] sum(1) by (simp add: add.assoc)
  qed
  moreover have "length_width long \<noteq> 0 \<and> length pre + (isize + ?w) \<le> length ?body" using width by auto
  ultimately have "tlm_loop ?body isize ?w (length ?body) (length pre) k offset =
      Ok (entries_at offset (e # es), offset + sum_list (map snd (e # es)))"
    unfolding tlm_loop.simps [of ?body isize ?w "length ?body" "length pre" k offset]
    k' [symmetric] using index len width(1) by (simp add: e add.assoc del: concat.simps)
  then show ?case by simp
qed

lemma stlm_fields:
  assumes "isize \<le> 2"
  shows "tile_index_size (word_of_nat (isize * 16 + (if long then 64 else 0))) = Some isize"
    "length_size (word_of_nat (isize * 16 + (if long then 64 else 0))) = length_width long"
proof -
  have "isize = 0 \<or> isize = 1 \<or> isize = 2" using assms by linarith
  then show "tile_index_size (word_of_nat (isize * 16 + (if long then 64 else 0))) = Some isize"
    "length_size (word_of_nat (isize * 16 + (if long then 64 else 0))) = length_width long"
    by (auto simp: tile_index_size_def length_size_def length_width_def unat_of_nat)
qed

lemma parse_tlm_body:
  assumes "good_item (Lengths z isize long es)" "running + sum_list (map snd es) < U64"
  shows "parse_tlm_entries (be_bytes 2 (length (tlm_body z isize long es) + 2) @ tlm_body z isize long es) running =
    Ok (entries_at running es, running + sum_list (map snd es))"
proof -
  let ?n = "length (tlm_body z isize long es)" and ?stlm = "word_of_nat (isize * 16 + (if long then 64 else 0)) :: byte"
  let ?pre = "be_bytes 2 (?n + 2) @ [z, ?stlm]" and ?es = "concat (map (length_entry isize long) es)"
  have whole: "be_bytes 2 (?n + 2) @ tlm_body z isize long es = ?pre @ ?es" by (simp add: tlm_body_def)
  have n: "?n = 2 + length ?es" by (simp add: tlm_body_def)
  have ltlm: "read_u16 (?pre @ ?es) 0 = (Ok (?n + 2) :: (nat, codec_error) outcome)"
    using assms(1) by simp
  have stlm: "index_at 3 (?pre @ ?es) = (Ok ?stlm :: (_, codec_error) outcome)"
    by (simp add: index_at_def nth_append)
  have count: "if isize = 0 then map fst es = [0..<0 + length es] \<and> 0 + length es \<le> 2 ^ 16 else \<forall>(t, l)\<in>set es. t < 256 ^ isize"
  proof -
    have "length es \<le> length ?es"
    proof (induction es)
      case (Cons e es)
      have "0 < length (length_entry isize long e)" by (simp add: length_entry_def length_width_def)
      then have "1 \<le> length (length_entry isize long e)" by linarith
      with Cons show ?case by (simp only: list.map concat.simps length_append list.size)
    qed simp
    then show ?thesis using assms(1) n by (auto simp del: length_concat)
  qed
  have "tlm_loop (?pre @ ?es) isize (length_width long) (length ?pre + length ?es) (length ?pre) 0 running =
      (Ok (entries_at running es, running + sum_list (map snd es)) :: (_, codec_error) outcome)"
    using assms count by (intro tlm_loop_entries) auto
  moreover have "length ?pre = 4" "length (?pre @ ?es) = 4 + (?n + 2 - 2 - 2)" using n by simp_all
  ultimately show ?thesis
    unfolding whole parse_tlm_entries_def ltlm stlm
    using stlm_fields [of isize long] assms(1) n by (simp add: Let_def)
qed

section \<open>Reading the header\<close>

fun item_ranges :: "nat \<Rightarrow> header_item list \<Rightarrow> (nat \<times> nat) list" where
  "item_ranges pos [] = []"
| "item_ranges pos (i # items) =
    (if is_segment i then item_ranges (pos + length (item_bytes i)) items
     else (pos, length (item_bytes i)) # item_ranges (pos + length (item_bytes i)) items)"

text \<open>One item in front of the walk.\<close>

definition item_marker :: "header_item \<Rightarrow> nat" where
  "item_marker i = (case i of Segment marker body \<Rightarrow> marker | Lengths z isize long es \<Rightarrow> TLM)"

fun item_body :: "header_item \<Rightarrow> byte list" where
  "item_body (Segment marker body) = body"
| "item_body (Lengths z isize long es) = tlm_body z isize long es"

lemma item_bytes_body: "item_bytes i = segment_bytes (item_marker i) (item_body i)"
  by (cases i) (simp_all add: item_marker_def)

lemma walk_step_item:
  assumes "good_item i"
  shows "walk_step (pre @ item_bytes i @ rest) (length pre) = Skip (item_marker i) (length (item_bytes i))"
    and "length (item_bytes i) = length (item_body i) + 4"
    and "take (length (item_bytes i) - 2) (drop (length pre + 2) (pre @ item_bytes i @ rest)) = be_bytes 2 (length (item_body i) + 2) @ item_body i"
proof -
  have i: "item_marker i < 2 ^ 16" "item_marker i \<noteq> SOT" "\<not> delimiter (item_marker i)" "length (item_body i) + 2 < 2 ^ 16"
    using assms marker_values by (cases i; simp add: item_marker_def)+
  then show "walk_step (pre @ item_bytes i @ rest) (length pre) = Skip (item_marker i) (length (item_bytes i))"
    by (simp add: walk_step_def item_bytes_body segment_bytes_def Let_def)
  show "length (item_bytes i) = length (item_body i) + 4" by (simp add: item_bytes_body segment_bytes_def)
  then show "take (length (item_bytes i) - 2) (drop (length pre + 2) (pre @ item_bytes i @ rest)) = be_bytes 2 (length (item_body i) + 2) @ item_body i"
    by (simp add: item_bytes_body segment_bytes_def)
qed

lemma entries_at_append: "entries_at pos (xs @ ys) = entries_at pos xs @ entries_at (pos + sum_list (map snd xs)) ys"
  by (induction pos xs rule: entries_at.induct) (simp_all add: add.assoc)

lemma header_walk_items:
  assumes "\<forall>i\<in>set items. good_item i" "running + sum_list (map snd (listed items)) < U64"
  shows "header_walk (pre @ concat (map item_bytes items) @ be_bytes 2 SOT @ rest) (length pre) (ranges, entries, running) =
    Ok (Some (length pre + length (concat (map item_bytes items))), ranges @ item_ranges (length pre) items,
      entries @ entries_at running (listed items), running + sum_list (map snd (listed items)))"
  using assms
proof (induction items arbitrary: pre ranges entries running)
  case Nil
  have "walk_step (pre @ be_bytes 2 SOT @ rest) (length pre) = Found"
    using marker_values by (simp add: walk_step_def Let_def)
  then show ?case by (simp add: header_walk_step [of _ "length pre"] listed_def)
next
  case (Cons i items)
  let ?rest = "concat (map item_bytes items) @ be_bytes 2 SOT @ rest"
  have good: "good_item i" "\<forall>i\<in>set items. good_item i" using Cons.prems(1) by simp_all
  note step = walk_step_item(1,3) [OF good(1), of pre ?rest]
  note IH = Cons.IH [OF good(2), where pre = "pre @ item_bytes i"]
  have cs: "pre @ concat (map item_bytes (i # items)) @ be_bytes 2 SOT @ rest = pre @ item_bytes i @ ?rest" by simp
  show ?case
  proof (cases i)
    case (Segment marker body)
    then have "item_marker i \<noteq> TLM" "listed (i # items) = listed items" "is_segment i" using good(1) by (auto simp: item_marker_def listed_def)
    then show ?thesis
      unfolding cs header_walk_step [of _ "length pre"] step(1) using IH [of running ranges entries] Cons.prems(2) by (simp add: add.assoc)
  next
    case (Lengths z isize long es)
    have listed: "listed (i # items) = es @ listed items" using Lengths by (simp add: listed_def)
    have tlm: "item_marker i = TLM" "\<not> is_segment i" "item_body i = tlm_body z isize long es" using Lengths by (simp_all add: item_marker_def)
    have sum: "running + sum_list (map snd es) < U64" using Cons.prems(2) by (simp add: listed)
    have "parse_tlm_entries (be_bytes 2 (length (item_body i) + 2) @ item_body i) running =
        Ok (entries_at running es, running + sum_list (map snd es))"
      unfolding tlm(3) by (rule parse_tlm_body [OF good(1) [unfolded Lengths] sum])
    then show ?thesis
      unfolding cs header_walk_step [of _ "length pre"] step step.case
      using IH [of "running + sum_list (map snd es)"] Cons.prems(2) tlm
      by (simp add: listed entries_at_append add.assoc)
  qed
qed

lemma strip_items:
  assumes "k \<le> length pre"
  shows "strip_ranges (pre @ concat (map item_bytes items)) k (item_ranges (length pre) items) =
    Ok (drop k pre @ concat (map item_bytes (filter is_segment items)))"
  using assms
proof (induction items arbitrary: pre k)
  case (Cons i items)
  note IH = Cons.IH [of _ "pre @ item_bytes i"]
  show ?case
  proof (cases "is_segment i")
    case True
    then show ?thesis using IH [of k] Cons.prems by simp
  next
    case False
    then show ?thesis using IH [of "length pre + length (item_bytes i)"] Cons.prems by simp
  qed
qed simp

section \<open>Reading the tile-parts\<close>

lemma part_fields:
  assumes "good_part p"
  shows "u16_at (pre @ part_bytes p @ rest) (length pre) = SOT" "u16_at (pre @ part_bytes p @ rest) (length pre + 2) = 10"
    "u16_at (pre @ part_bytes p @ rest) (length pre + 4) = part_tile p" "u32_at (pre @ part_bytes p @ rest) (length pre + 6) = part_size p"
    "length (part_bytes p) = part_size p" "12 \<le> part_size p"
  using assms marker_values
  by (simp_all add: u16_at_def u32_at_def part_bytes_def good_part_def part_size_def)

lemma scan_parts:
  assumes "\<forall>p\<in>set parts. good_part p"
  shows "scan_loop (pre @ concat (map part_bytes parts) @ be_bytes 2 EOC @ rest) (length pre) = Ok (entries_at (length pre) (map part_entry parts))"
  using assms
proof (induction parts arbitrary: pre)
  case Nil
  have "u16_at (pre @ be_bytes 2 EOC @ rest) (length pre) = EOC" using marker_values by (simp add: u16_at_def)
  then show ?case by (simp add: scan_loop_step [of _ "length pre"])
next
  case (Cons p parts)
  have p: "good_part p" using Cons.prems by simp
  note fields = part_fields(1-4) [OF p, of pre "concat (map part_bytes parts) @ be_bytes 2 EOC @ rest"] part_fields(5,6) [OF p]
  show ?case
    using Cons.IH [of "pre @ part_bytes p"] Cons.prems fields marker_values(6)
    by (simp add: scan_loop_step [of _ "length pre"] part_entry_def)
qed

lemma entry_bytes_parts:
  assumes "\<forall>p\<in>set parts. good_part p"
  shows "map (entry_bytes (pre @ concat (map part_bytes parts) @ rest)) (entries_at (length pre) (map part_entry parts)) = map part_bytes parts"
  using assms
proof (induction parts arbitrary: pre)
  case (Cons p parts)
  have p: "good_part p" using Cons.prems by simp
  show ?case
    using Cons.IH [of "pre @ part_bytes p"] Cons.prems part_fields(5) [OF p] by (simp add: part_entry_def entry_bytes_def)
qed simp

section \<open>Whole codestreams\<close>

definition part_table :: "header_item list \<Rightarrow> tile_part list \<Rightarrow> tile_part_entry list" where
  "part_table items parts = entries_at (length (header_bytes items)) (map part_entry parts)"

text \<open>A codestream with a SIZ segment at its head, whose TLM segments, if there are any, list its tile-parts.\<close>

definition good_codestream :: "header_item list \<Rightarrow> tile_part list \<Rightarrow> bool" where
  "good_codestream items parts \<longleftrightarrow>
    (\<exists>siz rest. items = Segment SIZ siz # rest) \<and> (\<forall>i\<in>set items. good_item i) \<and> (\<forall>p\<in>set parts. good_part p) \<and>
    parts \<noteq> [] \<and> (listed items = [] \<or> listed items = map part_entry parts) \<and> length (codestream_bytes items parts) < U64"

lemma codestream_cut:
  assumes "parts \<noteq> []"
  obtains rest where "codestream_bytes items parts = be_bytes 2 SOC @ concat (map item_bytes items) @ be_bytes 2 SOT @ rest"
  using assms by (cases parts) (simp_all add: codestream_bytes_def header_bytes_def part_bytes_def)

lemma shift_entries:
  "k + d + sum_list (map snd es) < U64 \<Longrightarrow>
    map (\<lambda>e. e\<lparr>part_offset := add64 (part_offset e) d\<rparr>) (entries_at k es) = entries_at (k + d) es"
proof (induction k es rule: entries_at.induct)
  case (2 k t l es)
  have "map (\<lambda>e. e\<lparr>part_offset := add64 (part_offset e) d\<rparr>) (entries_at (k + l) es) = entries_at (k + l + d) es"
    using 2 by (simp add: algebra_simps)
  moreover have "k + d < U64" "k + l + d = k + d + l" using 2(2) by simp_all
  ultimately show ?case by simp
qed simp

lemma entries_at_empty [simp]: "entries_at pos es = [] \<longleftrightarrow> es = []"
  by (cases es) auto

lemma parts_length: "\<forall>p\<in>set parts. good_part p \<Longrightarrow> length (concat (map part_bytes parts)) = sum_list (map snd (map part_entry parts))"
  by (induction parts) (simp_all add: part_entry_def part_fields(5))

lemma item_ranges_empty: "item_ranges pos items = [] \<longleftrightarrow> filter is_segment items = items"
proof (induction items arbitrary: pos)
  case (Cons i items)
  have "length (filter is_segment items) \<le> length items" by simp
  then have "filter is_segment items \<noteq> i # items" by (metis impossible_Cons)
  then show ?case using Cons by simp
qed simp

lemma parse_codestream:
  assumes good: "good_codestream items parts"
  shows "parse_main_header (codestream_bytes items parts) =
    Ok \<lparr>main_header = header_bytes items, decode_header = header_bytes (filter is_segment items),
       tlm_offset_table = (if listed items = [] then None else Some (part_table items parts)),
       first_sot_offset = length (header_bytes items)\<rparr>"
proof -
  let ?cs = "codestream_bytes items parts" and ?items = "concat (map item_bytes items)" and ?p = "length (header_bytes items)"
  obtain siz rest where siz: "items = Segment SIZ siz # rest" and items: "\<forall>i\<in>set items. good_item i" and parts: "\<forall>p\<in>set parts. good_part p"
    "parts \<noteq> []" and l: "listed items = [] \<or> listed items = map part_entry parts" and small: "length ?cs < U64"
    using good by (auto simp: good_codestream_def)
  obtain suf where cs: "?cs = be_bytes 2 SOC @ ?items @ be_bytes 2 SOT @ suf" using codestream_cut [OF parts(2)] .
  have p: "?p = 2 + length ?items" by (simp add: header_bytes_def)
  have whole: "length ?cs = ?p + length (concat (map part_bytes parts)) + 2" by (simp add: codestream_bytes_def)
  have sum: "?p + sum_list (map snd (listed items)) < U64"
    using l small whole parts_length [OF parts(1)] by auto
  have start: "header_start ?cs" unfolding cs header_start_def using marker_values
    by (simp add: siz segment_bytes_def)
  have walk: "header_walk ?cs 2 ([], [], 0) =
      Ok (Some ?p, item_ranges 2 items, entries_at 0 (listed items), sum_list (map snd (listed items)))"
    using header_walk_items [OF items, where pre = "be_bytes 2 SOC" and running = 0 and ranges = "[]" and entries = "[]" and rest = suf] sum p
    by (simp add: cs)
  have header: "slice 0 ?p ?cs = (Ok (header_bytes items) :: (_, codec_error) outcome)" using whole by (simp add: codestream_bytes_def)
  have strip: "(if item_ranges 2 items = [] then Ok (header_bytes items) else strip_ranges (header_bytes items) 0 (item_ranges 2 items)) =
      Ok (header_bytes (filter is_segment items))"
    using strip_items [of 0 "be_bytes 2 SOC" items] by (auto simp: item_ranges_empty header_bytes_def)
  have table: "map (\<lambda>e. e\<lparr>part_offset := add64 (part_offset e) ?p\<rparr>) (entries_at 0 (listed items)) = entries_at ?p (listed items)"
    using shift_entries [of 0 ?p "listed items"] sum by simp
  show ?thesis
    using start l parts(2)
    by (auto simp: parse_main_header_walk walk header_info_def header strip table Let_def part_table_def)
qed

text \<open>C32: reading a codestream gives its parts.  For a codestream written from header segments, TLM
  segments that list the tile-parts (or none), and tile-parts, the parser returns the header, the
  header without the TLM segments, and the table of the tile-parts; the scan of the SOT markers
  returns the same table, and the entries of the table cut the tile-parts out of the codestream.\<close>

theorem codestream_roundtrip:
  assumes "good_codestream items parts"
  shows "parse_main_header (codestream_bytes items parts) =
      Ok \<lparr>main_header = header_bytes items, decode_header = header_bytes (filter is_segment items),
         tlm_offset_table = (if listed items = [] then None else Some (part_table items parts)),
         first_sot_offset = length (header_bytes items)\<rparr> \<and>
    scan_sot_markers (codestream_bytes items parts) (length (header_bytes items)) = Ok (part_table items parts) \<and>
    map (entry_bytes (codestream_bytes items parts)) (part_table items parts) = map part_bytes parts"
proof -
  have parts: "\<forall>p\<in>set parts. good_part p" using assms by (simp add: good_codestream_def)
  show ?thesis
    using parse_codestream [OF assms] scan_parts [OF parts, of "header_bytes items" "[]"]
      entry_bytes_parts [OF parts, of "header_bytes items" "be_bytes 2 EOC"]
    by (simp add: scan_sot_markers_def part_table_def codestream_bytes_def)
qed

section \<open>The SIZ segment of one tile\<close>

record siz_params =
  xsiz :: nat
  ysiz :: nat
  xosiz :: nat
  yosiz :: nat
  xtsiz :: nat
  ytsiz :: nat
  xtosiz :: nat
  ytosiz :: nat

definition siz_list :: "siz_params \<Rightarrow> nat list" where
  "siz_list s = [xsiz s, ysiz s, xosiz s, yosiz s, xtsiz s, ytsiz s, xtosiz s, ytosiz s]"

definition siz_body :: "nat \<Rightarrow> siz_params \<Rightarrow> byte list \<Rightarrow> byte list" where
  "siz_body rsiz s components = be_bytes 2 rsiz @ concat (map (be_bytes 4) (siz_list s)) @ components"

text \<open>Tiles as the standard lays them out (Annex B): the grid starts at the tile origin, and a tile
  is the part of its cell inside the image.\<close>

definition grid_tiles :: "nat \<Rightarrow> nat \<Rightarrow> nat \<Rightarrow> nat" where
  "grid_tiles limit origin cell = div_ceil (limit - origin) cell"

definition cell_extent :: "nat \<Rightarrow> nat \<Rightarrow> nat \<Rightarrow> nat \<Rightarrow> nat \<Rightarrow> nat" where
  "cell_extent limit image_origin origin cell k = min (origin + (k + 1) * cell) limit - max (origin + k * cell) image_origin"

definition tile_width :: "siz_params \<Rightarrow> nat \<Rightarrow> nat" where
  "tile_width s t = cell_extent (xsiz s) (xosiz s) (xtosiz s) (xtsiz s) (t mod grid_tiles (xsiz s) (xtosiz s) (xtsiz s))"

definition tile_height :: "siz_params \<Rightarrow> nat \<Rightarrow> nat" where
  "tile_height s t = cell_extent (ysiz s) (yosiz s) (ytosiz s) (ytsiz s) (t div grid_tiles (xsiz s) (xtosiz s) (xtsiz s))"

definition tile_siz :: "siz_params \<Rightarrow> nat \<Rightarrow> siz_params" where
  "tile_siz s t =
    (if tile_width s t = xtsiz s \<and> tile_height s t = ytsiz s then s
     else \<lparr>xsiz = tile_width s t, ysiz = tile_height s t, xosiz = 0, yosiz = 0,
       xtsiz = tile_width s t, ytsiz = tile_height s t, xtosiz = 0, ytosiz = 0\<rparr>)"

text \<open>An image whose tile grid starts at the image, with cells that do not run over 32 bits.\<close>

definition good_siz :: "siz_params \<Rightarrow> bool" where
  "good_siz s \<longleftrightarrow> 0 < xtsiz s \<and> 0 < ytsiz s \<and> xosiz s < xsiz s \<and> yosiz s < ysiz s \<and>
    xtosiz s = xosiz s \<and> ytosiz s = yosiz s \<and> xsiz s + xtsiz s \<le> 2 ^ 32 \<and> ysiz s + ytsiz s \<le> 2 ^ 32"

definition tiles_of :: "siz_params \<Rightarrow> nat" where
  "tiles_of s = grid_tiles (xsiz s) (xtosiz s) (xtsiz s) * grid_tiles (ysiz s) (ytosiz s) (ytsiz s)"

lemma cell_word:
  assumes "0 < cell" "origin < limit" "limit + cell \<le> 2 ^ 32" "k < grid_tiles limit origin cell"
  shows "sub32 (min (add32 (add32 origin (mul32 k cell)) cell) limit) (add32 origin (mul32 k cell)) = cell_extent limit origin origin cell k"
    and "cell_extent limit origin origin cell k < 2 ^ 32"
proof -
  have k: "k * cell < limit - origin" using assms by (simp add: grid_tiles_def less_div_ceil)
  then have "mul32 k cell = k * cell" "add32 origin (k * cell) = origin + k * cell" "add32 (origin + k * cell) cell = origin + k * cell + cell"
    using assms by (auto simp: mul32_def add32_def)
  then show "sub32 (min (add32 (add32 origin (mul32 k cell)) cell) limit) (add32 origin (mul32 k cell)) = cell_extent limit origin origin cell k"
    using k assms by (simp add: sub32_id cell_extent_def algebra_simps)
  show "cell_extent limit origin origin cell k < 2 ^ 32" using assms by (simp add: cell_extent_def)
qed

lemma field_at: "v < 2 ^ 32 \<Longrightarrow> be_val (take 4 (drop (length pre) (pre @ be_bytes 4 v @ rest))) = v"
  by simp

lemma overwrite_field:
  "length v = length u \<Longrightarrow> overwrite (length pre) v (pre @ u @ rest) = pre @ v @ rest"
  by (simp add: overwrite_def)

text \<open>A header up to the end of its SIZ fields.\<close>

definition siz_front :: "nat \<Rightarrow> nat \<Rightarrow> siz_params \<Rightarrow> byte list" where
  "siz_front lsiz rsiz s = be_bytes 2 SOC @ be_bytes 2 SIZ @ be_bytes 2 lsiz @ be_bytes 2 rsiz @ concat (map (be_bytes 4) (siz_list s))"

lemma rewrite_siz_front:
  assumes s: "good_siz s" and t: "t < tiles_of s"
  shows "rewrite_siz_for_tile (siz_front lsiz rsiz s @ rest) t = Ok (siz_front lsiz rsiz (tile_siz s t) @ rest)"
proof -
  let ?n = "grid_tiles (xsiz s) (xtosiz s) (xtsiz s)" and ?h = "siz_front lsiz rsiz s @ rest"
  have n: "0 < ?n" using t by (intro gr0I) (simp add: tiles_of_def)
  have cell: "t mod ?n < ?n" "t div ?n < grid_tiles (ysiz s) (ytosiz s) (ytsiz s)"
    using n t by (simp_all add: tiles_of_def div_less_iff_less_mult mult.commute)
  have o: "xtosiz s = xosiz s" "ytosiz s = yosiz s" "sub32 (xsiz s) (xosiz s) = xsiz s - xosiz s" "0 < xtsiz s"
    using s by (auto simp: good_siz_def sub32_id)
  have small: "xsiz s < 2 ^ 32" "ysiz s < 2 ^ 32" "xosiz s < 2 ^ 32" "yosiz s < 2 ^ 32" "xtsiz s < 2 ^ 32" "ytsiz s < 2 ^ 32"
    using s by (auto simp: good_siz_def)
  have fields: "siz_field ?h 6 = (Ok (xsiz s) :: (_, codec_error) outcome)" "siz_field ?h 10 = (Ok (ysiz s) :: (_, codec_error) outcome)"
    "siz_field ?h 14 = (Ok (xosiz s) :: (_, codec_error) outcome)" "siz_field ?h 18 = (Ok (yosiz s) :: (_, codec_error) outcome)"
    "siz_field ?h 22 = (Ok (xtsiz s) :: (_, codec_error) outcome)" "siz_field ?h 26 = (Ok (ytsiz s) :: (_, codec_error) outcome)"
    using small by (simp_all add: siz_field_def siz_front_def siz_list_def)
  have head: "40 \<le> length ?h" "read_u16 ?h 2 = (Ok SIZ :: (_, codec_error) outcome)"
    using marker_values by (simp_all add: siz_front_def siz_list_def)
  have grid: "div_ceil_or_panic (sub32 (xsiz s) (xosiz s)) (xtsiz s) = (Ok ?n :: (_, codec_error) outcome)"
    using o by (simp add: div_ceil_or_panic_def grid_tiles_def)
  have size:
    "sub32 (min (add32 (add32 (xosiz s) (mul32 (t mod ?n) (xtsiz s))) (xtsiz s)) (xsiz s)) (add32 (xosiz s) (mul32 (t mod ?n) (xtsiz s))) = tile_width s t"
    "sub32 (min (add32 (add32 (yosiz s) (mul32 (t div ?n) (ytsiz s))) (ytsiz s)) (ysiz s)) (add32 (yosiz s) (mul32 (t div ?n) (ytsiz s))) = tile_height s t"
    using s cell cell_word(1) unfolding tile_width_def tile_height_def o(1,2) good_siz_def by auto
  show ?thesis
    unfolding rewrite_siz_for_tile_def
    using head n fields
    by (simp add: grid rem_or_panic_def div_or_panic_def size Let_def)
      (simp add: tile_siz_def siz_front_def siz_list_def overwrite_def)
qed

section \<open>The codestream of one tile\<close>

lemma map_filter_along:
  assumes "map f xs = map g ys" "map h xs = map k ys"
  shows "map f (filter (\<lambda>x. P (h x)) xs) = map g (filter (\<lambda>y. P (k y)) ys)"
  using assms
proof (induction xs arbitrary: ys)
  case (Cons x xs)
  then obtain y ys' where "ys = y # ys'" by (cases ys) auto
  with Cons show ?case by auto
qed simp

lemma tile_index_entries_at: "map tile_index (entries_at pos es) = map fst es"
  by (induction pos es rule: entries_at.induct) auto

lemma part_slices_entries:
  assumes "list_all (entry_fits cs) es" "length cs < U64"
  shows "part_slices cs (map (\<lambda>e. (part_offset e, part_length e)) es) = map (entry_bytes cs) es"
  using assms by (induction es) (simp_all add: part_slices_def entry_fits_def entry_bytes_def Let_def)

lemma part_isot:
  assumes "good_part p"
  shows "starts_with_sot (part_bytes p)" "extract_isot (part_bytes p) = Ok (Some (part_tile p))"
    "patch_isot (part_bytes p) = part_bytes (p\<lparr>part_tile := 0\<rparr>)"
proof -
  have sot: "be_bytes 2 SOT = [0xFF, 0x90]" by (simp add: SOT_def numeral_2_eq_2)
  then show start: "starts_with_sot (part_bytes p)" by (simp add: starts_with_sot_def part_bytes_def)
  have "read_u16 (part_bytes p) 4 = (Ok (part_tile p) :: (_, codec_error) outcome)"
    using assms by (simp add: part_bytes_def good_part_def)
  then show "extract_isot (part_bytes p) = Ok (Some (part_tile p))" by (simp add: extract_isot_def start)
  have "be_bytes 2 0 = [0, 0]" by (simp add: numeral_2_eq_2)
  then show "patch_isot (part_bytes p) = part_bytes (p\<lparr>part_tile := 0\<rparr>)"
    by (simp add: patch_isot_def start) (simp add: part_bytes_def part_size_def)
qed

lemma length_part_bytes [simp]: "length (part_bytes p) = part_size p"
  by (simp add: part_bytes_def part_size_def)

lemma length_filter_concat: "length (concat (map f (filter P xs))) \<le> length (concat (map f xs))"
  by (induction xs) auto

lemma length_tile_siz [simp]: "length (siz_body rsiz (tile_siz s t) components) = length (siz_body rsiz s components)"
  by (simp add: siz_body_def siz_list_def)

lemma build_from_parts:
  assumes "\<forall>p\<in>set parts. good_part p \<and> part_tile p = t" "parts \<noteq> []"
  shows "build_minimal_codestream_from_parts header (map part_bytes parts) =
    map_ok (\<lambda>h. h @ concat (map (\<lambda>p. part_bytes (p\<lparr>part_tile := 0\<rparr>)) parts) @ be_bytes 2 EOC) (rewrite_siz_for_tile header t)"
proof -
  obtain p ps where p: "parts = p # ps" using assms(2) by (cases parts) auto
  have eoc: "be_bytes 2 EOC = [0xFF, 0xD9]" by (simp add: EOC_def numeral_2_eq_2)
  have "extract_isot (part_bytes p) = Ok (Some t)" using assms p part_isot(2) [of p] by simp
  moreover have "map patch_isot (map part_bytes parts) = map (\<lambda>p. part_bytes (p\<lparr>part_tile := 0\<rparr>)) parts"
    using assms(1) part_isot(3) by simp
  ultimately show ?thesis
    by (cases "rewrite_siz_for_tile header t") (simp_all add: build_minimal_codestream_from_parts_def p eoc cong: map_cong)
qed

lemma siz_header:
  "header_bytes (Segment SIZ (siz_body rsiz s components) # items) =
    siz_front (length (siz_body rsiz s components) + 2) rsiz s @ components @ concat (map item_bytes items)"
  by (simp add: header_bytes_def segment_bytes_def siz_body_def siz_front_def)

text \<open>C33: the codestream built for one tile is the codestream of that tile.  From the decode header, the
  table entries of tile \<open>t\<close> and the codestream, the builder returns the codestream whose SIZ segment
  describes an image of exactly the tile as the standard lays it out (or the whole image, when the
  tile is a full cell), without TLM segments, with the tile-parts of \<open>t\<close> in order, numbered as tile 0;
  it is again a codestream that reads back to these parts.\<close>

theorem minimal_codestream_tile:
  assumes good: "good_codestream (Segment SIZ (siz_body rsiz s components) # items) parts"
    and siz: "good_siz s" "t < tiles_of s" and some: "filter (\<lambda>p. part_tile p = t) parts \<noteq> []"
  shows "build_minimal_codestream
      (header_bytes (filter is_segment (Segment SIZ (siz_body rsiz s components) # items)))
      (map (\<lambda>e. (part_offset e, part_length e))
        (filter (\<lambda>e. tile_index e = t) (part_table (Segment SIZ (siz_body rsiz s components) # items) parts)))
      (codestream_bytes (Segment SIZ (siz_body rsiz s components) # items) parts) =
    Ok (codestream_bytes (Segment SIZ (siz_body rsiz (tile_siz s t) components) # filter is_segment items)
      (map (\<lambda>p. p\<lparr>part_tile := 0\<rparr>) (filter (\<lambda>p. part_tile p = t) parts))) \<and>
    good_codestream (Segment SIZ (siz_body rsiz (tile_siz s t) components) # filter is_segment items)
      (map (\<lambda>p. p\<lparr>part_tile := 0\<rparr>) (filter (\<lambda>p. part_tile p = t) parts))"
proof -
  let ?items = "Segment SIZ (siz_body rsiz s components) # items" and ?ps = "filter (\<lambda>p. part_tile p = t) parts"
  let ?cs = "codestream_bytes ?items parts" and ?table = "part_table ?items parts"
  let ?new = "Segment SIZ (siz_body rsiz (tile_siz s t) components) # filter is_segment items" and ?zero = "map (\<lambda>p. p\<lparr>part_tile := 0\<rparr>) ?ps"
  have parts: "\<forall>p\<in>set parts. good_part p" and small: "length ?cs < U64" and items: "\<forall>i\<in>set ?items. good_item i"
    using good by (simp_all add: good_codestream_def)
  have scan: "scan_sot_markers ?cs (length (header_bytes ?items)) = Ok ?table" and cut: "map (entry_bytes ?cs) ?table = map part_bytes parts"
    using parse_codestream [OF good] scan_parts [OF parts, of "header_bytes ?items" "[]"]
      entry_bytes_parts [OF parts, of "header_bytes ?items" "be_bytes 2 EOC"]
    by (simp_all add: scan_sot_markers_def part_table_def codestream_bytes_def)
  have "list_all (entry_fits ?cs) ?table" using scan_loop_entries [OF scan [unfolded scan_sot_markers_def]] by simp
  then have "list_all (entry_fits ?cs) (filter (\<lambda>e. tile_index e = t) ?table)" by (simp add: list_all_iff)
  then have slices: "part_slices ?cs (map (\<lambda>e. (part_offset e, part_length e)) (filter (\<lambda>e. tile_index e = t) ?table)) =
      map (entry_bytes ?cs) (filter (\<lambda>e. tile_index e = t) ?table)"
    using small by (rule part_slices_entries)
  have "map tile_index ?table = map part_tile parts" by (simp add: part_table_def tile_index_entries_at part_entry_def comp_def)
  then have tile: "map (entry_bytes ?cs) (filter (\<lambda>e. tile_index e = t) ?table) = map part_bytes ?ps"
    using map_filter_along [OF cut, of tile_index part_tile "\<lambda>i. i = t"] by simp
  have "rewrite_siz_for_tile (header_bytes (filter is_segment ?items)) t = Ok (header_bytes ?new)"
    using rewrite_siz_front [OF siz] by (simp add: siz_header)
  then have "build_minimal_codestream_from_parts (header_bytes (filter is_segment ?items)) (map part_bytes ?ps) =
      Ok (codestream_bytes ?new ?zero)"
    using build_from_parts [of ?ps t] parts some by (simp add: codestream_bytes_def comp_def)
  moreover have "good_codestream ?new ?zero"
  proof -
    have l: "listed (filter is_segment items) = []" by (induction items) (auto simp: listed_def elim: is_segment.elims)
    have "length (concat (map part_bytes ?zero)) \<le> length (concat (map part_bytes parts))"
      using length_filter_concat [of part_bytes "\<lambda>p. part_tile p = t" parts] by (simp add: comp_def part_size_def length_concat)
    moreover have "length (header_bytes ?new) \<le> length (header_bytes ?items)"
      using length_filter_concat [of item_bytes is_segment items] by (simp add: header_bytes_def segment_bytes_def)
    ultimately have "length (codestream_bytes ?new ?zero) < U64" using small by (simp add: codestream_bytes_def)
    then show ?thesis using items parts some l
      by (auto simp: good_codestream_def listed_def good_part_def part_size_def)
  qed
  ultimately show ?thesis by (simp add: build_minimal_codestream_def slices tile)
qed

section \<open>A codestream of two tiles\<close>

definition two_siz :: siz_params where
  "two_siz = \<lparr>xsiz = 3, ysiz = 2, xosiz = 0, yosiz = 0, xtsiz = 2, ytsiz = 2, xtosiz = 0, ytosiz = 0\<rparr>"

definition two_items :: "header_item list" where
  "two_items = [Lengths 0 0 False [(0, 13), (1, 14)], Segment 0xFF52 [5]]"

definition two_parts :: "tile_part list" where
  "two_parts = [\<lparr>part_tile = 0, part_number = 0, part_count = 1, part_data = [7]\<rparr>,
     \<lparr>part_tile = 1, part_number = 0, part_count = 1, part_data = [8, 9]\<rparr>]"

lemma two_good: "good_codestream (Segment SIZ (siz_body 0 two_siz []) # two_items) two_parts"
  by (simp add: good_codestream_def two_items_def two_parts_def listed_def part_entry_def part_size_def good_part_def
      siz_body_def siz_list_def SIZ_def SOT_def TLM_def delimiter_def tlm_body_def length_entry_def length_width_def
      codestream_bytes_def header_bytes_def segment_bytes_def part_bytes_def U64_def)

lemma two_lengths: "length (header_bytes (Segment SIZ (siz_body 0 two_siz []) # two_items)) = 55"
  by (simp add: header_bytes_def segment_bytes_def siz_body_def siz_list_def two_items_def tlm_body_def length_entry_def length_width_def)

lemma codestream_roundtrip_witness:
  "\<exists>info. parse_main_header (codestream_bytes (Segment SIZ (siz_body 0 two_siz []) # two_items) two_parts) = Ok info \<and>
    tlm_offset_table info = Some [\<lparr>tile_index = 0, part_offset = 55, part_length = 13\<rparr>,
      \<lparr>tile_index = 1, part_offset = 68, part_length = 14\<rparr>]"
  using codestream_roundtrip [OF two_good] two_lengths
  by (simp add: part_table_def two_parts_def part_entry_def part_size_def) (simp add: two_items_def listed_def)

lemma minimal_codestream_tile_witness:
  "build_minimal_codestream (header_bytes (filter is_segment (Segment SIZ (siz_body 0 two_siz []) # two_items))) [(68, 14)]
      (codestream_bytes (Segment SIZ (siz_body 0 two_siz []) # two_items) two_parts) =
    Ok (codestream_bytes
      [Segment SIZ (siz_body 0 \<lparr>xsiz = 1, ysiz = 2, xosiz = 0, yosiz = 0, xtsiz = 1, ytsiz = 2, xtosiz = 0, ytosiz = 0\<rparr> []),
       Segment 0xFF52 [5]]
      [\<lparr>part_tile = 0, part_number = 0, part_count = 1, part_data = [8, 9]\<rparr>])"
proof -
  have n: "grid_tiles 3 0 2 = 2" "grid_tiles 2 0 2 = 1" by (simp_all add: grid_tiles_def div_ceil_def)
  then have siz: "good_siz two_siz" "1 < tiles_of two_siz"
    by (simp_all add: good_siz_def two_siz_def tiles_of_def)
  have some: "filter (\<lambda>p. part_tile p = 1) two_parts \<noteq> []" by (simp add: two_parts_def)
  have table: "map (\<lambda>e. (part_offset e, part_length e)) (filter (\<lambda>e. tile_index e = 1)
      (part_table (Segment SIZ (siz_body 0 two_siz []) # two_items) two_parts)) = [(68, 14)]"
    using two_lengths by (simp add: part_table_def two_parts_def part_entry_def part_size_def)
  have tile: "tile_siz two_siz 1 = \<lparr>xsiz = 1, ysiz = 2, xosiz = 0, yosiz = 0, xtsiz = 1, ytsiz = 2, xtosiz = 0, ytosiz = 0\<rparr>"
    by (simp add: tile_siz_def tile_width_def tile_height_def two_siz_def n cell_extent_def)
  show ?thesis
    using minimal_codestream_tile [OF two_good siz some] unfolding table tile
    by (simp add: two_items_def two_parts_def)
qed

end
