(* ===== verification/Nc_Block.thy ===== *)
theory Nc_Block
  imports Interleave Owned_Buffer
begin

text \<open>
  Uncompressed image blocks: \<open>src/src/jbp/image/nc_encoder.rs\<close>, \<open>nc_decoder.rs\<close> and the byte swaps of
  \<open>encoder.rs\<close> and \<open>decoder.rs\<close>.  Both sides share the geometry of the image; the record \<open>block_layout\<close> holds
  it.  Sums and products of \<open>usize\<close> and \<open>u32\<close> values wrap.  The scratch buffer of the decoder is part of
  the state of its calls, next to the fetchers that the image data may be read through; its lock is never
  poisoned, since the converters do not panic once their checks have passed.
\<close>

unbundle bit_operations_syntax

section \<open>Layout\<close>

record block_layout =
  image_rows :: nat
  image_cols :: nat
  nbpr :: nat
  nbpc :: nat
  nppbh :: nat
  nppbv :: nat
  nbands :: nat
  nbpp :: nat
  imode :: interleave_mode

definition bytes_per_pixel :: "'a block_layout_scheme \<Rightarrow> nat" where
  "bytes_per_pixel l = div_ceil (nbpp l) 8"

definition is_bit_packed :: "'a block_layout_scheme \<Rightarrow> bool" where
  "is_bit_packed l \<longleftrightarrow> nbpp l mod 8 \<noteq> 0"

definition packed_band_size_bytes :: "'a block_layout_scheme \<Rightarrow> nat" where
  "packed_band_size_bytes l = div_ceil (wrap64 (nppbh l * nppbv l * nbpp l)) 8"

definition block_size_bytes :: "'a block_layout_scheme \<Rightarrow> nat" where
  "block_size_bytes l = wrap64 (packed_band_size_bytes l * nbands l)"

definition actual_block_dimensions :: "'a block_layout_scheme \<Rightarrow> nat \<Rightarrow> nat \<Rightarrow> nat \<times> nat" where
  "actual_block_dimensions l block_row block_col =
    (let start_row = mul32 block_row (nppbv l); start_col = mul32 block_col (nppbh l)
     in (if add32 start_row (nppbv l) > image_rows l then sub32 (image_rows l) start_row else nppbv l,
         if add32 start_col (nppbh l) > image_cols l then sub32 (image_cols l) start_col else nppbh l))"

definition block_index :: "'a block_layout_scheme \<Rightarrow> nat \<Rightarrow> nat \<Rightarrow> nat" where
  "block_index l block_row block_col = wrap64 (block_row * nbpr l + block_col)"

text \<open>Where the bytes of a band of a block begin when bands are stored apart.\<close>

definition band_block_offset :: "'a block_layout_scheme \<Rightarrow> nat \<Rightarrow> nat \<Rightarrow> nat \<Rightarrow> nat" where
  "band_block_offset l block_row block_col band =
    wrap64 (band * (nbpr l * nbpc l) * packed_band_size_bytes l + block_index l block_row block_col * packed_band_size_bytes l)"

definition block_offset :: "'a block_layout_scheme \<Rightarrow> nat \<Rightarrow> nat \<Rightarrow> nat" where
  "block_offset l block_row block_col =
    (if imode l = ModeS then wrap64 (block_index l block_row block_col * packed_band_size_bytes l)
     else wrap64 (block_index l block_row block_col * block_size_bytes l))"

text \<open>The bands of a list of rows, and the other way round, in the order of the nested loops.\<close>

abbreviation band_rows :: "nat \<Rightarrow> nat \<Rightarrow> (nat \<times> nat) list" where
  "band_rows bands rows \<equiv> List.product [0..<bands] [0..<rows]"

section \<open>Byte order\<close>

text \<open>\<open>chunks_exact\<close> drops what is left behind the last whole chunk.\<close>

definition swap_chunks :: "(byte list \<Rightarrow> byte list) \<Rightarrow> nat \<Rightarrow> byte list \<Rightarrow> byte list" where
  "swap_chunks f bpp bs = concat (map (\<lambda>i. f (sample bpp bs i)) [0..<length bs div bpp])"

definition swap_be_to_ne :: "bool \<Rightarrow> byte list \<Rightarrow> nat \<Rightarrow> byte list" where
  "swap_be_to_ne big_endian bs bpp =
    (if big_endian \<or> bpp \<le> 1 then bs
     else if bpp = 2 \<or> bpp = 4 \<or> bpp = 8 then swap_chunks (\<lambda>c. le_bytes bpp (be_val c)) bpp bs
     else bs)"

definition swap_ne_to_be :: "bool \<Rightarrow> byte list \<Rightarrow> nat \<Rightarrow> byte list" where
  "swap_ne_to_be big_endian bs bpp =
    (if big_endian \<or> bpp \<le> 1 then bs
     else if bpp = 2 \<or> bpp = 4 \<or> bpp = 8 then swap_chunks (\<lambda>c. be_bytes bpp (le_val c)) bpp bs
     else bs)"

section \<open>Bit streams\<close>

text \<open>The bits of one pixel, most significant first, from or to the bytes they lie in.  Values are
  numbers below \<open>2 ^ 32\<close>.\<close>

function write_bits :: "byte list \<Rightarrow> nat \<Rightarrow> nat \<Rightarrow> nat \<Rightarrow> (byte list, codec_error) outcome" where
  "write_bits packed bits_remaining current_bit val_bits_left =
    (if bits_remaining = 0 then Ok packed
     else
       (let byte_idx = current_bit div 8;
            bits_available = 8 - current_bit mod 8;
            bits_to_write = min bits_remaining bits_available;
            shift = bits_remaining - bits_to_write;
            fragment = take_bit bits_to_write (drop_bit shift val_bits_left)
        in and_then (index_at byte_idx packed) (\<lambda>b.
           and_then (set_at byte_idx (b OR push_bit (bits_available - bits_to_write) (word_of_nat fragment)) packed) (\<lambda>packed'.
             write_bits packed' (bits_remaining - bits_to_write) (current_bit + bits_to_write) (take_bit shift val_bits_left)))))"
  by pat_completeness auto

termination
  by (relation "measure (\<lambda>(packed, bits_remaining, current_bit, val_bits_left). bits_remaining)") (auto simp: min_def)

declare write_bits.simps [simp del]

function read_bits :: "byte list \<Rightarrow> nat \<Rightarrow> nat \<Rightarrow> nat \<Rightarrow> (nat, codec_error) outcome" where
  "read_bits packed bits_remaining current_bit val =
    (if bits_remaining = 0 then Ok val
     else
       (let byte_idx = current_bit div 8;
            bits_available = 8 - current_bit mod 8;
            bits_to_take = min bits_remaining bits_available;
            shift = bits_available - bits_to_take
        in and_then (index_at byte_idx packed) (\<lambda>b.
             read_bits packed (bits_remaining - bits_to_take) (current_bit + bits_to_take)
               (push_bit bits_to_take val OR take_bit bits_to_take (drop_bit shift (unat b))))))"
  by pat_completeness auto

termination
  by (relation "measure (\<lambda>(packed, bits_remaining, current_bit, val). bits_remaining)") (auto simp: min_def)

declare read_bits.simps [simp del]

text \<open>The containers that the \<open>match\<close> on the bytes per pixel allows; any other size is \<open>unreachable!\<close>.\<close>

definition container :: "nat \<Rightarrow> byte list \<Rightarrow> nat \<Rightarrow> (nat, codec_error) outcome" where
  "container bpp pixels i =
    (if bpp = 1 \<or> bpp = 2 \<or> bpp = 4 then map_ok be_val (slice (i * bpp) (i * bpp + bpp) pixels) else Panic)"

definition pack_bitstream :: "nat \<Rightarrow> byte list \<Rightarrow> (byte list, codec_error) outcome" where
  "pack_bitstream bits pixels =
    (let bpp = div_ceil bits 8; num_pixels = length pixels div bpp
     in try_fold (\<lambda>packed i.
          and_then (container bpp pixels i) (\<lambda>val. write_bits packed bits (i * bits) (take_bit bits val)))
        (replicate (div_ceil (num_pixels * bits) 8) 0) [0..<num_pixels])"

definition unpack_bitstream :: "nat \<Rightarrow> byte list \<Rightarrow> nat \<Rightarrow> (byte list, codec_error) outcome" where
  "unpack_bitstream bits packed num_pixels =
    (let bpp = div_ceil bits 8
     in map_ok concat
       (try_map (\<lambda>i.
          and_then (read_bits packed bits (i * bits) 0) (\<lambda>val.
            if bpp = 1 \<or> bpp = 2 \<or> bpp = 4 then Ok (be_bytes bpp (take_bit bits val)) else Panic))
        [0..<num_pixels]))"

section \<open>Encoder\<close>

record nc_encoder = block_layout +
  encoded_data :: "byte list"
  blocks_encoded :: "bool list list"

definition nc_encoder_new :: "nat \<Rightarrow> nat \<Rightarrow> nat \<Rightarrow> nat \<Rightarrow> interleave_mode \<Rightarrow> nat \<Rightarrow> nat \<Rightarrow> (nc_encoder, codec_error) outcome" where
  "nc_encoder_new nrows ncols bands bits mode width height =
    and_then (div_ceil_or_panic ncols width) (\<lambda>across.
    and_then (div_ceil_or_panic nrows height) (\<lambda>down.
      let l = \<lparr>image_rows = nrows, image_cols = ncols, nbpr = across, nbpc = down, nppbh = width, nppbv = height,
            nbands = bands, nbpp = bits, imode = mode\<rparr>
      in Ok (block_layout.extend l \<lparr>encoded_data = replicate (wrap64 (down * across * block_size_bytes l)) 0,
           blocks_encoded = replicate down (replicate across False)\<rparr>)))"

definition write_block_mode_s ::
    "'a block_layout_scheme \<Rightarrow> nat \<Rightarrow> nat \<Rightarrow> byte list \<Rightarrow> nat \<Rightarrow> nat \<Rightarrow> byte list \<Rightarrow> (byte list, codec_error) outcome" where
  "write_block_mode_s l block_row block_col bs rows cols encoded =
    (let bpp = bytes_per_pixel l; band_bytes = wrap64 (rows * cols * bpp)
     in if is_bit_packed l then
          try_fold (\<lambda>out band.
            and_then (slice (wrap64 (band * band_bytes)) (wrap64 (band * band_bytes + band_bytes)) bs) (\<lambda>pixels.
            and_then (pack_bitstream (nbpp l) pixels) (\<lambda>packed.
              blit (band_block_offset l block_row block_col band) packed out))) encoded [0..<nbands l]
        else
          try_fold (\<lambda>out (band, row).
            copy_block (wrap64 (cols * bpp)) bs out
              (wrap64 (band_block_offset l block_row block_col band + row * nppbh l * bpp),
               wrap64 (band * band_bytes + row * cols * bpp))) encoded (band_rows (nbands l) rows))"

definition write_block_mode_bpr ::
    "'a block_layout_scheme \<Rightarrow> nat \<Rightarrow> nat \<Rightarrow> byte list \<Rightarrow> nat \<Rightarrow> nat \<Rightarrow> byte list \<Rightarrow> (byte list, codec_error) outcome" where
  "write_block_mode_bpr l block_row block_col bs rows cols encoded =
    (let bpp = bytes_per_pixel l; band_bytes = wrap64 (rows * cols * bpp);
         start = wrap64 (block_index l block_row block_col * block_size_bytes l)
     in if is_bit_packed l then
          try_fold (\<lambda>out band.
            and_then (slice (wrap64 (band * band_bytes)) (wrap64 (band * band_bytes + band_bytes)) bs) (\<lambda>pixels.
            and_then (pack_bitstream (nbpp l) pixels) (\<lambda>packed.
              blit (wrap64 (start + band * packed_band_size_bytes l)) packed out))) encoded [0..<nbands l]
        else
          (case imode l of
            ModeB \<Rightarrow>
              try_fold (\<lambda>out (band, row).
                copy_block (wrap64 (cols * bpp)) bs out
                  (wrap64 (start + band * (nppbh l * nppbv l) * bpp + row * nppbh l * bpp),
                   wrap64 (band * band_bytes + row * cols * bpp))) encoded (band_rows (nbands l) rows)
          | ModeP \<Rightarrow>
              try_fold (\<lambda>out row.
                copy_block (wrap64 (cols * (nbands l * bpp))) bs out
                  (wrap64 (start + row * (nppbh l * (nbands l * bpp))),
                   wrap64 (row * cols * (nbands l * bpp)))) encoded [0..<rows]
          | ModeR \<Rightarrow>
              try_fold (\<lambda>out (row, band).
                copy_block (wrap64 (cols * bpp)) bs out
                  (wrap64 (start + row * (nppbh l * bpp * nbands l) + band * (nppbh l * bpp)),
                   wrap64 ((row * nbands l + band) * cols * bpp))) encoded (List.product [0..<rows] [0..<nbands l])
          | ModeS \<Rightarrow> Panic))"

definition write_block_to_buffer ::
    "bool \<Rightarrow> 'a block_layout_scheme \<Rightarrow> nat \<Rightarrow> nat \<Rightarrow> byte list \<Rightarrow> nat \<times> nat \<times> nat \<Rightarrow> byte list \<Rightarrow> (byte list, codec_error) outcome" where
  "write_block_to_buffer big_endian l block_row block_col bs shape encoded =
    (case shape of (bands, rows, cols) \<Rightarrow>
      and_then (from_band_sequential (swap_ne_to_be big_endian bs (bytes_per_pixel l)) (imode l) rows cols bands (bytes_per_pixel l))
        (\<lambda>converted.
          if imode l = ModeS then write_block_mode_s l block_row block_col converted rows cols encoded
          else write_block_mode_bpr l block_row block_col converted rows cols encoded))"

definition mark_block :: "nat \<Rightarrow> nat \<Rightarrow> bool list list \<Rightarrow> (bool list list, codec_error) outcome" where
  "mark_block block_row block_col grid =
    and_then (index_at block_row grid) (\<lambda>blocks.
    and_then (set_at block_col True blocks) (\<lambda>blocks'. set_at block_row blocks' grid))"

definition encode_block :: "bool \<Rightarrow> nat \<Rightarrow> nat \<Rightarrow> byte list \<Rightarrow> nat \<times> nat \<times> nat \<Rightarrow> nc_encoder \<Rightarrow> (nc_encoder, codec_error) outcome" where
  "encode_block big_endian block_row block_col bs shape e =
    (if block_row \<ge> nbpc e \<or> block_col \<ge> nbpr e then Err (InvalidBlockCoordinates block_row block_col 0)
     else
       (case actual_block_dimensions e block_row block_col of (rows, cols) \<Rightarrow>
         if shape \<noteq> (nbands e, rows, cols) then Err Encode
         else if length bs \<noteq> wrap64 (nbands e * rows * cols * bytes_per_pixel e) then Err Encode
         else
           and_then (write_block_to_buffer big_endian e block_row block_col bs shape (encoded_data e)) (\<lambda>encoded.
           and_then (mark_block block_row block_col (blocks_encoded e)) (\<lambda>marks.
             Ok (e\<lparr>encoded_data := encoded, blocks_encoded := marks\<rparr>)))))"

definition skip_block :: "nat \<Rightarrow> nat \<Rightarrow> nc_encoder \<Rightarrow> (nc_encoder, codec_error) outcome" where
  "skip_block block_row block_col e =
    (if block_row \<ge> nbpc e \<or> block_col \<ge> nbpr e then Err (InvalidBlockCoordinates block_row block_col 0)
     else map_ok (\<lambda>marks. e\<lparr>blocks_encoded := marks\<rparr>) (mark_block block_row block_col (blocks_encoded e)))"

definition finalize :: "nc_encoder \<Rightarrow> (byte list, codec_error) outcome" where
  "finalize e = (if list_all (list_all id) (blocks_encoded e) then Ok (encoded_data e) else Err Encode)"

section \<open>Decoder\<close>

record decoder_state =
  memory :: remote_heap
  scratch :: "byte list"

type_synonym 'a decoder_call = "(decoder_state, 'a, codec_error) call"

definition on_memory :: "'a buffer_call \<Rightarrow> 'a decoder_call" where
  "on_memory m = (\<lambda>s. case m (memory s) of (r, h) \<Rightarrow> (r, s\<lparr>memory := h\<rparr>))"

text \<open>Bytes of the image data, with and without the check of the length first.\<close>

definition slice_bytes :: "owned_buffer \<Rightarrow> nat \<Rightarrow> nat \<Rightarrow> byte list buffer_call" where
  "slice_bytes img offset n = seq (try_slice img offset (wrap64 (offset + n))) (\<lambda>b. lift_outcome (as_bytes b))"

definition checked_bytes :: "owned_buffer \<Rightarrow> nat \<times> nat \<Rightarrow> byte list buffer_call" where
  "checked_bytes img = (\<lambda>(offset, n).
    if wrap64 (offset + n) > buffer_len img then lift_outcome (Err Decode) else slice_bytes img offset n)"

definition read_pieces :: "owned_buffer \<Rightarrow> (nat \<times> nat) list \<Rightarrow> byte list buffer_call" where
  "read_pieces img pieces =
    seq (each_call (checked_bytes img) pieces) (\<lambda>parts. done_with (concat parts))"

definition read_block_mode_s :: "'a block_layout_scheme \<Rightarrow> owned_buffer \<Rightarrow> nat \<Rightarrow> nat \<Rightarrow> nat \<Rightarrow> nat \<Rightarrow> byte list buffer_call" where
  "read_block_mode_s l img block_row block_col rows cols =
    (if is_bit_packed l then
       seq (each_call (\<lambda>band.
           seq (checked_bytes img (band_block_offset l block_row block_col band, packed_band_size_bytes l)) (\<lambda>packed.
             lift_outcome (unpack_bitstream (nbpp l) packed (wrap64 (rows * cols))))) [0..<nbands l])
         (\<lambda>parts. done_with (concat parts))
     else
       read_pieces img (map (\<lambda>(band, row).
         (wrap64 (band_block_offset l block_row block_col band + row * nppbh l * bytes_per_pixel l), wrap64 (cols * bytes_per_pixel l)))
         (band_rows (nbands l) rows)))"

definition read_block_mode_bpr :: "'a block_layout_scheme \<Rightarrow> owned_buffer \<Rightarrow> nat \<Rightarrow> nat \<Rightarrow> nat \<Rightarrow> nat \<Rightarrow> byte list buffer_call" where
  "read_block_mode_bpr l img block_row block_col rows cols =
    (let offset = block_offset l block_row block_col; bpp = bytes_per_pixel l
     in if is_bit_packed l then
          if wrap64 (offset + block_size_bytes l) > buffer_len img then lift_outcome (Err Decode)
          else
            seq (each_call (\<lambda>band.
                seq (slice_bytes img (wrap64 (offset + band * packed_band_size_bytes l)) (packed_band_size_bytes l)) (\<lambda>packed.
                  lift_outcome (unpack_bitstream (nbpp l) packed (wrap64 (rows * cols))))) [0..<nbands l])
              (\<lambda>parts. done_with (concat parts))
        else if rows = nppbv l \<and> cols = nppbh l then checked_bytes img (offset, block_size_bytes l)
        else
          (case imode l of
            ModeB \<Rightarrow>
              read_pieces img (map (\<lambda>(band, row).
                (wrap64 (offset + band * (nppbh l * nppbv l) * bpp + row * nppbh l * bpp), wrap64 (cols * bpp)))
                (band_rows (nbands l) rows))
          | ModeP \<Rightarrow>
              read_pieces img (map (\<lambda>(row, col).
                (wrap64 (offset + (row * nppbh l + col) * (nbands l * bpp)), wrap64 (nbands l * bpp)))
                (List.product [0..<rows] [0..<cols]))
          | ModeR \<Rightarrow>
              read_pieces img (map (\<lambda>(row, band).
                (wrap64 (offset + (row * nbands l + band) * (nppbh l * bpp)), wrap64 (cols * bpp)))
                (List.product [0..<rows] [0..<nbands l]))
          | ModeS \<Rightarrow> lift_outcome Panic))"

definition apply_band_selection ::
    "'a block_layout_scheme \<Rightarrow> byte list \<Rightarrow> nat \<Rightarrow> nat \<Rightarrow> nat list \<Rightarrow> (byte list, codec_error) outcome" where
  "apply_band_selection l bs rows cols bands =
    (let band_size = wrap64 (rows * cols * bytes_per_pixel l)
     in map_ok concat (try_map (\<lambda>band.
          if band \<ge> nbands l then Err Decode
          else if wrap64 (band * band_size + band_size) > length bs then Err Decode
          else slice (wrap64 (band * band_size)) (wrap64 (band * band_size + band_size)) bs) bands))"

definition lock_scratch :: "nat \<Rightarrow> unit decoder_call" where
  "lock_scratch required = (\<lambda>s.
    (Ok (), s\<lparr>scratch := scratch s @ replicate (required - length (scratch s)) 0\<rparr>))"

definition PARALLEL_THRESHOLD :: nat where
  "PARALLEL_THRESHOLD = 4 * 1024 * 1024"

definition DEFAULT_TILE_ROWS :: nat where
  "DEFAULT_TILE_ROWS = 64"

text \<open>The schedule of the parallel converter, from the steps of its tasks.\<close>

type_synonym scheduler = "(nat \<times> nat \<times> nat \<times> nat) list list \<Rightarrow> (nat \<times> nat \<times> nat \<times> nat) list"

definition fused ::
    "bool \<Rightarrow> scheduler \<Rightarrow> 'a block_layout_scheme \<Rightarrow> byte list \<Rightarrow> nat \<Rightarrow> nat \<Rightarrow> nat list option \<Rightarrow> byte list \<Rightarrow> (byte list, codec_error) outcome" where
  "fused big_endian order l raw rows cols bands dst =
    (if length raw \<ge> PARALLEL_THRESHOLD then
       fused_bip_to_bsq_swap_parallel big_endian
         (order (parallel_tasks rows cols (nbands l) bands DEFAULT_TILE_ROWS))
         raw dst rows cols (nbands l) (bytes_per_pixel l) bands DEFAULT_TILE_ROWS
     else fused_bip_to_bsq_swap big_endian raw dst rows cols (nbands l) (bytes_per_pixel l) bands DEFAULT_TILE_ROWS)"

text \<open>\<open>Some(b) if !b.is_empty()\<close>.\<close>

definition chosen_bands :: "nat list option \<Rightarrow> nat list option" where
  "chosen_bands bands = (case bands of Some b \<Rightarrow> if b = [] then None else Some b | None \<Rightarrow> None)"

definition select_bands ::
    "'a block_layout_scheme \<Rightarrow> byte list \<Rightarrow> nat \<Rightarrow> nat \<Rightarrow> nat list option \<Rightarrow> (byte list, codec_error) outcome" where
  "select_bands l bs rows cols bands =
    (case chosen_bands bands of Some b \<Rightarrow> apply_band_selection l bs rows cols b | None \<Rightarrow> Ok bs)"

definition band_count :: "'a block_layout_scheme \<Rightarrow> nat list option \<Rightarrow> nat" where
  "band_count l bands = (case bands of Some b \<Rightarrow> length b | None \<Rightarrow> nbands l)"

definition convert_block ::
    "bool \<Rightarrow> scheduler \<Rightarrow> 'a block_layout_scheme \<Rightarrow> byte list \<Rightarrow> nat \<Rightarrow> nat \<Rightarrow> nat list option \<Rightarrow> (byte list \<times> nat \<times> nat \<times> nat) decoder_call" where
  "convert_block big_endian order l raw rows cols bands =
    (case imode l of
      ModeP \<Rightarrow>
        (let out_bands = band_count l (chosen_bands bands);
             output_size = wrap64 (rows * cols * out_bands * bytes_per_pixel l)
         in seq (lock_scratch output_size) (\<lambda>_ s.
              case fused big_endian order l raw rows cols (chosen_bands bands) (take output_size (scratch s)) of
                Ok out \<Rightarrow> (Ok (out, out_bands, rows, cols), s\<lparr>scratch := out @ drop output_size (scratch s)\<rparr>)
              | Err e \<Rightarrow> (Err e, s)
              | Panic \<Rightarrow> (Panic, s)))
    | ModeR \<Rightarrow>
        lift_outcome
          (and_then (to_band_sequential raw ModeR rows cols (nbands l) (bytes_per_pixel l)) (\<lambda>bsq.
           map_ok (\<lambda>out. (swap_be_to_ne big_endian out (bytes_per_pixel l), band_count l bands, rows, cols))
             (select_bands l bsq rows cols bands)))
    | _ \<Rightarrow>
        lift_outcome
          (map_ok (\<lambda>out. (out, band_count l bands, rows, cols))
            (select_bands l (swap_be_to_ne big_endian raw (bytes_per_pixel l)) rows cols bands)))"

definition decode_block ::
    "bool \<Rightarrow> scheduler \<Rightarrow> 'a block_layout_scheme \<Rightarrow> owned_buffer \<Rightarrow> nat \<Rightarrow> nat \<Rightarrow> nat \<Rightarrow> nat list option \<Rightarrow> (byte list \<times> nat \<times> nat \<times> nat) decoder_call" where
  "decode_block big_endian order l img block_row block_col level bands =
    (if level \<noteq> 0 then lift_outcome (Err (InvalidBlockCoordinates block_row block_col level))
     else if block_row \<ge> nbpc l \<or> block_col \<ge> nbpr l then lift_outcome (Err (InvalidBlockCoordinates block_row block_col 0))
     else
       (case actual_block_dimensions l block_row block_col of (rows, cols) \<Rightarrow>
         seq (on_memory (if imode l = ModeS then read_block_mode_s l img block_row block_col rows cols
             else read_block_mode_bpr l img block_row block_col rows cols)) (\<lambda>raw.
           convert_block big_endian order l raw rows cols bands)))"

definition decode_block_at_offset ::
    "bool \<Rightarrow> scheduler \<Rightarrow> 'a block_layout_scheme \<Rightarrow> owned_buffer \<Rightarrow> nat \<Rightarrow> nat \<Rightarrow> nat \<Rightarrow> nat \<Rightarrow> nat list option \<Rightarrow> (byte list \<times> nat \<times> nat \<times> nat) decoder_call" where
  "decode_block_at_offset big_endian order l img offset block_row block_col level bands =
    (if level \<noteq> 0 then lift_outcome (Err (InvalidBlockCoordinates block_row block_col level))
     else if block_row \<ge> nbpc l \<or> block_col \<ge> nbpr l then lift_outcome (Err (InvalidBlockCoordinates block_row block_col 0))
     else
       (case actual_block_dimensions l block_row block_col of (rows, cols) \<Rightarrow>
         seq (on_memory (checked_bytes img (offset, wrap64 (rows * cols * nbands l * bytes_per_pixel l)))) (\<lambda>raw.
           convert_block big_endian order l raw rows cols bands)))"

definition has_nc_block :: "'a block_layout_scheme \<Rightarrow> nat \<Rightarrow> nat \<Rightarrow> bool" where
  "has_nc_block l block_row block_col \<longleftrightarrow> block_row < nbpc l \<and> block_col < nbpr l"

definition tile_byte_ranges :: "'a block_layout_scheme \<Rightarrow> ((nat \<times> nat) \<times> (nat \<times> nat) list) list" where
  "tile_byte_ranges l =
    map (\<lambda>(row, col). ((row, col), [(block_offset l row col, block_size_bytes l)])) (List.product [0..<nbpc l] [0..<nbpr l])"

end
