(* ===== verification/Nc_Bits.thy ===== *)
theory Nc_Bits
  imports Nc_Block
begin

text \<open>
  The bit streams of \<open>Nc_Block\<close>: writing the bits of a value sets exactly its bits, reading gives them
  back, so a band that was packed is unpacked to the same pixels.
\<close>

section \<open>Bits of a byte list\<close>

definition bit_at :: "byte list \<Rightarrow> nat \<Rightarrow> bool" where
  "bit_at bs i = bit (bs ! (i div 8)) (7 - i mod 8)"

lemma chunk:
  fixes cur k :: nat
  assumes "k \<noteq> 0" "n = min k (8 - cur mod 8)"
  shows "0 < n" "n \<le> k" "cur mod 8 + n \<le> 8" "i < n \<Longrightarrow> (cur + i) div 8 = cur div 8 \<and> (cur + i) mod 8 = cur mod 8 + i"
proof -
  have m: "cur mod 8 < 8" by simp
  then show "0 < n" "n \<le> k" "cur mod 8 + n \<le> 8" using assms by auto
  then have lt: "cur mod 8 + i < 8" if "i < n" for i using that by simp
  show "(cur + i) div 8 = cur div 8 \<and> (cur + i) mod 8 = cur mod 8 + i" if "i < n"
  proof -
    have "(q * 8 + b) div 8 = q \<and> (q * 8 + b) mod 8 = b" if "b < 8" for q b :: nat using that by simp
    from this [OF lt [OF that], of "cur div 8"] show ?thesis by (simp add: add.assoc [symmetric])
  qed
qed

lemma bit_distance:
  fixes a n d k :: nat
  assumes "a + n \<le> 8" "d < n" "n \<le> k"
  shows "7 - (a + d) - (8 - a - n) + (k - n) = cur + k - 1 - (cur + d)"
  using assms by simp

lemma bit_inside:
  fixes x cur a i n :: nat
  assumes "x + cur = a + i" "a + n \<le> 8" "x < 8" "0 < n"
  shows "8 - a - n \<le> 7 - x \<and> 7 - x - (8 - a - n) < n \<longleftrightarrow> cur \<le> i \<and> i < cur + n"
proof -
  have "8 - a - n \<le> 7 - x \<longleftrightarrow> x < a + n" using assms(2,3) by linarith
  moreover have "7 - x - (8 - a - n) < n \<longleftrightarrow> a \<le> x" if "x < a + n" using assms(2,3,4) that by linarith
  moreover have "x < a + n \<longleftrightarrow> i < cur + n" "a \<le> x \<longleftrightarrow> cur \<le> i" using assms(1) by linarith+
  ultimately show ?thesis by blast
qed

lemma read_bits_spec:
  assumes "(cur + k + 7) div 8 \<le> length packed"
  shows "\<exists>r. read_bits packed k cur val = Ok r \<and>
    (\<forall>j. bit r j \<longleftrightarrow> (if j < k then bit_at packed (cur + k - 1 - j) else bit val (j - k)))"
  using assms
proof (induction k arbitrary: cur val rule: less_induct)
  case (less k)
  show ?case
  proof (cases "k = 0")
    case True
    then show ?thesis by (simp add: read_bits.simps [of packed 0])
  next
    case False
    define n where "n = min k (8 - cur mod 8)"
    note c = chunk [OF False n_def]
    let ?b = "packed ! (cur div 8)"
    let ?v = "push_bit n val OR take_bit n (drop_bit (8 - cur mod 8 - n) (unat ?b))"
    have byte: "cur div 8 < length packed" using less.prems False by linarith
    have "(cur + n + (k - n) + 7) div 8 \<le> length packed" using less.prems c(2) by simp
    then obtain r where r: "read_bits packed (k - n) (cur + n) ?v = Ok r"
      "\<And>j. bit r j \<longleftrightarrow> (if j < k - n then bit_at packed (cur + n + (k - n) - 1 - j) else bit ?v (j - (k - n)))"
      using less.IH [of "k - n" "cur + n" ?v] c(1,2) by auto
    have "bit r j \<longleftrightarrow> (if j < k then bit_at packed (cur + k - 1 - j) else bit val (j - k))" for j
    proof -
      consider "j < k - n" | "k - n \<le> j" "j < k" | "k \<le> j" by linarith
      then show ?thesis
      proof cases
        case 1
        then have "j < k" "cur + n + (k - n) - 1 - j = cur + k - 1 - j" using c(2) by auto
        then show ?thesis using r(2) [of j] 1 by simp
      next
        case 2
        define i where "i = k - 1 - j"
        have i: "i < n" "j - (k - n) = n - 1 - i" "cur + k - 1 - j = cur + i" using 2 c(1,2) by (auto simp: i_def)
        have "bit r j \<longleftrightarrow> bit ?b (8 - cur mod 8 - n + (n - 1 - i))"
          using r(2) [of j] 2 i(1,2) by (auto simp: bit_or_iff bit_push_bit_iff bit_take_bit_iff bit_drop_bit_eq bit_unsigned_iff)
        moreover have "8 - cur mod 8 - n + (n - 1 - i) = 7 - (cur mod 8 + i)" using c(3) i(1) by linarith
        ultimately have "bit r j \<longleftrightarrow> bit_at packed (cur + i)" using c(4) [OF i(1)] by (simp add: bit_at_def)
        then show ?thesis using 2 i(3) by simp
      next
        case 3
        then show ?thesis using r(2) [of j] c(2)
          by (auto simp: bit_or_iff bit_push_bit_iff bit_take_bit_iff)
      qed
    qed
    then show ?thesis
      using False byte r(1) by (simp add: read_bits.simps [of packed k] index_at_def Let_def flip: n_def)
  qed
qed

lemma write_bits_spec:
  assumes "(cur + k + 7) div 8 \<le> length packed"
  shows "\<exists>out. write_bits packed k cur val = Ok out \<and> length out = length packed \<and>
    (\<forall>i < 8 * length packed. bit_at out i \<longleftrightarrow> bit_at packed i \<or> (cur \<le> i \<and> i < cur + k \<and> bit val (cur + k - 1 - i)))"
  using assms
proof (induction k arbitrary: packed cur val rule: less_induct)
  case (less k)
  show ?case
  proof (cases "k = 0")
    case True
    then show ?thesis by (auto simp: write_bits.simps [of packed 0])
  next
    case False
    define n where "n = min k (8 - cur mod 8)"
    note c = chunk [OF False n_def]
    let ?b = "packed ! (cur div 8)" and ?avail = "8 - cur mod 8"
    let ?b' = "?b OR push_bit (?avail - n) (word_of_nat (take_bit n (drop_bit (k - n) val)))"
    let ?packed = "packed[cur div 8 := ?b']"
    have byte: "cur div 8 < length packed" using less.prems False by linarith
    have "(cur + n + (k - n) + 7) div 8 \<le> length ?packed" using less.prems c(2) by simp
    then obtain out where out: "write_bits ?packed (k - n) (cur + n) (take_bit (k - n) val) = Ok out" "length out = length ?packed"
      "\<And>i. i < 8 * length ?packed \<Longrightarrow> bit_at out i \<longleftrightarrow> bit_at ?packed i \<or>
        (cur + n \<le> i \<and> i < cur + n + (k - n) \<and> bit (take_bit (k - n) val) (cur + n + (k - n) - 1 - i))"
      using less.IH [of "k - n" "cur + n" ?packed "take_bit (k - n) val"] c(1,2) by auto
    have head: "bit_at ?packed i \<longleftrightarrow> bit_at packed i \<or> (cur \<le> i \<and> i < cur + n \<and> bit val (cur + k - 1 - i))"
      if i: "i < 8 * length packed" for i
    proof (cases "i div 8 = cur div 8")
      case True
      let ?j = "7 - i mod 8"
      have j: "?j < 8" "i mod 8 < 8" by simp_all
      have diff: "i mod 8 + cur = cur mod 8 + i" using True div_mult_mod_eq [of i 8] div_mult_mod_eq [of cur 8] by linarith
      have "bit ?b' ?j \<longleftrightarrow> bit ?b ?j \<or> (?avail - n \<le> ?j \<and> ?j - (?avail - n) < n \<and> bit val (?j - (?avail - n) + (k - n)))"
        using j by (auto simp: bit_or_iff bit_push_bit_iff bit_take_bit_iff bit_drop_bit_eq bit_of_nat_iff possible_bit_word add.commute) linarith+
      moreover have "(?avail - n \<le> ?j \<and> ?j - (?avail - n) < n) \<longleftrightarrow> cur \<le> i \<and> i < cur + n"
        using bit_inside [OF diff c(3) j(2) c(1)] by simp
      moreover have "?j - (?avail - n) + (k - n) = cur + k - 1 - i" if "cur \<le> i" "i < cur + n"
      proof -
        define d where "d = i - cur"
        have d: "i = cur + d" "d < n" unfolding d_def using that by linarith+
        have "x = a + d" if "x + cur = a + i" for x a using that d(1) by simp
        from this [OF diff] have "?j - (?avail - n) + (k - n) = 7 - (cur mod 8 + d) - (?avail - n) + (k - n)" by (simp only:)
        also have "\<dots> = cur + k - 1 - (cur + d)" by (rule bit_distance [OF c(3) d(2) c(2)])
        finally show ?thesis unfolding d(1) [symmetric] .
      qed
      moreover have "bit_at ?packed i = bit ?b' ?j" "bit_at packed i = bit ?b ?j"
        unfolding bit_at_def True nth_list_update_eq [OF byte] by (rule refl)+
      ultimately show ?thesis by metis
    next
      case False
      have "i div 8 = cur div 8" if "cur \<le> i" "i < cur + n"
        using c(4) [of "i - cur"] that less_diff_conv2 [OF that(1), of n] by (simp only: le_add_diff_inverse add.commute)
      then have "\<not> (cur \<le> i \<and> i < cur + n)" using False by blast
      moreover have "bit_at ?packed i = bit_at packed i" using False by (simp add: bit_at_def)
      ultimately show ?thesis by blast
    qed
    have "bit_at out i \<longleftrightarrow> bit_at packed i \<or> (cur \<le> i \<and> i < cur + k \<and> bit val (cur + k - 1 - i))"
      if i: "i < 8 * length packed" for i
    proof -
      have "bit (take_bit (k - n) val) (cur + n + (k - n) - 1 - i) \<longleftrightarrow> bit val (cur + k - 1 - i)" if "cur + n \<le> i" "i < cur + k"
        using that c(2) by (auto simp: bit_take_bit_iff)
      then show ?thesis using out(3) [of i] head [OF i] i c(2) by auto
    qed
    then show ?thesis
      using False byte out(1,2) by (simp add: write_bits.simps [of packed k] index_at_def set_at_def Let_def flip: n_def)
  qed
qed

section \<open>Bands\<close>

lemma concat_samples:
  assumes "length xs = m * n"
  shows "concat (map (sample n xs) [0..<m]) = xs"
proof -
  have "concat (map (sample n xs) [0..<k]) = take (k * n) xs" for k
  proof (induction k)
    case (Suc k)
    have "take (Suc k * n) xs = take (k * n) xs @ sample n xs k"
      using take_add [of "k * n" n xs] by (simp add: sample_def add.commute)
    then show ?case using Suc by simp
  qed simp
  from this [of m] show ?thesis using assms by simp
qed

definition pixel_value :: "nat \<Rightarrow> byte list \<Rightarrow> nat \<Rightarrow> nat" where
  "pixel_value bpp pixels i = be_val (sample bpp pixels i)"

lemma container_value:
  "bpp \<in> {1, 2, 4} \<Longrightarrow> (i + 1) * bpp \<le> length pixels \<Longrightarrow> container bpp pixels i = Ok (pixel_value bpp pixels i)"
  by (auto simp: container_def pixel_value_def sample_def)

lemma bit_stream_loop:
  assumes "0 < bits" "m * bits \<le> 8 * len" "bpp \<in> {1, 2, 4}" "m * bpp \<le> length pixels"
  shows "\<exists>out. try_fold (\<lambda>packed i. and_then (container bpp pixels i) (\<lambda>val. write_bits packed bits (i * bits) (take_bit bits val)))
      (replicate len 0) [0..<m] = Ok out \<and> length out = len \<and>
    (\<forall>i < 8 * len. bit_at out i \<longleftrightarrow> i < m * bits \<and> bit (pixel_value bpp pixels (i div bits)) (bits - 1 - i mod bits))"
  using assms
proof (induction m)
  case 0
  have "\<not> bit_at (replicate len 0) i" if "i < 8 * len" for i
    using that less_mult_imp_div_less [of i len 8] by (simp add: bit_at_def mult.commute)
  then show ?case by simp
next
  case (Suc m)
  obtain out where out: "try_fold (\<lambda>packed i. and_then (container bpp pixels i) (\<lambda>val. write_bits packed bits (i * bits) (take_bit bits val)))
      (replicate len 0) [0..<m] = Ok out" "length out = len"
    "\<And>i. i < 8 * len \<Longrightarrow> bit_at out i \<longleftrightarrow> i < m * bits \<and> bit (pixel_value bpp pixels (i div bits)) (bits - 1 - i mod bits)"
    using Suc by auto
  have "(m * bits + bits + 7) div 8 \<le> length out" using Suc.prems(2) out(2) by simp
  then obtain out' where out': "write_bits out bits (m * bits) (take_bit bits (pixel_value bpp pixels m)) = Ok out'" "length out' = len"
    "\<And>i. i < 8 * len \<Longrightarrow> bit_at out' i \<longleftrightarrow> bit_at out i \<or> (m * bits \<le> i \<and> i < m * bits + bits \<and>
      bit (take_bit bits (pixel_value bpp pixels m)) (m * bits + bits - 1 - i))"
    using write_bits_spec [of "m * bits" bits out "take_bit bits (pixel_value bpp pixels m)"] out(2) by auto
  have pixel: "container bpp pixels m = Ok (pixel_value bpp pixels m)" using Suc.prems by (intro container_value) auto
  have "bit_at out' i \<longleftrightarrow> i < Suc m * bits \<and> bit (pixel_value bpp pixels (i div bits)) (bits - 1 - i mod bits)" if i: "i < 8 * len" for i
  proof -
    consider "i < m * bits" | "m * bits \<le> i" "i < m * bits + bits" | "m * bits + bits \<le> i" by linarith
    then show ?thesis
    proof cases
      case 2
      then obtain j where j: "i = m * bits + j" "j < bits" using le_Suc_ex by (metis add_less_cancel_left)
      have "i div bits = m" "i mod bits = j" using j by simp_all
      then show ?thesis using out'(3) [OF i] out(3) [OF i] 2 j by (auto simp: bit_take_bit_iff)
    qed (use out'(3) [OF i] out(3) [OF i] in auto)
  qed
  then show ?case using out(1) out'(1,2) pixel by (simp add: try_fold_append)
qed

lemma unpack_prefix:
  assumes "0 < bits" "m * bits \<le> 8 * length packed" "bits < 8 * bpp + 1" "bpp \<in> {1, 2, 4}" "bpp = div_ceil bits 8"
    and "\<And>i. i < m * bits \<Longrightarrow> bit_at packed i \<longleftrightarrow> bit (val (i div bits)) (bits - 1 - i mod bits)"
    and "\<And>i. i < m \<Longrightarrow> val i < 2 ^ bits"
  shows "unpack_bitstream bits packed m = Ok (concat (map (\<lambda>i. be_bytes bpp (val i)) [0..<m]))"
proof -
  have one: "read_bits packed bits (i * bits) 0 = Ok (val i)" if i: "i < m" for i
  proof -
    have "(i + 1) * bits \<le> m * bits" using i by (intro mult_le_mono1) simp
    then have fit: "(i * bits + bits + 7) div 8 \<le> length packed" using assms(2) by simp
    obtain r where r: "read_bits packed bits (i * bits) 0 = Ok r"
      "\<And>j. bit r j \<longleftrightarrow> (if j < bits then bit_at packed (i * bits + bits - 1 - j) else bit (0 :: nat) (j - bits))"
      using read_bits_spec [OF fit, of 0] by auto
    have "bit r j \<longleftrightarrow> bit (val i) j" for j
    proof (cases "j < bits")
      case True
      then have p: "i * bits + bits - 1 - j = i * bits + (bits - 1 - j)" "bits - 1 - j < bits" using assms(1) by auto
      then have "i * bits + (bits - 1 - j) < m * bits" using \<open>(i + 1) * bits \<le> m * bits\<close> by simp
      moreover have "(i * bits + (bits - 1 - j)) div bits = i" "(i * bits + (bits - 1 - j)) mod bits = bits - 1 - j" using p(2) by simp_all
      ultimately show ?thesis using r(2) [of j] assms(6) True p(1) by simp
    next
      case False
      have "take_bit bits (val i) = val i" using assms(7) [OF i] by (simp add: take_bit_nat_eq_self)
      then have "\<not> bit (val i) j" using False bit_take_bit_iff [of bits "val i" j] by auto
      then show ?thesis using r(2) [of j] False by simp
    qed
    then have "r = val i" by (simp add: bit_eq_iff)
    then show ?thesis using r(1) by simp
  qed
  have "try_map (\<lambda>i. and_then (read_bits packed bits (i * bits) 0) (\<lambda>val.
            if bpp = 1 \<or> bpp = 2 \<or> bpp = 4 then Ok (be_bytes bpp (take_bit bits val)) else Panic)) [0..<m] =
      Ok (map (\<lambda>i. be_bytes bpp (val i)) [0..<m])"
    using assms(4,7) one by (intro try_map_all_Ok) (auto simp: take_bit_nat_eq_self)
  then show ?thesis by (simp add: unpack_bitstream_def Let_def flip: assms(5))
qed

text \<open>A packed band, at the front of a place that is large enough, is unpacked to its pixels.\<close>

lemma pack_unpack:
  assumes "bits mod 8 \<noteq> 0" "bpp = div_ceil bits 8" "bpp \<in> {1, 2, 4}" "length pixels = m * bpp"
    and "\<And>i. i < m \<Longrightarrow> pixel_value bpp pixels i < 2 ^ bits"
  shows "\<exists>packed. pack_bitstream bits pixels = Ok packed \<and> length packed = div_ceil (m * bits) 8 \<and>
    (\<forall>rest. unpack_bitstream bits (packed @ rest) m = Ok pixels)"
proof -
  have bits: "0 < bits" "0 < bpp" using assms(1,3) by (cases bits; auto)+
  have m: "length pixels div bpp = m" using assms(4) bits(2) by simp
  have fit: "m * bits \<le> 8 * div_ceil (m * bits) 8" by (auto simp: div_ceil_def)
  obtain packed where packed: "pack_bitstream bits pixels = Ok packed" "length packed = div_ceil (m * bits) 8"
    "\<And>i. i < 8 * length packed \<Longrightarrow> bit_at packed i \<longleftrightarrow> i < m * bits \<and> bit (pixel_value bpp pixels (i div bits)) (bits - 1 - i mod bits)"
  proof -
    have "pack_bitstream bits pixels =
        try_fold (\<lambda>packed i. and_then (container bpp pixels i) (\<lambda>val. write_bits packed bits (i * bits) (take_bit bits val)))
          (replicate (div_ceil (m * bits) 8) 0) [0..<m]"
      by (simp only: pack_bitstream_def Let_def assms(2) [symmetric] m)
    then show thesis using bit_stream_loop [OF bits(1) fit assms(3), of pixels] assms(4) that by auto
  qed
  have "unpack_bitstream bits (packed @ rest) m = Ok pixels" for rest
  proof -
    have "bit_at (packed @ rest) i \<longleftrightarrow> bit (pixel_value bpp pixels (i div bits)) (bits - 1 - i mod bits)" if "i < m * bits" for i
    proof -
      have i: "i < 8 * length packed" using that fit packed(2) by linarith
      then have "i div 8 < length packed" by (simp add: less_mult_imp_div_less mult.commute)
      then show ?thesis using packed(3) [OF i] that by (simp add: bit_at_def nth_append)
    qed
    moreover have "bits < 8 * bpp + 1" using assms(2) by (auto simp: div_ceil_def)
    ultimately have "unpack_bitstream bits (packed @ rest) m = Ok (concat (map (\<lambda>i. be_bytes bpp (pixel_value bpp pixels i)) [0..<m]))"
      using assms bits fit packed(2) by (intro unpack_prefix) auto
    moreover have "concat (map (\<lambda>i. be_bytes bpp (pixel_value bpp pixels i)) [0..<m]) = pixels"
    proof -
      have "be_bytes bpp (pixel_value bpp pixels i) = sample bpp pixels i" if "i < m" for i
        using be_bytes_be_val [of "sample bpp pixels i"] block_in [OF that, of bpp] assms(4) by (simp add: pixel_value_def sample_def)
      then have "concat (map (\<lambda>i. be_bytes bpp (pixel_value bpp pixels i)) [0..<m]) = concat (map (sample bpp pixels) [0..<m])"
        by (intro arg_cong [where f = concat] map_cong) auto
      moreover have "concat (map (sample bpp pixels) [0..<m]) = pixels" by (rule concat_samples [OF assms(4)])
      ultimately show ?thesis by simp
    qed
    ultimately show ?thesis by simp
  qed
  then show ?thesis using packed(1,2) by blast
qed

end
