(* ===== verification/Nc_Store.thy ===== *)
theory Nc_Store
  imports Nc_Bits
begin

text \<open>
  Where the samples of uncompressed blocks lie in the image data, and that the writing side of \<open>Nc_Block\<close>
  puts the bytes of a block there without touching those of another block.
\<close>

lemma factor_less: "a * b < u \<Longrightarrow> 0 < b \<Longrightarrow> (a :: nat) < u"
  by (cases b) auto

section \<open>Runs that do not meet\<close>

lemma disjoint_runs:
  assumes step: "\<And>p dst. p \<in> set ps \<Longrightarrow> length dst = m * n \<Longrightarrow>
      f dst p = (Ok (overwrite (pos p * n) (blk p) dst) :: ('a list, 'e) outcome)"
    and shape: "\<And>p. p \<in> set ps \<Longrightarrow> length (blk p) = cnt p * n \<and> pos p + cnt p \<le> m"
    and disj: "\<And>p q i j. p \<in> set ps \<Longrightarrow> q \<in> set ps \<Longrightarrow> i < cnt p \<Longrightarrow> j < cnt q \<Longrightarrow> pos p + i = pos q + j \<Longrightarrow> p = q"
    and "length dst = m * n"
  shows "\<exists>out. try_fold f dst ps = (Ok out :: ('a list, 'e) outcome) \<and> length out = m * n \<and>
    (\<forall>p\<in>set ps. \<forall>i<cnt p. sample n out (pos p + i) = sample n (blk p) i) \<and>
    (\<forall>q<m. (\<forall>p\<in>set ps. \<not> (pos p \<le> q \<and> q < pos p + cnt p)) \<longrightarrow> sample n out q = sample n dst q)"
proof -
  define at where "at q = (SOME p. p \<in> set ps \<and> pos p \<le> q \<and> q < pos p + cnt p)" for q
  have at: "at (pos p + i) = p" if "p \<in> set ps" "i < cnt p" for p i
  proof -
    have "at (pos p + i) \<in> set ps \<and> pos (at (pos p + i)) \<le> pos p + i \<and> pos p + i < pos (at (pos p + i)) + cnt (at (pos p + i))"
      unfolding at_def by (rule someI [of _ p]) (use that in simp)
    then show ?thesis using disj [of "at (pos p + i)" p "pos p + i - pos (at (pos p + i))" i] that by auto
  qed
  obtain out where out: "try_fold f dst ps = (Ok out :: ('a list, 'e) outcome)" "length out = m * n"
    "\<And>q. q < m \<Longrightarrow> sample n out q =
      (if q \<in> (\<Union>p\<in>set ps. {pos p..<pos p + cnt p}) then sample n (blk (at q)) (q - pos (at q)) else sample n dst q)"
    using runs_loop [where ps = ps and m = m and n = n and f = f and pos = pos and blk = blk and cnt = cnt and dst = dst
        and T = "\<lambda>q. sample n (blk (at q)) (q - pos (at q))"] step shape assms(4) at by force
  have "sample n out (pos p + i) = sample n (blk p) i" if "p \<in> set ps" "i < cnt p" for p i
    using out(3) [of "pos p + i"] at [OF that] shape [OF that(1)] that by force
  moreover have "sample n out q = sample n dst q" if "q < m" "\<forall>p\<in>set ps. \<not> (pos p \<le> q \<and> q < pos p + cnt p)" for q
    using out(3) [OF that(1)] that(2) by auto
  ultimately show ?thesis using out(1,2) by blast
qed

lemma copy_run:
  assumes "length bs = k * n" "s + cnt \<le> k" "length dst = m * n" "d + cnt \<le> m" "w = cnt * n" "dd = d * n" "ss = s * n"
  shows "copy_block w bs dst (dd, ss) = Ok (overwrite (d * n) (take (cnt * n) (drop (s * n) bs)) dst)"
    and "length (take (cnt * n) (drop (s * n) bs)) = cnt * n"
    and "i < cnt \<Longrightarrow> sample n (take (cnt * n) (drop (s * n) bs)) i = sample n bs (s + i)"
proof -
  have fits: "s * n + cnt * n \<le> length bs" "d * n + cnt * n \<le> length dst"
    using assms(1-4) by (metis add_mult_distrib mult_le_mono1)+
  then show len: "length (take (cnt * n) (drop (s * n) bs)) = cnt * n" by auto
  show "copy_block w bs dst (dd, ss) = Ok (overwrite (d * n) (take (cnt * n) (drop (s * n) bs)) dst)"
    using fits len by (simp add: assms(5-7) blit_def)
  assume "i < cnt"
  then have "i * n + n \<le> cnt * n" by (rule block_in)
  then have "min n (cnt * n - i * n) = n" by simp
  then show "sample n (take (cnt * n) (drop (s * n) bs)) i = sample n bs (s + i)"
    by (simp add: sample_def drop_take add_mult_distrib add.commute)
qed

section \<open>Layouts\<close>

definition block_total :: "'a block_layout_scheme \<Rightarrow> nat" where
  "block_total l = nbpc l * nbpr l"

definition block_pixels :: "'a block_layout_scheme \<Rightarrow> nat" where
  "block_pixels l = nppbv l * nppbh l"

definition layout_ok :: "'a block_layout_scheme \<Rightarrow> bool" where
  "layout_ok l \<longleftrightarrow> 0 < nppbh l \<and> 0 < nppbv l \<and> 0 < nbands l \<and> 0 < nbpp l \<and>
    nbpr l = div_ceil (image_cols l) (nppbh l) \<and> nbpc l = div_ceil (image_rows l) (nppbv l) \<and>
    image_rows l + nppbv l \<le> 2 ^ 32 \<and> image_cols l + nppbh l \<le> 2 ^ 32 \<and>
    block_total l * block_pixels l * nbands l * (8 * bytes_per_pixel l) < U64"

definition on_grid :: "'a block_layout_scheme \<Rightarrow> nat \<Rightarrow> nat \<Rightarrow> bool" where
  "on_grid l R C \<longleftrightarrow> R < nbpc l \<and> C < nbpr l"

definition block_rows :: "'a block_layout_scheme \<Rightarrow> nat \<Rightarrow> nat" where
  "block_rows l R = min (nppbv l) (image_rows l - R * nppbv l)"

definition block_cols :: "'a block_layout_scheme \<Rightarrow> nat \<Rightarrow> nat" where
  "block_cols l C = min (nppbh l) (image_cols l - C * nppbh l)"

lemma dimension_word:
  assumes "k < div_ceil limit n" "0 < n" "limit + n \<le> 2 ^ 32"
  shows "(if add32 (mul32 k n) n > limit then sub32 limit (mul32 k n) else n) = min n (limit - k * n)" "k * n < limit"
proof -
  show k: "k * n < limit" using assms(1,2) by (simp add: less_div_ceil)
  then have "mul32 k n = k * n" "add32 (k * n) n = k * n + n" "sub32 limit (k * n) = limit - k * n"
    using assms(2,3) by (auto simp: mul32_def add32_def sub32_id)
  then show "(if add32 (mul32 k n) n > limit then sub32 limit (mul32 k n) else n) = min n (limit - k * n)"
    using k by (auto simp: min_def)
qed

lemma dimensions:
  assumes "layout_ok l" "on_grid l R C"
  shows "actual_block_dimensions l R C = (block_rows l R, block_cols l C)"
    and "block_rows l R \<le> nppbv l" "block_cols l C \<le> nppbh l" "0 < block_rows l R" "0 < block_cols l C"
  using assms dimension_word [of R "image_rows l" "nppbv l"] dimension_word [of C "image_cols l" "nppbh l"]
  by (auto simp: layout_ok_def on_grid_def actual_block_dimensions_def Let_def block_rows_def block_cols_def)

lemma block_index_less:
  assumes "on_grid l R C"
  shows "R * nbpr l + C < block_total l"
  using mult_add_less assms by (simp add: on_grid_def block_total_def)

lemma sizes:
  assumes "layout_ok l" "on_grid l R C"
  shows "block_total l * block_pixels l * nbands l * bytes_per_pixel l < U64"
    and "block_index l R C = R * nbpr l + C" and "0 < bytes_per_pixel l" "0 < block_total l"
proof -
  have big: "block_total l * block_pixels l * nbands l * (8 * bytes_per_pixel l) < U64" using assms(1) by (simp add: layout_ok_def)
  show bpp: "0 < bytes_per_pixel l" using assms(1) by (auto simp: layout_ok_def bytes_per_pixel_def div_ceil_def intro: ccontr)
  show blk: "0 < block_total l" using block_index_less [OF assms(2)] by simp
  have "block_total l * block_pixels l * nbands l * bytes_per_pixel l * 1 \<le> block_total l * block_pixels l * nbands l * bytes_per_pixel l * 8"
    by (rule mult_le_mono2) simp
  then show "block_total l * block_pixels l * nbands l * bytes_per_pixel l < U64" using big by (simp add: algebra_simps)
  have "1 \<le> block_pixels l * nbands l * (8 * bytes_per_pixel l)"
    using assms(1) bpp by (simp add: layout_ok_def block_pixels_def Suc_leI)
  then have "block_total l * 1 \<le> block_total l * (block_pixels l * nbands l * (8 * bytes_per_pixel l))" by (rule mult_le_mono2)
  then have "block_total l < U64" using big unfolding mult_1_right mult.assoc by (rule order.strict_trans1)
  then show "block_index l R C = R * nbpr l + C"
    using block_index_less [OF assms(2)] by (simp add: block_index_def)
qed

section \<open>Places of samples\<close>

fun place :: "'a block_layout_scheme \<Rightarrow> nat \<Rightarrow> nat \<Rightarrow> nat \<times> nat \<times> nat \<Rightarrow> nat" where
  "place l R C (r, c, b) =
    (if imode l = ModeS then (b * block_total l + (R * nbpr l + C)) * block_pixels l + (r * nppbh l + c)
     else (R * nbpr l + C) * (block_pixels l * nbands l) + sample_index (imode l) (nppbv l) (nppbh l) (nbands l) (r, c, b))"

definition total_samples :: "'a block_layout_scheme \<Rightarrow> nat" where
  "total_samples l = block_total l * block_pixels l * nbands l"

lemma place_less:
  assumes "on_grid l R C" "r < nppbv l" "c < nppbh l" "b < nbands l"
  shows "place l R C (r, c, b) < total_samples l"
proof (cases "imode l = ModeS")
  case True
  have "b * block_total l + (R * nbpr l + C) < nbands l * block_total l"
    by (rule mult_add_less [OF assms(4) block_index_less [OF assms(1)]])
  moreover have "r * nppbh l + c < block_pixels l" using mult_add_less [OF assms(2,3)] by (simp add: block_pixels_def)
  ultimately have "(b * block_total l + (R * nbpr l + C)) * block_pixels l + (r * nppbh l + c) < nbands l * block_total l * block_pixels l"
    by (rule mult_add_less)
  then show ?thesis using True by (simp add: total_samples_def algebra_simps)
next
  case False
  have "sample_index (imode l) (nppbv l) (nppbh l) (nbands l) (r, c, b) < block_pixels l * nbands l"
    using sample_index_less [OF assms(2-4)] by (simp add: block_pixels_def)
  from mult_add_less [OF block_index_less [OF assms(1)] this] show ?thesis
    using False by (simp add: total_samples_def mult.assoc)
qed

lemma place_inj:
  assumes "on_grid l R C" "r < nppbv l" "c < nppbh l" "b < nbands l"
    and "on_grid l R' C'" "r' < nppbv l" "c' < nppbh l" "b' < nbands l"
    and eq: "place l R C (r, c, b) = place l R' C' (r', c', b')"
  shows "R = R' \<and> C = C' \<and> (r, c, b) = (r', c', b')"
proof -
  have idx: "R = R' \<and> C = C'" if "R * nbpr l + C = R' * nbpr l + C'"
    using that mult_add_inj assms(1,5) unfolding on_grid_def by blast
  have lt: "R * nbpr l + C < block_total l" "R' * nbpr l + C' < block_total l" using assms(1,5) block_index_less by blast+
  show ?thesis
  proof (cases "imode l = ModeS")
    case True
    have px: "r * nppbh l + c < block_pixels l" "r' * nppbh l + c' < block_pixels l"
      using mult_add_less [OF assms(2,3)] mult_add_less [OF assms(6,7)] by (simp_all add: block_pixels_def)
    have "(b * block_total l + (R * nbpr l + C)) * block_pixels l + (r * nppbh l + c) =
        (b' * block_total l + (R' * nbpr l + C')) * block_pixels l + (r' * nppbh l + c')" using eq True by simp
    from mult_add_inj [OF this px]
    have "b * block_total l + (R * nbpr l + C) = b' * block_total l + (R' * nbpr l + C')" "r * nppbh l + c = r' * nppbh l + c'" by auto
    from mult_add_inj [OF this(1) lt] mult_add_inj [OF this(2) assms(3,7)] show ?thesis using idx by auto
  next
    case False
    let ?i = "sample_index (imode l) (nppbv l) (nppbh l) (nbands l) (r, c, b)"
      and ?i' = "sample_index (imode l) (nppbv l) (nppbh l) (nbands l) (r', c', b')"
    have px: "?i < block_pixels l * nbands l" "?i' < block_pixels l * nbands l"
      using sample_index_less [OF assms(2-4)] sample_index_less [OF assms(6-8)] by (simp_all add: block_pixels_def)
    have "(R * nbpr l + C) * (block_pixels l * nbands l) + ?i = (R' * nbpr l + C') * (block_pixels l * nbands l) + ?i'"
      using eq False by simp
    from mult_add_inj [OF this px] show ?thesis
      using idx sample_index_inj [OF _ assms(2-4,6-8)] by blast
  qed
qed

text \<open>The samples that the writing loops copy in one go.\<close>

lemma place_run:
  "imode l \<noteq> ModeP \<Longrightarrow> place l R C (r, 0, b) + c = place l R C (r, c, b)"
  "imode l \<noteq> ModeP \<Longrightarrow> sample_index (imode l) rows cols bands (r, 0, b) + c = sample_index (imode l) rows cols bands (r, c, b)"
  "imode l = ModeP \<Longrightarrow> place l R C (r, 0, 0) + (c * nbands l + b) = place l R C (r, c, b)"
  "imode l = ModeP \<Longrightarrow> sample_index (imode l) rows cols bands (r, 0, 0) + (c * bands + b) = sample_index (imode l) rows cols bands (r, c, b)"
  by (cases "imode l"; simp add: algebra_simps)+

declare place.simps [simp del]

section \<open>Writing whole bytes\<close>

text \<open>The block at \<open>(R, C)\<close> lies in the data as \<open>bs\<close> does in a buffer of its own.\<close>

definition stored :: "'a block_layout_scheme \<Rightarrow> nat \<Rightarrow> nat \<Rightarrow> byte list \<Rightarrow> byte list \<Rightarrow> bool" where
  "stored l R C bs encoded \<longleftrightarrow> (\<forall>r<block_rows l R. \<forall>c<block_cols l C. \<forall>b<nbands l.
    sample (bytes_per_pixel l) encoded (place l R C (r, c, b)) =
    sample (bytes_per_pixel l) bs (sample_index (imode l) (block_rows l R) (block_cols l C) (nbands l) (r, c, b)))"

definition elsewhere :: "'a block_layout_scheme \<Rightarrow> nat \<Rightarrow> nat \<Rightarrow> byte list \<Rightarrow> byte list \<Rightarrow> bool" where
  "elsewhere l R C encoded out \<longleftrightarrow> (\<forall>q<total_samples l.
    (\<forall>r<block_rows l R. \<forall>c<block_cols l C. \<forall>b<nbands l. q \<noteq> place l R C (r, c, b)) \<longrightarrow>
    sample (bytes_per_pixel l) out q = sample (bytes_per_pixel l) encoded q)"

abbreviation block_samples :: "'a block_layout_scheme \<Rightarrow> nat \<Rightarrow> nat \<Rightarrow> nat" where
  "block_samples l R C \<equiv> block_rows l R * block_cols l C * nbands l"

lemma write_rows:
  assumes l: "layout_ok l" "on_grid l R C" "imode l \<noteq> ModeP"
    and len: "length bs = block_samples l R C * bytes_per_pixel l" "length encoded = total_samples l * bytes_per_pixel l"
    and rb: "\<And>p. p \<in> set ps \<Longrightarrow> fst (rb p) < block_rows l R \<and> snd (rb p) < nbands l" "inj_on rb (set ps)"
      "\<And>r b. r < block_rows l R \<Longrightarrow> b < nbands l \<Longrightarrow> (r, b) \<in> rb ` set ps"
    and off: "\<And>p r b. p \<in> set ps \<Longrightarrow> rb p = (r, b) \<Longrightarrow> dd p = place l R C (r, 0, b) * bytes_per_pixel l \<and>
      ss p = sample_index (imode l) (block_rows l R) (block_cols l C) (nbands l) (r, 0, b) * bytes_per_pixel l"
    and w: "w = block_cols l C * bytes_per_pixel l"
  shows "\<exists>out. try_fold (\<lambda>out p. copy_block w bs out (dd p, ss p)) encoded ps = (Ok out :: (_, codec_error) outcome) \<and>
    length out = total_samples l * bytes_per_pixel l \<and> stored l R C bs out \<and> elsewhere l R C encoded out"
proof -
  let ?n = "bytes_per_pixel l" and ?rows = "block_rows l R" and ?cols = "block_cols l C"
  let ?src = "\<lambda>p. sample_index (imode l) ?rows ?cols (nbands l) (fst (rb p), 0, snd (rb p))"
  let ?pos = "\<lambda>p. place l R C (fst (rb p), 0, snd (rb p))"
  let ?blk = "\<lambda>p. take (?cols * ?n) (drop (?src p * ?n) bs)"
  note d = dimensions [OF l(1,2)]
  have run: "?pos p + ?cols \<le> total_samples l" "?src p + ?cols \<le> block_samples l R C" if p: "p \<in> set ps" for p
  proof -
    have "fst (rb p) < nppbv l" "?cols - 1 < nppbh l" using rb(1) [OF p] d by auto
    from place_less [OF l(2) this] rb(1) [OF p] have "place l R C (fst (rb p), ?cols - 1, snd (rb p)) < total_samples l" by blast
    then have "?pos p + (?cols - 1) < total_samples l" unfolding place_run(1) [OF l(3)] .
    then show "?pos p + ?cols \<le> total_samples l" using d(5) by linarith
    have "?cols - 1 < ?cols" using d(5) by simp
    from sample_index_less [OF _ this] rb(1) [OF p]
    have "?src p + (?cols - 1) < block_samples l R C" unfolding place_run(2) [OF l(3)] by blast
    then show "?src p + ?cols \<le> block_samples l R C" using d(5) by linarith
  qed
  note copy = copy_run [OF len(1) run(2) _ run(1) w]
  have "\<exists>out. try_fold (\<lambda>out p. copy_block w bs out (dd p, ss p)) encoded ps = (Ok out :: (_, codec_error) outcome) \<and>
      length out = total_samples l * ?n \<and> (\<forall>p\<in>set ps. \<forall>i<?cols. sample ?n out (?pos p + i) = sample ?n (?blk p) i) \<and>
      (\<forall>q<total_samples l. (\<forall>p\<in>set ps. \<not> (?pos p \<le> q \<and> q < ?pos p + ?cols)) \<longrightarrow> sample ?n out q = sample ?n encoded q)"
  proof (rule disjoint_runs)
    fix p dst assume p: "p \<in> set ps"
    show "copy_block w bs dst (dd p, ss p) = Ok (overwrite (?pos p * ?n) (?blk p) dst)" if "length dst = total_samples l * ?n" for dst
      using copy(1) [OF p that p] off [OF p prod.collapse [symmetric]] by blast
    show "length (?blk p) = ?cols * ?n \<and> ?pos p + ?cols \<le> total_samples l" using copy(2) [OF p len(2) p] off [OF p prod.collapse [symmetric]] run(1) [OF p] by blast
  next
    fix p q i j assume p: "p \<in> set ps" "q \<in> set ps" and ij: "i < ?cols" "j < ?cols" "?pos p + i = ?pos q + j"
    have "place l R C (fst (rb p), i, snd (rb p)) = place l R C (fst (rb q), j, snd (rb q))" using ij(3) unfolding place_run(1) [OF l(3)] .
    then have "rb p = rb q"
      using place_inj [OF l(2) _ _ _ l(2), of "fst (rb p)" i "snd (rb p)" "fst (rb q)" j "snd (rb q)"] rb(1) [OF p(1)] rb(1) [OF p(2)] ij d
      by (auto simp: prod_eq_iff)
    then show "p = q" using rb(2) p by (simp add: inj_on_def)
  qed (rule len(2))
  then obtain out where out: "try_fold (\<lambda>out p. copy_block w bs out (dd p, ss p)) encoded ps = (Ok out :: (_, codec_error) outcome)"
    "length out = total_samples l * ?n" "\<And>p i. p \<in> set ps \<Longrightarrow> i < ?cols \<Longrightarrow> sample ?n out (?pos p + i) = sample ?n (?blk p) i"
    "\<And>q. q < total_samples l \<Longrightarrow> \<forall>p\<in>set ps. \<not> (?pos p \<le> q \<and> q < ?pos p + ?cols) \<Longrightarrow> sample ?n out q = sample ?n encoded q" by blast
  have "stored l R C bs out" unfolding stored_def
  proof (intro allI impI)
    fix r c b assume rcb: "r < ?rows" "c < ?cols" "b < nbands l"
    obtain p where p: "p \<in> set ps" "rb p = (r, b)" using rb(3) [OF rcb(1,3)] by auto
    have "sample ?n out (?pos p + c) = sample ?n bs (?src p + c)"
      using out(3) [OF p(1) rcb(2)] copy(3) [OF p(1) len(2) p(1) _ _ rcb(2)] off [OF p(1) prod.collapse [symmetric]] by metis
    then show "sample ?n out (place l R C (r, c, b)) = sample ?n bs (sample_index (imode l) ?rows ?cols (nbands l) (r, c, b))"
      unfolding place_run(1,2) [OF l(3)] p(2) by simp
  qed
  moreover have "elsewhere l R C encoded out" unfolding elsewhere_def
  proof (intro allI impI)
    fix q assume q: "q < total_samples l" and away: "\<forall>r<?rows. \<forall>c<?cols. \<forall>b<nbands l. q \<noteq> place l R C (r, c, b)"
    have "\<not> (?pos p \<le> q \<and> q < ?pos p + ?cols)" if p: "p \<in> set ps" for p
    proof
      assume in_run: "?pos p \<le> q \<and> q < ?pos p + ?cols"
      then have "q = ?pos p + (q - ?pos p)" "q - ?pos p < ?cols" by linarith+
      then show False using away rb(1) [OF p] place_run(1) [OF l(3)] by metis
    qed
    then show "sample ?n out q = sample ?n encoded q" using out(4) [OF q] by blast
  qed
  ultimately show ?thesis using out(1,2) by blast
qed

text \<open>One row of interleaved pixels at a time.\<close>

lemma write_pixel_rows:
  assumes l: "layout_ok l" "on_grid l R C" "imode l = ModeP"
    and len: "length bs = block_samples l R C * bytes_per_pixel l" "length encoded = total_samples l * bytes_per_pixel l"
    and off: "\<And>r. r < block_rows l R \<Longrightarrow> dd r = place l R C (r, 0, 0) * bytes_per_pixel l \<and>
      ss r = sample_index (imode l) (block_rows l R) (block_cols l C) (nbands l) (r, 0, 0) * bytes_per_pixel l"
    and w: "w = block_cols l C * nbands l * bytes_per_pixel l"
  shows "\<exists>out. try_fold (\<lambda>out r. copy_block w bs out (dd r, ss r)) encoded [0..<block_rows l R] = (Ok out :: (_, codec_error) outcome) \<and>
    length out = total_samples l * bytes_per_pixel l \<and> stored l R C bs out \<and> elsewhere l R C encoded out"
proof -
  let ?n = "bytes_per_pixel l" and ?rows = "block_rows l R" and ?cols = "block_cols l C" and ?k = "block_cols l C * nbands l"
  let ?src = "\<lambda>r. sample_index (imode l) ?rows ?cols (nbands l) (r, 0, 0)" and ?pos = "\<lambda>r. place l R C (r, 0, 0)"
  let ?blk = "\<lambda>r. take (?k * ?n) (drop (?src r * ?n) bs)"
  note d = dimensions [OF l(1,2)]
  have bands: "0 < nbands l" using l(1) by (simp add: layout_ok_def)
  have last: "(?cols - 1) * nbands l + (nbands l - 1) = ?k - 1" "0 < ?k"
    using bands d(5) by (cases ?cols; cases "nbands l"; simp)+
  have run: "?pos r + ?k \<le> total_samples l" "?src r + ?k \<le> block_samples l R C" if r: "r < ?rows" for r
  proof -
    have "place l R C (r, ?cols - 1, nbands l - 1) < total_samples l"
      using r d bands by (intro place_less [OF l(2)]) auto
    then have "?pos r + (?k - 1) < total_samples l" using place_run(3) [OF l(3), of R C r "?cols - 1" "nbands l - 1"] last(1) by simp
    then show "?pos r + ?k \<le> total_samples l" using last(2) by linarith
    have "sample_index (imode l) ?rows ?cols (nbands l) (r, ?cols - 1, nbands l - 1) < block_samples l R C"
      using r d(5) bands by (intro sample_index_less) auto
    then have "?src r + (?k - 1) < block_samples l R C"
      using place_run(4) [OF l(3), of ?rows ?cols "nbands l" r "?cols - 1" "nbands l - 1"] last(1) by simp
    then show "?src r + ?k \<le> block_samples l R C" using last(2) by linarith
  qed
  note copy = copy_run [OF len(1) run(2) _ run(1) w]
  have split: "\<exists>c<?cols. \<exists>b<nbands l. i = c * nbands l + b" if i: "i < ?k" for i
    using mult_add_cases [OF i] by metis
  have at: "?pos r + (c * nbands l + b) = place l R C (r, c, b)" for r c b by (rule place_run(3) [OF l(3)])
  have "\<exists>out. try_fold (\<lambda>out r. copy_block w bs out (dd r, ss r)) encoded [0..<?rows] = (Ok out :: (_, codec_error) outcome) \<and>
      length out = total_samples l * ?n \<and> (\<forall>r\<in>set [0..<?rows]. \<forall>i<?k. sample ?n out (?pos r + i) = sample ?n (?blk r) i) \<and>
      (\<forall>q<total_samples l. (\<forall>r\<in>set [0..<?rows]. \<not> (?pos r \<le> q \<and> q < ?pos r + ?k)) \<longrightarrow> sample ?n out q = sample ?n encoded q)"
  proof (rule disjoint_runs)
    fix r dst assume "r \<in> set [0..<?rows]"
    then have r: "r < ?rows" by simp
    show "copy_block w bs dst (dd r, ss r) = Ok (overwrite (?pos r * ?n) (?blk r) dst)" if "length dst = total_samples l * ?n" for dst
      using copy(1) [OF r that r] off [OF r] by blast
    show "length (?blk r) = ?k * ?n \<and> ?pos r + ?k \<le> total_samples l" using copy(2) [OF r len(2) r] off [OF r] run(1) [OF r] by blast
  next
    fix r r' i j assume r: "r \<in> set [0..<?rows]" "r' \<in> set [0..<?rows]" and ij: "i < ?k" "j < ?k" "?pos r + i = ?pos r' + j"
    obtain c b c' b' where cb: "c < ?cols" "b < nbands l" "i = c * nbands l + b" "c' < ?cols" "b' < nbands l" "j = c' * nbands l + b'"
      using split [OF ij(1)] split [OF ij(2)] by metis
    have "place l R C (r, c, b) = place l R C (r', c', b')" using ij(3) unfolding cb(3,6) at .
    then show "r = r'" using place_inj [OF l(2) _ _ _ l(2), of r c b r' c' b'] r cb d by auto
  qed (rule len(2))
  then obtain out where out: "try_fold (\<lambda>out r. copy_block w bs out (dd r, ss r)) encoded [0..<?rows] = (Ok out :: (_, codec_error) outcome)"
    "length out = total_samples l * ?n" and runs: "\<forall>r\<in>set [0..<?rows]. \<forall>i<?k. sample ?n out (?pos r + i) = sample ?n (?blk r) i"
    and rest: "\<forall>q<total_samples l. (\<forall>r\<in>set [0..<?rows]. \<not> (?pos r \<le> q \<and> q < ?pos r + ?k)) \<longrightarrow> sample ?n out q = sample ?n encoded q"
    by blast
  have run_at: "sample ?n out (?pos r + i) = sample ?n (?blk r) i" if "r < ?rows" "i < ?k" for r i using bspec [OF runs, of r] that by simp
  have rest_at: "sample ?n out q = sample ?n encoded q" if "q < total_samples l" "\<forall>r<?rows. \<not> (?pos r \<le> q \<and> q < ?pos r + ?k)" for q
    by (rule mp [OF mp [OF spec [OF rest, of q] that(1)]]) (use that(2) in \<open>simp add: atLeast0LessThan\<close>)
  have "stored l R C bs out" unfolding stored_def
  proof (intro allI impI)
    fix r c b assume rcb: "r < ?rows" "c < ?cols" "b < nbands l"
    have i: "c * nbands l + b < ?k" using mult_add_less [OF rcb(2,3)] .
    have "sample ?n out (?pos r + (c * nbands l + b)) = sample ?n bs (?src r + (c * nbands l + b))"
      using run_at [OF rcb(1) i] copy(3) [OF rcb(1) len(2) rcb(1) _ _ i] off [OF rcb(1)] by metis
    then show "sample ?n out (place l R C (r, c, b)) = sample ?n bs (sample_index (imode l) ?rows ?cols (nbands l) (r, c, b))"
      unfolding at place_run(4) [OF l(3)] .
  qed
  moreover have "elsewhere l R C encoded out" unfolding elsewhere_def
  proof (intro allI impI)
    fix q assume q: "q < total_samples l" and away: "\<forall>r<?rows. \<forall>c<?cols. \<forall>b<nbands l. q \<noteq> place l R C (r, c, b)"
    have "\<not> (?pos r \<le> q \<and> q < ?pos r + ?k)" if r: "r < ?rows" for r
    proof
      assume in_run: "?pos r \<le> q \<and> q < ?pos r + ?k"
      then have i: "q = ?pos r + (q - ?pos r)" "q - ?pos r < ?k" by linarith+
      from split [OF i(2)] obtain c b where "c < ?cols" "b < nbands l" "q = ?pos r + (c * nbands l + b)" using i(1) by metis
      then show False using away r unfolding at by blast
    qed
    then show "sample ?n out q = sample ?n encoded q" using rest_at [OF q] by blast
  qed
  ultimately show ?thesis using out(1,2) by blast
qed

definition write_block :: "'a block_layout_scheme \<Rightarrow> nat \<Rightarrow> nat \<Rightarrow> byte list \<Rightarrow> byte list \<Rightarrow> (byte list, codec_error) outcome" where
  "write_block l R C bs encoded =
    (if imode l = ModeS then write_block_mode_s l R C bs (block_rows l R) (block_cols l C) encoded
     else write_block_mode_bpr l R C bs (block_rows l R) (block_cols l C) encoded)"

lemma whole_bytes:
  assumes l: "layout_ok l" "on_grid l R C" and whole: "\<not> is_bit_packed l"
  shows "packed_band_size_bytes l = block_pixels l * bytes_per_pixel l"
    and "block_size_bytes l = block_pixels l * nbands l * bytes_per_pixel l"
    and "block_index l R C * block_size_bytes l = (R * nbpr l + C) * (block_pixels l * nbands l) * bytes_per_pixel l"
    and "b < nbands l \<Longrightarrow> band_block_offset l R C b = (b * block_total l + (R * nbpr l + C)) * block_pixels l * bytes_per_pixel l"
    and "imode l = ModeS \<Longrightarrow> b < nbands l \<Longrightarrow> band_block_offset l R C b = place l R C (0, 0, b) * bytes_per_pixel l"
proof -
  let ?n = "bytes_per_pixel l"
  have n: "nbpp l = 8 * ?n" using whole by (auto simp: bytes_per_pixel_def is_bit_packed_def div_ceil_def)
  have big: "block_total l * block_pixels l * nbands l * (8 * ?n) < U64" and bands: "0 < nbands l" using l(1) by (simp_all add: layout_ok_def)
  have blk: "0 < block_total l" using sizes(4) [OF l] .
  have "block_pixels l * nbands l * (8 * ?n) * block_total l < U64" using big by (simp only: ac_simps)
  then have block: "block_pixels l * nbands l * (8 * ?n) < U64" using blk by (rule factor_less)
  then have "block_pixels l * (8 * ?n) * nbands l < U64" by (simp only: ac_simps)
  then have "block_pixels l * (8 * ?n) < U64" using bands by (rule factor_less)
  moreover have pixels: "nppbh l * nppbv l * nbpp l = block_pixels l * (8 * ?n)" by (simp add: n block_pixels_def mult.commute)
  ultimately show band: "packed_band_size_bytes l = block_pixels l * ?n"
    unfolding packed_band_size_bytes_def pixels by (simp add: div_ceil_def mult.left_commute [of _ 8])
  have "block_pixels l * nbands l * ?n * 8 < U64" using block by (simp only: ac_simps)
  then have "block_pixels l * nbands l * ?n < U64" by (rule factor_less) simp
  then show size: "block_size_bytes l = block_pixels l * nbands l * ?n"
    by (simp add: block_size_bytes_def band algebra_simps)
  show "block_index l R C * block_size_bytes l = (R * nbpr l + C) * (block_pixels l * nbands l) * ?n"
    by (simp add: size sizes(2) [OF l] mult.assoc)
  assume b: "b < nbands l"
  have eq: "b * (nbpr l * nbpc l) * (block_pixels l * ?n) + (R * nbpr l + C) * (block_pixels l * ?n) =
      (b * block_total l + (R * nbpr l + C)) * block_pixels l * ?n" by (simp add: block_total_def algebra_simps)
  have slot: "b * block_total l + (R * nbpr l + C) < nbands l * block_total l" by (rule mult_add_less [OF b block_index_less [OF l(2)]])
  have "(b * block_total l + (R * nbpr l + C)) * block_pixels l * ?n \<le> nbands l * block_total l * block_pixels l * ?n"
    using slot by (intro mult_le_mono1) simp
  also have "\<dots> < U64" using sizes(1) [OF l] by (simp add: algebra_simps)
  finally show off: "band_block_offset l R C b = (b * block_total l + (R * nbpr l + C)) * block_pixels l * ?n"
    unfolding band_block_offset_def band sizes(2) [OF l] eq by simp
  assume "imode l = ModeS"
  then show "band_block_offset l R C b = place l R C (0, 0, b) * ?n" unfolding off by (simp add: place.simps)
qed

end
