(* ===== verification/Nc_Plain.thy ===== *)
theory Nc_Plain
  imports Nc_Store
begin

text \<open>
  Blocks of whole bytes: writing a block stores its samples where the standard puts them, and reading one,
  from any backing of the bytes, finds them there.
\<close>

declare copy_block.simps [simp del]

section \<open>Writing a block\<close>

lemma place_offset:
  assumes "layout_ok l" "on_grid l R C" "r < nppbv l" "c < nppbh l" "b < nbands l" "x = place l R C (r, c, b) * bytes_per_pixel l"
  shows "wrap64 x = x"
  using index_offset_less [OF place_less [OF assms(2-5)]] sizes(1) [OF assms(1,2)] assms(6) by (simp add: total_samples_def)

lemma block_fits:
  assumes "layout_ok l" "on_grid l R C"
  shows "block_samples l R C \<le> total_samples l" "block_samples l R C * bytes_per_pixel l < U64"
    "block_rows l R * block_cols l C * bytes_per_pixel l < U64" "block_rows l R * block_cols l C < U64"
proof -
  note d = dimensions [OF assms] and z = sizes [OF assms]
  have bands: "0 < nbands l" using assms(1) by (simp add: layout_ok_def)
  have "block_samples l R C \<le> nppbv l * nppbh l * nbands l" using d by (intro mult_le_mono) auto
  also have "\<dots> = 1 * (block_pixels l * nbands l)" by (simp add: block_pixels_def)
  also have "\<dots> \<le> block_total l * (block_pixels l * nbands l)" using z(4) by (intro mult_le_mono1) simp
  finally show le: "block_samples l R C \<le> total_samples l" by (simp add: total_samples_def mult.assoc)
  have "block_samples l R C * bytes_per_pixel l \<le> total_samples l * bytes_per_pixel l" using le by (rule mult_le_mono1)
  also have "\<dots> < U64" using z(1) by (simp add: total_samples_def)
  finally show bytes: "block_samples l R C * bytes_per_pixel l < U64" .
  then have "block_rows l R * block_cols l C * bytes_per_pixel l * nbands l < U64" by (simp only: ac_simps)
  then show one: "block_rows l R * block_cols l C * bytes_per_pixel l < U64" using bands by (rule factor_less)
  then show "block_rows l R * block_cols l C < U64" using z(3) by (rule factor_less)
qed

lemma source_offset:
  assumes "layout_ok l" "on_grid l R C" "r < block_rows l R" "c < block_cols l C" "b < nbands l"
    "x = sample_index mode (block_rows l R) (block_cols l C) (nbands l) (r, c, b) * bytes_per_pixel l"
  shows "wrap64 x = x"
  using index_offset_less [OF sample_index_less [OF assms(3-5)] block_fits(2) [OF assms(1,2)]] assms(6) by simp

lemma write_plain:
  assumes l: "layout_ok l" "on_grid l R C" and whole: "\<not> is_bit_packed l"
    and len: "length bs = block_samples l R C * bytes_per_pixel l" "length encoded = total_samples l * bytes_per_pixel l"
  shows "\<exists>out. write_block l R C bs encoded = Ok out \<and>
    length out = total_samples l * bytes_per_pixel l \<and> stored l R C bs out \<and> elsewhere l R C encoded out"
proof -
  let ?n = "bytes_per_pixel l" and ?rows = "block_rows l R" and ?cols = "block_cols l C"
  note d = dimensions [OF l] and f = block_fits [OF l] and w = whole_bytes [OF l whole]
  have bands: "0 < nbands l" using l(1) by (simp add: layout_ok_def)
  have zero: "0 < nppbh l" "0 < ?cols" "0 < nppbv l" "0 < ?rows" using l(1) d by (auto simp: layout_ok_def)
  have band_bytes: "wrap64 (?rows * ?cols * ?n) = ?rows * ?cols * ?n" using f(3) by simp
  have "?cols * ?n * ?rows < U64" using f(3) by (simp only: ac_simps)
  then have width: "wrap64 (?cols * ?n) = ?cols * ?n" using zero(4) factor_less by simp
  have "?cols * (nbands l * ?n) * ?rows < U64" using f(2) by (simp only: ac_simps)
  then have pixel_width: "wrap64 (?cols * (nbands l * ?n)) = ?cols * nbands l * ?n" using zero(4) factor_less by (simp add: mult.assoc)
  have dst: "wrap64 x = x" if "r < ?rows" "b < nbands l" "x = place l R C (r, 0, b) * ?n" for r b x
    using place_offset [OF l _ zero(1) that(2,3)] that(1) d by simp
  have src: "wrap64 x = x" if "r < ?rows" "b < nbands l" "x = sample_index (imode l) ?rows ?cols (nbands l) (r, 0, b) * ?n" for r b x
    using source_offset [OF l that(1) zero(2) that(2,3)] .
  have start: "wrap64 (block_index l R C * block_size_bytes l) = (R * nbpr l + C) * (block_pixels l * nbands l) * ?n" if "imode l \<noteq> ModeS"
  proof -
    have "wrap64 (place l R C (0, 0, 0) * ?n) = place l R C (0, 0, 0) * ?n" using dst [OF zero(4) bands refl] .
    moreover have "place l R C (0, 0, 0) = (R * nbpr l + C) * (block_pixels l * nbands l)"
      using that by (cases "imode l") (simp_all add: place.simps)
    ultimately show ?thesis by (simp add: w(3))
  qed
  show ?thesis
  proof (cases "imode l")
    case ModeS
    have "try_fold (\<lambda>out (band, row).
            copy_block (wrap64 (?cols * ?n)) bs out
              (wrap64 (band_block_offset l R C band + row * nppbh l * ?n),
               wrap64 (band * wrap64 (?rows * ?cols * ?n) + row * ?cols * ?n))) encoded (band_rows (nbands l) ?rows) =
        (try_fold (\<lambda>out p. copy_block (?cols * ?n) bs out (place l R C (snd p, 0, fst p) * ?n,
            sample_index (imode l) ?rows ?cols (nbands l) (snd p, 0, fst p) * ?n)) encoded (band_rows (nbands l) ?rows) :: (byte list, codec_error) outcome)"
    proof (rule try_fold_cong)
      fix p s assume "p \<in> set (band_rows (nbands l) ?rows)"
      then obtain b r where p: "p = (b, r)" "b < nbands l" "r < ?rows" by auto
      have "band_block_offset l R C b + r * nppbh l * ?n = place l R C (r, 0, b) * ?n"
        using ModeS w(4) [OF p(2)] by (simp add: place.simps algebra_simps)
      moreover have "b * (?rows * ?cols * ?n) + r * ?cols * ?n = sample_index (imode l) ?rows ?cols (nbands l) (r, 0, b) * ?n"
        using ModeS by (simp add: algebra_simps)
      ultimately show "(case p of (band, row) \<Rightarrow> copy_block (wrap64 (?cols * ?n)) bs s
              (wrap64 (band_block_offset l R C band + row * nppbh l * ?n), wrap64 (band * wrap64 (?rows * ?cols * ?n) + row * ?cols * ?n))) =
          copy_block (?cols * ?n) bs s (place l R C (snd p, 0, fst p) * ?n, sample_index (imode l) ?rows ?cols (nbands l) (snd p, 0, fst p) * ?n)"
        using dst [OF p(3,2) refl] src [OF p(3,2) refl] by (simp add: p(1) width band_bytes)
    qed
    moreover have "\<exists>out. try_fold (\<lambda>out p. copy_block (?cols * ?n) bs out (place l R C (snd p, 0, fst p) * ?n,
            sample_index (imode l) ?rows ?cols (nbands l) (snd p, 0, fst p) * ?n)) encoded (band_rows (nbands l) ?rows) = (Ok out :: (_, codec_error) outcome) \<and>
        length out = total_samples l * ?n \<and> stored l R C bs out \<and> elsewhere l R C encoded out"
      by (rule write_rows [where rb = "\<lambda>p. (snd p, fst p)", OF l _ len]) (use ModeS in \<open>auto simp: inj_on_def image_iff\<close>)
    ultimately show ?thesis using ModeS whole by (simp add: write_block_def write_block_mode_s_def Let_def)
  next
    case ModeB
    have "try_fold (\<lambda>out (band, row).
            copy_block (wrap64 (?cols * ?n)) bs out
              (wrap64 (wrap64 (block_index l R C * block_size_bytes l) + band * (nppbh l * nppbv l) * ?n + row * nppbh l * ?n),
               wrap64 (band * wrap64 (?rows * ?cols * ?n) + row * ?cols * ?n))) encoded (band_rows (nbands l) ?rows) =
        (try_fold (\<lambda>out p. copy_block (?cols * ?n) bs out (place l R C (snd p, 0, fst p) * ?n,
            sample_index (imode l) ?rows ?cols (nbands l) (snd p, 0, fst p) * ?n)) encoded (band_rows (nbands l) ?rows) :: (byte list, codec_error) outcome)"
    proof (rule try_fold_cong)
      fix p s assume "p \<in> set (band_rows (nbands l) ?rows)"
      then obtain b r where p: "p = (b, r)" "b < nbands l" "r < ?rows" by auto
      have "wrap64 (block_index l R C * block_size_bytes l) + b * (nppbh l * nppbv l) * ?n + r * nppbh l * ?n = place l R C (r, 0, b) * ?n"
        using ModeB start by (simp add: place.simps algebra_simps)
      moreover have "b * (?rows * ?cols * ?n) + r * ?cols * ?n = sample_index (imode l) ?rows ?cols (nbands l) (r, 0, b) * ?n"
        using ModeB by (simp add: algebra_simps)
      ultimately show "(case p of (band, row) \<Rightarrow> copy_block (wrap64 (?cols * ?n)) bs s
              (wrap64 (wrap64 (block_index l R C * block_size_bytes l) + band * (nppbh l * nppbv l) * ?n + row * nppbh l * ?n),
               wrap64 (band * wrap64 (?rows * ?cols * ?n) + row * ?cols * ?n))) =
          copy_block (?cols * ?n) bs s (place l R C (snd p, 0, fst p) * ?n, sample_index (imode l) ?rows ?cols (nbands l) (snd p, 0, fst p) * ?n)"
        using dst [OF p(3,2) refl] src [OF p(3,2) refl] by (simp add: p(1) width band_bytes)
    qed
    moreover have "\<exists>out. try_fold (\<lambda>out p. copy_block (?cols * ?n) bs out (place l R C (snd p, 0, fst p) * ?n,
            sample_index (imode l) ?rows ?cols (nbands l) (snd p, 0, fst p) * ?n)) encoded (band_rows (nbands l) ?rows) = (Ok out :: (_, codec_error) outcome) \<and>
        length out = total_samples l * ?n \<and> stored l R C bs out \<and> elsewhere l R C encoded out"
      by (rule write_rows [where rb = "\<lambda>p. (snd p, fst p)", OF l _ len]) (use ModeB in \<open>auto simp: inj_on_def image_iff\<close>)
    ultimately show ?thesis using ModeB whole by (simp add: write_block_def write_block_mode_bpr_def Let_def)
  next
    case ModeR
    have "try_fold (\<lambda>out (row, band).
            copy_block (wrap64 (?cols * ?n)) bs out
              (wrap64 (wrap64 (block_index l R C * block_size_bytes l) + row * (nppbh l * ?n * nbands l) + band * (nppbh l * ?n)),
               wrap64 ((row * nbands l + band) * ?cols * ?n))) encoded (List.product [0..<?rows] [0..<nbands l]) =
        (try_fold (\<lambda>out p. copy_block (?cols * ?n) bs out (place l R C (fst p, 0, snd p) * ?n,
            sample_index (imode l) ?rows ?cols (nbands l) (fst p, 0, snd p) * ?n)) encoded (List.product [0..<?rows] [0..<nbands l]) :: (byte list, codec_error) outcome)"
    proof (rule try_fold_cong)
      fix p s assume "p \<in> set (List.product [0..<?rows] [0..<nbands l])"
      then obtain b r where p: "p = (r, b)" "b < nbands l" "r < ?rows" by auto
      have "wrap64 (block_index l R C * block_size_bytes l) + r * (nppbh l * ?n * nbands l) + b * (nppbh l * ?n) = place l R C (r, 0, b) * ?n"
        using ModeR start by (simp add: place.simps algebra_simps)
      moreover have "(r * nbands l + b) * ?cols * ?n = sample_index (imode l) ?rows ?cols (nbands l) (r, 0, b) * ?n"
        using ModeR by simp
      ultimately show "(case p of (row, band) \<Rightarrow> copy_block (wrap64 (?cols * ?n)) bs s
              (wrap64 (wrap64 (block_index l R C * block_size_bytes l) + row * (nppbh l * ?n * nbands l) + band * (nppbh l * ?n)),
               wrap64 ((row * nbands l + band) * ?cols * ?n))) =
          copy_block (?cols * ?n) bs s (place l R C (fst p, 0, snd p) * ?n, sample_index (imode l) ?rows ?cols (nbands l) (fst p, 0, snd p) * ?n)"
        using dst [OF p(3,2) refl] src [OF p(3,2) refl] by (simp only: p(1) width prod.case fst_conv snd_conv)
    qed
    moreover have "\<exists>out. try_fold (\<lambda>out p. copy_block (?cols * ?n) bs out (place l R C (fst p, 0, snd p) * ?n,
            sample_index (imode l) ?rows ?cols (nbands l) (fst p, 0, snd p) * ?n)) encoded (List.product [0..<?rows] [0..<nbands l]) = (Ok out :: (_, codec_error) outcome) \<and>
        length out = total_samples l * ?n \<and> stored l R C bs out \<and> elsewhere l R C encoded out"
      by (rule write_rows [where rb = id, OF l _ len]) (use ModeR in \<open>auto simp: inj_on_def image_iff\<close>)
    ultimately show ?thesis using ModeR whole by (simp add: write_block_def write_block_mode_bpr_def Let_def)
  next
    case ModeP
    have "try_fold (\<lambda>out row.
            copy_block (wrap64 (?cols * (nbands l * ?n))) bs out
              (wrap64 (wrap64 (block_index l R C * block_size_bytes l) + row * (nppbh l * (nbands l * ?n))),
               wrap64 (row * ?cols * (nbands l * ?n)))) encoded [0..<?rows] =
        (try_fold (\<lambda>out r. copy_block (?cols * nbands l * ?n) bs out (place l R C (r, 0, 0) * ?n,
            sample_index (imode l) ?rows ?cols (nbands l) (r, 0, 0) * ?n)) encoded [0..<?rows] :: (byte list, codec_error) outcome)"
    proof (rule try_fold_cong)
      fix r s assume "r \<in> set [0..<?rows]"
      then have r: "r < ?rows" by simp
      have "wrap64 (block_index l R C * block_size_bytes l) + r * (nppbh l * (nbands l * ?n)) = place l R C (r, 0, 0) * ?n"
        using ModeP start by (simp add: place.simps algebra_simps)
      moreover have "r * ?cols * (nbands l * ?n) = sample_index (imode l) ?rows ?cols (nbands l) (r, 0, 0) * ?n"
        using ModeP by simp
      ultimately show "copy_block (wrap64 (?cols * (nbands l * ?n))) bs s
              (wrap64 (wrap64 (block_index l R C * block_size_bytes l) + r * (nppbh l * (nbands l * ?n))),
               wrap64 (r * ?cols * (nbands l * ?n))) =
          copy_block (?cols * nbands l * ?n) bs s (place l R C (r, 0, 0) * ?n, sample_index (imode l) ?rows ?cols (nbands l) (r, 0, 0) * ?n)"
        using dst [OF r bands refl] src [OF r bands refl] by (simp only: pixel_width)
    qed
    then show ?thesis
      using write_pixel_rows [where w = "?cols * nbands l * ?n" and dd = "\<lambda>r. place l R C (r, 0, 0) * ?n"
        and ss = "\<lambda>r. sample_index (imode l) ?rows ?cols (nbands l) (r, 0, 0) * ?n", OF l _ len] ModeP whole
      by (simp add: write_block_def write_block_mode_bpr_def Let_def)
  qed
qed

section \<open>Reading a block\<close>

lemma each_call_pure:
  assumes "\<And>p h. p \<in> set ps \<Longrightarrow> P h \<Longrightarrow> \<exists>h'. f p h = (Ok (g p), h') \<and> P h'" "P h"
  shows "\<exists>h'. each_call f ps h = (Ok (map g ps), h') \<and> P h'"
  using assms
proof (induction ps arbitrary: h)
  case (Cons p ps)
  obtain h1 where h1: "f p h = (Ok (g p), h1)" "P h1" using Cons.prems(1) [of p h] Cons.prems(2) by auto
  obtain h2 where "each_call f ps h1 = (Ok (map g ps), h2)" "P h2" using Cons.IH [OF _ h1(2)] Cons.prems(1) by auto
  then show ?case using h1(1) by (simp add: seq_def)
qed simp

lemma slice_bytes_view:
  assumes "buffer_wf srcs b" "heap_wf srcs h" "offset + n \<le> length (view srcs b)"
  shows "\<exists>h'. slice_bytes b offset n h = (Ok (take n (drop offset (view srcs b))), h') \<and> heap_wf srcs h'"
proof -
  have len: "length (view srcs b) = buffer_len b" using length_view [OF assms(1)] .
  then have n: "wrap64 (offset + n) = offset + n" using buffer_len_lt [OF assms(1)] assms(3) by simp
  obtain b' h' where "try_slice b offset (offset + n) h = (Ok b', h')" "heap_wf srcs h'" "buffer_wf srcs b'"
    "view srcs b' = take (offset + n - offset) (drop offset (view srcs b))" "\<not> is_remote b'"
    using try_slice_step [OF assms(1,2), of offset "offset + n"] assms(3) len by auto
  then show ?thesis using as_bytes_view by (simp add: slice_bytes_def n seq_def lift_outcome_def)
qed

lemma checked_bytes_view:
  assumes "buffer_wf srcs b" "heap_wf srcs h" "offset + n \<le> length (view srcs b)"
  shows "\<exists>h'. checked_bytes b (offset, n) h = (Ok (take n (drop offset (view srcs b))), h') \<and> heap_wf srcs h'"
  using slice_bytes_view [OF assms] length_view [OF assms(1)] buffer_len_lt [OF assms(1)] assms(3)
  by (simp add: checked_bytes_def)

lemma read_pieces_view:
  assumes "buffer_wf srcs b" "heap_wf srcs h" "\<forall>p\<in>set ps. off p + n \<le> length (view srcs b)"
  shows "\<exists>h'. read_pieces b (map (\<lambda>p. (off p, n)) ps) h =
    (Ok (concat (map (\<lambda>p. take n (drop (off p) (view srcs b))) ps)), h') \<and> heap_wf srcs h'"
proof -
  have "\<exists>h'. each_call (checked_bytes b) (map (\<lambda>p. (off p, n)) ps) h =
      (Ok (map (\<lambda>(offset, n). take n (drop offset (view srcs b))) (map (\<lambda>p. (off p, n)) ps)), h') \<and> heap_wf srcs h'"
    using assms checked_bytes_view [OF assms(1)] by (intro each_call_pure) auto
  then obtain h' where "each_call (checked_bytes b) (map (\<lambda>p. (off p, n)) ps) h =
      (Ok (map (\<lambda>p. take n (drop (off p) (view srcs b))) ps), h')" "heap_wf srcs h'"
    by (auto simp: comp_def)
  then show ?thesis by (simp add: read_pieces_def seq_def)
qed

text \<open>Runs of equal length, one behind the other.\<close>

lemma nth_product_upt: "a < m \<Longrightarrow> b < n \<Longrightarrow> List.product [0..<m] [0..<n] ! (a * n + b) = (a, b)"
  using mult_add_less [of a m b n] by (simp add: product_nth)

lemma runs_read:
  assumes "\<forall>p\<in>set ps. pos p + cnt \<le> m" "length bs = m * n"
  defines "out \<equiv> concat (map (\<lambda>p. take (cnt * n) (drop (pos p * n) bs)) ps)"
  shows "length out = length ps * cnt * n"
    and "i < length ps \<Longrightarrow> j < cnt \<Longrightarrow> sample n out (i * cnt + j) = sample n bs (pos (ps ! i) + j)"
proof -
  let ?pieces = "map (\<lambda>p. take (cnt * n) (drop (pos p * n) bs)) ps"
  have "length (take (cnt * n) (drop (pos p * n) bs)) = cnt * n" if "p \<in> set ps" for p
  proof -
    have "(pos p + cnt) * n \<le> length bs" using assms(1,2) that by simp
    then show ?thesis by (auto simp: add_mult_distrib min_def)
  qed
  then have lens: "\<forall>x\<in>set ?pieces. length x = cnt * n" by auto
  show "length out = length ps * cnt * n" using length_concat_equal [OF lens] by (simp add: out_def)
  assume ij: "i < length ps" "j < cnt"
  have "sample n (sample (cnt * n) out i) j = sample n out (i * cnt + j)" using sample_sample [OF ij(2)] .
  moreover have "sample (cnt * n) out i = take (cnt * n) (drop (pos (ps ! i) * n) bs)"
    using sample_concat [OF lens, of i] ij(1) by (simp add: out_def)
  moreover have "sample n (take (cnt * n) (drop (pos (ps ! i) * n) bs)) j = sample n bs (pos (ps ! i) + j)"
    using copy_run(3) [OF assms(2) _ assms(2) _ refl refl refl ij(2)] assms(1) ij(1) nth_mem by blast
  ultimately show "sample n out (i * cnt + j) = sample n bs (pos (ps ! i) + j)" by simp
qed

definition read_block :: "'a block_layout_scheme \<Rightarrow> owned_buffer \<Rightarrow> nat \<Rightarrow> nat \<Rightarrow> byte list buffer_call" where
  "read_block l img R C =
    (if imode l = ModeS then read_block_mode_s l img R C (block_rows l R) (block_cols l C)
     else read_block_mode_bpr l img R C (block_rows l R) (block_cols l C))"

lemma stored_unique:
  assumes "stored l R C a d" "stored l R C b d" "length a = block_samples l R C * bytes_per_pixel l" "length b = block_samples l R C * bytes_per_pixel l"
  shows "a = b"
proof (rule list_eq_samples [where n = "bytes_per_pixel l" and m = "block_samples l R C"])
  fix j assume "j < block_samples l R C"
  then obtain r c b' where "r < block_rows l R" "c < block_cols l C" "b' < nbands l"
    "j = sample_index (imode l) (block_rows l R) (block_cols l C) (nbands l) (r, c, b')"
    by (rule sample_index_cases)
  then show "sample (bytes_per_pixel l) a j = sample (bytes_per_pixel l) b j" using assms(1,2) by (simp add: stored_def)
qed (use assms(3,4) in \<open>simp_all add: mult.commute\<close>)

text \<open>A reading loop whose runs begin at the places of its indices.\<close>

lemma read_runs:
  assumes buf: "buffer_wf srcs img" "heap_wf srcs h" "length (view srcs img) = total_samples l * bytes_per_pixel l"
    and off: "\<And>p. p \<in> set ps \<Longrightarrow> off p = pos p * bytes_per_pixel l \<and> pos p + cnt \<le> total_samples l"
    and size: "length ps * cnt = block_samples l R C" and w: "w = cnt * bytes_per_pixel l"
    and at: "\<And>r c b. r < block_rows l R \<Longrightarrow> c < block_cols l C \<Longrightarrow> b < nbands l \<Longrightarrow>
      \<exists>i<length ps. \<exists>j<cnt. place l R C (r, c, b) = pos (ps ! i) + j \<and>
        sample_index (imode l) (block_rows l R) (block_cols l C) (nbands l) (r, c, b) = i * cnt + j"
  shows "\<exists>out h'. read_pieces img (map (\<lambda>p. (off p, w)) ps) h = (Ok out, h') \<and> heap_wf srcs h' \<and>
    length out = block_samples l R C * bytes_per_pixel l \<and> stored l R C out (view srcs img)"
proof -
  let ?n = "bytes_per_pixel l" and ?bs = "view srcs img"
  let ?out = "concat (map (\<lambda>p. take (cnt * ?n) (drop (pos p * ?n) ?bs)) ps)"
  have fits: "\<forall>p\<in>set ps. pos p + cnt \<le> total_samples l" using off by blast
  have "off p + w \<le> length ?bs" if "p \<in> set ps" for p
  proof -
    have "(pos p + cnt) * ?n \<le> total_samples l * ?n" using off [OF that] by simp
    then show ?thesis using off [OF that] buf(3) w by (simp add: add_mult_distrib)
  qed
  then obtain h' where h': "read_pieces img (map (\<lambda>p. (off p, w)) ps) h = (Ok (concat (map (\<lambda>p. take w (drop (off p) ?bs)) ps)), h')"
    "heap_wf srcs h'" using read_pieces_view [OF buf(1,2), of ps off w] by blast
  have out: "concat (map (\<lambda>p. take w (drop (off p) ?bs)) ps) = ?out"
    using off w by (intro arg_cong [where f = concat] map_cong) auto
  have "length ?out = block_samples l R C * ?n" using runs_read(1) [OF fits buf(3)] size by simp
  moreover have "stored l R C ?out ?bs" unfolding stored_def
  proof (intro allI impI)
    fix r c b assume "r < block_rows l R" "c < block_cols l C" "b < nbands l"
    from at [OF this] obtain i j where "i < length ps" "j < cnt" "place l R C (r, c, b) = pos (ps ! i) + j"
      "sample_index (imode l) (block_rows l R) (block_cols l C) (nbands l) (r, c, b) = i * cnt + j" by blast
    then show "sample ?n ?bs (place l R C (r, c, b)) = sample ?n ?out (sample_index (imode l) (block_rows l R) (block_cols l C) (nbands l) (r, c, b))"
      using runs_read(2) [OF fits buf(3)] by simp
  qed
  ultimately show ?thesis using h' unfolding out by blast
qed

lemma read_plain:
  assumes l: "layout_ok l" "on_grid l R C" and whole: "\<not> is_bit_packed l"
    and buf: "buffer_wf srcs img" "heap_wf srcs h" "length (view srcs img) = total_samples l * bytes_per_pixel l"
  shows "\<exists>out h'. read_block l img R C h = (Ok out, h') \<and> heap_wf srcs h' \<and>
    length out = block_samples l R C * bytes_per_pixel l \<and> stored l R C out (view srcs img)"
proof -
  let ?n = "bytes_per_pixel l" and ?rows = "block_rows l R" and ?cols = "block_cols l C" and ?view = "view srcs img"
  note d = dimensions [OF l] and f = block_fits [OF l] and w = whole_bytes [OF l whole]
  have bands: "0 < nbands l" using l(1) by (simp add: layout_ok_def)
  have zero: "0 < nppbh l" "0 < ?cols" "0 < nppbv l" "0 < ?rows" using l(1) d by (auto simp: layout_ok_def)
  have "?cols * ?n * ?rows < U64" using f(3) by (simp only: ac_simps)
  then have width: "wrap64 (?cols * ?n) = ?cols * ?n" using zero(4) factor_less by simp
  have "nbands l * ?n * (?rows * ?cols) < U64" using f(2) by (simp only: ac_simps)
  then have pixel: "wrap64 (nbands l * ?n) = nbands l * ?n" using zero(2,4) factor_less by simp
  have place64: "wrap64 x = x" if "r < ?rows" "c < ?cols" "b < nbands l" "x = place l R C (r, c, b) * ?n" for r c b x
    using place_offset [OF l _ _ that(3,4)] that(1,2) d by simp
  have row_fits: "place l R C (r, 0, b) + ?cols \<le> total_samples l" if "imode l \<noteq> ModeP" "r < ?rows" "b < nbands l" for r b
  proof -
    have "place l R C (r, ?cols - 1, b) < total_samples l" using that d by (intro place_less [OF l(2)]) auto
    then show ?thesis using place_run(1) [OF that(1), of R C r b "?cols - 1"] zero(2) by linarith
  qed
  have start: "block_offset l R C = (R * nbpr l + C) * (block_pixels l * nbands l) * ?n" if "imode l \<noteq> ModeS"
  proof -
    have "wrap64 (place l R C (0, 0, 0) * ?n) = place l R C (0, 0, 0) * ?n" using place64 [OF zero(4,2) bands refl] .
    moreover have "place l R C (0, 0, 0) = (R * nbpr l + C) * (block_pixels l * nbands l)"
      using that by (cases "imode l") (simp_all add: place.simps)
    ultimately show ?thesis using that by (simp add: block_offset_def w(3))
  qed
  have by_bands: ?thesis
    if mode: "imode l = ModeS \<or> imode l = ModeB" and read: "read_block l img R C h =
        read_pieces img (map (\<lambda>p. (off p, ?cols * ?n)) (band_rows (nbands l) ?rows)) h"
      and off: "\<And>r b. r < ?rows \<Longrightarrow> b < nbands l \<Longrightarrow> off (b, r) = place l R C (r, 0, b) * ?n" for off
    unfolding read
  proof (rule read_runs [where pos = "\<lambda>p. place l R C (snd p, 0, fst p)" and cnt = ?cols, OF buf])
    show "\<exists>i<length (band_rows (nbands l) ?rows). \<exists>j<?cols. place l R C (r, c, b) =
          place l R C (snd (band_rows (nbands l) ?rows ! i), 0, fst (band_rows (nbands l) ?rows ! i)) + j \<and>
        sample_index (imode l) ?rows ?cols (nbands l) (r, c, b) = i * ?cols + j"
      if rcb: "r < ?rows" "c < ?cols" "b < nbands l" for r c b
    proof -
      have "band_rows (nbands l) ?rows ! (b * ?rows + r) = (b, r)" by (rule nth_product_upt [OF rcb(3,1)])
      moreover have "sample_index (imode l) ?rows ?cols (nbands l) (r, c, b) = (b * ?rows + r) * ?cols + c"
        using mode by (auto simp: algebra_simps)
      ultimately show ?thesis using mode rcb mult_add_less [OF rcb(3,1)] place_run(1) [of l R C r b c]
        by (intro exI [of _ "b * ?rows + r"], intro conjI, simp, intro exI [of _ c]) auto
    qed
  qed (use off row_fits mode in auto)
  have full: ?thesis if mode: "imode l \<noteq> ModeS" and shape: "?rows = nppbv l \<and> ?cols = nppbh l"
  proof -
    let ?first = "(R * nbpr l + C) * (block_pixels l * nbands l)" and ?k = "block_pixels l * nbands l"
    have k: "block_samples l R C = ?k" using shape by (simp add: block_pixels_def)
    have "?first + ?k \<le> block_total l * ?k" by (rule block_in [OF block_index_less [OF l(2)]])
    then have first: "?first + ?k \<le> total_samples l" by (simp add: total_samples_def mult.assoc)
    then have "(?first + ?k) * ?n \<le> length ?view" using buf(3) by simp
    then have "?first * ?n + ?k * ?n \<le> length ?view" by (simp only: add_mult_distrib)
    then obtain h' where h': "checked_bytes img (?first * ?n, ?k * ?n) h = (Ok (take (?k * ?n) (drop (?first * ?n) ?view)), h')"
      "heap_wf srcs h'" using checked_bytes_view [OF buf(1,2)] by blast
    have "read_block l img R C h = checked_bytes img (?first * ?n, ?k * ?n) h"
      using mode whole shape by (simp add: read_block_def read_block_mode_bpr_def Let_def start w(2))
    moreover have len: "length (take (?k * ?n) (drop (?first * ?n) ?view)) = block_samples l R C * ?n"
      unfolding k by (rule copy_run(2) [OF buf(3) first buf(3) first refl refl refl])
    moreover have "stored l R C (take (?k * ?n) (drop (?first * ?n) ?view)) ?view" unfolding stored_def
    proof (intro allI impI)
      fix r c b assume rcb: "r < ?rows" "c < ?cols" "b < nbands l"
      let ?i = "sample_index (imode l) ?rows ?cols (nbands l) (r, c, b)"
      have "?i < ?k" using sample_index_less [OF rcb] k by simp
      then have "sample ?n (take (?k * ?n) (drop (?first * ?n) ?view)) ?i = sample ?n ?view (?first + ?i)"
        by (rule copy_run(3) [OF buf(3) first buf(3) first refl refl refl])
      moreover have "place l R C (r, c, b) = ?first + ?i" using mode shape by (simp add: place.simps)
      ultimately show "sample ?n ?view (place l R C (r, c, b)) = sample ?n (take (?k * ?n) (drop (?first * ?n) ?view)) ?i" by simp
    qed
    ultimately show ?thesis using h' by metis
  qed
  show ?thesis
  proof (cases "imode l")
    case ModeS
    show ?thesis
    proof (rule by_bands)
      show "read_block l img R C h = read_pieces img (map (\<lambda>p. (wrap64 (band_block_offset l R C (fst p) + snd p * nppbh l * ?n), ?cols * ?n))
          (band_rows (nbands l) ?rows)) h"
        using ModeS whole by (simp add: read_block_def read_block_mode_s_def width split_def)
      show "wrap64 (band_block_offset l R C (fst (b, r)) + snd (b, r) * nppbh l * ?n) = place l R C (r, 0, b) * ?n"
        if "r < ?rows" "b < nbands l" for r b
        using place64 [OF that(1) zero(2) that(2)] ModeS w(4) [OF that(2)] by (simp add: place.simps algebra_simps)
    qed (use ModeS in simp)
  next
    case ModeB
    show ?thesis
    proof (cases "?rows = nppbv l \<and> ?cols = nppbh l")
      case False
      show ?thesis
      proof (rule by_bands)
        show "read_block l img R C h = read_pieces img (map (\<lambda>p. (wrap64 (block_offset l R C + fst p * (nppbh l * nppbv l) * ?n + snd p * nppbh l * ?n), ?cols * ?n))
            (band_rows (nbands l) ?rows)) h"
          using ModeB whole False by (auto simp: read_block_def read_block_mode_bpr_def width split_def Let_def)
        show "wrap64 (block_offset l R C + fst (b, r) * (nppbh l * nppbv l) * ?n + snd (b, r) * nppbh l * ?n) = place l R C (r, 0, b) * ?n"
          if "r < ?rows" "b < nbands l" for r b
          using place64 [OF that(1) zero(2) that(2)] ModeB start by (simp add: place.simps algebra_simps)
      qed (use ModeB in simp)
    qed (use full ModeB in simp)
  next
    case ModeP
    show ?thesis
    proof (cases "?rows = nppbv l \<and> ?cols = nppbh l")
      case False
      let ?off = "\<lambda>p. wrap64 (block_offset l R C + (fst p * nppbh l + snd p) * (nbands l * ?n))"
      have off: "?off (r, c) = place l R C (r, c, 0) * ?n" if "r < ?rows" "c < ?cols" for r c
        using place64 [OF that bands] ModeP start by (simp add: place.simps algebra_simps)
      have fits: "place l R C (r, c, 0) + nbands l \<le> total_samples l" if "r < ?rows" "c < ?cols" for r c
      proof -
        have "place l R C (r, c, nbands l - 1) < total_samples l" using that d bands by (intro place_less [OF l(2)]) auto
        moreover have "place l R C (r, c, 0) + (nbands l - 1) = place l R C (r, c, nbands l - 1)" using ModeP by (simp add: place.simps)
        ultimately show ?thesis using bands by linarith
      qed
      have "read_block l img R C h = read_pieces img (map (\<lambda>p. (?off p, nbands l * ?n)) (List.product [0..<?rows] [0..<?cols])) h"
        using ModeP whole False by (auto simp: read_block_def read_block_mode_bpr_def pixel split_def Let_def)
      moreover have "\<exists>out h'. read_pieces img (map (\<lambda>p. (?off p, nbands l * ?n)) (List.product [0..<?rows] [0..<?cols])) h = (Ok out, h') \<and> heap_wf srcs h' \<and>
          length out = block_samples l R C * ?n \<and> stored l R C out ?view"
      proof (rule read_runs [where pos = "\<lambda>p. place l R C (fst p, snd p, 0)" and cnt = "nbands l", OF buf])
        show "\<exists>i<length (List.product [0..<?rows] [0..<?cols]). \<exists>j<nbands l. place l R C (r, c, b) =
              place l R C (fst (List.product [0..<?rows] [0..<?cols] ! i), snd (List.product [0..<?rows] [0..<?cols] ! i), 0) + j \<and>
            sample_index (imode l) ?rows ?cols (nbands l) (r, c, b) = i * nbands l + j"
          if rcb: "r < ?rows" "c < ?cols" "b < nbands l" for r c b
        proof -
          have "List.product [0..<?rows] [0..<?cols] ! (r * ?cols + c) = (r, c)" by (rule nth_product_upt [OF rcb(1,2)])
          moreover have "place l R C (r, c, b) = place l R C (r, c, 0) + b" using ModeP by (simp add: place.simps)
          ultimately show ?thesis using ModeP rcb mult_add_less [OF rcb(1,2)]
            by (intro exI [of _ "r * ?cols + c"], intro conjI, simp, intro exI [of _ b]) auto
        qed
      qed (use off fits in auto)
      ultimately show ?thesis by simp
    qed (use full ModeP in simp)
  next
    case ModeR
    show ?thesis
    proof (cases "?rows = nppbv l \<and> ?cols = nppbh l")
      case False
      let ?off = "\<lambda>p. wrap64 (block_offset l R C + (fst p * nbands l + snd p) * (nppbh l * ?n))"
      have off: "?off (r, b) = place l R C (r, 0, b) * ?n" if "r < ?rows" "b < nbands l" for r b
        using place64 [OF that(1) zero(2) that(2)] ModeR start by (simp add: place.simps algebra_simps)
      have "read_block l img R C h = read_pieces img (map (\<lambda>p. (?off p, ?cols * ?n)) (List.product [0..<?rows] [0..<nbands l])) h"
        using ModeR whole False by (auto simp: read_block_def read_block_mode_bpr_def width split_def Let_def)
      moreover have "\<exists>out h'. read_pieces img (map (\<lambda>p. (?off p, ?cols * ?n)) (List.product [0..<?rows] [0..<nbands l])) h = (Ok out, h') \<and> heap_wf srcs h' \<and>
          length out = block_samples l R C * ?n \<and> stored l R C out ?view"
      proof (rule read_runs [where pos = "\<lambda>p. place l R C (fst p, 0, snd p)" and cnt = ?cols, OF buf])
        show "\<exists>i<length (List.product [0..<?rows] [0..<nbands l]). \<exists>j<?cols. place l R C (r, c, b) =
              place l R C (fst (List.product [0..<?rows] [0..<nbands l] ! i), 0, snd (List.product [0..<?rows] [0..<nbands l] ! i)) + j \<and>
            sample_index (imode l) ?rows ?cols (nbands l) (r, c, b) = i * ?cols + j"
          if rcb: "r < ?rows" "c < ?cols" "b < nbands l" for r c b
        proof -
          have "List.product [0..<?rows] [0..<nbands l] ! (r * nbands l + b) = (r, b)" by (rule nth_product_upt [OF rcb(1,3)])
          then show ?thesis using ModeR rcb mult_add_less [OF rcb(1,3)] place_run(1) [of l R C r b c]
            by (intro exI [of _ "r * nbands l + b"], intro conjI, simp, intro exI [of _ c]) auto
        qed
      qed (use off row_fits ModeR in auto)
      ultimately show ?thesis by simp
    qed (use full ModeR in simp)
  qed
qed

end
