(* ===== verification/Nc_Packed.thy ===== *)
theory Nc_Packed
  imports Nc_Plain
begin

text \<open>
  Blocks whose pixels do not fill bytes: each band of a block has a slot of the data, packed into its first bits.
\<close>

section \<open>Slots\<close>

definition slot :: "'a block_layout_scheme \<Rightarrow> nat \<Rightarrow> nat \<Rightarrow> nat \<Rightarrow> nat" where
  "slot l R C k = (if imode l = ModeS then k * block_total l + (R * nbpr l + C) else (R * nbpr l + C) * nbands l + k)"

definition data_size :: "'a block_layout_scheme \<Rightarrow> nat" where
  "data_size l = block_total l * nbands l * packed_band_size_bytes l"

definition band_part :: "'a block_layout_scheme \<Rightarrow> nat \<Rightarrow> nat \<Rightarrow> byte list \<Rightarrow> nat \<Rightarrow> byte list" where
  "band_part l R C bs k = sample (block_rows l R * block_cols l C * bytes_per_pixel l) bs k"

text \<open>The bands of the block at \<open>(R, C)\<close> lie packed at the front of their slots.\<close>

definition stored_bits :: "'a block_layout_scheme \<Rightarrow> nat \<Rightarrow> nat \<Rightarrow> byte list \<Rightarrow> byte list \<Rightarrow> bool" where
  "stored_bits l R C bs encoded \<longleftrightarrow> (\<forall>k<nbands l. \<exists>packed. pack_bitstream (nbpp l) (band_part l R C bs k) = Ok packed \<and>
    take (length packed) (sample (packed_band_size_bytes l) encoded (slot l R C k)) = packed)"

definition other_slots :: "'a block_layout_scheme \<Rightarrow> nat \<Rightarrow> nat \<Rightarrow> byte list \<Rightarrow> byte list \<Rightarrow> bool" where
  "other_slots l R C before after \<longleftrightarrow> (\<forall>q. (\<forall>k<nbands l. q \<noteq> slot l R C k) \<longrightarrow>
    sample (packed_band_size_bytes l) after q = sample (packed_band_size_bytes l) before q)"

lemma slot_less:
  assumes "on_grid l R C" "k < nbands l"
  shows "slot l R C k < block_total l * nbands l"
  using mult_add_less [OF assms(2) block_index_less [OF assms(1)]] mult_add_less [OF block_index_less [OF assms(1)] assms(2)]
  by (simp add: slot_def mult.commute)

lemma slot_inj:
  assumes "on_grid l R C" "k < nbands l" "on_grid l R' C'" "k' < nbands l" "slot l R C k = slot l R' C' k'"
  shows "R = R' \<and> C = C' \<and> k = k'"
proof -
  note lt = block_index_less [OF assms(1)] block_index_less [OF assms(3)]
  have "R * nbpr l + C = R' * nbpr l + C' \<and> k = k'"
  proof (cases "imode l = ModeS")
    case True
    then have "k * block_total l + (R * nbpr l + C) = k' * block_total l + (R' * nbpr l + C')" using assms(5) by (simp add: slot_def)
    from mult_add_inj [OF this lt] show ?thesis by blast
  next
    case False
    then have "(R * nbpr l + C) * nbands l + k = (R' * nbpr l + C') * nbands l + k'" using assms(5) by (simp add: slot_def)
    from mult_add_inj [OF this assms(2,4)] show ?thesis by blast
  qed
  moreover have "R = R' \<and> C = C'" if "R * nbpr l + C = R' * nbpr l + C'"
    using that mult_add_inj assms(1,3) unfolding on_grid_def by blast
  ultimately show ?thesis by blast
qed

lemma div_ceil_mono: "a \<le> b \<Longrightarrow> div_ceil a 8 \<le> div_ceil b 8"
  by (rule div_ceil_le) (auto simp: div_ceil_def)

lemma eight_bits: "bits \<le> 8 * div_ceil bits 8"
  by (auto simp: div_ceil_def)

lemma packed_le:
  fixes bits n k :: nat
  assumes "bits \<le> 8 * n"
  shows "div_ceil (k * bits) 8 \<le> k * n"
proof -
  have "k * bits \<le> k * n * 8" using mult_le_mono2 [OF assms, of k] by (simp only: ac_simps)
  then show ?thesis by (intro div_ceil_le) simp
qed

lemma band_size:
  assumes "layout_ok l" "on_grid l R C"
  shows "packed_band_size_bytes l = div_ceil (block_pixels l * nbpp l) 8" "data_size l < U64"
    "block_size_bytes l = nbands l * packed_band_size_bytes l" "0 < packed_band_size_bytes l"
    "div_ceil (block_rows l R * block_cols l C * nbpp l) 8 \<le> packed_band_size_bytes l"
proof -
  let ?n = "bytes_per_pixel l" and ?p = "packed_band_size_bytes l"
  note d = dimensions [OF assms] and z = sizes [OF assms]
  have big: "block_total l * block_pixels l * nbands l * (8 * ?n) < U64" and pos: "0 < nbands l" "0 < nbpp l" "0 < block_pixels l"
    using assms(1) by (simp_all add: layout_ok_def block_pixels_def)
  have bits: "nbpp l \<le> 8 * ?n"
    unfolding bytes_per_pixel_def using eight_bits [of "nbpp l"] .
  have "block_pixels l * (8 * ?n) * (block_total l * nbands l) < U64" using big by (simp only: ac_simps)
  then have "block_pixels l * (8 * ?n) < U64" by (rule factor_less) (simp add: z(4) pos(1))
  moreover have "block_pixels l * nbpp l \<le> block_pixels l * (8 * ?n)" using bits by (rule mult_le_mono2)
  ultimately have "wrap64 (block_pixels l * nbpp l) = block_pixels l * nbpp l" by (intro wrap64_id) linarith
  moreover have "nppbh l * nppbv l * nbpp l = block_pixels l * nbpp l" by (simp add: block_pixels_def)
  ultimately show p: "?p = div_ceil (block_pixels l * nbpp l) 8"
    unfolding packed_band_size_bytes_def by (simp only:)
  then have small: "?p \<le> block_pixels l * ?n"
    using packed_le [OF bits] by simp
  then have "block_total l * nbands l * ?p \<le> block_total l * nbands l * (block_pixels l * ?n)" by (rule mult_le_mono2)
  also have "\<dots> < U64" using z(1) by (simp only: ac_simps)
  finally show "data_size l < U64" by (simp add: data_size_def)
  then have "nbands l * ?p * block_total l < U64" unfolding data_size_def by (simp only: ac_simps)
  then have "nbands l * ?p < U64" using z(4) by (rule factor_less)
  then show "block_size_bytes l = nbands l * ?p" by (simp add: block_size_bytes_def mult.commute)
  show "0 < ?p" unfolding p using pos eight_bits [of "block_pixels l * nbpp l"] by (intro gr0I) simp
  have "block_rows l R * block_cols l C \<le> block_pixels l" unfolding block_pixels_def using d by (intro mult_le_mono) auto
  then show "div_ceil (block_rows l R * block_cols l C * nbpp l) 8 \<le> ?p" unfolding p by (intro div_ceil_mono mult_le_mono1)
qed

lemma slot_offset:
  assumes "layout_ok l" "on_grid l R C" "k < nbands l"
  shows "slot l R C k * packed_band_size_bytes l + packed_band_size_bytes l \<le> data_size l"
    and "imode l = ModeS \<Longrightarrow> band_block_offset l R C k = slot l R C k * packed_band_size_bytes l"
    and "imode l \<noteq> ModeS \<Longrightarrow> wrap64 (wrap64 (block_index l R C * block_size_bytes l) + k * packed_band_size_bytes l) =
      slot l R C k * packed_band_size_bytes l"
proof -
  note b = band_size [OF assms(1,2)] and z = sizes [OF assms(1,2)]
  show fits: "slot l R C k * packed_band_size_bytes l + packed_band_size_bytes l \<le> data_size l"
    unfolding data_size_def by (rule block_in [OF slot_less [OF assms(2,3)]])
  have "k * (nbpr l * nbpc l) * packed_band_size_bytes l + (R * nbpr l + C) * packed_band_size_bytes l =
      (k * block_total l + (R * nbpr l + C)) * packed_band_size_bytes l" by (simp add: block_total_def algebra_simps)
  then show "imode l = ModeS \<Longrightarrow> band_block_offset l R C k = slot l R C k * packed_band_size_bytes l"
    using fits b(2) by (simp add: band_block_offset_def z(2) slot_def)
  assume "imode l \<noteq> ModeS"
  then have eq: "block_index l R C * block_size_bytes l + k * packed_band_size_bytes l = slot l R C k * packed_band_size_bytes l"
    by (simp add: z(2) b(3) slot_def algebra_simps)
  then have "block_index l R C * block_size_bytes l < U64" using fits b(2) by linarith
  then show "wrap64 (wrap64 (block_index l R C * block_size_bytes l) + k * packed_band_size_bytes l) = slot l R C k * packed_band_size_bytes l"
    using fits b(2) by (simp add: eq)
qed

text \<open>Pixels that fit their bits.\<close>

definition pixels_fit :: "'a block_layout_scheme \<Rightarrow> byte list \<Rightarrow> bool" where
  "pixels_fit l bs \<longleftrightarrow> (is_bit_packed l \<longrightarrow> bytes_per_pixel l \<in> {1, 2, 4} \<and>
    (\<forall>i < length bs div bytes_per_pixel l. pixel_value (bytes_per_pixel l) bs i < 2 ^ nbpp l))"

lemma band_slice:
  assumes l: "layout_ok l" "on_grid l R C" and len: "length bs = block_samples l R C * bytes_per_pixel l" and k: "k < nbands l"
  defines "w \<equiv> block_rows l R * block_cols l C * bytes_per_pixel l"
  shows "wrap64 (k * wrap64 w + wrap64 w) \<le> length bs"
    "slice (wrap64 (k * wrap64 w)) (wrap64 (k * wrap64 w + wrap64 w)) bs = Ok (band_part l R C bs k)"
    "length (band_part l R C bs k) = w"
proof -
  note f = block_fits [OF l]
  have len': "length bs = nbands l * w" by (simp add: len w_def algebra_simps)
  have fits: "k * w + w \<le> length bs" unfolding len' by (rule block_in [OF k])
  moreover have "length bs < U64" "w < U64" using f(2,3) len by (simp_all add: w_def)
  ultimately show "wrap64 (k * wrap64 w + wrap64 w) \<le> length bs"
    "slice (wrap64 (k * wrap64 w)) (wrap64 (k * wrap64 w + wrap64 w)) bs = Ok (band_part l R C bs k)"
    "length (band_part l R C bs k) = w"
    by (simp_all add: band_part_def sample_def flip: w_def)
qed

lemma band_packs:
  assumes l: "layout_ok l" "on_grid l R C" and packed: "is_bit_packed l"
    and len: "length bs = block_samples l R C * bytes_per_pixel l" and fit: "pixels_fit l bs" and k: "k < nbands l"
  shows "\<exists>packed. pack_bitstream (nbpp l) (band_part l R C bs k) = Ok packed \<and> length packed \<le> packed_band_size_bytes l \<and>
    (\<forall>rest. unpack_bitstream (nbpp l) (packed @ rest) (block_rows l R * block_cols l C) = Ok (band_part l R C bs k))"
proof -
  let ?n = "bytes_per_pixel l" and ?m = "block_rows l R * block_cols l C"
  have n: "0 < ?n" using sizes(3) [OF l] .
  have "pixel_value ?n (band_part l R C bs k) i < 2 ^ nbpp l" if i: "i < ?m" for i
  proof -
    have "k * ?m + i < nbands l * ?m" by (rule mult_add_less [OF k i])
    then have "k * ?m + i < length bs div ?n" using n by (simp add: len mult.commute mult.left_commute)
    moreover have "sample ?n (band_part l R C bs k) i = sample ?n bs (k * ?m + i)"
      unfolding band_part_def by (rule sample_sample [OF i])
    ultimately show ?thesis using fit packed by (simp add: pixels_fit_def pixel_value_def)
  qed
  then obtain p where "pack_bitstream (nbpp l) (band_part l R C bs k) = Ok p" "length p = div_ceil (?m * nbpp l) 8"
    "\<forall>rest. unpack_bitstream (nbpp l) (p @ rest) ?m = Ok (band_part l R C bs k)"
    using pack_unpack [of "nbpp l" ?n "band_part l R C bs k" ?m] packed band_slice(3) [OF l len k] fit
    by (auto simp: is_bit_packed_def bytes_per_pixel_def pixels_fit_def)
  then show ?thesis using band_size(5) [OF l] by auto
qed

section \<open>Writing packed bits\<close>

lemma overwrite_slot:
  assumes "length p \<le> n" "s * n + n \<le> length dst"
  shows "take (length p) (sample n (overwrite (s * n) p dst) s) = p"
    and "q \<noteq> s \<Longrightarrow> sample n (overwrite (s * n) p dst) q = sample n dst q"
proof -
  have fits: "s * n + length p \<le> length dst" using assms by linarith
  have "take (length p) (sample n (overwrite (s * n) p dst) s) = take (length p) (drop (s * n) (overwrite (s * n) p dst))"
    using assms(1) by (simp add: sample_def)
  then show "take (length p) (sample n (overwrite (s * n) p dst) s) = p" using take_drop_overwrite [OF fits] by simp
  assume "q \<noteq> s"
  then consider "q + 1 \<le> s" | "s + 1 \<le> q" by linarith
  then have "q * n + n \<le> s * n \<or> s * n + n \<le> q * n"
  proof cases
    case 1
    then show ?thesis using mult_le_mono1 [OF 1, of n] by (simp add: add_mult_distrib)
  next
    case 2
    then show ?thesis using mult_le_mono1 [OF 2, of n] by (simp add: add_mult_distrib)
  qed
  then have away: "q * n + n \<le> s * n \<or> s * n + length p \<le> q * n" using assms(1) by linarith
  have "overwrite (s * n) p dst ! i = dst ! i" if "i < length dst" "i < s * n \<or> s * n + length p \<le> i" for i
    using that nth_overwrite [OF fits, of i] by auto
  then show "sample n (overwrite (s * n) p dst) q = sample n dst q"
    using away fits by (auto simp: sample_def intro!: nth_equalityI)
qed

lemma slots_loop:
  assumes "\<And>k. k < m \<Longrightarrow> length (P k) \<le> n \<and> S k * n + n \<le> length dst" "inj_on S {..<m}"
  shows "\<exists>out. try_fold (\<lambda>out k. blit (S k * n) (P k) out) dst [0..<m] = (Ok out :: ('a list, 'e) outcome) \<and> length out = length dst \<and>
    (\<forall>k<m. take (length (P k)) (sample n out (S k)) = P k) \<and> (\<forall>q. (\<forall>k<m. q \<noteq> S k) \<longrightarrow> sample n out q = sample n dst q)"
  using assms
proof (induction m)
  case (Suc m)
  obtain out where out: "try_fold (\<lambda>out k. blit (S k * n) (P k) out) dst [0..<m] = (Ok out :: ('a list, 'e) outcome)" "length out = length dst"
    "\<And>k. k < m \<Longrightarrow> take (length (P k)) (sample n out (S k)) = P k" "\<And>q. \<forall>k<m. q \<noteq> S k \<Longrightarrow> sample n out q = sample n dst q"
    using Suc.IH Suc.prems by (auto simp: lessThan_Suc)
  have fits: "length (P m) \<le> n" "S m * n + n \<le> length out" using Suc.prems(1) [of m] out(2) by auto
  have step: "blit (S m * n) (P m) out = (Ok (overwrite (S m * n) (P m) out) :: ('a list, 'e) outcome)" using fits by (intro blit_in) linarith
  have other: "S k \<noteq> S m" if "k < m" for k using Suc.prems(2) that by (auto simp: inj_on_def)
  show ?case
  proof (intro exI conjI allI impI)
    show "try_fold (\<lambda>out k. blit (S k * n) (P k) out) dst [0..<Suc m] = (Ok (overwrite (S m * n) (P m) out) :: ('a list, 'e) outcome)"
      using out(1) step by (simp add: try_fold_append)
    show "length (overwrite (S m * n) (P m) out) = length dst" using fits out(2) by simp
    show "take (length (P k)) (sample n (overwrite (S m * n) (P m) out) (S k)) = P k" if "k < Suc m" for k
    proof (cases "k = m")
      case True
      then show ?thesis using overwrite_slot(1) [OF fits] by simp
    next
      case False
      then have k: "k < m" using that by simp
      show ?thesis using overwrite_slot(2) [OF fits other [OF k]] out(3) [OF k] by simp
    qed
    show "sample n (overwrite (S m * n) (P m) out) q = sample n dst q" if "\<forall>k<Suc m. q \<noteq> S k" for q
      using overwrite_slot(2) [OF fits, of q] out(4) [of q] that by simp
  qed
qed simp

lemma write_packed:
  assumes l: "layout_ok l" "on_grid l R C" and packed: "is_bit_packed l" and fit: "pixels_fit l bs"
    and len: "length bs = block_samples l R C * bytes_per_pixel l" "length encoded = data_size l"
  shows "\<exists>out. write_block l R C bs encoded = Ok out \<and> length out = data_size l \<and>
    stored_bits l R C bs out \<and> other_slots l R C encoded out"
proof -
  let ?n = "packed_band_size_bytes l"
  note pack = band_packs [OF l packed len(1) fit] and part = band_slice [OF l len(1)]
  obtain P where P: "\<And>k. k < nbands l \<Longrightarrow> pack_bitstream (nbpp l) (band_part l R C bs k) = Ok (P k) \<and> length (P k) \<le> ?n"
    using pack by metis
  have "write_block l R C bs encoded = try_fold (\<lambda>out k. blit (slot l R C k * ?n) (P k) out) encoded [0..<nbands l]"
  proof (cases "imode l = ModeS")
    case True
    then show ?thesis unfolding write_block_def write_block_mode_s_def Let_def using packed
      by (simp, intro try_fold_cong) (simp add: part(2) P slot_offset(2) [OF l])
  next
    case False
    then show ?thesis unfolding write_block_def write_block_mode_bpr_def Let_def using packed
      by (simp, intro try_fold_cong) (simp add: part(2) P slot_offset(3) [OF l])
  qed
  moreover have "inj_on (slot l R C) {..<nbands l}" using slot_inj [OF l(2) _ l(2)] by (auto simp: inj_on_def)
  then obtain out where "try_fold (\<lambda>out k. blit (slot l R C k * ?n) (P k) out) encoded [0..<nbands l] = (Ok out :: (_, codec_error) outcome)"
    "length out = length encoded" "\<forall>k<nbands l. take (length (P k)) (sample ?n out (slot l R C k)) = P k"
    "\<forall>q. (\<forall>k<nbands l. q \<noteq> slot l R C k) \<longrightarrow> sample ?n out q = sample ?n encoded q"
    using slots_loop [of "nbands l" P ?n "slot l R C" encoded] P slot_offset(1) [OF l] len(2) by auto
  ultimately show ?thesis using P len(2) by (auto simp: stored_bits_def other_slots_def)
qed

section \<open>Reading packed bits\<close>

lemma concat_parts:
  assumes "length bs = block_samples l R C * bytes_per_pixel l"
  shows "concat (map (band_part l R C bs) [0..<nbands l]) = bs"
  unfolding band_part_def by (rule concat_samples) (simp add: assms)

text \<open>A stored band is unpacked from its slot.\<close>

lemma slot_unpacks:
  assumes l: "layout_ok l" "on_grid l R C" and packed: "is_bit_packed l" and fit: "pixels_fit l bs"
    and len: "length bs = block_samples l R C * bytes_per_pixel l" and stored: "stored_bits l R C bs encoded" and k: "k < nbands l"
  shows "unpack_bitstream (nbpp l) (take (packed_band_size_bytes l) (drop (slot l R C k * packed_band_size_bytes l) encoded))
    (wrap64 (block_rows l R * block_cols l C)) = Ok (band_part l R C bs k)"
proof -
  let ?s = "sample (packed_band_size_bytes l) encoded (slot l R C k)"
  obtain p where p: "pack_bitstream (nbpp l) (band_part l R C bs k) = Ok p" "take (length p) ?s = p"
    using stored k unfolding stored_bits_def by blast
  have "?s = p @ drop (length p) ?s" using append_take_drop_id [of "length p" ?s] p(2) by simp
  then have "unpack_bitstream (nbpp l) ?s (block_rows l R * block_cols l C) = Ok (band_part l R C bs k)"
    using band_packs [OF l packed len fit k] p(1) by (metis outcome.inject(1))
  then show ?thesis using block_fits(4) [OF l] by (simp add: sample_def)
qed

lemma read_packed:
  assumes l: "layout_ok l" "on_grid l R C" and packed: "is_bit_packed l" and fit: "pixels_fit l bs"
    and len: "length bs = block_samples l R C * bytes_per_pixel l"
    and buf: "buffer_wf srcs img" "heap_wf srcs h" "length (view srcs img) = data_size l" and stored: "stored_bits l R C bs (view srcs img)"
  shows "\<exists>h'. read_block l img R C h = (Ok bs, h') \<and> heap_wf srcs h'"
proof -
  let ?n = "packed_band_size_bytes l" and ?view = "view srcs img"
  note unpack = slot_unpacks [OF l packed fit len stored]
  have inside: "slot l R C k * ?n + ?n \<le> length ?view" if "k < nbands l" for k
    using slot_offset(1) [OF l that] buf(3) by simp
  have slots: "\<exists>h'. each_call f [0..<nbands l] h = (Ok (map (band_part l R C bs) [0..<nbands l]), h') \<and> heap_wf srcs h'"
    if "\<And>k h. k < nbands l \<Longrightarrow> heap_wf srcs h \<Longrightarrow> \<exists>h'. f k h = (Ok (band_part l R C bs k), h') \<and> heap_wf srcs h'" for f
    using each_call_pure [of "[0..<nbands l]" "heap_wf srcs" f "band_part l R C bs" h] that buf(2) by simp
  show ?thesis
  proof (cases "imode l = ModeS")
    case True
    let ?f = "\<lambda>band. seq (checked_bytes img (band_block_offset l R C band, ?n)) (\<lambda>packed.
      lift_outcome (unpack_bitstream (nbpp l) packed (wrap64 (block_rows l R * block_cols l C))))"
    have "\<exists>h'. ?f k h = (Ok (band_part l R C bs k), h') \<and> heap_wf srcs h'" if "k < nbands l" "heap_wf srcs h" for k h
      using checked_bytes_view [OF buf(1) that(2) inside [OF that(1)]] unpack [OF that(1)] slot_offset(2) [OF l that(1) True]
      by (auto simp: seq_def lift_outcome_def)
    then obtain h' where "each_call ?f [0..<nbands l] h = (Ok (map (band_part l R C bs) [0..<nbands l]), h')" "heap_wf srcs h'"
      using slots [of ?f] by blast
    then show ?thesis using True packed concat_parts [OF len]
      by (simp add: read_block_def read_block_mode_s_def seq_def)
  next
    case False
    let ?f = "\<lambda>band. seq (slice_bytes img (wrap64 (block_offset l R C + band * ?n)) ?n) (\<lambda>packed.
      lift_outcome (unpack_bitstream (nbpp l) packed (wrap64 (block_rows l R * block_cols l C))))"
    have "\<exists>h'. ?f k h = (Ok (band_part l R C bs k), h') \<and> heap_wf srcs h'" if "k < nbands l" "heap_wf srcs h" for k h
      using slice_bytes_view [OF buf(1) that(2) inside [OF that(1)]] unpack [OF that(1)] slot_offset(3) [OF l that(1) False] False
      by (auto simp: seq_def lift_outcome_def block_offset_def)
    then obtain h' where "each_call ?f [0..<nbands l] h = (Ok (map (band_part l R C bs) [0..<nbands l]), h')" "heap_wf srcs h'"
      using slots [of ?f] by blast
    moreover have "\<not> wrap64 (block_offset l R C + block_size_bytes l) > buffer_len img"
    proof -
      let ?i = "R * nbpr l + C" and ?k = "nbands l * ?n"
      have fits: "?i * ?k + ?k \<le> data_size l"
        using block_in [OF block_index_less [OF l(2)], of ?k] by (simp only: data_size_def mult.assoc)
      then have "?i * ?k + ?k < U64" "?i * ?k < U64" using band_size(2) [OF l] by linarith+
      then have "wrap64 (block_offset l R C + block_size_bytes l) = ?i * ?k + ?k"
        using False by (simp add: block_offset_def band_size(3) [OF l] sizes(2) [OF l])
      then show ?thesis using fits buf(3) length_view [OF buf(1)] by simp
    qed
    ultimately show ?thesis using False packed concat_parts [OF len]
      by (simp add: read_block_def read_block_mode_bpr_def Let_def seq_def)
  qed
qed

end
