(* ===== verification/Nc_Roundtrip.thy ===== *)
theory Nc_Roundtrip
  imports Nc_Packed
begin

text \<open>
  An image written block by block in any order and read back block by block, from any backing of
  the bytes: the blocks come back, whole or by bands, in every interleave mode, with packed bits and in
  either byte order.
\<close>

section \<open>Blocks in the data\<close>

definition held :: "'a block_layout_scheme \<Rightarrow> nat \<Rightarrow> nat \<Rightarrow> byte list \<Rightarrow> byte list \<Rightarrow> bool" where
  "held l R C bs encoded \<longleftrightarrow> (if is_bit_packed l then stored_bits l R C bs encoded else stored l R C bs encoded)"

lemma data_size_whole:
  assumes "layout_ok l" "on_grid l R C" "\<not> is_bit_packed l"
  shows "data_size l = total_samples l * bytes_per_pixel l"
  by (simp add: data_size_def total_samples_def whole_bytes(1) [OF assms])

lemma stored_elsewhere:
  assumes l: "layout_ok l" "on_grid l R C" "on_grid l R' C'" and other: "(R', C') \<noteq> (R, C)"
    and moved: "elsewhere l R C encoded out" and stored: "stored l R' C' bs encoded"
  shows "stored l R' C' bs out"
  unfolding stored_def
proof (intro allI impI)
  fix r c b assume rcb: "r < block_rows l R'" "c < block_cols l C'" "b < nbands l"
  note d = dimensions [OF l(1,2)] and d' = dimensions [OF l(1,3)]
  have "place l R' C' (r, c, b) \<noteq> place l R C (r', c', b')" if "r' < block_rows l R" "c' < block_cols l C" "b' < nbands l" for r' c' b'
    using place_inj [OF l(3) _ _ rcb(3) l(2) _ _ that(3), of r c r' c'] other that rcb d d' by auto
  moreover have "place l R' C' (r, c, b) < total_samples l" using rcb d' by (intro place_less [OF l(3)]) auto
  ultimately have "sample (bytes_per_pixel l) out (place l R' C' (r, c, b)) = sample (bytes_per_pixel l) encoded (place l R' C' (r, c, b))"
    using moved unfolding elsewhere_def by blast
  then show "sample (bytes_per_pixel l) out (place l R' C' (r, c, b)) =
      sample (bytes_per_pixel l) bs (sample_index (imode l) (block_rows l R') (block_cols l C') (nbands l) (r, c, b))"
    using stored rcb unfolding stored_def by simp
qed

lemma stored_bits_elsewhere:
  assumes l: "layout_ok l" "on_grid l R C" "on_grid l R' C'" and other: "(R', C') \<noteq> (R, C)"
    and moved: "other_slots l R C encoded out" and stored: "stored_bits l R' C' bs encoded"
  shows "stored_bits l R' C' bs out"
  unfolding stored_bits_def
proof (intro allI impI)
  fix k assume k: "k < nbands l"
  have "slot l R' C' k \<noteq> slot l R C j" if "j < nbands l" for j using slot_inj [OF l(3) k l(2) that] other by auto
  then have "sample (packed_band_size_bytes l) out (slot l R' C' k) = sample (packed_band_size_bytes l) encoded (slot l R' C' k)"
    using moved unfolding other_slots_def by blast
  then show "\<exists>packed. pack_bitstream (nbpp l) (band_part l R' C' bs k) = Ok packed \<and>
      take (length packed) (sample (packed_band_size_bytes l) out (slot l R' C' k)) = packed"
    using stored k unfolding stored_bits_def by simp
qed

lemma write_held:
  assumes l: "layout_ok l" "on_grid l R C" and fit: "pixels_fit l bs"
    and len: "length bs = block_samples l R C * bytes_per_pixel l" "length encoded = data_size l"
  shows "\<exists>out. write_block l R C bs encoded = Ok out \<and> length out = data_size l \<and> held l R C bs out \<and>
    (\<forall>R' C' bs'. on_grid l R' C' \<longrightarrow> (R', C') \<noteq> (R, C) \<longrightarrow> held l R' C' bs' encoded \<longrightarrow> held l R' C' bs' out)"
proof (cases "is_bit_packed l")
  case True
  then show ?thesis using write_packed [OF l True fit len] stored_bits_elsewhere [OF l] unfolding held_def by (simp only: if_True) blast
next
  case False
  then have "length encoded = total_samples l * bytes_per_pixel l" using len(2) data_size_whole [OF l] by simp
  from write_plain [OF l False len(1) this] data_size_whole [OF l False] show ?thesis
    using False stored_elsewhere [OF l] unfolding held_def by (simp only: if_False) blast
qed

lemma read_held:
  assumes l: "layout_ok l" "on_grid l R C" and fit: "pixels_fit l bs"
    and len: "length bs = block_samples l R C * bytes_per_pixel l"
    and buf: "buffer_wf srcs img" "heap_wf srcs h" "length (view srcs img) = data_size l" and held: "held l R C bs (view srcs img)"
  shows "\<exists>h'. read_block l img R C h = (Ok bs, h') \<and> heap_wf srcs h'"
proof (cases "is_bit_packed l")
  case True
  then show ?thesis using read_packed [OF l True fit len buf] held by (simp add: held_def)
next
  case False
  then have "length (view srcs img) = total_samples l * bytes_per_pixel l" using buf(3) data_size_whole [OF l] by simp
  from read_plain [OF l False buf(1,2) this] obtain out h' where out: "read_block l img R C h = (Ok out, h')" "heap_wf srcs h'"
    "length out = block_samples l R C * bytes_per_pixel l" "stored l R C out (view srcs img)" by blast
  have "out = bs" using stored_unique [OF out(4) _ out(3) len] held False by (simp add: held_def)
  then show ?thesis using out(1,2) by blast
qed

section \<open>Byte order\<close>

lemma be_bytes_le_val: "length c = n \<Longrightarrow> be_bytes n (le_val c) = rev c"
  using be_bytes_be_val [of "rev c"] by (simp add: le_val_def)

lemma swap_chunks_samples:
  assumes "0 < n" "length bs = n * m" "\<And>c. length c = n \<Longrightarrow> length (f c) = n"
  shows "length (swap_chunks f n bs) = n * m" "i < m \<Longrightarrow> sample n (swap_chunks f n bs) i = f (sample n bs i)"
proof -
  have m: "length bs div n = m" using assms(1,2) by simp
  have "length (sample n bs i) = n" if "i < m" for i
    using block_in [OF that, of n] assms(2) by (simp add: mult.commute)
  then have lens: "\<forall>x\<in>set (map (\<lambda>i. f (sample n bs i)) [0..<m]). length x = n" using assms(3) by auto
  show "length (swap_chunks f n bs) = n * m" unfolding swap_chunks_def m using length_concat_equal [OF lens] by simp
  assume "i < m"
  then show "sample n (swap_chunks f n bs) i = f (sample n bs i)"
    unfolding swap_chunks_def m using sample_concat [OF lens, of i] by simp
qed

lemma swap_samples:
  assumes "length bs = n * m"
  shows "length (swap_ne_to_be big_endian bs n) = n * m" "length (swap_be_to_ne big_endian bs n) = n * m"
    and "i < m \<Longrightarrow> sample n (swap_ne_to_be big_endian bs n) i = swapped big_endian n (sample n bs i)"
    and "i < m \<Longrightarrow> sample n (swap_be_to_ne big_endian bs n) i = swapped big_endian n (sample n bs i)"
proof -
  have len: "length (sample n bs i) = n" if "i < m" for i using block_in [OF that, of n] assms by (simp add: mult.commute)
  have rev: "be_bytes n (le_val c) = rev c" "le_bytes n (be_val c) = rev c" if "length c = n" for c
    using that be_bytes_be_val [of c] be_bytes_le_val [of c] by (simp_all add: le_bytes_def)
  consider (same) "big_endian \<or> n \<notin> {2, 4, 8}" | (swap) "\<not> big_endian" "n \<in> {2, 4, 8}" by blast
  then have "length (swap_ne_to_be big_endian bs n) = n * m \<and> length (swap_be_to_ne big_endian bs n) = n * m \<and>
      (\<forall>i<m. sample n (swap_ne_to_be big_endian bs n) i = swapped big_endian n (sample n bs i) \<and>
        sample n (swap_be_to_ne big_endian bs n) i = swapped big_endian n (sample n bs i))"
  proof cases
    case same
    then show ?thesis using assms by (auto simp: swap_ne_to_be_def swap_be_to_ne_def swapped_def)
  next
    case swap
    then have "0 < n" by auto
    note out = swap_chunks_samples [OF this assms, of "\<lambda>c. be_bytes n (le_val c)"]
    note inn = swap_chunks_samples [OF \<open>0 < n\<close> assms, of "\<lambda>c. le_bytes n (be_val c)"]
    have "swap_ne_to_be big_endian bs n = swap_chunks (\<lambda>c. be_bytes n (le_val c)) n bs"
      "swap_be_to_ne big_endian bs n = swap_chunks (\<lambda>c. le_bytes n (be_val c)) n bs"
      using swap by (auto simp: swap_ne_to_be_def swap_be_to_ne_def)
    then show ?thesis using out inn swap rev len by (simp add: swapped_def)
  qed
  then show "length (swap_ne_to_be big_endian bs n) = n * m" "length (swap_be_to_ne big_endian bs n) = n * m"
    "i < m \<Longrightarrow> sample n (swap_ne_to_be big_endian bs n) i = swapped big_endian n (sample n bs i)"
    "i < m \<Longrightarrow> sample n (swap_be_to_ne big_endian bs n) i = swapped big_endian n (sample n bs i)" by blast+
qed

lemma swapped_twice [simp]: "swapped big_endian n (swapped big_endian n c) = c"
  by (simp add: swapped_def)

text \<open>What the data of a block become on their way into the image data.\<close>

definition converted :: "bool \<Rightarrow> 'a block_layout_scheme \<Rightarrow> nat \<Rightarrow> nat \<Rightarrow> byte list \<Rightarrow> (byte list, codec_error) outcome" where
  "converted big_endian l R C bs = from_band_sequential (swap_ne_to_be big_endian bs (bytes_per_pixel l)) (imode l)
    (block_rows l R) (block_cols l C) (nbands l) (bytes_per_pixel l)"

definition block_at :: "bool \<Rightarrow> 'a block_layout_scheme \<Rightarrow> nat \<Rightarrow> nat \<Rightarrow> byte list \<Rightarrow> byte list \<Rightarrow> bool" where
  "block_at big_endian l R C bs encoded \<longleftrightarrow> (\<exists>out. converted big_endian l R C bs = Ok out \<and> held l R C out encoded)"

text \<open>A block that the encoder takes: the size of its place, and pixels that fit their bits.\<close>

definition block_ok :: "bool \<Rightarrow> 'a block_layout_scheme \<Rightarrow> nat \<Rightarrow> nat \<Rightarrow> byte list \<Rightarrow> bool" where
  "block_ok big_endian l R C bs \<longleftrightarrow> length bs = block_samples l R C * bytes_per_pixel l \<and>
    pixels_fit l (swap_ne_to_be big_endian bs (bytes_per_pixel l))"

lemma pixels_fit_moved:
  assumes fit: "pixels_fit l xs" and len: "length xs = rows * cols * nbands l * bytes_per_pixel l"
    and moved: "moved ModeS mode rows cols (nbands l) (bytes_per_pixel l) xs out"
  shows "pixels_fit l out"
  unfolding pixels_fit_def
proof (intro impI conjI allI)
  assume packed: "is_bit_packed l"
  then show bpp: "bytes_per_pixel l \<in> {1, 2, 4}" using fit by (simp add: pixels_fit_def)
  then have "0 < bytes_per_pixel l" by auto
  then have m: "length xs div bytes_per_pixel l = rows * cols * nbands l" "length out div bytes_per_pixel l = rows * cols * nbands l"
    using len moved by (simp_all add: moved_def)
  fix i assume "i < length out div bytes_per_pixel l"
  then have "i < rows * cols * nbands l" using m(2) by simp
  then obtain r c b where rcb: "r < rows" "c < cols" "b < nbands l" "i = sample_index mode rows cols (nbands l) (r, c, b)"
    by (rule sample_index_cases)
  have "pixel_value (bytes_per_pixel l) out i = pixel_value (bytes_per_pixel l) xs (sample_index ModeS rows cols (nbands l) (r, c, b))"
    using moved rcb by (simp add: moved_def pixel_value_def del: sample_index.simps)
  then show "pixel_value (bytes_per_pixel l) out i < 2 ^ nbpp l"
    using fit packed sample_index_less [OF rcb(1-3), of ModeS] m(1) by (simp add: pixels_fit_def del: sample_index.simps)
qed

lemma converted_moves:
  assumes l: "layout_ok l" "on_grid l R C" and ok: "block_ok big_endian l R C bs"
  shows "\<exists>out. converted big_endian l R C bs = Ok out \<and> pixels_fit l out \<and> length out = block_samples l R C * bytes_per_pixel l \<and>
    moved ModeS (imode l) (block_rows l R) (block_cols l C) (nbands l) (bytes_per_pixel l)
      (swap_ne_to_be big_endian bs (bytes_per_pixel l)) out"
proof -
  let ?x = "swap_ne_to_be big_endian bs (bytes_per_pixel l)"
  have "length bs = bytes_per_pixel l * block_samples l R C" using ok by (simp add: block_ok_def)
  from swap_samples(1) [OF this] have len: "length ?x = block_samples l R C * bytes_per_pixel l" by simp
  from from_band_sequential_moves [OF len block_fits(2) [OF l], of "imode l"]
  obtain out where out: "converted big_endian l R C bs = Ok out"
    "moved ModeS (imode l) (block_rows l R) (block_cols l C) (nbands l) (bytes_per_pixel l) ?x out"
    unfolding converted_def by blast
  then show ?thesis using pixels_fit_moved [OF _ len out(2)] ok len by (simp add: block_ok_def moved_def)
qed

section \<open>The encoder\<close>

abbreviation encoder :: "block_layout \<Rightarrow> byte list \<Rightarrow> bool list list \<Rightarrow> nc_encoder" where
  "encoder l d seen \<equiv> block_layout.extend l \<lparr>encoded_data = d, blocks_encoded = seen\<rparr>"

lemma extend_layout [simp]:
  "image_rows (block_layout.extend l x) = image_rows l" "image_cols (block_layout.extend l x) = image_cols l"
  "nbpr (block_layout.extend l x) = nbpr l" "nbpc (block_layout.extend l x) = nbpc l"
  "nppbh (block_layout.extend l x) = nppbh l" "nppbv (block_layout.extend l x) = nppbv l"
  "nbands (block_layout.extend l x) = nbands l" "nbpp (block_layout.extend l x) = nbpp l" "imode (block_layout.extend l x) = imode l"
  by (simp_all add: block_layout.defs)

lemma extend_sizes [simp]:
  "bytes_per_pixel (block_layout.extend l x) = bytes_per_pixel l" "is_bit_packed (block_layout.extend l x) = is_bit_packed l"
  "packed_band_size_bytes (block_layout.extend l x) = packed_band_size_bytes l"
  "block_index (block_layout.extend l x) R C = block_index l R C" "block_size_bytes (block_layout.extend l x) = block_size_bytes l"
  "band_block_offset (block_layout.extend l x) R C b = band_block_offset l R C b"
  by (simp_all add: bytes_per_pixel_def is_bit_packed_def packed_band_size_bytes_def block_index_def block_size_bytes_def band_block_offset_def)

lemma extend_operations [simp]:
  "actual_block_dimensions (block_layout.extend l x) R C = actual_block_dimensions l R C"
  "write_block_mode_s (block_layout.extend l x) = write_block_mode_s l"
  "write_block_mode_bpr (block_layout.extend l x) = write_block_mode_bpr l"
  unfolding actual_block_dimensions_def write_block_mode_s_def [abs_def] write_block_mode_bpr_def [abs_def] extend_layout extend_sizes
  by (rule refl)+

definition seen_ok :: "block_layout \<Rightarrow> bool list list \<Rightarrow> bool" where
  "seen_ok l seen \<longleftrightarrow> length seen = nbpc l \<and> (\<forall>row\<in>set seen. length row = nbpr l)"

lemma mark_block_seen:
  assumes "seen_ok l seen" "on_grid l R C"
  shows "mark_block R C seen = Ok (seen[R := (seen ! R)[C := True]])" "seen_ok l (seen[R := (seen ! R)[C := True]])"
proof -
  have "R < length seen" "length (seen ! R) = nbpr l" "C < nbpr l" using assms by (auto simp: seen_ok_def on_grid_def)
  then show "mark_block R C seen = Ok (seen[R := (seen ! R)[C := True]])"
    by (simp add: mark_block_def index_at_def set_at_def)
  show "seen_ok l (seen[R := (seen ! R)[C := True]])"
    using assms(1) \<open>length (seen ! R) = nbpr l\<close> by (auto simp: seen_ok_def dest: set_update_subset_insert [THEN subsetD])
qed

lemma encode_block_stores:
  assumes l: "layout_ok l" "on_grid l R C" and ok: "block_ok big_endian l R C bs" and d: "length d = data_size l" and seen: "seen_ok l seen"
  shows "\<exists>d'. encode_block big_endian R C bs (nbands l, block_rows l R, block_cols l C) (encoder l d seen) =
      Ok (encoder l d' (seen[R := (seen ! R)[C := True]])) \<and>
    length d' = data_size l \<and> block_at big_endian l R C bs d' \<and>
    (\<forall>R' C' bs'. on_grid l R' C' \<longrightarrow> (R', C') \<noteq> (R, C) \<longrightarrow> block_at big_endian l R' C' bs' d \<longrightarrow> block_at big_endian l R' C' bs' d')"
proof -
  obtain out where out: "converted big_endian l R C bs = Ok out" "pixels_fit l out" "length out = block_samples l R C * bytes_per_pixel l"
    using converted_moves [OF l ok] by blast
  obtain d' where d': "write_block l R C out d = Ok d'" "length d' = data_size l" "held l R C out d'"
    "\<And>R' C' bs'. on_grid l R' C' \<Longrightarrow> (R', C') \<noteq> (R, C) \<Longrightarrow> held l R' C' bs' d \<Longrightarrow> held l R' C' bs' d'"
    using write_held [OF l out(2,3) d] by blast
  have "write_block_to_buffer big_endian (encoder l d seen) R C bs (nbands l, block_rows l R, block_cols l C) d = Ok d'"
    using out(1) d'(1) by (auto simp: write_block_to_buffer_def converted_def write_block_def)
  moreover have "wrap64 (nbands l * block_rows l R * block_cols l C * bytes_per_pixel l) = length bs"
  proof -
    have "nbands l * block_rows l R * block_cols l C * bytes_per_pixel l = block_samples l R C * bytes_per_pixel l" by (simp only: ac_simps)
    then show ?thesis using block_fits(2) [OF l] ok by (simp only: block_ok_def wrap64_id)
  qed
  ultimately have "encode_block big_endian R C bs (nbands l, block_rows l R, block_cols l C) (encoder l d seen) =
      Ok (encoder l d' (seen[R := (seen ! R)[C := True]]))"
    using l(2) dimensions(1) [OF l] mark_block_seen(1) [OF seen l(2)]
    by (simp add: encode_block_def on_grid_def) (simp add: block_layout.defs)
  then show ?thesis using out(1) d' unfolding block_at_def by blast
qed

definition block_shape :: "'a block_layout_scheme \<Rightarrow> nat \<Rightarrow> nat \<Rightarrow> nat \<times> nat \<times> nat" where
  "block_shape l R C = (nbands l, block_rows l R, block_cols l C)"

lemma encode_blocks:
  assumes l: "layout_ok l" and ps: "\<forall>(R, C)\<in>set ps. on_grid l R C \<and> block_ok big_endian l R C (img R C)"
    and d: "length d = data_size l" and seen: "seen_ok l seen"
  shows "\<exists>d' seen'. try_fold (\<lambda>e (R, C). encode_block big_endian R C (img R C) (block_shape l R C) e) (encoder l d seen) ps =
      Ok (encoder l d' seen') \<and> length d' = data_size l \<and> seen_ok l seen' \<and>
    (\<forall>R C. on_grid l R C \<longrightarrow> (seen' ! R ! C \<longleftrightarrow> (R, C) \<in> set ps \<or> seen ! R ! C) \<and>
      ((R, C) \<in> set ps \<or> block_at big_endian l R C (img R C) d \<longrightarrow> block_at big_endian l R C (img R C) d'))"
  using ps d seen
proof (induction ps arbitrary: d seen)
  case (Cons p ps)
  obtain R0 C0 where p: "p = (R0, C0)" by (cases p)
  have on: "on_grid l R0 C0" and ok: "block_ok big_endian l R0 C0 (img R0 C0)" using Cons.prems(1) p by auto
  let ?seen = "seen[R0 := (seen ! R0)[C0 := True]]"
  obtain d1 where d1: "encode_block big_endian R0 C0 (img R0 C0) (block_shape l R0 C0) (encoder l d seen) = Ok (encoder l d1 ?seen)"
    "length d1 = data_size l" "block_at big_endian l R0 C0 (img R0 C0) d1"
    "\<And>R' C' bs'. on_grid l R' C' \<Longrightarrow> (R', C') \<noteq> (R0, C0) \<Longrightarrow> block_at big_endian l R' C' bs' d \<Longrightarrow> block_at big_endian l R' C' bs' d1"
    using encode_block_stores [OF l on ok Cons.prems(2,3)] unfolding block_shape_def by blast
  have seen1: "seen_ok l ?seen" using mark_block_seen(2) [OF Cons.prems(3) on] .
  have flag: "?seen ! R ! C \<longleftrightarrow> (R, C) = (R0, C0) \<or> seen ! R ! C" if "on_grid l R C" for R C
    using that on Cons.prems(3) by (auto simp: on_grid_def seen_ok_def nth_list_update)
  obtain d' seen' where rest: "try_fold (\<lambda>e (R, C). encode_block big_endian R C (img R C) (block_shape l R C) e) (encoder l d1 ?seen) ps =
      Ok (encoder l d' seen')" "length d' = data_size l" "seen_ok l seen'"
    "\<And>R C. on_grid l R C \<Longrightarrow> (seen' ! R ! C \<longleftrightarrow> (R, C) \<in> set ps \<or> ?seen ! R ! C) \<and>
      ((R, C) \<in> set ps \<or> block_at big_endian l R C (img R C) d1 \<longrightarrow> block_at big_endian l R C (img R C) d')"
    using Cons.IH [OF _ d1(2) seen1] Cons.prems(1) by fastforce
  have "(seen' ! R ! C \<longleftrightarrow> (R, C) \<in> set (p # ps) \<or> seen ! R ! C) \<and>
      ((R, C) \<in> set (p # ps) \<or> block_at big_endian l R C (img R C) d \<longrightarrow> block_at big_endian l R C (img R C) d')"
    if "on_grid l R C" for R C
  proof (cases "(R, C) = (R0, C0)")
    case True
    then show ?thesis using rest(4) [OF that] flag [OF that] d1(3) p by auto
  next
    case False
    then show ?thesis using rest(4) [OF that] flag [OF that] d1(4) [OF that False] p by auto
  qed
  then show ?case using rest(1-3) d1(1) by (auto simp: p)
qed (intro exI conjI allI impI, auto)

lemma new_encoder:
  assumes l: "layout_ok l"
  shows "nc_encoder_new (image_rows l) (image_cols l) (nbands l) (nbpp l) (imode l) (nppbh l) (nppbv l) =
      Ok (encoder l (replicate (data_size l) 0) (replicate (nbpc l) (replicate (nbpr l) False)))"
    and "seen_ok l (replicate (nbpc l) (replicate (nbpr l) False))"
proof -
  have size: "wrap64 (nbpc l * nbpr l * block_size_bytes l) = data_size l"
  proof (cases "on_grid l 0 0")
    case True
    then show ?thesis using band_size(2,3) [OF l True] by (simp add: data_size_def block_total_def mult.assoc)
  next
    case False
    then have "nbpc l = 0 \<or> nbpr l = 0" by (auto simp: on_grid_def)
    then show ?thesis by (auto simp: data_size_def block_total_def)
  qed
  have "div_ceil_or_panic (image_cols l) (nppbh l) = (Ok (nbpr l) :: (nat, codec_error) outcome)"
    "div_ceil_or_panic (image_rows l) (nppbv l) = (Ok (nbpc l) :: (nat, codec_error) outcome)"
    using l by (simp_all add: layout_ok_def div_ceil_or_panic_def)
  moreover have same: "\<lparr>image_rows = image_rows l, image_cols = image_cols l, nbpr = nbpr l, nbpc = nbpc l, nppbh = nppbh l, nppbv = nppbv l,
      nbands = nbands l, nbpp = nbpp l, imode = imode l\<rparr> = l" by simp
  ultimately show "nc_encoder_new (image_rows l) (image_cols l) (nbands l) (nbpp l) (imode l) (nppbh l) (nppbv l) =
      Ok (encoder l (replicate (data_size l) 0) (replicate (nbpc l) (replicate (nbpr l) False)))"
    using size by (simp only: nc_encoder_new_def Let_def and_then.simps)
  show "seen_ok l (replicate (nbpc l) (replicate (nbpr l) False))" by (auto simp: seen_ok_def)
qed

lemma finalize_seen:
  assumes "seen_ok l seen" "\<And>R C. on_grid l R C \<Longrightarrow> seen ! R ! C"
  shows "finalize (encoder l d seen) = Ok d"
proof -
  have "list_all (list_all id) seen"
    using assms by (auto simp: list_all_length seen_ok_def on_grid_def)
  then show ?thesis by (simp add: finalize_def block_layout.defs)
qed

lemma skip_blocks:
  assumes "seen_ok l seen" "\<forall>(R, C)\<in>set qs. on_grid l R C" "on_grid l R0 C0" "(R0, C0) \<notin> set qs" "\<not> seen ! R0 ! C0"
  shows "\<exists>seen'. try_fold (\<lambda>e (R, C). skip_block R C e) (encoder l d seen) qs = Ok (encoder l d seen') \<and> seen_ok l seen' \<and> \<not> seen' ! R0 ! C0"
  using assms
proof (induction qs arbitrary: seen)
  case (Cons q qs)
  obtain R C where q: "q = (R, C)" by (cases q)
  have on: "on_grid l R C" and other: "(R, C) \<noteq> (R0, C0)" using Cons.prems(2,4) q by auto
  let ?seen = "seen[R := (seen ! R)[C := True]]"
  note mark = mark_block_seen [OF Cons.prems(1) on]
  have "\<not> ?seen ! R0 ! C0"
    using other on Cons.prems(1,3,5) by (auto simp: nth_list_update seen_ok_def on_grid_def)
  then obtain seen' where "try_fold (\<lambda>e (R, C). skip_block R C e) (encoder l d ?seen) qs = Ok (encoder l d seen')" "seen_ok l seen'" "\<not> seen' ! R0 ! C0"
    using Cons.IH [OF mark(2) _ Cons.prems(3)] Cons.prems(2,4) by auto
  moreover have "skip_block R C (encoder l d seen) = Ok (encoder l d ?seen)"
    using on mark(1) by (simp add: skip_block_def on_grid_def) (simp add: block_layout.defs)
  ultimately show ?case by (auto simp: q)
next
  case (Nil seen)
  then show ?case by (intro exI [of _ seen]) simp
qed

section \<open>The decoder\<close>

text \<open>A choice of bands that the decoder serves, and what it gives.\<close>

definition bands_ok :: "'a block_layout_scheme \<Rightarrow> nat list option \<Rightarrow> bool" where
  "bands_ok l bands \<longleftrightarrow> (case bands of None \<Rightarrow> True | Some b \<Rightarrow> b \<noteq> [] \<and> length b \<le> nbands l \<and> (\<forall>x\<in>set b. x < nbands l))"

definition selected :: "'a block_layout_scheme \<Rightarrow> nat \<Rightarrow> nat \<Rightarrow> nat list option \<Rightarrow> byte list \<Rightarrow> byte list" where
  "selected l R C bands bs = (case bands of None \<Rightarrow> bs | Some b \<Rightarrow> concat (map (band_part l R C bs) b))"

definition source_band :: "nat list option \<Rightarrow> nat \<Rightarrow> nat" where
  "source_band bands k = (case bands of None \<Rightarrow> k | Some b \<Rightarrow> b ! k)"

lemma chosen_bands_ok: "bands_ok l bands \<Longrightarrow> chosen_bands bands = bands"
  by (auto simp: bands_ok_def chosen_bands_def split: option.splits)

lemma source_band_pairs:
  assumes "bands_ok l bands"
  shows "band_selection (nbands l) bands = Ok (band_count l bands)"
    and "k < band_count l bands \<Longrightarrow> (k, source_band bands k) \<in> set (band_pairs (nbands l) bands) \<and> source_band bands k < nbands l"
    and "band_count l bands \<le> nbands l"
proof -
  show "band_selection (nbands l) bands = Ok (band_count l bands)" "band_count l bands \<le> nbands l"
    using assms by (cases bands; auto simp: bands_ok_def band_count_def not_le)+
  assume k: "k < band_count l bands"
  show "(k, source_band bands k) \<in> set (band_pairs (nbands l) bands) \<and> source_band bands k < nbands l"
  proof (cases bands)
    case (Some b)
    then have pair: "k < length (band_pairs (nbands l) bands)" "band_pairs (nbands l) bands ! k = (k, source_band bands k)"
      using k by (simp_all add: band_count_def source_band_def)
    have "b ! k \<in> set b" using Some k by (simp add: band_count_def)
    then have "source_band bands k < nbands l" using Some assms by (simp add: bands_ok_def source_band_def)
    then show ?thesis using nth_mem [OF pair(1)] unfolding pair(2) by blast
  qed (use k in \<open>auto simp: band_count_def source_band_def\<close>)
qed

lemma selected_samples:
  assumes l: "layout_ok l" "on_grid l R C" and len: "length bs = block_samples l R C * bytes_per_pixel l" and bands: "bands_ok l bands"
  shows "length (selected l R C bands bs) = block_rows l R * block_cols l C * band_count l bands * bytes_per_pixel l"
    and "r < block_rows l R \<Longrightarrow> c < block_cols l C \<Longrightarrow> k < band_count l bands \<Longrightarrow>
      sample (bytes_per_pixel l) (selected l R C bands bs) (sample_index ModeS (block_rows l R) (block_cols l C) (band_count l bands) (r, c, k)) =
      sample (bytes_per_pixel l) bs (sample_index ModeS (block_rows l R) (block_cols l C) (nbands l) (r, c, source_band bands k))"
    and "select_bands l bs (block_rows l R) (block_cols l C) bands = Ok (selected l R C bands bs)"
proof -
  let ?n = "bytes_per_pixel l" and ?m = "block_rows l R * block_cols l C"
  note part = band_slice [OF l len]
  have parts: "\<forall>x\<in>set (map (band_part l R C bs) b). length x = ?m * ?n" if "bands = Some b" for b
    using bands part(3) that by (auto simp: bands_ok_def)
  show "length (selected l R C bands bs) = ?m * band_count l bands * ?n"
    using len length_concat_equal [OF parts] by (cases bands) (simp_all add: selected_def band_count_def)
  show "sample ?n (selected l R C bands bs) (sample_index ModeS (block_rows l R) (block_cols l C) (band_count l bands) (r, c, k)) =
      sample ?n bs (sample_index ModeS (block_rows l R) (block_cols l C) (nbands l) (r, c, source_band bands k))"
    if rck: "r < block_rows l R" "c < block_cols l C" "k < band_count l bands"
  proof (cases bands)
    case (Some b)
    have i: "r * block_cols l C + c < ?m" using mult_add_less [OF rck(1,2)] .
    have "sample (?m * ?n) (concat (map (band_part l R C bs) b)) k = band_part l R C bs (b ! k)"
      using sample_concat [OF parts [OF Some], of k] rck(3) Some by (simp add: band_count_def)
    then have "sample ?n (concat (map (band_part l R C bs) b)) (k * ?m + (r * block_cols l C + c)) =
        sample ?n (band_part l R C bs (b ! k)) (r * block_cols l C + c)"
      using sample_sample [OF i, of ?n "concat (map (band_part l R C bs) b)" k] by simp
    also have "\<dots> = sample ?n bs (b ! k * ?m + (r * block_cols l C + c))" unfolding band_part_def by (rule sample_sample [OF i])
    finally show ?thesis using Some by (simp add: selected_def source_band_def)
  qed (simp add: selected_def source_band_def band_count_def)
  show "select_bands l bs (block_rows l R) (block_cols l C) bands = Ok (selected l R C bands bs)"
  proof (cases bands)
    case (Some b)
    have "try_map (\<lambda>band. if band \<ge> nbands l then Err Decode
          else if wrap64 (band * wrap64 (?m * ?n) + wrap64 (?m * ?n)) > length bs then Err Decode
          else slice (wrap64 (band * wrap64 (?m * ?n))) (wrap64 (band * wrap64 (?m * ?n) + wrap64 (?m * ?n))) bs) b =
        Ok (map (band_part l R C bs) b)"
      using bands Some part(1,2) by (intro try_map_all_Ok) (auto simp: bands_ok_def not_le not_less)
    then show ?thesis using chosen_bands_ok [OF bands] Some
      by (simp add: select_bands_def apply_band_selection_def selected_def Let_def)
  qed (simp add: select_bands_def chosen_bands_def selected_def)
qed

lemma selected_unique:
  assumes l: "layout_ok l" "on_grid l R C" and len: "length bs = block_samples l R C * bytes_per_pixel l" and bands: "bands_ok l bands"
    and out: "length out = block_rows l R * block_cols l C * band_count l bands * bytes_per_pixel l"
    and same: "\<And>r c k. r < block_rows l R \<Longrightarrow> c < block_cols l C \<Longrightarrow> k < band_count l bands \<Longrightarrow>
      sample (bytes_per_pixel l) out (sample_index ModeS (block_rows l R) (block_cols l C) (band_count l bands) (r, c, k)) =
      sample (bytes_per_pixel l) bs (sample_index ModeS (block_rows l R) (block_cols l C) (nbands l) (r, c, source_band bands k))"
  shows "out = selected l R C bands bs"
proof (rule list_eq_samples [where n = "bytes_per_pixel l" and m = "block_rows l R * block_cols l C * band_count l bands"])
  fix j assume "j < block_rows l R * block_cols l C * band_count l bands"
  then obtain r c k where rck: "r < block_rows l R" "c < block_cols l C" "k < band_count l bands"
    "j = sample_index ModeS (block_rows l R) (block_cols l C) (band_count l bands) (r, c, k)" by (rule sample_index_cases)
  then show "sample (bytes_per_pixel l) out j = sample (bytes_per_pixel l) (selected l R C bands bs) j"
    using same [OF rck(1-3)] selected_samples(2) [OF l len bands rck(1-3)] by simp
qed (use out selected_samples(1) [OF l len bands] in \<open>simp_all only: ac_simps\<close>)

section \<open>Decoding\<close>

lemma swap_back:
  assumes "length bs = n * m"
  shows "swap_be_to_ne big_endian (swap_ne_to_be big_endian bs n) n = bs"
proof (rule list_eq_samples [where n = n and m = m])
  note out = swap_samples [OF assms, where big_endian = big_endian]
  note again = swap_samples [OF out(1), where big_endian = big_endian]
  show "length (swap_be_to_ne big_endian (swap_ne_to_be big_endian bs n) n) = n * m" "length bs = n * m" using again(2) assms by simp_all
  show "sample n (swap_be_to_ne big_endian (swap_ne_to_be big_endian bs n) n) j = sample n bs j" if "j < m" for j
    using out(3) [OF that] again(4) [OF that] by simp
qed

text \<open>The fused converter, on one thread or many, gives the chosen bands.\<close>

lemma fused_selected:
  assumes l: "layout_ok l" "on_grid l R C" and mode: "imode l = ModeP" and ok: "block_ok big_endian l R C bs" and bands: "bands_ok l bands"
    and raw: "converted big_endian l R C bs = Ok raw" and order: "\<And>ts. interleaving ts (order ts)"
    and dst: "length dst = block_rows l R * block_cols l C * band_count l bands * bytes_per_pixel l"
  shows "fused big_endian order l raw (block_rows l R) (block_cols l C) bands dst = Ok (selected l R C bands bs)"
proof -
  let ?rows = "block_rows l R" and ?cols = "block_cols l C" and ?n = "bytes_per_pixel l" and ?k = "band_count l bands"
  let ?x = "swap_ne_to_be big_endian bs ?n"
  have len: "length bs = block_samples l R C * ?n" "length bs = ?n * block_samples l R C" using ok by (simp_all add: block_ok_def)
  obtain out where "converted big_endian l R C bs = Ok out" "length out = block_samples l R C * ?n"
    "moved ModeS (imode l) ?rows ?cols (nbands l) ?n ?x out" using converted_moves [OF l ok] by blast
  then have src: "length raw = ?rows * ?cols * nbands l * ?n" "moved ModeS ModeP ?rows ?cols (nbands l) ?n ?x raw"
    using raw mode by simp_all
  note fits = block_fits(2) [OF l] and sel = source_band_pairs [OF bands]
  have "?rows * ?cols * ?k * ?n \<le> block_samples l R C * ?n" using sel(3) by (intro mult_le_mono1 mult_le_mono2)
  then have small: "?rows * ?cols * ?k * ?n < U64" using fits by linarith
  have checks: "fused_checks raw dst ?rows ?cols (nbands l) ?n bands = Ok ()"
    unfolding fused_checks_def sel(1) using src(1) dst fits small by (simp add: expected_size_def)
  have any: "\<exists>out. try_fold (fused_step big_endian raw ?rows ?cols (nbands l) ?n) dst ps = Ok out \<and> out = selected l R C bands bs"
    if steps: "set ps = fused_steps ?rows ?cols (nbands l) bands" for ps
  proof -
    obtain out where out: "try_fold (fused_step big_endian raw ?rows ?cols (nbands l) ?n) dst ps = Ok out" "length out = length dst"
      "\<forall>(row, col, k, b)\<in>fused_steps ?rows ?cols (nbands l) bands. sample ?n out (sample_index ModeS ?rows ?cols ?k (row, col, k)) =
        swapped big_endian ?n (sample ?n raw (sample_index ModeP ?rows ?cols (nbands l) (row, col, b)))"
      using fused_any_order [OF steps src(1) fits dst small sel(1)] by blast
    have "out = selected l R C bands bs"
    proof (rule selected_unique [OF l len(1) bands])
      show "length out = ?rows * ?cols * ?k * ?n" using out(2) dst by simp
      fix r c k assume rck: "r < ?rows" "c < ?cols" "k < ?k"
      let ?b = "source_band bands k"
      have b: "?b < nbands l" "(r, c, k, ?b) \<in> fused_steps ?rows ?cols (nbands l) bands" using sel(2) [OF rck(3)] rck by (simp_all add: fused_steps_def)
      have "sample ?n out (sample_index ModeS ?rows ?cols ?k (r, c, k)) =
          swapped big_endian ?n (sample ?n raw (sample_index ModeP ?rows ?cols (nbands l) (r, c, ?b)))"
        using bspec [OF out(3) b(2)] by (simp only: prod.case)
      also have "sample ?n raw (sample_index ModeP ?rows ?cols (nbands l) (r, c, ?b)) =
          sample ?n ?x (sample_index ModeS ?rows ?cols (nbands l) (r, c, ?b))"
        using src(2) rck(1,2) b(1) by (simp only: moved_def)
      also have "\<dots> = swapped big_endian ?n (sample ?n bs (sample_index ModeS ?rows ?cols (nbands l) (r, c, ?b)))"
        using swap_samples(3) [OF len(2) sample_index_less [OF rck(1,2) b(1)]] .
      finally show "sample ?n out (sample_index ModeS ?rows ?cols ?k (r, c, k)) =
          sample ?n bs (sample_index ModeS ?rows ?cols (nbands l) (r, c, ?b))" by (simp only: swapped_twice)
    qed
    then show ?thesis using out(1) by blast
  qed
  have "set (order (parallel_tasks ?rows ?cols (nbands l) bands DEFAULT_TILE_ROWS)) = fused_steps ?rows ?cols (nbands l) bands"
    using interleaving_set [OF order] set_parallel_tasks by simp
  then show ?thesis using any any [OF set_sequential_steps]
    by (simp add: fused_def fused_bip_to_bsq_swap_def fused_bip_to_bsq_swap_parallel_def checks try_fold_concat)
qed

lemma convert_block_selected:
  assumes l: "layout_ok l" "on_grid l R C" and ok: "block_ok big_endian l R C bs" and bands: "bands_ok l bands"
    and raw: "converted big_endian l R C bs = Ok raw" and order: "\<And>ts. interleaving ts (order ts)"
  shows "\<exists>s'. convert_block big_endian order l raw (block_rows l R) (block_cols l C) bands s =
      (Ok (selected l R C bands bs, band_count l bands, block_rows l R, block_cols l C), s') \<and> memory s' = memory s"
proof -
  let ?rows = "block_rows l R" and ?cols = "block_cols l C" and ?n = "bytes_per_pixel l" and ?k = "band_count l bands"
  let ?x = "swap_ne_to_be big_endian bs ?n"
  have len: "length bs = block_samples l R C * ?n" "length bs = ?n * block_samples l R C" using ok by (simp_all add: block_ok_def)
  have lenx: "length ?x = block_samples l R C * ?n" "length ?x = ?n * block_samples l R C" using swap_samples(1) [OF len(2)] by simp_all
  note fits = block_fits(2) [OF l] and sel = source_band_pairs [OF bands]
  show ?thesis
  proof (cases "imode l")
    case ModeP
    let ?size = "?rows * ?cols * ?k * ?n"
    have "?size \<le> block_samples l R C * ?n" using sel(3) by (intro mult_le_mono1 mult_le_mono2)
    then have "?size < U64" using fits by linarith
    then have size: "wrap64 ?size = ?size" by (rule wrap64_id)
    have "fused big_endian order l raw ?rows ?cols bands (take ?size (scratch s @ replicate (?size - length (scratch s)) 0)) =
        Ok (selected l R C bands bs)"
      by (rule fused_selected [OF l ModeP ok bands raw order]) simp
    then show ?thesis using ModeP
      by (simp add: convert_block_def chosen_bands_ok [OF bands] Let_def size seq_def lock_scratch_def)
  next
    case ModeR
    obtain out where "converted big_endian l R C bs = Ok out" "length out = block_samples l R C * ?n"
      "moved ModeS (imode l) ?rows ?cols (nbands l) ?n ?x out" using converted_moves [OF l ok] by blast
    then have src: "length raw = block_samples l R C * ?n" "moved ModeS ModeR ?rows ?cols (nbands l) ?n ?x raw" using raw ModeR by simp_all
    obtain bsq where bsq: "to_band_sequential raw ModeR ?rows ?cols (nbands l) ?n = Ok bsq" "moved ModeR ModeS ?rows ?cols (nbands l) ?n raw bsq"
      using to_band_sequential_moves [OF src(1) fits] by blast
    have "bsq = ?x" using moved_refl_eq [OF moved_trans [OF src(2) bsq(2)] lenx(1)] .
    then have select: "select_bands l bsq ?rows ?cols bands = Ok (selected l R C bands ?x)" using selected_samples(3) [OF l lenx(1) bands] by simp
    have sellen: "length (selected l R C bands ?x) = ?n * (?rows * ?cols * ?k)" using selected_samples(1) [OF l lenx(1) bands] by simp
    have "swap_be_to_ne big_endian (selected l R C bands ?x) ?n = selected l R C bands bs"
    proof (rule selected_unique [OF l len(1) bands])
      show "length (swap_be_to_ne big_endian (selected l R C bands ?x) ?n) = ?rows * ?cols * ?k * ?n"
        using swap_samples(2) [OF sellen] by simp
      fix r c k assume rck: "r < ?rows" "c < ?cols" "k < ?k"
      have b: "source_band bands k < nbands l" using sel(2) [OF rck(3)] by blast
      show "sample ?n (swap_be_to_ne big_endian (selected l R C bands ?x) ?n) (sample_index ModeS ?rows ?cols ?k (r, c, k)) =
          sample ?n bs (sample_index ModeS ?rows ?cols (nbands l) (r, c, source_band bands k))"
        unfolding swap_samples(4) [OF sellen sample_index_less [OF rck]] selected_samples(2) [OF l lenx(1) bands rck]
          swap_samples(3) [OF len(2) sample_index_less [OF rck(1,2) b]] by (rule swapped_twice)
    qed
    then show ?thesis using ModeR bsq(1) select by (simp add: convert_block_def lift_outcome_def)
  next
    case ModeS
    then have "raw = ?x" using raw lenx(1) fits by (simp add: converted_def from_band_sequential_def expected_size_def split: if_splits)
    then show ?thesis using ModeS selected_samples(3) [OF l len(1) bands] by (simp add: convert_block_def swap_back [OF len(2)] lift_outcome_def)
  next
    case ModeB
    then have "raw = ?x" using raw lenx(1) fits by (simp add: converted_def from_band_sequential_def expected_size_def split: if_splits)
    then show ?thesis using ModeB selected_samples(3) [OF l len(1) bands] by (simp add: convert_block_def swap_back [OF len(2)] lift_outcome_def)
  qed
qed

lemma decode_block_selected:
  assumes l: "layout_ok l" "on_grid l R C" and ok: "block_ok big_endian l R C bs" and bands: "bands_ok l bands"
    and order: "\<And>ts. interleaving ts (order ts)" and at: "block_at big_endian l R C bs (view srcs img)"
    and buf: "buffer_wf srcs img" "heap_wf srcs (memory s)" "length (view srcs img) = data_size l"
  shows "\<exists>s'. decode_block big_endian order l img R C 0 bands s =
      (Ok (selected l R C bands bs, band_count l bands, block_rows l R, block_cols l C), s') \<and> heap_wf srcs (memory s')"
proof -
  obtain raw where raw: "converted big_endian l R C bs = Ok raw" "held l R C raw (view srcs img)" using at unfolding block_at_def by blast
  have fit: "pixels_fit l raw" "length raw = block_samples l R C * bytes_per_pixel l" using converted_moves [OF l ok] raw(1) by auto
  obtain h' where h': "read_block l img R C (memory s) = (Ok raw, h')" "heap_wf srcs h'" using read_held [OF l fit buf raw(2)] by blast
  obtain s' where s': "convert_block big_endian order l raw (block_rows l R) (block_cols l C) bands (s\<lparr>memory := h'\<rparr>) =
      (Ok (selected l R C bands bs, band_count l bands, block_rows l R, block_cols l C), s')" "memory s' = h'"
    using convert_block_selected [OF l ok bands raw(1) order, of "s\<lparr>memory := h'\<rparr>"] by auto
  have "R < nbpc l" "C < nbpr l" using l(2) by (simp_all add: on_grid_def)
  moreover have "on_memory (if imode l = ModeS then read_block_mode_s l img R C (block_rows l R) (block_cols l C)
      else read_block_mode_bpr l img R C (block_rows l R) (block_cols l C)) s = (Ok raw, s\<lparr>memory := h'\<rparr>)"
    using h'(1) by (auto simp: on_memory_def read_block_def)
  ultimately have "decode_block big_endian order l img R C 0 bands s =
      (Ok (selected l R C bands bs, band_count l bands, block_rows l R, block_cols l C), s')"
    using s'(1) by (simp add: decode_block_def dimensions(1) [OF l] seq_def)
  then show ?thesis using s'(2) h'(2) by blast
qed

text \<open>An image of one band that is stored apart: the rows of a full block follow each other.\<close>

lemma one_band_reads:
  assumes l: "layout_ok l" "on_grid l R C" and whole: "\<not> is_bit_packed l"
    and shape: "block_rows l R = nppbv l" "block_cols l C = nppbh l"
    and one: "imode l = ModeS" "nbands l = 1"
    and buf: "buffer_wf srcs b" "heap_wf srcs h" "length (view srcs b) = data_size l"
  shows "\<exists>raw h1 h2.
    checked_bytes b (block_offset l R C, wrap64 (nppbv l * nppbh l * nbands l * bytes_per_pixel l)) h = (Ok raw, h1) \<and>
    read_block_mode_s l b R C (nppbv l) (nppbh l) h = (Ok raw, h2)"
proof -
  let ?n = "bytes_per_pixel l" and ?w = "nppbh l * bytes_per_pixel l" and ?off = "block_offset l R C" and ?view = "view srcs b"
  note w = whole_bytes [OF l whole]
  have small: "data_size l < U64" using length_view [OF buf(1)] buffer_len_lt [OF buf(1)] buf(3) by simp
  have off: "?off = band_block_offset l R C 0" "band_block_offset l R C 0 = (R * nbpr l + C) * block_pixels l * ?n"
    using one w(4) [of 0] by (simp_all add: block_offset_def band_block_offset_def)
  have "Suc (R * nbpr l + C) * (block_pixels l * ?n) \<le> block_total l * (block_pixels l * ?n)"
    using block_index_less [OF l(2)] by (intro mult_le_mono1) simp
  then have "?off + block_pixels l * ?n \<le> data_size l"
    using one(2) w(1) off by (simp add: data_size_def algebra_simps)
  then have fits: "?off + nppbv l * ?w \<le> data_size l" by (simp add: block_pixels_def algebra_simps)
  have row: "?off + r * ?w + ?w \<le> data_size l" if "r < nppbv l" for r
  proof -
    have "Suc r * ?w \<le> nppbv l * ?w" using that by (intro mult_le_mono1) simp
    then show ?thesis using fits by simp
  qed
  have "wrap64 (nppbv l * nppbh l * nbands l * ?n) = nppbv l * ?w"
    using fits small one(2) by (simp add: algebra_simps)
  moreover obtain h1 where "checked_bytes b (?off, nppbv l * ?w) h = (Ok (take (nppbv l * ?w) (drop ?off ?view)), h1)"
    using checked_bytes_view [OF buf(1,2), of ?off "nppbv l * ?w"] fits buf(3) by auto
  moreover obtain h2 where "read_pieces b (map (\<lambda>r. (?off + r * ?w, ?w)) [0..<nppbv l]) h =
      (Ok (concat (map (\<lambda>r. take ?w (drop (?off + r * ?w) ?view)) [0..<nppbv l])), h2)"
    using read_pieces_view [OF buf(1,2), of "[0..<nppbv l]" "\<lambda>r. ?off + r * ?w" ?w] row buf(3) by auto
  moreover have "concat (map (\<lambda>r. take ?w (drop (?off + r * ?w) ?view)) [0..<nppbv l]) = take (nppbv l * ?w) (drop ?off ?view)" (is "concat (map ?piece _) = ?all")
  proof -
    have "?piece r = sample ?w ?all r" if "r < nppbv l" for r
    proof -
      have "Suc r * ?w \<le> nppbv l * ?w" using that by (intro mult_le_mono1) simp
      then have "min ?w (nppbv l * ?w - r * ?w) = ?w" by simp
      then show ?thesis by (simp add: sample_def drop_take add.commute)
    qed
    then have pieces: "map ?piece [0..<nppbv l] = map (sample ?w ?all) [0..<nppbv l]" by (intro map_cong) simp_all
    show ?thesis unfolding pieces by (rule concat_samples) (use fits buf(3) in simp)
  qed
  moreover have "read_block_mode_s l b R C (nppbv l) (nppbh l) h = read_pieces b (map (\<lambda>r. (?off + r * ?w, ?w)) [0..<nppbv l]) h"
  proof -
    have "wrap64 (?off + r * nppbh l * ?n) = ?off + r * ?w \<and> wrap64 ?w = ?w" if "r < nppbv l" for r
      using row [OF that] small by (simp add: mult.assoc)
    then show ?thesis using whole one(2) off(1)
      by (auto simp: read_block_mode_s_def intro!: arg_cong [where f = "\<lambda>ps. read_pieces b ps h"])
  qed
  ultimately show ?thesis by simp
qed

section \<open>Properties\<close>

text \<open>C38: an image given to the encoder block by block, in any order, is finished, and from the bytes, whatever
  holds them, every block is decoded again: all of its bands or a choice of them, for every interleave mode, number
  of bits and byte order, on one thread or in any schedule of the parallel converter.\<close>

theorem image_blocks_roundtrip:
  fixes l :: block_layout
  assumes "layout_ok l" "set ps = {(R, C). on_grid l R C}" "\<forall>(R, C)\<in>set ps. block_ok big_endian l R C (img R C)"
    and "\<forall>ts. interleaving ts (order ts)"
  shows "\<exists>e0 e encoded.
    nc_encoder_new (image_rows l) (image_cols l) (nbands l) (nbpp l) (imode l) (nppbh l) (nppbv l) = Ok e0 \<and>
    try_fold (\<lambda>e (R, C). encode_block big_endian R C (img R C) (block_shape l R C) e) e0 ps = Ok e \<and>
    finalize e = Ok encoded \<and> length encoded = data_size l \<and>
    (\<forall>srcs b s R C bands. buffer_wf srcs b \<and> heap_wf srcs (memory s) \<and> view srcs b = encoded \<and> on_grid l R C \<and> bands_ok l bands \<longrightarrow>
      (\<exists>s'. decode_block big_endian order l b R C 0 bands s =
        (Ok (selected l R C bands (img R C), band_count l bands, block_rows l R, block_cols l C), s') \<and> heap_wf srcs (memory s')))"
proof -
  let ?seen = "replicate (nbpc l) (replicate (nbpr l) False)" and ?zero = "replicate (data_size l) 0"
  have ok: "\<forall>(R, C)\<in>set ps. on_grid l R C \<and> block_ok big_endian l R C (img R C)" using assms(2,3) by auto
  obtain d seen where run: "try_fold (\<lambda>e (R, C). encode_block big_endian R C (img R C) (block_shape l R C) e) (encoder l ?zero ?seen) ps =
      Ok (encoder l d seen)" "length d = data_size l" "seen_ok l seen"
    "\<And>R C. on_grid l R C \<Longrightarrow> (seen ! R ! C \<longleftrightarrow> (R, C) \<in> set ps \<or> ?seen ! R ! C) \<and>
      ((R, C) \<in> set ps \<or> block_at big_endian l R C (img R C) ?zero \<longrightarrow> block_at big_endian l R C (img R C) d)"
    using encode_blocks [OF assms(1) ok, of ?zero ?seen] new_encoder(2) [OF assms(1)] by auto
  have all: "seen ! R ! C" "block_at big_endian l R C (img R C) d" "block_ok big_endian l R C (img R C)" if "on_grid l R C" for R C
    using run(4) [OF that] that assms(2) ok by auto
  have "finalize (encoder l d seen) = Ok d" using run(3) all(1) by (rule finalize_seen)
  moreover have "\<exists>s'. decode_block big_endian order l b R C 0 bands s =
      (Ok (selected l R C bands (img R C), band_count l bands, block_rows l R, block_cols l C), s') \<and> heap_wf srcs (memory s')"
    if "buffer_wf srcs b" "heap_wf srcs (memory s)" "view srcs b = d" "on_grid l R C" "bands_ok l bands" for srcs b s R C bands
    using decode_block_selected [OF assms(1) that(4) all(3) [OF that(4)] that(5)] assms(4) all(2) [OF that(4)] that run(2) by simp
  ultimately show ?thesis using new_encoder(1) [OF assms(1)] run(1,2) by blast
qed

text \<open>A grid of two blocks, the second cut off by the edge, with two bands of 12-bit pixels.\<close>

definition sample_layout :: block_layout where
  "sample_layout = \<lparr>image_rows = 2, image_cols = 3, nbpr = 2, nbpc = 1, nppbh = 2, nppbv = 2, nbands = 2, nbpp = 12, imode = ModeP\<rparr>"

definition sample_block :: "nat \<Rightarrow> nat \<Rightarrow> byte list" where
  "sample_block R C = (if C = 0 then [1, 2, 3, 4, 5, 6, 7, 8, 9, 10, 11, 12, 13, 14, 255, 15] else [0, 1, 2, 3, 4, 5, 6, 7])"

lemma sample_layout_fields:
  "image_rows sample_layout = 2" "image_cols sample_layout = 3" "nbands sample_layout = 2" "nbpp sample_layout = 12"
  "imode sample_layout = ModeP" "nppbh sample_layout = 2" "nppbv sample_layout = 2"
  by (simp_all add: sample_layout_def)

lemma sample_layout_ok:
  "layout_ok sample_layout" "on_grid sample_layout R C \<longleftrightarrow> R = 0 \<and> (C = 0 \<or> C = 1)"
  "on_grid sample_layout R C \<Longrightarrow> block_ok False sample_layout R C (sample_block R C)"
proof -
  show "layout_ok sample_layout" by (simp add: layout_ok_def sample_layout_def bytes_per_pixel_def div_ceil_def block_total_def block_pixels_def U64_def)
  show grid: "on_grid sample_layout R C \<longleftrightarrow> R = 0 \<and> (C = 0 \<or> C = 1)" by (auto simp: on_grid_def sample_layout_def)
  have "swap_ne_to_be False (sample_block 0 0) 2 = [2, 1, 4, 3, 6, 5, 8, 7, 10, 9, 12, 11, 14, 13, 15, 255]"
    "swap_ne_to_be False (sample_block 0 1) 2 = [1, 0, 3, 2, 5, 4, 7, 6]"
    by (simp_all add: swap_ne_to_be_def swap_chunks_def sample_block_def sample_def upt_rec be_bytes_le_val)
  moreover have n: "bytes_per_pixel sample_layout = 2" by (simp add: bytes_per_pixel_def div_ceil_def sample_layout_fields)
  moreover have "list_all (\<lambda>i. be_val (sample 2 [2, 1, 4, 3, 6, 5, 8, 7, 10, 9, 12, 11, 14, 13, 15, 255 :: byte] i) < 4096) [0..<8]"
    "list_all (\<lambda>i. be_val (sample 2 [1, 0, 3, 2, 5, 4, 7, 6 :: byte] i) < 4096) [0..<4]"
    by (simp_all add: sample_def be_val_def upt_rec)
  ultimately have "block_ok False sample_layout 0 0 (sample_block 0 0)" "block_ok False sample_layout 0 1 (sample_block 0 1)"
    by (simp_all add: block_ok_def pixels_fit_def sample_layout_fields n block_rows_def block_cols_def
        sample_block_def pixel_value_def list_all_iff)
  then show "on_grid sample_layout R C \<Longrightarrow> block_ok False sample_layout R C (sample_block R C)" by (auto simp: grid)
qed

lemma image_blocks_roundtrip_witness:
  "\<exists>e0 e encoded s'. nc_encoder_new 2 3 2 12 ModeP 2 2 = Ok e0 \<and>
    try_fold (\<lambda>e (R, C). encode_block False R C (sample_block R C) (block_shape sample_layout R C) e) e0 [(0, 1), (0, 0)] = Ok e \<and>
    finalize e = Ok encoded \<and>
    decode_block False concat sample_layout (from_vec encoded) 0 1 0 (Some [1]) \<lparr>memory = \<lparr>fetchers = []\<rparr>, scratch = []\<rparr> =
      (Ok ([4, 5, 6, 7], 1, 2, 1), s')"
proof -
  have grid: "set [(0, 1), (0, 0)] = {(R, C). on_grid sample_layout R C}" by (auto simp: sample_layout_ok(2))
  have "\<forall>(R, C)\<in>set [(0, 1), (0, 0)]. block_ok False sample_layout R C (sample_block R C)"
    using sample_layout_ok(2,3) by auto
  from image_blocks_roundtrip [OF sample_layout_ok(1) grid this, of concat, unfolded sample_layout_fields] obtain e0 e encoded where run:
    "nc_encoder_new 2 3 2 12 ModeP 2 2 = Ok e0"
    "try_fold (\<lambda>e (R, C). encode_block False R C (sample_block R C) (block_shape sample_layout R C) e) e0 [(0, 1), (0, 0)] = Ok e"
    "finalize e = Ok encoded" "length encoded = data_size sample_layout"
    "\<And>srcs b s R C bands. buffer_wf srcs b \<Longrightarrow> heap_wf srcs (memory s) \<Longrightarrow> view srcs b = encoded \<Longrightarrow> on_grid sample_layout R C \<Longrightarrow>
      bands_ok sample_layout bands \<Longrightarrow> \<exists>s'. decode_block False concat sample_layout b R C 0 bands s =
        (Ok (selected sample_layout R C bands (sample_block R C), band_count sample_layout bands, block_rows sample_layout R, block_cols sample_layout C), s')"
    using interleaving_concat by blast
  have "length encoded < U64" using run(4) by (simp add: data_size_def sample_layout_def block_total_def packed_band_size_bytes_def div_ceil_def U64_def wrap64_def)
  then have "buffer_wf [] (from_vec encoded)" by (rule buffer_wf_from_vec)
  moreover have "selected sample_layout 0 1 (Some [1]) (sample_block 0 1) = [4, 5, 6, 7]" "band_count sample_layout (Some [1]) = 1"
    "block_rows sample_layout 0 = 2" "block_cols sample_layout 1 = 1" "bands_ok sample_layout (Some [1])"
    by code_simp+
  ultimately show ?thesis using run(1-3) run(5) [of "[]" "from_vec encoded" "\<lparr>memory = \<lparr>fetchers = []\<rparr>, scratch = []\<rparr>" 0 1 "Some [1]"]
    by (simp add: heap_wf_def sample_layout_ok(2))
qed

text \<open>C39: the encoder refuses to finish as long as a block of the grid was neither encoded nor skipped.\<close>

theorem unfinished_image_refused:
  fixes l :: block_layout
  assumes "layout_ok l" "\<forall>(R, C)\<in>set ps. on_grid l R C \<and> block_ok big_endian l R C (img R C)"
    and "\<forall>(R, C)\<in>set qs. on_grid l R C" "on_grid l R0 C0" "(R0, C0) \<notin> set ps" "(R0, C0) \<notin> set qs"
  shows "\<exists>e0 e1 e. nc_encoder_new (image_rows l) (image_cols l) (nbands l) (nbpp l) (imode l) (nppbh l) (nppbv l) = Ok e0 \<and>
    try_fold (\<lambda>e (R, C). encode_block big_endian R C (img R C) (block_shape l R C) e) e0 ps = Ok e1 \<and>
    try_fold (\<lambda>e (R, C). skip_block R C e) e1 qs = Ok e \<and> finalize e = Err Encode"
proof -
  let ?seen = "replicate (nbpc l) (replicate (nbpr l) False)" and ?zero = "replicate (data_size l) 0"
  obtain d seen where run: "try_fold (\<lambda>e (R, C). encode_block big_endian R C (img R C) (block_shape l R C) e) (encoder l ?zero ?seen) ps =
      Ok (encoder l d seen)" "seen_ok l seen" "\<not> seen ! R0 ! C0"
    using encode_blocks [OF assms(1,2), of ?zero ?seen] new_encoder(2) [OF assms(1)] assms(4,5) by (fastforce simp: on_grid_def)
  obtain seen' where rest: "try_fold (\<lambda>e (R, C). skip_block R C e) (encoder l d seen) qs = Ok (encoder l d seen')" "seen_ok l seen'" "\<not> seen' ! R0 ! C0"
    using skip_blocks [OF run(2) assms(3,4,6) run(3)] by blast
  have "\<not> list_all (list_all id) seen'"
    using rest(2,3) assms(4) by (auto simp: list_all_length seen_ok_def on_grid_def)
  then have "finalize (encoder l d seen') = Err Encode" by (simp add: finalize_def block_layout.defs)
  then show ?thesis using new_encoder(1) [OF assms(1)] run(1) rest(1) by blast
qed

lemma unfinished_image_refused_witness:
  "\<exists>e0 e1 e. nc_encoder_new 2 3 2 12 ModeP 2 2 = Ok e0 \<and>
    try_fold (\<lambda>e (R, C). encode_block False R C (sample_block R C) (block_shape sample_layout R C) e) e0 [(0, 1), (0, 1)] = Ok e1 \<and>
    try_fold (\<lambda>e (R, C). skip_block R C e) e1 [(0, 1)] = Ok e \<and> finalize e = Err Encode"
proof -
  have "\<forall>(R, C)\<in>set [(0, 1), (0, 1)]. on_grid sample_layout R C \<and> block_ok False sample_layout R C (sample_block R C)"
    using sample_layout_ok(2,3) by auto
  from unfinished_image_refused [OF sample_layout_ok(1) this, of "[(0, 1)]" 0 0, unfolded sample_layout_fields] show ?thesis
    using sample_layout_ok(2) by fastforce
qed

text \<open>C40: a full block of whole bytes is the same whether it is decoded by its place in the grid or at
  the offset of its byte range.  In the modes that keep the bands of a block together the two calls
  are one, whatever the data and the state; in the mode that stores bands apart an image of one
  band gives the same result on every buffer that holds its data.\<close>

theorem decode_at_offset_agrees:
  assumes "layout_ok l" "on_grid l R C" "\<not> is_bit_packed l"
    and "block_rows l R = nppbv l" "block_cols l C = nppbh l"
  shows "(imode l \<noteq> ModeS \<longrightarrow>
      decode_block_at_offset big_endian order l b (block_offset l R C) R C 0 bands = decode_block big_endian order l b R C 0 bands) \<and>
    (imode l = ModeS \<and> nbands l = 1 \<and> buffer_wf srcs b \<and> heap_wf srcs (memory s) \<and> length (view srcs b) = data_size l \<longrightarrow>
      fst (decode_block_at_offset big_endian order l b (block_offset l R C) R C 0 bands s) =
        fst (decode_block big_endian order l b R C 0 bands s))"
proof (intro conjI impI)
  have grid: "R < nbpc l" "C < nbpr l" using assms(2) by (simp_all add: on_grid_def)
  note dims = dimensions(1) [OF assms(1,2)]
  have "nppbv l * nppbh l * nbands l * bytes_per_pixel l = block_size_bytes l"
    using whole_bytes(2) [OF assms(1-3)] by (simp add: block_pixels_def)
  moreover have "block_size_bytes l < U64" by (simp add: block_size_bytes_def wrap64_def U64_def)
  ultimately show "decode_block_at_offset big_endian order l b (block_offset l R C) R C 0 bands = decode_block big_endian order l b R C 0 bands"
    if "imode l \<noteq> ModeS"
    using assms(3-5) that grid dims
    by (simp add: decode_block_at_offset_def decode_block_def read_block_mode_bpr_def Let_def)
  assume one: "imode l = ModeS \<and> nbands l = 1 \<and> buffer_wf srcs b \<and> heap_wf srcs (memory s) \<and> length (view srcs b) = data_size l"
  obtain raw h h' where "checked_bytes b (block_offset l R C, wrap64 (nppbv l * nppbh l * nbands l * bytes_per_pixel l)) (memory s) = (Ok raw, h)"
    "read_block_mode_s l b R C (nppbv l) (nppbh l) (memory s) = (Ok raw, h')"
    using one_band_reads [OF assms] one by blast
  then show "fst (decode_block_at_offset big_endian order l b (block_offset l R C) R C 0 bands s) =
      fst (decode_block big_endian order l b R C 0 bands s)"
    using one assms(4,5) grid dims
    by (simp add: decode_block_at_offset_def decode_block_def on_memory_def seq_def convert_block_def lift_outcome_def)
qed

lemma decode_at_offset_agrees_witness:
  "(\<forall>b. decode_block_at_offset False concat (sample_layout\<lparr>nbpp := 16\<rparr>) b 0 0 0 0 None =
      decode_block False concat (sample_layout\<lparr>nbpp := 16\<rparr>) b 0 0 0 None) \<and>
    fst (decode_block_at_offset False concat (sample_layout\<lparr>nbands := 1, nbpp := 8, imode := ModeS\<rparr>)
        (from_vec [1, 2, 3, 4, 5, 0, 6, 0]) 0 0 0 0 None \<lparr>memory = \<lparr>fetchers = []\<rparr>, scratch = []\<rparr>) =
      fst (decode_block False concat (sample_layout\<lparr>nbands := 1, nbpp := 8, imode := ModeS\<rparr>)
        (from_vec [1, 2, 3, 4, 5, 0, 6, 0]) 0 0 0 None \<lparr>memory = \<lparr>fetchers = []\<rparr>, scratch = []\<rparr>)"
    (is "_ \<and> ?one")
proof
  note layouts = layout_ok_def on_grid_def is_bit_packed_def sample_layout_def bytes_per_pixel_def div_ceil_def block_total_def
    block_pixels_def U64_def block_rows_def block_cols_def block_offset_def block_index_def wrap64_def
  let ?l = "sample_layout\<lparr>nbpp := 16\<rparr>"
  have l: "layout_ok ?l" "on_grid ?l 0 0" "\<not> is_bit_packed ?l" "block_rows ?l 0 = nppbv ?l" "block_cols ?l 0 = nppbh ?l"
    "block_offset ?l 0 0 = 0" "imode ?l \<noteq> ModeS" by (simp_all add: layouts)
  show "\<forall>b. decode_block_at_offset False concat ?l b 0 0 0 0 None = decode_block False concat ?l b 0 0 0 None"
    using decode_at_offset_agrees [OF l(1-5), of False concat _ None, unfolded l(6)] l(7) by blast
  let ?m = "sample_layout\<lparr>nbands := 1, nbpp := 8, imode := ModeS\<rparr>"
  have m: "layout_ok ?m" "on_grid ?m 0 0" "\<not> is_bit_packed ?m" "block_rows ?m 0 = nppbv ?m" "block_cols ?m 0 = nppbh ?m"
    "block_offset ?m 0 0 = 0" "imode ?m = ModeS" "nbands ?m = 1" by (simp_all add: layouts)
  have "buffer_wf [] (from_vec [1, 2, 3, 4, 5, 0, 6, 0])" by (rule buffer_wf_from_vec) (simp add: U64_def)
  moreover have "length (view [] (from_vec [1, 2, 3, 4, 5, 0, 6, 0])) = data_size ?m"
    by (simp add: data_size_def packed_band_size_bytes_def layouts)
  ultimately show ?one
    using decode_at_offset_agrees [OF m(1-5), of False concat _ None, unfolded m(6)] m(7,8) by (simp add: heap_wf_def)
qed

text \<open>At the edge of the image the two differ: the rows of the block lie apart, while a read at the offset takes them
  one behind the other.  Here the block holds the columns \<open>5\<close> and \<open>6\<close>.\<close>

lemma edge_block_at_offset:
  defines "l \<equiv> sample_layout\<lparr>nbands := 1, nbpp := 8, imode := ModeB\<rparr>" and "img \<equiv> from_vec [1, 2, 3, 4, 5, 0, 6, 0]"
    and "s \<equiv> \<lparr>memory = \<lparr>fetchers = []\<rparr>, scratch = []\<rparr>"
  shows "decode_block big_endian order l img 0 1 0 None s = (Ok ([5, 6], 1, 2, 1), s)"
    and "decode_block_at_offset big_endian order l img 4 0 1 0 None s = (Ok ([5, 0], 1, 2, 1), s)"
proof -
  have l: "nbpc l = 1" "nbpr l = 2" "imode l = ModeB" "nbands l = 1" "nppbv l = 2" "nppbh l = 2" "actual_block_dimensions l 0 1 = (2, 1)"
    "bytes_per_pixel l = 1" "\<not> is_bit_packed l" "block_offset l 0 1 = 4"
    by (simp_all add: l_def sample_layout_def actual_block_dimensions_def mul32_def add32_def sub32_def bytes_per_pixel_def div_ceil_def
        is_bit_packed_def block_offset_def block_index_def block_size_bytes_def packed_band_size_bytes_def wrap64_def U64_def)
  have only: "heap_wf [] h \<longleftrightarrow> h = \<lparr>fetchers = []\<rparr>" for h by (cases h) (simp add: heap_wf_def)
  have "buffer_wf [] img" unfolding img_def by (rule buffer_wf_from_vec) (simp add: U64_def)
  from checked_bytes_view [OF this, of "\<lparr>fetchers = []\<rparr>"]
  have piece: "checked_bytes img (k, n) \<lparr>fetchers = []\<rparr> = (Ok (take n (drop k [1, 2, 3, 4, 5, 0, 6, 0])), \<lparr>fetchers = []\<rparr>)" if "k + n \<le> 8" for k n
    using that by (simp add: only img_def)
  have swap: "swap_be_to_ne big_endian bs 1 = bs" for bs by (simp add: swap_be_to_ne_def)
  show "decode_block big_endian order l img 0 1 0 None s = (Ok ([5, 6], 1, 2, 1), s)"
    by (simp add: decode_block_def l read_block_mode_bpr_def read_pieces_def piece convert_block_def swap s_def on_memory_def seq_def
        lift_outcome_def upt_rec select_bands_def chosen_bands_def band_count_def wrap64_def U64_def Let_def del: One_nat_def) simp
  show "decode_block_at_offset big_endian order l img 4 0 1 0 None s = (Ok ([5, 0], 1, 2, 1), s)"
    by (simp add: decode_block_at_offset_def l piece convert_block_def swap s_def on_memory_def seq_def
        lift_outcome_def select_bands_def chosen_bands_def band_count_def wrap64_def U64_def Let_def del: One_nat_def)
qed

text \<open>Nor do the two agree on several bands that are stored apart: the read at the offset takes the
  next block of the first band for the second band.\<close>

lemma bands_apart_at_offset:
  defines "l \<equiv> sample_layout\<lparr>nbpp := 8, imode := ModeS\<rparr>" and "img \<equiv> from_vec [1, 2, 3, 4, 5, 6, 7, 8, 11, 12, 13, 14, 15, 16, 17, 18]"
    and "s \<equiv> \<lparr>memory = \<lparr>fetchers = []\<rparr>, scratch = []\<rparr>"
  shows "decode_block big_endian order l img 0 0 0 None s = (Ok ([1, 2, 3, 4, 11, 12, 13, 14], 2, 2, 2), s)"
    and "decode_block_at_offset big_endian order l img (block_offset l 0 0) 0 0 0 None s = (Ok ([1, 2, 3, 4, 5, 6, 7, 8], 2, 2, 2), s)"
proof -
  have l: "nbpc l = 1" "nbpr l = 2" "imode l = ModeS" "nbands l = 2" "nppbv l = 2" "nppbh l = 2" "actual_block_dimensions l 0 0 = (2, 2)"
    "bytes_per_pixel l = 1" "\<not> is_bit_packed l" "block_offset l 0 0 = 0" "band_block_offset l 0 0 0 = 0" "band_block_offset l 0 0 (Suc 0) = 8"
    by (simp_all add: l_def sample_layout_def actual_block_dimensions_def mul32_def add32_def sub32_def bytes_per_pixel_def div_ceil_def
        is_bit_packed_def block_offset_def block_index_def band_block_offset_def packed_band_size_bytes_def wrap64_def U64_def)
  have only: "heap_wf [] h \<longleftrightarrow> h = \<lparr>fetchers = []\<rparr>" for h by (cases h) (simp add: heap_wf_def)
  have "buffer_wf [] img" unfolding img_def by (rule buffer_wf_from_vec) (simp add: U64_def)
  from checked_bytes_view [OF this, of "\<lparr>fetchers = []\<rparr>"]
  have piece: "checked_bytes img (k, n) \<lparr>fetchers = []\<rparr> =
      (Ok (take n (drop k [1, 2, 3, 4, 5, 6, 7, 8, 11, 12, 13, 14, 15, 16, 17, 18])), \<lparr>fetchers = []\<rparr>)" if "k + n \<le> 16" for k n
    using that by (simp add: only img_def)
  have swap: "swap_be_to_ne big_endian bs 1 = bs" for bs by (simp add: swap_be_to_ne_def)
  show "decode_block big_endian order l img 0 0 0 None s = (Ok ([1, 2, 3, 4, 11, 12, 13, 14], 2, 2, 2), s)"
    by (simp add: decode_block_def l read_block_mode_s_def read_pieces_def piece convert_block_def swap s_def on_memory_def seq_def
        lift_outcome_def upt_rec select_bands_def chosen_bands_def band_count_def wrap64_def U64_def Let_def del: One_nat_def)
  show "decode_block_at_offset big_endian order l img (block_offset l 0 0) 0 0 0 None s = (Ok ([1, 2, 3, 4, 5, 6, 7, 8], 2, 2, 2), s)"
    by (simp add: decode_block_at_offset_def l piece convert_block_def swap s_def on_memory_def seq_def
        lift_outcome_def select_bands_def chosen_bands_def band_count_def wrap64_def U64_def Let_def del: One_nat_def)
qed

end

