(* ===== verification/Spec2Isabelle.thy ===== *)
theory Spec2Isabelle
  imports Owned_Buffer Int_Codec Expr_Roundtrip Expr_Eval Bit_Pack Block_Mask Interleave Overflow_Des Buffered_Image Structure_Depth Structure_Write_Read Dted_Roundtrip Composite Codestream_Roundtrip Nc_Roundtrip
begin

text \<open>
  \<^bold>\<open>Verification library for the core of osml-imagery-io.\<close>

  The crate reads and writes imagery formats (NITF/NSIF, TIFF, JPEG 2000, JPEG, PNG, DTED).
  Its own logic, as opposed to the C libraries it binds, is modelled here: how bytes are
  fetched from remote objects and cached, how the structure parser evaluates its
  expressions and codes its fields, how segments and image blocks are laid out in files, how DTED
  files are written and read, and how JPEG 2000 codestreams are taken apart.

  \<^bold>\<open>Conventions\<close> (theory \<open>Prelude\<close>).  A Rust call is a value of \<open>outcome\<close>: a result, an
  error of the function's error type, or a panic (an index out of range, an unwrap of
  nothing, an assertion, a checked arithmetic failure).  Calls on mutable objects take and
  return the object (\<open>call\<close>, \<open>seq\<close>).  \<open>u64\<close> and \<open>usize\<close> values are natural numbers below
  \<open>U64\<close> with wrapping sums and products, as in the release profile; machine words of the
  expression language are words of 64 bits.  Bytes are \<open>8 word\<close>, slices and copies are the
  bounds-checked functions \<open>slice\<close>, \<open>blit\<close>, \<open>index_at\<close> and \<open>set_at\<close>.  Error messages are left
  out of the error values.

  \<^bold>\<open>Remote reading.\<close>
  \<^item> \<open>Range_Cache\<close> models \<open>src/src/remote/cache.rs\<close>: the sorted list of resident ranges.
    The abstract state is the partial map \<open>cache_bytes\<close> from offsets to bytes; insertion
    and lookup are refinements of map union and map restriction, under the invariant that
    ranges are sorted, non-empty and separated.  The locale \<open>range_store\<close> states the
    contract the fetcher uses, interpreted on this cache.
  \<^item> \<open>Prefetch\<close> models \<open>src/src/remote/policy.rs\<close> and the span coalescing of the fetcher.
    The locale \<open>prefetch_policy\<close> is the trait's contract, interpreted on the header-aware
    policy.
  \<^item> \<open>Stream_Fetcher\<close> models \<open>src/src/remote/fetcher.rs\<close>.  The byte source is a record of a
    fetch function over a history of calls; the mutex is the \<open>poisoned\<close> flag.  The lemmas
    show exact reads with at most one batched fetch for a well-behaved source, and that no
    failure of the source or policy leads to a wrong byte.
  \<^item> \<open>Owned_Buffer\<close> models \<open>src/src/owned_buffer.rs\<close>: windows into mapped, heap or remote
    storage.  Shared fetchers live in a heap indexed by number, since clones and sub-views
    alias them.  Every operation is shown to act on the denoted bytes whatever the backing.

  \<^bold>\<open>Structure parser: values and expressions.\<close>
  \<^item> \<open>Int_Codec\<close> models the integer codecs of \<open>src/src/parser/writer/integer.rs\<close> and
    \<open>src/src/parser/accessor/read.rs\<close>, with round trips at every width and byte order.
  \<^item> \<open>Expr_Syntax\<close>, \<open>Expr_Parser\<close> and \<open>Expr_Roundtrip\<close> model the lexer and parser under
    \<open>src/src/parser/expression\<close>.  The recursive descent is fuelled; \<open>parse_fuel\<close> is the
    length of the text times a constant, and \<open>parse_terminates\<close> shows it never runs out.
    Parsing inverts every text of an expression: bare operands by precedence, added
    parentheses, any white space.
  \<^item> \<open>Expr_Eval\<close> models evaluation: operators on 64-bit integers, strings and floating-point
    numbers (whose arithmetic is a parameter), field navigation, array subscripts and
    methods.
  \<^item> \<open>Unicode_Text\<close> holds UTF-8, trimming and number parsing of the Rust standard library on
    lists of code points; \<open>Field_Value\<close> models \<open>src/src/parser/value.rs\<close> and
    \<open>src/src/parser/encoding.rs\<close>.  The expression evaluator keeps text as HOL strings, so
    text reaches it by its code points below 256 (\<open>context_text\<close>).

  \<^bold>\<open>Structure parser: definitions, accessor and writer.\<close>
  \<^item> \<open>Structure_Defs\<close> models \<open>src/src/parser/types.rs\<close> and the check of type references of
    \<open>src/src/parser/definition.rs\<close>.
  \<^item> \<open>Structure_Sizes\<close> models \<open>src/src/parser/accessor/context.rs\<close>: sizes of fields and nested
    types and the context the expressions see.  Nested types recurse without bound in the
    code; the model counts down \<open>depth\<close>, whose exhaustion is a panic (the stack overflow of
    the code), and \<open>nesting_bounded\<close> (\<open>Structure_Depth\<close>) shows that for types which do not
    contain themselves the bounded functions are the one solution of the unbounded recursion
    at every depth above the ranks of the types: the exhaustion is never reached.
  \<^item> \<open>Structure_Accessor\<close> models \<open>src/src/parser/accessor/mod.rs\<close>: the pass \<open>ensure_parsed\<close> over the
    fields with its three kinds of loops, the caches it fills, \<open>get\<close> with its paths, and the
    other reading operations.  A loop over elements without a count is bounded by the \<open>room\<close>
    of the reader: no more elements fit in memory.
  \<^item> \<open>Structure_Pass\<close> holds the invariant of the caches over any sequence of calls and the
    independence of reads from earlier calls; \<open>Structure_Values\<close> the types of the values read
    and the return of the until loop.
  \<^item> \<open>Structure_Writer\<close> models \<open>src/src/parser/writer/mod.rs\<close>, \<open>encode.rs\<close>, \<open>streaming.rs\<close> and
    \<open>validation.rs\<close>; printing and parsing of floating-point numbers are parameters.
    \<open>Structure_Write_Read\<close> shows that what the writer accepts the accessor reads back.

  \<^bold>\<open>JBP files.\<close>
  \<^item> \<open>Tre\<close> models the envelopes of \<open>src/src/jbp/tre.rs\<close>; \<open>Segments\<close> the segment layout of
    \<open>src/src/jbp/types.rs\<close>, with the header behind the accessor as a parameter of field lookups;
    \<open>Overflow_Des\<close> the overflow segments of \<open>src/src/jbp/overflow.rs\<close> on top of both.
  \<^item> \<open>Block_Mask\<close> models \<open>src/src/jbp/image/mask.rs\<close>.

  \<^bold>\<open>Image blocks.\<close>
  \<^item> \<open>Bit_Pack\<close> models \<open>src/src/bitpack.rs\<close>.
  \<^item> \<open>Copies\<close> holds the loop rule for block copies; \<open>Interleave\<close> models
    \<open>src/src/jbp/image/interleave.rs\<close> with it, the parallel converter included.
  \<^item> \<open>Tile_Assembler\<close> models \<open>src/src/assembly/\<close>: tiles of one grid assembled from the blocks of
    another, over any provider (locale \<open>block_provider\<close>); \<open>Buffered_Image\<close> models
    \<open>src/src/buffered/image.rs\<close>, the provider that holds its blocks in memory or takes them
    through an assembler.
  \<^item> \<open>Nc_Block\<close> models the uncompressed encoder and decoder, \<open>src/src/jbp/image/nc_encoder.rs\<close> and
    \<open>nc_decoder.rs\<close>, whose common geometry is the record \<open>block_layout\<close>.  \<open>Nc_Bits\<close> shows that the
    bit streams of packed pixels are inverse to each other, \<open>Nc_Store\<close> that blocks of different
    places never meet in the data, \<open>Nc_Plain\<close> and \<open>Nc_Packed\<close> that one block is stored and found at
    its place, \<open>Nc_Roundtrip\<close> that whole images survive being written block by block in any order.

  \<^bold>\<open>DTED files.\<close>
  \<^item> \<open>Dted_Records\<close> models \<open>src/src/dted/records.rs\<close>, \<open>Dted_Image\<close> the reader, image and metadata,
    \<open>Dted_Writer\<close> the writer over any output.  \<open>Dted_Header\<close> finds every column of a written header
    again; \<open>Dted_Roundtrip\<close> shows that the elevations and the metadata of a written file are read back.

  \<^bold>\<open>Datasets.\<close>
  \<^item> \<open>Assets\<close> models the asset types, pixel types and the metadata dictionary (\<open>src/src/traits/\<close>).
  \<^item> \<open>Composite\<close> models \<open>src/src/composite/\<close>: a primary dataset with overviews in datasets of their own.
    Inner readers and writers are records of operations; the locale \<open>dataset_reader\<close> is their contract.

  \<^bold>\<open>JPEG 2000 codestreams.\<close>
  \<^item> \<open>Codestream\<close> models \<open>src/src/j2k/markers.rs\<close>: the main header, the tables of tile-parts and the
    codestream of one tile.  \<open>Codestream_Header\<close> shows on arbitrary bytes that the walks never panic and
    agree with each other; \<open>Codestream_Roundtrip\<close> that codestreams put together from their parts are
    taken apart into the same parts.

  \<^bold>\<open>Fuel and bounds.\<close>  Three definitions count down: the expression parser (\<open>parse_fuel\<close>, shown to be
  enough by \<open>parse_terminates\<close>), nested structure types (\<open>depth\<close>, never reached above the ranks of
  the types by \<open>nesting_bounded\<close>) and the until loop of the accessor (\<open>room\<close>, the elements that fit in
  memory).  All other recursions terminate on their own measure.

  \<^bold>\<open>Not modelled.\<close>
  \<^item> The codecs that are bindings to OpenJPEG, libjpeg-turbo and libtiff, the layer over the \<open>png\<close> crate,
    and the Python bindings: their behaviour is that of code outside the repository.
  \<^item> \<open>src/src/parser/registry.rs\<close>, \<open>builtins.rs\<close> and \<open>codec.rs\<close>: structure definitions are loaded from YAML
    files by a crate; the definitions themselves are values of \<open>Structure_Defs\<close>.
  \<^item> \<open>src/src/jbp/reader.rs\<close>, \<open>writer.rs\<close>, \<open>asset.rs\<close>, \<open>metadata.rs\<close> and the facades of images, text and
    graphics: they look up fields of NITF headers by name and hand buffers to the parts modelled here;
    what they rely on is stated for any field lookup in \<open>Segments\<close> and for any layout in \<open>Nc_Block\<close>.
  \<^item> \<open>comrat.rs\<close> of both JPEG families (floating-point printing), metadata views, and the text of error
    messages.  Network access, memory mapping, JSON values and floating-point arithmetic are parameters.
\<close>

end
